(* ===== verification/Prelude.thy ===== *)
theory Prelude
  imports Main "HOL-Library.Word"
begin

unbundle bit_operations_syntax

text \<open>
  Shared vocabulary of the development: the machine integer types, checked array access, the
  lemma collections and the facts on words and lists that several components use.
  A C array access out of bounds is the value \<open>None\<close> of an option; every component threads it
  outwards, so that "the code never leaves its buffers" is a theorem and not an assumption.
\<close>

section \<open>Machine integers\<close>

type_synonym u8 = "8 word"
type_synonym u16 = "16 word"
type_synonym u32 = "32 word"
type_synonym u64 = "64 word"

named_theorems mem_simps \<open>reads and writes of checked arrays\<close>
named_theorems byte_simps \<open>splitting words into bytes and joining them again\<close>

section \<open>Checked arrays\<close>

definition load :: "'a list \<Rightarrow> nat \<Rightarrow> 'a option" where
  "load xs i = (if i < length xs then Some (xs ! i) else None)"

definition store :: "'a list \<Rightarrow> nat \<Rightarrow> 'a \<Rightarrow> 'a list option" where
  "store xs i x = (if i < length xs then Some (xs[i := x]) else None)"

text \<open>Consecutive writes \<open>p[i++] = b\<close>, in order; the first one out of bounds ends the run.\<close>

fun store_list :: "'a list \<Rightarrow> nat \<Rightarrow> 'a list \<Rightarrow> 'a list option" where
  "store_list xs i [] = Some xs"
| "store_list xs i (b # bs) = Option.bind (store xs i b) (\<lambda>xs'. store_list xs' (Suc i) bs)"

text \<open>Consecutive reads \<open>b = p[i++]\<close>.\<close>

definition load_list :: "'a list \<Rightarrow> nat \<Rightarrow> nat \<Rightarrow> 'a list option" where
  "load_list xs i n = (if i + n \<le> length xs \<or> n = 0 then Some (take n (drop i xs)) else None)"

lemma load_Some [mem_simps]: "i < length xs \<Longrightarrow> load xs i = Some (xs ! i)"
  by (simp add: load_def)

lemma load_None_iff: "load xs i = None \<longleftrightarrow> length xs \<le> i"
  by (simp add: load_def)

lemma store_Some [mem_simps]: "i < length xs \<Longrightarrow> store xs i x = Some (xs[i := x])"
  by (simp add: store_def)

lemma store_length: "store xs i x = Some ys \<Longrightarrow> length ys = length xs"
  by (auto simp: store_def split: if_splits)

lemma store_list_eq:
  "i + length bs \<le> length xs \<Longrightarrow>
   store_list xs i bs = Some (take i xs @ bs @ drop (i + length bs) xs)"
proof (induction bs arbitrary: xs i)
  case Nil
  then show ?case by simp
next
  case (Cons b bs)
  then have i: "i < length xs" by simp
  have "store_list (xs[i := b]) (Suc i) bs =
      Some (take (Suc i) (xs[i := b]) @ bs @ drop (Suc i + length bs) (xs[i := b]))"
    by (rule Cons.IH) (use Cons.prems in simp)
  moreover have "take (Suc i) (xs[i := b]) = take i xs @ [b]"
    using i by (simp add: take_Suc_conv_app_nth)
  ultimately show ?case
    using i by (simp add: store_Some)
qed

lemma store_list_None:
  "length xs < i + length bs \<Longrightarrow> bs \<noteq> [] \<Longrightarrow> store_list xs i bs = None"
proof (induction bs arbitrary: xs i)
  case Nil
  then show ?case by simp
next
  case (Cons b bs)
  show ?case
  proof (cases "i < length xs")
    case True
    with Cons.prems have "bs \<noteq> []" by auto
    with Cons.IH [of "xs[i := b]" "Suc i"] Cons.prems True show ?thesis
      by (simp add: store_Some)
  next
    case False
    then show ?thesis by (simp add: store_def)
  qed
qed

lemma store_list_append:
  "store_list xs i (bs @ cs) = Option.bind (store_list xs i bs) (\<lambda>ys. store_list ys (i + length bs) cs)"
  by (induction bs arbitrary: xs i) (auto split: Option.bind_splits)

lemma store_list_1: "store_list xs i [b] = store xs i b"
  by simp

lemma take_2_drop: "i + 1 < length xs \<Longrightarrow> take 2 (drop i xs) = [xs ! i, xs ! (i + 1)]"
  by (simp add: Cons_nth_drop_Suc [symmetric] numeral_2_eq_2)

lemma take_3_drop: "i + 2 < length xs \<Longrightarrow> take 3 (drop i xs) = [xs ! i, xs ! (i + 1), xs ! (i + 2)]"
  by (simp add: Cons_nth_drop_Suc [symmetric] numeral_3_eq_3)

lemma load_list_Some [mem_simps]: "i + n \<le> length xs \<Longrightarrow> load_list xs i n = Some (take n (drop i xs))"
  by (simp add: load_list_def)

lemma load_list_length: "load_list xs i n = Some ys \<Longrightarrow> length ys = n"
  by (auto simp: load_list_def split: if_splits)

section \<open>Bytes of a word\<close>

lemma word_xor_cancel [simp]:
  fixes a b c :: "'a::len word"
  shows "a XOR c = b XOR c \<longleftrightarrow> a = b" "c XOR a = c XOR b \<longleftrightarrow> a = b"
  by (metis xor.assoc xor.commute xor_self_eq xor.right_neutral)+

lemma unat_u8_less [simp]: "unat (b :: u8) < 256"
  using unsigned_less [of b] by simp

lemma unat_ucast_small:
  "unat (n :: 'a::len word) < 2 ^ LENGTH('b) \<Longrightarrow> unat (ucast n :: 'b::len word) = unat n"
  by (simp add: unsigned_ucast_eq take_bit_nat_eq_self)

lemma ucast_ucast_small:
  fixes n :: "'a::len word"
  assumes "unat n < 2 ^ LENGTH('b)"
  shows "ucast (ucast n :: 'b::len word) = n"
proof -
  have "unat (ucast (ucast n :: 'b word) :: 'a word) = unat n"
    using assms unsigned_less [of n] by (subst unat_ucast_small) (simp_all add: unat_ucast_small)
  then show ?thesis by (simp only: word_unat_eq_iff)
qed

lemma unat_less_size: "unat (w :: 'a::len word) < 2 ^ LENGTH('a)"
  by (rule unsigned_less)

lemma unat_inc_less:
  fixes x y :: "'a::len word"
  assumes "unat x < unat y"
  shows "unat (x + 1) = Suc (unat x)"
proof -
  have "Suc (unat x) < 2 ^ LENGTH('a)" using assms unat_less_size [of y] by linarith
  then show ?thesis by (simp add: unat_word_ariths take_bit_eq_mod)
qed

lemma unat_diff_dec:
  fixes x y :: "'a::len word"
  assumes "x < y"
  shows "unat (y - (x + 1)) < unat (y - x)"
proof -
  have "y - x \<noteq> 0" using assms by auto
  then have "unat (y - x - 1) < unat (y - x)" by (rule measure_unat)
  then show ?thesis by (simp add: algebra_simps)
qed

lemma mask_255: "(255 :: 'a::len word) = mask 8"
  by (simp add: mask_eq_exp_minus_1)

lemma byte_of_mask [byte_simps]: "ucast (w AND 255) = (ucast (w :: 'a::len word) :: u8)"
  by (rule bit_word_eqI) (auto simp: mask_255 bit_simps dest: bit_imp_le_length)

lemma join_bytes16 [byte_simps]:
  "push_bit 8 (ucast (ucast (drop_bit 8 w) :: u8) :: u16) OR ucast (ucast w :: u8) = (w :: u16)"
  by (rule bit_word_eqI) (auto simp: bit_simps)

lemma join_bytes32 [byte_simps]:
  "push_bit 24 (ucast (ucast (drop_bit 24 w) :: u8) :: u32)
   OR push_bit 16 (ucast (ucast (drop_bit 16 w) :: u8))
   OR push_bit 8 (ucast (ucast (drop_bit 8 w) :: u8))
   OR ucast (ucast w :: u8) = (w :: u32)" (is "?l = w")
proof (rule bit_word_eqI)
  fix n
  assume "n < LENGTH(32)"
  then consider "n < 8" | "8 \<le> n" "n < 16" | "16 \<le> n" "n < 24" | "24 \<le> n" "n < 32"
    by fastforce
  then show "bit ?l n \<longleftrightarrow> bit w n"
    by cases (auto simp: bit_simps)
qed

end
