(* ===== verification/Crc_Tables.thy ===== *)
theory Crc_Tables
  imports Checksums
begin

text \<open>
  The CRC variants of the checksum: the two lookup tables and the CRC-8 masks are the bit-serial
  algorithm of their polynomials, and all three meet the contract \<open>frame_cksum\<close>.
\<close>

section \<open>The bit-serial reference algorithm\<close>

text \<open>
  The reflected CRC of a polynomial: one step shifts right and, when a one fell out, adds the
  polynomial; a byte is added to the low end and followed by eight steps.
\<close>

definition crc_step :: "'a::len word \<Rightarrow> 'a word \<Rightarrow> 'a word" where
  "crc_step poly x = (if bit x 0 then drop_bit 1 x XOR poly else drop_bit 1 x)"

definition crc_byte :: "'a::len word \<Rightarrow> 'a word \<Rightarrow> u8 \<Rightarrow> 'a word" where
  "crc_byte poly crc b = (crc_step poly ^^ 8) (crc XOR ucast b)"

lemma crc_step_xor: "crc_step p (x XOR y) = crc_step p x XOR crc_step p y"
  by (rule bit_word_eqI) (auto simp: crc_step_def bit_simps)

lemma crc_steps_xor: "(crc_step p ^^ n) (x XOR y) = (crc_step p ^^ n) x XOR (crc_step p ^^ n) y"
  by (induction n) (simp_all add: crc_step_xor)

lemma crc_steps_shift:
  "n \<le> 8 \<Longrightarrow> (\<And>i. i < 8 \<Longrightarrow> \<not> bit x i) \<Longrightarrow> (crc_step p ^^ n) x = drop_bit n x"
proof (induction n)
  case 0
  then show ?case by simp
next
  case (Suc n)
  then have "\<not> bit (drop_bit n x) 0" by (simp add: bit_simps)
  with Suc show ?case by (simp add: crc_step_def drop_bit_drop_bit)
qed

lemma crc_step_even: "even x \<Longrightarrow> crc_step p x = drop_bit 1 x"
  by (simp add: crc_step_def bit_0)

lemma crc_step_odd: "odd x \<Longrightarrow> crc_step p x = drop_bit 1 x XOR p"
  by (simp add: crc_step_def bit_0)

lemma funpow_8: "(f ^^ 8) x = f (f (f (f (f (f (f (f x)))))))"
  by (simp add: numeral_eq_Suc)

lemmas crc_eval = funpow_8 crc_step_even crc_step_odd

text \<open>\<open>table_of f i xs\<close>: the entries of \<open>xs\<close> are \<open>f i\<close>, \<open>f (i + 1)\<close>, \<dots>\<close>

fun table_of :: "('a::len word \<Rightarrow> 'a word) \<Rightarrow> 'a word \<Rightarrow> 'a word list \<Rightarrow> bool" where
  "table_of f i [] = True"
| "table_of f i (x # xs) = (f i = x \<and> table_of f (i + 1) xs)"

lemma table_of_nth: "table_of f i xs \<Longrightarrow> k < length xs \<Longrightarrow> xs ! k = f (i + of_nat k)"
proof (induction xs arbitrary: i k)
  case Nil
  then show ?case by simp
next
  case (Cons x xs)
  then show ?case by (cases k) (auto simp: algebra_simps)
qed

lemma crc16_table_entries: "table_of (crc_step 0xA001 ^^ 8) 0 crc16_table"
  by (simp add: crc16_table_def crc_eval)

lemma crc32_table_entries: "table_of (crc_step 0xEDB88320 ^^ 8) 0 crc32_table"
  by (simp add: crc32_table_def crc_eval)

lemma length_crc_tables: "length crc16_table = 256" "length crc32_table = 256"
  by (simp_all add: crc16_table_def crc32_table_def)

text \<open>Eight steps split a word into its low byte, looked up, and the rest, shifted down.\<close>

lemma crc_steps_split:
  fixes x :: "'a::len word"
  shows "(crc_step p ^^ 8) x = (crc_step p ^^ 8) (x AND 255) XOR drop_bit 8 x"
proof -
  have x: "(x AND 255) XOR push_bit 8 (drop_bit 8 x) = x"
    by (rule bit_word_eqI) (auto simp: mask_255 bit_simps)
  have "(crc_step p ^^ 8) (push_bit 8 (drop_bit 8 x)) = drop_bit 8 (push_bit 8 (drop_bit 8 x))"
    by (rule crc_steps_shift) (simp_all add: bit_simps)
  also have "\<dots> = drop_bit 8 x"
    by (rule bit_word_eqI) (auto simp: bit_simps dest: bit_imp_le_length)
  finally show ?thesis
    by (metis x crc_steps_xor)
qed

lemma drop_bit_byte: "drop_bit 8 (ucast (b :: u8)) = 0"
  by (rule bit_word_eqI) (auto simp: bit_simps dest: bit_imp_le_length)

lemma unat_low_byte16: "unat (x AND 255 :: u16) < 256"
  using word_and_le1 [of x 255] by (simp add: word_le_nat_alt)

lemma unat_low_byte32: "unat (x AND 255 :: u32) < 256"
  using word_and_le1 [of x 255] by (simp add: word_le_nat_alt)

text \<open>The table-driven step is the bit-serial step of its polynomial.\<close>

lemma crc16_add_eq: "TF_CksumAdd_crc16 c b = crc_byte 0xA001 c b"
proof -
  let ?x = "c XOR ucast b"
  have "crc16_table ! unat (?x AND 255) = (crc_step 0xA001 ^^ 8) (?x AND 255)"
    using table_of_nth [OF crc16_table_entries, of "unat (?x AND 255)"] unat_low_byte16 [of ?x]
    by (simp add: length_crc_tables)
  then show ?thesis
    using crc_steps_split [of "0xA001" ?x]
    by (simp add: TF_CksumAdd_crc16_def crc_byte_def drop_bit_byte xor.commute)
qed

lemma crc32_add_eq: "TF_CksumAdd_crc32 c b = crc_byte 0xEDB88320 c b"
proof -
  let ?x = "c XOR ucast b"
  have "crc32_table ! unat (?x AND 255) = (crc_step 0xEDB88320 ^^ 8) (?x AND 255)"
    using table_of_nth [OF crc32_table_entries, of "unat (?x AND 255)"] unat_low_byte32 [of ?x]
    by (simp add: length_crc_tables)
  then show ?thesis
    using crc_steps_split [of "0xEDB88320" ?x]
    by (simp add: TF_CksumAdd_crc32_def crc_byte_def drop_bit_byte)
qed

text \<open>CRC-8: the eight masks are the eight steps of each single bit.\<close>

definition bit_or_0 :: "u8 \<Rightarrow> nat \<Rightarrow> u8" where
  "bit_or_0 x n = (if bit x n then push_bit n 1 else 0)"

lemma bit_bit_or_0: "k < 8 \<Longrightarrow> bit (bit_or_0 x k) n \<longleftrightarrow> n = k \<and> bit x k"
  by (auto simp: bit_or_0_def bit_simps)

lemma byte_as_bits:
  "x = bit_or_0 x 0 XOR bit_or_0 x 1 XOR bit_or_0 x 2 XOR bit_or_0 x 3
     XOR bit_or_0 x 4 XOR bit_or_0 x 5 XOR bit_or_0 x 6 XOR bit_or_0 x 7" (is "_ = ?y")
proof (rule bit_word_eqI)
  fix n
  assume "n < LENGTH(8)"
  then have "n \<in> {0, 1, 2, 3, 4, 5, 6, 7}" by auto
  then show "bit x n \<longleftrightarrow> bit ?y n"
    by (elim insertE) (simp_all add: bit_bit_or_0 bit_xor_iff)
qed

lemma steps_bit_or_0:
  "(crc_step 0x8C ^^ 8) (bit_or_0 x 0) = (if bit x 0 then 0x5e else 0)"
  "(crc_step 0x8C ^^ 8) (bit_or_0 x 1) = (if bit x 1 then 0xbc else 0)"
  "(crc_step 0x8C ^^ 8) (bit_or_0 x 2) = (if bit x 2 then 0x61 else 0)"
  "(crc_step 0x8C ^^ 8) (bit_or_0 x 3) = (if bit x 3 then 0xc2 else 0)"
  "(crc_step 0x8C ^^ 8) (bit_or_0 x 4) = (if bit x 4 then 0x9d else 0)"
  "(crc_step 0x8C ^^ 8) (bit_or_0 x 5) = (if bit x 5 then 0x23 else 0)"
  "(crc_step 0x8C ^^ 8) (bit_or_0 x 6) = (if bit x 6 then 0x46 else 0)"
  "(crc_step 0x8C ^^ 8) (bit_or_0 x 7) = (if bit x 7 then 0x8c else 0)"
  by (simp_all add: bit_or_0_def crc_eval)

lemma if_xor: "(if c then a XOR k else a) = a XOR (if c then k else 0)" for a k :: "'a::len word"
  by simp

lemma and_mask_bits:
  fixes x :: u8
  shows "x AND 1 \<noteq> 0 \<longleftrightarrow> bit x 0" "x AND 2 \<noteq> 0 \<longleftrightarrow> bit x 1"
    "x AND 4 \<noteq> 0 \<longleftrightarrow> bit x 2" "x AND 8 \<noteq> 0 \<longleftrightarrow> bit x 3"
    "x AND 0x10 \<noteq> 0 \<longleftrightarrow> bit x 4" "x AND 0x20 \<noteq> 0 \<longleftrightarrow> bit x 5"
    "x AND 0x40 \<noteq> 0 \<longleftrightarrow> bit x 6" "x AND 0x80 \<noteq> 0 \<longleftrightarrow> bit x 7"
  by (simp_all add: bit_iff_and_push_bit_not_eq_0)

lemma crc8_bits_eq: "crc8_bits x = (crc_step 0x8C ^^ 8) x"
proof -
  have "crc8_bits x =
      (if bit x 0 then 0x5e else 0) XOR (if bit x 1 then 0xbc else 0)
      XOR (if bit x 2 then 0x61 else 0) XOR (if bit x 3 then 0xc2 else 0)
      XOR (if bit x 4 then 0x9d else 0) XOR (if bit x 5 then 0x23 else 0)
      XOR (if bit x 6 then 0x46 else 0) XOR (if bit x 7 then 0x8c else 0)"
    unfolding crc8_bits_def Let_def if_xor and_mask_bits by (simp only: xor.left_neutral xor.assoc)
  also have "\<dots> = (crc_step 0x8C ^^ 8) x"
    by (subst (9) byte_as_bits [of x]) (simp only: crc_steps_xor steps_bit_or_0)
  finally show ?thesis .
qed

lemma crc8_add_eq: "TF_CksumAdd_crc8 c b = crc_byte 0x8C c b"
  by (simp add: TF_CksumAdd_crc8_def crc_byte_def crc8_bits_eq xor.commute)

text \<open>A polynomial with its top bit set makes the step injective, hence the whole byte step.\<close>

lemma crc_step_inj:
  fixes p :: "'a::len word"
  assumes top: "bit p (LENGTH('a) - 1)" and eq: "crc_step p x = crc_step p y"
  shows "x = y"
proof -
  have parity: "bit (crc_step p z) (LENGTH('a) - 1) \<longleftrightarrow> bit z 0" for z
    using top by (auto simp: crc_step_def bit_simps dest: bit_imp_le_length)
  then have low: "bit x 0 \<longleftrightarrow> bit y 0" using eq by metis
  then have high: "drop_bit 1 x = drop_bit 1 y"
    using eq by (auto simp: crc_step_def split: if_splits)
  show ?thesis
  proof (rule bit_word_eqI)
    fix n
    show "bit x n \<longleftrightarrow> bit y n"
    proof (cases n)
      case 0
      then show ?thesis using low by simp
    next
      case (Suc m)
      then show ?thesis using arg_cong [OF high, of "\<lambda>z. bit z m"] by (simp add: bit_simps)
    qed
  qed
qed

lemma crc_steps_inj:
  fixes p :: "'a::len word"
  assumes "bit p (LENGTH('a) - 1)"
  shows "(crc_step p ^^ n) x = (crc_step p ^^ n) y \<Longrightarrow> x = y"
  by (induction n arbitrary: x y) (auto simp: funpow_swap1 dest: crc_step_inj [OF assms])

lemma ucast_byte_inj:
  assumes "8 \<le> LENGTH('a::len)" and "(ucast (b :: u8) :: 'a word) = ucast b'"
  shows "b = b'"
proof (rule bit_word_eqI)
  fix n
  assume "n < LENGTH(8)"
  then show "bit b n \<longleftrightarrow> bit b' n"
    using assms(1) arg_cong [OF assms(2), of "\<lambda>z. bit z n"] by (simp add: bit_simps)
qed

lemma crc_byte_inj:
  fixes p :: "'a::len word"
  assumes "bit p (LENGTH('a) - 1)" and "8 \<le> LENGTH('a)"
  shows "crc_byte p c b = crc_byte p c b' \<Longrightarrow> b = b'" and "crc_byte p c b = crc_byte p c' b \<Longrightarrow> c = c'"
  by (auto simp: crc_byte_def dest!: crc_steps_inj [OF assms(1)] intro: ucast_byte_inj [OF assms(2)])

interpretation ck_crc8: frame_cksum TF_CksumAdd_crc8 TF_CksumEnd_crc8
  by unfold_locales
    (auto simp: crc8_add_eq TF_CksumEnd_crc8_def intro: crc_byte_inj [where p = "0x8C :: u8", simplified])

interpretation ck_crc16: frame_cksum TF_CksumAdd_crc16 TF_CksumEnd_crc16
  by unfold_locales
    (auto simp: crc16_add_eq TF_CksumEnd_crc16_def intro: crc_byte_inj [where p = "0xA001 :: u16", simplified])

interpretation ck_crc32: frame_cksum TF_CksumAdd_crc32 TF_CksumEnd_crc32
proof unfold_locales
  fix c c' :: u32
  assume "TF_CksumEnd_crc32 c = TF_CksumEnd_crc32 c'"
  then have "NOT (NOT c) = NOT (NOT c')" by (simp only: TF_CksumEnd_crc32_def)
  then show "c = c'" by simp
qed (auto simp: crc32_add_eq intro: crc_byte_inj [where p = "0xEDB88320 :: u32", simplified])

end
