(* ===== verification/TinyFrame.thy ===== *)
theory TinyFrame
  imports Checksums
begin

text \<open>
  tinyframe/TinyFrame.c with its header and configuration: the frame parser, the listener
  tables, the tick and the composition of frames. The state is the struct \<open>TinyFrame_\<close> as a
  record; one ghost field, \<open>wire\<close>, collects the bytes handed to \<open>TF_WriteImpl\<close>. A callback is a
  number, with \<open>None\<close> for the null pointer, and what callbacks do is a parameter. An access
  outside an array is the result \<open>None\<close>.
\<close>

section \<open>Configuration (TF_Config.h)\<close>

definition TF_SOF_BYTE :: u8 where "TF_SOF_BYTE = 0x01"
definition TF_MAX_PAYLOAD_RX :: nat where "TF_MAX_PAYLOAD_RX = 128"
definition TF_SENDBUF_LEN :: nat where "TF_SENDBUF_LEN = 2048"
definition TF_MAX_ID_LST :: nat where "TF_MAX_ID_LST = 10"
definition TF_MAX_TYPE_LST :: nat where "TF_MAX_TYPE_LST = 10"
definition TF_MAX_GEN_LST :: nat where "TF_MAX_GEN_LST = 5"
definition TF_PARSER_TIMEOUT_TICKS :: u16 where "TF_PARSER_TIMEOUT_TICKS = 10"

lemmas TF_config = TF_SOF_BYTE_def TF_MAX_PAYLOAD_RX_def TF_SENDBUF_LEN_def TF_MAX_ID_LST_def
  TF_MAX_TYPE_LST_def TF_MAX_GEN_LST_def TF_PARSER_TIMEOUT_TICKS_def

definition TF_ID_MASK :: u16 where "TF_ID_MASK = push_bit 15 1 - 1"
definition TF_ID_PEERBIT :: u16 where "TF_ID_PEERBIT = push_bit 15 1"

section \<open>Data (TinyFrame.h)\<close>

datatype TF_Peer = TF_SLAVE | TF_MASTER

datatype TF_Result = TF_NEXT | TF_STAY | TF_RENEW | TF_CLOSE

datatype TF_State = TFState_SOF | TFState_LEN | TFState_HEAD_CKSUM | TFState_ID | TFState_TYPE
  | TFState_DATA | TFState_DATA_CKSUM

type_synonym TF_Listener = nat

record TF_Msg =
  frame_id :: u16
  is_response :: bool
  msg_type :: u16
  msg_data :: "u8 list option"
  msg_len :: u16
  msg_userdata :: "nat option"
  msg_userdata2 :: "nat option"

definition TF_ClearMsg :: TF_Msg where
  "TF_ClearMsg = \<lparr>frame_id = 0, is_response = False, msg_type = 0, msg_data = None, msg_len = 0,
     msg_userdata = None, msg_userdata2 = None\<rparr>"

record TF_IdListener =
  il_id :: u16
  il_fn :: "TF_Listener option"
  il_timeout :: u16
  il_timeout_max :: u16
  il_userdata :: "nat option"
  il_userdata2 :: "nat option"

record TF_TypeListener =
  tl_type :: u16
  tl_fn :: "TF_Listener option"

record TF_GenericListener =
  gl_fn :: "TF_Listener option"

record TinyFrame =
  userdata :: "nat option"
  usertag :: u32
  peer_bit :: TF_Peer
  next_id :: u16
  state :: TF_State
  parser_timeout_ticks :: u16
  rx_id :: u16
  rx_len :: u16
  rx_data :: "u8 list"
  rxi :: u16
  cksum :: u8
  ref_cksum :: u8
  rx_type :: u16
  discard_data :: bool
  sendbuf :: "u8 list"
  tx_pos :: u32
  tx_len :: u32
  tx_cksum :: u8
  soft_lock :: bool
  id_listeners :: "TF_IdListener list"
  type_listeners :: "TF_TypeListener list"
  generic_listeners :: "TF_GenericListener list"
  count_id_lst :: nat
  count_type_lst :: nat
  count_generic_lst :: nat
  wire :: "u8 list"

text \<open>The struct after \<open>memset(tf, 0, sizeof)\<close>, with the wire of the run so far.\<close>

definition TF_zero :: "u8 list \<Rightarrow> TinyFrame" where
  "TF_zero out =
    \<lparr>userdata = None, usertag = 0, peer_bit = TF_SLAVE, next_id = 0, state = TFState_SOF,
     parser_timeout_ticks = 0, rx_id = 0, rx_len = 0, rx_data = replicate TF_MAX_PAYLOAD_RX 0,
     rxi = 0, cksum = 0, ref_cksum = 0, rx_type = 0, discard_data = False,
     sendbuf = replicate TF_SENDBUF_LEN 0, tx_pos = 0, tx_len = 0, tx_cksum = 0,
     soft_lock = False,
     id_listeners = replicate TF_MAX_ID_LST
       \<lparr>il_id = 0, il_fn = None, il_timeout = 0, il_timeout_max = 0, il_userdata = None,
        il_userdata2 = None\<rparr>,
     type_listeners = replicate TF_MAX_TYPE_LST \<lparr>tl_type = 0, tl_fn = None\<rparr>,
     generic_listeners = replicate TF_MAX_GEN_LST \<lparr>gl_fn = None\<rparr>,
     count_id_lst = 0, count_type_lst = 0, count_generic_lst = 0, wire = out\<rparr>"

definition TF_InitStatic :: "TinyFrame option \<Rightarrow> TF_Peer \<Rightarrow> TinyFrame option \<times> bool" where
  "TF_InitStatic tfp peer =
    (case tfp of
       None \<Rightarrow> (None, False)
     | Some tf \<Rightarrow>
         (let tag = usertag tf; ud = userdata tf; tf = TF_zero (wire tf);
              tf = tf\<lparr>usertag := tag, userdata := ud\<rparr>
          in (Some (tf\<lparr>peer_bit := peer\<rparr>), True)))"

section \<open>The transmit lock\<close>

definition TF_ClaimTx :: "TinyFrame \<Rightarrow> TinyFrame \<times> bool" where
  "TF_ClaimTx tf = (if soft_lock tf then (tf, False) else (tf\<lparr>soft_lock := True\<rparr>, True))"

definition TF_ReleaseTx :: "TinyFrame \<Rightarrow> TinyFrame" where
  "TF_ReleaseTx tf = tf\<lparr>soft_lock := False\<rparr>"

section \<open>The parser\<close>

definition TF_ResetParser :: "TinyFrame \<Rightarrow> TinyFrame" where
  "TF_ResetParser tf = tf\<lparr>state := TFState_SOF\<rparr>"

definition pars_begin_frame :: "TinyFrame \<Rightarrow> TinyFrame" where
  "pars_begin_frame tf =
    tf\<lparr>cksum := TF_CksumAdd TF_CksumStart TF_SOF_BYTE, discard_data := False,
       state := TFState_ID, rxi := 0\<rparr>"

text \<open>The macro \<open>COLLECT_NUMBER\<close>: shift the destination and add the byte at its low end.\<close>

definition collect :: "'a::len word \<Rightarrow> u8 \<Rightarrow> 'a word" where
  "collect dest c = push_bit 8 dest OR ucast c"

definition accept_sof :: "TinyFrame \<Rightarrow> u8 \<Rightarrow> TinyFrame \<times> int" where
  "accept_sof tf c = (if c = TF_SOF_BYTE then (pars_begin_frame tf, 1) else (tf, -1))"

definition accept_id :: "TinyFrame \<Rightarrow> u8 \<Rightarrow> TinyFrame \<times> int" where
  "accept_id tf c =
    (let tf = tf\<lparr>cksum := TF_CksumAdd (cksum tf) c\<rparr>;
         tf = tf\<lparr>rx_id := collect (rx_id tf) c, rxi := rxi tf + 1\<rparr>
     in if rxi tf = 2 then (tf\<lparr>state := TFState_LEN, rxi := 0\<rparr>, 2) else (tf, -2))"

definition accept_len :: "TinyFrame \<Rightarrow> u8 \<Rightarrow> TinyFrame \<times> int" where
  "accept_len tf c =
    (let tf = tf\<lparr>cksum := TF_CksumAdd (cksum tf) c\<rparr>;
         tf = tf\<lparr>rx_len := collect (rx_len tf) c, rxi := rxi tf + 1\<rparr>
     in if rxi tf = 2 then (tf\<lparr>state := TFState_TYPE, rxi := 0\<rparr>, 3) else (tf, -3))"

definition accept_type :: "TinyFrame \<Rightarrow> u8 \<Rightarrow> TinyFrame \<times> int" where
  "accept_type tf c =
    (let tf = tf\<lparr>cksum := TF_CksumAdd (cksum tf) c\<rparr>;
         tf = tf\<lparr>rx_type := collect (rx_type tf) c, rxi := rxi tf + 1\<rparr>
     in if rxi tf = 2
        then (let tf = tf\<lparr>state := TFState_HEAD_CKSUM, rxi := 0, ref_cksum := 0\<rparr>
              in if rx_len tf = 0 then (TF_ResetParser tf, 0) else (tf, 4))
        else (tf, -4))"

definition accept_head_cksum :: "TinyFrame \<Rightarrow> u8 \<Rightarrow> TinyFrame \<times> int" where
  "accept_head_cksum tf c =
    (let tf = tf\<lparr>ref_cksum := collect (ref_cksum tf) c, rxi := rxi tf + 1\<rparr>
     in if rxi tf = 1
        then (let tf = tf\<lparr>cksum := TF_CksumEnd (cksum tf)\<rparr>;
                  (tf, result) = (if cksum tf \<noteq> ref_cksum tf then (TF_ResetParser tf, -8) else (tf, 5));
                  tf = tf\<lparr>state := TFState_DATA, rxi := 0, cksum := TF_CksumStart\<rparr>
              in if unat (rx_len tf) > TF_MAX_PAYLOAD_RX
                 then (tf\<lparr>discard_data := True\<rparr>, -9) else (tf, result))
        else (tf, -5))"

definition accept_data :: "TinyFrame \<Rightarrow> u8 \<Rightarrow> (TinyFrame \<times> int) option" where
  "accept_data tf c =
    Option.bind
      (if discard_data tf then Some (tf\<lparr>rxi := rxi tf + 1\<rparr>, -6)
       else map_option
         (\<lambda>d. (tf\<lparr>cksum := TF_CksumAdd (cksum tf) c, rx_data := d, rxi := rxi tf + 1\<rparr>, 6))
         (store (rx_data tf) (unat (rxi tf)) c))
      (\<lambda>(tf, result).
        Some (if rxi tf = rx_len tf
              then (tf\<lparr>state := TFState_DATA_CKSUM, rxi := 0, ref_cksum := 0\<rparr>, result)
              else (tf, result)))"

definition accept_data_cksum :: "TinyFrame \<Rightarrow> u8 \<Rightarrow> TinyFrame \<times> int" where
  "accept_data_cksum tf c =
    (let tf = tf\<lparr>ref_cksum := collect (ref_cksum tf) c, rxi := rxi tf + 1\<rparr>
     in if rxi tf = 1
        then (let tf = tf\<lparr>cksum := TF_CksumEnd (cksum tf)\<rparr>;
                  result = (if discard_data tf then 0
                            else if cksum tf = ref_cksum tf then 0 else -10)
              in (TF_ResetParser tf, result))
        else (tf, -7))"

text \<open>A parser that waited too long in a frame starts over with this byte.\<close>

definition parser_timeout_clear :: "TinyFrame \<Rightarrow> TinyFrame" where
  "parser_timeout_clear tf =
    (let tf = (if parser_timeout_ticks tf \<ge> TF_PARSER_TIMEOUT_TICKS \<and> state tf \<noteq> TFState_SOF
               then TF_ResetParser tf else tf)
     in tf\<lparr>parser_timeout_ticks := 0\<rparr>)"

definition TF_AcceptChar :: "TinyFrame \<Rightarrow> u8 \<Rightarrow> (TinyFrame \<times> int) option" where
  "TF_AcceptChar tf c =
    (let tf = parser_timeout_clear tf
     in case state tf of
          TFState_SOF \<Rightarrow> Some (accept_sof tf c)
        | TFState_ID \<Rightarrow> Some (accept_id tf c)
        | TFState_LEN \<Rightarrow> Some (accept_len tf c)
        | TFState_TYPE \<Rightarrow> Some (accept_type tf c)
        | TFState_HEAD_CKSUM \<Rightarrow> Some (accept_head_cksum tf c)
        | TFState_DATA \<Rightarrow> accept_data tf c
        | TFState_DATA_CKSUM \<Rightarrow> Some (accept_data_cksum tf c))"

text \<open>
  \<open>TF_Accept\<close> drops the results of the bytes; \<open>accept_results\<close> keeps them.
\<close>

fun TF_Accept :: "TinyFrame \<Rightarrow> u8 list \<Rightarrow> TinyFrame option" where
  "TF_Accept tf [] = Some tf"
| "TF_Accept tf (c # cs) = Option.bind (TF_AcceptChar tf c) (\<lambda>(tf, _). TF_Accept tf cs)"

fun accept_results :: "TinyFrame \<Rightarrow> u8 list \<Rightarrow> (TinyFrame \<times> int list) option" where
  "accept_results tf [] = Some (tf, [])"
| "accept_results tf (c # cs) =
     Option.bind (TF_AcceptChar tf c) (\<lambda>(tf, r).
       map_option (\<lambda>(tf, rs). (tf, r # rs)) (accept_results tf cs))"

section \<open>The receive invariant\<close>

text \<open>
  What the parser keeps between bytes: the counter stays below the width of the field being
  collected, and a payload byte that is stored has its index below the buffer's length.
\<close>

definition rx_inv :: "TinyFrame \<Rightarrow> bool" where
  "rx_inv tf \<longleftrightarrow> length (rx_data tf) = TF_MAX_PAYLOAD_RX \<and>
    (case state tf of
       TFState_SOF \<Rightarrow> True
     | TFState_ID \<Rightarrow> unat (rxi tf) < 2
     | TFState_LEN \<Rightarrow> unat (rxi tf) < 2
     | TFState_TYPE \<Rightarrow> unat (rxi tf) < 2
     | TFState_HEAD_CKSUM \<Rightarrow> rxi tf = 0 \<and> rx_len tf \<noteq> 0
     | TFState_DATA \<Rightarrow> rxi tf < rx_len tf \<and>
         (discard_data tf \<or> unat (rx_len tf) \<le> TF_MAX_PAYLOAD_RX)
     | TFState_DATA_CKSUM \<Rightarrow> rxi tf = 0)"

named_theorems parser_defs \<open>the handlers of the parser's states\<close>

declare accept_sof_def [parser_defs] accept_id_def [parser_defs] accept_len_def [parser_defs]
  accept_type_def [parser_defs] accept_head_cksum_def [parser_defs] accept_data_def [parser_defs]
  accept_data_cksum_def [parser_defs] TF_ResetParser_def [parser_defs]
  pars_begin_frame_def [parser_defs]

lemma rx_inv_zero: "rx_inv (TF_zero out)"
  by (simp add: rx_inv_def TF_zero_def)

lemma rx_inv_timeout_clear: "rx_inv tf \<Longrightarrow> rx_inv (parser_timeout_clear tf)"
  by (simp add: rx_inv_def parser_timeout_clear_def TF_ResetParser_def split: TF_State.splits)

lemma unat_lt_2_inc: "unat (x :: u16) < 2 \<Longrightarrow> x + 1 \<noteq> 2 \<Longrightarrow> unat (x + 1) < 2"
  by unat_arith

lemma inc_le_less: "(x :: u16) < n \<Longrightarrow> x + 1 \<noteq> n \<Longrightarrow> x + 1 < n"
  by unat_arith

lemma accept_sof_inv: "rx_inv tf \<Longrightarrow> state tf = TFState_SOF \<Longrightarrow> rx_inv (fst (accept_sof tf c))"
  by (simp add: rx_inv_def parser_defs)

lemma accept_id_inv: "rx_inv tf \<Longrightarrow> state tf = TFState_ID \<Longrightarrow> rx_inv (fst (accept_id tf c))"
  by (simp add: rx_inv_def parser_defs Let_def unat_lt_2_inc)

lemma accept_len_inv: "rx_inv tf \<Longrightarrow> state tf = TFState_LEN \<Longrightarrow> rx_inv (fst (accept_len tf c))"
  by (simp add: rx_inv_def parser_defs Let_def unat_lt_2_inc)

lemma accept_type_inv: "rx_inv tf \<Longrightarrow> state tf = TFState_TYPE \<Longrightarrow> rx_inv (fst (accept_type tf c))"
  by (simp add: rx_inv_def parser_defs Let_def unat_lt_2_inc)

lemma accept_head_cksum_inv:
  "rx_inv tf \<Longrightarrow> state tf = TFState_HEAD_CKSUM \<Longrightarrow> rx_inv (fst (accept_head_cksum tf c))"
  by (auto simp: rx_inv_def parser_defs Let_def word_neq_0_conv split: if_splits)

lemma accept_data_cksum_inv:
  "rx_inv tf \<Longrightarrow> state tf = TFState_DATA_CKSUM \<Longrightarrow> rx_inv (fst (accept_data_cksum tf c))"
  by (simp add: rx_inv_def parser_defs Let_def)

lemma accept_data_inv:
  assumes "rx_inv tf" and "state tf = TFState_DATA"
  shows "\<exists>tf' r. accept_data tf c = Some (tf', r) \<and> rx_inv tf'"
proof (cases "discard_data tf")
  case True
  with assms show ?thesis
    by (auto simp: rx_inv_def accept_data_def inc_le_less)
next
  case False
  with assms have "unat (rxi tf) < length (rx_data tf)"
    by (simp add: rx_inv_def word_less_nat_alt)
  with False assms show ?thesis
    by (auto simp: rx_inv_def accept_data_def inc_le_less mem_simps)
qed

lemma TF_AcceptChar_inv:
  assumes "rx_inv tf"
  shows "\<exists>tf' r. TF_AcceptChar tf c = Some (tf', r) \<and> rx_inv tf'"
proof -
  let ?t = "parser_timeout_clear tf"
  have inv: "rx_inv ?t" using assms by (rule rx_inv_timeout_clear)
  show ?thesis
    using accept_sof_inv [OF inv] accept_id_inv [OF inv] accept_len_inv [OF inv]
      accept_type_inv [OF inv] accept_head_cksum_inv [OF inv] accept_data_inv [OF inv]
      accept_data_cksum_inv [OF inv]
    by (cases "state ?t") (auto simp: TF_AcceptChar_def, (metis surj_pair fst_conv)+)
qed

lemma TF_Accept_inv: "rx_inv tf \<Longrightarrow> \<exists>tf'. TF_Accept tf cs = Some tf' \<and> rx_inv tf'"
proof (induction cs arbitrary: tf)
  case Nil
  then show ?case by simp
next
  case (Cons c cs)
  from TF_AcceptChar_inv [OF Cons.prems] obtain tf' r
    where "TF_AcceptChar tf c = Some (tf', r)" and "rx_inv tf'" by blast
  with Cons.IH [of tf'] show ?case by simp
qed

end
