(* ===== verification/TF_Listeners.thy ===== *)
theory TF_Listeners
  imports TinyFrame "HOL-Library.Multiset"
begin

text \<open>
  The listener tables of tinyframe/TinyFrame.c (region Listeners) and \<open>TF_Tick\<close>. The three tables
  have one discipline, stated as the locale \<open>slot_table\<close>: a table is an array with a count above
  which no slot is live, an insertion takes the first free slot, a removal frees one slot and
  lowers the count when it was the last. Callbacks are the argument \<open>E\<close>; \<open>env_msg\<close> stands for the
  indeterminate automatic variable \<open>msg\<close> of \<open>cleanup_id_listener\<close>.
\<close>

section \<open>Loops over a slot array\<close>

text \<open>
  \<open>for (i = 0; i < n; i++) if (P(slot[i])) ...; return\<close>: \<open>None\<close> when the loop leaves the array,
  \<open>Some None\<close> when no slot matches.
\<close>

function scan_from :: "('s \<Rightarrow> bool) \<Rightarrow> 's list \<Rightarrow> nat \<Rightarrow> nat \<Rightarrow> nat option option" where
  "scan_from P xs i n =
    (if i < n
     then (case load xs i of None \<Rightarrow> None
           | Some x \<Rightarrow> if P x then Some (Some i) else scan_from P xs (Suc i) n)
     else Some None)"
  by pat_completeness auto
termination by (relation "measure (\<lambda>(P, xs, i, n). n - i)") auto

declare scan_from.simps [simp del]

abbreviation scan :: "('s \<Rightarrow> bool) \<Rightarrow> 's list \<Rightarrow> nat \<Rightarrow> nat option option" where
  "scan P xs n \<equiv> scan_from P xs 0 n"

lemma scan_from_result:
  assumes "n \<le> length xs"
  shows "scan_from P xs i n =
    Some (if \<exists>k. i \<le> k \<and> k < n \<and> P (xs ! k) then Some (LEAST k. i \<le> k \<and> k < n \<and> P (xs ! k)) else None)"
  using assms
proof (induction P xs i n rule: scan_from.induct)
  case (1 P xs i n)
  show ?case
  proof (cases "i < n")
    case False
    then show ?thesis by (subst scan_from.simps) auto
  next
    case True
    note unfold = scan_from.simps [of P xs i n]
    show ?thesis
    proof (cases "P (xs ! i)")
      case hit: True
      then have "(LEAST k. i \<le> k \<and> k < n \<and> P (xs ! k)) = i"
        using True by (intro Least_equality) auto
      then show ?thesis
        using True hit "1.prems" by (auto simp: unfold load_Some)
    next
      case miss: False
      then have "i \<le> k \<and> k < n \<and> P (xs ! k) \<longleftrightarrow> Suc i \<le> k \<and> k < n \<and> P (xs ! k)" for k
        by (metis Suc_leD Suc_leI le_neq_implies_less)
      moreover have "scan_from P xs i n = scan_from P xs (Suc i) n"
        using True miss "1.prems" by (simp add: unfold load_Some)
      ultimately show ?thesis
        using "1.IH" [of "xs ! i"] True miss "1.prems" by (auto simp: load_Some)
    qed
  qed
qed

lemma scan_Found:
  assumes "scan P xs n = Some (Some i)" and "n \<le> length xs"
  shows "i < n" and "P (xs ! i)" and "\<And>j. j < i \<Longrightarrow> \<not> P (xs ! j)"
proof -
  let ?Q = "\<lambda>k. k < n \<and> P (xs ! k)"
  from assms have ex: "\<exists>k. ?Q k" and i: "i = (LEAST k. ?Q k)"
    by (auto simp: scan_from_result split: if_splits)
  from LeastI_ex [OF ex] show "i < n" and "P (xs ! i)" by (simp_all add: i)
  fix j
  assume "j < i"
  with \<open>i < n\<close> show "\<not> P (xs ! j)"
    using not_less_Least [of j ?Q] by (auto simp: i)
qed

lemma scan_NotFound:
  "n \<le> length xs \<Longrightarrow> scan P xs n = Some None \<longleftrightarrow> (\<forall>k<n. \<not> P (xs ! k))"
  by (auto simp: scan_from_result split: if_splits)

lemma scan_first:
  assumes "n \<le> length xs" and "i < n" and "P (xs ! i)" and "\<And>j. j < i \<Longrightarrow> \<not> P (xs ! j)"
  shows "scan P xs n = Some (Some i)"
proof -
  have "(LEAST k. k < n \<and> P (xs ! k)) = i"
    using assms by (intro Least_equality) (auto simp: not_less [symmetric])
  then show ?thesis
    using assms by (auto simp: scan_from_result)
qed

lemma scan_defined: "n \<le> length xs \<Longrightarrow> scan P xs n \<noteq> None"
  by (simp add: scan_from_result)

section \<open>The discipline of a slot table\<close>

locale slot_table =
  fixes slots :: "'t \<Rightarrow> 's list"
    and count :: "'t \<Rightarrow> nat"
    and live :: "'s \<Rightarrow> bool"
    and cap :: nat
    and insert :: "'a \<Rightarrow> 't \<Rightarrow> ('t \<times> bool) option"
    and entry :: "'a \<Rightarrow> 's \<Rightarrow> 's"
    and discard :: "'t \<Rightarrow> nat \<Rightarrow> 't"
    and quiet :: "'t \<Rightarrow> nat \<Rightarrow> bool"
  assumes insert_free: "scan (\<lambda>s. \<not> live s) (slots t) cap = Some (Some i) \<Longrightarrow>
      \<exists>t'. insert a t = Some (t', True) \<and> slots t' = (slots t)[i := entry a (slots t ! i)]
        \<and> count t' = (if count t \<le> i then Suc i else count t)"
    and insert_full: "scan (\<lambda>s. \<not> live s) (slots t) cap = Some None \<Longrightarrow> insert a t = Some (t, False)"
    and discard_count: "i < length (slots t) \<Longrightarrow> live (slots t ! i) \<Longrightarrow> quiet t i \<Longrightarrow>
      count (discard t i) = (if Suc i = count t then i else count t)"
    and discard_slots: "i < length (slots t) \<Longrightarrow> live (slots t ! i) \<Longrightarrow> quiet t i \<Longrightarrow>
      \<exists>s. slots (discard t i) = (slots t)[i := s] \<and> \<not> live s"
    and entry_live: "live (entry a s)"
begin

definition table_inv :: "'t \<Rightarrow> bool" where
  "table_inv t \<longleftrightarrow> length (slots t) = cap \<and> count t \<le> cap
    \<and> (\<forall>i. count t \<le> i \<longrightarrow> i < cap \<longrightarrow> \<not> live (slots t ! i))"

lemma live_below_count: "table_inv t \<Longrightarrow> i < cap \<Longrightarrow> live (slots t ! i) \<Longrightarrow> i < count t"
  by (meson not_le table_inv_def)

text \<open>A search bounded by the count misses no live slot of the whole table.\<close>

lemma bounded_scan_complete:
  assumes "table_inv t" and "i < cap" and "live (slots t ! i)" and "P (slots t ! i)"
  shows "\<exists>j \<le> i. scan (\<lambda>s. live s \<and> P s) (slots t) (count t) = Some (Some j)"
proof -
  let ?Q = "\<lambda>k. k < count t \<and> live (slots t ! k) \<and> P (slots t ! k)"
  have "?Q i" using assms live_below_count by blast
  then show ?thesis
    using assms(1) Least_le [of ?Q i] by (auto simp: scan_from_result table_inv_def)
qed

lemma insert_cases:
  assumes "table_inv t"
  obtains (added) i t' where "i < cap" "\<not> live (slots t ! i)" "insert a t = Some (t', True)"
      "slots t' = (slots t)[i := entry a (slots t ! i)]"
      "count t' = (if count t \<le> i then Suc i else count t)"
  | (full) "insert a t = Some (t, False)" "\<forall>i < cap. live (slots t ! i)"
proof -
  have cap: "cap \<le> length (slots t)" using assms by (simp add: table_inv_def)
  obtain r where r: "scan (\<lambda>s. \<not> live s) (slots t) cap = Some r"
    using scan_defined [OF cap] by blast
  show ?thesis
  proof (cases r)
    case None
    then show ?thesis
      using r scan_NotFound [OF cap] insert_full full by auto
  next
    case (Some i)
    with r have found: "scan (\<lambda>s. \<not> live s) (slots t) cap = Some (Some i)" by simp
    from insert_free [OF found] scan_Found(1,2) [OF found cap] show ?thesis
      using added by blast
  qed
qed

lemma insert_inv:
  assumes inv: "table_inv t" and ins: "insert a t = Some (t', b)"
  shows "table_inv t'"
proof (rule insert_cases [OF inv, of a])
  fix i u
  assume "i < cap" "insert a t = Some (u, True)"
    "slots u = (slots t)[i := entry a (slots t ! i)]"
    "count u = (if count t \<le> i then Suc i else count t)"
  with inv ins show ?thesis
    by (auto simp: table_inv_def nth_list_update)
qed (use inv ins in simp)

lemma discard_inv:
  assumes "table_inv t" and "i < count t" and "live (slots t ! i)" and "quiet t i"
  shows "table_inv (discard t i)"
proof -
  have i: "i < length (slots t)" using assms by (simp add: table_inv_def)
  obtain s where s: "slots (discard t i) = (slots t)[i := s]" "\<not> live s"
    using discard_slots [OF i assms(3,4)] by blast
  have "\<not> live ((slots t)[i := s] ! k)" if "count (discard t i) \<le> k" "k < cap" for k
  proof (cases "k = i")
    case True
    then show ?thesis using s i by simp
  next
    case False
    then have "count t \<le> k"
      using that assms(2) discard_count [OF i assms(3,4)] by (auto split: if_splits)
    then show ?thesis using False assms(1) that by (simp add: table_inv_def)
  qed
  then show ?thesis
    using assms(1,2) s discard_count [OF i assms(3,4)] by (auto simp: table_inv_def)
qed

text \<open>The abstract table: the multiset of the live slots.\<close>

definition contents :: "'t \<Rightarrow> 's multiset" where
  "contents t = filter_mset live (mset (slots t))"

lemma mset_slot_update:
  assumes "i < length xs"
  shows "filter_mset live (mset (xs[i := y])) + (if live (xs ! i) then {#xs ! i#} else {#})
    = filter_mset live (mset xs) + (if live y then {#y#} else {#})"
proof -
  have "add_mset (xs ! i) (mset (xs[i := y])) = add_mset y (mset xs)"
    using assms by (simp add: mset_update nth_mem_mset)
  from arg_cong [OF this, of "filter_mset live"] show ?thesis
    by (auto split: if_splits)
qed

lemma insert_contents:
  assumes inv: "table_inv t" and ins: "insert a t = Some (t', b)"
  shows "b \<longleftrightarrow> (\<exists>i < cap. \<not> live (slots t ! i))"
    and "\<exists>s. contents t' = (if b then add_mset (entry a s) (contents t) else contents t)"
proof -
  have "(b \<longleftrightarrow> (\<exists>i < cap. \<not> live (slots t ! i))) \<and>
    (\<exists>s. contents t' = (if b then add_mset (entry a s) (contents t) else contents t))"
  proof (rule insert_cases [OF inv, of a])
    fix i u
    assume i: "i < cap" "\<not> live (slots t ! i)" "insert a t = Some (u, True)"
      and u: "slots u = (slots t)[i := entry a (slots t ! i)]"
    with ins have b: "b" "t' = u" by simp_all
    have "i < length (slots t)" using i(1) inv by (simp add: table_inv_def)
    from mset_slot_update [OF this, of "entry a (slots t ! i)"] i(2) u entry_live
    have "contents u = add_mset (entry a (slots t ! i)) (contents t)"
      by (simp add: contents_def)
    with b i show ?thesis by auto
  qed (use ins in auto)
  then show "b \<longleftrightarrow> (\<exists>i < cap. \<not> live (slots t ! i))"
    and "\<exists>s. contents t' = (if b then add_mset (entry a s) (contents t) else contents t)" by auto
qed

lemma discard_contents:
  assumes "table_inv t" and "i < count t" and "live (slots t ! i)" and "quiet t i"
  shows "contents t = add_mset (slots t ! i) (contents (discard t i))"
proof -
  have i: "i < length (slots t)" using assms by (simp add: table_inv_def)
  obtain s where "slots (discard t i) = (slots t)[i := s]" "\<not> live s"
    using discard_slots [OF i assms(3,4)] by blast
  with mset_slot_update [OF i, of s] assms(3) show ?thesis by (simp add: contents_def)
qed

end

section \<open>The listener operations\<close>

type_synonym tf_call = "TF_Listener \<Rightarrow> TinyFrame \<Rightarrow> TF_Msg \<Rightarrow> TF_Result \<times> TF_Msg \<times> TinyFrame"

record tf_env =
  env_call :: tf_call
  env_msg :: TF_Msg

definition renew_id_listener :: "TF_IdListener \<Rightarrow> TF_IdListener" where
  "renew_id_listener lst = lst\<lparr>il_timeout := il_timeout_max lst\<rparr>"

definition cleanup_id_listener :: "tf_env \<Rightarrow> TinyFrame \<Rightarrow> nat \<Rightarrow> TinyFrame" where
  "cleanup_id_listener E tf i =
    (let lst = id_listeners tf ! i
     in case il_fn lst of
          None \<Rightarrow> tf
        | Some f \<Rightarrow>
            (let tf = (if il_userdata lst \<noteq> None \<or> il_userdata2 lst \<noteq> None
                       then snd (snd (env_call E f tf
                              ((env_msg E)\<lparr>msg_userdata := il_userdata lst,
                                 msg_userdata2 := il_userdata2 lst, msg_data := None\<rparr>)))
                       else tf);
                 tf = tf\<lparr>id_listeners := (id_listeners tf)[i := (id_listeners tf ! i)\<lparr>il_fn := None\<rparr>]\<rparr>
             in if int i = int (count_id_lst tf) - 1
                then tf\<lparr>count_id_lst := count_id_lst tf - 1\<rparr> else tf))"

definition cleanup_type_listener :: "TinyFrame \<Rightarrow> nat \<Rightarrow> TinyFrame" where
  "cleanup_type_listener tf i =
    (let tf = tf\<lparr>type_listeners := (type_listeners tf)[i := (type_listeners tf ! i)\<lparr>tl_fn := None\<rparr>]\<rparr>
     in if int i = int (count_type_lst tf) - 1
        then tf\<lparr>count_type_lst := count_type_lst tf - 1\<rparr> else tf)"

definition cleanup_generic_listener :: "TinyFrame \<Rightarrow> nat \<Rightarrow> TinyFrame" where
  "cleanup_generic_listener tf i =
    (let tf = tf\<lparr>generic_listeners := (generic_listeners tf)[i := (generic_listeners tf ! i)\<lparr>gl_fn := None\<rparr>]\<rparr>
     in if int i = int (count_generic_lst tf) - 1
        then tf\<lparr>count_generic_lst := count_generic_lst tf - 1\<rparr> else tf)"

definition TF_AddIdListener ::
  "TinyFrame \<Rightarrow> TF_Msg \<Rightarrow> TF_Listener option \<Rightarrow> u16 \<Rightarrow> (TinyFrame \<times> bool) option" where
  "TF_AddIdListener tf msg cb timeout =
    (case scan (\<lambda>lst. il_fn lst = None) (id_listeners tf) TF_MAX_ID_LST of
       None \<Rightarrow> None
     | Some None \<Rightarrow> Some (tf, False)
     | Some (Some i) \<Rightarrow>
         (let lst = \<lparr>il_id = frame_id msg, il_fn = cb, il_timeout = timeout,
                il_timeout_max = timeout, il_userdata = msg_userdata msg,
                il_userdata2 = msg_userdata2 msg\<rparr>;
              tf = tf\<lparr>id_listeners := (id_listeners tf)[i := lst]\<rparr>;
              tf = (if i \<ge> count_id_lst tf then tf\<lparr>count_id_lst := i + 1\<rparr> else tf)
          in Some (tf, True)))"

definition TF_AddTypeListener ::
  "TinyFrame \<Rightarrow> u16 \<Rightarrow> TF_Listener option \<Rightarrow> (TinyFrame \<times> bool) option" where
  "TF_AddTypeListener tf frame_type cb =
    (case scan (\<lambda>lst. tl_fn lst = None) (type_listeners tf) TF_MAX_TYPE_LST of
       None \<Rightarrow> None
     | Some None \<Rightarrow> Some (tf, False)
     | Some (Some i) \<Rightarrow>
         (let tf = tf\<lparr>type_listeners := (type_listeners tf)[i := \<lparr>tl_type = frame_type, tl_fn = cb\<rparr>]\<rparr>;
              tf = (if i \<ge> count_type_lst tf then tf\<lparr>count_type_lst := i + 1\<rparr> else tf)
          in Some (tf, True)))"

definition TF_AddGenericListener ::
  "TinyFrame \<Rightarrow> TF_Listener option \<Rightarrow> (TinyFrame \<times> bool) option" where
  "TF_AddGenericListener tf cb =
    (case scan (\<lambda>lst. gl_fn lst = None) (generic_listeners tf) TF_MAX_GEN_LST of
       None \<Rightarrow> None
     | Some None \<Rightarrow> Some (tf, False)
     | Some (Some i) \<Rightarrow>
         (let tf = tf\<lparr>generic_listeners := (generic_listeners tf)[i := \<lparr>gl_fn = cb\<rparr>]\<rparr>;
              tf = (if i \<ge> count_generic_lst tf then tf\<lparr>count_generic_lst := i + 1\<rparr> else tf)
          in Some (tf, True)))"

definition TF_RemoveIdListener :: "tf_env \<Rightarrow> TinyFrame \<Rightarrow> u16 \<Rightarrow> (TinyFrame \<times> bool) option" where
  "TF_RemoveIdListener E tf fid =
    (case scan (\<lambda>lst. il_fn lst \<noteq> None \<and> il_id lst = fid) (id_listeners tf) (count_id_lst tf) of
       None \<Rightarrow> None
     | Some None \<Rightarrow> Some (tf, False)
     | Some (Some i) \<Rightarrow> Some (cleanup_id_listener E tf i, True))"

definition TF_RemoveTypeListener :: "TinyFrame \<Rightarrow> u16 \<Rightarrow> (TinyFrame \<times> bool) option" where
  "TF_RemoveTypeListener tf ty =
    (case scan (\<lambda>lst. tl_fn lst \<noteq> None \<and> tl_type lst = ty) (type_listeners tf) (count_type_lst tf) of
       None \<Rightarrow> None
     | Some None \<Rightarrow> Some (tf, False)
     | Some (Some i) \<Rightarrow> Some (cleanup_type_listener tf i, True))"

definition TF_RemoveGenericListener ::
  "TinyFrame \<Rightarrow> TF_Listener option \<Rightarrow> (TinyFrame \<times> bool) option" where
  "TF_RemoveGenericListener tf cb =
    (case scan (\<lambda>lst. gl_fn lst = cb) (generic_listeners tf) (count_generic_lst tf) of
       None \<Rightarrow> None
     | Some None \<Rightarrow> Some (tf, False)
     | Some (Some i) \<Rightarrow> Some (cleanup_generic_listener tf i, True))"

definition TF_RenewIdListener :: "TinyFrame \<Rightarrow> u16 \<Rightarrow> (TinyFrame \<times> bool) option" where
  "TF_RenewIdListener tf fid =
    (case scan (\<lambda>lst. il_fn lst \<noteq> None \<and> il_id lst = fid) (id_listeners tf) (count_id_lst tf) of
       None \<Rightarrow> None
     | Some None \<Rightarrow> Some (tf, False)
     | Some (Some i) \<Rightarrow>
         Some (tf\<lparr>id_listeners := (id_listeners tf)[i := renew_id_listener (id_listeners tf ! i)]\<rparr>, True))"

section \<open>The tick\<close>

function tick_loop :: "tf_env \<Rightarrow> TinyFrame \<Rightarrow> nat \<Rightarrow> TinyFrame option" where
  "tick_loop E tf i =
    (if i < count_id_lst tf
     then if TF_MAX_ID_LST \<le> i then None
       else (case load (id_listeners tf) i of
          None \<Rightarrow> None
        | Some lst \<Rightarrow>
            if il_fn lst = None \<or> il_timeout lst = 0 then tick_loop E tf (Suc i)
            else (let lst = lst\<lparr>il_timeout := il_timeout lst - 1\<rparr>;
                      tf = tf\<lparr>id_listeners := (id_listeners tf)[i := lst]\<rparr>
                  in if il_timeout lst = 0
                     then tick_loop E (cleanup_id_listener E tf i) (Suc i)
                     else tick_loop E tf (Suc i)))
     else Some tf)"
  by pat_completeness auto
termination by (relation "measure (\<lambda>(E, tf, i). TF_MAX_ID_LST - i)") auto

declare tick_loop.simps [simp del]

definition TF_Tick :: "tf_env \<Rightarrow> TinyFrame \<Rightarrow> TinyFrame option" where
  "TF_Tick E tf =
    tick_loop E
      (if parser_timeout_ticks tf < TF_PARSER_TIMEOUT_TICKS
       then tf\<lparr>parser_timeout_ticks := parser_timeout_ticks tf + 1\<rparr> else tf) 0"

section \<open>The three tables keep the discipline\<close>

text \<open>What the client's callbacks may not do: change the ID table of the instance they get.\<close>

definition keeps_id_listeners :: "tf_env \<Rightarrow> bool" where
  "keeps_id_listeners E \<longleftrightarrow>
    (\<forall>f tf m. id_listeners (snd (snd (env_call E f tf m))) = id_listeners tf
       \<and> count_id_lst (snd (snd (env_call E f tf m))) = count_id_lst tf)"

definition id_live :: "TF_IdListener \<Rightarrow> bool" where "id_live l = (il_fn l \<noteq> None)"
definition type_live :: "TF_TypeListener \<Rightarrow> bool" where "type_live l = (tl_fn l \<noteq> None)"
definition gen_live :: "TF_GenericListener \<Rightarrow> bool" where "gen_live l = (gl_fn l \<noteq> None)"

lemmas live_defs = id_live_def type_live_def gen_live_def

interpretation id_tab: slot_table id_listeners count_id_lst id_live TF_MAX_ID_LST
  "\<lambda>(msg, f, timeout) tf. TF_AddIdListener tf msg (Some f) timeout"
  "\<lambda>(msg, f, timeout) l. \<lparr>il_id = frame_id msg, il_fn = Some f, il_timeout = timeout,
     il_timeout_max = timeout, il_userdata = msg_userdata msg, il_userdata2 = msg_userdata2 msg\<rparr>"
  "cleanup_id_listener E" "\<lambda>tf i. keeps_id_listeners E" for E
  by unfold_locales
    (auto simp: live_defs TF_AddIdListener_def cleanup_id_listener_def keeps_id_listeners_def Let_def
      split: if_splits)

interpretation type_tab: slot_table type_listeners count_type_lst type_live TF_MAX_TYPE_LST
  "\<lambda>(ty, f) tf. TF_AddTypeListener tf ty (Some f)" "\<lambda>(ty, f) l. \<lparr>tl_type = ty, tl_fn = Some f\<rparr>"
  cleanup_type_listener "\<lambda>tf i. True"
  by unfold_locales
    (auto simp: live_defs TF_AddTypeListener_def cleanup_type_listener_def Let_def split: if_splits)

interpretation gen_tab: slot_table generic_listeners count_generic_lst gen_live TF_MAX_GEN_LST
  "\<lambda>f tf. TF_AddGenericListener tf (Some f)" "\<lambda>f l. \<lparr>gl_fn = Some f\<rparr>"
  cleanup_generic_listener "\<lambda>tf i. True"
  by unfold_locales
    (auto simp: live_defs TF_AddGenericListener_def cleanup_generic_listener_def Let_def split: if_splits)

definition id_table_inv :: "TinyFrame \<Rightarrow> bool" where
  "id_table_inv tf \<longleftrightarrow> length (id_listeners tf) = TF_MAX_ID_LST \<and> count_id_lst tf \<le> TF_MAX_ID_LST
    \<and> (\<forall>i. count_id_lst tf \<le> i \<longrightarrow> i < TF_MAX_ID_LST \<longrightarrow> \<not> id_live (id_listeners tf ! i))"

lemma id_table_inv_eq: "id_table_inv = id_tab.table_inv"
  by (simp add: fun_eq_iff id_table_inv_def id_tab.table_inv_def)

lemma id_table_inv_zero: "id_table_inv (TF_zero out)"
  by (simp add: id_table_inv_def TF_zero_def id_live_def)

text \<open>The searches of the removals stop at the count, and still see the whole table.\<close>

lemma id_search:
  assumes inv: "id_table_inv tf" and l: "l \<in> set (id_listeners tf)" "id_live l" "P l"
  shows "\<exists>i. scan (\<lambda>l. id_live l \<and> P l) (id_listeners tf) (count_id_lst tf) = Some (Some i)"
proof -
  obtain i where "i < TF_MAX_ID_LST" "l = id_listeners tf ! i"
    using inv l(1) by (auto simp: in_set_conv_nth id_table_inv_def)
  then show ?thesis
    using id_tab.bounded_scan_complete [of tf i P] inv l(2,3) by (auto simp: id_table_inv_eq)
qed

text \<open>
  The ID table as the multiset of its live listeners: an insertion adds one unless all slots are
  taken, a removal takes one with the ID out if there is one.
\<close>

definition live_id_listeners :: "TinyFrame \<Rightarrow> TF_IdListener multiset" where
  "live_id_listeners tf = filter_mset id_live (mset (id_listeners tf))"

lemma live_id_listeners_eq: "live_id_listeners = id_tab.contents"
  by (simp add: fun_eq_iff live_id_listeners_def id_tab.contents_def)

lemma TF_AddIdListener_spec:
  assumes inv: "id_table_inv tf"
  shows "\<exists>tf'. TF_AddIdListener tf msg (Some f) timeout =
      Some (tf', \<exists>l \<in> set (id_listeners tf). \<not> id_live l) \<and> id_table_inv tf'
    \<and> live_id_listeners tf' = (if \<exists>l \<in> set (id_listeners tf). \<not> id_live l
        then add_mset \<lparr>il_id = frame_id msg, il_fn = Some f, il_timeout = timeout,
          il_timeout_max = timeout, il_userdata = msg_userdata msg, il_userdata2 = msg_userdata2 msg\<rparr>
          (live_id_listeners tf)
        else live_id_listeners tf)"
proof -
  let ?a = "(msg, f, timeout)"
  have tab: "id_tab.table_inv tf" using inv by (simp add: id_table_inv_eq)
  have free: "(\<exists>i < TF_MAX_ID_LST. \<not> id_live (id_listeners tf ! i)) \<longleftrightarrow>
      (\<exists>l \<in> set (id_listeners tf). \<not> id_live l)"
    using inv unfolding id_table_inv_def by (metis in_set_conv_nth)
  obtain tf' b where add: "TF_AddIdListener tf msg (Some f) timeout = Some (tf', b)"
    by (rule id_tab.insert_cases [OF tab, of ?a]) auto
  then show ?thesis
    using id_tab.insert_contents [OF tab, of ?a tf' b] id_tab.insert_inv [OF tab, of ?a tf' b]
    by (auto simp: free id_table_inv_eq live_id_listeners_eq)
qed

lemma TF_RemoveIdListener_live:
  "TF_RemoveIdListener E tf fid =
    (case scan (\<lambda>l. id_live l \<and> il_id l = fid) (id_listeners tf) (count_id_lst tf) of
       None \<Rightarrow> None
     | Some None \<Rightarrow> Some (tf, False)
     | Some (Some i) \<Rightarrow> Some (cleanup_id_listener E tf i, True))"
  by (simp add: TF_RemoveIdListener_def id_live_def)

lemma TF_RemoveIdListener_spec:
  assumes inv: "id_table_inv tf" and E: "keeps_id_listeners E"
  shows "\<exists>tf'. TF_RemoveIdListener E tf fid =
      Some (tf', \<exists>l \<in># live_id_listeners tf. il_id l = fid) \<and> id_table_inv tf' \<and>
    (if \<exists>l \<in># live_id_listeners tf. il_id l = fid
     then \<exists>l \<in># live_id_listeners tf. il_id l = fid \<and> live_id_listeners tf' = live_id_listeners tf - {#l#}
     else tf' = tf)"
proof -
  let ?P = "\<lambda>l. id_live l \<and> il_id l = fid"
  have live: "(\<exists>l \<in># live_id_listeners tf. il_id l = fid) \<longleftrightarrow> (\<exists>l \<in> set (id_listeners tf). ?P l)"
    by (auto simp: live_id_listeners_def)
  have tab: "id_tab.table_inv tf" using inv by (simp add: id_table_inv_eq)
  have len: "count_id_lst tf \<le> length (id_listeners tf)"
    using inv by (simp add: id_table_inv_def)
  obtain r where r: "scan ?P (id_listeners tf) (count_id_lst tf) = Some r"
    using scan_defined [OF len] by blast
  show ?thesis
  proof (cases r)
    case None
    then have "\<not> (\<exists>l \<in> set (id_listeners tf). ?P l)"
      using id_search [OF inv, where P = "\<lambda>l. il_id l = fid"] r by auto
    then show ?thesis
      using r None inv by (auto simp: TF_RemoveIdListener_live live)
  next
    case (Some i)
    let ?l = "id_listeners tf ! i"
    from Some r scan_Found(1,2) [OF _ len] have i: "i < count_id_lst tf" "?P ?l"
      by auto
    with len have l: "?l \<in> set (id_listeners tf)" by simp
    have "TF_RemoveIdListener E tf fid = Some (cleanup_id_listener E tf i, True)"
      using r Some by (simp add: TF_RemoveIdListener_live)
    moreover have "id_table_inv (cleanup_id_listener E tf i)"
      using id_tab.discard_inv [OF tab i(1)] i(2) E by (simp add: id_table_inv_eq)
    moreover have m: "live_id_listeners tf = add_mset ?l (live_id_listeners (cleanup_id_listener E tf i))"
      using id_tab.discard_contents [OF tab i(1)] i(2) E by (simp add: live_id_listeners_eq)
    moreover have "?l \<in># live_id_listeners tf" using l i(2) by (simp add: live_id_listeners_def)
    moreover from this have ex: "\<exists>l \<in># live_id_listeners tf. il_id l = fid \<and>
        live_id_listeners (cleanup_id_listener E tf i) = live_id_listeners tf - {#l#}"
      using i(2) m by (intro bexI [of _ ?l]) simp_all
    then have "\<exists>l \<in># live_id_listeners tf. il_id l = fid" by blast
    ultimately show ?thesis using ex by simp
  qed
qed

section \<open>What a tick does to the ID table\<close>

definition tick_slot :: "TF_IdListener \<Rightarrow> TF_IdListener" where
  "tick_slot l =
    (if il_fn l = None \<or> il_timeout l = 0 then l
     else if il_timeout l = 1 then l\<lparr>il_timeout := 0, il_fn := None\<rparr>
     else l\<lparr>il_timeout := il_timeout l - 1\<rparr>)"

lemma cleanup_keeps:
  assumes "keeps_id_listeners E" and "id_live (id_listeners tf ! i)"
  shows "id_listeners (cleanup_id_listener E tf i) =
      (id_listeners tf)[i := (id_listeners tf ! i)\<lparr>il_fn := None\<rparr>]"
    and "count_id_lst (cleanup_id_listener E tf i) =
      (if Suc i = count_id_lst tf then i else count_id_lst tf)"
  using assms by (auto simp: cleanup_id_listener_def keeps_id_listeners_def Let_def id_live_def)

lemma tick_loop_step:
  assumes "id_table_inv tf" and "keeps_id_listeners E" and "i < count_id_lst tf"
  shows "\<exists>tf'. tick_loop E tf i = tick_loop E tf' (Suc i) \<and> id_table_inv tf'
    \<and> id_listeners tf' = (id_listeners tf)[i := tick_slot (id_listeners tf ! i)]"
proof -
  let ?l = "id_listeners tf ! i"
  have i: "i < TF_MAX_ID_LST" "i < length (id_listeners tf)"
    using assms by (auto simp: id_table_inv_def)
  note unfold = tick_loop.simps [of E tf i]
  show ?thesis
  proof (cases "il_fn ?l = None \<or> il_timeout ?l = 0")
    case True
    then show ?thesis
      using assms i by (intro exI [of _ tf]) (auto simp: unfold load_Some tick_slot_def)
  next
    case False
    define t where "t = tf\<lparr>id_listeners := (id_listeners tf)[i := ?l\<lparr>il_timeout := il_timeout ?l - 1\<rparr>]\<rparr>"
    have t: "id_table_inv t" "id_listeners t ! i = ?l\<lparr>il_timeout := il_timeout ?l - 1\<rparr>"
      using assms i by (auto simp: t_def id_table_inv_def nth_list_update id_live_def)
    show ?thesis
    proof (cases "il_timeout ?l - 1 = 0")
      case True
      have live: "id_live (id_listeners t ! i)" using False t by (simp add: id_live_def)
      have "id_table_inv (cleanup_id_listener E t i)"
        using id_tab.discard_inv [of t i E] t(1) live assms(2,3)
        by (simp add: id_table_inv_eq t_def)
      moreover have "il_timeout ?l = 1" using True by simp
      ultimately show ?thesis
        using True False assms i t live
        by (intro exI [of _ "cleanup_id_listener E t i"])
          (auto simp: unfold load_Some tick_slot_def cleanup_keeps t_def [symmetric] Let_def;
           simp add: t_def)
    next
      case neq: False
      then show ?thesis
        using False assms i t
        by (intro exI [of _ t]) (auto simp: unfold load_Some tick_slot_def Let_def t_def)
    qed
  qed
qed

text \<open>A whole tick maps \<open>tick_slot\<close> over the table, the slots above the count included.\<close>

lemma tick_slot_dead: "\<not> id_live l \<Longrightarrow> tick_slot l = l"
  by (simp add: tick_slot_def id_live_def)

lemma tick_loop_map:
  assumes "id_table_inv tf" and "keeps_id_listeners E"
  shows "\<exists>tf'. tick_loop E tf i = Some tf' \<and> id_table_inv tf'
    \<and> id_listeners tf' = take i (id_listeners tf) @ map tick_slot (drop i (id_listeners tf))"
  using assms
proof (induction "TF_MAX_ID_LST - i" arbitrary: tf i rule: less_induct)
  case less
  show ?case
  proof (cases "i < count_id_lst tf")
    case False
    have "map tick_slot (drop i (id_listeners tf)) = drop i (id_listeners tf)"
      by (rule map_idI) (use less.prems(1) False tick_slot_dead in
        \<open>auto simp: id_table_inv_def in_set_conv_nth\<close>)
    then show ?thesis
      using less.prems False by (auto simp: tick_loop.simps [of E tf i])
  next
    case True
    from tick_loop_step [OF less.prems True] obtain t
      where t: "tick_loop E tf i = tick_loop E t (Suc i)" "id_table_inv t"
        and lst: "id_listeners t = (id_listeners tf)[i := tick_slot (id_listeners tf ! i)]" by blast
    have i: "i < TF_MAX_ID_LST" "i < length (id_listeners tf)"
      using True less.prems(1) by (auto simp: id_table_inv_def)
    have "TF_MAX_ID_LST - Suc i < TF_MAX_ID_LST - i" using i(1) by simp
    from less.hyps [OF this t(2) less.prems(2)] obtain tf'
      where "tick_loop E t (Suc i) = Some tf'" "id_table_inv tf'"
        "id_listeners tf' = take (Suc i) (id_listeners t) @ map tick_slot (drop (Suc i) (id_listeners t))"
      by blast
    moreover have "take (Suc i) (id_listeners t) @ map tick_slot (drop (Suc i) (id_listeners t))
        = take i (id_listeners tf) @ map tick_slot (drop i (id_listeners tf))"
      using i by (simp add: lst take_Suc_conv_app_nth Cons_nth_drop_Suc [symmetric])
    ultimately show ?thesis using t(1) by auto
  qed
qed

lemma TF_Tick_map:
  assumes "id_table_inv tf" and "keeps_id_listeners E"
  shows "\<exists>tf'. TF_Tick E tf = Some tf' \<and> id_table_inv tf'
    \<and> id_listeners tf' = map tick_slot (id_listeners tf)"
proof -
  let ?t = "if parser_timeout_ticks tf < TF_PARSER_TIMEOUT_TICKS
    then tf\<lparr>parser_timeout_ticks := parser_timeout_ticks tf + 1\<rparr> else tf"
  have "id_table_inv ?t" and lst: "id_listeners ?t = id_listeners tf"
    using assms(1) by (auto simp: id_table_inv_def)
  from tick_loop_map [OF this(1) assms(2), of 0] lst show ?thesis
    by (simp add: TF_Tick_def)
qed

fun TF_Ticks :: "tf_env \<Rightarrow> nat \<Rightarrow> TinyFrame \<Rightarrow> TinyFrame option" where
  "TF_Ticks E 0 tf = Some tf"
| "TF_Ticks E (Suc n) tf = Option.bind (TF_Tick E tf) (TF_Ticks E n)"

lemma TF_Ticks_map:
  assumes "id_table_inv tf" and "keeps_id_listeners E"
  shows "\<exists>tf'. TF_Ticks E n tf = Some tf' \<and> id_table_inv tf'
    \<and> id_listeners tf' = map (tick_slot ^^ n) (id_listeners tf)"
  using assms
proof (induction n arbitrary: tf)
  case 0
  then show ?case by simp
next
  case (Suc n)
  from TF_Tick_map [OF Suc.prems] obtain t
    where "TF_Tick E tf = Some t" "id_table_inv t" "id_listeners t = map tick_slot (id_listeners tf)"
    by blast
  with Suc.IH [of t] Suc.prems(2) show ?case
    by (auto simp: funpow_Suc_right simp del: funpow.simps)
qed

lemma tick_slot_pow:
  assumes "id_live l"
  shows "(tick_slot ^^ n) l =
    (if il_timeout l = 0 then l
     else if n < unat (il_timeout l) then l\<lparr>il_timeout := il_timeout l - of_nat n\<rparr>
     else l\<lparr>il_timeout := 0, il_fn := None\<rparr>)"
proof (induction n)
  case 0
  then show ?case by (auto simp: unat_eq_zero)
next
  case (Suc n)
  show ?case
  proof (cases "il_timeout l = 0")
    case True
    then show ?thesis using Suc by (simp add: tick_slot_def)
  next
    case False
    consider "Suc n < unat (il_timeout l)" | "Suc n = unat (il_timeout l)" | "unat (il_timeout l) \<le> n"
      by linarith
    then show ?thesis
    proof cases
      case 1
      have "il_timeout l \<noteq> of_nat m" if "m \<le> Suc n" for m
        using le_unat_uoi [of m "il_timeout l"] 1 that by auto
      from this [of n] this [of "Suc n"]
      have "il_timeout l - of_nat n \<noteq> 0" "il_timeout l - of_nat n \<noteq> 1"
        by (auto simp: diff_eq_eq)
      then show ?thesis
        using 1 Suc False assms by (simp add: tick_slot_def id_live_def algebra_simps)
    next
      case 2
      have "il_timeout l = of_nat (Suc n)" unfolding 2 by simp
      then have "il_timeout l - of_nat n = 1" by simp
      moreover have "n < unat (il_timeout l)" "\<not> Suc n < unat (il_timeout l)"
        using 2 by simp_all
      ultimately show ?thesis
        using Suc False assms by (simp add: tick_slot_def id_live_def)
    next
      case 3
      then show ?thesis using Suc False by (simp add: tick_slot_def)
    qed
  qed
qed

end
