(* ===== verification/TF_Transmit.thy ===== *)
theory TF_Transmit
  imports TF_Listeners "HOL-Library.Monad_Syntax"
begin

text \<open>
  Composition and transmission of frames in tinyframe/TinyFrame.c (regions Compose and send,
  Sending API funcs, multipart), \<open>TF_WriteImpl\<close> and the wrappers around the two static instances.
  A C pointer into a buffer is the buffer with an offset; bytes written by \<open>TF_WriteImpl\<close> are
  appended to the ghost field \<open>wire\<close>. The abstract side is \<open>frame_bytes\<close>, the frame as a list.
\<close>

section \<open>Composing\<close>

text \<open>
  \<open>WRITENUM_CKSUM(type, num)\<close> and \<open>WRITENUM(type, num)\<close>: the argument \<open>si\<close> is the number of bytes
  of \<open>num\<close> that are still to be written, the most significant one first.
\<close>

fun WRITENUM_CKSUM :: "nat \<Rightarrow> 'a::len word \<Rightarrow> u8 list \<Rightarrow> u32 \<Rightarrow> u8 \<Rightarrow> (u8 list \<times> u32 \<times> u8) option" where
  "WRITENUM_CKSUM 0 num outbuff pos ck = Some (outbuff, pos, ck)"
| "WRITENUM_CKSUM (Suc si) num outbuff pos ck = do {
     let b = (ucast (drop_bit (si * 8) num AND 0xFF) :: u8);
     outbuff \<leftarrow> store outbuff (unat pos) b;
     WRITENUM_CKSUM si num outbuff (pos + 1) (TF_CksumAdd ck b)
   }"

fun WRITENUM :: "nat \<Rightarrow> 'a::len word \<Rightarrow> u8 list \<Rightarrow> nat \<Rightarrow> u32 \<Rightarrow> (u8 list \<times> u32) option" where
  "WRITENUM 0 num outbuff off pos = Some (outbuff, pos)"
| "WRITENUM (Suc si) num outbuff off pos = do {
     let b = (ucast (drop_bit (si * 8) num AND 0xFF) :: u8);
     outbuff \<leftarrow> store outbuff (off + unat pos) b;
     WRITENUM si num outbuff off (pos + 1)
   }"

definition TF_ComposeHead ::
  "TinyFrame \<Rightarrow> u8 list \<Rightarrow> TF_Msg \<Rightarrow> (TinyFrame \<times> u8 list \<times> TF_Msg \<times> u32) option" where
  "TF_ComposeHead tf outbuff msg =
    (let pos = 0;
         (tf, id) =
           (if is_response msg then (tf, frame_id msg)
            else (let id = next_id tf AND TF_ID_MASK;
                      tf = tf\<lparr>next_id := next_id tf + 1\<rparr>
                  in (tf, if peer_bit tf = TF_MASTER then id OR TF_ID_PEERBIT else id)));
         msg = msg\<lparr>frame_id := id\<rparr>
     in do {
       outbuff \<leftarrow> store outbuff (unat pos) TF_SOF_BYTE;
       let ck = TF_CksumAdd TF_CksumStart TF_SOF_BYTE;
       (outbuff, pos, ck) \<leftarrow> WRITENUM_CKSUM 2 id outbuff (pos + 1) ck;
       (outbuff, pos, ck) \<leftarrow> WRITENUM_CKSUM 2 (msg_len msg) outbuff pos ck;
       (outbuff, pos, ck) \<leftarrow> WRITENUM_CKSUM 2 (msg_type msg) outbuff pos ck;
       (outbuff, pos) \<leftarrow> WRITENUM 1 (TF_CksumEnd ck) outbuff 0 pos;
       Some (tf, outbuff, msg, pos)
     })"

text \<open>\<open>outbuff + off\<close> and \<open>data + doff\<close> are the two pointers; \<open>i\<close> is the loop counter and \<open>pos\<close>.\<close>

function compose_body_loop ::
  "u8 list \<Rightarrow> nat \<Rightarrow> u8 list \<Rightarrow> nat \<Rightarrow> u16 \<Rightarrow> nat \<Rightarrow> u8 \<Rightarrow> (u8 list \<times> u32 \<times> u8) option" where
  "compose_body_loop outbuff off data doff data_len i ck =
    (if i < unat data_len then do {
       b \<leftarrow> load data (doff + i);
       outbuff \<leftarrow> store outbuff (off + i) b;
       compose_body_loop outbuff off data doff data_len (Suc i) (TF_CksumAdd ck b)
     } else Some (outbuff, of_nat i, ck))"
  by pat_completeness auto
termination
  by (relation "measure (\<lambda>(outbuff, off, data, doff, data_len, i, ck). unat data_len - i)") auto

declare compose_body_loop.simps [simp del]

definition TF_ComposeBody ::
  "u8 list \<Rightarrow> nat \<Rightarrow> u8 list \<Rightarrow> nat \<Rightarrow> u16 \<Rightarrow> u8 \<Rightarrow> (u8 list \<times> u32 \<times> u8) option" where
  "TF_ComposeBody outbuff off data doff data_len ck =
    compose_body_loop outbuff off data doff data_len 0 ck"

definition TF_ComposeTail :: "u8 list \<Rightarrow> nat \<Rightarrow> u8 \<Rightarrow> (u8 list \<times> u32 \<times> u8) option" where
  "TF_ComposeTail outbuff off ck = do {
     let ck = TF_CksumEnd ck;
     (outbuff, pos) \<leftarrow> WRITENUM 1 ck outbuff off 0;
     Some (outbuff, pos, ck)
   }"

section \<open>Sending\<close>

definition TF_WriteImpl :: "TinyFrame \<Rightarrow> u8 list \<Rightarrow> u32 \<Rightarrow> TinyFrame option" where
  "TF_WriteImpl tf buff len =
    map_option (\<lambda>bs. tf\<lparr>wire := wire tf @ bs\<rparr>) (load_list buff 0 (unat len))"

definition TF_SendFrame_Begin ::
  "TinyFrame \<Rightarrow> TF_Msg \<Rightarrow> TF_Listener option \<Rightarrow> u16 \<Rightarrow> (TinyFrame \<times> TF_Msg \<times> bool) option" where
  "TF_SendFrame_Begin tf msg listener timeout =
    (let (tf, ok) = TF_ClaimTx tf
     in if \<not> ok then Some (tf, msg, False)
        else do {
          (tf, out, msg, pos) \<leftarrow> TF_ComposeHead tf (sendbuf tf) msg;
          let tf = tf\<lparr>sendbuf := out, tx_pos := pos\<rparr>;
          let tf = tf\<lparr>tx_len := ucast (msg_len msg)\<rparr>;
          (tf, ok) \<leftarrow> (if listener \<noteq> None then TF_AddIdListener tf msg listener timeout
                       else Some (tf, True));
          if \<not> ok then Some (tf, msg, False)
          else Some (tf\<lparr>tx_cksum := TF_CksumStart\<rparr>, msg, True)
        })"

lemma chunk_decreases:
  fixes remain pos :: u32
  assumes "0 < remain"
  defines "chunk \<equiv> if of_nat TF_SENDBUF_LEN - pos < remain then of_nat TF_SENDBUF_LEN - pos else remain"
  shows "2 * unat (remain - chunk) < 2 * unat remain + (if pos = of_nat TF_SENDBUF_LEN then 1 else 0)"
proof (cases "chunk = 0")
  case True
  then have "pos = of_nat TF_SENDBUF_LEN"
    using assms by (auto simp: chunk_def split: if_splits)
  then show ?thesis using True by simp
next
  case False
  moreover have "chunk \<le> remain" by (simp add: chunk_def less_imp_le)
  ultimately have "unat (remain - chunk) < unat remain" by unat_arith
  then show ?thesis by simp
qed

text \<open>
  The loop of \<open>TF_SendFrame_Chunk\<close>. A round that writes nothing finds the buffer full and
  empties it, so the measure is the bytes that remain with a tie broken by a full buffer.
\<close>

function chunk_loop :: "TinyFrame \<Rightarrow> u8 list \<Rightarrow> u32 \<Rightarrow> u32 \<Rightarrow> TinyFrame option" where
  "chunk_loop tf buff sent remain =
    (if remain > 0 then
       (let room = of_nat TF_SENDBUF_LEN - tx_pos tf;
            chunk = (if room < remain then room else remain)
        in case TF_ComposeBody (sendbuf tf) (unat (tx_pos tf)) buff (unat sent) (ucast chunk)
                  (tx_cksum tf) of
             None \<Rightarrow> None
           | Some (out, n, ck) \<Rightarrow>
               (let tf = tf\<lparr>sendbuf := out, tx_cksum := ck, tx_pos := tx_pos tf + n\<rparr>
                in if tx_pos tf = of_nat TF_SENDBUF_LEN
                   then (case TF_WriteImpl tf (sendbuf tf) (tx_pos tf) of
                           None \<Rightarrow> None
                         | Some tf \<Rightarrow> chunk_loop (tf\<lparr>tx_pos := 0\<rparr>) buff (sent + chunk) (remain - chunk))
                   else chunk_loop tf buff (sent + chunk) (remain - chunk)))
     else Some tf)"
  by pat_completeness auto
termination
proof (relation "measure (\<lambda>(tf, buff, sent, remain).
    2 * unat remain + (if tx_pos tf = of_nat TF_SENDBUF_LEN then 1 else 0))", goal_cases)
  case 1
  show ?case by simp
next
  case (2 tf buff sent remain room chunk out n ck t u)
  then show ?case
    using chunk_decreases [of remain "tx_pos tf"] by (auto simp: TF_SENDBUF_LEN_def)
next
  case (3 tf buff sent remain room chunk out n ck t)
  then show ?case
    using chunk_decreases [of remain "tx_pos tf"] by (auto simp: TF_SENDBUF_LEN_def)
qed

declare chunk_loop.simps [simp del]

definition TF_SendFrame_Chunk :: "TinyFrame \<Rightarrow> u8 list \<Rightarrow> u32 \<Rightarrow> TinyFrame option" where
  "TF_SendFrame_Chunk tf buff len = chunk_loop tf buff 0 len"

definition add_tail :: "TinyFrame \<Rightarrow> TinyFrame option" where
  "add_tail tf = do {
     (out, n, ck) \<leftarrow> TF_ComposeTail (sendbuf tf) (unat (tx_pos tf)) (tx_cksum tf);
     Some (tf\<lparr>sendbuf := out, tx_cksum := ck, tx_pos := tx_pos tf + n\<rparr>)
   }"

definition TF_SendFrame_End :: "TinyFrame \<Rightarrow> TinyFrame option" where
  "TF_SendFrame_End tf = do {
     tf \<leftarrow> (if tx_len tf > 0 then do {
               tf \<leftarrow> (if of_nat TF_SENDBUF_LEN - tx_pos tf < 1
                      then do { tf \<leftarrow> TF_WriteImpl tf (sendbuf tf) (tx_pos tf); Some (tf\<lparr>tx_pos := 0\<rparr>) }
                      else Some tf);
               add_tail tf
             } else Some tf);
     tf \<leftarrow> TF_WriteImpl tf (sendbuf tf) (tx_pos tf);
     Some (TF_ReleaseTx tf)
   }"

text \<open>The payload pointer; a null pointer is only passed on with length zero, and never read.\<close>

definition payload :: "u8 list option \<Rightarrow> u8 list" where
  "payload p = (case p of None \<Rightarrow> [] | Some d \<Rightarrow> d)"

definition TF_SendFrame ::
  "TinyFrame \<Rightarrow> TF_Msg \<Rightarrow> TF_Listener option \<Rightarrow> u16 \<Rightarrow> (TinyFrame \<times> TF_Msg \<times> bool) option" where
  "TF_SendFrame tf msg listener timeout = do {
     (tf, msg, ok) \<leftarrow> TF_SendFrame_Begin tf msg listener timeout;
     if \<not> ok then Some (tf, msg, False)
     else if msg_len msg = 0 \<or> msg_data msg \<noteq> None
     then do {
       tf \<leftarrow> TF_SendFrame_Chunk tf (payload (msg_data msg)) (ucast (msg_len msg));
       tf \<leftarrow> TF_SendFrame_End tf;
       Some (tf, msg, True)
     }
     else Some (tf, msg, True)
   }"

section \<open>The sending API\<close>

definition TF_Send :: "TinyFrame \<Rightarrow> TF_Msg \<Rightarrow> (TinyFrame \<times> TF_Msg \<times> bool) option" where
  "TF_Send tf msg = TF_SendFrame tf msg None 0"

definition TF_SendSimple :: "TinyFrame \<Rightarrow> u16 \<Rightarrow> u8 list option \<Rightarrow> u16 \<Rightarrow> (TinyFrame \<times> bool) option" where
  "TF_SendSimple tf ty data len =
    (let msg = TF_ClearMsg\<lparr>msg_type := ty, msg_data := data, msg_len := len\<rparr>
     in map_option (\<lambda>(tf, _, ok). (tf, ok)) (TF_Send tf msg))"

definition TF_QuerySimple ::
  "TinyFrame \<Rightarrow> u16 \<Rightarrow> u8 list option \<Rightarrow> u16 \<Rightarrow> TF_Listener option \<Rightarrow> u16 \<Rightarrow> (TinyFrame \<times> bool) option" where
  "TF_QuerySimple tf ty data len listener timeout =
    (let msg = TF_ClearMsg\<lparr>msg_type := ty, msg_data := data, msg_len := len\<rparr>
     in map_option (\<lambda>(tf, _, ok). (tf, ok)) (TF_SendFrame tf msg listener timeout))"

definition TF_Query ::
  "TinyFrame \<Rightarrow> TF_Msg \<Rightarrow> TF_Listener option \<Rightarrow> u16 \<Rightarrow> (TinyFrame \<times> TF_Msg \<times> bool) option" where
  "TF_Query tf msg listener timeout = TF_SendFrame tf msg listener timeout"

definition TF_Respond :: "TinyFrame \<Rightarrow> TF_Msg \<Rightarrow> (TinyFrame \<times> TF_Msg \<times> bool) option" where
  "TF_Respond tf msg = TF_Send tf (msg\<lparr>is_response := True\<rparr>)"

definition TF_Send_Multipart :: "TinyFrame \<Rightarrow> TF_Msg \<Rightarrow> (TinyFrame \<times> TF_Msg \<times> bool) option" where
  "TF_Send_Multipart tf msg = TF_Send tf (msg\<lparr>msg_data := None\<rparr>)"

definition TF_SendSimple_Multipart :: "TinyFrame \<Rightarrow> u16 \<Rightarrow> u16 \<Rightarrow> (TinyFrame \<times> bool) option" where
  "TF_SendSimple_Multipart tf ty len = TF_SendSimple tf ty None len"

definition TF_QuerySimple_Multipart ::
  "TinyFrame \<Rightarrow> u16 \<Rightarrow> u16 \<Rightarrow> TF_Listener option \<Rightarrow> u16 \<Rightarrow> (TinyFrame \<times> bool) option" where
  "TF_QuerySimple_Multipart tf ty len listener timeout =
    TF_QuerySimple tf ty None len listener timeout"

definition TF_Query_Multipart ::
  "TinyFrame \<Rightarrow> TF_Msg \<Rightarrow> TF_Listener option \<Rightarrow> u16 \<Rightarrow> (TinyFrame \<times> TF_Msg \<times> bool) option" where
  "TF_Query_Multipart tf msg listener timeout = TF_Query tf (msg\<lparr>msg_data := None\<rparr>) listener timeout"

definition TF_Respond_Multipart :: "TinyFrame \<Rightarrow> TF_Msg \<Rightarrow> (TinyFrame \<times> TF_Msg) option" where
  "TF_Respond_Multipart tf msg =
    map_option (\<lambda>(tf, msg, _). (tf, msg)) (TF_Respond tf (msg\<lparr>msg_data := None\<rparr>))"

definition TF_Multipart_Payload :: "TinyFrame \<Rightarrow> u8 list \<Rightarrow> u32 \<Rightarrow> TinyFrame option" where
  "TF_Multipart_Payload tf buff len = TF_SendFrame_Chunk tf buff len"

definition TF_Multipart_Close :: "TinyFrame \<Rightarrow> TinyFrame option" where
  "TF_Multipart_Close tf = TF_SendFrame_End tf"

section \<open>The frame as a list of bytes\<close>

definition be16 :: "u16 \<Rightarrow> u8 list" where
  "be16 w = [ucast (drop_bit 8 w), ucast w]"

definition cksum_of :: "u8 list \<Rightarrow> u8" where
  "cksum_of bs = TF_CksumEnd (foldl TF_CksumAdd TF_CksumStart bs)"

definition head_fields :: "u16 \<Rightarrow> u16 \<Rightarrow> u16 \<Rightarrow> u8 list" where
  "head_fields fid len ty = TF_SOF_BYTE # be16 fid @ be16 len @ be16 ty"

definition head_bytes :: "u16 \<Rightarrow> u16 \<Rightarrow> u16 \<Rightarrow> u8 list" where
  "head_bytes fid len ty = head_fields fid len ty @ [cksum_of (head_fields fid len ty)]"

definition tail_bytes :: "u16 \<Rightarrow> u8 list \<Rightarrow> u8 list" where
  "tail_bytes len data = (if len = 0 then [] else [cksum_of data])"

definition frame_bytes :: "u16 \<Rightarrow> u16 \<Rightarrow> u16 \<Rightarrow> u8 list \<Rightarrow> u8 list" where
  "frame_bytes fid len ty data = head_bytes fid len ty @ data @ tail_bytes len data"

text \<open>The ID of the next frame of an instance.\<close>

definition frame_id_of :: "TinyFrame \<Rightarrow> TF_Msg \<Rightarrow> u16" where
  "frame_id_of tf msg =
    (if is_response msg then frame_id msg
     else if peer_bit tf = TF_MASTER then (next_id tf AND TF_ID_MASK) OR TF_ID_PEERBIT
     else next_id tf AND TF_ID_MASK)"

section \<open>Composition refines the byte list\<close>

lemma unat_u16_u32 [simp]: "unat (ucast (w :: u16) :: u32) = unat w"
  by (rule unat_ucast_small) (rule order_less_le_trans [OF unsigned_less], simp)

text \<open>What has left the instance or waits in its buffer.\<close>

definition emitted :: "TinyFrame \<Rightarrow> u8 list" where
  "emitted tf = wire tf @ take (unat (tx_pos tf)) (sendbuf tf)"

definition tx_inv :: "TinyFrame \<Rightarrow> bool" where
  "tx_inv tf \<longleftrightarrow> length (sendbuf tf) = TF_SENDBUF_LEN \<and> unat (tx_pos tf) \<le> TF_SENDBUF_LEN"

lemma unat_SENDBUF [simp]: "unat (of_nat TF_SENDBUF_LEN :: u32) = 2048"
  by (simp add: TF_SENDBUF_LEN_def)

lemma WRITENUM_CKSUM_2:
  assumes "p + 2 \<le> length out" and "p + 2 < 2 ^ 32"
  shows "WRITENUM_CKSUM 2 (num :: u16) out (of_nat p) ck =
    Some (take p out @ be16 num @ drop (p + 2) out, of_nat (p + 2),
      foldl TF_CksumAdd ck (be16 num))"
proof -
  have "unat (of_nat p :: u32) = p" "unat (of_nat p + 1 :: u32) = Suc p"
    using assms(2) by (simp_all add: unat_of_nat unat_word_ariths take_bit_eq_mod)
  moreover have "out[p := a, Suc p := b] = take p out @ [a, b] @ drop (p + 2) out" for a b
    using store_list_eq [of p "[a, b]" out] assms(1) by (simp add: store_Some)
  ultimately show ?thesis
    using assms(1) by (simp add: numeral_2_eq_2 be16_def byte_of_mask store_Some Let_def)
qed

lemma length_be16 [simp]: "length (be16 w) = 2"
  by (simp add: be16_def)

lemma WRITENUM_CKSUM_app:
  assumes "pos = of_nat (length xs)" and "length xs < 100"
  shows "WRITENUM_CKSUM 2 (num :: u16) (xs @ a # b # rest) pos ck =
    Some (xs @ be16 num @ rest, pos + 2, foldl TF_CksumAdd ck (be16 num))"
  using WRITENUM_CKSUM_2 [of "length xs" "xs @ a # b # rest" num ck] assms by simp

lemma and_255_u8: "(x :: u8) AND 255 = x"
  by (rule bit_word_eqI) (auto simp: mask_255 bit_simps)

lemma WRITENUM_1:
  assumes "off + p < length out" and "p < 2 ^ 32"
  shows "WRITENUM 1 (num :: u8) out off (of_nat p) =
    Some (out[off + p := num], of_nat (Suc p))"
proof -
  have "unat (of_nat p :: u32) = p"
    using assms(2) by (simp add: unat_of_nat take_bit_eq_mod)
  then show ?thesis
    using assms(1) by (simp add: and_255_u8 store_Some ac_simps)
qed

lemma TF_ComposeHead_eq:
  assumes "11 \<le> length out"
  shows "TF_ComposeHead tf out msg =
    Some (if is_response msg then tf else tf\<lparr>next_id := next_id tf + 1\<rparr>,
      head_bytes (frame_id_of tf msg) (msg_len msg) (msg_type msg) @ drop 8 out,
      msg\<lparr>frame_id := frame_id_of tf msg\<rparr>, 8)"
proof -
  obtain a b c d e f g h rest where out: "out = a # b # c # d # e # f # g # h # rest"
    using assms by (auto simp: Suc_le_length_iff numeral_eq_Suc)
  note W = WRITENUM_CKSUM_app
  have 1: "WRITENUM_CKSUM 2 (n :: u16) (s # x # y # r) 1 ck =
      Some (s # be16 n @ r, 3, foldl TF_CksumAdd ck (be16 n))" for n s x y r ck
    using W [of 1 "[s]" n x y r ck] by simp
  have 2: "WRITENUM_CKSUM 2 (n :: u16) (s # be16 i @ x # y # r) 3 ck =
      Some (s # be16 i @ be16 n @ r, 5, foldl TF_CksumAdd ck (be16 n))" for n s i x y r ck
    using W [of 3 "s # be16 i" n x y r ck] by simp
  have 3: "WRITENUM_CKSUM 2 (n :: u16) (s # be16 i @ be16 l @ x # y # r) 5 ck =
      Some (s # be16 i @ be16 l @ be16 n @ r, 7, foldl TF_CksumAdd ck (be16 n))" for n s i l x y r ck
    using W [of 5 "s # be16 i @ be16 l" n x y r ck] by simp
  have 4: "WRITENUM 1 (k :: u8) (s # be16 i @ be16 l @ be16 t @ x # r) 0 7 =
      Some (s # be16 i @ be16 l @ be16 t @ k # r, 8)" for k s i l t x r
  proof -
    have "(s # be16 i @ be16 l @ be16 t @ x # r)[7 := k] = s # be16 i @ be16 l @ be16 t @ k # r"
      using list_update_length [of "s # be16 i @ be16 l @ be16 t" x r k] by simp
    then show ?thesis
      using WRITENUM_1 [of 0 7 "s # be16 i @ be16 l @ be16 t @ x # r" k]
      by (simp del: WRITENUM.simps list_update.simps)
  qed
  have id: "(if is_response msg then (tf, frame_id msg)
      else (let i = next_id tf AND TF_ID_MASK; tf = tf\<lparr>next_id := next_id tf + 1\<rparr>
            in (tf, if peer_bit tf = TF_MASTER then i OR TF_ID_PEERBIT else i))) =
      (if is_response msg then tf else tf\<lparr>next_id := next_id tf + 1\<rparr>, frame_id_of tf msg)"
    by (simp add: frame_id_of_def)
  show ?thesis
    unfolding TF_ComposeHead_def id
    by (simp add: 1 2 3 4 out store_Some head_bytes_def head_fields_def cksum_of_def
        Let_def del: WRITENUM_CKSUM.simps WRITENUM.simps One_nat_def)
qed

lemma compose_body_loop_eq:
  assumes "off + unat n \<le> length out" and "doff + unat n \<le> length data" and "i \<le> unat n"
  shows "compose_body_loop out off data doff n i ck =
    (let bs = take (unat n - i) (drop (doff + i) data)
     in Some (take (off + i) out @ bs @ drop (off + unat n) out, ucast n, foldl TF_CksumAdd ck bs))"
  using assms
proof (induction "unat n - i" arbitrary: i out ck)
  case 0
  then have "i = unat n" by simp
  then show ?case
    by (simp add: compose_body_loop.simps [of out off data doff n "unat n" ck])
next
  case (Suc k)
  then have i: "i < unat n" by simp
  let ?b = "data ! (doff + i)" and ?out = "out[off + i := data ! (doff + i)]"
  have step: "compose_body_loop out off data doff n i ck =
      compose_body_loop ?out off data doff n (Suc i) (TF_CksumAdd ck ?b)"
    using i Suc.prems
    by (simp add: compose_body_loop.simps [of out off data doff n i ck] mem_simps)
  have split: "take (unat n - i) (drop (doff + i) data) =
      ?b # take (unat n - Suc i) (drop (doff + Suc i) data)"
    using i Suc.prems by (simp add: Cons_nth_drop_Suc [symmetric] Suc_diff_Suc [symmetric])
  have "take (off + Suc i) ?out = take (off + i) out @ [?b]"
    using i Suc.prems by (simp add: take_Suc_conv_app_nth)
  with Suc.hyps(1) [of "Suc i" ?out "TF_CksumAdd ck ?b"] Suc.hyps(2) Suc.prems i split
  show ?case by (simp add: step Let_def)
qed

lemma TF_ComposeBody_eq:
  assumes "off + unat n \<le> length out" and "doff + unat n \<le> length data"
  shows "TF_ComposeBody out off data doff n ck =
    (let bs = take (unat n) (drop doff data)
     in Some (take off out @ bs @ drop (off + unat n) out, ucast n, foldl TF_CksumAdd ck bs))"
  using compose_body_loop_eq [OF assms, of 0 ck] by (simp add: TF_ComposeBody_def)

lemma TF_ComposeTail_eq:
  "off < length out \<Longrightarrow>
   TF_ComposeTail out off ck = Some (out[off := TF_CksumEnd ck], 1, TF_CksumEnd ck)"
  using WRITENUM_1 [of off 0 out "TF_CksumEnd ck"] by (simp add: TF_ComposeTail_def Let_def del: WRITENUM.simps)

section \<open>A chunk of payload\<close>

text \<open>Only the transmit side of the instance changes.\<close>

definition same_but_tx :: "TinyFrame \<Rightarrow> TinyFrame \<Rightarrow> bool" where
  "same_but_tx tf tf' \<longleftrightarrow>
    tf' = tf\<lparr>sendbuf := sendbuf tf', tx_pos := tx_pos tf', tx_cksum := tx_cksum tf', wire := wire tf'\<rparr>"

definition sends :: "TinyFrame \<Rightarrow> u8 list \<Rightarrow> TinyFrame \<Rightarrow> bool" where
  "sends tf bs tf' \<longleftrightarrow> tx_inv tf' \<and> emitted tf' = emitted tf @ bs
    \<and> tx_cksum tf' = foldl TF_CksumAdd (tx_cksum tf) bs \<and> same_but_tx tf tf'"

lemma sends_refl: "tx_inv tf \<Longrightarrow> sends tf [] tf"
  by (simp add: sends_def same_but_tx_def)

lemma sends_trans: "sends tf xs t \<Longrightarrow> sends t ys u \<Longrightarrow> sends tf (xs @ ys) u"
  by (cases tf, cases t, cases u) (auto simp: sends_def same_but_tx_def)

lemma flush_emitted:
  assumes "tx_inv tf"
  shows "TF_WriteImpl tf (sendbuf tf) (tx_pos tf) = Some (tf\<lparr>wire := emitted tf\<rparr>)"
  using assms by (simp add: TF_WriteImpl_def emitted_def tx_inv_def load_list_Some)

text \<open>One round of the loop sends the bytes that fit.\<close>

definition round_size :: "TinyFrame \<Rightarrow> u32 \<Rightarrow> u32" where
  "round_size tf remain =
    (if of_nat TF_SENDBUF_LEN - tx_pos tf < remain then of_nat TF_SENDBUF_LEN - tx_pos tf else remain)"

lemma round_size:
  assumes "tx_inv tf"
  shows "unat (round_size tf remain) = min (2048 - unat (tx_pos tf)) (unat remain)"
proof -
  have "tx_pos tf \<le> of_nat TF_SENDBUF_LEN"
    using assms by (simp add: tx_inv_def word_le_nat_alt TF_SENDBUF_LEN_def)
  then have "unat (of_nat TF_SENDBUF_LEN - tx_pos tf) = 2048 - unat (tx_pos tf)"
    by (simp add: unat_sub)
  then show ?thesis by (auto simp: round_size_def word_less_nat_alt)
qed

lemma chunk_round:
  assumes inv: "tx_inv tf" and "0 < remain" and len: "unat sent + unat remain \<le> length buff"
  defines "n \<equiv> round_size tf remain"
  shows "\<exists>t. chunk_loop tf buff sent remain = chunk_loop t buff (sent + n) (remain - n)
    \<and> sends tf (take (unat n) (drop (unat sent) buff)) t \<and> tx_pos t \<noteq> of_nat TF_SENDBUF_LEN"
proof -
  let ?p = "unat (tx_pos tf)" and ?bs = "take (unat n) (drop (unat sent) buff)"
  have n: "unat n = min (2048 - ?p) (unat remain)" unfolding n_def using inv by (rule round_size)
  have p: "?p \<le> 2048" "length (sendbuf tf) = 2048"
    using inv by (auto simp: tx_inv_def TF_SENDBUF_LEN_def)
  have ucast: "unat (ucast n :: u16) = unat n" "ucast (ucast n :: u16) = n"
    using n by (simp_all add: unat_ucast_small ucast_ucast_small)
  let ?out = "take ?p (sendbuf tf) @ ?bs @ drop (?p + unat n) (sendbuf tf)"
  define t where "t = tf\<lparr>sendbuf := ?out, tx_cksum := foldl TF_CksumAdd (tx_cksum tf) ?bs,
    tx_pos := tx_pos tf + n\<rparr>"
  have body: "TF_ComposeBody (sendbuf tf) ?p buff (unat sent) (ucast n) (tx_cksum tf) =
      Some (?out, n, foldl TF_CksumAdd (tx_cksum tf) ?bs)"
    using n p len by (subst TF_ComposeBody_eq) (simp_all add: ucast Let_def)
  have pos: "unat (tx_pos tf + n) = ?p + unat n"
    using n p by (simp add: unat_word_ariths take_bit_eq_mod)
  have lenbs: "length ?bs = unat n" using n len by simp
  have fits: "?p + unat n \<le> 2048" using n p(1) by linarith
  then have "length ?out = 2048" using p lenbs by simp
  with fits have inv_t: "tx_inv t"
    by (simp add: tx_inv_def t_def pos TF_SENDBUF_LEN_def)
  have "take (?p + unat n) ?out = take ?p (sendbuf tf) @ ?bs"
    using p lenbs by simp
  then have "emitted t = emitted tf @ ?bs"
    by (simp add: emitted_def t_def pos)
  with inv_t have t: "sends tf ?bs t"
    by (simp add: sends_def same_but_tx_def t_def)
  note unfold = chunk_loop.simps [of tf buff sent remain]
  show ?thesis
  proof (cases "tx_pos t = of_nat TF_SENDBUF_LEN")
    case True
    let ?u = "t\<lparr>wire := emitted t, tx_pos := 0\<rparr>"
    have "chunk_loop tf buff sent remain = chunk_loop ?u buff (sent + n) (remain - n)"
      using \<open>0 < remain\<close> True flush_emitted [OF inv_t]
      by (simp add: unfold n_def [unfolded round_size_def, symmetric] body t_def Let_def)
    moreover have "same_but_tx tf ?u" by (simp add: same_but_tx_def t_def)
    then have "sends tf ?bs ?u"
      using t by (simp add: sends_def tx_inv_def emitted_def)
    moreover have "tx_pos ?u \<noteq> of_nat TF_SENDBUF_LEN" by (simp add: TF_SENDBUF_LEN_def)
    ultimately show ?thesis by blast
  next
    case False
    then have "chunk_loop tf buff sent remain = chunk_loop t buff (sent + n) (remain - n)"
      using \<open>0 < remain\<close>
      by (simp add: unfold n_def [unfolded round_size_def, symmetric] body t_def Let_def)
    with t False show ?thesis by blast
  qed
qed

lemma chunk_loop_sends:
  assumes "tx_inv tf" and "unat sent + unat remain \<le> length buff"
    and "unat sent + unat remain < 2 ^ 32"
  shows "\<exists>tf'. chunk_loop tf buff sent remain = Some tf'
    \<and> sends tf (take (unat remain) (drop (unat sent) buff)) tf'"
  using assms
proof (induction "2 * unat remain + (if tx_pos tf = of_nat TF_SENDBUF_LEN then 1 else 0)"
    arbitrary: tf sent remain rule: less_induct)
  case less
  show ?case
  proof (cases "remain = 0")
    case True
    then show ?thesis
      using less.prems(1) sends_refl [of tf] by (auto simp: chunk_loop.simps [of tf buff sent 0])
  next
    case False
    then have pos: "0 < remain" by (simp add: word_neq_0_conv)
    define n where "n = round_size tf remain"
    from chunk_round [OF less.prems(1) pos less.prems(2)] obtain t
      where t: "chunk_loop tf buff sent remain = chunk_loop t buff (sent + n) (remain - n)"
        and s: "sends tf (take (unat n) (drop (unat sent) buff)) t"
        and room: "tx_pos t \<noteq> of_nat TF_SENDBUF_LEN"
      unfolding n_def by blast
    have le: "unat n \<le> unat remain"
      using round_size [OF less.prems(1), of remain] by (simp add: n_def)
    then have rem: "unat (remain - n) = unat remain - unat n"
      by (simp add: unat_sub word_le_nat_alt)
    have snt: "unat (sent + n) = unat sent + unat n"
      using le less.prems(3) by (simp add: unat_word_ariths take_bit_eq_mod)
    have inv_t: "tx_inv t" using s by (simp add: sends_def)
    have m: "2 * unat (remain - n) + (if tx_pos t = of_nat TF_SENDBUF_LEN then 1 else 0)
        < 2 * unat remain + (if tx_pos tf = of_nat TF_SENDBUF_LEN then 1 else 0)"
      using chunk_decreases [OF pos, of "tx_pos tf"] room by (simp add: n_def round_size_def)
    have "unat (sent + n) + unat (remain - n) \<le> length buff"
      "unat (sent + n) + unat (remain - n) < 2 ^ 32"
      using le less.prems(2,3) by (simp_all add: rem snt)
    from less.hyps [OF m inv_t this] obtain u
      where u: "chunk_loop t buff (sent + n) (remain - n) = Some u"
        "sends t (take (unat remain - unat n) (drop (unat sent + unat n) buff)) u"
      by (auto simp: rem snt)
    have "take (unat n) (drop (unat sent) buff) @
        take (unat remain - unat n) (drop (unat sent + unat n) buff) =
        take (unat remain) (drop (unat sent) buff)"
      using take_add [of "unat n" "unat remain - unat n" "drop (unat sent) buff"] le
      by (simp add: add.commute)
    with sends_trans [OF s u(2)] t u(1) show ?thesis by simp
  qed
qed

lemma TF_SendFrame_Chunk_sends:
  assumes "tx_inv tf" and "unat len \<le> length buff"
  shows "\<exists>tf'. TF_SendFrame_Chunk tf buff len = Some tf' \<and> sends tf (take (unat len) buff) tf'"
  using chunk_loop_sends [of tf 0 len buff] assms unsigned_less [of len]
  by (simp add: TF_SendFrame_Chunk_def)

lemma add_tail_emitted:
  assumes inv: "tx_inv t" and room: "unat (tx_pos t) < 2048"
  shows "\<exists>u. add_tail t = Some u \<and> tx_inv u \<and> emitted u = emitted t @ [TF_CksumEnd (tx_cksum t)]
    \<and> same_but_tx t u"
proof -
  let ?p = "unat (tx_pos t)"
  let ?out = "(sendbuf t)[?p := TF_CksumEnd (tx_cksum t)]"
  let ?u = "t\<lparr>sendbuf := ?out, tx_cksum := TF_CksumEnd (tx_cksum t), tx_pos := tx_pos t + 1\<rparr>"
  have p: "?p < length (sendbuf t)"
    using inv room by (simp add: tx_inv_def TF_SENDBUF_LEN_def)
  have pos: "unat (tx_pos t + 1) = Suc ?p"
    using room by (simp add: unat_word_ariths take_bit_eq_mod)
  have "emitted ?u = emitted t @ [TF_CksumEnd (tx_cksum t)]"
    using p by (simp add: emitted_def pos take_Suc_conv_app_nth)
  moreover have "tx_inv ?u"
    using inv room by (simp add: tx_inv_def pos TF_SENDBUF_LEN_def)
  moreover have "add_tail t = Some ?u"
    using p by (simp add: add_tail_def TF_ComposeTail_eq)
  ultimately show ?thesis by (simp add: same_but_tx_def)
qed

lemma TF_SendFrame_End_eq:
  assumes inv: "tx_inv tf"
  shows "\<exists>tf'. TF_SendFrame_End tf = Some tf'
    \<and> wire tf' = emitted tf @ (if tx_len tf = 0 then [] else [TF_CksumEnd (tx_cksum tf)])
    \<and> same_but_tx (TF_ReleaseTx tf) tf' \<and> tx_inv tf'"
proof (cases "tx_len tf = 0")
  case True
  then show ?thesis
    using flush_emitted [OF inv] inv
    by (auto simp: TF_SendFrame_End_def TF_ReleaseTx_def same_but_tx_def tx_inv_def word_neq_0_conv)
next
  case False
  have finish: "\<exists>tf'. do { tf \<leftarrow> add_tail t; tf \<leftarrow> TF_WriteImpl tf (sendbuf tf) (tx_pos tf); Some (TF_ReleaseTx tf) }
      = Some tf' \<and> wire tf' = emitted t @ [TF_CksumEnd (tx_cksum t)]
      \<and> same_but_tx (TF_ReleaseTx t) tf' \<and> tx_inv tf'"
    if inv_t: "tx_inv t" and room: "unat (tx_pos t) < 2048" for t
  proof -
    from add_tail_emitted [OF inv_t room] obtain u
      where u: "add_tail t = Some u" "tx_inv u"
        "emitted u = emitted t @ [TF_CksumEnd (tx_cksum t)]" and same: "same_but_tx t u" by blast
    have "same_but_tx (TF_ReleaseTx t) (TF_ReleaseTx (u\<lparr>wire := w\<rparr>))" for w
      using same by (cases t, cases u) (simp add: same_but_tx_def TF_ReleaseTx_def)
    with u flush_emitted [OF u(2)] show ?thesis
      by (simp add: TF_ReleaseTx_def tx_inv_def)
  qed
  show ?thesis
  proof (cases "unat (tx_pos tf) < 2048")
    case True
    then have "\<not> of_nat TF_SENDBUF_LEN - tx_pos tf < 1"
      by (auto simp: word_less_1 TF_SENDBUF_LEN_def)
    then have "TF_SendFrame_End tf =
        do { tf \<leftarrow> add_tail tf; tf \<leftarrow> TF_WriteImpl tf (sendbuf tf) (tx_pos tf); Some (TF_ReleaseTx tf) }"
      using False by (simp add: TF_SendFrame_End_def word_neq_0_conv)
    with finish [OF inv True] False show ?thesis by simp
  next
    case full: False
    then have "unat (tx_pos tf) = unat (of_nat TF_SENDBUF_LEN :: u32)"
      using inv by (simp add: tx_inv_def TF_SENDBUF_LEN_def)
    then have pos: "tx_pos tf = of_nat TF_SENDBUF_LEN" by (simp only: word_unat_eq_iff)
    define t where "t = tf\<lparr>wire := emitted tf, tx_pos := 0\<rparr>"
    have "tx_inv t" "unat (tx_pos t) < 2048" and t: "emitted t = emitted tf"
        "tx_cksum t = tx_cksum tf"
      using inv by (simp_all add: t_def tx_inv_def emitted_def)
    have same: "same_but_tx (TF_ReleaseTx t) u \<Longrightarrow> same_but_tx (TF_ReleaseTx tf) u" for u
      by (simp add: t_def same_but_tx_def TF_ReleaseTx_def)
    have "TF_SendFrame_End tf =
        do { tf \<leftarrow> add_tail t; tf \<leftarrow> TF_WriteImpl tf (sendbuf tf) (tx_pos tf); Some (TF_ReleaseTx tf) }"
      using False flush_emitted [OF inv] pos
      by (simp add: TF_SendFrame_End_def word_neq_0_conv t_def)
    with finish [OF \<open>tx_inv t\<close> \<open>unat (tx_pos t) < 2048\<close>] False same show ?thesis
      by (auto simp: t)
  qed
qed

section \<open>A whole frame\<close>

text \<open>An instance at rest: the lock is free and the transmit buffer has its length.\<close>

definition tx_idle :: "TinyFrame \<Rightarrow> bool" where
  "tx_idle tf \<longleftrightarrow> \<not> soft_lock tf \<and> length (sendbuf tf) = TF_SENDBUF_LEN"

text \<open>What \<open>TF_SendFrame_Begin\<close> leaves when the listener, if any, found a slot.\<close>

definition begun :: "TinyFrame \<Rightarrow> TF_Msg \<Rightarrow> TinyFrame \<Rightarrow> TF_Msg \<Rightarrow> bool" where
  "begun tf msg t msg' \<longleftrightarrow> tx_inv t
    \<and> emitted t = wire tf @ head_bytes (frame_id_of tf msg) (msg_len msg) (msg_type msg)
    \<and> tx_len t = ucast (msg_len msg) \<and> tx_cksum t = TF_CksumStart \<and> soft_lock t
    \<and> next_id t = (if is_response msg then next_id tf else next_id tf + 1)
    \<and> msg' = msg\<lparr>frame_id := frame_id_of tf msg\<rparr>"

lemma length_head_bytes [simp]: "length (head_bytes i l t) = 8"
  by (simp add: head_bytes_def head_fields_def)

lemma frame_id_of_lock [simp]: "frame_id_of (tf\<lparr>soft_lock := b\<rparr>) msg = frame_id_of tf msg"
  by (simp add: frame_id_of_def)

lemma TF_AddIdListener_frame:
  "TF_AddIdListener t msg cb timeout = Some (u, b) \<Longrightarrow>
   \<exists>ls n. u = t\<lparr>id_listeners := ls, count_id_lst := n\<rparr>"
  by (cases t) (auto simp: TF_AddIdListener_def Let_def split: option.splits if_splits)

text \<open>A frame asks for no answer, or there is a slot for its listener.\<close>

definition listener_fits :: "TinyFrame \<Rightarrow> TF_Listener option \<Rightarrow> bool" where
  "listener_fits tf listener \<longleftrightarrow>
    listener = None \<or> (\<exists>l \<in> set (id_listeners tf). \<not> id_live l)"

lemma listener_added:
  assumes "id_table_inv t" and "listener_fits t (Some f)"
  shows "\<exists>u. TF_AddIdListener t msg (Some f) timeout = Some (u, True) \<and> id_table_inv u"
proof -
  have inv: "id_tab.table_inv t" using assms(1) by (simp add: id_table_inv_eq)
  obtain i where i: "i < TF_MAX_ID_LST" "\<not> id_live (id_listeners t ! i)"
    using assms by (auto simp: listener_fits_def in_set_conv_nth id_table_inv_def)
  show ?thesis
  proof (rule id_tab.insert_cases [OF inv, of "(msg, f, timeout)"], goal_cases)
    case (1 j u)
    then show ?thesis
      using id_tab.insert_inv [OF inv, of "(msg, f, timeout)" u True] by (auto simp: id_table_inv_eq)
  next
    case 2
    with i show ?thesis by blast
  qed
qed

lemma TF_SendFrame_Begin_begun:
  assumes idle: "tx_idle tf" and inv: "id_table_inv tf" and fits: "listener_fits tf listener"
  shows "\<exists>t msg'. TF_SendFrame_Begin tf msg listener timeout = Some (t, msg', True)
    \<and> begun tf msg t msg' \<and> id_table_inv t"
proof -
  let ?head = "head_bytes (frame_id_of tf msg) (msg_len msg) (msg_type msg)"
  let ?msg = "msg\<lparr>frame_id := frame_id_of tf msg\<rparr>"
  define t where "t = (if is_response msg then tf\<lparr>soft_lock := True\<rparr>
      else tf\<lparr>soft_lock := True, next_id := next_id tf + 1\<rparr>)
    \<lparr>sendbuf := ?head @ drop 8 (sendbuf tf), tx_pos := 8,
     tx_len := ucast (msg_len msg)\<rparr>"
  have unlocked: "\<not> soft_lock tf" and len: "11 \<le> length (sendbuf tf)"
    using idle by (simp_all add: tx_idle_def TF_SENDBUF_LEN_def)
  have same: "id_listeners t = id_listeners tf" "count_id_lst t = count_id_lst tf"
    by (simp_all add: t_def)
  then have inv_t: "id_table_inv t" and fits_t: "listener_fits t listener"
    using inv fits by (simp_all add: id_table_inv_def listener_fits_def)
  have beg: "TF_SendFrame_Begin tf msg listener timeout =
      do { (t, ok) \<leftarrow> (if listener \<noteq> None then TF_AddIdListener t ?msg listener timeout else Some (t, True));
           if \<not> ok then Some (t, ?msg, False) else Some (t\<lparr>tx_cksum := TF_CksumStart\<rparr>, ?msg, True) }"
    using unlocked len
    by (simp add: TF_SendFrame_Begin_def TF_ClaimTx_def TF_ComposeHead_eq t_def Let_def)
  have begun_t: "begun tf msg (t\<lparr>id_listeners := ls, count_id_lst := n, tx_cksum := TF_CksumStart\<rparr>) ?msg" for ls n
    using idle by (simp add: begun_def tx_idle_def tx_inv_def emitted_def t_def TF_SENDBUF_LEN_def)
  show ?thesis
  proof (cases listener)
    case None
    then show ?thesis
      using beg begun_t [where ls = "id_listeners t" and n = "count_id_lst t"] inv_t
      by (simp add: id_table_inv_def)
  next
    case (Some f)
    with listener_added [OF inv_t, of f ?msg timeout] fits_t obtain u
      where u: "TF_AddIdListener t ?msg (Some f) timeout = Some (u, True)" "id_table_inv u" by blast
    from TF_AddIdListener_frame [OF u(1)] obtain ls n
      where "u = t\<lparr>id_listeners := ls, count_id_lst := n\<rparr>" by blast
    with begun_t [where ls = ls and n = n] u beg Some show ?thesis
      by (auto simp: id_table_inv_def)
  qed
qed

text \<open>The lock keeps a second frame out of one that is being sent.\<close>

lemma TF_SendFrame_locked:
  "soft_lock tf \<Longrightarrow> TF_SendFrame tf msg listener timeout = Some (tf, msg, False)"
  by (simp add: TF_SendFrame_def TF_SendFrame_Begin_def TF_ClaimTx_def)

lemma same_but_tx_keeps:
  assumes "same_but_tx tf tf'"
  shows "next_id tf' = next_id tf" "tx_len tf' = tx_len tf" "soft_lock tf' = soft_lock tf"
    "id_listeners tf' = id_listeners tf" "count_id_lst tf' = count_id_lst tf" "peer_bit tf' = peer_bit tf"
proof -
  note eq = assms [unfolded same_but_tx_def]
  show "next_id tf' = next_id tf" by (subst eq) simp
  show "tx_len tf' = tx_len tf" by (subst eq) simp
  show "soft_lock tf' = soft_lock tf" by (subst eq) simp
  show "id_listeners tf' = id_listeners tf" by (subst eq) simp
  show "count_id_lst tf' = count_id_lst tf" by (subst eq) simp
  show "peer_bit tf' = peer_bit tf" by (subst eq) simp
qed

text \<open>After the head: any sends, then the end.\<close>

lemma end_after_begin:
  assumes "begun tf msg t msg'" and "sends t data u"
  shows "\<exists>tf'. TF_SendFrame_End u = Some tf'
    \<and> wire tf' = wire tf @ frame_bytes (frame_id_of tf msg) (msg_len msg) (msg_type msg) data
    \<and> tx_idle tf' \<and> next_id tf' = next_id t \<and> id_listeners tf' = id_listeners t
    \<and> count_id_lst tf' = count_id_lst t"
proof -
  note same = same_but_tx_keeps
  have u: "tx_inv u" "emitted u = emitted t @ data" "tx_cksum u = foldl TF_CksumAdd TF_CksumStart data"
    and tu: "same_but_tx t u" and len: "tx_len t = ucast (msg_len msg)"
    using assms by (auto simp: sends_def begun_def)
  from TF_SendFrame_End_eq [OF u(1)] obtain tf' where tf': "TF_SendFrame_End u = Some tf'"
      "wire tf' = emitted u @ (if tx_len u = 0 then [] else [TF_CksumEnd (tx_cksum u)])"
      and ut: "same_but_tx (TF_ReleaseTx u) tf'" and idle: "tx_inv tf'"
    by blast
  have "(ucast (msg_len msg) :: u32) = 0 \<longleftrightarrow> msg_len msg = 0"
    by (simp add: word_unat_eq_iff)
  then have "wire tf' = wire tf @ frame_bytes (frame_id_of tf msg) (msg_len msg) (msg_type msg) data"
    using assms(1) by (simp add: tf'(2) u same(2) [OF tu] len begun_def frame_bytes_def
        tail_bytes_def cksum_of_def)
  moreover have "tx_idle tf'" "next_id tf' = next_id t" "id_listeners tf' = id_listeners t"
    "count_id_lst tf' = count_id_lst t"
    using idle same [OF ut] same [OF tu] by (simp_all add: tx_idle_def tx_inv_def TF_ReleaseTx_def)
  ultimately show ?thesis using tf'(1) by blast
qed

lemma TF_SendFrame_sends:
  assumes "tx_idle tf" and "id_table_inv tf" and "listener_fits tf listener"
    and data: "msg_len msg = 0 \<or> msg_data msg \<noteq> None"
    and len: "length (payload (msg_data msg)) = unat (msg_len msg)"
  shows "\<exists>tf'. TF_SendFrame tf msg listener timeout =
      Some (tf', msg\<lparr>frame_id := frame_id_of tf msg\<rparr>, True)
    \<and> wire tf' = wire tf @
        frame_bytes (frame_id_of tf msg) (msg_len msg) (msg_type msg) (payload (msg_data msg))
    \<and> tx_idle tf' \<and> id_table_inv tf'
    \<and> next_id tf' = (if is_response msg then next_id tf else next_id tf + 1)"
proof -
  from TF_SendFrame_Begin_begun [OF assms(1-3)] obtain t where
    b: "TF_SendFrame_Begin tf msg listener timeout = Some (t, msg\<lparr>frame_id := frame_id_of tf msg\<rparr>, True)"
      "begun tf msg t (msg\<lparr>frame_id := frame_id_of tf msg\<rparr>)" "id_table_inv t"
    by (force simp: begun_def)
  have "tx_inv t" "tx_cksum t = TF_CksumStart"
    and nid: "next_id t = (if is_response msg then next_id tf else next_id tf + 1)"
    using b(2) by (simp_all add: begun_def)
  with TF_SendFrame_Chunk_sends [of t "ucast (msg_len msg)" "payload (msg_data msg)"] len obtain u
    where u: "TF_SendFrame_Chunk t (payload (msg_data msg)) (ucast (msg_len msg)) = Some u"
      "sends t (payload (msg_data msg)) u" by auto
  from end_after_begin [OF b(2) u(2)] b(1,3) u(1) data nid show ?thesis
    by (auto simp: TF_SendFrame_def id_table_inv_def)
qed

text \<open>A multipart frame: the payload comes in any number of parts of any size.\<close>

fun multipart_payloads :: "TinyFrame \<Rightarrow> u8 list list \<Rightarrow> TinyFrame option" where
  "multipart_payloads tf [] = Some tf"
| "multipart_payloads tf (c # cs) =
     Option.bind (TF_Multipart_Payload tf c (of_nat (length c))) (\<lambda>tf. multipart_payloads tf cs)"

definition multipart_frame :: "TinyFrame \<Rightarrow> TF_Msg \<Rightarrow> u8 list list \<Rightarrow> TinyFrame option" where
  "multipart_frame tf msg parts = do {
     (tf, msg, ok) \<leftarrow> TF_Send_Multipart tf msg;
     tf \<leftarrow> multipart_payloads tf parts;
     TF_Multipart_Close tf
   }"

lemma multipart_payloads_sends:
  assumes "tx_inv tf" and "\<forall>c \<in> set cs. length c < 2 ^ 32"
  shows "\<exists>tf'. multipart_payloads tf cs = Some tf' \<and> sends tf (concat cs) tf'"
  using assms
proof (induction cs arbitrary: tf)
  case Nil
  then show ?case by (simp add: sends_refl)
next
  case (Cons c cs)
  then have "unat (of_nat (length c) :: u32) = length c"
    by (simp add: unat_of_nat take_bit_eq_mod)
  with TF_SendFrame_Chunk_sends [OF Cons.prems(1), of "of_nat (length c)" c] obtain t
    where t: "TF_Multipart_Payload tf c (of_nat (length c)) = Some t" "sends tf c t"
    by (auto simp: TF_Multipart_Payload_def)
  with Cons.IH [of t] Cons.prems(2) obtain u
    where "multipart_payloads t cs = Some u" "sends t (concat cs) u" by (auto simp: sends_def)
  with t sends_trans [OF t(2)] show ?case by auto
qed

lemma multipart_frame_sends:
  assumes "tx_idle tf" and "id_table_inv tf" and "msg_len msg \<noteq> 0"
    and "\<forall>c \<in> set parts. length c < 2 ^ 32"
  shows "\<exists>tf'. multipart_frame tf msg parts = Some tf' \<and> tx_idle tf'
    \<and> wire tf' = wire tf @
        frame_bytes (frame_id_of tf msg) (msg_len msg) (msg_type msg) (concat parts)"
proof -
  let ?m = "msg\<lparr>msg_data := None\<rparr>"
  have fid: "frame_id_of tf ?m = frame_id_of tf msg" by (simp add: frame_id_of_def)
  have fits: "listener_fits tf None" by (simp add: listener_fits_def)
  from TF_SendFrame_Begin_begun [OF assms(1,2) fits, of ?m 0] obtain t m
    where b: "TF_SendFrame_Begin tf ?m None 0 = Some (t, m, True)" "begun tf ?m t m" by blast
  then have "tx_inv t" "msg_len m = msg_len msg" "msg_data m = None"
    by (simp_all add: begun_def)
  from multipart_payloads_sends [OF this(1) assms(4)] obtain u
    where u: "multipart_payloads t parts = Some u" "sends t (concat parts) u" by blast
  from end_after_begin [OF b(2) u(2)] u(1) b(1) \<open>msg_len m = _\<close> \<open>msg_data m = None\<close> assms(3)
  show ?thesis
    by (auto simp: multipart_frame_def TF_Send_Multipart_def TF_Send_def TF_SendFrame_def
        TF_Multipart_Close_def fid)
qed

end
