(* ===== verification/TF_Receive.thy ===== *)
theory TF_Receive
  imports TF_Transmit
begin

text \<open>
  The parser of tinyframe/TinyFrame.c read as a receiver of whole frames: what
  \<open>TF_AcceptChar\<close> answers on every byte of a frame and which fields it leaves, for intact frames,
  for frames with a damaged payload or header, for empty and for oversized frames; and the round
  trip with the transmit side of TF_Transmit.
\<close>

section \<open>Runs of the parser\<close>

lemma accept_results_append:
  "accept_results tf (xs @ ys) =
    Option.bind (accept_results tf xs) (\<lambda>(t, rs).
      map_option (\<lambda>(u, ss). (u, rs @ ss)) (accept_results t ys))"
proof (induction xs arbitrary: tf)
  case Nil
  then show ?case by (simp add: option.map_comp comp_def split_def option.map_ident)
next
  case (Cons x xs)
  then show ?case
    by (auto split: Option.bind_splits simp: option.map_comp comp_def split_def)
qed

lemma accept_results_appendI:
  assumes "accept_results tf xs = Some (t, rs)" and "accept_results t ys = Some (u, ss)"
  shows "accept_results tf (xs @ ys) = Some (u, rs @ ss)"
  using assms by (simp add: accept_results_append)

lemma TF_Accept_results: "TF_Accept tf cs = map_option fst (accept_results tf cs)"
  by (induction cs arbitrary: tf)
    (auto simp: option.map_comp comp_def split_def split: Option.bind_splits)

text \<open>Between two bytes of a frame with no tick in between the timeout does nothing.\<close>

lemma timeout_quiet: "parser_timeout_ticks tf = 0 \<Longrightarrow> parser_timeout_clear tf = tf"
  by (simp add: parser_timeout_clear_def TF_PARSER_TIMEOUT_TICKS_def)

lemma timeout_sof:
  "state tf = TFState_SOF \<Longrightarrow> parser_timeout_clear tf = tf\<lparr>parser_timeout_ticks := 0\<rparr>"
  by (simp add: parser_timeout_clear_def)

lemma collect_be16:
  "collect (collect (x :: u16) (ucast (drop_bit 8 (w :: u16)))) (ucast w) = w"
  unfolding collect_def by (rule bit_word_eqI) (auto simp: bit_simps)

lemma collect_byte [simp]: "collect (0 :: u8) c = c"
  unfolding collect_def by simp

section \<open>The head\<close>

lemma accept_results_sof:
  assumes "state tf = TFState_SOF"
  shows "accept_results tf [TF_SOF_BYTE] =
    Some (pars_begin_frame (tf\<lparr>parser_timeout_ticks := 0\<rparr>), [1])"
  using assms by (simp add: TF_AcceptChar_def timeout_sof accept_sof_def)

lemma accept_results_id:
  assumes "parser_timeout_ticks tf = 0" and "state tf = TFState_ID" and "rxi tf = 0"
  shows "accept_results tf (be16 w) =
    Some (tf\<lparr>cksum := foldl TF_CksumAdd (cksum tf) (be16 w), rx_id := w, rxi := 0,
      state := TFState_LEN\<rparr>, [-2, 2])"
  using assms
  by (simp add: TF_AcceptChar_def timeout_quiet accept_id_def be16_def Let_def collect_be16)

lemma accept_results_len:
  assumes "parser_timeout_ticks tf = 0" and "state tf = TFState_LEN" and "rxi tf = 0"
  shows "accept_results tf (be16 w) =
    Some (tf\<lparr>cksum := foldl TF_CksumAdd (cksum tf) (be16 w), rx_len := w, rxi := 0,
      state := TFState_TYPE\<rparr>, [-3, 3])"
  using assms
  by (simp add: TF_AcceptChar_def timeout_quiet accept_len_def be16_def Let_def collect_be16)

lemma accept_results_type:
  assumes "parser_timeout_ticks tf = 0" and "state tf = TFState_TYPE" and "rxi tf = 0"
  shows "accept_results tf (be16 w) =
    Some (tf\<lparr>cksum := foldl TF_CksumAdd (cksum tf) (be16 w), rx_type := w, rxi := 0, ref_cksum := 0,
      state := (if rx_len tf = 0 then TFState_SOF else TFState_HEAD_CKSUM)\<rparr>,
      [-4, if rx_len tf = 0 then 0 else 4])"
  using assms
  by (simp add: TF_AcceptChar_def timeout_quiet accept_type_def be16_def Let_def collect_be16
      TF_ResetParser_def)

text \<open>The seven bytes before the header checksum.\<close>

definition after_head_fields :: "TinyFrame \<Rightarrow> u16 \<Rightarrow> u16 \<Rightarrow> u16 \<Rightarrow> TinyFrame" where
  "after_head_fields tf fid len ty =
    tf\<lparr>parser_timeout_ticks := 0,
       cksum := foldl TF_CksumAdd TF_CksumStart (head_fields fid len ty), discard_data := False,
       rxi := 0, rx_id := fid, rx_len := len, rx_type := ty, ref_cksum := 0,
       state := (if len = 0 then TFState_SOF else TFState_HEAD_CKSUM)\<rparr>"

lemma accept_head_fields:
  assumes "state tf = TFState_SOF"
  shows "accept_results tf (head_fields fid len ty) =
    Some (after_head_fields tf fid len ty, [1, -2, 2, -3, 3, -4, if len = 0 then 0 else 4])"
proof -
  let ?t0 = "pars_begin_frame (tf\<lparr>parser_timeout_ticks := 0\<rparr>)"
  let ?t1 = "?t0\<lparr>cksum := foldl TF_CksumAdd (cksum ?t0) (be16 fid), rx_id := fid, rxi := 0,
    state := TFState_LEN\<rparr>"
  let ?t2 = "?t1\<lparr>cksum := foldl TF_CksumAdd (cksum ?t1) (be16 len), rx_len := len, rxi := 0,
    state := TFState_TYPE\<rparr>"
  have 0: "accept_results tf [TF_SOF_BYTE] = Some (?t0, [1])"
    using assms by (rule accept_results_sof)
  have 1: "accept_results ?t0 (be16 fid) = Some (?t1, [-2, 2])"
    by (rule accept_results_id) (simp_all add: pars_begin_frame_def)
  have 2: "accept_results ?t1 (be16 len) = Some (?t2, [-3, 3])"
    by (rule accept_results_len) (simp_all add: pars_begin_frame_def)
  have 3: "accept_results ?t2 (be16 ty) =
      Some (after_head_fields tf fid len ty, [-4, if len = 0 then 0 else 4])"
    by (subst accept_results_type)
      (simp_all add: pars_begin_frame_def after_head_fields_def head_fields_def)
  have "head_fields fid len ty = [TF_SOF_BYTE] @ be16 fid @ be16 len @ be16 ty"
    by (simp add: head_fields_def)
  then show ?thesis
    using accept_results_appendI [OF 0 accept_results_appendI [OF 1 accept_results_appendI [OF 2 3]]]
    by simp
qed

text \<open>
  The header checksum byte. A mismatch changes the answer to -8, and nothing else: the parser goes
  on to the payload in both cases.
\<close>

definition after_head :: "TinyFrame \<Rightarrow> u16 \<Rightarrow> u16 \<Rightarrow> u16 \<Rightarrow> u8 \<Rightarrow> TinyFrame" where
  "after_head tf fid len ty c =
    (after_head_fields tf fid len ty)\<lparr>ref_cksum := c, rxi := 0, cksum := TF_CksumStart,
       state := TFState_DATA, discard_data := (unat len > TF_MAX_PAYLOAD_RX)\<rparr>"

lemma accept_head:
  assumes "state tf = TFState_SOF" and "len \<noteq> 0"
  shows "accept_results tf (head_fields fid len ty @ [c]) =
    Some (after_head tf fid len ty c,
      [1, -2, 2, -3, 3, -4, 4,
       if unat len > TF_MAX_PAYLOAD_RX then -9 else if c = cksum_of (head_fields fid len ty) then 5 else -8])"
proof -
  let ?t = "after_head_fields tf fid len ty"
  have "TF_AcceptChar ?t c = Some (accept_head_cksum ?t c)"
    using assms(2) by (simp add: TF_AcceptChar_def timeout_quiet after_head_fields_def)
  moreover have "accept_head_cksum ?t c = (after_head tf fid len ty c,
      if unat len > TF_MAX_PAYLOAD_RX then -9 else if c = cksum_of (head_fields fid len ty) then 5 else -8)"
    using assms(2)
    by (auto simp: accept_head_cksum_def after_head_fields_def after_head_def Let_def
        TF_ResetParser_def cksum_of_def)
  ultimately show ?thesis
    using accept_results_append [of tf "head_fields fid len ty" "[c]"] assms
    by (simp add: accept_head_fields)
qed

section \<open>The payload\<close>

lemma accept_data_step:
  assumes "parser_timeout_ticks tf = 0" and "state tf = TFState_DATA" and "\<not> discard_data tf"
    and "unat (rxi tf) < length (rx_data tf)"
  shows "TF_AcceptChar tf c =
    (let t = tf\<lparr>cksum := TF_CksumAdd (cksum tf) c, rx_data := (rx_data tf)[unat (rxi tf) := c],
               rxi := rxi tf + 1\<rparr>
     in Some (if rxi t = rx_len t then t\<lparr>state := TFState_DATA_CKSUM, rxi := 0, ref_cksum := 0\<rparr> else t, 6))"
  using assms by (simp add: TF_AcceptChar_def timeout_quiet accept_data_def store_Some Let_def)

lemma accept_data_run:
  assumes "parser_timeout_ticks tf = 0" and "state tf = TFState_DATA" and "\<not> discard_data tf"
    and "unat (rxi tf) + length bs = unat (rx_len tf)" and "bs \<noteq> []"
    and "unat (rx_len tf) \<le> length (rx_data tf)"
  shows "accept_results tf bs =
    Some (tf\<lparr>cksum := foldl TF_CksumAdd (cksum tf) bs,
        rx_data := take (unat (rxi tf)) (rx_data tf) @ bs @ drop (unat (rx_len tf)) (rx_data tf),
        rxi := 0, state := TFState_DATA_CKSUM, ref_cksum := 0\<rparr>,
      replicate (length bs) 6)"
  using assms
proof (induction bs arbitrary: tf)
  case Nil
  then show ?case by simp
next
  case (Cons c cs)
  let ?i = "unat (rxi tf)"
  let ?t = "tf\<lparr>cksum := TF_CksumAdd (cksum tf) c, rx_data := (rx_data tf)[?i := c], rxi := rxi tf + 1\<rparr>"
  have i: "?i < length (rx_data tf)" and lt: "?i < unat (rx_len tf)"
    using Cons.prems(4,6) by simp_all
  have inc: "unat (rxi tf + 1) = Suc ?i"
    using lt by (rule unat_inc_less)
  note step = accept_data_step [OF Cons.prems(1-3) i, of c]
  have upd: "take (Suc ?i) ((rx_data tf)[?i := c]) = take ?i (rx_data tf) @ [c]"
    using i by (simp add: take_Suc_conv_app_nth)
  show ?case
  proof (cases "cs = []")
    case True
    then have len: "unat (rx_len tf) = Suc ?i" using Cons.prems(4) by simp
    then have "rxi tf + 1 = rx_len tf" by (simp add: word_unat_eq_iff inc)
    moreover have "(rx_data tf)[?i := c] = take ?i (rx_data tf) @ [c] @ drop (Suc ?i) (rx_data tf)"
      using i by (simp add: upd_conv_take_nth_drop)
    ultimately show ?thesis using True len by (simp add: step Let_def)
  next
    case False
    then have "unat (rxi tf + 1) \<noteq> unat (rx_len tf)"
      using Cons.prems(4) by (cases cs) (simp_all add: inc)
    then have "rxi tf + 1 \<noteq> rx_len tf" by auto
    then have st: "TF_AcceptChar tf c = Some (?t, 6)" by (simp add: step Let_def)
    have "drop (unat (rx_len tf)) ((rx_data tf)[?i := c]) = drop (unat (rx_len tf)) (rx_data tf)"
      using lt by simp
    with Cons.IH [of ?t] Cons.prems False inc upd st show ?thesis
      by simp
  qed
qed

lemma accept_discard_run:
  assumes "parser_timeout_ticks tf = 0" and "state tf = TFState_DATA" and "discard_data tf"
    and "unat (rxi tf) + length bs = unat (rx_len tf)" and "bs \<noteq> []"
  shows "accept_results tf bs =
    Some (tf\<lparr>rxi := 0, state := TFState_DATA_CKSUM, ref_cksum := 0\<rparr>, replicate (length bs) (-6))"
  using assms
proof (induction bs arbitrary: tf)
  case Nil
  then show ?case by simp
next
  case (Cons c cs)
  have lt: "unat (rxi tf) < unat (rx_len tf)" using Cons.prems(4) by simp
  then have inc: "unat (rxi tf + 1) = Suc (unat (rxi tf))"
    by (rule unat_inc_less)
  have eq: "rxi tf + 1 = rx_len tf \<longleftrightarrow> cs = []"
    using Cons.prems(4) by (cases cs) (simp_all add: word_unat_eq_iff inc)
  have step: "TF_AcceptChar tf c = Some (if cs = []
      then tf\<lparr>state := TFState_DATA_CKSUM, rxi := 0, ref_cksum := 0\<rparr> else tf\<lparr>rxi := rxi tf + 1\<rparr>, -6)"
    using Cons.prems(1-3) by (simp add: TF_AcceptChar_def timeout_quiet accept_data_def eq)
  show ?case
  proof (cases "cs = []")
    case True
    then show ?thesis by (simp add: step)
  next
    case False
    have "accept_results (tf\<lparr>rxi := rxi tf + 1\<rparr>) cs =
        Some (tf\<lparr>rxi := 0, state := TFState_DATA_CKSUM, ref_cksum := 0\<rparr>, replicate (length cs) (-6))"
      using Cons.IH [of "tf\<lparr>rxi := rxi tf + 1\<rparr>"] Cons.prems inc False by simp
    with False show ?thesis by (simp add: step)
  qed
qed

section \<open>A whole frame\<close>

lemma accept_payload_cksum:
  assumes "parser_timeout_ticks tf = 0" and "state tf = TFState_DATA_CKSUM" and "rxi tf = 0"
    and "ref_cksum tf = 0"
  shows "accept_results tf [c] =
    Some (tf\<lparr>ref_cksum := c, rxi := 1, cksum := TF_CksumEnd (cksum tf), state := TFState_SOF\<rparr>,
      [if discard_data tf \<or> c = TF_CksumEnd (cksum tf) then 0 else -10])"
  using assms
  by (auto simp: TF_AcceptChar_def timeout_quiet accept_data_cksum_def Let_def TF_ResetParser_def)

text \<open>The parser is ready for a frame; the fields the client reads after an answer 0.\<close>

definition rx_ready :: "TinyFrame \<Rightarrow> bool" where
  "rx_ready tf \<longleftrightarrow> state tf = TFState_SOF \<and> length (rx_data tf) = TF_MAX_PAYLOAD_RX"

definition received :: "TinyFrame \<Rightarrow> u16 \<Rightarrow> u16 \<Rightarrow> u8 list \<Rightarrow> bool" where
  "received tf fid ty data \<longleftrightarrow> rx_id tf = fid \<and> rx_type tf = ty
    \<and> unat (rx_len tf) = length data \<and> take (length data) (rx_data tf) = data"

lemma accept_frame:
  assumes ready: "rx_ready tf" and len: "unat len = length data" and "data \<noteq> []"
    and short: "length data \<le> TF_MAX_PAYLOAD_RX"
  shows "\<exists>u. accept_results tf (head_fields fid len ty @ [hc] @ data @ [dc]) =
      Some (u, [1, -2, 2, -3, 3, -4, 4, if hc = cksum_of (head_fields fid len ty) then 5 else -8]
        @ replicate (length data) 6 @ [if dc = cksum_of data then 0 else -10])
    \<and> rx_ready u \<and> received u fid ty data"
proof -
  have nz: "len \<noteq> 0" using len \<open>data \<noteq> []\<close> by auto
  let ?t = "after_head tf fid len ty hc"
  let ?u = "?t\<lparr>cksum := foldl TF_CksumAdd TF_CksumStart data,
    rx_data := data @ drop (length data) (rx_data tf), rxi := 0, state := TFState_DATA_CKSUM, ref_cksum := 0\<rparr>"
  let ?v = "?u\<lparr>ref_cksum := dc, rxi := 1, cksum := TF_CksumEnd (cksum ?u), state := TFState_SOF\<rparr>"
  have 1: "accept_results tf (head_fields fid len ty @ [hc]) =
      Some (?t, [1, -2, 2, -3, 3, -4, 4, if hc = cksum_of (head_fields fid len ty) then 5 else -8])"
    using accept_head [of tf len fid ty hc] ready nz short len by (simp add: rx_ready_def)
  have 2: "accept_results ?t data = Some (?u, replicate (length data) 6)"
    using ready \<open>data \<noteq> []\<close> short len
    by (subst accept_data_run) (simp_all add: after_head_def after_head_fields_def rx_ready_def)
  have 3: "accept_results ?u [dc] = Some (?v, [if dc = cksum_of data then 0 else -10])"
    using short len
    by (subst accept_payload_cksum) (simp_all add: after_head_def after_head_fields_def cksum_of_def)
  have "rx_ready ?v" "received ?v fid ty data"
    using ready short len
    by (simp_all add: rx_ready_def received_def after_head_def after_head_fields_def)
  then show ?thesis
    using accept_results_appendI [OF 1 accept_results_appendI [OF 2 3]] by auto
qed

text \<open>An oversized payload is skipped; the answer to its last byte is 0 all the same.\<close>

lemma accept_oversized:
  assumes ready: "rx_ready tf" and len: "unat len = length data"
    and long: "TF_MAX_PAYLOAD_RX < length data"
  shows "\<exists>u. accept_results tf (head_fields fid len ty @ [hc] @ data @ [dc]) =
      Some (u, [1, -2, 2, -3, 3, -4, 4, -9] @ replicate (length data) (-6) @ [0])
    \<and> rx_ready u \<and> rx_data u = rx_data tf"
proof -
  have nz: "len \<noteq> 0" and nonempty: "data \<noteq> []" using len long by auto
  let ?t = "after_head tf fid len ty hc"
  let ?u = "?t\<lparr>rxi := 0, state := TFState_DATA_CKSUM, ref_cksum := 0\<rparr>"
  let ?v = "?u\<lparr>ref_cksum := dc, rxi := 1, cksum := TF_CksumEnd (cksum ?u), state := TFState_SOF\<rparr>"
  have 1: "accept_results tf (head_fields fid len ty @ [hc]) = Some (?t, [1, -2, 2, -3, 3, -4, 4, -9])"
    using accept_head [of tf len fid ty hc] ready nz long len by (simp add: rx_ready_def)
  have 2: "accept_results ?t data = Some (?u, replicate (length data) (-6))"
    using nonempty len long
    by (subst accept_discard_run) (simp_all add: after_head_def after_head_fields_def)
  have 3: "accept_results ?u [dc] = Some (?v, [0])"
    using long len
    by (subst accept_payload_cksum) (simp_all add: after_head_def after_head_fields_def)
  have "rx_ready ?v" "rx_data ?v = rx_data tf"
    using ready by (simp_all add: rx_ready_def after_head_def after_head_fields_def)
  then show ?thesis
    using accept_results_appendI [OF 1 accept_results_appendI [OF 2 3]] by auto
qed

text \<open>Bytes that are no start of frame are skipped.\<close>

lemma accept_noise:
  assumes "rx_ready tf" and "TF_SOF_BYTE \<notin> set noise"
  shows "\<exists>u. accept_results tf noise = Some (u, replicate (length noise) (-1)) \<and> rx_ready u"
  using assms
proof (induction noise arbitrary: tf)
  case Nil
  then show ?case by simp
next
  case (Cons c cs)
  let ?t = "tf\<lparr>parser_timeout_ticks := 0\<rparr>"
  have "TF_AcceptChar tf c = Some (?t, -1)"
    using Cons.prems by (auto simp: TF_AcceptChar_def rx_ready_def timeout_sof accept_sof_def)
  moreover have "rx_ready ?t" using Cons.prems(1) by (simp add: rx_ready_def)
  ultimately show ?case using Cons.IH [of ?t] Cons.prems(2) by auto
qed

section \<open>Round trips\<close>

text \<open>A sequence of frames, each with an ID, a type and a payload of 1 to 128 bytes.\<close>

type_synonym sent_frame = "u16 \<times> u16 \<times> u8 list"

definition wire_of :: "sent_frame \<Rightarrow> u8 list" where
  "wire_of = (\<lambda>(fid, ty, data). frame_bytes fid (of_nat (length data)) ty data)"

definition frame_ok :: "sent_frame \<Rightarrow> bool" where
  "frame_ok = (\<lambda>(fid, ty, data). data \<noteq> [] \<and> length data \<le> TF_MAX_PAYLOAD_RX)"

definition answers :: "sent_frame \<Rightarrow> int list" where
  "answers = (\<lambda>(fid, ty, data). [1, -2, 2, -3, 3, -4, 4, 5] @ replicate (length data) 6 @ [0])"

lemma accept_wire_of:
  assumes "rx_ready tf" and "frame_ok (fid, ty, data)"
  shows "\<exists>u. accept_results tf (wire_of (fid, ty, data)) = Some (u, answers (fid, ty, data))
    \<and> rx_ready u \<and> received u fid ty data"
proof -
  have len: "unat (of_nat (length data) :: u16) = length data" "(of_nat (length data) :: u16) \<noteq> 0"
    using assms(2)
    by (simp_all add: frame_ok_def TF_MAX_PAYLOAD_RX_def unat_of_nat take_bit_eq_mod word_unat_eq_iff)
  show ?thesis
    using accept_frame [OF assms(1) len(1), of fid ty
        "cksum_of (head_fields fid (of_nat (length data)) ty)" "cksum_of data"] assms(2) len(2)
    by (simp add: wire_of_def answers_def frame_ok_def frame_bytes_def head_bytes_def tail_bytes_def)
qed

text \<open>
  What a client collects that reads the ID, the type and the payload after every answer 0, as
  \<open>tinyFramefRx\<close> does.
\<close>

fun frames_received :: "TinyFrame \<Rightarrow> u8 list \<Rightarrow> (TinyFrame \<times> sent_frame list) option" where
  "frames_received tf [] = Some (tf, [])"
| "frames_received tf (c # cs) =
     Option.bind (TF_AcceptChar tf c) (\<lambda>(tf, r).
       map_option (\<lambda>(u, fs). (u, if r = 0 then (rx_id tf, rx_type tf, take (unat (rx_len tf)) (rx_data tf)) # fs else fs))
         (frames_received tf cs))"

lemma frames_received_appendI:
  assumes "frames_received tf xs = Some (t, fs)" and "frames_received t ys = Some (u, gs)"
  shows "frames_received tf (xs @ ys) = Some (u, fs @ gs)"
  using assms
proof (induction xs arbitrary: tf fs)
  case (Cons c cs)
  then show ?case by (auto split: Option.bind_splits prod.splits if_splits)
qed simp

lemma frames_received_none:
  "accept_results tf xs = Some (u, rs) \<Longrightarrow> 0 \<notin> set rs \<Longrightarrow> frames_received tf xs = Some (u, [])"
  by (induction xs arbitrary: tf rs) (auto split: Option.bind_splits)

lemma frames_received_one:
  assumes "accept_results tf xs = Some (u, rs @ [0])" and "0 \<notin> set rs" and "received u fid ty data"
  shows "frames_received tf xs = Some (u, [(fid, ty, data)])"
  using assms(1,2)
proof (induction xs arbitrary: tf rs)
  case (Cons c cs)
  from Cons.prems(1) obtain t r where st: "TF_AcceptChar tf c = Some (t, r)"
    and rest: "map_option (\<lambda>(u, rs). (u, r # rs)) (accept_results t cs) = Some (u, rs @ [0])"
    by (auto split: Option.bind_splits)
  from rest obtain ss where ss: "accept_results t cs = Some (u, ss)" "r # ss = rs @ [0]" by auto
  show ?case
  proof (cases rs)
    case Nil
    then have "r = 0" "ss = []" using ss(2) by simp_all
    moreover from this ss(1) have "cs = []" by (cases cs) (auto split: Option.bind_splits)
    ultimately show ?thesis using st ss(1) assms(3) by (simp add: received_def)
  next
    case (Cons r' rs')
    then have "frames_received t cs = Some (u, [(fid, ty, data)])" "r \<noteq> 0"
      using Cons.IH [of t rs'] ss Cons.prems(2) by simp_all
    then show ?thesis using st by simp
  qed
qed simp

lemma accept_noisy_frame:
  assumes "rx_ready tf" and "TF_SOF_BYTE \<notin> set noise" and "frame_ok f"
  shows "\<exists>u. accept_results tf (noise @ wire_of f) = Some (u, replicate (length noise) (-1) @ answers f)
    \<and> rx_ready u \<and> frames_received tf (noise @ wire_of f) = Some (u, [f])"
proof -
  obtain fid ty data where f: "f = (fid, ty, data)" by (cases f)
  from accept_noise [OF assms(1,2)] obtain t
    where t: "accept_results tf noise = Some (t, replicate (length noise) (-1))" "rx_ready t" by auto
  from accept_wire_of [OF t(2), of fid ty data] assms(3) obtain u
    where u: "accept_results t (wire_of f) = Some (u, answers f)" "rx_ready u" "received u fid ty data" by (auto simp: f)
  have "answers f = ([1, -2, 2, -3, 3, -4, 4, 5] @ replicate (length data) 6) @ [0]" by (simp add: answers_def f)
  then have "frames_received t (wire_of f) = Some (u, [f])"
    using frames_received_one [OF u(1) [unfolded \<open>answers f = _\<close>] _ u(3)] by (simp add: f)
  moreover have "frames_received tf noise = Some (t, [])" by (rule frames_received_none [OF t(1)]) simp
  ultimately show ?thesis
    using accept_results_appendI [OF t(1) u(1)] frames_received_appendI [of tf noise t "[]" "wire_of f"] u(2) by simp
qed

lemma accept_stream:
  assumes "rx_ready tf" and "\<forall>f \<in> set fs. frame_ok f"
  shows "\<exists>u. accept_results tf (concat (map wire_of fs)) = Some (u, concat (map answers fs))
    \<and> rx_ready u"
  using assms
proof (induction fs arbitrary: tf)
  case Nil
  then show ?case by simp
next
  case (Cons f fs)
  obtain fid ty data where f: "f = (fid, ty, data)" by (cases f)
  from accept_wire_of [OF Cons.prems(1), of fid ty data] Cons.prems(2) obtain t
    where t: "accept_results tf (wire_of f) = Some (t, answers f)" "rx_ready t" by (auto simp: f)
  with Cons.IH [of t] Cons.prems(2) obtain u
    where "accept_results t (concat (map wire_of fs)) = Some (u, concat (map answers fs))" "rx_ready u"
    by auto
  with t accept_results_appendI show ?case by fastforce
qed

end
