(* ===== verification/TF_Instances.thy ===== *)
theory TF_Instances
  imports TF_Receive
begin

text \<open>
  The two static instances of tinyframe/TinyFrame.c with the receive buffer and the wrappers
  \<open>tinyFrameInit\<close>, \<open>tinyFramefRx\<close>, \<open>tinyFramefTx\<close> (the client of tinyframe/main.c). A \<open>float\<close> is its
  32 bits. The counter of the receive loop is 8 bits wide, but the buffer has 128 bytes: the read
  leaves the buffer, which is \<open>None\<close>, before the counter could wrap.
\<close>

section \<open>The globals\<close>

definition TF_RX_BUF_SIZE :: nat where "TF_RX_BUF_SIZE = 128"

record TinyFrameRx =
  receiveType :: u16
  revuint32Data :: u32
  revfloatData :: u32

record tf_globals =
  ft_rx :: TinyFrame
  ft_tx :: TinyFrame
  g_TfRxBuff :: "u8 list"
  g_TfWriteCount :: u32
  g_TfReadCount :: u32

definition initial_globals :: tf_globals where
  "initial_globals =
    \<lparr>ft_rx = TF_zero [], ft_tx = TF_zero [],
     g_TfRxBuff = [0x01, 0x0, 0x0, 0x0, 0x04, 0xFF, 0xFF, 0xFA, 0x01, 0x01, 0x0, 0x0, 0xFF]
       @ replicate (TF_RX_BUF_SIZE - 13) 0,
     g_TfWriteCount = 14, g_TfReadCount = 0\<rparr>"

section \<open>The wrappers\<close>

definition tinyFrameInit :: "tf_globals \<Rightarrow> tf_globals" where
  "tinyFrameInit g =
    g\<lparr>g_TfWriteCount := 0, g_TfReadCount := 0, g_TfRxBuff := replicate (length (g_TfRxBuff g)) 0\<rparr>"

text \<open>Four payload bytes as a number, the lowest one first.\<close>

definition tempdata :: "u8 list \<Rightarrow> u32 option" where
  "tempdata d = do {
     a \<leftarrow> load d 0; b \<leftarrow> load d 1; c \<leftarrow> load d 2; e \<leftarrow> load d 3;
     Some (ucast a + ucast b * 256 + ucast c * 256 * 256 + ucast e * 256 * 256 * 256)
   }"

definition decode_rx :: "TinyFrame \<Rightarrow> TinyFrameRx \<Rightarrow> TinyFrameRx option" where
  "decode_rx rx rv = do {
     rv \<leftarrow> (if rx_type rx \<in> {0x0100, 0x0103, 0x0104, 0x0105, 0x0106, 0x0107, 0x0108}
            then map_option (\<lambda>v. rv\<lparr>revfloatData := v\<rparr>) (tempdata (rx_data rx))
            else if rx_type rx \<in> {0x0101, 0x0102}
            then map_option (\<lambda>v. rv\<lparr>revuint32Data := v\<rparr>) (tempdata (rx_data rx))
            else Some rv);
     Some (rv\<lparr>receiveType := rx_type rx\<rparr>)
   }"

function rx_loop :: "TinyFrame \<Rightarrow> u8 list \<Rightarrow> u32 \<Rightarrow> nat \<Rightarrow> TinyFrameRx \<Rightarrow> (TinyFrame \<times> TinyFrameRx) option" where
  "rx_loop rx buff wc i rv =
    (if i < unat wc \<and> i < length buff
     then (case TF_AcceptChar rx (buff ! i) of
             None \<Rightarrow> None
           | Some (rx, ret) \<Rightarrow>
               if ret = 0 then map_option (\<lambda>rv. (rx, rv)) (decode_rx rx rv)
               else rx_loop rx buff wc (Suc i) rv)
     else if i < unat wc then None
     else Some (rx, rv))"
  by pat_completeness auto
termination by (relation "measure (\<lambda>(rx, buff, wc, i, rv). length buff - i)") auto

declare rx_loop.simps [simp del]

text \<open>The argument \<open>rv\<close> is the indeterminate automatic variable \<open>revData\<close>.\<close>

definition tinyFramefRx :: "tf_globals \<Rightarrow> TinyFrameRx \<Rightarrow> (tf_globals \<times> TinyFrameRx) option" where
  "tinyFramefRx g rv =
    map_option (\<lambda>(rx, rv). (g\<lparr>ft_rx := rx\<rparr>, rv))
      (rx_loop (ft_rx g) (g_TfRxBuff g) (g_TfWriteCount g) 0 rv)"

definition tinyFramefTx :: "tf_globals \<Rightarrow> u16 \<Rightarrow> u8 list option \<Rightarrow> u16 \<Rightarrow> tf_globals option" where
  "tinyFramefTx g ty data len =
    map_option (\<lambda>(tx, _). g\<lparr>ft_tx := tx\<rparr>) (TF_SendSimple (ft_tx g) ty data len)"

section \<open>Receiving one frame\<close>

lemma accept_results_length: "accept_results tf bs = Some (u, rs) \<Longrightarrow> length rs = length bs"
  by (induction bs arbitrary: tf rs) (auto simp: bind_eq_Some_conv)

lemma rx_loop_zero:
  assumes "accept_results rx bs = Some (u, rs @ [0])" and "0 \<notin> set rs"
    and "take (length bs) (drop i buff) = bs" and "i + length bs \<le> unat wc"
    and "i + length bs \<le> length buff"
  shows "rx_loop rx buff wc i rv = map_option (\<lambda>rv. (u, rv)) (decode_rx u rv)"
  using assms
proof (induction bs arbitrary: rx rs i)
  case Nil
  then show ?case by simp
next
  case (Cons b bs)
  have i: "i < unat wc" "i < length buff" using Cons.prems(4,5) by simp_all
  then have b: "buff ! i = b" "take (length bs) (drop (Suc i) buff) = bs"
    using Cons.prems(3) by (simp_all add: Cons_nth_drop_Suc [symmetric])
  from Cons.prems(1) obtain t r where t: "TF_AcceptChar rx b = Some (t, r)"
    and rest: "map_option (\<lambda>(u, rs). (u, r # rs)) (accept_results t bs) = Some (u, rs @ [0])"
    by (auto simp: bind_eq_Some_conv)
  from rest obtain ss where ss: "accept_results t bs = Some (u, ss)" "r # ss = rs @ [0]"
    by auto
  note unfold = rx_loop.simps [of rx buff wc i rv]
  show ?case
  proof (cases rs)
    case Nil
    with ss have "r = 0" "ss = []" by simp_all
    moreover from this accept_results_length [OF ss(1)] have "bs = []" by simp
    moreover from this ss(1) have "t = u" by simp
    ultimately show ?thesis using i b t by (simp add: unfold)
  next
    case (Cons r' rs')
    with ss(2) Cons.prems(2) have r: "r \<noteq> 0" "accept_results t bs = Some (u, rs' @ [0])" "0 \<notin> set rs'"
      using ss(1) by auto
    from Cons.IH [OF r(2,3) b(2)] Cons.prems(4,5) show ?thesis
      using i b t r by (simp add: unfold)
  qed
qed

text \<open>The bytes as a little-endian number; with four of them nothing wraps around.\<close>

lemma tempdata_le:
  "\<exists>v. tempdata (a # b # c # e # r) = Some v
    \<and> unat v = unat a + unat b * 256 + unat c * 65536 + unat e * 16777216"
proof -
  have u: "unat (ucast x :: u32) = unat x" for x :: u8
    by (rule unat_ucast_small) (rule order_less_le_trans [OF unsigned_less], simp)
  have "unat a + unat b * 256 + unat c * 65536 + unat e * 16777216 < 4294967296"
    using unat_u8_less [of a] unat_u8_less [of b] unat_u8_less [of c] unat_u8_less [of e] by linarith
  then show ?thesis
    by (simp add: tempdata_def load_def unat_word_ariths take_bit_eq_mod u mod_simps)
qed

lemma tempdata_defined: "4 \<le> length d \<Longrightarrow> \<exists>v. tempdata d = Some v"
  by (cases d) (auto simp: tempdata_def load_def)

lemma decode_rx_type:
  "tempdata (rx_data u) = Some v \<Longrightarrow> \<exists>rv'. decode_rx u rv = Some rv' \<and> receiveType rv' = rx_type u"
  by (simp add: decode_rx_def del: insert_iff split: if_split)

lemma tinyFramefRx_frame:
  assumes ready: "rx_ready (ft_rx g)" and ok: "frame_ok (fid, ty, data)"
    and buff: "take (length (wire_of (fid, ty, data))) (g_TfRxBuff g) = wire_of (fid, ty, data)"
    and count: "length (wire_of (fid, ty, data)) \<le> unat (g_TfWriteCount g)"
  shows "\<exists>g' rv'. tinyFramefRx g rv = Some (g', rv') \<and> receiveType rv' = ty
    \<and> rx_ready (ft_rx g') \<and> received (ft_rx g') fid ty data"
proof -
  from accept_wire_of [OF ready ok] obtain u
    where u: "accept_results (ft_rx g) (wire_of (fid, ty, data)) = Some (u, answers (fid, ty, data))"
      and fin: "rx_ready u" "received u fid ty data" by blast
  have "length (wire_of (fid, ty, data)) \<le> length (g_TfRxBuff g)"
    using arg_cong [OF buff, of length] by simp
  with rx_loop_zero [of "ft_rx g" "wire_of (fid, ty, data)" u
      "[1, -2, 2, -3, 3, -4, 4, 5] @ replicate (length data) 6" 0 "g_TfRxBuff g" "g_TfWriteCount g" rv]
    u buff count
  have loop: "rx_loop (ft_rx g) (g_TfRxBuff g) (g_TfWriteCount g) 0 rv =
      map_option (\<lambda>rv. (u, rv)) (decode_rx u rv)"
    by (simp add: answers_def)
  have "4 \<le> length (rx_data u)" using fin(1) by (simp add: rx_ready_def TF_MAX_PAYLOAD_RX_def)
  then obtain v where "tempdata (rx_data u) = Some v"
    using tempdata_defined by blast
  from decode_rx_type [OF this] obtain rv'
    where "decode_rx u rv = Some rv'" "receiveType rv' = rx_type u" by blast
  with loop fin show ?thesis
    by (auto simp: tinyFramefRx_def received_def)
qed

end
