(* ===== verification/TF_Events.thy ===== *)
theory TF_Events
  imports TF_Receive
begin

text \<open>
  One instance of tinyframe/TinyFrame.c under any interleaving of its operations: received bytes,
  ticks, listener operations, whole and multipart transmissions, in any order, the calls that the
  API documentation forbids included. The step relation is \<open>tf_run\<close> over the operations of the
  other theories; the invariant \<open>tf_inv\<close> makes every access of the C arrays in bounds.
\<close>

section \<open>Events\<close>

datatype tf_event =
    Ev_Byte u8
  | Ev_Tick
  | Ev_AddId TF_Msg TF_Listener u16
  | Ev_RemoveId u16
  | Ev_RenewId u16
  | Ev_AddType u16 TF_Listener
  | Ev_RemoveType u16
  | Ev_AddGeneric TF_Listener
  | Ev_RemoveGeneric TF_Listener
  | Ev_Send TF_Msg "TF_Listener option" u16
  | Ev_Payload "u8 list" u32
  | Ev_Close

fun tf_event_step :: "tf_env \<Rightarrow> tf_event \<Rightarrow> TinyFrame \<Rightarrow> TinyFrame option" where
  "tf_event_step E (Ev_Byte c) tf = map_option fst (TF_AcceptChar tf c)"
| "tf_event_step E Ev_Tick tf = TF_Tick E tf"
| "tf_event_step E (Ev_AddId msg f timeout) tf = map_option fst (TF_AddIdListener tf msg (Some f) timeout)"
| "tf_event_step E (Ev_RemoveId fid) tf = map_option fst (TF_RemoveIdListener E tf fid)"
| "tf_event_step E (Ev_RenewId fid) tf = map_option fst (TF_RenewIdListener tf fid)"
| "tf_event_step E (Ev_AddType ty f) tf = map_option fst (TF_AddTypeListener tf ty (Some f))"
| "tf_event_step E (Ev_RemoveType ty) tf = map_option fst (TF_RemoveTypeListener tf ty)"
| "tf_event_step E (Ev_AddGeneric f) tf = map_option fst (TF_AddGenericListener tf (Some f))"
| "tf_event_step E (Ev_RemoveGeneric f) tf = map_option fst (TF_RemoveGenericListener tf (Some f))"
| "tf_event_step E (Ev_Send msg listener timeout) tf = map_option fst (TF_SendFrame tf msg listener timeout)"
| "tf_event_step E (Ev_Payload buff len) tf = TF_Multipart_Payload tf buff len"
| "tf_event_step E Ev_Close tf = TF_Multipart_Close tf"

text \<open>What the caller owes: a buffer that is as long as the length passed with it.\<close>

fun event_ok :: "tf_event \<Rightarrow> bool" where
  "event_ok (Ev_Send msg _ _) \<longleftrightarrow>
     (case msg_data msg of None \<Rightarrow> True | Some d \<Rightarrow> unat (msg_len msg) \<le> length d)"
| "event_ok (Ev_Payload buff len) \<longleftrightarrow> unat len \<le> length buff"
| "event_ok _ \<longleftrightarrow> True"

inductive tf_run :: "tf_env \<Rightarrow> TinyFrame \<Rightarrow> TinyFrame \<Rightarrow> bool" for E where
  tf_run_refl: "tf_run E tf tf"
| tf_run_step: "tf_run E tf t \<Longrightarrow> event_ok ev \<Longrightarrow> tf_event_step E ev t = Some u \<Longrightarrow> tf_run E tf u"

inductive_cases tf_run_cases: "tf_run E tf t"

section \<open>The invariant\<close>

definition type_table_inv :: "TinyFrame \<Rightarrow> bool" where
  "type_table_inv tf \<longleftrightarrow> length (type_listeners tf) = TF_MAX_TYPE_LST \<and> count_type_lst tf \<le> TF_MAX_TYPE_LST
    \<and> (\<forall>i. count_type_lst tf \<le> i \<longrightarrow> i < TF_MAX_TYPE_LST \<longrightarrow> \<not> type_live (type_listeners tf ! i))"

definition gen_table_inv :: "TinyFrame \<Rightarrow> bool" where
  "gen_table_inv tf \<longleftrightarrow> length (generic_listeners tf) = TF_MAX_GEN_LST \<and> count_generic_lst tf \<le> TF_MAX_GEN_LST
    \<and> (\<forall>i. count_generic_lst tf \<le> i \<longrightarrow> i < TF_MAX_GEN_LST \<longrightarrow> \<not> gen_live (generic_listeners tf ! i))"

definition tf_inv :: "TinyFrame \<Rightarrow> bool" where
  "tf_inv tf \<longleftrightarrow> rx_inv tf \<and> tx_inv tf \<and> id_table_inv tf \<and> type_table_inv tf \<and> gen_table_inv tf"

text \<open>A callback may use the instance, but keeps the invariant and the ID table.\<close>

definition callbacks_ok :: "tf_env \<Rightarrow> bool" where
  "callbacks_ok E \<longleftrightarrow> keeps_id_listeners E
    \<and> (\<forall>f tf m. tf_inv tf \<longrightarrow> tf_inv (snd (snd (env_call E f tf m))))"

lemma type_table_inv_eq: "type_table_inv = type_tab.table_inv"
  by (simp add: fun_eq_iff type_table_inv_def type_tab.table_inv_def)

lemma gen_table_inv_eq: "gen_table_inv = gen_tab.table_inv"
  by (simp add: fun_eq_iff gen_table_inv_def gen_tab.table_inv_def)

lemma tf_inv_zero: "tf_inv (TF_zero out)"
  by (simp add: tf_inv_def rx_inv_zero id_table_inv_zero)
    (simp add: TF_zero_def tx_inv_def type_table_inv_def gen_table_inv_def type_live_def gen_live_def)

text \<open>Each part of the invariant reads its own fields.\<close>

definition same_rx :: "TinyFrame \<Rightarrow> TinyFrame \<Rightarrow> bool" where
  "same_rx tf tf' \<longleftrightarrow> rx_data tf' = rx_data tf \<and> state tf' = state tf \<and> rxi tf' = rxi tf
    \<and> rx_len tf' = rx_len tf \<and> discard_data tf' = discard_data tf"

definition same_tx :: "TinyFrame \<Rightarrow> TinyFrame \<Rightarrow> bool" where
  "same_tx tf tf' \<longleftrightarrow> sendbuf tf' = sendbuf tf \<and> tx_pos tf' = tx_pos tf"

definition same_ids :: "TinyFrame \<Rightarrow> TinyFrame \<Rightarrow> bool" where
  "same_ids tf tf' \<longleftrightarrow> id_listeners tf' = id_listeners tf \<and> count_id_lst tf' = count_id_lst tf"

definition same_types :: "TinyFrame \<Rightarrow> TinyFrame \<Rightarrow> bool" where
  "same_types tf tf' \<longleftrightarrow> type_listeners tf' = type_listeners tf \<and> count_type_lst tf' = count_type_lst tf"

definition same_gens :: "TinyFrame \<Rightarrow> TinyFrame \<Rightarrow> bool" where
  "same_gens tf tf' \<longleftrightarrow> generic_listeners tf' = generic_listeners tf
    \<and> count_generic_lst tf' = count_generic_lst tf"

lemmas same_defs = same_rx_def same_tx_def same_ids_def same_types_def same_gens_def

lemma inv_same:
  "rx_inv tf \<Longrightarrow> same_rx tf u \<Longrightarrow> rx_inv u"
  "tx_inv tf \<Longrightarrow> same_tx tf u \<Longrightarrow> tx_inv u"
  "id_table_inv tf \<Longrightarrow> same_ids tf u \<Longrightarrow> id_table_inv u"
  "type_table_inv tf \<Longrightarrow> same_types tf u \<Longrightarrow> type_table_inv u"
  "gen_table_inv tf \<Longrightarrow> same_gens tf u \<Longrightarrow> gen_table_inv u"
  by (simp_all add: rx_inv_def tx_inv_def id_table_inv_def type_table_inv_def gen_table_inv_def same_defs
      cong: TF_State.case_cong)

section \<open>Every operation keeps it\<close>

text \<open>Received bytes touch the receive side only.\<close>

lemma TF_AcceptChar_same:
  assumes "TF_AcceptChar tf c = Some (u, r)"
  shows "same_tx tf u" "same_ids tf u" "same_types tf u" "same_gens tf u"
proof -
  have "same_tx tf u \<and> same_ids tf u \<and> same_types tf u \<and> same_gens tf u"
    using assms
    by (cases "state (parser_timeout_clear tf)")
      (auto simp: TF_AcceptChar_def parser_defs parser_timeout_clear_def same_defs Let_def store_def
        split: if_splits)
  then show "same_tx tf u" "same_ids tf u" "same_types tf u" "same_gens tf u" by auto
qed

lemma byte_inv: "tf_inv tf \<Longrightarrow> \<exists>u r. TF_AcceptChar tf c = Some (u, r) \<and> tf_inv u"
  using TF_AcceptChar_inv [of tf c] TF_AcceptChar_same [of tf c] inv_same
  unfolding tf_inv_def by blast

text \<open>Listener operations touch one table each.\<close>

lemma id_update_inv:
  assumes "tf_inv tf" and "\<exists>ls n. u = tf\<lparr>id_listeners := ls, count_id_lst := n\<rparr>" and "id_table_inv u"
  shows "tf_inv u"
proof -
  have "same_rx tf u" "same_tx tf u" "same_types tf u" "same_gens tf u"
    using assms(2) by (auto simp: same_defs)
  then show ?thesis using assms(1,3) inv_same [of tf u] by (simp add: tf_inv_def)
qed

lemma id_list_inv:
  "tf_inv tf \<Longrightarrow> id_table_inv (tf\<lparr>id_listeners := ls\<rparr>) \<Longrightarrow> tf_inv (tf\<lparr>id_listeners := ls\<rparr>)"
  by (rule id_update_inv [of tf]) (auto intro!: exI [of _ ls] exI [of _ "count_id_lst tf"])

lemma add_id_inv:
  assumes "tf_inv tf"
  shows "\<exists>u b. TF_AddIdListener tf msg (Some f) timeout = Some (u, b) \<and> tf_inv u"
proof -
  have "id_table_inv tf" using assms by (simp add: tf_inv_def)
  from TF_AddIdListener_spec [OF this, of msg f timeout] obtain u b
    where u: "TF_AddIdListener tf msg (Some f) timeout = Some (u, b)" "id_table_inv u" by blast
  from TF_AddIdListener_frame [OF u(1)] id_update_inv [OF assms] u show ?thesis by blast
qed

lemma renew_id_inv:
  assumes inv: "tf_inv tf"
  shows "\<exists>u b. TF_RenewIdListener tf fid = Some (u, b) \<and> tf_inv u"
proof -
  let ?P = "\<lambda>lst. il_fn lst \<noteq> None \<and> il_id lst = fid"
  have id: "id_table_inv tf" using inv by (simp add: tf_inv_def)
  then have len: "count_id_lst tf \<le> length (id_listeners tf)" by (simp add: id_table_inv_def)
  obtain r where r: "scan ?P (id_listeners tf) (count_id_lst tf) = Some r"
    using scan_defined [OF len] by blast
  show ?thesis
  proof (cases r)
    case None
    then show ?thesis using r inv by (auto simp: TF_RenewIdListener_def)
  next
    case (Some i)
    let ?u = "tf\<lparr>id_listeners := (id_listeners tf)[i := renew_id_listener (id_listeners tf ! i)]\<rparr>"
    have "id_table_inv ?u"
      using id scan_Found(1) [OF r [unfolded Some] len]
      by (auto simp: id_table_inv_def id_live_def renew_id_listener_def nth_list_update)
    then have "tf_inv ?u"
      by (rule id_list_inv [OF inv])
    then show ?thesis using r Some by (auto simp: TF_RenewIdListener_def)
  qed
qed

lemma cleanup_id_inv:
  assumes inv: "tf_inv tf" and E: "callbacks_ok E" and i: "i < count_id_lst tf" "id_live (id_listeners tf ! i)"
  shows "tf_inv (cleanup_id_listener E tf i)"
proof -
  have id: "id_table_inv (cleanup_id_listener E tf i)"
    using id_tab.discard_inv [of tf i E] i inv E
    by (simp add: id_table_inv_eq tf_inv_def callbacks_ok_def)
  let ?l = "id_listeners tf ! i"
  let ?msg = "(env_msg E)\<lparr>msg_userdata := il_userdata ?l, msg_userdata2 := il_userdata2 ?l, msg_data := None\<rparr>"
  obtain f where f: "il_fn ?l = Some f" using i(2) by (auto simp: id_live_def)
  let ?mid = "if il_userdata ?l \<noteq> None \<or> il_userdata2 ?l \<noteq> None
    then snd (snd (env_call E f tf ?msg)) else tf"
  have mid: "tf_inv ?mid" using inv E by (auto simp: callbacks_ok_def)
  have "\<exists>ls n. cleanup_id_listener E tf i = ?mid\<lparr>id_listeners := ls, count_id_lst := n\<rparr>"
    by (cases ?mid) (simp add: cleanup_id_listener_def f Let_def)
  with id_update_inv [OF mid] id show ?thesis by blast
qed

lemma remove_id_inv:
  assumes inv: "tf_inv tf" and E: "callbacks_ok E"
  shows "\<exists>u b. TF_RemoveIdListener E tf fid = Some (u, b) \<and> tf_inv u"
proof -
  let ?P = "\<lambda>lst. id_live lst \<and> il_id lst = fid"
  have len: "count_id_lst tf \<le> length (id_listeners tf)"
    using inv by (simp add: tf_inv_def id_table_inv_def)
  obtain r where r: "scan ?P (id_listeners tf) (count_id_lst tf) = Some r"
    using scan_defined [OF len] by blast
  show ?thesis
  proof (cases r)
    case None
    then show ?thesis using r inv by (auto simp: TF_RemoveIdListener_live)
  next
    case (Some i)
    from scan_Found(1,2) [OF r [unfolded Some] len] cleanup_id_inv [OF inv E, of i] r Some
    show ?thesis by (auto simp: TF_RemoveIdListener_live)
  qed
qed

lemma tick_loop_inv:
  assumes "callbacks_ok E"
  shows "tf_inv tf \<Longrightarrow> \<exists>u. tick_loop E tf i = Some u \<and> tf_inv u"
proof (induction "TF_MAX_ID_LST - i" arbitrary: tf i rule: less_induct)
  case less
  note unfold = tick_loop.simps [of E tf i]
  show ?case
  proof (cases "i < count_id_lst tf")
    case False
    then show ?thesis using less.prems by (simp add: unfold)
  next
    case True
    let ?l = "id_listeners tf ! i"
    have id: "id_table_inv tf" using less.prems by (simp add: tf_inv_def)
    then have i: "i < TF_MAX_ID_LST" "i < length (id_listeners tf)"
      using True by (simp_all add: id_table_inv_def)
    then have IH: "tf_inv t \<Longrightarrow> \<exists>u. tick_loop E t (Suc i) = Some u \<and> tf_inv u" for t
      using less.hyps [of "Suc i" t] by simp
    define t where "t = tf\<lparr>id_listeners := (id_listeners tf)[i := ?l\<lparr>il_timeout := il_timeout ?l - 1\<rparr>]\<rparr>"
    have "id_table_inv t"
      using id i by (auto simp: t_def id_table_inv_def nth_list_update id_live_def)
    then have t: "tf_inv t" unfolding t_def by (rule id_list_inv [OF less.prems])
    consider "il_fn ?l = None \<or> il_timeout ?l = 0"
      | "il_fn ?l \<noteq> None" "il_timeout ?l \<noteq> 0" "il_timeout ?l - 1 \<noteq> 0"
      | "il_fn ?l \<noteq> None" "il_timeout ?l \<noteq> 0" "il_timeout ?l - 1 = 0" by blast
    then show ?thesis
    proof cases
      case 1
      then have "tick_loop E tf i = tick_loop E tf (Suc i)"
        using True i by (simp add: unfold load_Some)
      then show ?thesis using IH [OF less.prems] by simp
    next
      case 2
      then have "tick_loop E tf i = tick_loop E t (Suc i)"
        using True i by (auto simp: unfold load_Some Let_def t_def)
      then show ?thesis using IH [OF t] by simp
    next
      case 3
      have "tf_inv (cleanup_id_listener E t i)"
        using cleanup_id_inv [OF t assms, of i] 3(1) True i by (simp add: id_live_def t_def)
      moreover have "tick_loop E tf i = tick_loop E (cleanup_id_listener E t i) (Suc i)"
        using 3 True i by (auto simp: unfold load_Some Let_def t_def)
      ultimately show ?thesis using IH by simp
    qed
  qed
qed

lemma tick_inv:
  assumes "tf_inv tf" and "callbacks_ok E"
  shows "\<exists>u. TF_Tick E tf = Some u \<and> tf_inv u"
proof -
  let ?t = "if parser_timeout_ticks tf < TF_PARSER_TIMEOUT_TICKS
    then tf\<lparr>parser_timeout_ticks := parser_timeout_ticks tf + 1\<rparr> else tf"
  have "tf_inv ?t"
    using assms(1) inv_same [of tf ?t] by (simp add: tf_inv_def same_defs)
  from tick_loop_inv [OF assms(2) this] show ?thesis by (simp add: TF_Tick_def)
qed

lemma add_type_inv:
  assumes "tf_inv tf"
  shows "\<exists>u b. TF_AddTypeListener tf ty (Some f) = Some (u, b) \<and> tf_inv u"
proof -
  have tab: "type_tab.table_inv tf" using assms by (simp add: tf_inv_def type_table_inv_eq)
  obtain u b where add: "TF_AddTypeListener tf ty (Some f) = Some (u, b)"
    by (rule type_tab.insert_cases [OF tab, of "(ty, f)"]) auto
  have "type_table_inv u"
    using type_tab.insert_inv [OF tab, of "(ty, f)" u b] add by (simp add: type_table_inv_eq)
  moreover have "same_rx tf u" "same_tx tf u" "same_ids tf u" "same_gens tf u"
    using add by (auto simp: TF_AddTypeListener_def same_defs Let_def split: option.splits if_splits)
  ultimately show ?thesis using add assms inv_same [of tf u] by (simp add: tf_inv_def)
qed

lemma add_generic_inv:
  assumes "tf_inv tf"
  shows "\<exists>u b. TF_AddGenericListener tf (Some f) = Some (u, b) \<and> tf_inv u"
proof -
  have tab: "gen_tab.table_inv tf" using assms by (simp add: tf_inv_def gen_table_inv_eq)
  obtain u b where add: "TF_AddGenericListener tf (Some f) = Some (u, b)"
    by (rule gen_tab.insert_cases [OF tab, of f]) auto
  have "gen_table_inv u"
    using gen_tab.insert_inv [OF tab, of f u b] add by (simp add: gen_table_inv_eq)
  moreover have "same_rx tf u" "same_tx tf u" "same_ids tf u" "same_types tf u"
    using add by (auto simp: TF_AddGenericListener_def same_defs Let_def split: option.splits if_splits)
  ultimately show ?thesis using add assms inv_same [of tf u] by (simp add: tf_inv_def)
qed

lemma remove_type_inv:
  assumes inv: "tf_inv tf"
  shows "\<exists>u b. TF_RemoveTypeListener tf ty = Some (u, b) \<and> tf_inv u"
proof -
  let ?P = "\<lambda>lst. tl_fn lst \<noteq> None \<and> tl_type lst = ty"
  have tab: "type_tab.table_inv tf" using inv by (simp add: tf_inv_def type_table_inv_eq)
  then have len: "count_type_lst tf \<le> length (type_listeners tf)"
    by (simp add: type_tab.table_inv_def)
  obtain r where r: "scan ?P (type_listeners tf) (count_type_lst tf) = Some r"
    using scan_defined [OF len] by blast
  show ?thesis
  proof (cases r)
    case None
    then show ?thesis using r inv by (auto simp: TF_RemoveTypeListener_def)
  next
    case (Some i)
    let ?u = "cleanup_type_listener tf i"
    from scan_Found(1,2) [OF r [unfolded Some] len] type_tab.discard_inv [OF tab, of i]
    have "type_table_inv ?u" by (simp add: type_table_inv_eq type_live_def)
    moreover have "same_rx tf ?u" "same_tx tf ?u" "same_ids tf ?u" "same_gens tf ?u"
      by (simp_all add: cleanup_type_listener_def same_defs Let_def)
    ultimately have "tf_inv ?u" using inv inv_same [of tf ?u] by (simp add: tf_inv_def)
    then show ?thesis using r Some by (auto simp: TF_RemoveTypeListener_def)
  qed
qed

lemma remove_generic_inv:
  assumes inv: "tf_inv tf"
  shows "\<exists>u b. TF_RemoveGenericListener tf (Some f) = Some (u, b) \<and> tf_inv u"
proof -
  let ?P = "\<lambda>lst. gl_fn lst = Some f"
  have tab: "gen_tab.table_inv tf" using inv by (simp add: tf_inv_def gen_table_inv_eq)
  then have len: "count_generic_lst tf \<le> length (generic_listeners tf)"
    by (simp add: gen_tab.table_inv_def)
  obtain r where r: "scan ?P (generic_listeners tf) (count_generic_lst tf) = Some r"
    using scan_defined [OF len] by blast
  show ?thesis
  proof (cases r)
    case None
    then show ?thesis using r inv by (auto simp: TF_RemoveGenericListener_def)
  next
    case (Some i)
    let ?u = "cleanup_generic_listener tf i"
    from scan_Found(1,2) [OF r [unfolded Some] len] gen_tab.discard_inv [OF tab, of i]
    have "gen_table_inv ?u" by (simp add: gen_table_inv_eq gen_live_def)
    moreover have "same_rx tf ?u" "same_tx tf ?u" "same_ids tf ?u" "same_types tf ?u"
      by (simp_all add: cleanup_generic_listener_def same_defs Let_def)
    ultimately have "tf_inv ?u" using inv inv_same [of tf ?u] by (simp add: tf_inv_def)
    then show ?thesis using r Some by (auto simp: TF_RemoveGenericListener_def)
  qed
qed

text \<open>The transmit side.\<close>

lemma sends_inv: "tf_inv tf \<Longrightarrow> sends tf bs u \<Longrightarrow> tf_inv u"
proof -
  assume tf: "tf_inv tf" and s: "sends tf bs u"
  then have u: "u = tf\<lparr>sendbuf := sendbuf u, tx_pos := tx_pos u, tx_cksum := tx_cksum u, wire := wire u\<rparr>"
    and "tx_inv u" by (auto simp: sends_def same_but_tx_def)
  moreover have "same_rx tf u" "same_ids tf u" "same_types tf u" "same_gens tf u"
    by (subst u, simp add: same_defs)+
  ultimately show "tf_inv u" using tf inv_same [of tf u] by (simp add: tf_inv_def)
qed

lemma payload_inv:
  assumes "tf_inv tf" and "unat len \<le> length buff"
  shows "\<exists>u. TF_SendFrame_Chunk tf buff len = Some u \<and> tf_inv u"
  using TF_SendFrame_Chunk_sends [of tf len buff] assms sends_inv [of tf]
  by (auto simp: tf_inv_def)

lemma close_inv:
  assumes tf: "tf_inv tf"
  shows "\<exists>u. TF_SendFrame_End tf = Some u \<and> tf_inv u"
proof -
  have "tx_inv tf" using tf by (simp add: tf_inv_def)
  from TF_SendFrame_End_eq [OF this] obtain u where u: "TF_SendFrame_End tf = Some u" "tx_inv u"
    "same_but_tx (TF_ReleaseTx tf) u" by blast
  note eq = u(3) [unfolded same_but_tx_def TF_ReleaseTx_def]
  have "same_rx tf u" "same_ids tf u" "same_types tf u" "same_gens tf u"
    by (subst eq, simp add: same_defs)+
  with u tf inv_same [of tf u] show ?thesis by (simp add: tf_inv_def)
qed

lemma begin_inv:
  assumes tf: "tf_inv tf"
  shows "\<exists>t b. TF_SendFrame_Begin tf msg listener timeout =
      Some (t, if soft_lock tf then msg else msg\<lparr>frame_id := frame_id_of tf msg\<rparr>, b) \<and> tf_inv t"
proof (cases "soft_lock tf")
  case True
  with tf show ?thesis by (auto simp: TF_SendFrame_Begin_def TF_ClaimTx_def)
next
  case False
  let ?msg = "msg\<lparr>frame_id := frame_id_of tf msg\<rparr>"
  define t where "t = (if is_response msg then tf\<lparr>soft_lock := True\<rparr>
      else tf\<lparr>soft_lock := True, next_id := next_id tf + 1\<rparr>)
    \<lparr>sendbuf := head_bytes (frame_id_of tf msg) (msg_len msg) (msg_type msg) @ drop 8 (sendbuf tf),
     tx_pos := 8, tx_len := ucast (msg_len msg)\<rparr>"
  have len: "length (sendbuf tf) = 2048" using tf by (simp add: tf_inv_def tx_inv_def TF_SENDBUF_LEN_def)
  have "same_rx tf t" "same_ids tf t" "same_types tf t" "same_gens tf t"
    by (simp_all add: t_def same_defs)
  moreover have "tx_inv t" using len by (simp add: t_def tx_inv_def TF_SENDBUF_LEN_def)
  ultimately have t: "tf_inv t" using tf inv_same [of tf t] by (simp add: tf_inv_def)
  have beg: "TF_SendFrame_Begin tf msg listener timeout =
      do { (t, ok) \<leftarrow> (if listener \<noteq> None then TF_AddIdListener t ?msg listener timeout else Some (t, True));
           if \<not> ok then Some (t, ?msg, False) else Some (t\<lparr>tx_cksum := TF_CksumStart\<rparr>, ?msg, True) }"
    using False len
    by (simp add: TF_SendFrame_Begin_def TF_ClaimTx_def TF_ComposeHead_eq t_def Let_def)
  have cksum: "tf_inv u \<Longrightarrow> tf_inv (u\<lparr>tx_cksum := TF_CksumStart\<rparr>)" for u
    using inv_same [of u "u\<lparr>tx_cksum := TF_CksumStart\<rparr>"] by (simp add: tf_inv_def same_defs)
  show ?thesis
  proof (cases listener)
    case None
    then show ?thesis using beg cksum [OF t] False by auto
  next
    case (Some f)
    with add_id_inv [OF t, of ?msg f timeout] obtain u b
      where "TF_AddIdListener t ?msg (Some f) timeout = Some (u, b)" "tf_inv u" by blast
    then show ?thesis using beg cksum [of u] False Some by (cases b) auto
  qed
qed

lemma send_inv:
  assumes tf: "tf_inv tf" and ok: "event_ok (Ev_Send msg listener timeout)"
  shows "\<exists>u m b. TF_SendFrame tf msg listener timeout = Some (u, m, b) \<and> tf_inv u"
proof -
  obtain t m b where t: "TF_SendFrame_Begin tf msg listener timeout = Some (t, m, b)" "tf_inv t"
    and m: "msg_len m = msg_len msg" "msg_data m = msg_data msg"
    using begin_inv [OF tf, of msg listener timeout] by force
  show ?thesis
  proof (cases "b \<and> (msg_len m = 0 \<or> msg_data m \<noteq> None)")
    case False
    then show ?thesis using t by (auto simp: TF_SendFrame_def)
  next
    case True
    then have "unat (ucast (msg_len m) :: u32) \<le> length (payload (msg_data m))"
      using ok m by (auto simp: payload_def split: option.splits)
    from payload_inv [OF t(2) this] obtain u
      where u: "TF_SendFrame_Chunk t (payload (msg_data m)) (ucast (msg_len m)) = Some u" "tf_inv u"
      by blast
    from close_inv [OF u(2)] u(1) t(1) True show ?thesis by (auto simp: TF_SendFrame_def)
  qed
qed

section \<open>Any interleaving\<close>

lemma event_inv:
  assumes inv: "tf_inv tf" and E: "callbacks_ok E" and ok: "event_ok ev"
  shows "\<exists>u. tf_event_step E ev tf = Some u \<and> tf_inv u"
proof (cases ev)
  case (Ev_Byte c)
  with byte_inv [OF inv, of c] show ?thesis by auto
next
  case Ev_Tick
  with tick_inv [OF inv E] show ?thesis by simp
next
  case (Ev_AddId msg f timeout)
  with add_id_inv [OF inv, of msg f timeout] show ?thesis by auto
next
  case (Ev_RemoveId fid)
  with remove_id_inv [OF inv E, of fid] show ?thesis by auto
next
  case (Ev_RenewId fid)
  with renew_id_inv [OF inv, of fid] show ?thesis by auto
next
  case (Ev_AddType ty f)
  with add_type_inv [OF inv, of ty f] show ?thesis by auto
next
  case (Ev_RemoveType ty)
  with remove_type_inv [OF inv, of ty] show ?thesis by auto
next
  case (Ev_AddGeneric f)
  with add_generic_inv [OF inv, of f] show ?thesis by auto
next
  case (Ev_RemoveGeneric f)
  with remove_generic_inv [OF inv, of f] show ?thesis by auto
next
  case (Ev_Send msg listener timeout)
  with send_inv [OF inv, of msg listener timeout] ok show ?thesis by auto
next
  case (Ev_Payload buff len)
  with payload_inv [OF inv, of len buff] ok show ?thesis by (simp add: TF_Multipart_Payload_def)
next
  case Ev_Close
  with close_inv [OF inv] show ?thesis by (simp add: TF_Multipart_Close_def)
qed

lemma tf_run_inv: "tf_run E tf t \<Longrightarrow> callbacks_ok E \<Longrightarrow> tf_inv tf \<Longrightarrow> tf_inv t"
proof (induction rule: tf_run.induct)
  case (tf_run_step tf t ev u)
  with event_inv [of t E ev] show ?case by auto
qed

lemma tf_run_defined:
  "tf_run E tf t \<Longrightarrow> callbacks_ok E \<Longrightarrow> tf_inv tf \<Longrightarrow> event_ok ev \<Longrightarrow>
   \<exists>u. tf_event_step E ev t = Some u"
  using event_inv [of t E ev] tf_run_inv [of E tf t] by blast

end
