(* ===== verification/Payload.thy ===== *)
theory Payload
  imports Prelude "HOL-Library.Monad_Syntax"
begin

text \<open>
  The payload builder and parser of tf_demo/utilities. The pointers of the two structs are a
  buffer with offsets; the overrun and underrun callbacks are the argument \<open>H\<close> of every operation
  (\<open>None\<close> for the null pointer). Signed and floating-point values are their bits, as in the unions
  of type_coerce.h. The locale \<open>field_codec\<close> is what the two sides agree on per field type.
\<close>

section \<open>The builder\<close>

record PayloadBuilder =
  pb_mem :: "u8 list"
  pb_current :: nat
  pb_end :: nat
  pb_bigendian :: bool
  pb_ok :: bool

type_synonym pb_handler = "(PayloadBuilder \<Rightarrow> nat \<Rightarrow> PayloadBuilder \<times> bool) option"

definition pb_start_e :: "u8 list \<Rightarrow> nat \<Rightarrow> bool \<Rightarrow> PayloadBuilder" where
  "pb_start_e buf capacity bigendian =
    \<lparr>pb_mem = buf, pb_current = 0, pb_end = capacity, pb_bigendian = bigendian, pb_ok = True\<rparr>"

definition pb_check_capacity :: "pb_handler \<Rightarrow> PayloadBuilder \<Rightarrow> nat \<Rightarrow> PayloadBuilder" where
  "pb_check_capacity H pb needed =
    (if pb_current pb + needed > pb_end pb
     then (case H of
             None \<Rightarrow> pb\<lparr>pb_ok := False\<rparr>
           | Some h \<Rightarrow> (let (pb, r) = h pb needed in if r then pb else pb\<lparr>pb_ok := False\<rparr>))
     else pb)"

text \<open>\<open>*pb->current++ = b\<close>\<close>

definition pb_put :: "PayloadBuilder \<Rightarrow> u8 \<Rightarrow> PayloadBuilder option" where
  "pb_put pb b =
    map_option (\<lambda>m. pb\<lparr>pb_mem := m, pb_current := pb_current pb + 1\<rparr>)
      (store (pb_mem pb) (pb_current pb) b)"

definition pb_buf :: "pb_handler \<Rightarrow> PayloadBuilder \<Rightarrow> u8 list \<Rightarrow> u32 \<Rightarrow> (PayloadBuilder \<times> bool) option" where
  "pb_buf H pb buf len =
    (let pb = pb_check_capacity H pb (unat len)
     in if \<not> pb_ok pb then Some (pb, False)
        else do {
          bs \<leftarrow> load_list buf 0 (unat len);
          m \<leftarrow> store_list (pb_mem pb) (pb_current pb) bs;
          Some (pb\<lparr>pb_mem := m, pb_current := pb_current pb + unat len\<rparr>, True)
        })"

text \<open>A string argument is the memory it points to, read up to its zero byte.\<close>

definition pb_string :: "pb_handler \<Rightarrow> PayloadBuilder \<Rightarrow> u8 list \<Rightarrow> (PayloadBuilder \<times> bool) option" where
  "pb_string H pb str =
    (if 0 \<notin> set str then None
     else let len = of_nat (length (takeWhile (\<lambda>c. c \<noteq> 0) str)) :: u32;
              pb = pb_check_capacity H pb (unat (len + 1))
          in if \<not> pb_ok pb then Some (pb, False)
             else do {
               bs \<leftarrow> load_list str 0 (unat (len + 1));
               m \<leftarrow> store_list (pb_mem pb) (pb_current pb) bs;
               Some (pb\<lparr>pb_mem := m, pb_current := pb_current pb + unat (len + 1)\<rparr>, True)
             })"

definition pb_u8 :: "pb_handler \<Rightarrow> PayloadBuilder \<Rightarrow> u8 \<Rightarrow> (PayloadBuilder \<times> bool) option" where
  "pb_u8 H pb byte =
    (let pb = pb_check_capacity H pb 1
     in if \<not> pb_ok pb then Some (pb, False)
        else do { pb \<leftarrow> pb_put pb byte; Some (pb, True) })"

definition pb_bool :: "pb_handler \<Rightarrow> PayloadBuilder \<Rightarrow> bool \<Rightarrow> (PayloadBuilder \<times> bool) option" where
  "pb_bool H pb b = pb_u8 H pb (if b then 1 else 0)"

definition pb_u16 :: "pb_handler \<Rightarrow> PayloadBuilder \<Rightarrow> u16 \<Rightarrow> (PayloadBuilder \<times> bool) option" where
  "pb_u16 H pb word =
    (let pb = pb_check_capacity H pb 2
     in if \<not> pb_ok pb then Some (pb, False)
        else if pb_bigendian pb then do {
          pb \<leftarrow> pb_put pb (ucast (drop_bit 8 word AND 0xFF));
          pb \<leftarrow> pb_put pb (ucast (word AND 0xFF));
          Some (pb, True)
        } else do {
          pb \<leftarrow> pb_put pb (ucast (word AND 0xFF));
          pb \<leftarrow> pb_put pb (ucast (drop_bit 8 word AND 0xFF));
          Some (pb, True)
        })"

definition pb_u32 :: "pb_handler \<Rightarrow> PayloadBuilder \<Rightarrow> u32 \<Rightarrow> (PayloadBuilder \<times> bool) option" where
  "pb_u32 H pb word =
    (let pb = pb_check_capacity H pb 4
     in if \<not> pb_ok pb then Some (pb, False)
        else if pb_bigendian pb then do {
          pb \<leftarrow> pb_put pb (ucast (drop_bit 24 word AND 0xFF));
          pb \<leftarrow> pb_put pb (ucast (drop_bit 16 word AND 0xFF));
          pb \<leftarrow> pb_put pb (ucast (drop_bit 8 word AND 0xFF));
          pb \<leftarrow> pb_put pb (ucast (word AND 0xFF));
          Some (pb, True)
        } else do {
          pb \<leftarrow> pb_put pb (ucast (word AND 0xFF));
          pb \<leftarrow> pb_put pb (ucast (drop_bit 8 word AND 0xFF));
          pb \<leftarrow> pb_put pb (ucast (drop_bit 16 word AND 0xFF));
          pb \<leftarrow> pb_put pb (ucast (drop_bit 24 word AND 0xFF));
          Some (pb, True)
        })"

text \<open>The signed and floating-point writers reinterpret the bits.\<close>

definition pb_i8 :: "pb_handler \<Rightarrow> PayloadBuilder \<Rightarrow> u8 \<Rightarrow> (PayloadBuilder \<times> bool) option" where
  "pb_i8 H pb byte = pb_u8 H pb byte"

definition pb_i16 :: "pb_handler \<Rightarrow> PayloadBuilder \<Rightarrow> u16 \<Rightarrow> (PayloadBuilder \<times> bool) option" where
  "pb_i16 H pb word = pb_u16 H pb word"

definition pb_i32 :: "pb_handler \<Rightarrow> PayloadBuilder \<Rightarrow> u32 \<Rightarrow> (PayloadBuilder \<times> bool) option" where
  "pb_i32 H pb word = pb_u32 H pb word"

definition pb_float :: "pb_handler \<Rightarrow> PayloadBuilder \<Rightarrow> u32 \<Rightarrow> (PayloadBuilder \<times> bool) option" where
  "pb_float H pb f = pb_u32 H pb f"

section \<open>The parser\<close>

record PayloadParser =
  pp_mem :: "u8 list"
  pp_current :: nat
  pp_end :: nat
  pp_bigendian :: bool
  pp_ok :: bool

type_synonym pp_handler = "(PayloadParser \<Rightarrow> nat \<Rightarrow> PayloadParser \<times> bool) option"

definition pp_start_e :: "u8 list \<Rightarrow> nat \<Rightarrow> bool \<Rightarrow> PayloadParser" where
  "pp_start_e buf len bigendian =
    \<lparr>pp_mem = buf, pp_current = 0, pp_end = len, pp_bigendian = bigendian, pp_ok = True\<rparr>"

definition pp_check_capacity :: "pp_handler \<Rightarrow> PayloadParser \<Rightarrow> nat \<Rightarrow> PayloadParser" where
  "pp_check_capacity H pp needed =
    (if pp_current pp + needed > pp_end pp
     then (case H of
             None \<Rightarrow> pp\<lparr>pp_ok := False\<rparr>
           | Some h \<Rightarrow> (let (pp, r) = h pp needed in if r then pp else pp\<lparr>pp_ok := False\<rparr>))
     else pp)"

text \<open>\<open>*pp->current++\<close>\<close>

definition pp_get :: "PayloadParser \<Rightarrow> (PayloadParser \<times> u8) option" where
  "pp_get pp =
    map_option (\<lambda>b. (pp\<lparr>pp_current := pp_current pp + 1\<rparr>, b)) (load (pp_mem pp) (pp_current pp))"

definition pp_skip :: "PayloadParser \<Rightarrow> u32 \<Rightarrow> PayloadParser" where
  "pp_skip pp num = pp\<lparr>pp_current := pp_current pp + unat num\<rparr>"

definition pp_u8 :: "pp_handler \<Rightarrow> PayloadParser \<Rightarrow> (PayloadParser \<times> u8) option" where
  "pp_u8 H pp =
    (let pp = pp_check_capacity H pp 1
     in if \<not> pp_ok pp then Some (pp, 0) else pp_get pp)"

definition pp_bool :: "pp_handler \<Rightarrow> PayloadParser \<Rightarrow> (PayloadParser \<times> bool) option" where
  "pp_bool H pp = map_option (\<lambda>(pp, b). (pp, b \<noteq> 0)) (pp_u8 H pp)"

definition pp_u16 :: "pp_handler \<Rightarrow> PayloadParser \<Rightarrow> (PayloadParser \<times> u16) option" where
  "pp_u16 H pp =
    (let pp = pp_check_capacity H pp 2
     in if \<not> pp_ok pp then Some (pp, 0)
        else if pp_bigendian pp then do {
          (pp, a) \<leftarrow> pp_get pp;
          let x = 0 OR push_bit 8 (ucast a);
          (pp, a) \<leftarrow> pp_get pp;
          Some (pp, x OR ucast a)
        } else do {
          (pp, a) \<leftarrow> pp_get pp;
          let x = 0 OR ucast a;
          (pp, a) \<leftarrow> pp_get pp;
          Some (pp, x OR push_bit 8 (ucast a))
        })"

definition pp_u32 :: "pp_handler \<Rightarrow> PayloadParser \<Rightarrow> (PayloadParser \<times> u32) option" where
  "pp_u32 H pp =
    (let pp = pp_check_capacity H pp 4
     in if \<not> pp_ok pp then Some (pp, 0)
        else if pp_bigendian pp then do {
          (pp, a) \<leftarrow> pp_get pp;
          (pp, b) \<leftarrow> pp_get pp;
          (pp, c) \<leftarrow> pp_get pp;
          (pp, d) \<leftarrow> pp_get pp;
          Some (pp, push_bit 24 (ucast a) OR push_bit 16 (ucast b) OR push_bit 8 (ucast c) OR ucast d)
        } else do {
          (pp, a) \<leftarrow> pp_get pp;
          (pp, b) \<leftarrow> pp_get pp;
          (pp, c) \<leftarrow> pp_get pp;
          (pp, d) \<leftarrow> pp_get pp;
          Some (pp, ucast a OR push_bit 8 (ucast b) OR push_bit 16 (ucast c) OR push_bit 24 (ucast d))
        })"

definition pp_i8 :: "pp_handler \<Rightarrow> PayloadParser \<Rightarrow> (PayloadParser \<times> u8) option" where
  "pp_i8 H pp = pp_u8 H pp"

definition pp_i16 :: "pp_handler \<Rightarrow> PayloadParser \<Rightarrow> (PayloadParser \<times> u16) option" where
  "pp_i16 H pp = pp_u16 H pp"

definition pp_i32 :: "pp_handler \<Rightarrow> PayloadParser \<Rightarrow> (PayloadParser \<times> u32) option" where
  "pp_i32 H pp = pp_u32 H pp"

definition pp_float :: "pp_handler \<Rightarrow> PayloadParser \<Rightarrow> (PayloadParser \<times> u32) option" where
  "pp_float H pp = pp_u32 H pp"

text \<open>The rest of the payload: its offset and length, or the null pointer and 0.\<close>

definition pp_tail :: "PayloadParser \<Rightarrow> nat option \<times> u32" where
  "pp_tail pp =
    (let len = word_of_int (int (pp_end pp) - int (pp_current pp)) :: u32
     in if \<not> pp_ok pp \<or> sint len \<le> 0 then (None, 0) else (Some (pp_current pp), len))"

text \<open>
  \<open>pp_string\<close> and \<open>pp_buf\<close> copy into a buffer of the caller: \<open>out\<close> with the position \<open>o\<close> in it.
\<close>

function pp_string_loop ::
  "PayloadParser \<Rightarrow> u8 list \<Rightarrow> nat \<Rightarrow> u32 \<Rightarrow> u32 \<Rightarrow> (PayloadParser \<times> u8 list \<times> nat \<times> u32) option" where
  "pp_string_loop pp out pos len maxlen =
    (if len < maxlen - 1 \<and> pp_current pp \<noteq> pp_end pp
     then (case pp_get pp of
             None \<Rightarrow> None
           | Some (pp, c) \<Rightarrow>
               (case store out pos c of
                  None \<Rightarrow> None
                | Some out \<Rightarrow>
                    if c = 0 then Some (pp, out, pos + 1, len)
                    else pp_string_loop pp out (pos + 1) (len + 1) maxlen))
     else Some (pp, out, pos, len))"
  by pat_completeness auto
termination
proof (relation "measure (\<lambda>(pp, out, pos, len, maxlen). unat (maxlen - 1 - len))", goal_cases)
  case 1
  show ?case by simp
next
  case (2 pp out pos len maxlen)
  then have "len < maxlen - 1" by simp
  from unat_diff_dec [OF this] show ?case by simp
qed

declare pp_string_loop.simps [simp del]

definition pp_string ::
  "pp_handler \<Rightarrow> PayloadParser \<Rightarrow> u8 list \<Rightarrow> u32 \<Rightarrow> (PayloadParser \<times> u8 list \<times> u32) option" where
  "pp_string H pp buffer maxlen =
    (let pp = pp_check_capacity H pp 1
     in do {
       (pp, buffer, pos, len) \<leftarrow> pp_string_loop pp buffer 0 0 maxlen;
       buffer \<leftarrow> store buffer pos 0;
       Some (pp, buffer, len)
     })"

function pp_buf_loop :: "PayloadParser \<Rightarrow> u8 list \<Rightarrow> u32 \<Rightarrow> u32 \<Rightarrow> (PayloadParser \<times> u8 list \<times> u32) option" where
  "pp_buf_loop pp out len maxlen =
    (if len < maxlen \<and> pp_current pp \<noteq> pp_end pp
     then (case pp_get pp of
             None \<Rightarrow> None
           | Some (pp, c) \<Rightarrow>
               (case store out (unat len) c of
                  None \<Rightarrow> None
                | Some out \<Rightarrow> pp_buf_loop pp out (len + 1) maxlen))
     else Some (pp, out, len))"
  by pat_completeness auto
termination
proof (relation "measure (\<lambda>(pp, out, len, maxlen). unat (maxlen - len))", goal_cases)
  case 1
  show ?case by simp
next
  case (2 pp out len maxlen)
  then have "len < maxlen" by simp
  from unat_diff_dec [OF this] show ?case by simp
qed

declare pp_buf_loop.simps [simp del]

definition pp_buf :: "PayloadParser \<Rightarrow> u8 list \<Rightarrow> u32 \<Rightarrow> (PayloadParser \<times> u8 list \<times> u32) option" where
  "pp_buf pp buffer maxlen = pp_buf_loop pp buffer 0 maxlen"

section \<open>Bytes of the fields\<close>

definition enc8 :: "bool \<Rightarrow> u8 \<Rightarrow> u8 list" where
  "enc8 be w = [w]"

definition enc16 :: "bool \<Rightarrow> u16 \<Rightarrow> u8 list" where
  "enc16 be w = (if be then [ucast (drop_bit 8 w), ucast w] else [ucast w, ucast (drop_bit 8 w)])"

definition enc32 :: "bool \<Rightarrow> u32 \<Rightarrow> u8 list" where
  "enc32 be w =
    (let bs = [ucast (drop_bit 24 w), ucast (drop_bit 16 w), ucast (drop_bit 8 w), ucast w]
     in if be then bs else rev bs)"

text \<open>Bytes written at the current position, and the cursor moved behind them.\<close>

definition pb_write :: "PayloadBuilder \<Rightarrow> u8 list \<Rightarrow> PayloadBuilder" where
  "pb_write pb bs =
    pb\<lparr>pb_mem := take (pb_current pb) (pb_mem pb) @ bs @ drop (pb_current pb + length bs) (pb_mem pb),
       pb_current := pb_current pb + length bs\<rparr>"

definition pb_room :: "PayloadBuilder \<Rightarrow> nat \<Rightarrow> bool" where
  "pb_room pb n \<longleftrightarrow> pb_ok pb \<and> pb_current pb + n \<le> pb_end pb \<and> pb_end pb \<le> length (pb_mem pb)"

definition pp_sees :: "PayloadParser \<Rightarrow> u8 list \<Rightarrow> bool" where
  "pp_sees pp bs \<longleftrightarrow> pp_ok pp \<and> pp_current pp + length bs \<le> pp_end pp
    \<and> pp_end pp \<le> length (pp_mem pp) \<and> take (length bs) (drop (pp_current pp) (pp_mem pp)) = bs"

lemma pb_write_fields [simp]:
  "pb_bigendian (pb_write pb bs) = pb_bigendian pb" "pb_ok (pb_write pb bs) = pb_ok pb"
  "pb_end (pb_write pb bs) = pb_end pb" "pb_current (pb_write pb bs) = pb_current pb + length bs"
  by (simp_all add: pb_write_def)

lemma pb_put_write: "pb_current pb < length (pb_mem pb) \<Longrightarrow> pb_put pb b = Some (pb_write pb [b])"
  by (simp add: pb_put_def pb_write_def store_Some upd_conv_take_nth_drop)

lemma pb_write_length [simp]:
  "pb_current pb + length bs \<le> length (pb_mem pb) \<Longrightarrow> length (pb_mem (pb_write pb bs)) = length (pb_mem pb)"
  by (simp add: pb_write_def)

lemma pb_write_write:
  "pb_current pb + length xs \<le> length (pb_mem pb) \<Longrightarrow> pb_write (pb_write pb xs) ys = pb_write pb (xs @ ys)"
  by (simp add: pb_write_def ac_simps)

lemma check_capacity_room:
  "pb_room pb n \<Longrightarrow> pb_check_capacity H pb n = pb"
  by (simp add: pb_room_def pb_check_capacity_def)

lemma check_capacity_full:
  "pb_end pb < pb_current pb + n \<Longrightarrow> pb_check_capacity None pb n = pb\<lparr>pb_ok := False\<rparr>"
  by (simp add: pb_check_capacity_def)

lemma pp_check_room: "pp_sees pp bs \<Longrightarrow> length bs = n \<Longrightarrow> pp_check_capacity H pp n = pp"
  by (auto simp: pp_sees_def pp_check_capacity_def)

lemma pp_check_short:
  "pp_end pp < pp_current pp + n \<Longrightarrow> pp_check_capacity None pp n = pp\<lparr>pp_ok := False\<rparr>"
  by (simp add: pp_check_capacity_def)

lemma pp_get_sees:
  assumes "pp_sees pp (b # bs)"
  shows "pp_get pp = Some (pp\<lparr>pp_current := pp_current pp + 1\<rparr>, b)"
    and "pp_sees (pp\<lparr>pp_current := pp_current pp + 1\<rparr>) bs"
proof -
  have i: "pp_current pp < length (pp_mem pp)" using assms by (simp add: pp_sees_def)
  then have split: "drop (pp_current pp) (pp_mem pp) =
      pp_mem pp ! pp_current pp # drop (Suc (pp_current pp)) (pp_mem pp)"
    by (simp add: Cons_nth_drop_Suc)
  show "pp_get pp = Some (pp\<lparr>pp_current := pp_current pp + 1\<rparr>, b)"
    using assms i by (simp add: pp_sees_def pp_get_def load_Some split)
  show "pp_sees (pp\<lparr>pp_current := pp_current pp + 1\<rparr>) bs"
    using assms by (simp add: pp_sees_def split)
qed

lemma pp_sees_flags [simp]: "pp_sees pp bs \<Longrightarrow> pp_ok pp"
  by (simp add: pp_sees_def)

section \<open>What builder and parser agree on\<close>

locale field_codec =
  fixes put :: "pb_handler \<Rightarrow> PayloadBuilder \<Rightarrow> 'v \<Rightarrow> (PayloadBuilder \<times> bool) option"
    and get :: "pp_handler \<Rightarrow> PayloadParser \<Rightarrow> (PayloadParser \<times> 'v) option"
    and enc :: "bool \<Rightarrow> 'v \<Rightarrow> u8 list"
    and width :: nat
  assumes enc_width: "length (enc be v) = width"
    and put_room: "pb_room pb width \<Longrightarrow>
      put H pb v = Some (pb_write pb (enc (pb_bigendian pb) v), True)"
    and put_full: "pb_end pb < pb_current pb + width \<Longrightarrow> put None pb v = Some (pb\<lparr>pb_ok := False\<rparr>, False)"
    and get_sees: "pp_sees pp (enc (pp_bigendian pp) v) \<Longrightarrow>
      get K pp = Some (pp\<lparr>pp_current := pp_current pp + width\<rparr>, v)"
    and get_short: "pp_end pp < pp_current pp + width \<Longrightarrow>
      \<exists>v. get None pp = Some (pp\<lparr>pp_ok := False\<rparr>, v)"
begin

lemma put_get:
  assumes "pb_room pb width"
    and "pp_ok pp" "pp_bigendian pp = pb_bigendian pb" "pp_current pp = pb_current pb"
    and "pp_mem pp = pb_mem (pb_write pb (enc (pb_bigendian pb) v))"
    and "pb_current pb + width \<le> pp_end pp" "pp_end pp \<le> length (pb_mem pb)"
  shows "put H pb v = Some (pb_write pb (enc (pb_bigendian pb) v), True)"
    and "get H' pp = Some (pp\<lparr>pp_current := pp_current pp + width\<rparr>, v)"
proof -
  show "put H pb v = Some (pb_write pb (enc (pb_bigendian pb) v), True)"
    using assms(1) by (rule put_room)
  have "pb_current pb \<le> length (pb_mem pb)" using assms(1) by (simp add: pb_room_def)
  then have "pp_sees pp (enc (pp_bigendian pp) v)"
    using assms by (simp add: pp_sees_def pb_write_def enc_width)
  then show "get H' pp = Some (pp\<lparr>pp_current := pp_current pp + width\<rparr>, v)"
    by (rule get_sees)
qed

end

lemmas put_simps = pb_room_def pb_put_write pb_write_write byte_of_mask

interpretation c8: field_codec pb_u8 pp_u8 enc8 1
proof
  fix pb :: PayloadBuilder and pp :: PayloadParser and v :: u8 and H H'
  show "length (enc8 be v) = 1" for be by (simp add: enc8_def)
  show "pb_u8 H pb v = Some (pb_write pb (enc8 (pb_bigendian pb) v), True)" if "pb_room pb 1"
    using that check_capacity_room [OF that] by (simp add: pb_u8_def enc8_def put_simps Let_def)
  show "pb_u8 None pb v = Some (pb\<lparr>pb_ok := False\<rparr>, False)" if "pb_end pb < pb_current pb + 1"
    using check_capacity_full [OF that] by (simp add: pb_u8_def Let_def)
  show "pp_u8 H' pp = Some (pp\<lparr>pp_current := pp_current pp + 1\<rparr>, v)" if "pp_sees pp (enc8 (pp_bigendian pp) v)"
    using that pp_check_room [OF that, of 1] pp_get_sees(1) [of pp v "[]"]
    by (simp add: pp_u8_def enc8_def Let_def)
  show "\<exists>v. pp_u8 None pp = Some (pp\<lparr>pp_ok := False\<rparr>, v)" if "pp_end pp < pp_current pp + 1"
    using pp_check_short [OF that] by (simp add: pp_u8_def Let_def)
qed

interpretation c16: field_codec pb_u16 pp_u16 enc16 2
proof
  fix pb :: PayloadBuilder and pp :: PayloadParser and v :: u16 and H H'
  show "length (enc16 be v) = 2" for be by (simp add: enc16_def)
  show "pb_u16 H pb v = Some (pb_write pb (enc16 (pb_bigendian pb) v), True)" if "pb_room pb 2"
    using that check_capacity_room [OF that] by (simp add: pb_u16_def enc16_def put_simps Let_def)
  show "pb_u16 None pb v = Some (pb\<lparr>pb_ok := False\<rparr>, False)" if "pb_end pb < pb_current pb + 2"
    using check_capacity_full [OF that] by (simp add: pb_u16_def Let_def)
  have get: "pp_u16 H' pp = Some (pp\<lparr>pp_current := pp_current pp + 2\<rparr>,
      if pp_bigendian pp then push_bit 8 (ucast a) OR ucast b else ucast a OR push_bit 8 (ucast b))"
    if "pp_sees pp [a, b]" for a b
  proof -
    note 1 = pp_get_sees [OF that]
    note 2 = pp_get_sees [OF 1(2)]
    show ?thesis
      using that pp_check_room [OF that, of 2] 1(1) 2(1) by (simp add: pp_u16_def Let_def)
  qed
  show "pp_u16 H' pp = Some (pp\<lparr>pp_current := pp_current pp + 2\<rparr>, v)" if "pp_sees pp (enc16 (pp_bigendian pp) v)"
    using that get join_bytes16 [of v] by (auto simp: enc16_def or.commute split: if_splits)
  show "\<exists>v. pp_u16 None pp = Some (pp\<lparr>pp_ok := False\<rparr>, v)" if "pp_end pp < pp_current pp + 2"
    using pp_check_short [OF that] by (simp add: pp_u16_def Let_def)
qed

interpretation c32: field_codec pb_u32 pp_u32 enc32 4
proof
  fix pb :: PayloadBuilder and pp :: PayloadParser and v :: u32 and H H'
  show "length (enc32 be v) = 4" for be by (simp add: enc32_def Let_def)
  show "pb_u32 H pb v = Some (pb_write pb (enc32 (pb_bigendian pb) v), True)" if "pb_room pb 4"
    using that check_capacity_room [OF that] by (simp add: pb_u32_def enc32_def put_simps Let_def)
  show "pb_u32 None pb v = Some (pb\<lparr>pb_ok := False\<rparr>, False)" if "pb_end pb < pb_current pb + 4"
    using check_capacity_full [OF that] by (simp add: pb_u32_def Let_def)
  have get: "pp_u32 H' pp = Some (pp\<lparr>pp_current := pp_current pp + 4\<rparr>,
      if pp_bigendian pp
      then push_bit 24 (ucast a) OR push_bit 16 (ucast b) OR push_bit 8 (ucast c) OR ucast d
      else ucast a OR push_bit 8 (ucast b) OR push_bit 16 (ucast c) OR push_bit 24 (ucast d))"
    if "pp_sees pp [a, b, c, d]" for a b c d
  proof -
    note 1 = pp_get_sees [OF that]
    note 2 = pp_get_sees [OF 1(2)]
    note 3 = pp_get_sees [OF 2(2)]
    note 4 = pp_get_sees [OF 3(2)]
    show ?thesis
      using that pp_check_room [OF that, of 4] 1(1) 2(1) 3(1) 4(1) by (simp add: pp_u32_def Let_def)
  qed
  have le: "ucast (ucast v :: u8) OR push_bit 8 (ucast (ucast (drop_bit 8 v) :: u8))
      OR push_bit 16 (ucast (ucast (drop_bit 16 v) :: u8))
      OR push_bit 24 (ucast (ucast (drop_bit 24 v) :: u8)) = v"
    using join_bytes32 [of v] by (simp only: or.assoc or.commute or.left_commute)
  show "pp_u32 H' pp = Some (pp\<lparr>pp_current := pp_current pp + 4\<rparr>, v)" if "pp_sees pp (enc32 (pp_bigendian pp) v)"
    using that get join_bytes32 [of v] le by (auto simp: enc32_def Let_def split: if_splits)
  show "\<exists>v. pp_u32 None pp = Some (pp\<lparr>pp_ok := False\<rparr>, v)" if "pp_end pp < pp_current pp + 4"
    using pp_check_short [OF that] by (simp add: pp_u32_def Let_def)
qed

section \<open>Messages of several fields\<close>

datatype field = F_u8 u8 | F_bool bool | F_u16 u16 | F_u32 u32

fun put_field :: "pb_handler \<Rightarrow> PayloadBuilder \<Rightarrow> field \<Rightarrow> (PayloadBuilder \<times> bool) option" where
  "put_field H pb (F_u8 v) = pb_u8 H pb v"
| "put_field H pb (F_bool v) = pb_bool H pb v"
| "put_field H pb (F_u16 v) = pb_u16 H pb v"
| "put_field H pb (F_u32 v) = pb_u32 H pb v"

text \<open>Read a field of the same type as the given one.\<close>

fun get_field :: "pp_handler \<Rightarrow> PayloadParser \<Rightarrow> field \<Rightarrow> (PayloadParser \<times> field) option" where
  "get_field K pp (F_u8 _) = map_option (map_prod id F_u8) (pp_u8 K pp)"
| "get_field K pp (F_bool _) = map_option (map_prod id F_bool) (pp_bool K pp)"
| "get_field K pp (F_u16 _) = map_option (map_prod id F_u16) (pp_u16 K pp)"
| "get_field K pp (F_u32 _) = map_option (map_prod id F_u32) (pp_u32 K pp)"

fun enc_field :: "bool \<Rightarrow> field \<Rightarrow> u8 list" where
  "enc_field be (F_u8 v) = enc8 be v"
| "enc_field be (F_bool v) = enc8 be (if v then 1 else 0)"
| "enc_field be (F_u16 v) = enc16 be v"
| "enc_field be (F_u32 v) = enc32 be v"

fun put_fields :: "pb_handler \<Rightarrow> PayloadBuilder \<Rightarrow> field list \<Rightarrow> (PayloadBuilder \<times> bool) option" where
  "put_fields H pb [] = Some (pb, True)"
| "put_fields H pb (f # fs) = do {
     (pb, ok) \<leftarrow> put_field H pb f;
     if ok then put_fields H pb fs else Some (pb, False)
   }"

fun get_fields :: "pp_handler \<Rightarrow> PayloadParser \<Rightarrow> field list \<Rightarrow> (PayloadParser \<times> field list) option" where
  "get_fields K pp [] = Some (pp, [])"
| "get_fields K pp (f # fs) = do {
     (pp, v) \<leftarrow> get_field K pp f;
     (pp, vs) \<leftarrow> get_fields K pp fs;
     Some (pp, v # vs)
   }"

definition enc_fields :: "bool \<Rightarrow> field list \<Rightarrow> u8 list" where
  "enc_fields be fs = concat (map (enc_field be) fs)"

lemma put_field_room:
  "pb_room pb (length (enc_field (pb_bigendian pb) f)) \<Longrightarrow>
   put_field H pb f = Some (pb_write pb (enc_field (pb_bigendian pb) f), True)"
  by (cases f) (simp_all add: c8.enc_width c16.enc_width c32.enc_width c8.put_room c16.put_room
      c32.put_room pb_bool_def)

lemma get_field_sees:
  "pp_sees pp (enc_field (pp_bigendian pp) f) \<Longrightarrow>
   get_field K pp f = Some (pp\<lparr>pp_current := pp_current pp + length (enc_field (pp_bigendian pp) f)\<rparr>, f)"
  by (cases f) (auto simp: c8.enc_width c16.enc_width c32.enc_width c8.get_sees c16.get_sees
      c32.get_sees pp_bool_def split: if_splits)

lemma put_fields_room:
  "pb_room pb (length (enc_fields (pb_bigendian pb) fs)) \<Longrightarrow>
   put_fields H pb fs = Some (pb_write pb (enc_fields (pb_bigendian pb) fs), True)"
proof (induction fs arbitrary: pb)
  case Nil
  then show ?case by (simp add: enc_fields_def pb_write_def)
next
  case (Cons f fs)
  let ?be = "pb_bigendian pb"
  let ?pb = "pb_write pb (enc_field ?be f)"
  have room: "pb_current pb + length (enc_field ?be f) + length (enc_fields ?be fs) \<le> pb_end pb"
    "pb_end pb \<le> length (pb_mem pb)" "pb_ok pb"
    using Cons.prems by (simp_all add: pb_room_def enc_fields_def)
  then have "put_field H pb f = Some (?pb, True)" "pb_room ?pb (length (enc_fields (pb_bigendian ?pb) fs))"
    by (simp_all add: put_field_room pb_room_def)
  moreover have "pb_write ?pb (enc_fields ?be fs) = pb_write pb (enc_fields ?be (f # fs))"
    using room by (subst pb_write_write) (simp_all add: enc_fields_def)
  ultimately show ?case using Cons.IH [of ?pb] by simp
qed

lemma pp_sees_append:
  assumes "pp_sees pp (xs @ ys)"
  shows "pp_sees pp xs" and "pp_sees (pp\<lparr>pp_current := pp_current pp + length xs\<rparr>) ys"
proof -
  let ?zs = "drop (pp_current pp) (pp_mem pp)"
  have zs: "take (length xs + length ys) ?zs = xs @ ys" using assms by (simp add: pp_sees_def)
  from arg_cong [OF zs, of "take (length xs)"] have "take (length xs) ?zs = xs" by simp
  then show "pp_sees pp xs" using assms by (simp add: pp_sees_def)
  from arg_cong [OF zs, of "drop (length xs)"]
  have "take (length ys) (drop (length xs) ?zs) = ys" by (simp add: drop_take)
  then show "pp_sees (pp\<lparr>pp_current := pp_current pp + length xs\<rparr>) ys"
    using assms by (simp add: pp_sees_def add.commute)
qed

lemma get_fields_sees:
  "pp_sees pp (enc_fields (pp_bigendian pp) fs) \<Longrightarrow>
   get_fields K pp fs = Some (pp\<lparr>pp_current := pp_current pp + length (enc_fields (pp_bigendian pp) fs)\<rparr>, fs)"
proof (induction fs arbitrary: pp)
  case Nil
  then show ?case by (simp add: enc_fields_def)
next
  case (Cons f fs)
  let ?be = "pp_bigendian pp"
  have "pp_sees pp (enc_field ?be f @ enc_fields ?be fs)"
    using Cons.prems by (simp add: enc_fields_def)
  note sees = pp_sees_append [OF this]
  from get_field_sees [OF sees(1)] Cons.IH [of "pp\<lparr>pp_current := pp_current pp + length (enc_field ?be f)\<rparr>"] sees(2)
  show ?case by (simp add: enc_fields_def add.assoc)
qed

text \<open>C26. A message of any fields that fits the builder's buffer is built without an overrun, and the
  parser with the same byte order reads the same fields back and ends exactly at the end.\<close>

theorem payload_fields_roundtrip:
  assumes "length (enc_fields be fs) \<le> cap" and "cap \<le> length buf"
  shows "\<exists>pb. put_fields H (pb_start_e buf cap be) fs = Some (pb, True)
    \<and> pb_current pb = length (enc_fields be fs)
    \<and> (\<exists>pp. get_fields K (pp_start_e (pb_mem pb) (pb_current pb) be) fs = Some (pp, fs) \<and> pp_ok pp
        \<and> pp_current pp = pp_end pp)"
proof -
  let ?pb = "pb_start_e buf cap be" and ?bs = "enc_fields be fs"
  have "pb_room ?pb (length ?bs)" using assms by (simp add: pb_room_def pb_start_e_def)
  with put_fields_room [of ?pb fs H] have "put_fields H ?pb fs = Some (pb_write ?pb ?bs, True)"
    by (simp add: pb_start_e_def)
  moreover have "pp_sees (pp_start_e (pb_mem (pb_write ?pb ?bs)) (length ?bs) be) ?bs"
    using assms by (simp add: pp_sees_def pp_start_e_def pb_write_def pb_start_e_def)
  then have "get_fields K (pp_start_e (pb_mem (pb_write ?pb ?bs)) (length ?bs) be) fs =
      Some ((pp_start_e (pb_mem (pb_write ?pb ?bs)) (length ?bs) be)\<lparr>pp_current := length ?bs\<rparr>, fs)"
    using get_fields_sees [of "pp_start_e (pb_mem (pb_write ?pb ?bs)) (length ?bs) be" fs K]
    by (simp add: pp_start_e_def)
  ultimately show ?thesis by (auto simp: pb_start_e_def pp_start_e_def)
qed

lemma payload_fields_roundtrip_witness:
  "\<exists>pb. put_fields None (pb_start_e (replicate 16 0) 12 True) [F_u16 1000, F_bool True, F_u32 70000] = Some (pb, True)
    \<and> pb_current pb = 7
    \<and> (\<exists>pp. get_fields None (pp_start_e (pb_mem pb) (pb_current pb) True) [F_u16 1000, F_bool True, F_u32 70000]
            = Some (pp, [F_u16 1000, F_bool True, F_u32 70000]) \<and> pp_ok pp \<and> pp_current pp = pp_end pp)"
proof -
  have "length (enc_fields True [F_u16 1000, F_bool True, F_u32 70000]) = 7"
    by (simp add: enc_fields_def enc8_def enc16_def enc32_def)
  then show ?thesis
    using payload_fields_roundtrip [of True "[F_u16 1000, F_bool True, F_u32 70000]" 12 "replicate 16 0" None None]
    by (simp del: put_fields.simps get_fields.simps)
qed

section \<open>Overruns\<close>

text \<open>
  Without an overrun handler a write that does not fit changes no byte, and makes this and every
  later write fail.
\<close>

lemma put_field_not_ok: "\<not> pb_ok pb \<Longrightarrow> put_field None pb f = Some (pb, False)"
  by (cases f) (simp_all add: pb_u8_def pb_bool_def pb_u16_def pb_u32_def pb_check_capacity_def Let_def)

lemma put_field_full:
  "pb_end pb < pb_current pb + length (enc_field be f) \<Longrightarrow>
   put_field None pb f = Some (pb\<lparr>pb_ok := False\<rparr>, False)"
  by (cases f) (simp_all add: c8.enc_width c16.enc_width c32.enc_width c8.put_full c16.put_full
      c32.put_full pb_bool_def)

lemma put_fields_overrun_aux:
  assumes "pb_ok pb" and "pb_end pb \<le> length (pb_mem pb)"
    and "pb_end pb < pb_current pb + length (enc_fields (pb_bigendian pb) fs)" and "pb_current pb \<le> pb_end pb"
  shows "\<exists>pb'. put_fields None pb fs = Some (pb', False) \<and> \<not> pb_ok pb' \<and> pb_current pb' \<le> pb_end pb'
    \<and> drop (pb_end pb) (pb_mem pb') = drop (pb_end pb) (pb_mem pb)"
  using assms
proof (induction fs arbitrary: pb)
  case Nil
  then show ?case by (simp add: enc_fields_def)
next
  case (Cons f fs)
  let ?be = "pb_bigendian pb"
  show ?case
  proof (cases "pb_current pb + length (enc_field ?be f) \<le> pb_end pb")
    case False
    then show ?thesis using Cons.prems put_field_full [of pb ?be f] by simp
  next
    case True
    let ?pb = "pb_write pb (enc_field ?be f)"
    have put: "put_field None pb f = Some (?pb, True)"
      using True Cons.prems by (simp add: put_field_room pb_room_def)
    have "drop (pb_end pb) (pb_mem ?pb) = drop (pb_end pb) (pb_mem pb)"
      using True Cons.prems by (simp add: pb_write_def)
    with put Cons.IH [of ?pb] True Cons.prems show ?thesis
      by (simp add: enc_fields_def add.assoc)
  qed
qed

text \<open>C27. Writing fields that do not fit fails without an overrun handler: the builder is marked, the
  position stays inside the buffer and no byte behind the end of the buffer changes.\<close>

theorem put_fields_overrun:
  assumes "pb_ok pb" and "pb_end pb \<le> length (pb_mem pb)" and "pb_current pb \<le> pb_end pb"
    and "pb_end pb < pb_current pb + length (enc_fields (pb_bigendian pb) fs)"
  shows "\<exists>pb'. put_fields None pb fs = Some (pb', False) \<and> \<not> pb_ok pb' \<and> pb_current pb' \<le> pb_end pb'
    \<and> drop (pb_end pb) (pb_mem pb') = drop (pb_end pb) (pb_mem pb)"
  using assms by (intro put_fields_overrun_aux)

lemma put_fields_overrun_witness:
  "let pb = pb_start_e [1, 2, 3, 4, 5, 6, 7] 5 False
   in \<exists>pb'. put_fields None pb [F_u16 1, F_u32 2] = Some (pb', False) \<and> \<not> pb_ok pb'
     \<and> pb_current pb' \<le> pb_end pb' \<and> drop 5 (pb_mem pb') = [6, 7]"
  using put_fields_overrun [of "pb_start_e [1, 2, 3, 4, 5, 6, 7] 5 False" "[F_u16 1, F_u32 2]"]
  by (simp add: pb_start_e_def enc_fields_def enc16_def enc32_def)

section \<open>Reading into a buffer of the caller\<close>

text \<open>\<open>pp_string\<close> with a nonempty buffer writes inside it only, the terminating zero included.\<close>

lemma pp_string_loop_bounds:
  assumes "pos = unat len" and "len \<le> maxlen - 1" and "maxlen \<noteq> 0" and "unat maxlen \<le> length out"
    and "pp_current pp \<le> pp_end pp" and "pp_end pp \<le> length (pp_mem pp)"
  shows "\<exists>pp' out' pos' len'. pp_string_loop pp out pos len maxlen = Some (pp', out', pos', len')
    \<and> pos' < unat maxlen \<and> length out' = length out"
  using assms
proof (induction pp out pos len maxlen rule: pp_string_loop.induct)
  case (1 pp out pos len maxlen)
  note unfold = pp_string_loop.simps [of pp out pos len maxlen]
    pp_string_loop.simps [of pp out "unat len" len maxlen]
  have below: "unat (maxlen - 1) < unat maxlen" using "1.prems"(3) by (rule measure_unat)
  show ?case
  proof (cases "len < maxlen - 1 \<and> pp_current pp \<noteq> pp_end pp")
    case False
    have "unat len \<le> unat (maxlen - 1)" using "1.prems"(2) by (simp add: word_le_nat_alt)
    then have "unat len < unat maxlen" using below by simp
    moreover have "pp_string_loop pp out pos len maxlen = Some (pp, out, pos, len)"
      using False by (simp only: unfold if_False)
    ultimately show ?thesis using "1.prems"(1) by simp
  next
    case True
    let ?c = "pp_mem pp ! pp_current pp" and ?pp = "pp\<lparr>pp_current := pp_current pp + 1\<rparr>"
    have lt: "unat len < unat (maxlen - 1)" using True by (simp add: word_less_nat_alt)
    then have inc: "unat (len + 1) = Suc (unat len)"
      by (rule unat_inc_less)
    have pos: "pos < length out" using lt below "1.prems"(1,4) by simp
    have get: "pp_get pp = Some (?pp, ?c)"
      using True "1.prems"(5,6) by (simp add: pp_get_def load_Some)
    have st: "store out pos ?c = Some (out[pos := ?c])" using pos by (simp add: store_Some)
    show ?thesis
    proof (cases "?c = 0")
      case z: True
      then show ?thesis using True get st lt below "1.prems" by (simp add: unfold)
    next
      case False
      have "len + 1 \<le> maxlen - 1" using lt inc by (simp add: word_le_nat_alt)
      with "1.IH" [OF True get refl st False] "1.prems" True inc get st False show ?thesis
        by (simp add: unfold)
    qed
  qed
qed

lemma pp_check_capacity_None [simp]:
  "pp_current (pp_check_capacity None pp n) = pp_current pp"
  "pp_end (pp_check_capacity None pp n) = pp_end pp" "pp_mem (pp_check_capacity None pp n) = pp_mem pp"
  by (simp_all add: pp_check_capacity_def)

text \<open>\<open>pp_string\<close> with a buffer of at least one byte reads inside the payload and writes inside the
  buffer only, the terminating zero included, whatever the payload holds.\<close>

lemma pp_string_bounds:
  assumes "0 < maxlen" and "unat maxlen \<le> length buffer"
    and "pp_current pp \<le> pp_end pp" and "pp_end pp \<le> length (pp_mem pp)"
  shows "\<exists>pp' out len. pp_string None pp buffer maxlen = Some (pp', out, len) \<and> length out = length buffer"
proof -
  from pp_string_loop_bounds [of 0 0 maxlen buffer "pp_check_capacity None pp 1"] assms obtain pp' out pos len
    where "pp_string_loop (pp_check_capacity None pp 1) buffer 0 0 maxlen = Some (pp', out, pos, len)"
      "pos < unat maxlen" "length out = length buffer"
    by (auto simp: word_neq_0_conv)
  with assms(2) show ?thesis by (simp add: pp_string_def store_Some Let_def)
qed

lemma pp_string_bounds_example:
  "\<exists>pp' out len. pp_string None (pp_start_e [104, 105, 33] 3 True) [0, 0] 2 = Some (pp', out, len) \<and> length out = Suc (Suc 0)"
  using pp_string_bounds [of 2 "[0, 0]" "pp_start_e [104, 105, 33] 3 True"] by (simp add: pp_start_e_def)

end
