(* ===== verification/Base64.thy ===== *)
theory Base64
  imports Prelude "HOL-Library.Monad_Syntax"
begin

text \<open>
  Base64 and its URL variant in nginx_module/ngxlib/ngx_string.c. A source is the memory \<open>data\<close> of
  the string with its length, a destination a buffer that is written at growing offsets; writing
  behind its end is \<open>None\<close>. The locale \<open>base64_alphabet\<close> is what the encoder and decoder tables
  have to agree on; both pairs of tables interpret it.
\<close>

section \<open>The routines\<close>

text \<open>
  The loop that encodes three bytes at a time: source offset \<open>s\<close>, remaining \<open>len\<close>, destination
  buffer \<open>m\<close> with offset \<open>d\<close>. Every index into \<open>basis\<close> is below 64.
\<close>

fun encode_loop :: "u8 list \<Rightarrow> u8 list \<Rightarrow> nat \<Rightarrow> nat \<Rightarrow> u8 list \<Rightarrow> nat \<Rightarrow> (nat \<times> nat \<times> u8 list \<times> nat) option" where
  "encode_loop basis data s len m d =
    (if len > 2 then do {
       s0 \<leftarrow> load data s; s1 \<leftarrow> load data (s + 1); s2 \<leftarrow> load data (s + 2);
       m \<leftarrow> store_list m d
         [basis ! unat (drop_bit 2 s0 AND 0x3f),
          basis ! unat (push_bit 4 (s0 AND 3) OR drop_bit 4 s1),
          basis ! unat (push_bit 2 (s1 AND 0x0f) OR drop_bit 6 s2),
          basis ! unat (s2 AND 0x3f)];
       encode_loop basis data (s + 3) (len - 3) m (d + 4)
     } else Some (s, len, m, d))"

declare encode_loop.simps [simp del]

definition ngx_encode_base64_internal ::
  "u8 list \<Rightarrow> u8 list \<Rightarrow> nat \<Rightarrow> u8 list \<Rightarrow> bool \<Rightarrow> (u8 list \<times> nat) option" where
  "ngx_encode_base64_internal dst data len basis padding = do {
     (s, len, m, d) \<leftarrow> encode_loop basis data 0 len dst 0;
     (m, d) \<leftarrow>
       (if len \<noteq> 0 then do {
          s0 \<leftarrow> load data s;
          m \<leftarrow> store m d (basis ! unat (drop_bit 2 s0 AND 0x3f));
          let d = d + 1;
          (m, d) \<leftarrow>
            (if len = 1 then do {
               m \<leftarrow> store m d (basis ! unat (push_bit 4 (s0 AND 3)));
               let d = d + 1;
               if padding then do { m \<leftarrow> store m d 61; Some (m, d + 1) } else Some (m, d)
             } else do {
               s1 \<leftarrow> load data (s + 1);
               m \<leftarrow> store m d (basis ! unat (push_bit 4 (s0 AND 3) OR drop_bit 4 s1));
               let d = d + 1;
               m \<leftarrow> store m d (basis ! unat (push_bit 2 (s1 AND 0x0f)));
               Some (m, d + 1)
             });
          if padding then do { m \<leftarrow> store m d 61; Some (m, d + 1) } else Some (m, d)
        } else Some (m, d));
     Some (m, d)
   }"

definition basis64_encode :: "u8 list" where
  "basis64_encode = map of_char ''ABCDEFGHIJKLMNOPQRSTUVWXYZabcdefghijklmnopqrstuvwxyz0123456789+/''"

definition basis64url_encode :: "u8 list" where
  "basis64url_encode = map of_char ''ABCDEFGHIJKLMNOPQRSTUVWXYZabcdefghijklmnopqrstuvwxyz0123456789-_''"

text \<open>The result is the destination buffer and the length stored in \<open>dst->len\<close>.\<close>

definition ngx_encode_base64 :: "u8 list \<Rightarrow> u8 list \<Rightarrow> nat \<Rightarrow> (u8 list \<times> nat) option" where
  "ngx_encode_base64 dst data len = ngx_encode_base64_internal dst data len basis64_encode True"

definition ngx_encode_base64url :: "u8 list \<Rightarrow> u8 list \<Rightarrow> nat \<Rightarrow> (u8 list \<times> nat) option" where
  "ngx_encode_base64url dst data len = ngx_encode_base64_internal dst data len basis64url_encode False"

definition basis64_decode :: "u8 list" where
  "basis64_decode =
    [77, 77, 77, 77, 77, 77, 77, 77, 77, 77, 77, 77, 77, 77, 77, 77,
     77, 77, 77, 77, 77, 77, 77, 77, 77, 77, 77, 77, 77, 77, 77, 77,
     77, 77, 77, 77, 77, 77, 77, 77, 77, 77, 77, 62, 77, 77, 77, 63,
     52, 53, 54, 55, 56, 57, 58, 59, 60, 61, 77, 77, 77, 77, 77, 77,
     77, 0, 1, 2, 3, 4, 5, 6, 7, 8, 9, 10, 11, 12, 13, 14,
     15, 16, 17, 18, 19, 20, 21, 22, 23, 24, 25, 77, 77, 77, 77, 77,
     77, 26, 27, 28, 29, 30, 31, 32, 33, 34, 35, 36, 37, 38, 39, 40,
     41, 42, 43, 44, 45, 46, 47, 48, 49, 50, 51, 77, 77, 77, 77, 77,
     77, 77, 77, 77, 77, 77, 77, 77, 77, 77, 77, 77, 77, 77, 77, 77,
     77, 77, 77, 77, 77, 77, 77, 77, 77, 77, 77, 77, 77, 77, 77, 77,
     77, 77, 77, 77, 77, 77, 77, 77, 77, 77, 77, 77, 77, 77, 77, 77,
     77, 77, 77, 77, 77, 77, 77, 77, 77, 77, 77, 77, 77, 77, 77, 77,
     77, 77, 77, 77, 77, 77, 77, 77, 77, 77, 77, 77, 77, 77, 77, 77,
     77, 77, 77, 77, 77, 77, 77, 77, 77, 77, 77, 77, 77, 77, 77, 77,
     77, 77, 77, 77, 77, 77, 77, 77, 77, 77, 77, 77, 77, 77, 77, 77,
     77, 77, 77, 77, 77, 77, 77, 77, 77, 77, 77, 77, 77, 77, 77, 77]"

definition basis64url_decode :: "u8 list" where
  "basis64url_decode =
    [77, 77, 77, 77, 77, 77, 77, 77, 77, 77, 77, 77, 77, 77, 77, 77,
     77, 77, 77, 77, 77, 77, 77, 77, 77, 77, 77, 77, 77, 77, 77, 77,
     77, 77, 77, 77, 77, 77, 77, 77, 77, 77, 77, 77, 77, 62, 77, 77,
     52, 53, 54, 55, 56, 57, 58, 59, 60, 61, 77, 77, 77, 77, 77, 77,
     77, 0, 1, 2, 3, 4, 5, 6, 7, 8, 9, 10, 11, 12, 13, 14,
     15, 16, 17, 18, 19, 20, 21, 22, 23, 24, 25, 77, 77, 77, 77, 63,
     77, 26, 27, 28, 29, 30, 31, 32, 33, 34, 35, 36, 37, 38, 39, 40,
     41, 42, 43, 44, 45, 46, 47, 48, 49, 50, 51, 77, 77, 77, 77, 77,
     77, 77, 77, 77, 77, 77, 77, 77, 77, 77, 77, 77, 77, 77, 77, 77,
     77, 77, 77, 77, 77, 77, 77, 77, 77, 77, 77, 77, 77, 77, 77, 77,
     77, 77, 77, 77, 77, 77, 77, 77, 77, 77, 77, 77, 77, 77, 77, 77,
     77, 77, 77, 77, 77, 77, 77, 77, 77, 77, 77, 77, 77, 77, 77, 77,
     77, 77, 77, 77, 77, 77, 77, 77, 77, 77, 77, 77, 77, 77, 77, 77,
     77, 77, 77, 77, 77, 77, 77, 77, 77, 77, 77, 77, 77, 77, 77, 77,
     77, 77, 77, 77, 77, 77, 77, 77, 77, 77, 77, 77, 77, 77, 77, 77,
     77, 77, 77, 77, 77, 77, 77, 77, 77, 77, 77, 77, 77, 77, 77, 77]"

text \<open>
  The scan before decoding: the number of characters up to the end or a \<open>=\<close>; \<open>Some None\<close> when a
  character is not of the alphabet (77 in the table).
\<close>

function decode_scan :: "u8 list \<Rightarrow> u8 list \<Rightarrow> nat \<Rightarrow> nat \<Rightarrow> nat option option" where
  "decode_scan basis data n len =
    (if len < n then do {
       c \<leftarrow> load data len;
       if c = 61 then Some (Some len)
       else if basis ! unat c = 77 then Some None
       else decode_scan basis data n (len + 1)
     } else Some (Some len))"
  by pat_completeness auto
termination by (relation "measure (\<lambda>(basis, data, n, len). n - len)") auto

declare decode_scan.simps [simp del]

fun decode_loop :: "u8 list \<Rightarrow> u8 list \<Rightarrow> nat \<Rightarrow> nat \<Rightarrow> u8 list \<Rightarrow> nat \<Rightarrow> (nat \<times> nat \<times> u8 list \<times> nat) option" where
  "decode_loop basis data s len m d =
    (if len > 3 then do {
       s0 \<leftarrow> load data s; s1 \<leftarrow> load data (s + 1); s2 \<leftarrow> load data (s + 2); s3 \<leftarrow> load data (s + 3);
       m \<leftarrow> store_list m d
         [push_bit 2 (basis ! unat s0) OR drop_bit 4 (basis ! unat s1),
          push_bit 4 (basis ! unat s1) OR drop_bit 2 (basis ! unat s2),
          push_bit 6 (basis ! unat s2) OR basis ! unat s3];
       decode_loop basis data (s + 4) (len - 4) m (d + 3)
     } else Some (s, len, m, d))"

declare decode_loop.simps [simp del]

text \<open>\<open>NGX_ERROR\<close> is \<open>Some None\<close>; otherwise the buffer and the length stored in \<open>dst->len\<close>.\<close>

definition ngx_decode_base64_internal ::
  "u8 list \<Rightarrow> u8 list \<Rightarrow> nat \<Rightarrow> u8 list \<Rightarrow> (u8 list \<times> nat) option option" where
  "ngx_decode_base64_internal dst data n basis = do {
     r \<leftarrow> decode_scan basis data n 0;
     case r of
       None \<Rightarrow> Some None
     | Some len \<Rightarrow>
         if len mod 4 = 1 then Some None
         else do {
           (s, len, m, d) \<leftarrow> decode_loop basis data 0 len dst 0;
           (m, d) \<leftarrow>
             (if len > 1 then do {
                s0 \<leftarrow> load data s; s1 \<leftarrow> load data (s + 1);
                m \<leftarrow> store m d (push_bit 2 (basis ! unat s0) OR drop_bit 4 (basis ! unat s1));
                Some (m, d + 1)
              } else Some (m, d));
           (m, d) \<leftarrow>
             (if len > 2 then do {
                s1 \<leftarrow> load data (s + 1); s2 \<leftarrow> load data (s + 2);
                m \<leftarrow> store m d (push_bit 4 (basis ! unat s1) OR drop_bit 2 (basis ! unat s2));
                Some (m, d + 1)
              } else Some (m, d));
           Some (Some (m, d))
         }
   }"

definition ngx_decode_base64 :: "u8 list \<Rightarrow> u8 list \<Rightarrow> nat \<Rightarrow> (u8 list \<times> nat) option option" where
  "ngx_decode_base64 dst data n = ngx_decode_base64_internal dst data n basis64_decode"

definition ngx_decode_base64url :: "u8 list \<Rightarrow> u8 list \<Rightarrow> nat \<Rightarrow> (u8 list \<times> nat) option option" where
  "ngx_decode_base64url dst data n = ngx_decode_base64_internal dst data n basis64url_decode"

section \<open>The text of a byte string\<close>

text \<open>Sextets of up to three bytes, and the text over an alphabet.\<close>

definition sx1 :: "u8 \<Rightarrow> u8" where "sx1 a = drop_bit 2 a AND 0x3f"
definition sx2 :: "u8 \<Rightarrow> u8 \<Rightarrow> u8" where "sx2 a b = push_bit 4 (a AND 3) OR drop_bit 4 b"
definition sx3 :: "u8 \<Rightarrow> u8 \<Rightarrow> u8" where "sx3 b c = push_bit 2 (b AND 0x0f) OR drop_bit 6 c"
definition sx4 :: "u8 \<Rightarrow> u8" where "sx4 c = c AND 0x3f"
definition sx2_last :: "u8 \<Rightarrow> u8" where "sx2_last a = push_bit 4 (a AND 3)"
definition sx3_last :: "u8 \<Rightarrow> u8" where "sx3_last b = push_bit 2 (b AND 0x0f)"

lemmas sx_defs = sx1_def sx2_def sx3_def sx4_def sx2_last_def sx3_last_def

fun sextets :: "u8 list \<Rightarrow> u8 list" where
  "sextets (a # b # c # bs) = [sx1 a, sx2 a b, sx3 b c, sx4 c] @ sextets bs"
| "sextets [a, b] = [sx1 a, sx2 a b, sx3_last b]"
| "sextets [a] = [sx1 a, sx2_last a]"
| "sextets [] = []"

definition pad :: "nat \<Rightarrow> u8 list" where
  "pad n = (if n mod 3 = 1 then [61, 61] else if n mod 3 = 2 then [61] else [])"

definition b64_text :: "u8 list \<Rightarrow> bool \<Rightarrow> u8 list \<Rightarrow> u8 list" where
  "b64_text basis padding bs =
    map (\<lambda>i. basis ! unat i) (sextets bs) @ (if padding then pad (length bs) else [])"

fun desextets :: "u8 list \<Rightarrow> u8 list" where
  "desextets (a # b # c # d # is) =
     [push_bit 2 a OR drop_bit 4 b, push_bit 4 b OR drop_bit 2 c, push_bit 6 c OR d] @ desextets is"
| "desextets [a, b, c] = [push_bit 2 a OR drop_bit 4 b, push_bit 4 b OR drop_bit 2 c]"
| "desextets [a, b] = [push_bit 2 a OR drop_bit 4 b]"
| "desextets [a] = []"
| "desextets [] = []"

lemma u8_eqI:
  fixes a b :: u8
  assumes "bit a 0 = bit b 0" "bit a 1 = bit b 1" "bit a 2 = bit b 2" "bit a 3 = bit b 3"
    "bit a 4 = bit b 4" "bit a 5 = bit b 5" "bit a 6 = bit b 6" "bit a 7 = bit b 7"
  shows "a = b"
proof (rule bit_word_eqI)
  fix n
  assume "n < LENGTH(8)"
  then consider "n = 0" | "n = 1" | "n = 2" | "n = 3" | "n = 4" | "n = 5" | "n = 6" | "n = 7"
    by fastforce
  then show "bit a n = bit b n" using assms by cases simp_all
qed

lemma u8_high_bits: "8 \<le> n \<Longrightarrow> \<not> bit (b :: u8) n"
  by (auto dest: bit_imp_le_length)

lemma low_masks: "(0x3f :: u8) = mask 6" "(0x0f :: u8) = mask 4" "(3 :: u8) = mask 2"
  by (simp_all add: mask_eq_exp_minus_1)

lemma join_sextets:
  "push_bit 2 (sx1 a) OR drop_bit 4 (sx2 a b) = a"
  "push_bit 4 (sx2 a b) OR drop_bit 2 (sx3 b c) = b"
  "push_bit 6 (sx3 b c) OR sx4 c = c"
  "push_bit 2 (sx1 a) OR drop_bit 4 (sx2_last a) = a"
  "push_bit 4 (sx2 a b) OR drop_bit 2 (sx3_last b) = b"
  unfolding sx_defs low_masks by (rule u8_eqI; simp add: bit_simps)+

lemma desextets_sextets: "desextets (sextets bs) = bs"
  by (induction bs rule: sextets.induct) (simp_all add: join_sextets)

lemma sextet_less:
  "unat (sx1 a) < 64" "unat (sx2 a b) < 64" "unat (sx3 b c) < 64" "unat (sx4 c) < 64"
  "unat (sx2_last a) < 64" "unat (sx3_last b) < 64"
proof -
  have less: "unat w < 64" if "take_bit 6 w = w" for w :: u8
  proof -
    have "unat (take_bit 6 w) < 2 ^ 6" by (simp only: unsigned_take_bit_eq take_bit_nat_less_exp)
    with that show ?thesis by simp
  qed
  show "unat (sx1 a) < 64" "unat (sx2 a b) < 64" "unat (sx3 b c) < 64" "unat (sx4 c) < 64"
    "unat (sx2_last a) < 64" "unat (sx3_last b) < 64"
    by (rule less, unfold sx_defs low_masks, rule u8_eqI; simp add: bit_simps u8_high_bits)+
qed

lemma sextets_less: "i \<in> set (sextets bs) \<Longrightarrow> unat i < 64"
  by (induction bs rule: sextets.induct) (auto simp: sextet_less)

lemma length_sextets: "length (sextets bs) = (length bs * 4 + 2) div 3"
  by (induction bs rule: sextets.induct) simp_all

section \<open>The encoder writes the text\<close>

lemma encode_loop_eq:
  assumes "s + len \<le> length data"
  shows "encode_loop basis data s len m d =
    map_option (\<lambda>m. (s + 3 * (len div 3), len mod 3, m, d + 4 * (len div 3)))
      (store_list m d (map (\<lambda>i. basis ! unat i) (sextets (take (3 * (len div 3)) (drop s data)))))"
  using assms
proof (induction len arbitrary: s m d rule: less_induct)
  case (less len)
  note unfold = encode_loop.simps [of basis data s len m d]
  show ?case
  proof (cases "2 < len")
    case False
    then have "len div 3 = 0" "len mod 3 = len" by simp_all
    then show ?thesis using False by (simp add: unfold)
  next
    case True
    let ?a = "data ! s" and ?b = "data ! (s + 1)" and ?c = "data ! (s + 2)"
    have k: "len div 3 = Suc ((len - 3) div 3)" "len mod 3 = (len - 3) mod 3"
      using True by (simp_all add: le_div_geq le_mod_geq)
    have loads: "load data s = Some ?a" "load data (s + 1) = Some ?b" "load data (s + 2) = Some ?c"
      using True less.prems by (simp_all add: load_Some)
    have "drop s data = ?a # ?b # ?c # drop (s + 3) data"
      using True less.prems by (simp add: Cons_nth_drop_Suc numeral_3_eq_3)
    moreover have "3 * (len div 3) = Suc (Suc (Suc (3 * ((len - 3) div 3))))"
      by (simp add: k(1))
    ultimately have bytes: "take (3 * (len div 3)) (drop s data) =
        ?a # ?b # ?c # take (3 * ((len - 3) div 3)) (drop (s + 3) data)"
      by (simp only: take_Suc_Cons)
    let ?q = "[basis ! unat (sx1 ?a), basis ! unat (sx2 ?a ?b), basis ! unat (sx3 ?b ?c), basis ! unat (sx4 ?c)]"
    let ?r = "map (\<lambda>i. basis ! unat i) (sextets (take (3 * ((len - 3) div 3)) (drop (s + 3) data)))"
    have step: "encode_loop basis data s len m d =
        Option.bind (store_list m d ?q) (\<lambda>m. encode_loop basis data (s + 3) (len - 3) m (d + 4))"
      using True by (simp only: unfold loads if_True Option.bind.bind_lunit sx_defs)
    have rest: "encode_loop basis data (s + 3) (len - 3) u (d + 4) =
        map_option (\<lambda>m. (s + 3 * (len div 3), len mod 3, m, d + 4 * (len div 3))) (store_list u (d + 4) ?r)" for u
      using less.IH [of "len - 3" "s + 3" u "d + 4"] True less.prems by (simp add: k add.assoc)
    have enc: "map (\<lambda>i. basis ! unat i) (sextets (take (3 * (len div 3)) (drop s data))) = ?q @ ?r"
      by (simp add: bytes)
    have four: "length ?q = 4" by simp
    show ?thesis
      unfolding step rest enc store_list_append map_option_bind four comp_def by (rule refl)
  qed
qed

text \<open>Text and length: the encoder is one write of \<open>b64_text\<close>.\<close>

lemma sextets_append:
  "length xs mod 3 = 0 \<Longrightarrow> sextets (xs @ ys) = sextets xs @ sextets ys"
  by (induction xs rule: sextets.induct) simp_all

lemma ngx_encode_eq:
  assumes "n \<le> length data"
  shows "ngx_encode_base64_internal dst data n basis padding =
    (let t = b64_text basis padding (take n data) in map_option (\<lambda>m. (m, length t)) (store_list dst 0 t))"
proof -
  let ?k = "3 * (n div 3)" and ?e = "\<lambda>i. basis ! unat i"
  let ?head = "map ?e (sextets (take ?k data))" and ?d = "4 * (n div 3)"
  have loop: "encode_loop basis data 0 n dst 0 =
      map_option (\<lambda>m. (?k, n mod 3, m, ?d)) (store_list dst 0 ?head)"
    using encode_loop_eq [of 0 n data basis dst 0] assms by simp
  have lens: "length (take ?k data) = ?k" "length ?head = ?d"
    using assms by (simp_all add: length_sextets)
  have bytes: "take n data = take ?k data @ take (n mod 3) (drop ?k data)"
    using take_add [of ?k "n mod 3" data] by simp
  have enc: "b64_text basis padding (take n data) = ?head @ map ?e (sextets (take (n mod 3) (drop ?k data)))
      @ (if padding then pad n else [])"
  proof -
    have n: "length (take n data) = n" using assms by simp
    have "sextets (take n data) = sextets (take ?k data) @ sextets (take (n mod 3) (drop ?k data))"
      unfolding bytes using lens(1) by (simp add: sextets_append)
    then show ?thesis unfolding b64_text_def n by simp
  qed
  consider "n mod 3 = 0" | "n mod 3 = 1" | "n mod 3 = 2" by linarith
  then show ?thesis
  proof cases
    case 1
    then show ?thesis
      using loop lens by (cases "store_list dst 0 ?head")
        (simp_all add: ngx_encode_base64_internal_def enc pad_def Let_def)
  next
    case 2
    let ?a = "data ! ?k"
    have "?k < length data" using 2 assms mult_div_mod_eq [of 3 n] by linarith
    then have a: "load data ?k = Some ?a" "take 1 (drop ?k data) = [?a]"
      by (simp_all add: load_Some Cons_nth_drop_Suc [symmetric])
    let ?last = "[?e (sx1 ?a), ?e (sx2_last ?a)] @ (if padding then [61, 61] else [])"
    have "ngx_encode_base64_internal dst data n basis padding =
        Option.bind (store_list dst 0 ?head) (\<lambda>m. map_option (\<lambda>m. (m, ?d + length ?last)) (store_list m ?d ?last))"
      using loop 2 a(1) unfolding ngx_encode_base64_internal_def sx_defs
      by (cases "store_list dst 0 ?head"; cases padding)
        (simp_all add: map_option_bind map_conv_bind_option comp_def Let_def)
    then show ?thesis
      using 2 a lens enc by (simp add: store_list_append pad_def Let_def map_option_bind comp_def del: store_list.simps)
  next
    case 3
    let ?a = "data ! ?k" and ?b = "data ! (?k + 1)"
    have "?k + 1 < length data" using 3 assms mult_div_mod_eq [of 3 n] by linarith
    then have a: "load data ?k = Some ?a" "load data (?k + 1) = Some ?b" "take 2 (drop ?k data) = [?a, ?b]"
      by (simp_all add: load_Some take_2_drop)
    let ?last = "[?e (sx1 ?a), ?e (sx2 ?a ?b), ?e (sx3_last ?b)] @ (if padding then [61] else [])"
    have "ngx_encode_base64_internal dst data n basis padding =
        Option.bind (store_list dst 0 ?head) (\<lambda>m. map_option (\<lambda>m. (m, ?d + length ?last)) (store_list m ?d ?last))"
      using loop 3 a(1,2) unfolding ngx_encode_base64_internal_def sx_defs
      by (cases "store_list dst 0 ?head"; cases padding)
        (simp_all add: map_option_bind map_conv_bind_option comp_def Let_def)
    then show ?thesis
      using 3 a lens enc by (simp add: store_list_append pad_def Let_def map_option_bind comp_def del: store_list.simps)
  qed
qed

section \<open>The decoder\<close>

definition dx1 :: "u8 \<Rightarrow> u8 \<Rightarrow> u8" where "dx1 a b = push_bit 2 a OR drop_bit 4 b"
definition dx2 :: "u8 \<Rightarrow> u8 \<Rightarrow> u8" where "dx2 b c = push_bit 4 b OR drop_bit 2 c"
definition dx3 :: "u8 \<Rightarrow> u8 \<Rightarrow> u8" where "dx3 c d = push_bit 6 c OR d"

lemmas dx_defs = dx1_def dx2_def dx3_def

lemma desextets_append:
  "length xs mod 4 = 0 \<Longrightarrow> desextets (xs @ ys) = desextets xs @ desextets ys"
  by (induction xs rule: desextets.induct) simp_all

lemma length_desextets: "length (desextets is) = length is * 3 div 4"
  by (induction "is" rule: desextets.induct) simp_all

lemma decode_loop_eq:
  assumes "s + len \<le> length data"
  shows "decode_loop basis data s len m d =
    map_option (\<lambda>m. (s + 4 * (len div 4), len mod 4, m, d + 3 * (len div 4)))
      (store_list m d (desextets (map (\<lambda>c. basis ! unat c) (take (4 * (len div 4)) (drop s data)))))"
  using assms
proof (induction len arbitrary: s m d rule: less_induct)
  case (less len)
  note unfold = decode_loop.simps [of basis data s len m d]
  show ?case
  proof (cases "3 < len")
    case False
    then have "len div 4 = 0" "len mod 4 = len" by simp_all
    then show ?thesis using False by (simp add: unfold)
  next
    case True
    let ?v = "\<lambda>i. basis ! unat (data ! (s + i))"
    have k: "len div 4 = Suc ((len - 4) div 4)" "len mod 4 = (len - 4) mod 4"
      using True by (simp_all add: le_div_geq le_mod_geq)
    have loads: "load data s = Some (data ! (s + 0))" "load data (s + 1) = Some (data ! (s + 1))"
      "load data (s + 2) = Some (data ! (s + 2))" "load data (s + 3) = Some (data ! (s + 3))"
      using True less.prems by (simp_all add: load_Some)
    have "drop s data = data ! (s + 0) # data ! (s + 1) # data ! (s + 2) # data ! (s + 3) # drop (s + 4) data"
      using True less.prems by (simp add: Cons_nth_drop_Suc eval_nat_numeral)
    moreover have "4 * (len div 4) = Suc (Suc (Suc (Suc (4 * ((len - 4) div 4)))))"
      by (simp add: k(1))
    ultimately have bytes: "take (4 * (len div 4)) (drop s data) =
        data ! (s + 0) # data ! (s + 1) # data ! (s + 2) # data ! (s + 3) # take (4 * ((len - 4) div 4)) (drop (s + 4) data)"
      by (simp only: take_Suc_Cons)
    let ?q = "[dx1 (?v 0) (?v 1), dx2 (?v 1) (?v 2), dx3 (?v 2) (?v 3)]"
    let ?r = "desextets (map (\<lambda>c. basis ! unat c) (take (4 * ((len - 4) div 4)) (drop (s + 4) data)))"
    have step: "decode_loop basis data s len m d =
        Option.bind (store_list m d ?q) (\<lambda>m. decode_loop basis data (s + 4) (len - 4) m (d + 3))"
      using True by (simp only: unfold loads if_True Option.bind.bind_lunit dx_defs)
    have rest: "decode_loop basis data (s + 4) (len - 4) u (d + 3) =
        map_option (\<lambda>m. (s + 4 * (len div 4), len mod 4, m, d + 3 * (len div 4))) (store_list u (d + 3) ?r)" for u
      using less.IH [of "len - 4" "s + 4" u "d + 3"] True less.prems by (simp add: k add.assoc)
    have dec: "desextets (map (\<lambda>c. basis ! unat c) (take (4 * (len div 4)) (drop s data))) = ?q @ ?r"
      by (simp add: bytes dx_defs)
    have three: "length ?q = 3" by simp
    show ?thesis
      unfolding step rest dec store_list_append map_option_bind three comp_def by (rule refl)
  qed
qed

lemma decode_scan_ok:
  assumes "len \<le> n" and "n \<le> length data" and "k \<le> len"
    and "\<And>i. k \<le> i \<Longrightarrow> i < len \<Longrightarrow> data ! i \<noteq> 61 \<and> basis ! unat (data ! i) \<noteq> 77"
    and "len < n \<Longrightarrow> data ! len = 61"
  shows "decode_scan basis data n k = Some (Some len)"
  using assms(3,4)
proof (induction "len - k" arbitrary: k)
  case 0
  then have "k = len" by simp
  then show ?case using assms(1,2,5) by (simp add: decode_scan.simps [of basis data n len] load_Some)
next
  case (Suc j)
  then have "k < len" by simp
  with Suc assms(1,2) show ?case
    by (simp add: decode_scan.simps [of basis data n k] load_Some)
qed

lemma ngx_decode_eq:
  assumes "len \<le> n" and "n \<le> length data" and "len mod 4 \<noteq> 1"
    and "\<And>i. i < len \<Longrightarrow> data ! i \<noteq> 61 \<and> basis ! unat (data ! i) \<noteq> 77"
    and "len < n \<Longrightarrow> data ! len = 61"
  shows "ngx_decode_base64_internal dst data n basis =
    (let bs = desextets (map (\<lambda>c. basis ! unat c) (take len data))
     in map_option (\<lambda>m. Some (m, length bs)) (store_list dst 0 bs))"
proof -
  let ?k = "4 * (len div 4)" and ?v = "\<lambda>c. basis ! unat c"
  let ?head = "desextets (map ?v (take ?k data))" and ?d = "3 * (len div 4)"
  have scan: "decode_scan basis data n 0 = Some (Some len)"
    using assms by (intro decode_scan_ok) auto
  have "len \<le> length data" using assms(1,2) by simp
  then have loop: "decode_loop basis data 0 len dst 0 =
      map_option (\<lambda>m. (?k, len mod 4, m, ?d)) (store_list dst 0 ?head)"
    using decode_loop_eq [of 0 len data basis dst 0] by simp
  have lens: "length (take ?k data) = ?k" "length ?head = ?d"
    using \<open>len \<le> length data\<close> by (simp_all add: length_desextets)
  have bytes: "take len data = take ?k data @ take (len mod 4) (drop ?k data)"
    using take_add [of ?k "len mod 4" data] by simp
  have dec: "desextets (map ?v (take len data)) = ?head @ desextets (map ?v (take (len mod 4) (drop ?k data)))"
    unfolding bytes using lens(1) by (simp add: desextets_append)
  note unfold = ngx_decode_base64_internal_def
  consider "len mod 4 = 0" | "len mod 4 = 2" | "len mod 4 = 3" using assms(3) by linarith
  then show ?thesis
  proof cases
    case 1
    then show ?thesis
      using loop lens by (cases "store_list dst 0 ?head") (simp_all add: unfold scan dec Let_def)
  next
    case 2
    let ?a = "data ! ?k" and ?b = "data ! (?k + 1)"
    have "?k + 1 < length data" using 2 \<open>len \<le> length data\<close> mult_div_mod_eq [of 4 len] by linarith
    then have a: "load data ?k = Some ?a" "load data (?k + 1) = Some ?b" "take 2 (drop ?k data) = [?a, ?b]"
      by (simp_all add: load_Some take_2_drop)
    let ?last = "[push_bit 2 (?v ?a) OR drop_bit 4 (?v ?b)]"
    have "ngx_decode_base64_internal dst data n basis =
        Option.bind (store_list dst 0 ?head) (\<lambda>m. map_option (\<lambda>m. Some (m, ?d + length ?last)) (store_list m ?d ?last))"
      using loop 2 a(1,2) assms(3) unfolding unfold
      by (cases "store_list dst 0 ?head") (simp_all add: scan map_option_bind map_conv_bind_option comp_def Let_def)
    then show ?thesis
      using 2 a lens dec by (simp add: store_list_append Let_def map_option_bind comp_def del: store_list.simps)
  next
    case 3
    let ?a = "data ! ?k" and ?b = "data ! (?k + 1)" and ?c = "data ! (?k + 2)"
    have "?k + 2 < length data" using 3 \<open>len \<le> length data\<close> mult_div_mod_eq [of 4 len] by linarith
    then have a: "load data ?k = Some ?a" "load data (?k + 1) = Some ?b" "load data (?k + 2) = Some ?c"
      "take 3 (drop ?k data) = [?a, ?b, ?c]"
      by (simp_all only: load_Some take_3_drop)
    let ?last = "[push_bit 2 (?v ?a) OR drop_bit 4 (?v ?b), push_bit 4 (?v ?b) OR drop_bit 2 (?v ?c)]"
    have "ngx_decode_base64_internal dst data n basis =
        Option.bind (store_list dst 0 ?head) (\<lambda>m. map_option (\<lambda>m. Some (m, ?d + length ?last)) (store_list m ?d ?last))"
      using loop 3 a(1,2,3) assms(3) unfolding unfold
      by (cases "store_list dst 0 ?head") (simp_all add: scan map_option_bind map_conv_bind_option comp_def Let_def)
    then show ?thesis
      using 3 a lens dec by (simp add: store_list_append Let_def map_option_bind comp_def del: store_list.simps)
  qed
qed

section \<open>What the two tables agree on\<close>

locale base64_alphabet =
  fixes enc dec :: "u8 list"
  assumes dec_enc: "i < 64 \<Longrightarrow> dec ! unat (enc ! i) = of_nat i"
    and enc_not_pad: "i < 64 \<Longrightarrow> enc ! i \<noteq> 61"
begin

lemma text_chars:
  assumes "c \<in> set (map (\<lambda>i. enc ! unat i) (sextets bs))"
  shows "c \<noteq> 61" and "dec ! unat c \<noteq> 77"
proof -
  from assms obtain i where i: "i \<in> set (sextets bs)" "c = enc ! unat i" by auto
  then have "unat i < 64" using sextets_less by blast
  then show "c \<noteq> 61" "dec ! unat c \<noteq> 77"
    using i(2) enc_not_pad [of "unat i"] dec_enc [of "unat i"] by auto
qed

lemma map_dec_text: "map (\<lambda>c. dec ! unat c) (map (\<lambda>i. enc ! unat i) (sextets bs)) = sextets bs"
  using sextets_less [of _ bs] by (induction "sextets bs") (auto simp: dec_enc map_idI)

text \<open>An encoded string without its padding is never one character longer than a multiple of four.\<close>

lemma sextet_count: "(n * 4 + 2) div 3 mod 4 \<noteq> (1 :: nat)"
proof -
  obtain q r where q: "n = 3 * q + r" "r < 3" by (metis mod_div_decomp mod_less_divisor mult.commute zero_less_numeral)
  have m: "(n * 4 + 2) div 3 = 4 * q + (4 * r + 2) div 3"
    using div_mult_self4 [of 3 "4 * q" "4 * r + 2"] unfolding q(1) by (simp add: algebra_simps)
  have "r = 0 \<or> r = 1 \<or> r = 2" using q(2) by linarith
  then consider "r = 0" | "r = 1" | "r = 2" by blast
  then have "(4 * r + 2) div 3 mod 4 \<noteq> 1" by cases simp_all
  then show ?thesis unfolding m mod_mult_self4 .
qed

text \<open>Decoding an encoded string gives its bytes back, padded or not.\<close>

lemma decode_encode:
  assumes "n \<le> length data" and "length (b64_text enc padding (take n data)) \<le> length dst"
    and "n \<le> length dst2"
  shows "\<exists>m k m2. ngx_encode_base64_internal dst data n enc padding = Some (m, k)
    \<and> ngx_decode_base64_internal dst2 m k dec = Some (Some (m2, n)) \<and> take n m2 = take n data"
proof -
  let ?bs = "take n data" and ?t = "b64_text enc padding (take n data)"
  let ?cs = "map (\<lambda>i. enc ! unat i) (sextets ?bs)"
  let ?m = "?t @ drop (length ?t) dst"
  have enc: "ngx_encode_base64_internal dst data n enc padding = Some (?m, length ?t)"
    using assms(1,2) by (simp add: ngx_encode_eq Let_def store_list_eq)
  have cs: "take (length ?cs) ?m = ?cs" "i < length ?cs \<Longrightarrow> ?m ! i = ?cs ! i" for i
    by (simp_all add: b64_text_def nth_append)
  have n: "length ?bs = n" using assms(1) by simp
  have "length ?cs = (n * 4 + 2) div 3" using assms(1) by (simp add: length_sextets)
  then have four: "length ?cs mod 4 \<noteq> 1" by (simp only: sextet_count not_False_eq_True)
  have mod4: "length ?cs < length ?t \<Longrightarrow> ?m ! length ?cs = 61"
    by (auto simp: b64_text_def nth_append pad_def split: if_splits)
  have "ngx_decode_base64_internal dst2 ?m (length ?t) dec =
      (let bs = desextets (map (\<lambda>c. dec ! unat c) (take (length ?cs) ?m))
       in map_option (\<lambda>m. Some (m, length bs)) (store_list dst2 0 bs))"
  proof (rule ngx_decode_eq)
    show "length ?cs \<le> length ?t" by (simp add: b64_text_def)
    show "length ?t \<le> length ?m" by simp
    show "length ?cs mod 4 \<noteq> 1" by (rule four)
    show "?m ! i \<noteq> 61 \<and> dec ! unat (?m ! i) \<noteq> 77" if "i < length ?cs" for i
      using text_chars [OF nth_mem [OF that]] cs(2) [OF that] by simp
    show "length ?cs < length ?t \<Longrightarrow> ?m ! length ?cs = 61" by (rule mod4)
  qed
  then have "ngx_decode_base64_internal dst2 ?m (length ?t) dec =
      Some (Some (?bs @ drop n dst2, n))"
    using assms(3) n by (simp only: cs(1) map_dec_text desextets_sextets) (simp add: Let_def store_list_eq)
  with enc n show ?thesis by auto
qed

end

interpretation b64: base64_alphabet basis64_encode basis64_decode
proof
  have dec: "map (\<lambda>c. basis64_decode ! unat c) basis64_encode = map of_nat [0..<64]"
    by (simp add: basis64_encode_def basis64_decode_def upt_conv_Cons)
  have len: "length basis64_encode = 64" by (simp add: basis64_encode_def)
  show "basis64_decode ! unat (basis64_encode ! i) = of_nat i" if "i < 64" for i
    using arg_cong [OF dec, of "\<lambda>xs. xs ! i"] that len by simp
  have "61 \<notin> set basis64_encode" by (simp add: basis64_encode_def)
  then show "basis64_encode ! i \<noteq> 61" if "i < 64" for i
    using that by (metis len nth_mem)
qed

interpretation b64url: base64_alphabet basis64url_encode basis64url_decode
proof
  have dec: "map (\<lambda>c. basis64url_decode ! unat c) basis64url_encode = map of_nat [0..<64]"
    by (simp add: basis64url_encode_def basis64url_decode_def upt_conv_Cons)
  have len: "length basis64url_encode = 64" by (simp add: basis64url_encode_def)
  show "basis64url_decode ! unat (basis64url_encode ! i) = of_nat i" if "i < 64" for i
    using arg_cong [OF dec, of "\<lambda>xs. xs ! i"] that len by simp
  have "61 \<notin> set basis64url_encode" by (simp add: basis64url_encode_def)
  then show "basis64url_encode ! i \<noteq> 61" if "i < 64" for i
    using that by (metis len nth_mem)
qed

section \<open>Invalid input\<close>

lemma decode_scan_bad:
  assumes "i < n" and "n \<le> length data" and "k \<le> i" and "basis ! unat (data ! i) = 77"
    and "\<And>j. k \<le> j \<Longrightarrow> j \<le> i \<Longrightarrow> data ! j \<noteq> 61"
  shows "decode_scan basis data n k = Some None"
  using assms(3,5)
proof (induction "i - k" arbitrary: k)
  case 0
  then show ?case using assms(1,2,4) by (simp add: decode_scan.simps [of basis data n k] load_Some)
next
  case (Suc j)
  then have "k < i" by simp
  then show ?case
    using Suc assms(1,2) by (simp add: decode_scan.simps [of basis data n k] load_Some)
qed

lemma ngx_decode_bad_char:
  assumes "i < n" and "n \<le> length data" and "basis ! unat (data ! i) = 77"
    and "\<And>j. j \<le> i \<Longrightarrow> data ! j \<noteq> 61"
  shows "ngx_decode_base64_internal dst data n basis = Some None"
  using decode_scan_bad [of i n data 0 basis] assms by (simp add: ngx_decode_base64_internal_def)

lemma length_b64_text_padded: "length (b64_text basis True bs) = (length bs + 2) div 3 * 4"
proof -
  define q where "q = length bs div 3"
  have "length bs = 3 * q \<or> length bs = 3 * q + 1 \<or> length bs = 3 * q + 2"
    unfolding q_def by linarith
  then consider "length bs = 3 * q" | "length bs = 3 * q + 1" | "length bs = 3 * q + 2" by blast
  then show ?thesis
  proof cases
    case 1
    moreover have "(3 * q * 4 + 2) div 3 = q * 4" "(3 * q + 2) div 3 = q" by linarith+
    ultimately show ?thesis by (simp only: b64_text_def length_append length_map length_sextets pad_def) simp
  next
    case 2
    moreover have "((3 * q + 1) * 4 + 2) div 3 = q * 4 + 2" "(3 * q + 1 + 2) div 3 = q + 1"
      "(3 * q + 1) mod 3 = 1" by presburger+
    ultimately show ?thesis by (simp only: b64_text_def length_append length_map length_sextets pad_def) simp
  next
    case 3
    moreover have "((3 * q + 2) * 4 + 2) div 3 = q * 4 + 3" "(3 * q + 2 + 2) div 3 = q + 1"
      "(3 * q + 2) mod 3 = 2" by presburger+
    ultimately show ?thesis by (simp only: b64_text_def length_append length_map length_sextets pad_def) simp
  qed
qed

lemma encoded_length:
  assumes "n \<le> length data" "ngx_encode_base64_internal dst data n basis padding = Some (m, k)"
  shows "k = length (b64_text basis padding (take n data))"
  using assms by (auto simp: ngx_encode_eq Let_def)

lemma base64_padded:
  assumes "n \<le> length data" "(n + 2) div 3 * 4 \<le> length dst" "n \<le> length dst2"
  shows "\<exists>m m2. ngx_encode_base64 dst data n = Some (m, (n + 2) div 3 * 4)
    \<and> ngx_decode_base64 dst2 m ((n + 2) div 3 * 4) = Some (Some (m2, n)) \<and> take n m2 = take n data"
proof -
  have l: "length (b64_text basis64_encode True (take n data)) = (n + 2) div 3 * 4"
    using assms(1) by (simp add: length_b64_text_padded)
  with b64.decode_encode [of n data True dst dst2] assms obtain m k m2 where
    e: "ngx_encode_base64_internal dst data n basis64_encode True = Some (m, k)"
    and "ngx_decode_base64_internal dst2 m k basis64_decode = Some (Some (m2, n))" "take n m2 = take n data"
    by auto
  moreover from encoded_length [OF assms(1) e] l have "k = (n + 2) div 3 * 4" by simp
  ultimately show ?thesis by (auto simp: ngx_encode_base64_def ngx_decode_base64_def)
qed

lemma base64url_unpadded:
  assumes "n \<le> length data" "(n * 4 + 2) div 3 \<le> length dst" "n \<le> length dst2"
  shows "\<exists>m m2. ngx_encode_base64url dst data n = Some (m, (n * 4 + 2) div 3)
    \<and> ngx_decode_base64url dst2 m ((n * 4 + 2) div 3) = Some (Some (m2, n)) \<and> take n m2 = take n data"
proof -
  have l: "length (b64_text basis64url_encode False (take n data)) = (n * 4 + 2) div 3"
    using assms(1) by (simp add: b64_text_def length_sextets)
  with b64url.decode_encode [of n data False dst dst2] assms obtain m k m2 where
    e: "ngx_encode_base64_internal dst data n basis64url_encode False = Some (m, k)"
    and "ngx_decode_base64_internal dst2 m k basis64url_decode = Some (Some (m2, n))" "take n m2 = take n data"
    by auto
  moreover from encoded_length [OF assms(1) e] l have "k = (n * 4 + 2) div 3" by simp
  ultimately show ?thesis by (auto simp: ngx_encode_base64url_def ngx_decode_base64url_def)
qed

text \<open>C28. \<open>ngx_encode_base64\<close> writes exactly \<open>(n + 2) / 3 * 4\<close> characters, the length that its callers
  reserve, and \<open>ngx_decode_base64\<close> gives the bytes back; the URL variant writes \<open>(4 n + 2) / 3\<close>
  characters without padding, and its decoder gives the bytes back. Neither leaves its buffers.\<close>

theorem base64_roundtrip:
  assumes "n \<le> length data" "(n + 2) div 3 * 4 \<le> length dst" "n \<le> length dst2"
  shows "(\<exists>m m2. ngx_encode_base64 dst data n = Some (m, (n + 2) div 3 * 4)
      \<and> ngx_decode_base64 dst2 m ((n + 2) div 3 * 4) = Some (Some (m2, n)) \<and> take n m2 = take n data)
    \<and> (\<exists>m m2. ngx_encode_base64url dst data n = Some (m, (n * 4 + 2) div 3)
      \<and> ngx_decode_base64url dst2 m ((n * 4 + 2) div 3) = Some (Some (m2, n)) \<and> take n m2 = take n data)"
proof -
  have "(n * 4 + 2) div 3 \<le> (n + 2) div 3 * 4" by linarith
  with assms(2) have "(n * 4 + 2) div 3 \<le> length dst" by (rule order_trans [rotated])
  with base64_padded [OF assms] base64url_unpadded [OF assms(1) _ assms(3)] show ?thesis by blast
qed

lemma base64_roundtrip_witness:
  "(\<exists>m m2. ngx_encode_base64 (replicate 8 0) [1, 2, 250, 255] 4 = Some (m, 8)
      \<and> ngx_decode_base64 (replicate 4 0) m 8 = Some (Some (m2, 4)) \<and> take 4 m2 = [1, 2, 250, 255])
    \<and> (\<exists>m m2. ngx_encode_base64url (replicate 8 0) [1, 2, 250, 255] 4 = Some (m, 6)
      \<and> ngx_decode_base64url (replicate 4 0) m 6 = Some (Some (m2, 4)) \<and> take 4 m2 = [1, 2, 250, 255])"
  using base64_roundtrip [of 4 "[1, 2, 250, 255]" "replicate 8 0" "replicate 4 0"] by simp

text \<open>A character outside the alphabet before the first padding character makes \<open>ngx_decode_base64\<close>
  answer an error without writing the destination.\<close>

theorem base64_bad_character:
  assumes "i < n" "n \<le> length data" "basis64_decode ! unat (data ! i) = 77"
    and "\<forall>j\<le>i. data ! j \<noteq> 61"
  shows "ngx_decode_base64 dst data n = Some None"
  using ngx_decode_bad_char [OF assms(1-3)] assms(4) by (simp add: ngx_decode_base64_def)

lemma base64_bad_character_witness: "ngx_decode_base64 [] [65, 33, 65, 65] 4 = Some None"
proof (rule base64_bad_character [of 1])
  show "basis64_decode ! unat ([65, 33, 65, 65] ! 1 :: u8) = 77" by (simp add: basis64_decode_def)
  show "\<forall>j\<le>1. [65, 33, 65, 65] ! j \<noteq> (61 :: u8)"
    by (simp add: le_Suc_eq)
qed simp_all

end
