(* ===== verification/Adts.thy ===== *)
theory Adts
  imports Prelude "HOL-Library.Monad_Syntax"
begin

text \<open>
  The ADTS frame header of aac_parse/adts.c: packing the two header structs into 56 bits and seven
  bytes, and parsing them back. A bit bits_at of width \<open>w\<close> is a \<open>w\<close>-bit word, so that storing into it
  truncates as it does in C; \<open>(int)pow(2, k) - 1\<close> is its value.
\<close>

section \<open>The headers\<close>

record adts_fixed_header =
  syncword :: "12 word"
  adts_id :: "1 word"
  layer :: "2 word"
  protection_absent :: "1 word"
  profile :: "2 word"
  sampling_frequency_index :: "4 word"
  private_bit :: "1 word"
  channel_configuration :: "3 word"
  original_copy :: "1 word"
  home :: "1 word"

record adts_variable_header =
  copyright_identification_bit :: "1 word"
  copyright_identification_start :: "1 word"
  aac_frame_length :: "13 word"
  adts_buffer_fullness :: "11 word"
  number_of_raw_data_blocks_in_frame :: "2 word"

definition set_fixed_header :: adts_fixed_header where
  "set_fixed_header =
    \<lparr>syncword = 0xFF, adts_id = 0, layer = 0, protection_absent = 1, profile = 1,
     sampling_frequency_index = 4, private_bit = 0, channel_configuration = 2, original_copy = 0,
     home = 0\<rparr>"

definition set_variable_header :: "u32 \<Rightarrow> adts_variable_header" where
  "set_variable_header aac_raw_data_length =
    \<lparr>copyright_identification_bit = 0, copyright_identification_start = 0,
     aac_frame_length = ucast (aac_raw_data_length + 7), adts_buffer_fullness = 0x7f,
     number_of_raw_data_blocks_in_frame = 2\<rparr>"

section \<open>Parsing\<close>

text \<open>The seven bytes as one number; both parsers start with it.\<close>

definition adts_bytes :: "u8 list \<Rightarrow> u64 option" where
  "adts_bytes p = do {
     b0 \<leftarrow> load p 0; b1 \<leftarrow> load p 1; b2 \<leftarrow> load p 2; b3 \<leftarrow> load p 3;
     b4 \<leftarrow> load p 4; b5 \<leftarrow> load p 5; b6 \<leftarrow> load p 6;
     let adts = 0 OR ucast b0;
     let adts = push_bit 8 adts OR ucast b1;
     let adts = push_bit 8 adts OR ucast b2;
     let adts = push_bit 8 adts OR ucast b3;
     let adts = push_bit 8 adts OR ucast b4;
     let adts = push_bit 8 adts OR ucast b5;
     Some (push_bit 8 adts OR ucast b6)
   }"

definition get_fixed_header :: "u8 list \<Rightarrow> adts_fixed_header option" where
  "get_fixed_header buff = do {
     adts \<leftarrow> adts_bytes buff;
     Some \<lparr>syncword = ucast (drop_bit 44 adts),
       adts_id = ucast (drop_bit 43 adts AND 0x01),
       layer = ucast (drop_bit 41 adts AND 0x03),
       protection_absent = ucast (drop_bit 40 adts AND 0x01),
       profile = ucast (drop_bit 38 adts AND 0x03),
       sampling_frequency_index = ucast (drop_bit 34 adts AND 0x0f),
       private_bit = ucast (drop_bit 33 adts AND 0x01),
       channel_configuration = ucast (drop_bit 30 adts AND 0x07),
       original_copy = ucast (drop_bit 29 adts AND 0x01),
       home = ucast (drop_bit 28 adts AND 0x01)\<rparr>
   }"

definition get_variable_header :: "u8 list \<Rightarrow> adts_variable_header option" where
  "get_variable_header buff = do {
     adts \<leftarrow> adts_bytes buff;
     Some \<lparr>copyright_identification_bit = ucast (drop_bit 27 adts AND 0x01),
       copyright_identification_start = ucast (drop_bit 26 adts AND 0x01),
       aac_frame_length = ucast (drop_bit 13 adts AND (2 ^ 14 - 1)),
       adts_buffer_fullness = ucast (drop_bit 2 adts AND (2 ^ 11 - 1)),
       number_of_raw_data_blocks_in_frame = ucast (adts AND 0x03)\<rparr>
   }"

section \<open>Packing\<close>

definition convert_adts_header2int64 :: "adts_fixed_header \<Rightarrow> adts_variable_header \<Rightarrow> u64" where
  "convert_adts_header2int64 f v =
    (let r = ucast (syncword f);
         r = push_bit 1 r OR ucast (adts_id f);
         r = push_bit 2 r OR ucast (layer f);
         r = push_bit 1 r OR (ucast (protection_absent f) AND 0x01);
         r = push_bit 2 r OR ucast (profile f);
         r = push_bit 4 r OR (ucast (sampling_frequency_index f) AND 0x0f);
         r = push_bit 1 r OR (ucast (private_bit f) AND 0x01);
         r = push_bit 3 r OR (ucast (channel_configuration f) AND 0x07);
         r = push_bit 1 r OR (ucast (original_copy f) AND 0x01);
         r = push_bit 1 r OR (ucast (home f) AND 0x01);
         r = push_bit 1 r OR (ucast (copyright_identification_bit v) AND 0x01);
         r = push_bit 1 r OR (ucast (copyright_identification_start v) AND 0x01);
         r = push_bit 13 r OR (ucast (aac_frame_length v) AND (2 ^ 13 - 1));
         r = push_bit 11 r OR (ucast (adts_buffer_fullness v) AND (2 ^ 11 - 1));
         r = push_bit 2 r OR (ucast (number_of_raw_data_blocks_in_frame v) AND (2 ^ 2 - 1))
     in r)"

definition convert_adts_header2char :: "adts_fixed_header \<Rightarrow> adts_variable_header \<Rightarrow> u8 list" where
  "convert_adts_header2char f v =
    (let value = convert_adts_header2int64 f v
     in [ucast (drop_bit 48 value AND 0xff), ucast (drop_bit 40 value AND 0xff),
         ucast (drop_bit 32 value AND 0xff), ucast (drop_bit 24 value AND 0xff),
         ucast (drop_bit 16 value AND 0xff), ucast (drop_bit 8 value AND 0xff),
         ucast (value AND 0xff)])"

section \<open>Fields in the packed number\<close>

text \<open>\<open>at_bit w x r\<close> appends a bits_at to the packed bits, \<open>bits_at k\<close> reads one at offset \<open>k\<close>.\<close>

definition at_bit :: "'a::len word \<Rightarrow> u64 \<Rightarrow> u64" where
  "at_bit x r = push_bit LENGTH('a) r OR ucast x"

definition bits_at :: "nat \<Rightarrow> u64 \<Rightarrow> 'a::len word" where
  "bits_at k r = ucast (drop_bit k r)"

lemma bits_at_at_bit:
  "LENGTH('a::len) \<le> 64 \<Longrightarrow> bits_at 0 (at_bit (x :: 'a word) r) = x"
  unfolding bits_at_def at_bit_def
  by (rule bit_word_eqI) (auto simp: bit_simps)

lemma bits_at_skip:
  assumes "LENGTH('a::len) \<le> k" and "k + LENGTH('b::len) \<le> 64"
  shows "(bits_at k (at_bit (x :: 'a word) r) :: 'b word) = bits_at (k - LENGTH('a)) r"
  unfolding bits_at_def at_bit_def using assms
  by (intro bit_word_eqI) (auto simp: bit_simps dest: bit_imp_le_length)

text \<open>The masks of the code are as wide as the fields.\<close>

lemma ucast_and_mask: "LENGTH('a::len) \<le> m \<Longrightarrow> (ucast (x :: 'a word) :: u64) AND mask m = ucast x"
  by (rule bit_word_eqI) (auto simp: bit_simps dest: bit_imp_le_length)

lemma bits_at_and_mask:
  "LENGTH('b::len) \<le> m \<Longrightarrow> (ucast (drop_bit k r AND mask m) :: 'b word) = bits_at k r"
  unfolding bits_at_def by (rule bit_word_eqI) (auto simp: bit_simps dest: bit_imp_le_length)

lemma powers: "(2 ^ 2 - 1 :: u64) = 3" "(2 ^ 11 - 1 :: u64) = 2047" "(2 ^ 13 - 1 :: u64) = 8191"
  "(2 ^ 14 - 1 :: u64) = 16383"
  by simp_all

lemma and_masks:
  "(ucast (x1 :: 1 word) :: u64) AND 1 = ucast x1" "(ucast (x2 :: 2 word) :: u64) AND 3 = ucast x2"
  "(ucast (x3 :: 3 word) :: u64) AND 7 = ucast x3" "(ucast (x4 :: 4 word) :: u64) AND 15 = ucast x4"
  "(ucast (x11 :: 11 word) :: u64) AND 2047 = ucast x11"
  "(ucast (x13 :: 13 word) :: u64) AND 8191 = ucast x13"
  using ucast_and_mask [of 1 x1] ucast_and_mask [of 2 x2] ucast_and_mask [of 3 x3]
    ucast_and_mask [of 4 x4] ucast_and_mask [of 11 x11] ucast_and_mask [of 13 x13]
  by (simp_all add: mask_eq_exp_minus_1)

lemma bits_at_masks:
  "(ucast (drop_bit k r AND 1) :: 1 word) = bits_at k r" "(ucast (drop_bit k r AND 3) :: 2 word) = bits_at k r"
  "(ucast (drop_bit k r AND 7) :: 3 word) = bits_at k r" "(ucast (drop_bit k r AND 15) :: 4 word) = bits_at k r"
  "(ucast (drop_bit k r AND 2047) :: 11 word) = bits_at k r"
  "(ucast (drop_bit k r AND 16383) :: 13 word) = bits_at k r"
  using bits_at_and_mask [of 1 k r, where 'b = 1] bits_at_and_mask [of 2 k r, where 'b = 2]
    bits_at_and_mask [of 3 k r, where 'b = 3] bits_at_and_mask [of 4 k r, where 'b = 4]
    bits_at_and_mask [of 11 k r, where 'b = 11] bits_at_and_mask [of 14 k r, where 'b = 13]
  by (simp_all add: mask_eq_exp_minus_1)

lemma convert_eq_at_bit:
  "convert_adts_header2int64 f v =
    at_bit (number_of_raw_data_blocks_in_frame v) (at_bit (adts_buffer_fullness v) (at_bit (aac_frame_length v)
    (at_bit (copyright_identification_start v) (at_bit (copyright_identification_bit v)
    (at_bit (home f) (at_bit (original_copy f) (at_bit (channel_configuration f) (at_bit (private_bit f)
    (at_bit (sampling_frequency_index f) (at_bit (profile f) (at_bit (protection_absent f) (at_bit (layer f)
    (at_bit (adts_id f) (ucast (syncword f)))))))))))))))"
  unfolding convert_adts_header2int64_def at_bit_def Let_def powers and_masks
  by simp

text \<open>The seven bytes hold the low 56 bits.\<close>

lemma join_7_bytes:
  "adts_bytes [ucast (drop_bit 48 w AND 0xff), ucast (drop_bit 40 w AND 0xff), ucast (drop_bit 32 w AND 0xff),
     ucast (drop_bit 24 w AND 0xff), ucast (drop_bit 16 w AND 0xff), ucast (drop_bit 8 w AND 0xff),
     ucast (w AND 0xff)] = Some (take_bit 56 w)"
proof -
  let ?b = "\<lambda>k. ucast (drop_bit k w) :: u8"
  have join: "push_bit 8 (push_bit 8 (push_bit 8 (push_bit 8 (push_bit 8 (push_bit 8 (0 OR ucast (?b 48)) OR ucast (?b 40))
      OR ucast (?b 32)) OR ucast (?b 24)) OR ucast (?b 16)) OR ucast (?b 8)) OR ucast (?b 0) = take_bit 56 w"
    (is "?l = _")
  proof (rule bit_word_eqI)
    fix n
    assume "n < LENGTH(64)"
    then consider "n < 8" | "8 \<le> n" "n < 16" | "16 \<le> n" "n < 24" | "24 \<le> n" "n < 32"
      | "32 \<le> n" "n < 40" | "40 \<le> n" "n < 48" | "48 \<le> n" "n < 56" | "56 \<le> n" "n < 64"
      by fastforce
    then show "bit ?l n \<longleftrightarrow> bit (take_bit 56 w) n"
      by cases (auto simp: bit_simps)
  qed
  show ?thesis
    using join by (simp add: adts_bytes_def load_def byte_of_mask Let_def numeral_eq_Suc del: push_bit_or)
qed

lemma bits_at_take_bit:
  "k + LENGTH('b::len) \<le> 56 \<Longrightarrow> (bits_at k (take_bit 56 r) :: 'b word) = bits_at k r"
  unfolding bits_at_def by (rule bit_word_eqI) (auto simp: bit_simps)

lemma adts_bytes_convert:
  "adts_bytes (convert_adts_header2char f v) = Some (take_bit 56 (convert_adts_header2int64 f v))"
  by (simp only: convert_adts_header2char_def Let_def join_7_bytes)

lemma bits_at_ucast: "LENGTH('a::len) \<le> 64 \<Longrightarrow> bits_at 0 (ucast (x :: 'a word)) = x"
  unfolding bits_at_def by (rule bit_word_eqI) (auto simp: bit_simps)

lemma get_fixed_convert: "get_fixed_header (convert_adts_header2char f v) = Some f"
proof -
  have 44: "ucast (drop_bit 44 r) = (bits_at 44 r :: 12 word)" for r by (simp add: bits_at_def)
  show ?thesis
    unfolding get_fixed_header_def adts_bytes_convert 44 bits_at_masks Option.bind.bind_lunit convert_eq_at_bit
    by (simp add: bits_at_take_bit bits_at_skip bits_at_at_bit bits_at_ucast)
qed

lemma get_variable_convert: "get_variable_header (convert_adts_header2char f v) = Some v"
proof -
  have 0: "ucast (r AND 3) = (bits_at 0 r :: 2 word)" for r
    using bits_at_masks(2) [of 0 r] by simp
  show ?thesis
    unfolding get_variable_header_def adts_bytes_convert powers 0 bits_at_masks Option.bind.bind_lunit convert_eq_at_bit
    by (simp add: bits_at_take_bit bits_at_skip bits_at_at_bit)
qed

text \<open>C29. A header that \<open>convert_adts_header2char\<close> writes is parsed back by \<open>get_fixed_header\<close> and
  \<open>get_variable_header\<close>, every field of both parts; in particular the frame length that
  \<open>set_variable_header\<close> computes comes back as the raw length plus the seven header bytes, modulo
  the 13 bits of its field.\<close>

theorem adts_header_roundtrip:
  "get_fixed_header (convert_adts_header2char f v) = Some f
   \<and> get_variable_header (convert_adts_header2char f v) = Some v
   \<and> length (convert_adts_header2char f v) = 7
   \<and> map_option (unat \<circ> aac_frame_length)
       (get_variable_header (convert_adts_header2char f (set_variable_header n))) = Some ((unat n + 7) mod 2 ^ 13)"
proof -
  have "unat (ucast (n + 7) :: 13 word) = (unat n + 7) mod 2 ^ 13"
    by (simp add: unsigned_ucast_eq take_bit_eq_mod unat_word_ariths mod_mod_cancel)
  then show ?thesis
    by (simp add: get_fixed_convert get_variable_convert set_variable_header_def)
      (simp add: convert_adts_header2char_def Let_def)
qed

end
