(* ===== verification/Ping.thy ===== *)
theory Ping
  imports Prelude "HOL-Library.Monad_Syntax"
begin

text \<open>
  The ICMP echo client of linux_net/ping: the Internet checksum (ping_api.c and its twin in
  bsdping.c), the time difference, the echo request that \<open>send_v4\<close> builds in \<open>ping_sendbuf\<close> and the
  packet processing of \<open>proc_v4\<close>. Memory is bytes; a wider access is little-endian, the byte order
  of the hosts the program is built for, and a \<open>struct timeval\<close> is two 64-bit integers. The system
  calls are parameters: the clock is the two integers that \<open>gettimeofday\<close> stores.
\<close>

section \<open>The checksum\<close>

definition load16 :: "u8 list \<Rightarrow> nat \<Rightarrow> u16 option" where
  "load16 m i = do { lo \<leftarrow> load m i; hi \<leftarrow> load m (i + 1); Some (ucast lo OR push_bit 8 (ucast hi)) }"

definition le16 :: "u16 \<Rightarrow> u8 list" where
  "le16 w = [ucast w, ucast (drop_bit 8 w)]"

definition store16 :: "u8 list \<Rightarrow> nat \<Rightarrow> u16 \<Rightarrow> u8 list option" where
  "store16 m i w = store_list m i (le16 w)"

text \<open>The loop over 16-bit words; \<open>nleft\<close> is an \<open>int\<close>, the sum wraps around at 32 bits.\<close>

function cksum_loop :: "u8 list \<Rightarrow> nat \<Rightarrow> int \<Rightarrow> u32 \<Rightarrow> (nat \<times> int \<times> u32) option" where
  "cksum_loop m w nleft acc =
    (if nleft > 1 then (case load16 m w of
        None \<Rightarrow> None
      | Some x \<Rightarrow> cksum_loop m (w + 2) (nleft - 2) (acc + ucast x))
     else Some (w, nleft, acc))"
  by pat_completeness auto
termination by (relation "measure (\<lambda>(m, w, nleft, acc). nat nleft)") auto

declare cksum_loop.simps [simp del]

definition odd_byte :: "u8 list \<Rightarrow> nat \<times> int \<times> u32 \<Rightarrow> u32 option" where
  "odd_byte m = (\<lambda>(w, nleft, acc).
     if nleft = 1 then map_option (\<lambda>b. acc + ucast b) (load m w) else Some acc)"

definition fold_carries :: "u32 \<Rightarrow> u16" where
  "fold_carries acc =
    (let acc = drop_bit 16 acc + (acc AND 0xffff);
         acc = acc + drop_bit 16 acc
     in ucast (NOT acc))"

definition in_cksum :: "u8 list \<Rightarrow> nat \<Rightarrow> int \<Rightarrow> u16 option" where
  "in_cksum m addr len = do {
     r \<leftarrow> cksum_loop m addr len 0;
     acc \<leftarrow> odd_byte m r;
     Some (fold_carries acc)
   }"

section \<open>Times\<close>

type_synonym timeval = "u64 \<times> u64"

text \<open>Seconds and microseconds, both signed; the second time is subtracted from the first.\<close>

definition tv_sub :: "timeval \<Rightarrow> timeval \<Rightarrow> timeval" where
  "tv_sub out_tv in_tv =
    (let sec = fst out_tv;
         usec = snd out_tv - snd in_tv;
         (sec, usec) = (if usec <s 0 then (sec - 1, usec + 1000000) else (sec, usec))
     in (sec - fst in_tv, usec))"

fun le_bytes :: "nat \<Rightarrow> u64 \<Rightarrow> u8 list" where
  "le_bytes 0 w = []"
| "le_bytes (Suc n) w = ucast w # le_bytes n (drop_bit 8 w)"

fun le_value :: "u8 list \<Rightarrow> u64" where
  "le_value [] = 0"
| "le_value (b # bs) = ucast b OR push_bit 8 (le_value bs)"

definition timeval_bytes :: "timeval \<Rightarrow> u8 list" where
  "timeval_bytes tv = le_bytes 8 (fst tv) @ le_bytes 8 (snd tv)"

definition load_timeval :: "u8 list \<Rightarrow> nat \<Rightarrow> timeval option" where
  "load_timeval m i = do {
     s \<leftarrow> load_list m i 8;
     us \<leftarrow> load_list m (i + 8) 8;
     Some (le_value s, le_value us)
   }"

section \<open>The echo request\<close>

record ping_globals =
  ping_sendbuf :: "u8 list"
  datalen :: nat
  nsent :: u32
  pid :: u32
  verbose :: bool

definition BUFSIZE :: nat where "BUFSIZE = 1500"
definition ICMP_ECHO :: u8 where "ICMP_ECHO = 8"
definition ICMP_ECHOREPLY :: u8 where "ICMP_ECHOREPLY = 0"
definition IPPROTO_ICMP :: u8 where "IPPROTO_ICMP = 1"

text \<open>The result holds the bytes passed to \<open>sendto\<close>; \<open>now\<close> is what the clock stores.\<close>

definition send_v4 :: "ping_globals \<Rightarrow> timeval \<Rightarrow> (ping_globals \<times> u8 list) option" where
  "send_v4 g now = do {
     let icmp = ping_sendbuf g;
     icmp \<leftarrow> store icmp 0 ICMP_ECHO;
     icmp \<leftarrow> store icmp 1 0;
     icmp \<leftarrow> store16 icmp 4 (ucast (pid g));
     icmp \<leftarrow> store16 icmp 6 (ucast (nsent g));
     icmp \<leftarrow> store_list icmp 8 (replicate (datalen g) 0xa5);
     icmp \<leftarrow> store_list icmp 8 (timeval_bytes now);
     let len = 8 + datalen g;
     icmp \<leftarrow> store16 icmp 2 0;
     ck \<leftarrow> in_cksum icmp 0 (int len);
     icmp \<leftarrow> store16 icmp 2 ck;
     out \<leftarrow> load_list icmp 0 len;
     Some (g\<lparr>ping_sendbuf := icmp, nsent := nsent g + 1\<rparr>, out)
   }"

section \<open>The answer\<close>

text \<open>What \<open>proc_v4\<close> reports: nothing, an answer to a request of ours with its sequence number,
  time to live and travel time, or (verbose) another ICMP packet.\<close>

datatype ping_report =
    Silent
  | EchoReply int u16 u8 timeval
  | OtherIcmp int u8 u8

definition proc_v4 :: "ping_globals \<Rightarrow> u8 list \<Rightarrow> int \<Rightarrow> timeval \<Rightarrow> ping_report option" where
  "proc_v4 g ptr len tvrecv = do {
     vhl \<leftarrow> load ptr 0;
     let hlen1 = unat (vhl AND 0x0f) * 4;
     ip_p \<leftarrow> load ptr 9;
     if ip_p \<noteq> IPPROTO_ICMP then Some Silent
     else do {
       let icmplen = len - int hlen1;
       if icmplen < 8 then Some Silent
       else do {
         icmp_type \<leftarrow> load ptr hlen1;
         if icmp_type = ICMP_ECHOREPLY then do {
           icmp_id \<leftarrow> load16 ptr (hlen1 + 4);
           if ucast icmp_id \<noteq> pid g then Some Silent
           else if icmplen < 16 then Some Silent
           else do {
             tvsend \<leftarrow> load_timeval ptr (hlen1 + 8);
             let tv = tv_sub tvrecv tvsend;
             icmp_seq \<leftarrow> load16 ptr (hlen1 + 6);
             ip_ttl \<leftarrow> load ptr 8;
             Some (EchoReply icmplen icmp_seq ip_ttl tv)
           }
         }
         else if verbose g then do {
           icmp_code \<leftarrow> load ptr (hlen1 + 1);
           Some (OtherIcmp icmplen icmp_type icmp_code)
         }
         else Some Silent
       }
     }
   }"

section \<open>The checksum as a sum modulo 65535\<close>

text \<open>The sum of a byte string as little-endian 16-bit words, an odd last byte as a word of its own.\<close>

fun word_sum :: "u8 list \<Rightarrow> nat" where
  "word_sum (a # b # bs) = unat a + 256 * unat b + word_sum bs"
| "word_sum [a] = unat a"
| "word_sum [] = 0"

lemma word_sum_bound: "word_sum bs \<le> 65535 * ((length bs + 1) div 2)"
proof (induction bs rule: word_sum.induct)
  case (1 a b bs)
  then show ?case using unat_u8_less [of a] unat_u8_less [of b] by (simp del: unat_u8_less)
next
  case (2 a)
  then show ?case using unat_u8_less [of a] by (simp del: unat_u8_less)
qed simp

lemma word_sum_append:
  "even (length xs) \<Longrightarrow> word_sum (xs @ ys) = word_sum xs + word_sum ys"
  by (induction xs rule: word_sum.induct) auto

lemma join16_unat: "unat (ucast (a :: u8) OR push_bit 8 (ucast (b :: u8)) :: u16) = unat a + 256 * unat b"
proof -
  have "ucast a OR push_bit 8 (ucast b) = (ucast a + push_bit 8 (ucast b) :: u16)"
    by (rule disjunctive_add [symmetric]) (auto simp: bit_simps dest: bit_imp_le_length)
  moreover have "unat (ucast a :: u16) = unat a" "unat (ucast b :: u16) = unat b"
    by (rule unat_ucast_small, rule order_less_trans [OF unat_u8_less], simp)+
  ultimately show ?thesis
    using unat_u8_less [of a] unat_u8_less [of b]
    by (simp add: push_bit_eq_mult unat_word_ariths take_bit_eq_mod del: unat_u8_less)
qed

lemma load16_Some: "i + 1 < length m \<Longrightarrow>
  load16 m i = Some (ucast (m ! i) OR push_bit 8 (ucast (m ! (i + 1))))"
  by (simp add: load16_def load_Some)

lemma le16_value: "word_sum (le16 w) = unat w"
proof -
  have "ucast (ucast w :: u8) OR push_bit 8 (ucast (ucast (drop_bit 8 w) :: u8)) = w"
    using join_bytes16 [of w] by (simp only: or.commute)
  then show ?thesis
    using join16_unat [of "ucast w" "ucast (drop_bit 8 w)"] by (simp add: le16_def)
qed

lemma cksum_loop_sum:
  "w + n \<le> length m \<Longrightarrow>
   Option.bind (cksum_loop m w (int n) acc) (odd_byte m) = Some (acc + of_nat (word_sum (take n (drop w m))))"
proof (induction n arbitrary: w acc rule: less_induct)
  case (less n)
  consider "n = 0" | "n = 1" | k where "n = k + 2" by (metis One_nat_def add_2_eq_Suc' less_2_cases not_less_eq not0_implies_Suc)
  then show ?case
  proof cases
    case 1
    then show ?thesis by (simp add: cksum_loop.simps odd_byte_def)
  next
    case 2
    then have "take n (drop w m) = [m ! w]"
      using less.prems by (simp add: take_Suc_conv_app_nth)
    then show ?thesis
      using 2 less.prems by (simp add: cksum_loop.simps odd_byte_def load_Some unsigned_ucast_eq of_nat_unat)
  next
    case 3
    let ?x = "ucast (m ! w) OR push_bit 8 (ucast (m ! (w + 1))) :: u16"
    have t: "take n (drop w m) = m ! w # m ! (w + 1) # take k (drop (w + 2) m)"
      using 3 less.prems by (simp add: Cons_nth_drop_Suc [symmetric] take_Cons')
    have x: "(ucast ?x :: u32) = of_nat (unat (m ! w) + 256 * unat (m ! (w + 1)))"
      by (simp only: join16_unat [symmetric]) simp
    have "cksum_loop m w (int n) acc = cksum_loop m (w + 2) (int k) (acc + ucast ?x)"
      using 3 less.prems by (subst cksum_loop.simps) (simp add: load16_Some)
    then show ?thesis
      using less.IH [of k "w + 2" "acc + ucast ?x"] 3 less.prems
      unfolding t word_sum.simps x by (simp add: algebra_simps)
  qed
qed

lemma in_cksum_eq:
  assumes "addr + n \<le> length m"
  shows "in_cksum m addr (int n) = Some (fold_carries (of_nat (word_sum (take n (drop addr m)))))"
proof -
  have "in_cksum m addr (int n) =
      Option.bind (Option.bind (cksum_loop m addr (int n) 0) (odd_byte m)) (\<lambda>acc. Some (fold_carries acc))"
    by (simp add: in_cksum_def)
  then show ?thesis using cksum_loop_sum [OF assms, of 0] by simp
qed

text \<open>Folding computes the one's complement of the representative in \<open>{1..65535}\<close> of a positive sum.\<close>

definition ones_rep :: "nat \<Rightarrow> nat" where
  "ones_rep n = (if n = 0 then 0 else (n - 1) mod 65535 + 1)"

lemma ones_rep_fold:
  assumes "n < 2 ^ 32" "s = n div 65536 + n mod 65536"
  shows "(s + s div 65536) mod 65536 = ones_rep n" "s + s div 65536 < 2 ^ 32"
proof -
  have q: "n div 65536 \<le> 65535" using assms(1) by simp
  have r: "n mod 65536 \<le> 65535" by (simp add: less_Suc_eq_le [symmetric])
  have n: "n = 65535 * (n div 65536) + s" using assms(2) div_mult_mod_eq [of n 65536] by linarith
  have "s \<le> 131070" using q r assms(2) by linarith
  moreover have "s div 65536 \<le> s" by (rule div_le_dividend)
  ultimately show "s + s div 65536 < 2 ^ 32" by simp
  consider "s = 0" | "0 < s" "s < 65536" | "65536 \<le> s" "s \<le> 131070"
    using q r assms(2) by linarith
  then show "(s + s div 65536) mod 65536 = ones_rep n"
  proof cases
    case 1
    then have "n = 0" using n assms(2) by linarith
    then show ?thesis using 1 by (simp add: ones_rep_def)
  next
    case 2
    then have "(n - 1) mod 65535 = (65535 * (n div 65536) + (s - 1)) mod 65535"
      using n by (metis Nat.add_diff_assoc One_nat_def Suc_leI)
    also have "\<dots> = (s - 1) mod 65535" by (rule mod_mult_self4)
    also have "\<dots> = s - 1" using 2 by (intro mod_less) linarith
    finally have "(n - 1) mod 65535 = s - 1" .
    moreover have "0 < n" using 2 n by linarith
    ultimately show ?thesis using 2 by (simp add: ones_rep_def)
  next
    case 3
    then have "n - 1 = 65535 * (n div 65536 + 1) + (s - 65536)"
      using n by simp
    then have "(n - 1) mod 65535 = (s - 65536) mod 65535" by (metis mod_mult_self4)
    also have "\<dots> = s - 65536" using 3 by simp
    finally have "(n - 1) mod 65535 = s - 65536" .
    moreover have "0 < n" using 3 n by linarith
    moreover have "s div 65536 = 1" using 3 by auto
    moreover have "(s + 1) mod 65536 = s + 1 - 65536" using 3 by (simp add: mod_if)
    ultimately show ?thesis using 3 by (simp add: ones_rep_def)
  qed
qed

lemma ucast_not_of_nat: "(ucast (NOT (of_nat k :: u32)) :: u16) = NOT (of_nat k)"
  by (rule bit_word_eqI) (simp add: bit_simps bit_of_nat_iff)

lemma unat_not: "unat (NOT (w :: u16)) = 65535 - unat w"
proof -
  have "NOT w = - 1 - w" by (simp add: not_eq_complement)
  moreover have "unat (- 1 - w :: u16) = unat (- 1 :: u16) - unat w"
    by (rule unat_sub) (rule word_order.extremum)
  ultimately show ?thesis by (simp add: unsigned_minus_1_eq_mask mask_eq_exp_minus_1)
qed

lemma fold_carries_value:
  assumes "n < 2 ^ 32"
  shows "unat (fold_carries (of_nat n)) = 65535 - ones_rep n"
proof -
  define s where "s = n div 65536 + n mod 65536"
  have q: "n div 65536 \<le> 65535" using assms by simp
  have r: "n mod 65536 \<le> 65535" by (simp add: less_Suc_eq_le [symmetric])
  have s: "s < 2 ^ 32" using q r by (simp add: s_def)
  have u: "unat (of_nat n :: u32) = n" using assms by (simp add: unsigned_of_nat take_bit_nat_eq_self)
  have "drop_bit 16 (of_nat n :: u32) + (of_nat n AND 0xffff) = of_nat s"
  proof (rule word_unat_eq_iff [THEN iffD2])
    have "unat (drop_bit 16 (of_nat n :: u32)) = n div 65536"
      using u by (simp add: unat_div drop_bit_eq_div)
    moreover have "unat ((of_nat n :: u32) AND 0xffff) = n mod 65536"
    proof -
      have "(0xffff :: u32) = mask 16" by (simp add: mask_eq_exp_minus_1)
      then have "(of_nat n :: u32) AND 0xffff = take_bit 16 (of_nat n)" by (simp only: take_bit_eq_mask)
      then show ?thesis using u by (simp add: unat_mod take_bit_eq_mod)
    qed
    ultimately show "unat (drop_bit 16 (of_nat n :: u32) + (of_nat n AND 0xffff)) = unat (of_nat s :: u32)"
      using s by (simp add: unat_word_ariths unsigned_of_nat take_bit_nat_eq_self take_bit_eq_mod s_def)
  qed
  moreover have "drop_bit 16 (of_nat s :: u32) = of_nat (s div 65536)"
  proof (rule word_unat_eq_iff [THEN iffD2])
    show "unat (drop_bit 16 (of_nat s :: u32)) = unat (of_nat (s div 65536) :: u32)"
      using s by (simp add: unat_div drop_bit_eq_div unsigned_of_nat take_bit_nat_eq_self)
  qed
  ultimately have "fold_carries (of_nat n) = ucast (NOT (of_nat (s + s div 65536) :: u32))"
    by (simp add: fold_carries_def Let_def)
  also have "\<dots> = NOT (of_nat (s + s div 65536) :: u16)"
    by (rule ucast_not_of_nat)
  also have "unat \<dots> = 65535 - (s + s div 65536) mod 65536"
    by (simp only: unat_not unsigned_of_nat take_bit_eq_mod) simp
  finally show ?thesis using ones_rep_fold(1) [OF assms s_def] by simp
qed

text \<open>A block whose even-aligned checksum field holds the checksum of the block with a zero field
  sums up to a multiple of 65535, so that its own checksum is zero.\<close>

lemma ones_rep_complement: "ones_rep (n + (65535 - ones_rep n)) = 65535"
proof (cases "n = 0")
  case True
  then show ?thesis by (simp add: ones_rep_def)
next
  case False
  define q r where "q = (n - 1) div 65535" and "r = (n - 1) mod 65535"
  have "n = 65535 * q + r + 1" "r < 65535"
    using False div_mult_mod_eq [of "n - 1" 65535] by (simp_all add: q_def r_def)
  moreover have "ones_rep n = r + 1" using False by (simp add: ones_rep_def r_def)
  ultimately have "n + (65535 - ones_rep n) = 65535 * q + 65534 + 1" by simp
  then show ?thesis by (simp add: ones_rep_def)
qed

lemma checksum_verifies:
  assumes z: "length hdr = 2 * k" and n: "n = length hdr + 2 + length body" "n \<le> 65536"
    and c: "in_cksum (hdr @ [0, 0] @ body @ rest) 0 (int n) = Some ck"
  shows "in_cksum (hdr @ le16 ck @ body @ rest) 0 (int n) = Some 0"
proof -
  have e: "even (length hdr)" using z by simp
  define t where "t = word_sum hdr + word_sum body"
  have sums: "word_sum (hdr @ [0, 0] @ body) = t" "word_sum (hdr @ le16 ck @ body) = t + unat ck"
    using e by (simp_all add: word_sum_append t_def le16_value [symmetric] del: append_Cons append_Nil)
      (simp_all add: le16_def)
  have "word_sum (hdr @ [0, 0] @ body) \<le> 65535 * ((length (hdr @ [0, 0] @ body) + 1) div 2)"
    by (rule word_sum_bound)
  also have "\<dots> \<le> 65535 * 32768"
    by (rule mult_le_mono2) (use n in auto)
  finally have t: "t < 2 ^ 31" unfolding sums by simp
  have ck: "ck = fold_carries (of_nat t)"
  proof -
    have "take n (drop 0 (hdr @ [0, 0] @ body @ rest)) = hdr @ [0, 0] @ body" using n by simp
    with c in_cksum_eq [of 0 n "hdr @ [0, 0] @ body @ rest"] show ?thesis
      using n sums(1) by (simp add: del: append_Cons)
  qed
  then have uck: "unat ck = 65535 - ones_rep t" using fold_carries_value [of t] t by simp
  have "take n (drop 0 (hdr @ le16 ck @ body @ rest)) = hdr @ le16 ck @ body"
    using n by (simp add: le16_def)
  then have "in_cksum (hdr @ le16 ck @ body @ rest) 0 (int n) = Some (fold_carries (of_nat (t + unat ck)))"
    using in_cksum_eq [of 0 n "hdr @ le16 ck @ body @ rest"] n sums(2) by (simp add: le16_def)
  moreover have "unat (fold_carries (of_nat (t + unat ck))) = 0"
  proof -
    have "t + unat ck < 2 ^ 32" using t uck by simp
    then have "unat (fold_carries (of_nat (t + unat ck))) = 65535 - ones_rep (t + unat ck)"
      by (rule fold_carries_value)
    then show ?thesis by (simp add: uck ones_rep_complement)
  qed
  ultimately show ?thesis by (simp only: unsigned_eq_0_iff)
qed

section \<open>Times as integers\<close>

definition tv_value :: "timeval \<Rightarrow> int" where
  "tv_value tv = sint (fst tv) * 1000000 + sint (snd tv)"

definition tv_normal :: "timeval \<Rightarrow> bool" where
  "tv_normal tv \<longleftrightarrow> 0 \<le> sint (fst tv) \<and> sint (fst tv) < 2 ^ 62 \<and> 0 \<le> sint (snd tv) \<and> sint (snd tv) < 1000000"

lemma sint_of_int_u64: "- (2 ^ 63) \<le> x \<Longrightarrow> x < 2 ^ 63 \<Longrightarrow> sint (of_int x :: u64) = x"
  by (simp add: signed_of_int signed_take_bit_int_eq_self)

lemma sint_minus_u64:
  fixes a b :: u64
  assumes "- (2 ^ 63) \<le> sint a - sint b" "sint a - sint b < 2 ^ 63"
  shows "sint (a - b) = sint a - sint b"
proof -
  have "a - b = of_int (sint a - sint b)" by simp
  then show ?thesis using sint_of_int_u64 [OF assms] by simp
qed

lemma sint_plus_u64:
  fixes a b :: u64
  assumes "- (2 ^ 63) \<le> sint a + sint b" "sint a + sint b < 2 ^ 63"
  shows "sint (a + b) = sint a + sint b"
proof -
  have "a + b = of_int (sint a + sint b)" by simp
  then show ?thesis using sint_of_int_u64 [OF assms] by simp
qed

lemma tv_sub_value:
  assumes "tv_normal a" "tv_normal b"
  shows "tv_value (tv_sub a b) = tv_value a - tv_value b"
    and "0 \<le> sint (snd (tv_sub a b))" "sint (snd (tv_sub a b)) < 1000000"
proof -
  note n = assms [unfolded tv_normal_def]
  have c: "sint (1 :: u64) = 1" "sint (1000000 :: u64) = 1000000"
    using sint_of_int_u64 [of 1] sint_of_int_u64 [of 1000000] by simp_all
  have u: "sint (snd a - snd b) = sint (snd a) - sint (snd b)"
    by (rule sint_minus_u64) (use n in auto)
  have s: "sint (fst a - fst b) = sint (fst a) - sint (fst b)"
    by (rule sint_minus_u64) (use n in auto)
  have s1: "sint (fst a - 1) = sint (fst a) - 1"
    using sint_minus_u64 [of "fst a" 1] n c by simp
  have s2: "sint (fst a - 1 - fst b) = sint (fst a) - 1 - sint (fst b)"
    by (subst sint_minus_u64) (use n s1 in auto)
  have u1: "sint (snd a - snd b + 1000000) = sint (snd a) - sint (snd b) + 1000000"
    by (subst sint_plus_u64) (use n c u in auto)
  have neg: "snd a - snd b <s 0 \<longleftrightarrow> sint (snd a) < sint (snd b)"
    by (simp add: word_sless_alt u)
  show "tv_value (tv_sub a b) = tv_value a - tv_value b"
    "0 \<le> sint (snd (tv_sub a b))" "sint (snd (tv_sub a b)) < 1000000"
    using n by (simp_all add: tv_sub_def Let_def neg tv_value_def s u u1 s2)
qed

lemma le_bytes_length [simp]: "length (le_bytes n w) = n"
  by (induction n arbitrary: w) auto

lemma le_value_bytes: "le_value (le_bytes n w) = take_bit (8 * n) w"
proof (induction n arbitrary: w)
  case 0
  then show ?case by simp
next
  case (Suc n)
  show ?case
    by (rule bit_word_eqI) (auto simp: Suc bit_simps)
qed

lemma timeval_bytes_length [simp]: "length (timeval_bytes tv) = 16"
  by (simp add: timeval_bytes_def)

lemma load_timeval_bytes:
  assumes "i = length pre"
  shows "load_timeval (pre @ timeval_bytes tv @ post) i = Some tv"
proof -
  have "le_value (le_bytes 8 w) = w" for w
    by (simp add: le_value_bytes take_bit_word_eq_self)
  then show ?thesis
    using assms by (simp add: load_timeval_def load_list_def timeval_bytes_def)
qed

section \<open>Requests and answers\<close>

text \<open>The request as a byte string.\<close>

definition echo_packet :: "u8 \<Rightarrow> u16 \<Rightarrow> u32 \<Rightarrow> u32 \<Rightarrow> timeval \<Rightarrow> nat \<Rightarrow> u8 list" where
  "echo_packet ty ck i sq now n =
    [ty, 0] @ le16 ck @ le16 (ucast i) @ le16 (ucast sq) @ timeval_bytes now @ replicate (n - 16) 0xa5"

lemma echo_packet_length: "16 \<le> n \<Longrightarrow> length (echo_packet ty ck i sq now n) = 8 + n"
  by (simp add: echo_packet_def le16_def)

lemma store_list_shift:
  "store_list (xs @ ys) (length xs) bs = map_option ((@) xs) (store_list ys 0 bs)"
proof (cases "length bs \<le> length ys")
  case True
  then show ?thesis by (simp add: store_list_eq)
next
  case False
  then have "bs \<noteq> []" by auto
  with False show ?thesis by (simp add: store_list_None)
qed

lemma store_list_front: "length bs \<le> length ys \<Longrightarrow> store_list ys 0 bs = Some (bs @ drop (length bs) ys)"
  by (simp add: store_list_eq)

lemma load_list_front: "length xs = n \<Longrightarrow> load_list (xs @ ys) 0 n = Some xs"
  by (simp add: load_list_def)

lemma send_v4_packet:
  assumes len: "length (ping_sendbuf g) = BUFSIZE" and d: "16 \<le> datalen g" "datalen g \<le> BUFSIZE - 8"
  shows "\<exists>ck rest. in_cksum (echo_packet 8 0 (pid g) (nsent g) now (datalen g) @ rest) 0 (int (8 + datalen g)) = Some ck
    \<and> send_v4 g now = Some (g\<lparr>ping_sendbuf := echo_packet 8 ck (pid g) (nsent g) now (datalen g) @ rest,
         nsent := nsent g + 1\<rparr>, echo_packet 8 ck (pid g) (nsent g) now (datalen g))"
proof -
  have "8 \<le> length (ping_sendbuf g)" using len by (simp add: BUFSIZE_def)
  then obtain b0 b1 b2 b3 b4 b5 b6 b7 tl0 where b: "ping_sendbuf g = [b0, b1, b2, b3, b4, b5, b6, b7] @ tl0"
    by (auto simp: numeral_eq_Suc Suc_le_length_iff)
  have t0: "length tl0 = BUFSIZE - 8" using len b by simp
  let ?i = "ucast (pid g) :: u16" and ?s = "ucast (nsent g) :: u16"
  let ?h = "\<lambda>c. [8, 0] @ le16 c @ le16 ?i @ le16 ?s"
  let ?body = "timeval_bytes now @ replicate (datalen g - 16) 0xa5"
  let ?rest = "drop (datalen g) tl0"
  have p: "echo_packet 8 c (pid g) (nsent g) now (datalen g) = ?h c @ ?body" for c
    by (simp add: echo_packet_def)
  have e8: "store_list (h @ ys) 8 bs = map_option ((@) h) (store_list ys 0 bs)" if "length h = 8" for h ys and bs :: "u8 list"
    using store_list_shift [of h ys bs] that by simp
  have s1: "store_list tl0 0 (replicate (datalen g) 0xa5) = Some (replicate (datalen g) 0xa5 @ ?rest)"
    using t0 d by (simp add: store_list_front)
  have s2: "store_list (replicate (datalen g) 0xa5 @ ?rest) 0 (timeval_bytes now) = Some (?body @ ?rest)"
    using d by (simp add: store_list_front)
  let ?z = "[8, 0, b2, b3] @ le16 ?i @ le16 ?s"
  obtain ck where ck: "in_cksum (?h 0 @ ?body @ ?rest) 0 (int (8 + datalen g)) = Some ck"
    using in_cksum_eq [of 0 "8 + datalen g" "?h 0 @ ?body @ ?rest"] d t0 by (auto simp: le16_def)
  have st: "do { icmp \<leftarrow> store (ping_sendbuf g) 0 ICMP_ECHO;
     icmp \<leftarrow> store icmp 1 0;
     icmp \<leftarrow> store16 icmp 4 ?i;
     store16 icmp 6 ?s } = Some (?z @ tl0)"
    by (simp add: b store_def store16_def le16_def ICMP_ECHO_def)
  have st2: "do { icmp \<leftarrow> store_list (?z @ tl0) 8 (replicate (datalen g) 0xa5);
     store_list icmp 8 (timeval_bytes now) } = Some (?z @ ?body @ ?rest)"
  proof -
    have z: "length ?z = 8" by (simp add: le16_def)
    show ?thesis by (simp only: e8 [OF z] s1 s2 option.map Option.bind.simps)
  qed
  have st3: "store16 (?z @ ?body @ ?rest) 2 0 = Some (?h 0 @ ?body @ ?rest)"
    "store16 (?h 0 @ ?body @ ?rest) 2 ck = Some (?h ck @ ?body @ ?rest)"
    by (simp_all add: store16_def store_def le16_def)
  have ld: "load_list (?h ck @ ?body @ ?rest) 0 (8 + datalen g) = Some (?h ck @ ?body)"
    using load_list_front [of "?h ck @ ?body" "8 + datalen g" ?rest] d
    by (simp add: le16_def)
  have "send_v4 g now = Some (g\<lparr>ping_sendbuf := ?h ck @ ?body @ ?rest, nsent := nsent g + 1\<rparr>, ?h ck @ ?body)"
    using st st2 st3 ck ld unfolding send_v4_def Let_def by (simp add: bind_eq_Some_conv del: append_Cons) blast
  with ck show ?thesis unfolding p by (intro exI [of _ ck] exI [of _ ?rest]) simp
qed

lemma store_list_length: "store_list m i bs = Some m' \<Longrightarrow> length m' = length m"
  by (induction bs arbitrary: m i) (auto simp: bind_eq_Some_conv dest: store_length)

lemma send_v4_length: "send_v4 g now = Some (g', out) \<Longrightarrow> length (ping_sendbuf g') = length (ping_sendbuf g)"
  by (auto simp: send_v4_def Let_def bind_eq_Some_conv store16_def dest!: store_length store_list_length)

lemma echo_packet_verifies:
  assumes "16 \<le> n" "n \<le> BUFSIZE - 8"
    and "in_cksum (echo_packet ty 0 i sq now n @ rest) 0 (int (8 + n)) = Some ck"
  shows "in_cksum (echo_packet ty ck i sq now n) 0 (int (8 + n)) = Some 0"
proof -
  let ?b = "le16 (ucast i) @ le16 (ucast sq) @ timeval_bytes now @ replicate (n - 16) 0xa5"
  have "in_cksum ([ty, 0] @ le16 ck @ ?b @ []) 0 (int (8 + n)) = Some 0"
  proof (rule checksum_verifies [where k = 1 and rest = "[]"])
    have "take (8 + n) (echo_packet ty 0 i sq now n @ rest) = echo_packet ty 0 i sq now n"
      using assms(1) by (simp add: echo_packet_length)
    then show "in_cksum ([ty, 0] @ [0, 0] @ ?b @ []) 0 (int (8 + n)) = Some ck"
      using assms in_cksum_eq [of 0 "8 + n" "echo_packet ty 0 i sq now n @ rest"]
        in_cksum_eq [of 0 "8 + n" "echo_packet ty 0 i sq now n"]
      by (simp add: echo_packet_length) (simp add: echo_packet_def le16_def)
  qed (use assms in \<open>simp_all add: le16_def BUFSIZE_def\<close>)
  then show ?thesis by (simp add: echo_packet_def)
qed

text \<open>C30. The echo request that \<open>send_v4\<close> passes to \<open>sendto\<close> for any process, sequence number and time
  is an ICMP echo of \<open>8 + datalen\<close> bytes whose own Internet checksum is zero, so that the receiver
  accepts it; the sequence counter advances by one.\<close>

theorem send_v4_verifies:
  assumes "length (ping_sendbuf g) = BUFSIZE" "16 \<le> datalen g" "datalen g \<le> BUFSIZE - 8"
  shows "\<exists>g' ck. send_v4 g now = Some (g', echo_packet ICMP_ECHO ck (pid g) (nsent g) now (datalen g)) \<and>
    nsent g' = nsent g + 1 \<and> length (ping_sendbuf g') = BUFSIZE \<and>
    in_cksum (echo_packet ICMP_ECHO ck (pid g) (nsent g) now (datalen g)) 0 (int (8 + datalen g)) = Some 0"
proof -
  obtain ck rest where c: "in_cksum (echo_packet 8 0 (pid g) (nsent g) now (datalen g) @ rest) 0 (int (8 + datalen g)) = Some ck"
    and s: "send_v4 g now = Some (g\<lparr>ping_sendbuf := echo_packet 8 ck (pid g) (nsent g) now (datalen g) @ rest,
         nsent := nsent g + 1\<rparr>, echo_packet 8 ck (pid g) (nsent g) now (datalen g))"
    using send_v4_packet [OF assms] by blast
  have "length (echo_packet 8 ck (pid g) (nsent g) now (datalen g) @ rest) = BUFSIZE"
    using send_v4_length [OF s] assms(1) by simp
  then show ?thesis
    using s echo_packet_verifies [OF assms(2,3) c] unfolding ICMP_ECHO_def
    by (intro exI [of _ "g\<lparr>ping_sendbuf := echo_packet 8 ck (pid g) (nsent g) now (datalen g) @ rest,
         nsent := nsent g + 1\<rparr>"] exI [of _ ck]) simp
qed

lemma send_v4_verifies_witness:
  "let g = \<lparr>ping_sendbuf = replicate 1500 0, datalen = 56, nsent = 3, pid = 4711, verbose = False\<rparr>
   in \<exists>g' ck. send_v4 g (7, 9) = Some (g', echo_packet ICMP_ECHO ck 4711 3 (7, 9) 56) \<and>
     nsent g' = 4 \<and> length (ping_sendbuf g') = BUFSIZE \<and>
     in_cksum (echo_packet ICMP_ECHO ck 4711 3 (7, 9) 56) 0 64 = Some 0"
  using send_v4_verifies [of "\<lparr>ping_sendbuf = replicate 1500 0, datalen = 56, nsent = 3, pid = 4711, verbose = False\<rparr>" "(7, 9)"]
  by (simp add: BUFSIZE_def)

section \<open>Processing answers\<close>

lemma load_shift: "load (xs @ ys) (length xs + k) = load ys k"
  by (simp add: load_def)

lemma load16_shift: "load16 (xs @ ys) (length xs + k) = load16 ys k"
  by (simp only: load16_def load_shift add.assoc)

lemma load_in: "i < length m \<Longrightarrow> \<exists>x. load m i = Some x"
  by (simp add: load_Some)

lemma load_timeval_in: "i + 16 \<le> length m \<Longrightarrow> load_timeval m i = Some (le_value (take 8 (drop i m)), le_value (take 8 (drop (i + 8) m)))"
  by (simp add: load_timeval_def load_list_Some)

lemma header_length_bound: "unat (v AND 0x0f :: u8) \<le> 15"
proof -
  have "v AND 0x0f = take_bit 4 v" by (simp add: take_bit_eq_mask mask_eq_exp_minus_1)
  then have "unat (v AND 0x0f) = unat v mod 16" by (simp add: take_bit_eq_mod unat_mod)
  then show ?thesis by simp
qed

lemma proc_v4_in_bounds:
  assumes "length ptr = BUFSIZE"
  shows "\<exists>r. proc_v4 g ptr len tvrecv = Some r"
proof -
  define h where "h = unat (ptr ! 0 AND 0x0f) * 4"
  have "h \<le> 60" using header_length_bound [of "ptr ! 0"] by (simp add: h_def)
  then have "\<exists>x. load ptr h = Some x" "\<exists>x. load ptr (h + 1) = Some x"
    "\<exists>x. load16 ptr (h + 4) = Some x" "\<exists>x. load16 ptr (h + 6) = Some x"
    "\<exists>x. load_timeval ptr (h + 8) = Some x" "\<exists>x. load ptr 9 = Some x" "\<exists>x. load ptr 8 = Some x"
    "load ptr 0 = Some (ptr ! 0)"
    using assms by (simp_all add: BUFSIZE_def load_Some load16_Some load_timeval_in)
  then show ?thesis
    unfolding proc_v4_def by (auto simp: Let_def h_def [symmetric] simp del: of_nat_mult)
qed

text \<open>C31. An answer to a request of this process is reported with the sequence number of the request,
  the time to live of the IP header, whatever its length, and the exact time since the request was
  sent; no byte outside the 1500-byte receive buffer is read.\<close>

theorem echo_reply_reported:
  assumes "length (ip @ echo_packet ICMP_ECHOREPLY ck (pid g) sq now n @ stale) = BUFSIZE"
    and "length ip = 4 * unat (ip ! 0 AND 0x0f)" "5 \<le> unat (ip ! 0 AND 0x0f)" "ip ! 9 = IPPROTO_ICMP"
    and "16 \<le> n" "unat (pid g) < 65536" "tv_normal now" "tv_normal tvrecv"
  shows "\<exists>tv. proc_v4 g (ip @ echo_packet ICMP_ECHOREPLY ck (pid g) sq now n @ stale) (int (length ip + 8 + n)) tvrecv
      = Some (EchoReply (int (8 + n)) (ucast sq) (ip ! 8) tv)
    \<and> tv_value tv = tv_value tvrecv - tv_value now"
proof -
  let ?p = "[ICMP_ECHOREPLY, 0] @ le16 ck @ le16 (ucast (pid g)) @ le16 (ucast sq)"
  let ?m = "ip @ echo_packet ICMP_ECHOREPLY ck (pid g) sq now n @ stale"
  have m: "?m = (ip @ ?p) @ timeval_bytes now @ replicate (n - 16) 0xa5 @ stale"
    by (simp add: echo_packet_def)
  have l: "20 \<le> length ip" using assms(2,3) by linarith
  have tv: "load_timeval ?m (length ip + 8) = Some now"
    unfolding m by (rule load_timeval_bytes) (simp add: le16_def)
  have hd: "load ?m 0 = Some (ip ! 0)" "load ?m 8 = Some (ip ! 8)" "load ?m 9 = Some (ip ! 9)"
    using l by (auto simp: load_def nth_append)
  have icmp: "load ?m (length ip) = Some ICMP_ECHOREPLY"
    "load16 ?m (length ip + 4) = Some (ucast (pid g))" "load16 ?m (length ip + 6) = Some (ucast sq)"
    by (simp_all only: load_shift load16_shift load_shift [where k = 0, simplified])
      (simp_all add: echo_packet_def load16_def load_def le16_def join_bytes16 or.commute [of "ucast _" "push_bit 8 _"])
  have pid: "ucast (ucast (pid g) :: u16) = pid g"
    using assms(6) by (intro ucast_ucast_small) simp
  have "proc_v4 g ?m (int (length ip + 8 + n)) tvrecv = Some (EchoReply (int (8 + n)) (ucast sq) (ip ! 8) (tv_sub tvrecv now))"
    using assms(2,4,5) l hd icmp tv pid by (simp add: proc_v4_def Let_def mult.commute)
  then show ?thesis using tv_sub_value(1) [OF assms(8,7)] by blast
qed

lemma echo_reply_reported_witness:
  "let g = \<lparr>ping_sendbuf = [], datalen = 56, nsent = 4, pid = 4711, verbose = False\<rparr>;
       ip = [0x45, 0, 0, 84, 0, 0, 0, 0, 64, 1] @ replicate 10 0
   in \<exists>tv. proc_v4 g (ip @ echo_packet ICMP_ECHOREPLY 0 4711 3 (7, 9) 56 @ replicate 1416 0) 84 (8, 5)
        = Some (EchoReply 64 3 64 tv) \<and> tv_value tv = 999996"
proof -
  have n: "tv_normal (7, 9)" "tv_normal (8, 5)" "tv_value (8, 5) - tv_value (7, 9) = 999996"
    by (simp_all add: tv_normal_def tv_value_def)
  have i: "unat ((0x45 :: u8) AND 0x0f) = 5" by simp
  show ?thesis
    using echo_reply_reported [of "[0x45, 0, 0, 84, 0, 0, 0, 0, 64, 1] @ replicate 10 0" 0
        "\<lparr>ping_sendbuf = [], datalen = 56, nsent = 4, pid = 4711, verbose = False\<rparr>" 3 "(7, 9)" 56 "replicate 1416 0" "(8, 5)"] n
    by (simp add: BUFSIZE_def IPPROTO_ICMP_def echo_packet_length)
qed

end
