(* ===== verification/Mbuf.thy ===== *)
theory Mbuf
  imports Prelude "HOL-Library.Monad_Syntax"
begin

text \<open>
  The growing byte buffer of common_utils/mbuf.c. An mbuf is a value that carries its block: the
  address in \<open>buf\<close> (0 is the null pointer) and the bytes of the block. The allocator is a parameter:
  every call of \<open>realloc\<close> and \<open>malloc\<close> takes the next of a list of answers, an address with the
  uninitialised bytes of the new block, and every \<open>free\<close> is recorded. An operation is \<open>None\<close> when it
  leaves a block or converts a double beyond the range of \<open>size_t\<close>.
\<close>

section \<open>The allocator\<close>

type_synonym answer = "u64 \<times> (nat \<Rightarrow> u8)"

record alloc =
  pending :: "answer list"
  freed :: "u64 list"

definition next_answer :: "alloc \<Rightarrow> answer" where
  "next_answer al = (case pending al of [] \<Rightarrow> (0, \<lambda>_. 0) | x # _ \<Rightarrow> x)"

definition realloc :: "alloc \<Rightarrow> u8 list \<Rightarrow> u64 \<Rightarrow> alloc \<times> u64 \<times> u8 list" where
  "realloc al m n =
    (let (p, junk) = next_answer al;
         al = al\<lparr>pending := tl (pending al)\<rparr>
     in if n = 0 then (al, p, [])
        else if p = 0 then (al, 0, m)
        else (al, p, take (unat n) m @ map junk [length m..<unat n]))"

definition c_free :: "alloc \<Rightarrow> u64 \<Rightarrow> alloc" where
  "c_free al p = (if p = 0 then al else al\<lparr>freed := freed al @ [p]\<rparr>)"

section \<open>The buffer\<close>

record mbuf =
  mb_buf :: u64
  mb_mem :: "u8 list"
  mb_len :: u64
  mb_size :: u64

definition MBUF_SIZE_MAX_HEADROOM :: u64 where "MBUF_SIZE_MAX_HEADROOM = 1024"

definition mbuf_resize :: "alloc \<Rightarrow> mbuf \<Rightarrow> u64 \<Rightarrow> alloc \<times> mbuf" where
  "mbuf_resize al a new_size =
    (if new_size > mb_size a \<or> (new_size < mb_size a \<and> new_size \<ge> mb_len a)
     then (let (al, buf, m) = realloc al (mb_mem a) new_size
           in if buf = 0 \<and> new_size \<noteq> 0 then (al, a)
              else (al, a\<lparr>mb_buf := buf, mb_mem := m, mb_size := new_size\<rparr>))
     else (al, a))"

definition mbuf_zero :: mbuf where
  "mbuf_zero = \<lparr>mb_buf = 0, mb_mem = [], mb_len = 0, mb_size = 0\<rparr>"

definition mbuf_init :: "alloc \<Rightarrow> u64 \<Rightarrow> alloc \<times> mbuf" where
  "mbuf_init al initial_size = mbuf_resize al mbuf_zero initial_size"

definition mbuf_free :: "alloc \<Rightarrow> mbuf \<Rightarrow> alloc \<times> mbuf" where
  "mbuf_free al a = (if mb_buf a \<noteq> 0 then mbuf_init (c_free al (mb_buf a)) 0 else (al, a))"

definition mbuf_trim :: "alloc \<Rightarrow> mbuf \<Rightarrow> alloc \<times> mbuf" where
  "mbuf_trim al a = mbuf_resize al a (mb_len a)"

text \<open>\<open>memmove(a->buf + to, a->buf + from, n)\<close>; the second one is \<open>memcpy\<close> from the caller's bytes.\<close>

definition mem_move :: "u8 list \<Rightarrow> nat \<Rightarrow> nat \<Rightarrow> nat \<Rightarrow> u8 list option" where
  "mem_move m to from n = do { bs \<leftarrow> load_list m from n; store_list m to bs }"

definition mem_copy :: "u8 list \<Rightarrow> nat \<Rightarrow> u8 list option \<Rightarrow> nat \<Rightarrow> u8 list option" where
  "mem_copy m to src n = (case src of
      None \<Rightarrow> Some m
    | Some bs \<Rightarrow> do { bs \<leftarrow> load_list bs 0 n; store_list m to bs })"

text \<open>\<open>(size_t)(n * 1.5)\<close>: the conversion of \<open>n\<close> to double and the product are rounded to 53 bits,
  ties to even; three halves of a double is three times it with the exponent decreased. A value
  beyond \<open>size_t\<close> has no conversion.\<close>

fun bit_len :: "nat \<Rightarrow> nat" where
  "bit_len n = (if n = 0 then 0 else Suc (bit_len (n div 2)))"

declare bit_len.simps [simp del]

definition round53 :: "nat \<Rightarrow> nat" where
  "round53 n =
    (let k = bit_len n - 53; q = n div 2 ^ k; r = n mod 2 ^ k
     in if 2 * r > 2 ^ k \<or> (2 * r = 2 ^ k \<and> odd q) then (q + 1) * 2 ^ k else q * 2 ^ k)"

definition times_multiplier :: "u64 \<Rightarrow> u64 option" where
  "times_multiplier n =
    (let x = round53 (3 * round53 (unat n)) div 2
     in if x < 2 ^ 64 then Some (of_nat x) else None)"

definition mbuf_insert :: "alloc \<Rightarrow> mbuf \<Rightarrow> u64 \<Rightarrow> u8 list option \<Rightarrow> u64 \<Rightarrow> (alloc \<times> mbuf \<times> u64) option" where
  "mbuf_insert al a off buf len =
    (if mb_len a > mb_size a \<or> off > mb_len a then Some (al, a, 0)
     else if NOT 0 - mb_buf a < len then Some (al, a, 0)
     else if mb_len a + len \<le> mb_size a then do {
       m \<leftarrow> mem_move (mb_mem a) (unat off + unat len) (unat off) (unat (mb_len a - off));
       m \<leftarrow> mem_copy m (unat off) buf (unat len);
       Some (al, a\<lparr>mb_mem := m, mb_len := mb_len a + len\<rparr>, len)
     }
     else do {
       let min_size = mb_len a + len;
       new_size \<leftarrow> times_multiplier min_size;
       let new_size = (if new_size - min_size > MBUF_SIZE_MAX_HEADROOM
                       then min_size + MBUF_SIZE_MAX_HEADROOM else new_size);
       let (al, p, m) = realloc al (mb_mem a) new_size;
       let (al, p, m, new_size) =
         (if p = 0 \<and> new_size \<noteq> min_size
          then (case realloc al m min_size of (al, p, m) \<Rightarrow> (al, p, m, min_size))
          else (al, p, m, new_size));
       if p \<noteq> 0 then do {
         m \<leftarrow> (if off \<noteq> mb_len a
              then mem_move m (unat off + unat len) (unat off) (unat (mb_len a - off)) else Some m);
         m \<leftarrow> mem_copy m (unat off) buf (unat len);
         Some (al, a\<lparr>mb_buf := p, mb_mem := m, mb_len := mb_len a + len, mb_size := new_size\<rparr>, len)
       }
       else Some (al, a\<lparr>mb_mem := m\<rparr>, 0)
     })"

definition mbuf_append :: "alloc \<Rightarrow> mbuf \<Rightarrow> u8 list option \<Rightarrow> u64 \<Rightarrow> (alloc \<times> mbuf \<times> u64) option" where
  "mbuf_append al a buf len = mbuf_insert al a (mb_len a) buf len"

text \<open>The data of the caller is a block of its own: an address and its bytes.\<close>

definition mbuf_append_and_free :: "alloc \<Rightarrow> mbuf \<Rightarrow> u64 \<times> u8 list \<Rightarrow> u64 \<Rightarrow> (alloc \<times> mbuf \<times> u64) option" where
  "mbuf_append_and_free al a data len =
    (if mb_len a = 0
     then Some (c_free al (mb_buf a),
                a\<lparr>mb_buf := fst data, mb_mem := snd data, mb_len := len, mb_size := len\<rparr>, len)
     else do {
       (al, a, ret) \<leftarrow> mbuf_insert al a (mb_len a) (if fst data = 0 then None else Some (snd data)) len;
       Some (c_free al (fst data), a, ret)
     })"

definition mbuf_remove :: "mbuf \<Rightarrow> u64 \<Rightarrow> mbuf option" where
  "mbuf_remove mb n =
    (if n > 0 \<and> n \<le> mb_len mb
     then do {
       m \<leftarrow> mem_move (mb_mem mb) 0 (unat n) (unat (mb_len mb - n));
       Some (mb\<lparr>mb_mem := m, mb_len := mb_len mb - n\<rparr>)
     }
     else Some mb)"

definition mbuf_clear :: "mbuf \<Rightarrow> mbuf" where
  "mbuf_clear mb = mb\<lparr>mb_len := 0\<rparr>"

text \<open>The result is the pair of the emptied source and the target.\<close>

definition mbuf_move :: "mbuf \<Rightarrow> mbuf \<Rightarrow> mbuf \<times> mbuf" where
  "mbuf_move from to = (mbuf_zero, from)"

text \<open>\<open>out\<close> stands for the characters that the format and its arguments expand to. A text that does
  not fit the 1000 bytes on the stack is written to a block that \<open>malloc\<close> provides; its answer is
  not tested.\<close>

definition MG_BUFFER_SIZE :: nat where "MG_BUFFER_SIZE = 1000"

definition mbuf_avprintf :: "alloc \<Rightarrow> u8 list \<Rightarrow> (alloc \<times> u64 \<times> u8 list) option" where
  "mbuf_avprintf al out =
    (if length out \<ge> MG_BUFFER_SIZE
     then (let (al, p, m) = realloc al [] (of_nat (length out + 1))
           in map_option (\<lambda>m. (al, p, m)) (store_list m 0 (out @ [0])))
     else Some (al, 0, out @ [0]))"

definition mbuf_printf :: "alloc \<Rightarrow> mbuf \<Rightarrow> u8 list \<Rightarrow> (alloc \<times> mbuf \<times> nat) option" where
  "mbuf_printf al m out = do {
     (al, p, txt) \<leftarrow> mbuf_avprintf al out;
     (al, m) \<leftarrow> (if length out > 0
        then map_option (\<lambda>(al, m, _). (al, m)) (mbuf_append al m (Some txt) (of_nat (length out)))
        else Some (al, m));
     Some (c_free al p, m, length out)
   }"

section \<open>The invariant and the contents\<close>

definition mb_wf :: "mbuf \<Rightarrow> bool" where
  "mb_wf a \<longleftrightarrow> length (mb_mem a) = unat (mb_size a) \<and> mb_len a \<le> mb_size a"

definition mb_content :: "mbuf \<Rightarrow> u8 list" where
  "mb_content a = take (unat (mb_len a)) (mb_mem a)"

lemma mb_wf_len: "mb_wf a \<Longrightarrow> unat (mb_len a) \<le> length (mb_mem a)"
  by (simp add: mb_wf_def word_le_nat_alt)

lemma mb_content_length: "mb_wf a \<Longrightarrow> length (mb_content a) = unat (mb_len a)"
  using mb_wf_len [of a] by (simp add: mb_content_def)

lemma round53_le: "round53 n \<le> 2 * n"
proof -
  define k where "k = bit_len n - 53"
  define q where "q = n div 2 ^ k"
  define r where "r = n mod 2 ^ k"
  have n: "n = q * 2 ^ k + r" using div_mult_mod_eq [of n "2 ^ k"] by (simp only: q_def r_def)
  have "round53 n = (if 2 * r > 2 ^ k \<or> (2 * r = 2 ^ k \<and> odd q) then (q + 1) * 2 ^ k else q * 2 ^ k)"
    by (simp add: round53_def k_def q_def r_def Let_def)
  moreover have "2 * r \<ge> 2 ^ k \<Longrightarrow> (q + 1) * 2 ^ k \<le> 2 * n" using n by simp
  moreover have "q * 2 ^ k \<le> 2 * n" using n by simp
  ultimately show ?thesis by (auto split: if_splits)
qed

lemma times_multiplier_defined: "unat n < 2 ^ 61 \<Longrightarrow> \<exists>x. times_multiplier n = Some x"
proof -
  assume n: "unat n < 2 ^ 61"
  have "round53 (3 * round53 (unat n)) \<le> 2 * (3 * round53 (unat n))" by (rule round53_le)
  moreover have "round53 (unat n) \<le> 2 * unat n" by (rule round53_le)
  ultimately have "round53 (3 * round53 (unat n)) \<le> 12 * unat n" by linarith
  then have "round53 (3 * round53 (unat n)) < 2 ^ 64 * 2" using n by simp
  then have "round53 (3 * round53 (unat n)) div 2 < 2 ^ 64" by (rule less_mult_imp_div_less)
  then show ?thesis by (simp add: times_multiplier_def Let_def)
qed

text \<open>Opening a gap of \<open>n\<close> bytes at \<open>off\<close> and filling it.\<close>

lemma take_prefix: "length xs = k \<Longrightarrow> take k (xs @ ys) = xs"
  by simp

lemma splice:
  assumes "off \<le> L" "L + n \<le> length m" "n \<le> length bs"
  shows "\<exists>m'. Option.bind (mem_move m (off + n) off (L - off)) (\<lambda>m. mem_copy m off (Some bs) n) = Some m'
    \<and> length m' = length m \<and> take (L + n) m' = take off (take L m) @ take n bs @ drop off (take L m)"
proof -
  let ?c = "take (L - off) (drop off m)"
  let ?m = "take (off + n) m @ ?c @ drop (L + n) m"
  have mv: "mem_move m (off + n) off (L - off) = Some ?m"
    using assms arg_cong [OF add.commute [of n L], of "\<lambda>i. drop i m"]
    by (simp add: mem_move_def load_list_Some store_list_eq)
  have len: "length ?m = length m" using assms by simp
  have "mem_copy ?m off (Some bs) n = Some (take off m @ take n bs @ ?c @ drop (L + n) m)"
    using assms arg_cong [OF add.commute [of n L], of "\<lambda>i. drop i m"]
    by (simp add: mem_copy_def load_list_Some store_list_eq)
  moreover have "take (L + n) (take off m @ take n bs @ ?c @ drop (L + n) m) = take off m @ take n bs @ ?c"
  proof -
    have "length (take off m @ take n bs @ ?c) = L + n" using assms by simp
    from take_prefix [OF this, of "drop (L + n) m"] show ?thesis by (simp only: append_assoc)
  qed
  moreover have "length (take off m @ take n bs @ ?c @ drop (L + n) m) = length m" using assms by simp
  moreover have "take off (take L m) = take off m" "drop off (take L m) = ?c"
    using assms(1) by (simp_all add: drop_take min_absorb1)
  ultimately show ?thesis using mv by (simp only: Option.bind.bind_lunit) blast
qed

lemma realloc_cases:
  assumes "realloc al m n = (al', p, m')" "n \<noteq> 0"
  shows "(p = 0 \<and> fst (next_answer al) = 0 \<and> m' = m)
    \<or> (p \<noteq> 0 \<and> length m' = unat n \<and> (\<forall>L \<le> length m. L \<le> unat n \<longrightarrow> take L m' = take L m))"
  using assms by (auto simp: realloc_def Let_def split: prod.splits if_splits)

lemma mbuf_resize_spec:
  assumes "mb_wf a" "mbuf_resize al a n = (al', a')"
  shows "mb_wf a'" "mb_content a' = mb_content a" "mb_len a' = mb_len a"
proof -
  obtain al1 p m where r: "realloc al (mb_mem a) n = (al1, p, m)" by (rule prod_cases3)
  let ?P = "mb_wf a' \<and> mb_content a' = mb_content a \<and> mb_len a' = mb_len a"
  have ?P
  proof (cases "(n > mb_size a \<or> (n < mb_size a \<and> n \<ge> mb_len a)) \<and> \<not> (p = 0 \<and> n \<noteq> 0)")
    case False
    then have "a' = a" using assms(2) r by (auto simp: mbuf_resize_def split: if_splits)
    then show ?thesis using assms(1) by simp
  next
    case True
    then have a': "a' = a\<lparr>mb_buf := p, mb_mem := m, mb_size := n\<rparr>"
      using assms(2) r by (auto simp: mbuf_resize_def split: if_splits)
    have le: "mb_len a \<le> n" using True assms(1) by (auto simp: mb_wf_def)
    show ?thesis
    proof (cases "n = 0")
      case True
      then have "m = []" using r by (simp add: realloc_def Let_def split: prod.splits)
      moreover have "mb_len a = 0" using le True by simp
      ultimately show ?thesis using True by (simp add: a' mb_wf_def mb_content_def)
    next
      case False
      have "unat (mb_len a) \<le> unat n" using le by (simp add: word_le_nat_alt)
      with realloc_cases [OF r False] True False mb_wf_len [OF assms(1)] le show ?thesis
        by (simp add: a' mb_wf_def mb_content_def)
    qed
  qed
  then show "mb_wf a'" "mb_content a' = mb_content a" "mb_len a' = mb_len a" by simp_all
qed

lemma unat_add_small:
  "unat (x :: u64) + unat y < 2 ^ 61 \<Longrightarrow> unat (x + y) = unat x + unat y"
  by (simp add: unat_word_ariths take_bit_eq_mod)

text \<open>One round of the reallocation: from a block with \<open>L\<close> valid bytes to the spliced one.\<close>

lemma insert_in_place:
  assumes wf: "mb_wf a" and off: "off \<le> mb_len a" and bs: "unat len \<le> length bs"
    and fit: "unat (mb_len a) + unat len \<le> length m" "length m = unat sz"
    and small: "unat (mb_len a) + unat len < 2 ^ 61"
    and pre: "take (unat (mb_len a)) m = mb_content a"
  shows "\<exists>m'. Option.bind (mem_move m (unat off + unat len) (unat off) (unat (mb_len a - off)))
        (\<lambda>m. mem_copy m (unat off) (Some bs) (unat len)) = Some m'
    \<and> mb_wf (a\<lparr>mb_buf := p, mb_mem := m', mb_len := mb_len a + len, mb_size := sz\<rparr>)
    \<and> mb_content (a\<lparr>mb_buf := p, mb_mem := m', mb_len := mb_len a + len, mb_size := sz\<rparr>)
        = take (unat off) (mb_content a) @ take (unat len) bs @ drop (unat off) (mb_content a)"
proof -
  have o: "unat off \<le> unat (mb_len a)" using off by (simp add: word_le_nat_alt)
  have d: "unat (mb_len a - off) = unat (mb_len a) - unat off" using off by (rule unat_sub)
  have s: "unat (mb_len a + len) = unat (mb_len a) + unat len" by (rule unat_add_small [OF small])
  from splice [OF o fit(1) bs] obtain m' where m':
    "Option.bind (mem_move m (unat off + unat len) (unat off) (unat (mb_len a) - unat off))
       (\<lambda>m. mem_copy m (unat off) (Some bs) (unat len)) = Some m'"
    "length m' = length m"
    "take (unat (mb_len a) + unat len) m' = take (unat off) (mb_content a) @ take (unat len) bs @ drop (unat off) (mb_content a)"
    by (auto simp: pre)
  moreover have "mb_len a + len \<le> sz" using fit s by (simp add: word_le_nat_alt)
  ultimately show ?thesis using fit s by (auto simp: d mb_wf_def mb_content_def)
qed

text \<open>The block that is asked for is never smaller than needed, whatever the multiplication gives.\<close>

lemma headroom_ge:
  assumes "unat mn < 2 ^ 61"
  shows "mn \<le> (if x - mn > MBUF_SIZE_MAX_HEADROOM then mn + MBUF_SIZE_MAX_HEADROOM else x)"
proof -
  have "mn \<le> mn + d" if "d \<le> 1024" for d
  proof -
    have "unat d \<le> 1024" using that by (simp add: word_le_nat_alt)
    then have "unat (mn + d) = unat mn + unat d" using assms by (simp add: unat_word_ariths take_bit_eq_mod)
    then show ?thesis by (simp add: word_le_nat_alt)
  qed
  from this [of 1024] this [of "x - mn"] show ?thesis
    by (simp add: MBUF_SIZE_MAX_HEADROOM_def not_less)
qed

lemma mbuf_insert_spec:
  assumes wf: "mb_wf a" and off: "off \<le> mb_len a" and bs: "unat len \<le> length bs"
    and small: "unat (mb_len a) + unat len < 2 ^ 61" and addr: "len \<le> NOT 0 - mb_buf a"
  shows "\<exists>al' a' r. mbuf_insert al a off (Some bs) len = Some (al', a', r) \<and> mb_wf a' \<and>
    (r = len \<and> mb_content a' = take (unat off) (mb_content a) @ take (unat len) bs @ drop (unat off) (mb_content a)
     \<or> r = 0 \<and> a' = a \<and> mb_size a < mb_len a + len \<and> fst (next_answer al) = 0)"
proof (cases "mb_len a + len \<le> mb_size a")
  case True
  have "unat (mb_len a) + unat len \<le> length (mb_mem a)"
    using True wf unat_add_small [OF small] by (simp add: mb_wf_def word_le_nat_alt)
  from insert_in_place [OF wf off bs this _ small, of "mb_size a" "mb_buf a"] wf obtain m' where m':
    "Option.bind (mem_move (mb_mem a) (unat off + unat len) (unat off) (unat (mb_len a - off)))
        (\<lambda>m. mem_copy m (unat off) (Some bs) (unat len)) = Some m'"
    "mb_wf (a\<lparr>mb_mem := m', mb_len := mb_len a + len\<rparr>)"
    "mb_content (a\<lparr>mb_mem := m', mb_len := mb_len a + len\<rparr>)
        = take (unat off) (mb_content a) @ take (unat len) bs @ drop (unat off) (mb_content a)"
    by (auto simp: mb_wf_def mb_content_def)
  have "mbuf_insert al a off (Some bs) len = Some (al, a\<lparr>mb_mem := m', mb_len := mb_len a + len\<rparr>, len)"
    using True off addr wf m'(1) by (auto simp: mbuf_insert_def mb_wf_def bind_eq_Some_conv not_less)
  with m' show ?thesis by blast
next
  case False
  define mn where "mn = mb_len a + len"
  have mn: "unat mn = unat (mb_len a) + unat len" unfolding mn_def by (rule unat_add_small [OF small])
  have mn0: "mn \<noteq> 0" using False by (auto simp: mn_def)
  have lsm: "unat (mb_len a) \<le> length (mb_mem a)" by (rule mb_wf_len [OF wf])
  obtain x where x: "times_multiplier mn = Some x" using times_multiplier_defined [of mn] small mn by auto
  define ns where "ns = (if x - mn > MBUF_SIZE_MAX_HEADROOM then mn + MBUF_SIZE_MAX_HEADROOM else x)"
  have ns: "mn \<le> ns" unfolding ns_def by (rule headroom_ge) (use small mn in simp)
  then have ns0: "ns \<noteq> 0" using mn0 by auto
  obtain al1 p1 m1 where r1: "realloc al (mb_mem a) ns = (al1, p1, m1)" by (rule prod_cases3)
  define second where "second = (p1 = 0 \<and> ns \<noteq> mn)"
  obtain al2 p2 m2 sz where r2: "(if second then (case realloc al1 m1 mn of (al, p, m) \<Rightarrow> (al, p, m, mn)) else (al1, p1, m1, ns))
      = (al2, p2, m2, sz)" by (metis prod_cases4)
  have try1: "(p1 = 0 \<and> fst (next_answer al) = 0 \<and> m1 = mb_mem a)
      \<or> (p1 \<noteq> 0 \<and> length m1 = unat ns \<and> (\<forall>L \<le> length (mb_mem a). L \<le> unat ns \<longrightarrow> take L m1 = take L (mb_mem a)))"
    by (rule realloc_cases [OF r1 ns0])
  have lmn: "unat (mb_len a) \<le> unat mn" "unat (mb_len a) \<le> unat ns"
    using mn ns by (simp_all add: word_le_nat_alt)
  have "(p2 \<noteq> 0 \<and> length m2 = unat sz \<and> take (unat (mb_len a)) m2 = mb_content a \<and> mn \<le> sz)
      \<or> (p2 = 0 \<and> m2 = mb_mem a \<and> fst (next_answer al) = 0)"
  proof (cases second)
    case True
    then have r: "realloc al1 m1 mn = (al2, p2, m2)" "sz = mn" using r2 by (auto split: prod.splits)
    have "p1 = 0" using True by (simp add: second_def)
    then have m1: "m1 = mb_mem a" "fst (next_answer al) = 0" using try1 by auto
    from realloc_cases [OF r(1) mn0] show ?thesis
      using m1 r(2) lsm lmn(1) by (auto simp: mb_content_def)
  next
    case False
    then have "p2 = p1" "m2 = m1" "sz = ns" using r2 by simp_all
    with try1 lsm lmn(2) ns show ?thesis by (auto simp: mb_content_def)
  qed
  then have fresh: "p2 \<noteq> 0 \<Longrightarrow> length m2 = unat sz \<and> take (unat (mb_len a)) m2 = mb_content a \<and> mn \<le> sz"
    and failed: "p2 = 0 \<Longrightarrow> m2 = mb_mem a \<and> fst (next_answer al) = 0"
    by auto
  have ins: "mbuf_insert al a off (Some bs) len =
    (if p2 \<noteq> 0 then
       Option.bind (if off \<noteq> mb_len a then mem_move m2 (unat off + unat len) (unat off) (unat (mb_len a - off)) else Some m2)
         (\<lambda>m. Option.bind (mem_copy m (unat off) (Some bs) (unat len))
           (\<lambda>m. Some (al2, a\<lparr>mb_buf := p2, mb_mem := m, mb_len := mb_len a + len, mb_size := sz\<rparr>, len)))
     else Some (al2, a\<lparr>mb_mem := m2\<rparr>, 0))"
  proof -
    have c: "(mb_len a > mb_size a \<or> off > mb_len a) = False" "(NOT 0 - mb_buf a < len) = False"
      "(mn \<le> mb_size a) = False"
      using wf off addr False by (auto simp: mb_wf_def mn_def)
    show ?thesis
      unfolding mbuf_insert_def mn_def [symmetric]
      by (simp only: c if_False x Let_def Option.bind.bind_lunit ns_def [symmetric] r1 case_prod_conv
          second_def [symmetric] r2)
  qed
  show ?thesis
  proof (cases "p2 = 0")
    case True
    then show ?thesis using ins failed wf False by (simp add: not_le)
  next
    case p2: False
    note f = fresh [OF p2]
    have "unat (mb_len a) + unat len \<le> length m2" using f mn by (simp add: word_le_nat_alt)
    from insert_in_place [OF wf off bs this _ small, of sz p2] f obtain m' where m':
      "Option.bind (mem_move m2 (unat off + unat len) (unat off) (unat (mb_len a - off)))
        (\<lambda>m. mem_copy m (unat off) (Some bs) (unat len)) = Some m'"
      "mb_wf (a\<lparr>mb_buf := p2, mb_mem := m', mb_len := mb_len a + len, mb_size := sz\<rparr>)"
      "mb_content (a\<lparr>mb_buf := p2, mb_mem := m', mb_len := mb_len a + len, mb_size := sz\<rparr>)
        = take (unat off) (mb_content a) @ take (unat len) bs @ drop (unat off) (mb_content a)"
      by auto
    moreover have "off = mb_len a \<Longrightarrow> mem_move m2 (unat off + unat len) (unat off) (unat (mb_len a - off)) = Some m2"
      by (simp add: mem_move_def load_list_def)
    ultimately have "mbuf_insert al a off (Some bs) len =
      Some (al2, a\<lparr>mb_buf := p2, mb_mem := m', mb_len := mb_len a + len, mb_size := sz\<rparr>, len)"
      using ins p2 by (auto simp: bind_eq_Some_conv)
    with m' show ?thesis by blast
  qed
qed

lemma mbuf_insert_off: "mb_wf a \<Longrightarrow> off > mb_len a \<Longrightarrow> mbuf_insert al a off buf len = Some (al, a, 0)"
  by (simp add: mbuf_insert_def)

lemma mbuf_remove_spec:
  assumes "mb_wf a"
  shows "\<exists>a'. mbuf_remove a n = Some a' \<and> mb_wf a' \<and> mb_buf a' = mb_buf a \<and>
    mb_content a' = (if unat n \<le> length (mb_content a) then drop (unat n) (mb_content a) else mb_content a)"
proof (cases "n > 0 \<and> n \<le> mb_len a")
  case False
  then have "n = 0 \<or> \<not> unat n \<le> unat (mb_len a)" by (auto simp: word_le_nat_alt word_neq_0_conv)
  then show ?thesis using False assms by (auto simp: mbuf_remove_def mb_content_length)
next
  case True
  let ?k = "unat (mb_len a) - unat n"
  have u: "unat (mb_len a - n) = ?k" using True by (intro unat_sub) simp
  have n: "unat n \<le> unat (mb_len a)" using True by (simp add: word_le_nat_alt)
  have l: "unat (mb_len a) \<le> length (mb_mem a)" by (rule mb_wf_len [OF assms])
  let ?m = "take ?k (drop (unat n) (mb_mem a)) @ drop ?k (mb_mem a)"
  have "mem_move (mb_mem a) 0 (unat n) ?k = Some ?m"
    using l n by (simp add: mem_move_def load_list_Some store_list_eq)
  moreover have "length ?m = length (mb_mem a)" using l n by simp
  moreover have "take ?k ?m = drop (unat n) (mb_content a)"
    using l n by (simp add: mb_content_def take_prefix drop_take)
  moreover have "mb_len a - n \<le> mb_size a"
    using assms by (auto simp: u mb_wf_def word_le_nat_alt)
  ultimately show ?thesis
    using True assms n l by (auto simp: mbuf_remove_def u mb_wf_def mb_content_def)
qed

section \<open>The buffer as a sequence of bytes\<close>

datatype mb_op =
    Insert u64 "u8 list"
  | Append "u8 list"
  | Append_And_Free u64 "u8 list"
  | Remove u64
  | Resize u64
  | Trim
  | Clear

fun mb_edit :: "mb_op \<Rightarrow> u8 list \<Rightarrow> u8 list" where
  "mb_edit (Insert off bs) c = (if unat off \<le> length c then take (unat off) c @ bs @ drop (unat off) c else c)"
| "mb_edit (Append bs) c = c @ bs"
| "mb_edit (Append_And_Free p bs) c = c @ bs"
| "mb_edit (Remove n) c = (if unat n \<le> length c then drop (unat n) c else c)"
| "mb_edit Clear c = []"
| "mb_edit _ c = c"

fun mb_op_bytes :: "mb_op \<Rightarrow> nat" where
  "mb_op_bytes (Insert off bs) = length bs"
| "mb_op_bytes (Append bs) = length bs"
| "mb_op_bytes (Append_And_Free p bs) = length bs"
| "mb_op_bytes _ = 0"

fun mb_op_ok :: "mb_op \<Rightarrow> bool" where
  "mb_op_ok (Append_And_Free p bs) \<longleftrightarrow> p \<noteq> 0 \<and> unat p < 2 ^ 62"
| "mb_op_ok _ \<longleftrightarrow> True"

fun mb_step :: "mb_op \<Rightarrow> alloc \<times> mbuf \<Rightarrow> (alloc \<times> mbuf) option" where
  "mb_step (Insert off bs) (al, a) =
     map_option (\<lambda>(al, a, _). (al, a)) (mbuf_insert al a off (Some bs) (of_nat (length bs)))"
| "mb_step (Append bs) (al, a) =
     map_option (\<lambda>(al, a, _). (al, a)) (mbuf_append al a (Some bs) (of_nat (length bs)))"
| "mb_step (Append_And_Free p bs) (al, a) =
     map_option (\<lambda>(al, a, _). (al, a)) (mbuf_append_and_free al a (p, bs) (of_nat (length bs)))"
| "mb_step (Remove n) (al, a) = map_option (Pair al) (mbuf_remove a n)"
| "mb_step (Resize n) (al, a) = Some (mbuf_resize al a n)"
| "mb_step Trim (al, a) = Some (mbuf_trim al a)"
| "mb_step Clear (al, a) = Some (al, mbuf_clear a)"

fun mb_run :: "mb_op list \<Rightarrow> alloc \<times> mbuf \<Rightarrow> (alloc \<times> mbuf) option" where
  "mb_run [] s = Some s"
| "mb_run (x # xs) s = Option.bind (mb_step x s) (mb_run xs)"

text \<open>Every answer of the allocator is a block at a user-space address.\<close>

definition alloc_ok :: "alloc \<Rightarrow> bool" where
  "alloc_ok al \<longleftrightarrow> (\<forall>(p, _) \<in> set (pending al). p \<noteq> 0 \<and> unat p < 2 ^ 62)"

definition mb_inv :: "alloc \<times> mbuf \<Rightarrow> nat \<Rightarrow> bool" where
  "mb_inv s n \<longleftrightarrow> (case s of (al, a) \<Rightarrow> alloc_ok al \<and> n \<le> length (pending al) \<and> mb_wf a \<and> unat (mb_buf a) < 2 ^ 62)"

lemma alloc_ok_next:
  "alloc_ok al \<Longrightarrow> pending al \<noteq> [] \<Longrightarrow> fst (next_answer al) \<noteq> 0 \<and> unat (fst (next_answer al)) < 2 ^ 62"
  by (cases "pending al") (auto simp: alloc_ok_def next_answer_def)

lemma alloc_ok_tl: "alloc_ok al \<Longrightarrow> alloc_ok (al\<lparr>pending := tl (pending al)\<rparr>)"
  by (cases "pending al") (auto simp: alloc_ok_def)

lemma realloc_fst:
  "realloc al m n = (al', p, m') \<Longrightarrow>
   al' = al\<lparr>pending := tl (pending al)\<rparr> \<and> (p = fst (next_answer al))"
  by (auto simp: realloc_def Let_def split: prod.splits if_splits)

definition same_or_next :: "alloc \<Rightarrow> mbuf \<Rightarrow> alloc \<Rightarrow> mbuf \<Rightarrow> bool" where
  "same_or_next al a al' a' \<longleftrightarrow>
    pending al' = pending al \<and> mb_buf a' = mb_buf a \<or>
    pending al' = tl (pending al) \<and> mb_buf a' = fst (next_answer al)"

lemma mbuf_insert_alloc:
  assumes "mbuf_insert al a off buf len = Some (al', a', r)" "fst (next_answer al) \<noteq> 0"
  shows "same_or_next al a al' a'"
proof -
  let ?al = "al\<lparr>pending := tl (pending al)\<rparr>" and ?p = "fst (next_answer al)"
  have r: "\<exists>m'. realloc al m n = (?al, ?p, m')" for m n
    using assms(2) by (auto simp: realloc_def Let_def split: prod.splits)
  show ?thesis
  proof (cases "mb_len a + len \<le> mb_size a \<or> mb_len a > mb_size a \<or> off > mb_len a \<or> NOT 0 - mb_buf a < len")
    case True
    then show ?thesis using assms(1)
      by (auto simp: mbuf_insert_def same_or_next_def bind_eq_Some_conv split: if_splits)
  next
    case False
    then obtain x where "times_multiplier (mb_len a + len) = Some x"
      using assms(1) by (cases "times_multiplier (mb_len a + len)") (auto simp: mbuf_insert_def Let_def)
    moreover obtain m' where "realloc al (mb_mem a)
        (if MBUF_SIZE_MAX_HEADROOM < x - (mb_len a + len) then mb_len a + len + MBUF_SIZE_MAX_HEADROOM else x) = (?al, ?p, m')"
      using r by blast
    ultimately show ?thesis using assms False
      by (auto simp: mbuf_insert_def same_or_next_def bind_eq_Some_conv Let_def)
  qed
qed

lemma mb_inv_next:
  assumes "mb_inv (al, a) (Suc n)" "same_or_next al a al' a'" "mb_wf a'"
  shows "mb_inv (al', a') n"
proof -
  have al: "alloc_ok al" "pending al \<noteq> []" "Suc n \<le> length (pending al)" "unat (mb_buf a) < 2 ^ 62"
    using assms(1) by (auto simp: mb_inv_def)
  note al_next = alloc_ok_next [OF al(1,2)]
  from assms(2) consider "pending al' = pending al" "mb_buf a' = mb_buf a"
    | "pending al' = tl (pending al)" "mb_buf a' = fst (next_answer al)"
    by (auto simp: same_or_next_def)
  then show ?thesis
  proof cases
    case 1
    then show ?thesis using al assms(3) by (simp add: mb_inv_def alloc_ok_def)
  next
    case 2
    then show ?thesis using al al_next assms(3) alloc_ok_tl [OF al(1)] by (simp add: mb_inv_def alloc_ok_def)
  qed
qed

lemma mb_guard: "unat b < 2 ^ 62 \<Longrightarrow> unat len < 2 ^ 61 \<Longrightarrow> len \<le> NOT 0 - (b :: u64)"
proof -
  assume a: "unat b < 2 ^ 62" "unat len < 2 ^ 61"
  have "NOT (0 :: u64) - b = - 1 - b" by simp
  moreover have "unat (- 1 - b) = unat (- 1 :: u64) - unat b"
    by (rule unat_sub) (rule word_order.extremum)
  moreover have "unat (- 1 :: u64) = 2 ^ 64 - 1" by (simp add: unsigned_minus_1_eq_mask mask_eq_exp_minus_1)
  ultimately show ?thesis using a by (simp add: word_le_nat_alt)
qed

lemma insert_step:
  assumes inv: "mb_inv (al, a) (Suc n)" and off: "off \<le> mb_len a"
    and small: "length (mb_content a) + length bs < 2 ^ 61"
  shows "\<exists>al' a' r. mbuf_insert al a off (Some bs) (of_nat (length bs)) = Some (al', a', r) \<and> mb_inv (al', a') n
    \<and> mb_content a' = take (unat off) (mb_content a) @ bs @ drop (unat off) (mb_content a)"
proof -
  let ?l = "of_nat (length bs) :: u64"
  have wf: "mb_wf a" and al: "alloc_ok al" "pending al \<noteq> []" "unat (mb_buf a) < 2 ^ 62"
    using inv by (auto simp: mb_inv_def)
  have l: "unat ?l = length bs" using small by (simp add: unsigned_of_nat take_bit_nat_eq_self)
  have sm: "unat (mb_len a) + unat ?l < 2 ^ 61" using small l mb_content_length [OF wf] by simp
  have guard: "?l \<le> NOT 0 - mb_buf a" by (rule mb_guard [OF al(3)]) (use sm in simp)
  from mbuf_insert_spec [OF wf off _ sm guard, of bs al] l alloc_ok_next [OF al(1,2)]
  obtain al' a' r where i: "mbuf_insert al a off (Some bs) ?l = Some (al', a', r)" "mb_wf a'"
    "mb_content a' = take (unat off) (mb_content a) @ bs @ drop (unat off) (mb_content a)"
    by auto
  moreover have "same_or_next al a al' a'"
    using mbuf_insert_alloc [OF i(1)] alloc_ok_next [OF al(1,2)] by blast
  ultimately show ?thesis using mb_inv_next [OF inv] by blast
qed

lemma mbuf_resize_alloc:
  "mbuf_resize al a n = (al', a') \<Longrightarrow> mb_inv (al, a) (Suc k) \<Longrightarrow> mb_inv (al', a') k"
proof -
  assume r: "mbuf_resize al a n = (al', a')" and inv: "mb_inv (al, a) (Suc k)"
  then have "mb_wf a'" using mbuf_resize_spec(1) by (auto simp: mb_inv_def)
  moreover have "alloc_ok al" "pending al \<noteq> []" using inv by (auto simp: mb_inv_def)
  then have ne: "fst (next_answer al) \<noteq> 0" using alloc_ok_next by blast
  obtain al1 p m where "realloc al (mb_mem a) n = (al1, p, m)" by (rule prod_cases3)
  then have "same_or_next al a al' a'"
    using r ne realloc_fst [of al "mb_mem a" n al1 p m]
    by (auto simp: mbuf_resize_def same_or_next_def split: if_splits)
  ultimately show ?thesis using mb_inv_next [OF inv] by blast
qed

lemma mb_op_step:
  assumes inv: "mb_inv (al, a) (Suc n)" and ok: "mb_op_ok x"
    and small: "length (mb_content a) + mb_op_bytes x < 2 ^ 61"
  shows "\<exists>al' a'. mb_step x (al, a) = Some (al', a') \<and> mb_inv (al', a') n
    \<and> mb_content a' = mb_edit x (mb_content a)"
proof -
  have wf: "mb_wf a" using inv by (simp add: mb_inv_def)
  have inv0: "mb_inv (al, a) n" using inv by (simp add: mb_inv_def)
  note len = mb_content_length [OF wf]
  have app: "\<exists>al' a' r. mbuf_insert al a (mb_len a) (Some bs) (of_nat (length bs)) = Some (al', a', r)
      \<and> mb_inv (al', a') n \<and> mb_content a' = mb_content a @ bs"
    if "length (mb_content a) + length bs < 2 ^ 61" for bs
    using insert_step [OF inv order_refl that] len by simp
  show ?thesis
  proof (cases x)
    case (Insert off bs)
    show ?thesis
    proof (cases "off \<le> mb_len a")
      case True
      with insert_step [OF inv True, of bs] small Insert len show ?thesis by (auto simp: word_le_nat_alt)
    next
      case False
      then have "mbuf_insert al a off (Some bs) (of_nat (length bs)) = Some (al, a, 0)"
        using mbuf_insert_off [OF wf] by simp
      then show ?thesis using False Insert len inv0 by (auto simp: word_le_nat_alt)
    qed
  next
    case (Append bs)
    with app [of bs] small show ?thesis by (auto simp: mbuf_append_def)
  next
    case (Append_And_Free p bs)
    have pb: "unat p < 2 ^ 62" "unat (of_nat (length bs) :: u64) = length bs"
      using ok small Append_And_Free by (simp_all add: unsigned_of_nat take_bit_nat_eq_self)
    show ?thesis
    proof (cases "mb_len a = 0")
      case True
      then show ?thesis using Append_And_Free inv0 pb
        by (simp add: mbuf_append_and_free_def mb_inv_def mb_wf_def mb_content_def alloc_ok_def c_free_def)
    next
      case False
      obtain al' a' r where "mbuf_insert al a (mb_len a) (Some bs) (of_nat (length bs)) = Some (al', a', r)"
        "mb_inv (al', a') n" "mb_content a' = mb_content a @ bs"
        using app [of bs] small Append_And_Free by auto
      then show ?thesis using False Append_And_Free ok
        by (simp add: mbuf_append_and_free_def mb_inv_def alloc_ok_def c_free_def)
    qed
  next
    case (Remove k)
    with mbuf_remove_spec [OF wf, of k] inv0 show ?thesis by (auto simp: mb_inv_def)
  next
    case (Resize k)
    obtain al' a' where r: "mbuf_resize al a k = (al', a')" by (rule prod.exhaust)
    then show ?thesis using mbuf_resize_spec [OF wf r] mbuf_resize_alloc [OF r inv] Resize by simp
  next
    case Trim
    obtain al' a' where r: "mbuf_resize al a (mb_len a) = (al', a')" by (rule prod.exhaust)
    then show ?thesis using mbuf_resize_spec [OF wf r] mbuf_resize_alloc [OF r inv] Trim
      by (simp add: mbuf_trim_def)
  next
    case Clear
    then show ?thesis using inv0 by (simp add: mbuf_clear_def mb_inv_def mb_wf_def mb_content_def)
  qed
qed

lemma mb_edit_length: "length (mb_edit x c) \<le> length c + mb_op_bytes x"
  by (cases x) auto

lemma mb_ops_run:
  "mb_inv (al, a) (length xs) \<Longrightarrow> \<forall>x \<in> set xs. mb_op_ok x \<Longrightarrow>
   length (mb_content a) + sum_list (map mb_op_bytes xs) < 2 ^ 61 \<Longrightarrow>
   \<exists>al' a'. mb_run xs (al, a) = Some (al', a') \<and> mb_inv (al', a') 0
     \<and> mb_content a' = foldl (\<lambda>c x. mb_edit x c) (mb_content a) xs"
proof (induction xs arbitrary: al a)
  case Nil
  then show ?case by simp
next
  case (Cons x xs)
  have "length (mb_content a) + mb_op_bytes x < 2 ^ 61" using Cons.prems(3) by simp
  with mb_op_step [of al a "length xs" x] Cons.prems obtain al1 a1 where
    s: "mb_step x (al, a) = Some (al1, a1)" "mb_inv (al1, a1) (length xs)" "mb_content a1 = mb_edit x (mb_content a)"
    by auto
  have "length (mb_content a1) + sum_list (map mb_op_bytes xs) < 2 ^ 61"
    using mb_edit_length [of x "mb_content a"] Cons.prems(3) s(3) by simp
  with Cons.IH [OF s(2)] Cons.prems(2) s(1,3) show ?case by simp
qed

text \<open>C35. An mbuf is a byte sequence: from \<open>mbuf_init\<close> on, any series of insertions at an offset,
  appends (with or without handing over the block), removals, resizes, trims and clears leaves the
  contents that the same edits make of the empty sequence; no operation leaves its block, and the
  length never exceeds the capacity. Every allocation is taken to succeed, and less than \<open>2^61\<close>
  bytes are written.\<close>

theorem mbuf_is_byte_sequence:
  assumes "alloc_ok al" "Suc (length xs) \<le> length (pending al)" "\<forall>x \<in> set xs. mb_op_ok x"
    and "sum_list (map mb_op_bytes xs) < 2 ^ 61"
  shows "\<exists>al' a'. mb_run xs (mbuf_init al n) = Some (al', a')
    \<and> mb_content a' = foldl (\<lambda>c x. mb_edit x c) [] xs \<and> mb_wf a'"
proof -
  have z: "mb_inv (al, mbuf_zero) (Suc (length xs))"
    using assms by (simp add: mb_inv_def mbuf_zero_def mb_wf_def)
  have wz: "mb_wf mbuf_zero" by (simp add: mbuf_zero_def mb_wf_def)
  obtain al1 a1 where i: "mbuf_resize al mbuf_zero n = (al1, a1)" by (rule prod.exhaust)
  have "mb_content a1 = []" using mbuf_resize_spec(2) [OF wz i] by (simp add: mb_content_def mbuf_zero_def)
  with mb_ops_run [OF mbuf_resize_alloc [OF i z] assms(3)] assms(4) show ?thesis
    by (auto simp: mbuf_init_def i mb_inv_def)
qed

lemma mbuf_is_byte_sequence_witness:
  "let al = \<lparr>pending = replicate 5 (4096, \<lambda>_. 0), freed = []\<rparr>
   in \<exists>al' a'. mb_run [Append [1, 2, 3], Insert 1 [9], Remove 1, Trim] (mbuf_init al 2) = Some (al', a')
     \<and> mb_content a' = [9, 2, 3] \<and> mb_wf a'"
  using mbuf_is_byte_sequence [of "\<lparr>pending = replicate 5 (4096, \<lambda>_. 0), freed = []\<rparr>"
      "[Append [1, 2, 3], Insert 1 [9], Remove 1, Trim]" 2]
  by (simp add: alloc_ok_def del: mb_run.simps)

text \<open>When the allocator refuses, \<open>mbuf_insert\<close> answers 0 and leaves the buffer as it was; it does
  so only when the bytes do not fit the present block. In every other case it answers the number of
  bytes and the contents have them at the offset.\<close>

lemma mbuf_insert_or_refuse:
  assumes "mb_wf a" "off \<le> mb_len a" "unat len \<le> length bs"
    and "unat (mb_len a) + unat len < 2 ^ 61" "len \<le> NOT 0 - mb_buf a"
  shows "\<exists>al' a' r. mbuf_insert al a off (Some bs) len = Some (al', a', r) \<and> mb_wf a' \<and>
    (r = len \<and> mb_content a' = take (unat off) (mb_content a) @ take (unat len) bs @ drop (unat off) (mb_content a)
     \<or> r = 0 \<and> a' = a \<and> mb_size a < mb_len a + len \<and> fst (next_answer al) = 0)"
  using assms by (rule mbuf_insert_spec)

lemma mbuf_insert_or_refuse_example:
  "let a = \<lparr>mb_buf = 4096, mb_mem = [1, 2, 0], mb_len = 2, mb_size = 3\<rparr>;
       al = \<lparr>pending = [], freed = []\<rparr>
   in \<exists>al' a' r. mbuf_insert al a 1 (Some [7]) 1 = Some (al', a', r) \<and> mb_wf a' \<and> mb_content a' = [1, 7, 2]"
  using mb_guard [of 4096 1] mbuf_insert_or_refuse [of "\<lparr>mb_buf = 4096, mb_mem = [1, 2, 0], mb_len = 2, mb_size = 3\<rparr>" 1 1 "[7]"
      "\<lparr>pending = [], freed = []\<rparr>"]
  by (auto simp: mb_wf_def mb_content_def)

end
