(* ===== verification/Radix.thy ===== *)
theory Radix
  imports Prelude "HOL-Library.Monad_Syntax"
begin

text \<open>
  The radix tree of struct_data/ngx_radix_tree: insertion, deletion and longest-prefix lookup for
  32-bit and 128-bit keys. Nodes live in a heap from addresses to nodes, with 0 the null pointer;
  an access through a pointer that is no node is \<open>None\<close>. The pool is a parameter: the list of pages
  that \<open>ngx_pmemalign\<close> will return, each an address with the uninitialised nodes in it. The loops
  over the bits of a key are shown to walk a list of bits, on which the rest of the theory works.
\<close>

section \<open>The state\<close>

record rnode =
  rn_right :: nat
  rn_left :: nat
  rn_parent :: nat
  rn_value :: u64

type_synonym rheap = "nat \<Rightarrow> rnode option"

record rtree =
  rt_root :: nat
  rt_free :: nat
  rt_start :: nat
  rt_size :: nat
  rt_heap :: rheap
  rt_pages :: "(nat \<times> rnode) list"

definition NGX_RADIX_NO_VALUE :: u64 where "NGX_RADIX_NO_VALUE = - 1"

datatype ngx_result = NGX_OK | NGX_ERROR | NGX_BUSY

definition node_size :: nat where "node_size = 32"

text \<open>A new page replaces what is left of the old one; \<open>pagesize\<close> is at least \<open>node_size\<close>.\<close>

definition ngx_radix_alloc :: "nat \<Rightarrow> rtree \<Rightarrow> (rtree \<times> nat) option" where
  "ngx_radix_alloc pagesize t =
    (if rt_free t \<noteq> 0 then do {
       nd \<leftarrow> rt_heap t (rt_free t);
       Some (t\<lparr>rt_free := rn_right nd\<rparr>, rt_free t)
     }
     else
       (let t' = (if rt_size t < node_size
                  then (case rt_pages t of
                      [] \<Rightarrow> None
                    | (a, junk) # ps \<Rightarrow> Some (t\<lparr>rt_start := a, rt_size := pagesize, rt_pages := ps\<rparr>, junk))
                  else Some (t, \<lparr>rn_right = 0, rn_left = 0, rn_parent = 0, rn_value = 0\<rparr>))
        in case t' of
             None \<Rightarrow> Some (t, 0)
           | Some (t, junk) \<Rightarrow>
               Some (t\<lparr>rt_heap := (rt_heap t)(rt_start t \<mapsto> junk), rt_start := rt_start t + node_size,
                      rt_size := rt_size t - node_size\<rparr>, rt_start t)))"

definition set_node :: "rtree \<Rightarrow> nat \<Rightarrow> (rnode \<Rightarrow> rnode) \<Rightarrow> rtree option" where
  "set_node t p f = (case rt_heap t p of None \<Rightarrow> None | Some nd \<Rightarrow> Some (t\<lparr>rt_heap := (rt_heap t)(p \<mapsto> f nd)\<rparr>))"

text \<open>The four assignments to a node from \<open>ngx_radix_alloc\<close>, and the two ways to hang it in.\<close>

definition init_node :: "rtree \<Rightarrow> nat \<Rightarrow> nat \<Rightarrow> rtree option" where
  "init_node t nxt node =
    set_node t nxt (\<lambda>_. \<lparr>rn_right = 0, rn_left = 0, rn_parent = node, rn_value = NGX_RADIX_NO_VALUE\<rparr>)"

definition set_child :: "rtree \<Rightarrow> nat \<Rightarrow> bool \<Rightarrow> nat \<Rightarrow> rtree option" where
  "set_child t node b nxt =
    set_node t node (if b then (\<lambda>nd. nd\<lparr>rn_right := nxt\<rparr>) else (\<lambda>nd. nd\<lparr>rn_left := nxt\<rparr>))"

definition child :: "rnode \<Rightarrow> bool \<Rightarrow> nat" where
  "child nd b = (if b then rn_right nd else rn_left nd)"

section \<open>32-bit keys\<close>

lemma halve_less: "bt \<noteq> 0 \<Longrightarrow> unat (drop_bit 1 (bt :: 'a::len word)) < unat bt"
proof -
  assume "bt \<noteq> 0"
  then have "0 < unat bt" by (simp add: unat_gt_0)
  moreover have "unat (drop_bit 1 bt) = unat bt div 2" using drop_bit_eq_div [of 1 "unat bt"] by (simp only: unat_drop_bit_eq) simp
  ultimately show ?thesis by simp
qed

lemma halve_less_and: "bt AND m \<noteq> 0 \<Longrightarrow> unat (drop_bit (Suc 0) (bt :: 'a::len word)) < unat bt"
  using halve_less [of bt] by (cases "bt = 0") simp_all

function ins_walk32 :: "rheap \<Rightarrow> u32 \<Rightarrow> u32 \<Rightarrow> u32 \<Rightarrow> nat \<Rightarrow> nat \<Rightarrow> (u32 \<times> nat \<times> nat) option" where
  "ins_walk32 h key msk bt node nxt =
    (if bt AND msk \<noteq> 0 then do {
       nd \<leftarrow> h node;
       let nxt = (if key AND bt \<noteq> 0 then rn_right nd else rn_left nd);
       if nxt = 0 then Some (bt, node, nxt)
       else ins_walk32 h key msk (drop_bit 1 bt) nxt nxt
     } else Some (bt, node, nxt))"
  by pat_completeness auto
termination by (relation "measure (\<lambda>(h, key, msk, bt, node, nxt). unat bt)") (auto intro!: halve_less_and)

function ins_extend32 :: "nat \<Rightarrow> rtree \<Rightarrow> u32 \<Rightarrow> u32 \<Rightarrow> u32 \<Rightarrow> nat \<Rightarrow> (rtree \<times> nat option) option" where
  "ins_extend32 pagesize t key msk bt node =
    (if bt AND msk \<noteq> 0 then
       (case ngx_radix_alloc pagesize t of
          None \<Rightarrow> None
        | Some (t, nxt) \<Rightarrow>
            if nxt = 0 then Some (t, None)
            else (case Option.bind (init_node t nxt node) (\<lambda>t. set_child t node (key AND bt \<noteq> 0) nxt) of
                None \<Rightarrow> None
              | Some t \<Rightarrow> ins_extend32 pagesize t key msk (drop_bit 1 bt) nxt))
     else Some (t, Some node))"
  by pat_completeness auto
termination by (relation "measure (\<lambda>(pagesize, t, key, msk, bt, node). unat bt)") (auto intro!: halve_less_and)

declare ins_walk32.simps [simp del] ins_extend32.simps [simp del]

definition ngx_radix32tree_insert :: "nat \<Rightarrow> rtree \<Rightarrow> u32 \<Rightarrow> u32 \<Rightarrow> u64 \<Rightarrow> (rtree \<times> ngx_result) option" where
  "ngx_radix32tree_insert pagesize t key msk val = do {
     (bt, node, nxt) \<leftarrow> ins_walk32 (rt_heap t) key msk 0x80000000 (rt_root t) (rt_root t);
     if nxt \<noteq> 0 then do {
       nd \<leftarrow> rt_heap t node;
       if rn_value nd \<noteq> NGX_RADIX_NO_VALUE then Some (t, NGX_BUSY)
       else do { t \<leftarrow> set_node t node (\<lambda>nd. nd\<lparr>rn_value := val\<rparr>); Some (t, NGX_OK) }
     }
     else do {
       (t, node) \<leftarrow> ins_extend32 pagesize t key msk bt node;
       case node of
         None \<Rightarrow> Some (t, NGX_ERROR)
       | Some node \<Rightarrow> do { t \<leftarrow> set_node t node (\<lambda>nd. nd\<lparr>rn_value := val\<rparr>); Some (t, NGX_OK) }
     }
   }"

function del_walk32 :: "rheap \<Rightarrow> u32 \<Rightarrow> u32 \<Rightarrow> u32 \<Rightarrow> nat \<Rightarrow> nat option" where
  "del_walk32 h key msk bt node =
    (if node \<noteq> 0 \<and> bt AND msk \<noteq> 0 then do {
       nd \<leftarrow> h node;
       del_walk32 h key msk (drop_bit 1 bt) (if key AND bt \<noteq> 0 then rn_right nd else rn_left nd)
     } else Some node)"
  by pat_completeness auto
termination by (relation "measure (\<lambda>(h, key, msk, bt, node). unat bt)") (auto intro!: halve_less_and)

declare del_walk32.simps [simp del]

text \<open>The loop that prunes childless nodes upwards. It follows parent pointers and ends by itself on a
  tree only, so it is a partial function; a null parent is an access to no node.\<close>

partial_function (option) prune :: "rtree \<Rightarrow> nat \<Rightarrow> rtree option" where
  "prune t node =
    Option.bind (rt_heap t node) (\<lambda>nd.
    Option.bind (rt_heap t (rn_parent nd)) (\<lambda>par.
    Option.bind (if rn_right par = node then set_child t (rn_parent nd) True 0
                 else set_child t (rn_parent nd) False 0) (\<lambda>t.
    Option.bind (set_node t node (\<lambda>nd. nd\<lparr>rn_right := rt_free t\<rparr>)) (\<lambda>t.
    let t = t\<lparr>rt_free := node\<rparr>; node = rn_parent nd in
    Option.bind (rt_heap t node) (\<lambda>nd.
    if rn_right nd \<noteq> 0 \<or> rn_left nd \<noteq> 0 then Some t
    else if rn_value nd \<noteq> NGX_RADIX_NO_VALUE then Some t
    else if rn_parent nd = 0 then Some t
    else prune t node)))))"

definition delete_node :: "rtree \<Rightarrow> nat \<Rightarrow> (rtree \<times> ngx_result) option" where
  "delete_node t node =
    (if node = 0 then Some (t, NGX_ERROR)
     else do {
       nd \<leftarrow> rt_heap t node;
       if rn_right nd \<noteq> 0 \<or> rn_left nd \<noteq> 0 then
         (if rn_value nd \<noteq> NGX_RADIX_NO_VALUE
          then do { t \<leftarrow> set_node t node (\<lambda>nd. nd\<lparr>rn_value := NGX_RADIX_NO_VALUE\<rparr>); Some (t, NGX_OK) }
          else Some (t, NGX_ERROR))
       else do { t \<leftarrow> prune t node; Some (t, NGX_OK) }
     })"

definition ngx_radix32tree_delete :: "rtree \<Rightarrow> u32 \<Rightarrow> u32 \<Rightarrow> (rtree \<times> ngx_result) option" where
  "ngx_radix32tree_delete t key msk = do {
     node \<leftarrow> del_walk32 (rt_heap t) key msk 0x80000000 (rt_root t);
     delete_node t node
   }"

partial_function (option) find_walk32 :: "rheap \<Rightarrow> u32 \<Rightarrow> u32 \<Rightarrow> u64 \<Rightarrow> nat \<Rightarrow> u64 option" where
  "find_walk32 h key bt val node =
    (if node \<noteq> 0 then
       Option.bind (h node) (\<lambda>nd.
         find_walk32 h key (drop_bit 1 bt)
           (if rn_value nd \<noteq> NGX_RADIX_NO_VALUE then rn_value nd else val)
           (if key AND bt \<noteq> 0 then rn_right nd else rn_left nd))
     else Some val)"

definition ngx_radix32tree_find :: "rtree \<Rightarrow> u32 \<Rightarrow> u64 option" where
  "ngx_radix32tree_find t key = find_walk32 (rt_heap t) key 0x80000000 NGX_RADIX_NO_VALUE (rt_root t)"

section \<open>128-bit keys\<close>

text \<open>Key and mask are arrays of 16 bytes. The position is the byte \<open>i\<close> with the bit in it; the bit
  becoming 0 moves to the next byte, or ends the loop behind the last one.\<close>

function ins_walk128 :: "rheap \<Rightarrow> u8 list \<Rightarrow> u8 list \<Rightarrow> nat \<Rightarrow> u8 \<Rightarrow> nat \<Rightarrow> nat \<Rightarrow> (nat \<times> u8 \<times> nat \<times> nat) option" where
  "ins_walk128 h key msk i bt node nxt =
    (case load msk i of None \<Rightarrow> None | Some mi \<Rightarrow>
     if bt AND mi \<noteq> 0 then
       (case load key i of None \<Rightarrow> None | Some ki \<Rightarrow>
        case h node of None \<Rightarrow> None | Some nd \<Rightarrow>
        let nxt = (if ki AND bt \<noteq> 0 then rn_right nd else rn_left nd) in
        if nxt = 0 then Some (i, bt, node, nxt)
        else if drop_bit 1 bt = 0 then
          (if i + 1 = 16 then Some (i + 1, drop_bit 1 bt, nxt, nxt)
           else ins_walk128 h key msk (i + 1) 0x80 nxt nxt)
        else ins_walk128 h key msk i (drop_bit 1 bt) nxt nxt)
     else Some (i, bt, node, nxt))"
  by pat_completeness auto
termination
  by (relation "measures [\<lambda>(h, key, msk, i, bt, node, nxt). length msk - i, \<lambda>(h, key, msk, i, bt, node, nxt). unat bt]")
    (auto intro!: halve_less_and simp: load_def split: if_splits)

function ins_extend128 :: "nat \<Rightarrow> rtree \<Rightarrow> u8 list \<Rightarrow> u8 list \<Rightarrow> nat \<Rightarrow> u8 \<Rightarrow> nat \<Rightarrow> (rtree \<times> nat option) option" where
  "ins_extend128 pagesize t key msk i bt node =
    (case load msk i of None \<Rightarrow> None | Some mi \<Rightarrow>
     if bt AND mi \<noteq> 0 then
       (case ngx_radix_alloc pagesize t of
          None \<Rightarrow> None
        | Some (t, nxt) \<Rightarrow>
            if nxt = 0 then Some (t, None)
            else (case Option.bind (init_node t nxt node)
                    (\<lambda>t. Option.bind (load key i) (\<lambda>ki. set_child t node (ki AND bt \<noteq> 0) nxt)) of
                None \<Rightarrow> None
              | Some t \<Rightarrow>
                  if drop_bit 1 bt = 0 then
                    (if i + 1 = 16 then Some (t, Some nxt)
                     else ins_extend128 pagesize t key msk (i + 1) 0x80 nxt)
                  else ins_extend128 pagesize t key msk i (drop_bit 1 bt) nxt))
     else Some (t, Some node))"
  by pat_completeness auto
termination
  by (relation "measures [\<lambda>(pagesize, t, key, msk, i, bt, node). length msk - i, \<lambda>(pagesize, t, key, msk, i, bt, node). unat bt]")
    (auto intro!: halve_less_and simp: load_def split: if_splits)

declare ins_walk128.simps [simp del] ins_extend128.simps [simp del]

definition ngx_radix128tree_insert :: "nat \<Rightarrow> rtree \<Rightarrow> u8 list \<Rightarrow> u8 list \<Rightarrow> u64 \<Rightarrow> (rtree \<times> ngx_result) option" where
  "ngx_radix128tree_insert pagesize t key msk val = do {
     (i, bt, node, nxt) \<leftarrow> ins_walk128 (rt_heap t) key msk 0 0x80 (rt_root t) (rt_root t);
     if nxt \<noteq> 0 then do {
       nd \<leftarrow> rt_heap t node;
       if rn_value nd \<noteq> NGX_RADIX_NO_VALUE then Some (t, NGX_BUSY)
       else do { t \<leftarrow> set_node t node (\<lambda>nd. nd\<lparr>rn_value := val\<rparr>); Some (t, NGX_OK) }
     }
     else do {
       (t, node) \<leftarrow> ins_extend128 pagesize t key msk i bt node;
       case node of
         None \<Rightarrow> Some (t, NGX_ERROR)
       | Some node \<Rightarrow> do { t \<leftarrow> set_node t node (\<lambda>nd. nd\<lparr>rn_value := val\<rparr>); Some (t, NGX_OK) }
     }
   }"

function del_walk128 :: "rheap \<Rightarrow> u8 list \<Rightarrow> u8 list \<Rightarrow> nat \<Rightarrow> u8 \<Rightarrow> nat \<Rightarrow> nat option" where
  "del_walk128 h key msk i bt node =
    (if node = 0 then Some node
     else case load msk i of None \<Rightarrow> None | Some mi \<Rightarrow>
     if bt AND mi \<noteq> 0 then
       (case load key i of None \<Rightarrow> None | Some ki \<Rightarrow>
        case h node of None \<Rightarrow> None | Some nd \<Rightarrow>
        let node = (if ki AND bt \<noteq> 0 then rn_right nd else rn_left nd) in
        if drop_bit 1 bt = 0 then
          (if i + 1 = 16 then Some node else del_walk128 h key msk (i + 1) 0x80 node)
        else del_walk128 h key msk i (drop_bit 1 bt) node)
     else Some node)"
  by pat_completeness auto
termination
  by (relation "measures [\<lambda>(h, key, msk, i, bt, node). length msk - i, \<lambda>(h, key, msk, i, bt, node). unat bt]")
    (auto intro!: halve_less_and simp: load_def split: if_splits)

declare del_walk128.simps [simp del]

definition ngx_radix128tree_delete :: "rtree \<Rightarrow> u8 list \<Rightarrow> u8 list \<Rightarrow> (rtree \<times> ngx_result) option" where
  "ngx_radix128tree_delete t key msk = do {
     node \<leftarrow> del_walk128 (rt_heap t) key msk 0 0x80 (rt_root t);
     delete_node t node
   }"

partial_function (option) find_walk128 :: "rheap \<Rightarrow> u8 list \<Rightarrow> nat \<Rightarrow> u8 \<Rightarrow> u64 \<Rightarrow> nat \<Rightarrow> u64 option" where
  "find_walk128 h key i bt val node =
    (if node \<noteq> 0 then
       Option.bind (h node) (\<lambda>nd.
       Option.bind (load key i) (\<lambda>ki.
         let val = (if rn_value nd \<noteq> NGX_RADIX_NO_VALUE then rn_value nd else val);
             node = (if ki AND bt \<noteq> 0 then rn_right nd else rn_left nd) in
         if drop_bit 1 bt = 0 then find_walk128 h key (i + 1) 0x80 val node
         else find_walk128 h key i (drop_bit 1 bt) val node))
     else Some val)"

definition ngx_radix128tree_find :: "rtree \<Rightarrow> u8 list \<Rightarrow> u64 option" where
  "ngx_radix128tree_find t key = find_walk128 (rt_heap t) key 0 0x80 NGX_RADIX_NO_VALUE (rt_root t)"

section \<open>Creation\<close>

text \<open>\<open>levels\<close> counts \<open>preallocate\<close> down; the key of the inner loop returns to 0 by wrapping around. A
  negative count other than -1 runs down through the whole 64-bit range.\<close>

partial_function (option) create_keys :: "nat \<Rightarrow> rtree \<Rightarrow> u32 \<Rightarrow> u32 \<Rightarrow> u32 \<Rightarrow> rtree option option" where
  "create_keys pagesize t key msk inc =
    Option.bind (ngx_radix32tree_insert pagesize t key msk NGX_RADIX_NO_VALUE) (\<lambda>(t, r).
      if r \<noteq> NGX_OK then Some None
      else if key + inc \<noteq> 0 then create_keys pagesize t (key + inc) msk inc
      else Some (Some t))"

fun create_levels :: "nat \<Rightarrow> nat \<Rightarrow> rtree \<Rightarrow> u32 \<Rightarrow> u32 \<Rightarrow> rtree option option" where
  "create_levels pagesize 0 t msk inc = Some (Some t)"
| "create_levels pagesize (Suc levels) t msk inc =
    (let msk = drop_bit 1 msk OR 0x80000000 in
     case create_keys pagesize t 0 msk inc of
       None \<Rightarrow> None
     | Some None \<Rightarrow> Some None
     | Some (Some t) \<Rightarrow> create_levels pagesize levels t msk (drop_bit 1 inc))"

text \<open>The outer option is a failing memory access, the inner one the null pointer that is returned.
  \<open>palloc_ok\<close> tells whether the pool has room for the tree itself.\<close>

definition ngx_radix_tree_create :: "nat \<Rightarrow> bool \<Rightarrow> (nat \<times> rnode) list \<Rightarrow> int \<Rightarrow> rtree option option" where
  "ngx_radix_tree_create pagesize palloc_ok pages preallocate =
    (if \<not> palloc_ok then Some None
     else do {
       let t = \<lparr>rt_root = 0, rt_free = 0, rt_start = 0, rt_size = 0, rt_heap = \<lambda>_. None, rt_pages = pages\<rparr>;
       (t, root) \<leftarrow> ngx_radix_alloc pagesize t;
       if root = 0 then Some None
       else do {
         t \<leftarrow> init_node (t\<lparr>rt_root := root\<rparr>) root 0;
         if preallocate = 0 then Some (Some t)
         else do {
           let preallocate = (if preallocate = -1
             then (if pagesize div node_size = 128 then 6 else if pagesize div node_size = 256 then 7 else 8)
             else preallocate);
           create_levels pagesize (nat (preallocate mod 2 ^ 64)) t 0 0x80000000
         }
       }
     })"

section \<open>Walking along a list of bits\<close>

text \<open>The bits of a key from the position of \<open>bt\<close> on, as far as the mask is set without a gap.\<close>

function path32 :: "u32 \<Rightarrow> u32 \<Rightarrow> u32 \<Rightarrow> bool list" where
  "path32 key msk bt =
    (if bt AND msk \<noteq> 0 then (key AND bt \<noteq> 0) # path32 key msk (drop_bit 1 bt) else [])"
  by pat_completeness auto
termination by (relation "measure (\<lambda>(key, msk, bt). unat bt)") (auto intro!: halve_less_and)

function path128 :: "u8 list \<Rightarrow> u8 list \<Rightarrow> nat \<Rightarrow> u8 \<Rightarrow> bool list" where
  "path128 key msk i bt =
    (if i < 16 \<and> bt AND msk ! i \<noteq> 0
     then (key ! i AND bt \<noteq> 0) #
       (if drop_bit 1 bt = 0 then path128 key msk (i + 1) 0x80 else path128 key msk i (drop_bit 1 bt))
     else [])"
  by pat_completeness auto
termination
  by (relation "measures [\<lambda>(key, msk, i, bt). 16 - i, \<lambda>(key, msk, i, bt). unat bt]") (auto intro!: halve_less_and)

declare path32.simps [simp del] path128.simps [simp del]

fun walk :: "rheap \<Rightarrow> bool list \<Rightarrow> nat \<Rightarrow> nat \<Rightarrow> (bool list \<times> nat \<times> nat) option" where
  "walk h [] node nxt = Some ([], node, nxt)"
| "walk h (b # bs) node nxt =
    (case h node of
       None \<Rightarrow> None
     | Some nd \<Rightarrow> if child nd b = 0 then Some (b # bs, node, 0) else walk h bs (child nd b) (child nd b))"

fun extend :: "nat \<Rightarrow> rtree \<Rightarrow> bool list \<Rightarrow> nat \<Rightarrow> (rtree \<times> nat option) option" where
  "extend pagesize t [] node = Some (t, Some node)"
| "extend pagesize t (b # bs) node =
    (case ngx_radix_alloc pagesize t of
       None \<Rightarrow> None
     | Some (t, nxt) \<Rightarrow>
         if nxt = 0 then Some (t, None)
         else (case Option.bind (init_node t nxt node) (\<lambda>t. set_child t node b nxt) of
             None \<Rightarrow> None
           | Some t \<Rightarrow> extend pagesize t bs nxt))"

definition insert_bits :: "nat \<Rightarrow> rtree \<Rightarrow> bool list \<Rightarrow> u64 \<Rightarrow> (rtree \<times> ngx_result) option" where
  "insert_bits pagesize t bs val = do {
     (rest, node, nxt) \<leftarrow> walk (rt_heap t) bs (rt_root t) (rt_root t);
     if nxt \<noteq> 0 then do {
       nd \<leftarrow> rt_heap t node;
       if rn_value nd \<noteq> NGX_RADIX_NO_VALUE then Some (t, NGX_BUSY)
       else do { t \<leftarrow> set_node t node (\<lambda>nd. nd\<lparr>rn_value := val\<rparr>); Some (t, NGX_OK) }
     }
     else do {
       (t, node) \<leftarrow> extend pagesize t rest node;
       case node of
         None \<Rightarrow> Some (t, NGX_ERROR)
       | Some node \<Rightarrow> do { t \<leftarrow> set_node t node (\<lambda>nd. nd\<lparr>rn_value := val\<rparr>); Some (t, NGX_OK) }
     }
   }"

fun del_walk :: "rheap \<Rightarrow> bool list \<Rightarrow> nat \<Rightarrow> nat option" where
  "del_walk h [] node = Some node"
| "del_walk h (b # bs) node =
    (if node = 0 then Some 0 else (case h node of None \<Rightarrow> None | Some nd \<Rightarrow> del_walk h bs (child nd b)))"

fun find_walk :: "rheap \<Rightarrow> bool list \<Rightarrow> u64 \<Rightarrow> nat \<Rightarrow> u64 option" where
  "find_walk h bs val node =
    (if node = 0 then Some val
     else case h node of None \<Rightarrow> None | Some nd \<Rightarrow>
       (case bs of
          [] \<Rightarrow> None
        | b # bs \<Rightarrow> find_walk h bs (if rn_value nd \<noteq> NGX_RADIX_NO_VALUE then rn_value nd else val) (child nd b)))"

declare find_walk.simps [simp del]

lemma ins_walk32_eq:
  "(case walk h (path32 key msk bt) node nxt of
      None \<Rightarrow> ins_walk32 h key msk bt node nxt = None
    | Some (rest, n, nx) \<Rightarrow> \<exists>bt'. ins_walk32 h key msk bt node nxt = Some (bt', n, nx) \<and> path32 key msk bt' = rest)"
proof (induction h key msk bt node nxt rule: ins_walk32.induct)
  case (1 h key msk bt node nxt)
  show ?case
  proof (cases "bt AND msk = 0")
    case True
    then have "path32 key msk bt = []" by (simp add: path32.simps)
    then show ?thesis using True by (auto simp: ins_walk32.simps [of h key msk bt])
  next
    case False
    then have p: "path32 key msk bt = (key AND bt \<noteq> 0) # path32 key msk (drop_bit 1 bt)"
      by (subst path32.simps) simp
    show ?thesis
    proof (cases "h node")
      case None
      then show ?thesis using False p by (simp add: ins_walk32.simps [of h key msk bt])
    next
      case (Some nd)
      let ?c = "child nd (key AND bt \<noteq> 0)"
      have c: "(if key AND bt \<noteq> 0 then rn_right nd else rn_left nd) = ?c" by (simp add: child_def)
      show ?thesis
      proof (cases "?c = 0")
        case True
        have "ins_walk32 h key msk bt node nxt = Some (bt, node, 0)"
          using False True Some by (subst ins_walk32.simps) (auto simp: child_def Let_def split: if_splits)
        then show ?thesis using True Some p by auto
      next
        case nz: False
        have "ins_walk32 h key msk bt node nxt = ins_walk32 h key msk (drop_bit 1 bt) ?c ?c"
          using False nz Some by (subst ins_walk32.simps) (auto simp: child_def Let_def split: if_splits)
        then show ?thesis using 1 [OF False Some refl] nz Some p by (simp only: c) auto
      qed
    qed
  qed
qed

lemma ins_extend32_eq: "ins_extend32 ps t key msk bt node = extend ps t (path32 key msk bt) node"
proof (induction ps t key msk bt node rule: ins_extend32.induct)
  case (1 ps t key msk bt node)
  show ?case
  proof (cases "bt AND msk = 0")
    case True
    then show ?thesis by (simp add: ins_extend32.simps path32.simps)
  next
    case False
    then have p: "path32 key msk bt = (key AND bt \<noteq> 0) # path32 key msk (drop_bit 1 bt)"
      by (subst path32.simps) simp
    show ?thesis
      unfolding p extend.simps by (subst ins_extend32.simps) (use False 1 in \<open>auto split: option.splits\<close>)
  qed
qed

lemma insert32_eq: "ngx_radix32tree_insert ps t key msk v = insert_bits ps t (path32 key msk 0x80000000) v"
proof -
  let ?w = "walk (rt_heap t) (path32 key msk 0x80000000) (rt_root t) (rt_root t)"
  note w = ins_walk32_eq [of "rt_heap t" key msk "0x80000000" "rt_root t" "rt_root t"]
  show ?thesis
  proof (cases ?w)
    case None
    then show ?thesis using w by (simp add: ngx_radix32tree_insert_def insert_bits_def)
  next
    case (Some r)
    obtain rest n nx where r: "r = (rest, n, nx)" by (rule prod_cases3)
    with Some w obtain bt' where
      "ins_walk32 (rt_heap t) key msk 0x80000000 (rt_root t) (rt_root t) = Some (bt', n, nx)"
      "path32 key msk bt' = rest" by auto
    then show ?thesis using Some r
      by (simp add: ngx_radix32tree_insert_def insert_bits_def ins_extend32_eq)
  qed
qed

lemma del_walk32_eq: "del_walk32 h key msk bt node = del_walk h (path32 key msk bt) node"
proof (induction h key msk bt node rule: del_walk32.induct)
  case (1 h key msk bt node)
  show ?case
  proof (cases "bt AND msk = 0")
    case True
    then show ?thesis by (simp add: del_walk32.simps path32.simps)
  next
    case False
    then have p: "path32 key msk bt = (key AND bt \<noteq> 0) # path32 key msk (drop_bit 1 bt)"
      by (subst path32.simps) simp
    show ?thesis
      unfolding p del_walk.simps
      by (subst del_walk32.simps) (use False 1 in \<open>auto simp: child_def split: option.splits\<close>)
  qed
qed

lemma path128_step:
  assumes "i < 16" "bt AND msk ! i \<noteq> 0"
  shows "path128 key msk i bt = (key ! i AND bt \<noteq> 0) #
    (if drop_bit 1 bt = 0 then path128 key msk (i + 1) 0x80 else path128 key msk i (drop_bit 1 bt))"
  using assms by (subst path128.simps) simp

lemma path128_end: "16 \<le> i \<or> bt AND msk ! i = 0 \<Longrightarrow> path128 key msk i bt = []"
  by (subst path128.simps) auto

lemma path128_zero [simp]: "path128 key msk i 0 = []"
  by (simp add: path128_end)

lemma ins_walk128_eq:
  "length key = 16 \<Longrightarrow> length msk = 16 \<Longrightarrow> i < 16 \<Longrightarrow>
   (case walk h (path128 key msk i bt) node nxt of
      None \<Rightarrow> ins_walk128 h key msk i bt node nxt = None
    | Some (rest, n, nx) \<Rightarrow> \<exists>i' bt'. ins_walk128 h key msk i bt node nxt = Some (i', bt', n, nx)
        \<and> (nx = 0 \<longrightarrow> i' < 16 \<and> path128 key msk i' bt' = rest))"
proof (induction h key msk i bt node nxt rule: ins_walk128.induct)
  case (1 h key msk i bt node nxt)
  have l: "load msk i = Some (msk ! i)" "load key i = Some (key ! i)" using 1 by (simp_all add: load_Some)
  show ?case
  proof (cases "bt AND msk ! i = 0")
    case True
    then show ?thesis using l 1(5) by (auto simp: path128_end ins_walk128.simps [of h key msk i])
  next
    case False
    note p = path128_step [OF 1(5) False, of key]
    show ?thesis
    proof (cases "h node")
      case None
      then show ?thesis using False l by (simp add: p ins_walk128.simps [of h key msk i])
    next
      case (Some nd)
      let ?c = "child nd (key ! i AND bt \<noteq> 0)"
      have w: "ins_walk128 h key msk i bt node nxt =
        (if ?c = 0 then Some (i, bt, node, 0)
         else if drop_bit 1 bt = 0 then
           (if i + 1 = 16 then Some (i + 1, drop_bit 1 bt, ?c, ?c) else ins_walk128 h key msk (i + 1) 0x80 ?c ?c)
         else ins_walk128 h key msk i (drop_bit 1 bt) ?c ?c)"
        using False l Some by (subst ins_walk128.simps) (simp add: child_def Let_def)
      have wp: "walk h (path128 key msk i bt) node nxt =
        (if ?c = 0 then Some (path128 key msk i bt, node, 0)
         else walk h (if drop_bit 1 bt = 0 then path128 key msk (i + 1) 0x80 else path128 key msk i (drop_bit 1 bt)) ?c ?c)"
        using Some by (simp add: p)
      consider "?c = 0" | "?c \<noteq> 0" "drop_bit 1 bt = 0" "i + 1 = 16" | "?c \<noteq> 0" "drop_bit 1 bt = 0" "i + 1 \<noteq> 16"
        | "?c \<noteq> 0" "drop_bit 1 bt \<noteq> 0" by blast
      then show ?thesis
      proof cases
        case 1
        then show ?thesis using w wp \<open>i < 16\<close> by simp
      next
        case 2
        then show ?thesis using w wp by (simp add: path128_end)
      next
        case 3
        then have e: "ins_walk128 h key msk i bt node nxt = ins_walk128 h key msk (i + 1) 0x80 ?c ?c"
          "walk h (path128 key msk i bt) node nxt = walk h (path128 key msk (i + 1) 0x80) ?c ?c"
          and i: "i + 1 < 16" using w wp 1(5) by simp_all
        show ?thesis unfolding e
          using 1(1) [OF l(1) False l(2) Some refl, folded child_def, OF 3 1(3,4) i] .
      next
        case 4
        then have e: "ins_walk128 h key msk i bt node nxt = ins_walk128 h key msk i (drop_bit 1 bt) ?c ?c"
          "walk h (path128 key msk i bt) node nxt = walk h (path128 key msk i (drop_bit 1 bt)) ?c ?c"
          using w wp by simp_all
        show ?thesis unfolding e
          using 1(2) [OF l(1) False l(2) Some refl, folded child_def, OF 4 1(3-5)] .
      qed
    qed
  qed
qed

lemma ins_extend128_eq:
  "length key = 16 \<Longrightarrow> length msk = 16 \<Longrightarrow> i < 16 \<Longrightarrow>
   ins_extend128 ps t key msk i bt node = extend ps t (path128 key msk i bt) node"
proof (induction ps t key msk i bt node rule: ins_extend128.induct)
  case (1 ps t key msk i bt node)
  have l: "load msk i = Some (msk ! i)" "load key i = Some (key ! i)" using 1 by (simp_all add: load_Some)
  show ?case
  proof (cases "bt AND msk ! i = 0")
    case True
    then show ?thesis using l by (simp add: ins_extend128.simps path128_end)
  next
    case False
    show ?thesis
    proof (cases "ngx_radix_alloc ps t")
      case None
      then show ?thesis unfolding path128_step [OF 1(5) False]
        using False l by (subst ins_extend128.simps) simp
    next
      case (Some r)
      obtain t1 n where r: "r = (t1, n)" by (rule prod.exhaust)
      let ?link = "Option.bind (init_node t1 n node) (\<lambda>t. set_child t node (key ! i AND bt \<noteq> 0) n)"
      have e: "ins_extend128 ps t key msk i bt node =
        (if n = 0 then Some (t1, None) else (case ?link of None \<Rightarrow> None | Some t2 \<Rightarrow>
           if drop_bit 1 bt = 0 then (if i + 1 = 16 then Some (t2, Some n) else ins_extend128 ps t2 key msk (i + 1) 0x80 n)
           else ins_extend128 ps t2 key msk i (drop_bit 1 bt) n))"
        using False l Some r by (subst ins_extend128.simps) simp
      have x: "extend ps t (path128 key msk i bt) node =
        (if n = 0 then Some (t1, None) else (case ?link of None \<Rightarrow> None | Some t2 \<Rightarrow>
           extend ps t2 (if drop_bit 1 bt = 0 then path128 key msk (i + 1) 0x80 else path128 key msk i (drop_bit 1 bt)) n))"
        unfolding path128_step [OF 1(5) False] using Some r by simp
      have c: "Option.bind (init_node t1 n node) (\<lambda>t. Option.bind (load key i) (\<lambda>ki. set_child t node (ki AND bt \<noteq> 0) n)) = ?link"
        using l by simp
      show ?thesis
      proof (cases "n = 0 \<or> ?link = None")
        case True
        then show ?thesis using e x by auto
      next
        case nz: False
        then obtain t2 where t2: "?link = Some t2" by auto
        have "i + 1 = 16 \<Longrightarrow> path128 key msk (i + 1) 0x80 = []" by (simp add: path128_end)
        have n0: "n \<noteq> 0" using nz by simp
        note ct = trans [OF c t2]
        show ?thesis
        proof (cases "drop_bit 1 bt = 0")
          case True
          show ?thesis
          proof (cases "i + 1 = 16")
            case True
            then show ?thesis using e x t2 nz \<open>drop_bit 1 bt = 0\<close> by (simp add: path128_end)
          next
            case i: False
            have i1: "i + 1 < 16" using i 1(5) by simp
            from 1(1) [OF l(1) False Some r [symmetric] n0 ct True i 1(3,4) i1]
            show ?thesis using e x t2 n0 True i by simp
          qed
        next
          case False
          from 1(2) [OF l(1) \<open>bt AND msk ! i \<noteq> 0\<close> Some r [symmetric] n0 ct False 1(3-5)]
          show ?thesis using e x t2 n0 False by simp
        qed
      qed
    qed
  qed
qed

lemma insert128_eq:
  assumes "length key = 16" "length msk = 16"
  shows "ngx_radix128tree_insert ps t key msk v = insert_bits ps t (path128 key msk 0 0x80) v"
proof -
  let ?w = "walk (rt_heap t) (path128 key msk 0 0x80) (rt_root t) (rt_root t)"
  note w = ins_walk128_eq [OF assms, of 0 "rt_heap t" "0x80" "rt_root t" "rt_root t"]
  show ?thesis
  proof (cases ?w)
    case None
    then show ?thesis using w by (simp add: ngx_radix128tree_insert_def insert_bits_def)
  next
    case (Some r)
    obtain rest n nx where r: "r = (rest, n, nx)" by (rule prod_cases3)
    with Some w obtain i' bt' where
      i: "ins_walk128 (rt_heap t) key msk 0 0x80 (rt_root t) (rt_root t) = Some (i', bt', n, nx)"
      "nx = 0 \<Longrightarrow> i' < 16 \<and> path128 key msk i' bt' = rest" by auto
    show ?thesis
    proof (cases "nx = 0")
      case True
      with i(2) have "i' < 16" "path128 key msk i' bt' = rest" by auto
      then show ?thesis using True i(1) Some r
        by (simp add: ngx_radix128tree_insert_def insert_bits_def ins_extend128_eq [OF assms])
    next
      case False
      then show ?thesis using i(1) Some r by (simp add: ngx_radix128tree_insert_def insert_bits_def)
    qed
  qed
qed

lemma del_walk_0 [simp]: "del_walk h bs 0 = Some 0"
  by (cases bs) simp_all

lemma del_walk128_eq:
  "length key = 16 \<Longrightarrow> length msk = 16 \<Longrightarrow> i < 16 \<Longrightarrow>
   del_walk128 h key msk i bt node = del_walk h (path128 key msk i bt) node"
proof (induction h key msk i bt node rule: del_walk128.induct)
  case (1 h key msk i bt node)
  have l: "load msk i = Some (msk ! i)" "load key i = Some (key ! i)" using 1 by (simp_all add: load_Some)
  consider "node = 0" | "node \<noteq> 0" "bt AND msk ! i = 0" | "node \<noteq> 0" "bt AND msk ! i \<noteq> 0" by blast
  then show ?case
  proof cases
    case 3
    note p = path128_step [OF 1(5) 3(2), of key]
    show ?thesis
    proof (cases "h node")
      case None
      then show ?thesis using 3 l by (simp add: p del_walk128.simps [of h key msk i bt])
    next
      case (Some nd)
      let ?c = "child nd (key ! i AND bt \<noteq> 0)"
      have w: "del_walk128 h key msk i bt node =
        (if drop_bit 1 bt = 0 then (if i + 1 = 16 then Some ?c else del_walk128 h key msk (i + 1) 0x80 ?c)
         else del_walk128 h key msk i (drop_bit 1 bt) ?c)"
        using 3 l Some by (subst del_walk128.simps) (simp add: child_def Let_def)
      have wp: "del_walk h (path128 key msk i bt) node =
        del_walk h (if drop_bit 1 bt = 0 then path128 key msk (i + 1) 0x80 else path128 key msk i (drop_bit 1 bt)) ?c"
        using Some 3 by (simp add: p)
      consider "drop_bit 1 bt = 0" "i + 1 = 16" | "drop_bit 1 bt = 0" "i + 1 \<noteq> 16" | "drop_bit 1 bt \<noteq> 0" by blast
      then show ?thesis
      proof cases
        case 1
        then show ?thesis using w wp by (simp add: path128_end)
      next
        case b: 2
        then have "i + 1 < 16" using \<open>i < 16\<close> by simp
        from 1(1) [OF 3(1) l(1) 3(2) l(2) Some refl, folded child_def, OF b 1(3,4) this]
        show ?thesis using w wp b by simp
      next
        case b: 3
        from 1(2) [OF 3(1) l(1) 3(2) l(2) Some refl, folded child_def, OF b 1(3-5)]
        show ?thesis using w wp b by simp
      qed
    qed
  qed (use l in \<open>simp_all add: del_walk128.simps path128_end\<close>)
qed

text \<open>A lookup goes on for as long as there are nodes: below the last bit of a 32-bit key it would take
  the left child, below the last bit of a 128-bit key it reads behind the key.\<close>

lemma find_walk32_eq:
  "find_walk h (path32 key (- 1) bt @ [False]) val node = Some r \<Longrightarrow> find_walk32 h key bt val node = Some r"
proof (induction key "- 1 :: u32" bt arbitrary: val node rule: path32.induct)
  case (1 key bt)
  show ?case
  proof (cases "node = 0")
    case True
    then show ?thesis using 1 by (subst find_walk32.simps) (simp add: find_walk.simps)
  next
    case False
    then obtain nd where nd: "h node = Some nd"
      using "1.prems" by (subst (asm) find_walk.simps) (auto split: option.splits)
    let ?v = "if rn_value nd \<noteq> NGX_RADIX_NO_VALUE then rn_value nd else val"
    show ?thesis
    proof (cases "bt = 0")
      case True
      then have "find_walk h [] ?v (rn_left nd) = Some r"
        using "1.prems" False nd by (simp add: path32.simps find_walk.simps [of h "[False]"] child_def)
      then have "rn_left nd = 0" "?v = r" by (auto simp: find_walk.simps split: if_splits option.splits)
      moreover have "find_walk32 h key 0 ?v 0 = Some ?v" by (subst find_walk32.simps) simp
      ultimately show ?thesis using True False nd by (subst find_walk32.simps) simp
    next
      case bt: False
      have p: "path32 key (- 1) bt = (key AND bt \<noteq> 0) # path32 key (- 1) (drop_bit 1 bt)"
        using bt by (subst path32.simps) simp
      have "find_walk h (path32 key (- 1) (drop_bit 1 bt) @ [False]) ?v (child nd (key AND bt \<noteq> 0)) = Some r"
        using "1.prems" False nd unfolding p by (subst (asm) find_walk.simps) simp
      from 1(1) [OF _ this] bt have "find_walk32 h key (drop_bit 1 bt) ?v (child nd (key AND bt \<noteq> 0)) = Some r"
        by simp
      then show ?thesis using False nd by (subst find_walk32.simps) (simp add: child_def)
    qed
  qed
qed

lemma find_walk128_eq:
  "length key = 16 \<Longrightarrow> i < 16 \<Longrightarrow> bt \<noteq> 0 \<Longrightarrow>
   find_walk h (path128 key (replicate 16 (- 1)) i bt) val node = Some r \<Longrightarrow>
   find_walk128 h key i bt val node = Some r"
proof (induction key "replicate 16 (- 1) :: u8 list" i bt arbitrary: val node rule: path128.induct)
  case (1 key i bt)
  have l: "load key i = Some (key ! i)" using 1 by (simp add: load_Some)
  have b: "bt AND replicate 16 (- 1) ! i \<noteq> 0" using 1 by simp
  show ?case
  proof (cases "node = 0")
    case True
    then show ?thesis using 1 by (subst find_walk128.simps) (simp add: find_walk.simps)
  next
    case False
    then obtain nd where nd: "h node = Some nd"
      using "1.prems" by (subst (asm) find_walk.simps) (auto split: option.splits)
    let ?v = "if rn_value nd \<noteq> NGX_RADIX_NO_VALUE then rn_value nd else val" and ?c = "child nd (key ! i AND bt \<noteq> 0)"
    have st: "find_walk128 h key i bt val node =
      (if drop_bit 1 bt = 0 then find_walk128 h key (i + 1) 0x80 ?v ?c else find_walk128 h key i (drop_bit 1 bt) ?v ?c)"
      using False nd l by (subst find_walk128.simps) (simp add: child_def Let_def)
    have w: "find_walk h (if drop_bit 1 bt = 0 then path128 key (replicate 16 (- 1)) (i + 1) 0x80
        else path128 key (replicate 16 (- 1)) i (drop_bit 1 bt)) ?v ?c = Some r"
      using "1.prems"(4) False nd unfolding path128_step [OF "1.prems"(2) b] by (subst (asm) find_walk.simps) simp
    consider "drop_bit 1 bt = 0" "i + 1 = 16" | "drop_bit 1 bt = 0" "i + 1 < 16" | "drop_bit 1 bt \<noteq> 0"
      using "1.prems"(2) by linarith
    then show ?thesis
    proof cases
      case c: 1
      then have "find_walk h [] ?v ?c = Some r" using w by (simp add: path128_end)
      then have "?c = 0" "?v = r" by (subst (asm) find_walk.simps, auto split: if_splits option.splits)+
      then show ?thesis using st c by (simp add: find_walk128.simps [of h key _ _ _ 0])
    next
      case c: 2
      then show ?thesis using st w 1(1) [OF conjI [OF "1.prems"(2) b] c(1) "1.prems"(1) c(2)] by simp
    next
      case c: 3
      then show ?thesis using st w 1(2) [OF conjI [OF "1.prems"(2) b] c "1.prems"(1,2) c] by simp
    qed
  qed
qed

end
