(* ===== verification/Radix_Correct.thy ===== *)
theory Radix_Correct
  imports Radix
begin

text \<open>
  The radix tree as a partial map from bit strings to values. \<open>radix_inv\<close> is the invariant of the
  linked structure: the nodes form a tree with exact parent pointers, the free list and the unused
  space of the pages are disjoint from it. Insertion, deletion and lookup are shown to be the update,
  the removal and the longest-prefix lookup of that map; \<open>prunes\<close> says which nodes a deletion takes out
  of the tree and that they go to the free list.
\<close>

section \<open>Nodes reached by bits\<close>

primrec at :: "rheap \<Rightarrow> nat \<Rightarrow> bool list \<Rightarrow> nat option" where
  "at h p [] = Some p"
| "at h p (b # bs) =
    (case h p of None \<Rightarrow> None | Some nd \<Rightarrow> if child nd b = 0 then None else at h (child nd b) bs)"

lemma at_append: "at h p (xs @ ys) = Option.bind (at h p xs) (\<lambda>q. at h q ys)"
  by (induction xs arbitrary: p) (auto split: option.splits)

lemma at_snoc:
  "at h p (xs @ [b]) = (case at h p xs of None \<Rightarrow> None | Some q \<Rightarrow>
     (case h q of None \<Rightarrow> None | Some nd \<Rightarrow> if child nd b = 0 then None else Some (child nd b)))"
  by (auto simp: at_append split: option.splits)

definition node_ok :: "rheap \<Rightarrow> nat set \<Rightarrow> nat \<Rightarrow> nat \<Rightarrow> bool" where
  "node_ok h S root p \<longleftrightarrow> (\<exists>nd. h p = Some nd \<and>
    (\<forall>b. child nd b \<noteq> 0 \<longrightarrow> child nd b \<in> S \<and> child nd b \<noteq> root \<and>
       (\<exists>c. h (child nd b) = Some c \<and> rn_parent c = p)) \<and>
    (child nd True \<noteq> 0 \<longrightarrow> child nd True \<noteq> child nd False))"

definition rtree_ok :: "rheap \<Rightarrow> nat \<Rightarrow> nat set \<Rightarrow> bool" where
  "rtree_ok h root S \<longleftrightarrow> root \<in> S \<and> 0 \<notin> S \<and> (\<forall>p \<in> S. node_ok h S root p) \<and>
    (\<exists>nd. h root = Some nd \<and> rn_parent nd = 0)"

lemma node_okD:
  assumes "rtree_ok h root S" "p \<in> S"
  obtains nd where "h p = Some nd"
    "\<And>b. child nd b \<noteq> 0 \<Longrightarrow> child nd b \<in> S \<and> child nd b \<noteq> root \<and> (\<exists>c. h (child nd b) = Some c \<and> rn_parent c = p)"
    "\<And>a b. child nd a \<noteq> 0 \<Longrightarrow> child nd a = child nd b \<Longrightarrow> a = b"
proof -
  from assms obtain nd where nd: "h p = Some nd"
    "\<forall>b. child nd b \<noteq> 0 \<longrightarrow> child nd b \<in> S \<and> child nd b \<noteq> root \<and> (\<exists>c. h (child nd b) = Some c \<and> rn_parent c = p)"
    "child nd True \<noteq> 0 \<longrightarrow> child nd True \<noteq> child nd False"
    unfolding rtree_ok_def node_ok_def by blast
  have "a = b" if "child nd a \<noteq> 0" "child nd a = child nd b" for a b
    using that nd(3) by (cases a; cases b) auto
  with nd that show ?thesis by blast
qed

lemma at_in_S:
  assumes "rtree_ok h root S" shows "at h root xs = Some p \<Longrightarrow> p \<in> S"
proof (induction xs arbitrary: p rule: rev_induct)
  case Nil
  then show ?case using assms by (simp add: rtree_ok_def)
next
  case (snoc b xs)
  then obtain q where q: "at h root xs = Some q" by (auto simp: at_snoc split: option.splits)
  then have "q \<in> S" by (rule snoc.IH)
  with assms obtain nd where "h q = Some nd" "child nd b \<noteq> 0 \<Longrightarrow> child nd b \<in> S" by (rule node_okD) blast
  then show ?case using snoc.prems q by (auto simp: at_snoc split: if_splits)
qed

lemma at_nonzero: "rtree_ok h root S \<Longrightarrow> at h root xs = Some p \<Longrightarrow> p \<noteq> 0"
  using at_in_S [of h root S xs p] unfolding rtree_ok_def by metis

text \<open>The last step of a nonempty path.\<close>

lemma at_last:
  assumes ok: "rtree_ok h root S" and p: "at h root (xs @ [b]) = Some p"
  obtains q nd c where "at h root xs = Some q" "q \<in> S" "h q = Some nd" "child nd b = p" "p \<noteq> 0" "p \<noteq> root" "p \<in> S"
    "h p = Some c" "rn_parent c = q"
proof -
  from p obtain q where q: "at h root xs = Some q" by (auto simp: at_snoc split: option.splits)
  have qS: "q \<in> S" by (rule at_in_S [OF ok q])
  from ok qS obtain nd where nd: "h q = Some nd"
    "child nd b \<noteq> 0 \<Longrightarrow> child nd b \<in> S \<and> child nd b \<noteq> root \<and> (\<exists>c. h (child nd b) = Some c \<and> rn_parent c = q)"
    by (rule node_okD) blast
  from p q nd(1) have "child nd b \<noteq> 0" "child nd b = p" by (auto simp: at_snoc split: if_splits)
  with nd q qS show ?thesis by (auto intro: that)
qed

lemma at_inj:
  assumes ok: "rtree_ok h root S"
  shows "at h root xs = Some p \<Longrightarrow> at h root ys = Some p \<Longrightarrow> xs = ys"
proof (induction xs arbitrary: p ys rule: rev_induct)
  case Nil
  then have "p = root" by simp
  show ?case
  proof (cases ys rule: rev_cases)
    case (snoc zs c)
    with Nil(2) have "at h root (zs @ [c]) = Some p" by simp
    with \<open>p = root\<close> show ?thesis using ok by (metis at_last)
  qed simp
next
  case (snoc b xs)
  from ok snoc.prems(1) obtain q nd c where q: "at h root xs = Some q" "q \<in> S" "h q = Some nd" "child nd b = p"
    "p \<noteq> 0" "p \<noteq> root" "h p = Some c" "rn_parent c = q" by (rule at_last)
  show ?case
  proof (cases ys rule: rev_cases)
    case Nil
    with snoc.prems(2) q(6) show ?thesis by simp
  next
    case s: (snoc zs a)
    with snoc.prems(2) have "at h root (zs @ [a]) = Some p" by simp
    with ok obtain q' nd' c' where q': "at h root zs = Some q'" "h q' = Some nd'" "child nd' a = p" "h p = Some c'" "rn_parent c' = q'"
      by (rule at_last)
    then have "q' = q" using q by simp
    then have "xs = zs" using snoc.IH q(1) q'(1) by blast
    moreover from ok q(2) obtain nd2 where "h q = Some nd2" "\<And>a b. child nd2 a \<noteq> 0 \<Longrightarrow> child nd2 a = child nd2 b \<Longrightarrow> a = b"
      by (rule node_okD) blast
    then have "a = b" using q(3-5) q'(2,3) \<open>q' = q\<close> by auto
    ultimately show ?thesis using s by simp
  qed
qed

section \<open>Changing the tree\<close>

definition with_child :: "rnode \<Rightarrow> bool \<Rightarrow> nat \<Rightarrow> rnode" where
  "with_child nd b n = (if b then nd\<lparr>rn_right := n\<rparr> else nd\<lparr>rn_left := n\<rparr>)"

lemma with_child_simps [simp]:
  "child (with_child nd b n) c = (if c = b then n else child nd c)"
  "rn_parent (with_child nd b n) = rn_parent nd" "rn_value (with_child nd b n) = rn_value nd"
  by (auto simp: with_child_def child_def)

lemma child_update [simp]:
  "child (nd\<lparr>rn_value := v\<rparr>) b = child nd b"
  "child \<lparr>rn_right = 0, rn_left = 0, rn_parent = q, rn_value = v\<rparr> b = 0"
  by (simp_all add: child_def)

definition new_node :: "nat \<Rightarrow> rnode" where
  "new_node q = \<lparr>rn_right = 0, rn_left = 0, rn_parent = q, rn_value = NGX_RADIX_NO_VALUE\<rparr>"

lemma new_node_simps [simp]:
  "child (new_node q) b = 0" "rn_parent (new_node q) = q" "rn_value (new_node q) = NGX_RADIX_NO_VALUE"
  by (simp_all add: new_node_def)

text \<open>Hanging a new node \<open>n\<close> under the node \<open>p\<close> that the bits \<open>xs\<close> lead to.\<close>

lemma node_okI:
  assumes "h p = Some nd"
    and "\<And>b. child nd b \<noteq> 0 \<Longrightarrow> child nd b \<in> S \<and> child nd b \<noteq> root \<and> (\<exists>c. h (child nd b) = Some c \<and> rn_parent c = p)"
    and "child nd True \<noteq> 0 \<Longrightarrow> child nd True \<noteq> child nd False"
  shows "node_ok h S root p"
  unfolding node_ok_def using assms by blast

lemma link_ok:
  assumes ok: "rtree_ok h root S" and p: "at h root xs = Some p" "h p = Some nd" "child nd b = 0"
    and n: "n \<notin> S" "n \<noteq> 0"
  defines "h' \<equiv> h(n \<mapsto> new_node p, p \<mapsto> with_child nd b n)"
  shows "rtree_ok h' root (insert n S)"
    and "at h' root ys = (if ys = xs @ [b] then Some n else at h root ys)"
proof -
  have pS: "p \<in> S" by (rule at_in_S [OF ok p(1)])
  have np: "n \<noteq> p" using pS n by auto
  have rS: "root \<in> S" using ok by (simp add: rtree_ok_def)
  have hn: "h' n = Some (new_node p)" and hp: "h' p = Some (with_child nd b n)"
    and ho: "\<And>q. q \<noteq> n \<Longrightarrow> q \<noteq> p \<Longrightarrow> h' q = h q"
    using np by (simp_all add: h'_def)
  have par: "\<exists>c'. h' q = Some c' \<and> rn_parent c' = rn_parent c" if "q \<in> S" "h q = Some c" for q c
  proof (cases "q = p")
    case True
    then show ?thesis using that p(2) hp by simp
  next
    case False
    moreover have "q \<noteq> n" using that(1) n(1) by blast
    ultimately show ?thesis using that(2) ho by simp
  qed
  have kids: "child nd2 c \<noteq> 0 \<Longrightarrow> child nd2 c \<in> insert n S \<and> child nd2 c \<noteq> root \<and>
      (\<exists>k. h' (child nd2 c) = Some k \<and> rn_parent k = q)" if "q \<in> S" "h q = Some nd2" for q nd2 c
  proof -
    assume c: "child nd2 c \<noteq> 0"
    from ok that(1) obtain nd3 where "h q = Some nd3"
        "\<And>b. child nd3 b \<noteq> 0 \<Longrightarrow> child nd3 b \<in> S \<and> child nd3 b \<noteq> root \<and> (\<exists>c. h (child nd3 b) = Some c \<and> rn_parent c = q)"
      by (rule node_okD) blast
    with c that(2) obtain k where "child nd2 c \<in> S" "child nd2 c \<noteq> root" "h (child nd2 c) = Some k" "rn_parent k = q"
      by auto
    with par show ?thesis by blast
  qed
  have dist: "child nd2 True \<noteq> 0 \<Longrightarrow> child nd2 True \<noteq> child nd2 False" if "q \<in> S" "h q = Some nd2" for q nd2
  proof -
    from ok that(1) obtain nd3 where "h q = Some nd3"
        "child nd3 True \<noteq> 0 \<Longrightarrow> child nd3 True = child nd3 False \<Longrightarrow> True = False"
      by (rule node_okD) blast
    then show "child nd2 True \<noteq> 0 \<Longrightarrow> child nd2 True \<noteq> child nd2 False" using that(2) by auto
  qed
  have node_ok: "node_ok h' (insert n S) root q" if q: "q \<in> insert n S" for q
  proof -
    consider "q = n" | "q = p" | "q \<in> S" "q \<noteq> p" "q \<noteq> n" using q by blast
    then show ?thesis
    proof cases
      case 1
      then show ?thesis using hn by (intro node_okI [of h' q "new_node p"]) simp_all
    next
      case 2
      have nk: "child nd c \<noteq> n" for c
      proof (cases "child nd c = 0")
        case False
        from ok pS obtain nd3 where "h p = Some nd3" "\<And>b. child nd3 b \<noteq> 0 \<Longrightarrow> child nd3 b \<in> S"
          by (rule node_okD) blast
        with False p(2) n(1) show ?thesis by auto
      qed (use n in simp)
      show ?thesis unfolding 2
      proof (rule node_okI [of h' p "with_child nd b n", OF hp])
        show "child (with_child nd b n) c \<in> insert n S \<and> child (with_child nd b n) c \<noteq> root \<and>
            (\<exists>k. h' (child (with_child nd b n) c) = Some k \<and> rn_parent k = p)"
          if "child (with_child nd b n) c \<noteq> 0" for c
          using that kids [OF pS p(2), of c] hn n rS by auto
        show "child (with_child nd b n) True \<noteq> child (with_child nd b n) False"
          if "child (with_child nd b n) True \<noteq> 0"
          using that dist [OF pS p(2)] nk [of True] nk [of False] p(3) by (cases b) auto
      qed
    next
      case 3
      from 3 ok obtain nd2 where nd2: "h q = Some nd2" by (auto elim: node_okD)
      show ?thesis
        by (rule node_okI [of h' q nd2]) (use 3 nd2 ho kids dist in auto)
    qed
  qed
  have root: "\<exists>k. h' root = Some k \<and> rn_parent k = 0"
    using ok rS par unfolding rtree_ok_def by metis
  show "rtree_ok h' root (insert n S)"
    unfolding rtree_ok_def using node_ok n rS root ok by (auto simp: rtree_ok_def)
  show "at h' root ys = (if ys = xs @ [b] then Some n else at h root ys)"
  proof (induction ys rule: rev_induct)
    case (snoc c ys)
    consider "ys = xs @ [b]" | "ys \<noteq> xs @ [b]" "at h root ys = None"
      | q where "ys \<noteq> xs @ [b]" "at h root ys = Some q" by blast
    then show ?case
    proof cases
      case 1
      have "at h root ys = None" using 1 p by (simp add: at_snoc)
      then have "at h root (ys @ [c]) = None" by (simp add: at_append)
      moreover have "at h' root ys = Some n" using snoc 1 by simp
      then have "at h' root (ys @ [c]) = None" using hn by (simp add: at_append)
      moreover have "ys @ [c] \<noteq> xs @ [b]" using 1 by simp
      ultimately show ?thesis by simp
    next
      case 2
      moreover have "ys \<noteq> xs" using 2 p by auto
      ultimately show ?thesis using snoc by (simp add: at_snoc)
    next
      case 3
      have qS: "q \<in> S" by (rule at_in_S [OF ok 3(2)])
      show ?thesis
      proof (cases "q = p")
        case True
        then have "ys = xs" using at_inj [OF ok] 3(2) p(1) by blast
        then show ?thesis using snoc 3 True p hp n by (auto simp: at_snoc)
      next
        case False
        then have "ys \<noteq> xs" using 3 p by auto
        moreover have "q \<noteq> n" using qS n(1) by auto
        then have "h' q = h q" using False ho by simp
        ultimately show ?thesis using snoc 3 by (simp add: at_snoc)
      qed
    qed
  qed simp
qed

text \<open>Changing the value of a node.\<close>

lemma value_ok:
  fixes v :: u64
  assumes ok: "rtree_ok h root S" and p: "h p = Some nd"
  defines "h' \<equiv> h(p \<mapsto> nd\<lparr>rn_value := v\<rparr>)"
  shows "rtree_ok h' root S" and "at h' root ys = at h root ys"
proof -
  have par: "\<exists>c'. h' q = Some c' \<and> rn_parent c' = rn_parent c \<and> (\<forall>b. child c' b = child c b)" if "h q = Some c" for q c
    using that p by (cases "q = p") (auto simp: h'_def)
  have "node_ok h' S root q" if q: "q \<in> S" for q
  proof -
    from ok q obtain nd2 where nd2: "h q = Some nd2"
        "\<And>b. child nd2 b \<noteq> 0 \<Longrightarrow> child nd2 b \<in> S \<and> child nd2 b \<noteq> root \<and> (\<exists>c. h (child nd2 b) = Some c \<and> rn_parent c = q)"
        "child nd2 True \<noteq> 0 \<Longrightarrow> child nd2 True = child nd2 False \<Longrightarrow> True = False"
      by (rule node_okD) blast
    from par [OF nd2(1)] obtain nd3 where nd3: "h' q = Some nd3" "\<And>b. child nd3 b = child nd2 b" by blast
    show ?thesis
    proof (rule node_okI [of h' q nd3, OF nd3(1)])
      fix b assume "child nd3 b \<noteq> 0"
      with nd2(2) [of b] obtain c where "child nd2 b \<in> S" "child nd2 b \<noteq> root" "h (child nd2 b) = Some c" "rn_parent c = q"
        by (auto simp: nd3(2))
      with par [of "child nd2 b" c] show "child nd3 b \<in> S \<and> child nd3 b \<noteq> root \<and> (\<exists>c. h' (child nd3 b) = Some c \<and> rn_parent c = q)"
        by (auto simp: nd3(2))
    qed (use nd2(3) nd3(2) in auto)
  qed
  moreover have "\<exists>k. h' root = Some k \<and> rn_parent k = 0" using ok par unfolding rtree_ok_def by metis
  ultimately show "rtree_ok h' root S" using ok by (simp add: rtree_ok_def)
  show "at h' root ys = at h root ys"
  proof (induction ys rule: rev_induct)
    case (snoc c ys)
    show ?case
    proof (cases "at h root ys")
      case None
      then show ?thesis using snoc by (simp add: at_append)
    next
      case (Some q)
      then show ?thesis using snoc p by (cases "q = p") (simp_all add: at_snoc h'_def)
    qed
  qed simp
qed

text \<open>Taking a leaf out; what becomes of its node does not matter.\<close>

lemma unlink_ok:
  fixes junk :: rnode
  assumes ok: "rtree_ok h root S" and q: "at h root (xs @ [b]) = Some q" "h q = Some nd" "\<And>c. child nd c = 0"
    and p: "at h root xs = Some p" "h p = Some pnd"
  defines "h' \<equiv> h(p \<mapsto> with_child pnd b 0, q \<mapsto> junk)"
  shows "rtree_ok h' root (S - {q})"
    and "at h' root ys = (if ys = xs @ [b] then None else at h root ys)"
proof -
  from ok q(1) obtain p2 nd2 c where l: "at h root xs = Some p2" "p2 \<in> S" "h p2 = Some nd2" "child nd2 b = q" "q \<noteq> 0" "q \<noteq> root" "q \<in> S"
    "h q = Some c" "rn_parent c = p2" by (rule at_last)
  then have pq: "p \<in> S" "child pnd b = q" using p by auto
  have qp: "q \<noteq> p" using q(2,3) p(2) pq(2) l(5) by auto
  have rS: "root \<in> S - {q}" using ok l(6) by (simp add: rtree_ok_def)
  have hp: "h' p = Some (with_child pnd b 0)" and ho: "\<And>r. r \<noteq> q \<Longrightarrow> r \<noteq> p \<Longrightarrow> h' r = h r"
    using qp by (simp_all add: h'_def)
  have par: "\<exists>c'. h' r = Some c' \<and> rn_parent c' = rn_parent c" if "r \<noteq> q" "h r = Some c" for r c
    using that p(2) hp ho by (cases "r = p") auto
  have only: "r = p \<and> c = b" if "r \<in> S" "h r = Some nd3" "child nd3 c = q" for r nd3 c
  proof -
    from ok that(1) obtain nd4 where n4: "h r = Some nd4"
        "child nd4 c \<noteq> 0 \<Longrightarrow> (\<exists>k. h (child nd4 c) = Some k \<and> rn_parent k = r)"
      by (rule node_okD) blast
    then have "r = p2" using that l by auto
    then have rp: "r = p" using l(1) p(1) by simp
    from ok pq(1) obtain nd5 where "h p = Some nd5" "\<And>a b. child nd5 a \<noteq> 0 \<Longrightarrow> child nd5 a = child nd5 b \<Longrightarrow> a = b"
      by (rule node_okD) blast
    then have "c = b" using that rp p(2) pq(2) l(5) by auto
    with rp show ?thesis by simp
  qed
  have node_ok: "node_ok h' (S - {q}) root r" if r: "r \<in> S - {q}" for r
  proof -
    from r have "r \<in> S" by simp
    with ok obtain nd3 where n3: "h r = Some nd3"
        "\<And>b. child nd3 b \<noteq> 0 \<Longrightarrow> child nd3 b \<in> S \<and> child nd3 b \<noteq> root \<and> (\<exists>c. h (child nd3 b) = Some c \<and> rn_parent c = r)"
        "child nd3 True \<noteq> 0 \<Longrightarrow> child nd3 True = child nd3 False \<Longrightarrow> True = False"
      by (rule node_okD) blast
    have kid: "child nd3 c \<noteq> q \<Longrightarrow> child nd3 c \<noteq> 0 \<Longrightarrow> child nd3 c \<in> S - {q} \<and> child nd3 c \<noteq> root \<and>
        (\<exists>k. h' (child nd3 c) = Some k \<and> rn_parent k = r)" for c
      using n3(2) [of c] par [of "child nd3 c"] by fastforce
    show ?thesis
    proof (cases "r = p")
      case True
      then have nd: "nd3 = pnd" using n3(1) p(2) by simp
      show ?thesis unfolding True
      proof (rule node_okI [of h' p "with_child pnd b 0", OF hp])
        fix c assume "child (with_child pnd b 0) c \<noteq> 0"
        then have "c \<noteq> b" "child pnd c \<noteq> 0" by (auto split: if_splits)
        moreover have "child pnd c \<noteq> q" using only [OF pq(1) p(2), of c] \<open>c \<noteq> b\<close> by blast
        ultimately show "child (with_child pnd b 0) c \<in> S - {q} \<and> child (with_child pnd b 0) c \<noteq> root \<and>
            (\<exists>k. h' (child (with_child pnd b 0) c) = Some k \<and> rn_parent k = p)"
          using kid [of c] True nd by auto
      qed (use n3(3) nd in \<open>auto split: if_splits\<close>)
    next
      case False
      have "child nd3 c \<noteq> q" for c using only [OF \<open>r \<in> S\<close> n3(1), of c] False by blast
      moreover have "h' r = Some nd3" using ho False r n3(1) by simp
      ultimately show ?thesis using kid n3(3) by (intro node_okI [of h' r nd3]) auto
    qed
  qed
  have "\<exists>k. h' root = Some k \<and> rn_parent k = 0" using ok l(6) par unfolding rtree_ok_def by metis
  then show "rtree_ok h' root (S - {q})"
    unfolding rtree_ok_def using node_ok rS ok by (auto simp: rtree_ok_def)
  show "at h' root ys = (if ys = xs @ [b] then None else at h root ys)"
  proof (induction ys rule: rev_induct)
    case (snoc c ys)
    consider "ys = xs @ [b]" | "ys \<noteq> xs @ [b]" "at h root ys = None"
      | r where "ys \<noteq> xs @ [b]" "at h root ys = Some r" by blast
    then show ?case
    proof cases
      case 1
      then have "at h root ys = Some q" using q(1) by simp
      then have "at h root (ys @ [c]) = None" using q(2,3) by (simp add: at_append)
      moreover have "at h' root ys = None" using snoc 1 by simp
      then have "at h' root (ys @ [c]) = None" by (simp add: at_append)
      ultimately show ?thesis by simp
    next
      case 2
      moreover have "ys \<noteq> xs" using 2 p by auto
      ultimately show ?thesis using snoc by (simp add: at_append)
    next
      case 3
      have rS': "r \<in> S" by (rule at_in_S [OF ok 3(2)])
      have rq: "r \<noteq> q" using at_inj [OF ok 3(2)] q(1) 3(1) by blast
      show ?thesis
      proof (cases "r = p")
        case True
        then have "ys = xs" using at_inj [OF ok] 3(2) p(1) by blast
        then show ?thesis using snoc 3 True p hp by (auto simp: at_snoc)
      next
        case False
        then have "ys \<noteq> xs" using 3 p by auto
        moreover have "h' r = h r" using False rq ho by blast
        ultimately show ?thesis using snoc 3 by (simp add: at_snoc)
      qed
    qed
  qed simp
qed

section \<open>The free list and the pages\<close>

primrec fl_list :: "rheap \<Rightarrow> nat \<Rightarrow> nat list \<Rightarrow> bool" where
  "fl_list h p [] \<longleftrightarrow> p = 0"
| "fl_list h p (x # xs) \<longleftrightarrow> p = x \<and> p \<noteq> 0 \<and> (\<exists>nd. h p = Some nd \<and> fl_list h (rn_right nd) xs)"

lemma fl_list_frame: "\<forall>x \<in> set xs. h' x = h x \<Longrightarrow> fl_list h p xs \<Longrightarrow> fl_list h' p xs"
  by (induction xs arbitrary: p) auto

lemma fl_list_dom: "fl_list h p xs \<Longrightarrow> set xs \<subseteq> dom h"
  by (induction xs arbitrary: p) auto

definition page_slots :: "nat \<Rightarrow> nat \<Rightarrow> nat list" where
  "page_slots n a = map (\<lambda>k. a + node_size * k) [0..<n div node_size]"

text \<open>The addresses of the nodes still to be carved out, in order.\<close>

definition slots :: "nat \<Rightarrow> rtree \<Rightarrow> nat list" where
  "slots pagesize t = page_slots (rt_size t) (rt_start t) @ concat (map (\<lambda>(a, _). page_slots pagesize a) (rt_pages t))"

lemma page_slots_step:
  assumes "node_size \<le> n" shows "page_slots n a = a # page_slots (n - node_size) (a + node_size)"
proof -
  have "n div node_size = Suc ((n - node_size) div node_size)"
    using assms by (simp add: node_size_def le_div_geq)
  then show ?thesis
    by (simp add: page_slots_def map_upt_Suc algebra_simps del: upt_Suc)
qed

lemma page_slots_small: "n < node_size \<Longrightarrow> page_slots n a = []"
  by (simp add: page_slots_def node_size_def)

text \<open>The part of the state outside the tree: \<open>fl\<close> is the free list.\<close>

definition pool_ok :: "nat \<Rightarrow> rtree \<Rightarrow> nat set \<Rightarrow> nat list \<Rightarrow> bool" where
  "pool_ok pagesize t S fl \<longleftrightarrow> fl_list (rt_heap t) (rt_free t) fl \<and> distinct fl \<and> set fl \<inter> S = {} \<and>
    distinct (slots pagesize t) \<and> 0 \<notin> set (slots pagesize t) \<and> set (slots pagesize t) \<inter> dom (rt_heap t) = {}"

lemma carve:
  fixes junk :: rnode and t :: rtree
  assumes "node_size \<le> rt_size t" "pool_ok ps t S []" "S \<subseteq> dom (rt_heap t)"
  defines "a \<equiv> rt_start t"
  defines "t' \<equiv> t\<lparr>rt_heap := (rt_heap t)(a \<mapsto> junk), rt_start := a + node_size, rt_size := rt_size t - node_size\<rparr>"
  shows "a \<noteq> 0" "a \<notin> S" "pool_ok ps t' (insert a S) []" "length (slots ps t) = Suc (length (slots ps t'))"
proof -
  have sl: "slots ps t = a # slots ps t'"
    using page_slots_step [OF assms(1)] by (simp add: slots_def t'_def a_def)
  then show "length (slots ps t) = Suc (length (slots ps t'))" by simp
  show "a \<noteq> 0" using sl assms(2) by (auto simp: pool_ok_def)
  have "a \<notin> dom (rt_heap t)" using assms(2) sl by (auto simp: pool_ok_def)
  then show "a \<notin> S" using assms(3) by auto
  have "distinct (a # slots ps t')" "0 \<notin> set (slots ps t')" "set (slots ps t') \<inter> dom (rt_heap t) = {}"
    using assms(2) sl by (auto simp: pool_ok_def)
  then show "pool_ok ps t' (insert a S) []"
    using assms(2) by (auto simp: pool_ok_def t'_def)
qed

lemma alloc_ok:
  assumes ok: "pool_ok ps t S fl" and S: "S \<subseteq> dom (rt_heap t)" and ps: "node_size \<le> ps"
  shows "\<exists>t' p. ngx_radix_alloc ps t = Some (t', p) \<and> rt_root t' = rt_root t \<and>
    (p = 0 \<and> t' = t \<and> slots ps t = [] \<or>
     p \<noteq> 0 \<and> p \<notin> S \<and> (\<exists>nd. rt_heap t' = (rt_heap t)(p \<mapsto> nd)) \<and> (\<exists>fl'. pool_ok ps t' (insert p S) fl')
       \<and> length (slots ps t) \<le> Suc (length (slots ps t')))"
proof (cases fl)
  case (Cons x xs)
  then obtain nd where x: "rt_free t = x" "x \<noteq> 0" "rt_heap t x = Some nd" "fl_list (rt_heap t) (rn_right nd) xs"
    using ok by (auto simp: pool_ok_def)
  have "pool_ok ps (t\<lparr>rt_free := rn_right nd\<rparr>) (insert x S) xs"
    using ok x Cons by (auto simp: pool_ok_def slots_def)
  moreover have "x \<notin> S" using ok Cons by (auto simp: pool_ok_def)
  moreover have "rt_heap t = (rt_heap t)(x \<mapsto> nd)" using x(3) by auto
  moreover have "slots ps (t\<lparr>rt_free := rn_right nd\<rparr>) = slots ps t" by (simp add: slots_def)
  ultimately show ?thesis using x by (auto simp: ngx_radix_alloc_def)
next
  case Nil
  then have f: "rt_free t = 0" using ok by (simp add: pool_ok_def)
  show ?thesis
  proof (cases "rt_size t < node_size")
    case False
    let ?j = "\<lparr>rn_right = 0, rn_left = 0, rn_parent = 0, rn_value = 0\<rparr>"
    from carve(1,2) [of t ps S] carve(3,4) [of t ps S ?j] False ok Nil S show ?thesis
      using f by (auto simp: ngx_radix_alloc_def)
  next
    case True
    show ?thesis
    proof (cases "rt_pages t")
      case Nil
      then show ?thesis using True f by (simp add: ngx_radix_alloc_def slots_def page_slots_small)
    next
      case (Cons y ys)
      obtain a junk where y: "y = (a, junk)" by (rule prod.exhaust)
      let ?t = "t\<lparr>rt_start := a, rt_size := ps, rt_pages := ys\<rparr>"
      have "slots ps ?t = slots ps t"
        using True Cons y by (simp add: slots_def page_slots_small)
      then have "pool_ok ps ?t S []" using ok \<open>fl = []\<close> by (simp add: pool_ok_def)
      from \<open>slots ps ?t = slots ps t\<close> carve(1,2) [of ?t ps S] carve(3,4) [of ?t ps S junk] this ps S show ?thesis
        using f True Cons y by (auto simp: ngx_radix_alloc_def)
    qed
  qed
qed

lemma pool_frame:
  assumes "pool_ok ps t S fl" "\<And>x. x \<notin> S \<Longrightarrow> h' x = rt_heap t x" "dom h' = dom (rt_heap t)"
  shows "pool_ok ps (t\<lparr>rt_heap := h'\<rparr>) S fl"
proof -
  have "\<forall>x \<in> set fl. h' x = rt_heap t x" using assms(1,2) by (auto simp: pool_ok_def)
  then have "fl_list h' (rt_free t) fl" using assms(1) fl_list_frame by (auto simp: pool_ok_def)
  then show ?thesis using assms(1,3) by (simp add: pool_ok_def slots_def)
qed

section \<open>The map of a tree\<close>

definition node_map :: "rheap \<Rightarrow> nat \<Rightarrow> bool list \<Rightarrow> u64 option" where
  "node_map h root bs = (case at h root bs of None \<Rightarrow> None | Some p \<Rightarrow>
     (case h p of None \<Rightarrow> None | Some nd \<Rightarrow> if rn_value nd = NGX_RADIX_NO_VALUE then None else Some (rn_value nd)))"

definition radix_map :: "rtree \<Rightarrow> bool list \<Rightarrow> u64 option" where
  "radix_map t = node_map (rt_heap t) (rt_root t)"

definition tree_inv :: "nat \<Rightarrow> nat \<Rightarrow> rtree \<Rightarrow> nat set \<Rightarrow> nat list \<Rightarrow> bool" where
  "tree_inv ps D t S fl \<longleftrightarrow> rtree_ok (rt_heap t) (rt_root t) S \<and> pool_ok ps t S fl \<and>
    (\<forall>xs p. at (rt_heap t) (rt_root t) xs = Some p \<longrightarrow> length xs \<le> D)"

definition radix_inv :: "nat \<Rightarrow> nat \<Rightarrow> rtree \<Rightarrow> bool" where
  "radix_inv ps D t \<longleftrightarrow> (\<exists>S fl. tree_inv ps D t S fl)"

lemma S_dom: "rtree_ok h root S \<Longrightarrow> S \<subseteq> dom h"
  by (auto elim: node_okD)

lemma link_map:
  assumes ok: "rtree_ok h root S" and p: "at h root xs = Some p" "h p = Some nd" "child nd b = 0"
    and n: "n \<notin> S" "n \<noteq> 0"
  shows "node_map (h(n \<mapsto> new_node p, p \<mapsto> with_child nd b n)) root = node_map h root"
proof
  fix ys
  let ?h = "h(n \<mapsto> new_node p, p \<mapsto> with_child nd b n)"
  have np: "n \<noteq> p" using at_in_S [OF ok p(1)] n by auto
  note at = link_ok(2) [OF ok p n, of ys]
  show "node_map ?h root ys = node_map h root ys"
  proof (cases "ys = xs @ [b]")
    case True
    have "at h root ys = None" using True p by (simp add: at_snoc)
    moreover have "at ?h root ys = Some n" using at True by simp
    ultimately show ?thesis using np by (simp add: node_map_def)
  next
    case False
    show ?thesis
    proof (cases "at h root ys")
      case None
      then show ?thesis using at False by (simp add: node_map_def)
    next
      case (Some q)
      have "q \<noteq> n" using at_in_S [OF ok Some] n by auto
      then show ?thesis using at False Some p(2) by (simp add: node_map_def)
    qed
  qed
qed

lemma value_map:
  assumes ok: "rtree_ok h root S" and p: "at h root xs = Some p" "h p = Some nd"
  shows "node_map (h(p \<mapsto> nd\<lparr>rn_value := v\<rparr>)) root =
    (node_map h root)(xs := if v = NGX_RADIX_NO_VALUE then None else Some v)"
proof
  fix ys
  note at = value_ok(2) [OF ok p(2), of v ys]
  show "node_map (h(p \<mapsto> nd\<lparr>rn_value := v\<rparr>)) root ys =
    ((node_map h root)(xs := if v = NGX_RADIX_NO_VALUE then None else Some v)) ys"
  proof (cases "ys = xs")
    case True
    then show ?thesis using at p by (simp add: node_map_def)
  next
    case False
    show ?thesis
    proof (cases "at h root ys")
      case (Some q)
      have "q \<noteq> p" using at_inj [OF ok Some] p(1) False by blast
      then show ?thesis using at Some False by (simp add: node_map_def)
    qed (use at False in \<open>simp add: node_map_def\<close>)
  qed
qed

lemma set_value_spec:
  assumes inv: "tree_inv ps D t S fl" and p: "at (rt_heap t) (rt_root t) xs = Some p"
  shows "\<exists>t'. set_node t p (\<lambda>nd. nd\<lparr>rn_value := v\<rparr>) = Some t' \<and> tree_inv ps D t' S fl
    \<and> radix_map t' = (radix_map t)(xs := if v = NGX_RADIX_NO_VALUE then None else Some v)"
proof -
  have ok: "rtree_ok (rt_heap t) (rt_root t) S" using inv by (simp add: tree_inv_def)
  have pS: "p \<in> S" by (rule at_in_S [OF ok p])
  then obtain nd where nd: "rt_heap t p = Some nd" using S_dom [OF ok] by auto
  let ?h = "(rt_heap t)(p \<mapsto> nd\<lparr>rn_value := v\<rparr>)"
  have "pool_ok ps (t\<lparr>rt_heap := ?h\<rparr>) S fl"
    by (rule pool_frame) (use inv pS nd in \<open>auto simp: tree_inv_def\<close>)
  then have "tree_inv ps D (t\<lparr>rt_heap := ?h\<rparr>) S fl"
    using inv value_ok [OF ok nd, of v] by (simp add: tree_inv_def)
  moreover have "radix_map (t\<lparr>rt_heap := ?h\<rparr>) = (radix_map t)(xs := if v = NGX_RADIX_NO_VALUE then None else Some v)"
    using value_map [OF ok p nd, of v] by (simp add: radix_map_def)
  ultimately show ?thesis using nd by (simp add: set_node_def)
qed

section \<open>Insertion\<close>

lemma extend_spec:
  "tree_inv ps D t S fl \<Longrightarrow> node_size \<le> ps \<Longrightarrow> at (rt_heap t) (rt_root t) xs = Some node \<Longrightarrow>
   bs \<noteq> [] \<longrightarrow> (\<exists>nd. rt_heap t node = Some nd \<and> child nd (hd bs) = 0) \<Longrightarrow> length xs + length bs \<le> D \<Longrightarrow>
   \<exists>t' r S' fl'. extend ps t bs node = Some (t', r) \<and> tree_inv ps D t' S' fl' \<and> rt_root t' = rt_root t
     \<and> radix_map t' = radix_map t \<and> (r = None \<longrightarrow> length (slots ps t) < length bs)
     \<and> (\<forall>n. r = Some n \<longrightarrow> at (rt_heap t') (rt_root t) (xs @ bs) = Some n
          \<and> (bs \<noteq> [] \<longrightarrow> radix_map t (xs @ bs) = None))"
proof (induction bs arbitrary: t S fl xs node)
  case Nil
  then show ?case by (auto simp: exI)
next
  case (Cons b bs)
  note inv = Cons.prems(1)
  have ok: "rtree_ok (rt_heap t) (rt_root t) S" and pool: "pool_ok ps t S fl" using inv by (auto simp: tree_inv_def)
  obtain nd where nd: "rt_heap t node = Some nd" "child nd b = 0" using Cons.prems(4) by auto
  have nS: "node \<in> S" by (rule at_in_S [OF ok Cons.prems(3)])
  from alloc_ok [OF pool S_dom [OF ok] Cons.prems(2)] obtain t1 p where a:
    "ngx_radix_alloc ps t = Some (t1, p)" "rt_root t1 = rt_root t"
    "p = 0 \<and> t1 = t \<and> slots ps t = [] \<or> p \<noteq> 0 \<and> p \<notin> S \<and> (\<exists>nd. rt_heap t1 = (rt_heap t)(p \<mapsto> nd)) \<and> (\<exists>fl'. pool_ok ps t1 (insert p S) fl')
      \<and> length (slots ps t) \<le> Suc (length (slots ps t1))"
    by auto
  show ?case
  proof (cases "p = 0")
    case True
    then show ?thesis using a inv by auto
  next
    case False
    then obtain junk fl1 where p: "p \<noteq> 0" "p \<notin> S" "rt_heap t1 = (rt_heap t)(p \<mapsto> junk)" "pool_ok ps t1 (insert p S) fl1"
      "length (slots ps t) \<le> Suc (length (slots ps t1))"
      using a by auto
    have pn: "p \<noteq> node" using p(2) nS by auto
    let ?h = "(rt_heap t)(p \<mapsto> new_node node, node \<mapsto> with_child nd b p)"
    let ?t = "t1\<lparr>rt_heap := ?h\<rparr>"
    have link: "Option.bind (init_node t1 p node) (\<lambda>t. set_child t node b p) = Some ?t"
      using p(3) pn nd(1) by (cases b) (simp_all add: init_node_def set_child_def set_node_def new_node_def with_child_def)
    have "pool_ok ps ?t (insert p S) fl1"
      by (rule pool_frame [OF p(4)]) (use p(3) nS nd in auto)
    moreover note lk = link_ok [OF ok Cons.prems(3) nd p(2,1)]
    moreover have "length ys \<le> D" if "at ?h (rt_root t) ys = Some q" for ys q
      using that lk(2) [of ys] inv Cons.prems(5) by (auto simp: tree_inv_def split: if_splits)
    ultimately have inv': "tree_inv ps D ?t (insert p S) fl1"
      using a(2) by (simp add: tree_inv_def)
    have map': "radix_map ?t = radix_map t"
      using link_map [OF ok Cons.prems(3) nd p(2,1)] a(2) by (simp add: radix_map_def)
    have at': "at (rt_heap ?t) (rt_root ?t) (xs @ [b]) = Some p" using lk(2) a(2) by simp
    have kids: "bs \<noteq> [] \<longrightarrow> (\<exists>nd. rt_heap ?t p = Some nd \<and> child nd (hd bs) = 0)" using pn by simp
    have len: "length (xs @ [b]) + length bs \<le> D" using Cons.prems(5) by simp
    from Cons.IH [OF inv' Cons.prems(2) at' kids len] obtain t2 r S2 fl2 where r:
      "extend ps ?t bs p = Some (t2, r)" "tree_inv ps D t2 S2 fl2" "rt_root t2 = rt_root ?t" "radix_map t2 = radix_map ?t"
      "r = None \<longrightarrow> length (slots ps ?t) < length bs"
      "\<forall>n. r = Some n \<longrightarrow> at (rt_heap t2) (rt_root ?t) ((xs @ [b]) @ bs) = Some n" by auto
    have "at (rt_heap t) (rt_root t) (xs @ b # bs) = None"
      using Cons.prems(3) nd by (simp add: at_append)
    then have "radix_map t (xs @ b # bs) = None" by (simp add: radix_map_def node_map_def)
    moreover have "slots ps ?t = slots ps t1" by (simp add: slots_def)
    then have "r = None \<longrightarrow> length (slots ps t) < length (b # bs)" using r(5) p(5) by auto
    ultimately show ?thesis using a(1,2) r(1-4,6) link False map' by auto
  qed
qed

lemma walk_spec:
  assumes ok: "rtree_ok h root S"
  shows "at h root xs = Some node \<Longrightarrow>
   \<exists>pre rest n nd. walk h bs node node = Some (rest, n, if rest = [] then n else 0) \<and> bs = pre @ rest
     \<and> at h root (xs @ pre) = Some n \<and> h n = Some nd \<and> (rest \<noteq> [] \<longrightarrow> child nd (hd rest) = 0)"
proof (induction bs arbitrary: xs node)
  case Nil
  obtain nd where "h node = Some nd" using at_in_S [OF ok Nil] S_dom [OF ok] by blast
  with Nil show ?case by simp
next
  case (Cons b bs)
  obtain nd where nd: "h node = Some nd" using at_in_S [OF ok Cons.prems] S_dom [OF ok] by blast
  show ?case
  proof (cases "child nd b = 0")
    case True
    then have "walk h (b # bs) node node = Some (b # bs, node, 0)" using nd by simp
    then show ?thesis using nd Cons.prems True
      by (rule_tac x = "[]" in exI, rule_tac x = "b # bs" in exI, rule_tac x = node in exI, rule_tac x = nd in exI) simp
  next
    case False
    then have "at h root (xs @ [b]) = Some (child nd b)" using nd Cons.prems by (simp add: at_snoc)
    from Cons.IH [OF this] obtain pre rest n nd' where
      "walk h bs (child nd b) (child nd b) = Some (rest, n, if rest = [] then n else 0)" "bs = pre @ rest"
      "at h root ((xs @ [b]) @ pre) = Some n" "h n = Some nd'" "rest \<noteq> [] \<longrightarrow> child nd' (hd rest) = 0"
      by blast
    then show ?thesis using nd False
      by (rule_tac x = "b # pre" in exI, rule_tac x = rest in exI, rule_tac x = n in exI, rule_tac x = nd' in exI) simp
  qed
qed

lemma insert_bits_spec:
  assumes inv: "radix_inv ps D t" and ps: "node_size \<le> ps" and len: "length bs \<le> D"
  shows "\<exists>t' r. insert_bits ps t bs v = Some (t', r) \<and> radix_inv ps D t' \<and>
    (r = NGX_BUSY \<and> radix_map t bs \<noteq> None \<and> t' = t \<or>
     r = NGX_ERROR \<and> radix_map t bs = None \<and> radix_map t' = radix_map t \<and> length (slots ps t) < length bs \<or>
     r = NGX_OK \<and> radix_map t bs = None \<and>
       radix_map t' = (radix_map t)(bs := if v = NGX_RADIX_NO_VALUE then None else Some v))"
proof -
  from inv obtain S fl where ti: "tree_inv ps D t S fl" by (auto simp: radix_inv_def)
  then have ok: "rtree_ok (rt_heap t) (rt_root t) S" by (simp add: tree_inv_def)
  have "at (rt_heap t) (rt_root t) [] = Some (rt_root t)" by simp
  from walk_spec [OF ok this, of bs] obtain pre rest n nd where w:
    "walk (rt_heap t) bs (rt_root t) (rt_root t) = Some (rest, n, if rest = [] then n else 0)" "bs = pre @ rest"
    "at (rt_heap t) (rt_root t) pre = Some n" "rt_heap t n = Some nd" "rest \<noteq> [] \<longrightarrow> child nd (hd rest) = 0"
    by auto
  have n0: "n \<noteq> 0" by (rule at_nonzero [OF ok w(3)])
  show ?thesis
  proof (cases "rest = []")
    case True
    then have m: "radix_map t bs = (if rn_value nd = NGX_RADIX_NO_VALUE then None else Some (rn_value nd))"
      using w by (simp add: radix_map_def node_map_def)
    show ?thesis
    proof (cases "rn_value nd = NGX_RADIX_NO_VALUE")
      case False
      then show ?thesis using True w n0 m inv by (simp add: insert_bits_def)
    next
      case free: True
      from set_value_spec [OF ti, of pre n v] w(3) obtain t' where
        "set_node t n (\<lambda>nd. nd\<lparr>rn_value := v\<rparr>) = Some t'" "tree_inv ps D t' S fl"
        "radix_map t' = (radix_map t)(pre := if v = NGX_RADIX_NO_VALUE then None else Some v)" by auto
      then show ?thesis using True free w n0 m by (auto simp: insert_bits_def radix_inv_def)
    qed
  next
    case False
    have "length pre + length rest \<le> D" using len w(2) by simp
    with extend_spec [OF ti ps w(3), of rest] w False obtain t1 r S1 fl1 where e:
      "extend ps t rest n = Some (t1, r)" "tree_inv ps D t1 S1 fl1" "rt_root t1 = rt_root t" "radix_map t1 = radix_map t"
      "\<forall>n. r = Some n \<longrightarrow> at (rt_heap t1) (rt_root t) bs = Some n"
      "r = None \<longrightarrow> length (slots ps t) < length rest" by auto
    have none: "radix_map t bs = None"
    proof -
      obtain b cs where "rest = b # cs" using False by (cases rest) auto
      then have "at (rt_heap t) (rt_root t) bs = None" using w by (simp add: at_append)
      then show ?thesis by (simp add: radix_map_def node_map_def)
    qed
    show ?thesis
    proof (cases r)
      case None
      then show ?thesis using False w e none by (auto simp: insert_bits_def radix_inv_def)
    next
      case (Some m)
      from set_value_spec [OF e(2), of bs m v] e(3,5) Some obtain t2 where
        "set_node t1 m (\<lambda>nd. nd\<lparr>rn_value := v\<rparr>) = Some t2" "tree_inv ps D t2 S1 fl1"
        "radix_map t2 = (radix_map t1)(bs := if v = NGX_RADIX_NO_VALUE then None else Some v)" by auto
      then show ?thesis using Some False w e none by (auto simp: insert_bits_def radix_inv_def)
    qed
  qed
qed

section \<open>Deletion\<close>

lemma del_walk_at:
  assumes ok: "rtree_ok h root S"
  shows "at h root xs = Some node \<Longrightarrow>
    del_walk h bs node = Some (case at h root (xs @ bs) of None \<Rightarrow> 0 | Some p \<Rightarrow> p)"
proof (induction bs arbitrary: xs node)
  case (Cons b bs)
  have "node \<noteq> 0" by (rule at_nonzero [OF ok Cons.prems])
  moreover obtain nd where nd: "h node = Some nd" using at_in_S [OF ok Cons.prems] S_dom [OF ok] by blast
  moreover have "child nd b \<noteq> 0 \<Longrightarrow> at h root (xs @ [b]) = Some (child nd b)"
    using nd Cons.prems by (simp add: at_snoc)
  moreover have "child nd b = 0 \<Longrightarrow> at h root (xs @ b # bs) = None"
    using nd Cons.prems by (simp add: at_append)
  ultimately show ?case using Cons.IH [of "xs @ [b]" "child nd b"] by (cases "child nd b = 0") simp_all
qed simp

lemma unlink_map:
  assumes ok: "rtree_ok h root S" and q: "at h root (xs @ [b]) = Some q" "h q = Some nd" "\<And>c. child nd c = 0"
    and p: "at h root xs = Some p" "h p = Some pnd" "q \<noteq> p"
  shows "node_map (h(p \<mapsto> with_child pnd b 0, q \<mapsto> junk)) root = (node_map h root)(xs @ [b] := None)"
proof
  fix ys
  note at = unlink_ok(2) [OF ok q p(1,2), of junk ys]
  show "node_map (h(p \<mapsto> with_child pnd b 0, q \<mapsto> junk)) root ys = ((node_map h root)(xs @ [b] := None)) ys"
  proof (cases "ys = xs @ [b] \<or> at h root ys = None")
    case True
    then show ?thesis using at by (auto simp: node_map_def)
  next
    case False
    then obtain r where r: "at h root ys = Some r" by auto
    have "r \<noteq> q" using at_inj [OF ok r] q(1) False by blast
    then show ?thesis using at r False p by (simp add: node_map_def)
  qed
qed

text \<open>The pruning: all nodes below the first \<open>k\<close> bits of the path \<open>bs\<close> leave the tree, in the order
  leaf first, for the head of the free list. None of them has a use apart from the path: it holds no
  value (the leaf apart, which held the deleted one) and has no other child. The node where the pruning
  stops is still needed: it is the root, holds a value or has a child. With \<open>k = length bs\<close> no node is
  pruned, and the node of the entry is needed for its children.\<close>

definition path_node :: "rtree \<Rightarrow> bool list \<Rightarrow> nat option" where
  "path_node t = at (rt_heap t) (rt_root t)"

definition needed :: "rtree \<Rightarrow> bool list \<Rightarrow> bool" where
  "needed t bs \<longleftrightarrow> bs = [] \<or> radix_map t bs \<noteq> None \<or> (\<exists>b. path_node t (bs @ [b]) \<noteq> None)"

definition freed :: "rtree \<Rightarrow> bool list \<Rightarrow> nat \<Rightarrow> nat list" where
  "freed t bs k = map (\<lambda>j. the (path_node t (take j bs))) [Suc k..<Suc (length bs)]"

definition pruned :: "rtree \<Rightarrow> bool list \<Rightarrow> nat \<Rightarrow> rtree \<Rightarrow> bool" where
  "pruned t bs k t' \<longleftrightarrow>
    rt_root t' = rt_root t \<and> rt_start t' = rt_start t \<and> rt_size t' = rt_size t \<and> rt_pages t' = rt_pages t \<and>
    k \<le> length bs \<and> (\<forall>j \<le> length bs. path_node t (take j bs) \<noteq> None) \<and>
    (\<forall>ys. path_node t' ys = (if \<exists>j. k < j \<and> j \<le> length bs \<and> ys = take j bs then None else path_node t ys)) \<and>
    (\<forall>j. k < j \<and> j < length bs \<longrightarrow> radix_map t (take j bs) = None \<and> path_node t (take j bs @ [\<not> bs ! j]) = None) \<and>
    (k < length bs \<longrightarrow> (\<forall>b. path_node t (bs @ [b]) = None)) \<and> needed t' (take k bs)"

lemma path_prefix:
  assumes "path_node t (xs @ ys) \<noteq> None" shows "path_node t xs \<noteq> None"
  using assms by (auto simp: path_node_def at_append split: Option.bind_splits)

lemma path_take:
  assumes "path_node t bs = Some q" shows "\<forall>j \<le> length bs. path_node t (take j bs) \<noteq> None"
  using path_prefix [of t "take j bs" "drop j bs" for j] assms by auto

lemma freed_snoc:
  assumes "k \<le> length xs" "\<And>j. j \<le> length xs \<Longrightarrow> path_node t' (take j xs) = path_node t (take j xs)" "path_node t (xs @ [b]) = Some q"
  shows "freed t (xs @ [b]) k = freed t' xs k @ [q]"
proof -
  have "the (path_node t (take j (xs @ [b]))) = the (path_node t' (take j xs))" if "j \<in> set [Suc k..<Suc (length xs)]" for j
  proof -
    have "j \<le> length xs" using that by auto
    then show ?thesis using assms(2) [of j] by simp
  qed
  then show ?thesis using assms(1,3) by (simp add: freed_def)
qed

text \<open>A single node taken off\<close>

lemma pruned_one:
  assumes "path_node t (xs @ [b]) = Some q"
    and same: "rt_root t1 = rt_root t" "rt_start t1 = rt_start t" "rt_size t1 = rt_size t" "rt_pages t1 = rt_pages t"
    and at: "\<And>ys. path_node t1 ys = (if ys = xs @ [b] then None else path_node t ys)"
    and leaf: "\<And>c. path_node t (xs @ [b] @ [c]) = None" and stop: "needed t1 xs"
  shows "pruned t (xs @ [b]) (length xs) t1"
proof -
  have gone: "(\<exists>j. length xs < j \<and> j \<le> length (xs @ [b]) \<and> ys = take j (xs @ [b])) \<longleftrightarrow> ys = xs @ [b]" for ys
    by (auto simp: le_Suc_eq)
  have "\<not> (length xs < j \<and> j < length (xs @ [b]))" for j by auto
  moreover note path_take [OF assms(1)]
  moreover have "path_node t ((xs @ [b]) @ [c]) = None" for c using leaf by simp
  moreover have "needed t1 (take (length xs) (xs @ [b]))" using stop by simp
  ultimately show ?thesis unfolding pruned_def gone using same at by (intro conjI allI impI) (blast | simp)+
qed

text \<open>One more node taken off before the rest of the path is pruned\<close>

lemma pruned_snoc:
  assumes "pruned t1 xs k t'" "k < length xs" "path_node t (xs @ [b]) = Some q" "radix_map t1 xs = None"
    and same: "rt_root t1 = rt_root t" "rt_start t1 = rt_start t" "rt_size t1 = rt_size t" "rt_pages t1 = rt_pages t"
    and at: "\<And>ys. path_node t1 ys = (if ys = xs @ [b] then None else path_node t ys)"
    and map: "radix_map t1 = (radix_map t)(xs @ [b] := None)" and leaf: "\<And>c. path_node t (xs @ [b] @ [c]) = None"
  shows "pruned t (xs @ [b]) k t'"
proof -
  have gone: "(\<exists>j. k < j \<and> j \<le> length (xs @ [b]) \<and> ys = take j (xs @ [b])) \<longleftrightarrow>
      ys = xs @ [b] \<or> (\<exists>j. k < j \<and> j \<le> length xs \<and> ys = take j xs)" for ys
  proof
    assume "\<exists>j. k < j \<and> j \<le> length (xs @ [b]) \<and> ys = take j (xs @ [b])"
    then obtain j where "k < j" "j \<le> Suc (length xs)" "ys = take j (xs @ [b])" by auto
    then show "ys = xs @ [b] \<or> (\<exists>j. k < j \<and> j \<le> length xs \<and> ys = take j xs)"
      by (cases "j = Suc (length xs)") auto
  next
    assume "ys = xs @ [b] \<or> (\<exists>j. k < j \<and> j \<le> length xs \<and> ys = take j xs)"
    then show "\<exists>j. k < j \<and> j \<le> length (xs @ [b]) \<and> ys = take j (xs @ [b])"
      using assms(2) by (auto intro: exI [of _ "Suc (length xs)"])
  qed
  have "radix_map t (take j (xs @ [b])) = None \<and> path_node t (take j (xs @ [b]) @ [\<not> (xs @ [b]) ! j]) = None"
    if j: "k < j" "j < length (xs @ [b])" for j
  proof (cases "j = length xs")
    case True
    have "path_node t1 (xs @ [c]) = None" for c using assms(1,2) by (simp add: pruned_def)
    from this [of "\<not> b"] show ?thesis using True assms(4) map at by simp
  next
    case False
    then have none: "radix_map t1 (take j xs) = None" "path_node t1 (take j xs @ [\<not> xs ! j]) = None"
      using assms(1) j by (simp_all add: pruned_def)
    have j': "j < length xs" using False j(2) by simp
    have "length (take j xs) \<noteq> length (xs @ [b])" "length (take j xs @ [\<not> xs ! j]) \<noteq> length (xs @ [b])"
      using j' by simp_all
    then have "take j xs \<noteq> xs @ [b]" "take j xs @ [\<not> xs ! j] \<noteq> xs @ [b]" by metis+
    then have "radix_map t (take j xs) = None" "path_node t (take j xs @ [\<not> xs ! j]) = None"
      using none map at [of "take j xs @ [\<not> xs ! j]"] j' by simp_all
    moreover have "take j (xs @ [b]) = take j xs" "(xs @ [b]) ! j = xs ! j" using j' by (simp_all add: nth_append)
    ultimately show ?thesis by simp
  qed
  moreover have "path_node t' ys = (if \<exists>j. k < j \<and> j \<le> length (xs @ [b]) \<and> ys = take j (xs @ [b]) then None else path_node t ys)" for ys
  proof -
    have "path_node t' ys = (if \<exists>j. k < j \<and> j \<le> length xs \<and> ys = take j xs then None else path_node t1 ys)"
      using assms(1) by (simp add: pruned_def)
    then show ?thesis unfolding gone at [of ys]
      by (cases "ys = xs @ [b]"; cases "\<exists>j. k < j \<and> j \<le> length xs \<and> ys = take j xs") (simp_all only: if_True if_False simp_thms)
  qed
  moreover have "\<forall>j \<le> length (xs @ [b]). path_node t (take j (xs @ [b])) \<noteq> None"
    by (rule path_take [OF assms(3)])
  ultimately show ?thesis using assms(1,2) same leaf unfolding pruned_def by simp
qed

text \<open>If every node is needed, deletion leaves no node without a use.\<close>

lemma pruned_compact:
  assumes "pruned t bs k t'" "radix_map t' = (radix_map t)(bs := None)" "\<And>ys. path_node t ys \<noteq> None \<Longrightarrow> needed t ys"
    and "path_node t' ys \<noteq> None"
  shows "needed t' ys"
proof (cases "ys = take k bs")
  case True
  then show ?thesis using assms(1) by (simp add: pruned_def)
next
  case False
  have at: "path_node t' zs = (if \<exists>j. k < j \<and> j \<le> length bs \<and> zs = take j bs then None else path_node t zs)" for zs
    using assms(1) by (simp add: pruned_def)
  have old: "path_node t ys \<noteq> None" "\<And>j. k < j \<Longrightarrow> j \<le> length bs \<Longrightarrow> ys \<noteq> take j bs"
    using assms(4) at [of ys] by (auto split: if_splits)
  from assms(3) [OF old(1)] consider "ys = []" | "radix_map t ys \<noteq> None" | b where "path_node t (ys @ [b]) \<noteq> None"
    by (auto simp: needed_def)
  then show ?thesis
  proof cases
    case 2
    have "ys \<noteq> bs" using False old(2) [of "length bs"] assms(1) by (cases "k = length bs") (auto simp: pruned_def)
    then show ?thesis using 2 assms(2) by (simp add: needed_def)
  next
    case 3
    have "\<not> (k < j \<and> j \<le> length bs \<and> ys @ [b] = take j bs)" for j
    proof
      assume j: "k < j \<and> j \<le> length bs \<and> ys @ [b] = take j bs"
      then have "ys = take (j - 1) bs" by (metis butlast_snoc butlast_take)
      then show False using False old(2) [of "j - 1"] j by (cases "j - 1 = k") (auto, linarith)
    qed
    then have "path_node t' (ys @ [b]) = path_node t (ys @ [b])" using at [of "ys @ [b]"] by meson
    then show ?thesis using 3 by (auto simp: needed_def)
  qed (simp add: needed_def)
qed

text \<open>Pruning from the leaf at \<open>bs\<close> removes this path from the map and gives the pruned nodes to the
  free list.\<close>

lemma prune_spec:
  "tree_inv ps D t S fl \<Longrightarrow> at (rt_heap t) (rt_root t) bs = Some q \<Longrightarrow> bs \<noteq> [] \<Longrightarrow>
   (\<exists>nd. rt_heap t q = Some nd \<and> (\<forall>c. child nd c = 0)) \<Longrightarrow>
   \<exists>t' S' k. prune t q = Some t' \<and> k < length bs \<and> tree_inv ps D t' S' (freed t bs k @ fl) \<and>
     radix_map t' = (radix_map t)(bs := None) \<and> pruned t bs k t'"
proof (induction bs arbitrary: t S fl q rule: rev_induct)
  case (snoc b xs)
  note inv = snoc.prems(1)
  have ok: "rtree_ok (rt_heap t) (rt_root t) S" and pool: "pool_ok ps t S fl"
    and dep: "\<And>xs p. at (rt_heap t) (rt_root t) xs = Some p \<Longrightarrow> length xs \<le> D" using inv by (auto simp: tree_inv_def)
  obtain nd where nd: "rt_heap t q = Some nd" "\<And>c. child nd c = 0" using snoc.prems(4) by auto
  from ok snoc.prems(2) obtain p pnd c where p: "at (rt_heap t) (rt_root t) xs = Some p" "p \<in> S" "rt_heap t p = Some pnd"
    "child pnd b = q" "q \<noteq> 0" "q \<noteq> rt_root t" "q \<in> S" "rt_heap t q = Some c" "rn_parent c = p" by (rule at_last)
  have qp: "q \<noteq> p" using nd p by auto
  have par: "rn_parent nd = p" using p nd by simp
  let ?h = "(rt_heap t)(p \<mapsto> with_child pnd b 0, q \<mapsto> nd\<lparr>rn_right := rt_free t\<rparr>)"
  let ?t = "t\<lparr>rt_heap := ?h, rt_free := q\<rparr>"
  have uniq: "rn_right pnd = q \<longleftrightarrow> b"
  proof -
    from ok p(2) obtain pnd2 where "rt_heap t p = Some pnd2"
        "child pnd2 True \<noteq> 0 \<Longrightarrow> child pnd2 True = child pnd2 False \<Longrightarrow> True = False" by (rule node_okD) blast
    then show ?thesis using p(3-5) by (cases b) (auto simp: child_def)
  qed
  have set: "(if rn_right pnd = q then set_child t p True 0 else set_child t p False 0) =
      Some (t\<lparr>rt_heap := (rt_heap t)(p \<mapsto> with_child pnd b 0)\<rparr>)"
    using uniq p(3) by (cases b) (simp_all add: set_child_def set_node_def with_child_def)
  have free: "set_node (t\<lparr>rt_heap := (rt_heap t)(p \<mapsto> with_child pnd b 0)\<rparr>) q (\<lambda>nd. nd\<lparr>rn_right := rt_free (t\<lparr>rt_heap := (rt_heap t)(p \<mapsto> with_child pnd b 0)\<rparr>)\<rparr>)
      = Some (t\<lparr>rt_heap := ?h\<rparr>)"
    using nd(1) qp by (simp add: set_node_def)
  let ?pn = "with_child pnd b 0"
  have step: "prune t q =
     (if rn_right ?pn \<noteq> 0 \<or> rn_left ?pn \<noteq> 0 then Some ?t
      else if rn_value ?pn \<noteq> NGX_RADIX_NO_VALUE then Some ?t
      else if rn_parent ?pn = 0 then Some ?t else prune ?t p)"
  proof -
    have hp: "rt_heap ?t p = Some ?pn" using qp by simp
    show ?thesis
      by (subst prune.simps) (simp only: nd(1) par p(3) set free Option.bind.bind_lunit Let_def hp with_child_simps)
  qed
  note un = unlink_ok [OF ok snoc.prems(2) nd p(1,3), of "nd\<lparr>rn_right := rt_free t\<rparr>"]
  have pool': "pool_ok ps ?t (S - {q}) (q # fl)"
  proof -
    have "pool_ok ps (t\<lparr>rt_heap := ?h\<rparr>) S fl"
      by (rule pool_frame [OF pool]) (use p(2,3,7) nd(1) in auto)
    then show ?thesis using p(5,7) by (auto simp: pool_ok_def slots_def)
  qed
  have inv': "tree_inv ps D ?t (S - {q}) (q # fl)"
    using un pool' dep by (auto simp: tree_inv_def split: if_splits)
  have map': "radix_map ?t = (radix_map t)(xs @ [b] := None)"
    using unlink_map [OF ok snoc.prems(2) nd p(1,3) qp] by (simp add: radix_map_def)
  have fields: "rt_root ?t = rt_root t" "rt_start ?t = rt_start t" "rt_size ?t = rt_size t" "rt_pages ?t = rt_pages t" by simp_all
  have at: "path_node ?t ys = (if ys = xs @ [b] then None else path_node t ys)" for ys
    using un(2) [of ys] by (simp add: path_node_def)
  have leaf: "path_node t (xs @ [b] @ [c]) = None" for c
    using snoc.prems(2) nd at_snoc [of "rt_heap t" "rt_root t" "xs @ [b]" c] by (simp add: path_node_def)
  have here: "path_node t (xs @ [b]) = Some q" "path_node ?t xs = Some p" "path_node t xs = Some p"
    using snoc.prems(2) p(1) at [of xs] by (simp_all add: path_node_def)
  have hp: "rt_heap ?t p = Some ?pn" using qp by simp
  have kid: "path_node ?t (xs @ [c]) = (if child ?pn c = 0 then None else Some (child ?pn c))" for c
    using here(2) hp by (simp add: path_node_def at_snoc)
  show ?case
  proof (cases "rn_right ?pn \<noteq> 0 \<or> rn_left ?pn \<noteq> 0 \<or> rn_value ?pn \<noteq> NGX_RADIX_NO_VALUE \<or> rn_parent ?pn = 0")
    case True
    then have "prune t q = Some ?t" using step by auto
    moreover have "needed ?t xs"
    proof (cases "rn_parent ?pn = 0")
      case False
      have "child ?pn True \<noteq> 0 \<or> child ?pn False \<noteq> 0 \<or> rn_value ?pn \<noteq> NGX_RADIX_NO_VALUE"
        using False True by (auto simp: child_def)
      then consider c where "child ?pn c \<noteq> 0" | "rn_value ?pn \<noteq> NGX_RADIX_NO_VALUE" by blast
      then show ?thesis
      proof cases
        case (1 c)
        then have "path_node ?t (xs @ [c]) \<noteq> None" by (simp only: kid if_False option.distinct not_False_eq_True)
        then show ?thesis unfolding needed_def by blast
      next
        case 2
        then have "radix_map ?t xs \<noteq> None" using here(2) hp by (simp add: radix_map_def node_map_def path_node_def)
        then show ?thesis by (simp add: needed_def)
      qed
    next
      case root: True
      have "xs = []"
      proof (rule ccontr)
        assume "xs \<noteq> []"
        then obtain c cs where "xs = cs @ [c]" by (cases xs rule: rev_cases) auto
        with p(1) have "at (rt_heap t) (rt_root t) (cs @ [c]) = Some p" by simp
        from ok this obtain r where "rn_parent pnd = r" "r \<in> S" using p(3) by (elim at_last) auto
        then show False using root ok by (auto simp: rtree_ok_def)
      qed
      then show ?thesis by (simp add: needed_def)
    qed
    then have "pruned t (xs @ [b]) (length xs) ?t"
      by (intro pruned_one [OF here(1) fields at leaf])
    moreover have "freed t (xs @ [b]) (length xs) = [q]" using here(1) by (simp add: freed_def)
    ultimately show ?thesis using inv' map' by (intro exI [of _ ?t] exI [of _ "S - {q}"] exI [of _ "length xs"]) simp
  next
    case False
    have at': "at (rt_heap ?t) (rt_root ?t) xs = Some p" using un(2) p(1) by simp
    have "xs \<noteq> []"
    proof
      assume "xs = []"
      then have "rn_parent pnd = 0" using p(1,3) ok by (auto simp: rtree_ok_def)
      then show False using False by simp
    qed
    moreover have "child ?pn c = 0" for c using False by (cases c) (auto simp: child_def)
    ultimately obtain t2 S2 k where r: "prune ?t p = Some t2" "k < length xs" "tree_inv ps D t2 S2 (freed ?t xs k @ q # fl)"
      "radix_map t2 = (radix_map ?t)(xs := None)" "pruned ?t xs k t2"
      using snoc.IH [OF inv' at'] hp by blast
    have none: "radix_map ?t xs = None" using at' hp False by (simp add: radix_map_def node_map_def)
    then have "radix_map t2 = (radix_map t)(xs @ [b] := None)" using r(4) map' by auto
    moreover have "prune t q = Some t2" using step False r(1) by simp
    moreover have "freed t (xs @ [b]) k = freed ?t xs k @ [q]"
    proof (rule freed_snoc)
      show "path_node ?t (take j xs) = path_node t (take j xs)" for j
      proof -
        have "length (take j xs) \<noteq> length (xs @ [b])" by simp
        then have "take j xs \<noteq> xs @ [b]" by metis
        then show ?thesis unfolding at by simp
      qed
    qed (use r(2) here(1) in auto)
    moreover have "pruned t (xs @ [b]) k t2"
      by (rule pruned_snoc [OF r(5,2) here(1) none fields at map' leaf])
    ultimately show ?thesis using r(2,3) by (intro exI [of _ t2] exI [of _ S2] exI [of _ k]) simp
  qed
qed simp

text \<open>What deleting the entry \<open>bs\<close> does to the nodes: they are pruned, and the free list grows by them.\<close>

definition prunes :: "rtree \<Rightarrow> bool list \<Rightarrow> rtree \<Rightarrow> bool" where
  "prunes t bs t' \<longleftrightarrow> (\<exists>k fl. pruned t bs k t' \<and> fl_list (rt_heap t) (rt_free t) fl \<and>
    fl_list (rt_heap t') (rt_free t') (freed t bs k @ fl))"

lemma prunesI: "pruned t bs k t' \<Longrightarrow> tree_inv ps D t S fl \<Longrightarrow> tree_inv ps D t' S' (freed t bs k @ fl) \<Longrightarrow> prunes t bs t'"
  unfolding prunes_def tree_inv_def pool_ok_def by blast

lemma set_value_path:
  assumes "tree_inv ps D t S fl" "at (rt_heap t) (rt_root t) xs = Some p" "set_node t p (\<lambda>nd. nd\<lparr>rn_value := v\<rparr>) = Some t'"
  shows "path_node t' = path_node t" "rt_root t' = rt_root t" "rt_start t' = rt_start t" "rt_size t' = rt_size t" "rt_pages t' = rt_pages t"
proof -
  have ok: "rtree_ok (rt_heap t) (rt_root t) S" using assms(1) by (simp add: tree_inv_def)
  then obtain nd where nd: "rt_heap t p = Some nd" using at_in_S [OF ok assms(2)] S_dom [OF ok] by blast
  then have t': "t' = t\<lparr>rt_heap := (rt_heap t)(p \<mapsto> nd\<lparr>rn_value := v\<rparr>)\<rparr>" using assms(3) by (simp add: set_node_def)
  show "path_node t' = path_node t" using value_ok [OF ok nd, of v] by (simp add: t' path_node_def fun_eq_iff)
qed (use assms(3) in \<open>auto simp: set_node_def split: option.splits Option.bind_splits\<close>)

lemma delete_node_spec:
  assumes inv: "radix_inv ps D t"
    and root: "bs = [] \<longrightarrow> (\<exists>b p. at (rt_heap t) (rt_root t) [b] = Some p)"
  shows "\<exists>t' r. Option.bind (del_walk (rt_heap t) bs (rt_root t)) (delete_node t) = Some (t', r) \<and> radix_inv ps D t' \<and>
    (r = NGX_OK \<and> radix_map t' = (radix_map t)(bs := None) \<and> prunes t bs t' \<or> r = NGX_ERROR \<and> t' = t \<and> radix_map t bs = None)"
proof -
  from inv obtain S fl where ti: "tree_inv ps D t S fl" by (auto simp: radix_inv_def)
  then have ok: "rtree_ok (rt_heap t) (rt_root t) S" by (simp add: tree_inv_def)
  have w: "del_walk (rt_heap t) bs (rt_root t) = Some (case at (rt_heap t) (rt_root t) bs of None \<Rightarrow> 0 | Some p \<Rightarrow> p)"
    using del_walk_at [OF ok, of "[]" "rt_root t" bs] by simp
  show ?thesis
  proof (cases "at (rt_heap t) (rt_root t) bs")
    case None
    then show ?thesis using w inv by (simp add: delete_node_def radix_map_def node_map_def)
  next
    case (Some p)
    note p0 = at_nonzero [OF ok Some]
    obtain nd where nd: "rt_heap t p = Some nd" using at_in_S [OF ok Some] S_dom [OF ok] by blast
    show ?thesis
    proof (cases "rn_right nd \<noteq> 0 \<or> rn_left nd \<noteq> 0")
      case True
      from set_value_spec [OF ti Some, of NGX_RADIX_NO_VALUE] obtain t' where
        t': "set_node t p (\<lambda>nd. nd\<lparr>rn_value := NGX_RADIX_NO_VALUE\<rparr>) = Some t'" "tree_inv ps D t' S fl"
        "radix_map t' = (radix_map t)(bs := None)" by auto
      note path = set_value_path [OF ti Some t'(1)]
      have here: "path_node t bs = Some p" using Some by (simp add: path_node_def)
      have "child nd True \<noteq> 0 \<or> child nd False \<noteq> 0" using True by (auto simp: child_def)
      moreover have "path_node t (bs @ [c]) = (if child nd c = 0 then None else Some (child nd c))" for c
        using Some nd by (simp add: path_node_def at_snoc)
      ultimately have "needed t' bs" using path(1) by (auto simp: needed_def)
      then have "pruned t bs (length bs) t'" using path path_take [OF here] unfolding pruned_def by auto
      moreover have "freed t bs (length bs) = []" by (simp add: freed_def)
      ultimately have "prunes t bs t'" using prunesI [OF _ ti] t'(2) by fastforce
      then show ?thesis using w Some p0 nd True inv t'
        by (auto simp: delete_node_def radix_inv_def radix_map_def node_map_def)
    next
      case False
      then have leaf: "\<forall>c. child nd c = 0" by (simp add: child_def)
      have "bs \<noteq> []"
      proof
        assume "bs = []"
        with root obtain b q where "at (rt_heap t) (rt_root t) [b] = Some q" by auto
        moreover have "p = rt_root t" using Some \<open>bs = []\<close> by simp
        ultimately show False using nd leaf by simp
      qed
      with prune_spec [OF ti Some] nd leaf obtain t' S' k where t': "prune t p = Some t'"
        "tree_inv ps D t' S' (freed t bs k @ fl)" "radix_map t' = (radix_map t)(bs := None)" "pruned t bs k t'" by blast
      from prunesI [OF t'(4) ti t'(2)] show ?thesis using w Some p0 nd False t' by (auto simp: delete_node_def radix_inv_def)
    qed
  qed
qed

section \<open>Lookup\<close>

text \<open>The value at the longest prefix of a bit string that has one.\<close>

definition longest_match :: "(bool list \<Rightarrow> u64 option) \<Rightarrow> bool list \<Rightarrow> u64 \<Rightarrow> bool" where
  "longest_match m bs r \<longleftrightarrow>
    (\<exists>n \<le> length bs. m (take n bs) = Some r \<and> (\<forall>k. n < k \<and> k \<le> length bs \<longrightarrow> m (take k bs) = None)) \<or>
    r = NGX_RADIX_NO_VALUE \<and> (\<forall>n \<le> length bs. m (take n bs) = None)"

lemma find_walk_spec:
  assumes ok: "rtree_ok h root S"
  shows "at h root xs = Some node \<Longrightarrow> at h root (xs @ bs) = None \<Longrightarrow>
   \<exists>r. find_walk h bs v node = Some r \<and>
     ((\<exists>n \<le> length bs. node_map h root (xs @ take n bs) = Some r \<and>
         (\<forall>k. n < k \<and> k \<le> length bs \<longrightarrow> node_map h root (xs @ take k bs) = None)) \<or>
      r = v \<and> (\<forall>n \<le> length bs. node_map h root (xs @ take n bs) = None))"
proof (induction bs arbitrary: xs node v)
  case (Cons b bs)
  have n0: "node \<noteq> 0" by (rule at_nonzero [OF ok Cons.prems(1)])
  obtain nd where nd: "h node = Some nd" using at_in_S [OF ok Cons.prems(1)] S_dom [OF ok] by blast
  let ?v = "if rn_value nd \<noteq> NGX_RADIX_NO_VALUE then rn_value nd else v"
  have f: "find_walk h (b # bs) v node = find_walk h bs ?v (child nd b)"
    using n0 nd by (subst find_walk.simps) simp
  have m0: "node_map h root xs = (if rn_value nd = NGX_RADIX_NO_VALUE then None else Some (rn_value nd))"
    using Cons.prems(1) nd by (simp add: node_map_def)
  have rest: "\<exists>r. find_walk h bs ?v (child nd b) = Some r \<and>
     ((\<exists>n \<le> length bs. node_map h root (xs @ b # take n bs) = Some r \<and>
         (\<forall>k. n < k \<and> k \<le> length bs \<longrightarrow> node_map h root (xs @ b # take k bs) = None)) \<or>
      r = ?v \<and> (\<forall>n \<le> length bs. node_map h root (xs @ b # take n bs) = None))"
  proof (cases "child nd b = 0")
    case True
    have "node_map h root (xs @ b # ys) = None" for ys
      using Cons.prems(1) nd True by (simp add: node_map_def at_append)
    moreover have "find_walk h bs ?v 0 = Some ?v" by (subst find_walk.simps) simp
    ultimately show ?thesis using True by simp
  next
    case False
    then have "at h root (xs @ [b]) = Some (child nd b)" using Cons.prems(1) nd by (simp add: at_snoc)
    from Cons.IH [OF this, of ?v] Cons.prems(2) show ?thesis by simp
  qed
  then obtain r where r: "find_walk h bs ?v (child nd b) = Some r"
    "(\<exists>n \<le> length bs. node_map h root (xs @ b # take n bs) = Some r \<and>
         (\<forall>k. n < k \<and> k \<le> length bs \<longrightarrow> node_map h root (xs @ b # take k bs) = None)) \<or>
      r = ?v \<and> (\<forall>n \<le> length bs. node_map h root (xs @ b # take n bs) = None)" by blast
  have tail: "\<forall>k. 0 < k \<and> k \<le> length (b # bs) \<longrightarrow> node_map h root (xs @ take k (b # bs)) = None"
    if "\<forall>n \<le> length bs. node_map h root (xs @ b # take n bs) = None"
    using that by (auto simp: take_Cons')
  from r(2) show ?case
  proof
    assume "\<exists>n \<le> length bs. node_map h root (xs @ b # take n bs) = Some r \<and>
         (\<forall>k. n < k \<and> k \<le> length bs \<longrightarrow> node_map h root (xs @ b # take k bs) = None)"
    then obtain n where n: "n \<le> length bs" "node_map h root (xs @ b # take n bs) = Some r"
      "\<forall>k. n < k \<and> k \<le> length bs \<longrightarrow> node_map h root (xs @ b # take k bs) = None" by blast
    have "\<forall>k. Suc n < k \<and> k \<le> length (b # bs) \<longrightarrow> node_map h root (xs @ take k (b # bs)) = None"
    proof (intro allI impI)
      fix k assume "Suc n < k \<and> k \<le> length (b # bs)"
      then obtain j where "k = Suc j" "n < j" "j \<le> length bs" by (cases k) auto
      then show "node_map h root (xs @ take k (b # bs)) = None" using n(3) by simp
    qed
    moreover have "find_walk h (b # bs) v node = Some r" using f r(1) by simp
    moreover have "Suc n \<le> length (b # bs)" "node_map h root (xs @ take (Suc n) (b # bs)) = Some r"
      using n(1,2) by simp_all
    ultimately show ?thesis by blast
  next
    assume a: "r = ?v \<and> (\<forall>n \<le> length bs. node_map h root (xs @ b # take n bs) = None)"
    show ?thesis
    proof (cases "rn_value nd = NGX_RADIX_NO_VALUE")
      case True
      have "node_map h root (xs @ take n (b # bs)) = None" if "n \<le> length (b # bs)" for n
        using tail a m0 True that by (cases "n = 0") simp_all
      moreover have "find_walk h (b # bs) v node = Some v" using f r(1) a True by simp
      ultimately show ?thesis by blast
    next
      case False
      then have "node_map h root (xs @ take 0 (b # bs)) = Some r" using a m0 by simp
      moreover have "find_walk h (b # bs) v node = Some r" using f r(1) by simp
      ultimately show ?thesis using tail a le0 by blast
    qed
  qed
qed (simp_all)

section \<open>The bits of a key\<close>

definition bits32 :: "u32 \<Rightarrow> bool list" where "bits32 key = path32 key (- 1) 0x80000000"
definition bits128 :: "u8 list \<Rightarrow> bool list" where "bits128 key = path128 key (replicate 16 (- 1)) 0 0x80"

text \<open>The entry that a key and a mask name.\<close>

definition entry32 :: "u32 \<Rightarrow> u32 \<Rightarrow> bool list" where "entry32 key msk = path32 key msk 0x80000000"
definition entry128 :: "u8 list \<Rightarrow> u8 list \<Rightarrow> bool list" where "entry128 key msk = path128 key msk 0 0x80"

lemma halve_power: "k < LENGTH('a::len) \<Longrightarrow> drop_bit 1 (2 ^ k :: 'a word) = (if k = 0 then 0 else 2 ^ (k - 1))"
  by (rule bit_word_eqI) (auto simp: bit_simps)

lemma power_nonzero: "k < LENGTH('a::len) \<Longrightarrow> (2 ^ k :: 'a word) \<noteq> 0"
  by simp

lemma path32_length: "k < 32 \<Longrightarrow> length (path32 key msk (2 ^ k)) \<le> Suc k"
proof (induction k)
  case (Suc k)
  have "length (path32 key msk (drop_bit 1 (2 ^ Suc k))) \<le> Suc k"
    using Suc halve_power [where 'a = 32, of "Suc k"] by simp
  then show ?case by (subst path32.simps) simp
next
  case 0
  have "drop_bit 1 (2 ^ 0 :: u32) = 0" by (subst halve_power) simp_all
  then show ?case by (subst path32.simps) (simp add: path32.simps [of _ _ 0])
qed

lemma path32_full: "k < 32 \<Longrightarrow> length (path32 key (- 1) (2 ^ k)) = Suc k"
proof (induction k)
  case (Suc k)
  have "length (path32 key (- 1) (drop_bit 1 (2 ^ Suc k))) = Suc k"
    using Suc halve_power [where 'a = 32, of "Suc k"] by simp
  then show ?case using power_nonzero [where 'a = 32, of "Suc k"] Suc.prems by (subst path32.simps) simp
next
  case 0
  have "drop_bit 1 (2 ^ 0 :: u32) = 0" by (subst halve_power) simp_all
  then show ?case by (subst path32.simps) (simp add: path32.simps [of _ _ 0])
qed

lemma entry32_length: "length (entry32 key msk) \<le> 32" and bits32_length: "length (bits32 key) = 32"
  using path32_length [of 31 key msk] path32_full [of 31 key] by (simp_all add: entry32_def bits32_def)

lemma path128_length:
  "i < 16 \<Longrightarrow> k < 8 \<Longrightarrow> length (path128 key msk i (2 ^ k)) \<le> 8 * (15 - i) + Suc k"
proof (induction "8 * (15 - i) + k" arbitrary: i k rule: less_induct)
  case less
  show ?case
  proof (cases "(2 ^ k :: u8) AND msk ! i = 0")
    case True
    then show ?thesis by (simp add: path128_end)
  next
    case False
    note p = path128_step [OF less.prems(1) False, of key]
    show ?thesis
    proof (cases k)
      case 0
      have "drop_bit 1 (2 ^ k :: u8) = 0" using 0 by (subst halve_power) simp_all
      moreover have "length (path128 key msk (i + 1) 0x80) \<le> 8 * (15 - i)"
      proof (cases "i = 15")
        case False
        then have "15 - i = Suc (14 - i)" using less.prems by simp
        with less.hyps [of "i + 1" 7] less.prems 0 False show ?thesis by simp
      qed (simp add: path128_end)
      ultimately show ?thesis using p 0 by simp
    next
      case (Suc j)
      have "drop_bit 1 (2 ^ k :: u8) = 2 ^ j" using Suc less.prems by (subst halve_power) simp_all
      moreover have "(2 ^ j :: u8) \<noteq> 0" using Suc less.prems by simp
      ultimately show ?thesis using p less.hyps [of i j] less.prems Suc by simp
    qed
  qed
qed

lemma path128_full:
  "i < 16 \<Longrightarrow> k < 8 \<Longrightarrow> length (path128 key (replicate 16 (- 1)) i (2 ^ k)) = 8 * (15 - i) + Suc k"
proof (induction "8 * (15 - i) + k" arbitrary: i k rule: less_induct)
  case less
  have b: "(2 ^ k :: u8) AND replicate 16 (- 1) ! i \<noteq> 0" using less.prems by simp
  note p = path128_step [OF less.prems(1) b, of key]
  show ?case
  proof (cases k)
    case 0
    have "drop_bit 1 (2 ^ k :: u8) = 0" using 0 by (subst halve_power) simp_all
    moreover have "length (path128 key (replicate 16 (- 1)) (i + 1) 0x80) = 8 * (15 - i)"
    proof (cases "i = 15")
      case False
      then have "15 - i = Suc (14 - i)" using less.prems by simp
      with less.hyps [of "i + 1" 7] less.prems 0 False show ?thesis by simp
    qed (simp add: path128_end)
    ultimately show ?thesis using p 0 by simp
  next
    case (Suc j)
    have "drop_bit 1 (2 ^ k :: u8) = 2 ^ j" using Suc less.prems by (subst halve_power) simp_all
    moreover have "(2 ^ j :: u8) \<noteq> 0" using Suc less.prems by simp
    ultimately show ?thesis using p less.hyps [of i j] less.prems Suc by simp
  qed
qed

lemma entry128_length: "length (entry128 key msk) \<le> 128" and bits128_length: "length (bits128 key) = 128"
  using path128_length [of 0 7 key msk] path128_full [of 0 7 key] by (simp_all add: entry128_def bits128_def)

end
