(* ===== verification/Radix_Tree.thy ===== *)
theory Radix_Tree
  imports Radix_Correct
begin

text \<open>
  Creation of a radix tree and the contract of the interface: a table of bit-string entries with
  longest-prefix lookup, stated as the locale \<open>prefix_table\<close> and interpreted for 32-bit and for
  128-bit keys.
\<close>

section \<open>Creation\<close>

definition pages_ok :: "nat \<Rightarrow> (nat \<times> rnode) list \<Rightarrow> bool" where
  "pages_ok ps pages \<longleftrightarrow> distinct (concat (map (\<lambda>(a, _). page_slots ps a) pages)) \<and>
    0 \<notin> set (concat (map (\<lambda>(a, _). page_slots ps a) pages))"

lemma insert_empty_value:
  assumes "radix_inv ps D t" "node_size \<le> ps" "length bs \<le> D" "radix_map t = Map.empty"
  shows "\<exists>t' r. insert_bits ps t bs NGX_RADIX_NO_VALUE = Some (t', r) \<and> radix_inv ps D t' \<and> radix_map t' = Map.empty"
  using insert_bits_spec [OF assms(1-3), of NGX_RADIX_NO_VALUE] assms(4) by auto

lemma create_keys_spec:
  assumes ps: "node_size \<le> ps"
  shows "radix_inv ps 32 t \<Longrightarrow> radix_map t = Map.empty \<Longrightarrow> unat key + m * unat inc = 2 ^ 32 \<Longrightarrow> 0 < m \<Longrightarrow>
    \<exists>r. create_keys ps t key msk inc = Some r \<and> (\<forall>t'. r = Some t' \<longrightarrow> radix_inv ps 32 t' \<and> radix_map t' = Map.empty)"
proof (induction m arbitrary: t key)
  case (Suc m)
  from insert_empty_value [OF Suc.prems(1) ps _ Suc.prems(2), of "entry32 key msk"] entry32_length obtain t1 r where i:
    "ngx_radix32tree_insert ps t key msk NGX_RADIX_NO_VALUE = Some (t1, r)" "radix_inv ps 32 t1" "radix_map t1 = Map.empty"
    by (auto simp: insert32_eq entry32_def)
  show ?case
  proof (cases "r = NGX_OK \<and> key + inc \<noteq> 0")
    case False
    then show ?thesis using i by (subst create_keys.simps) auto
  next
    case True
    have "m \<noteq> 0"
    proof
      assume "m = 0"
      then have "unat key + unat inc = 2 ^ 32" using Suc.prems(3) by simp
      then have "unat (key + inc) = 0" by (simp add: unat_word_ariths take_bit_eq_mod)
      then show False using True by (simp only: unsigned_eq_0_iff)
    qed
    moreover have "unat (key + inc) = unat key + unat inc"
    proof -
      have "unat inc \<le> m * unat inc" using \<open>m \<noteq> 0\<close> by simp
      moreover have "unat key < 2 ^ 32" using unat_less_size [of key] by simp
      moreover have "unat key + (unat inc + m * unat inc) = 2 ^ 32" using Suc.prems(3) by simp
      ultimately have "unat key + unat inc < 2 ^ 32" by linarith
      then show ?thesis by (simp add: unat_word_ariths take_bit_eq_mod)
    qed
    ultimately obtain r' where "create_keys ps t1 (key + inc) msk inc = Some r'"
      "\<forall>t'. r' = Some t' \<longrightarrow> radix_inv ps 32 t' \<and> radix_map t' = Map.empty"
      using Suc.IH [OF i(2,3), of "key + inc"] Suc.prems(3) by auto
    then show ?thesis using i True by (subst create_keys.simps) auto
  qed
qed simp

lemma create_keys_zero_inc:
  assumes ps: "node_size \<le> ps" and "radix_inv ps 32 t" "radix_map t = Map.empty"
  shows "\<exists>r. create_keys ps t 0 msk 0 = Some r \<and> (\<forall>t'. r = Some t' \<longrightarrow> radix_inv ps 32 t' \<and> radix_map t' = Map.empty)"
proof -
  from insert_empty_value [OF assms(2) ps _ assms(3), of "entry32 0 msk"] entry32_length obtain t1 r where
    "ngx_radix32tree_insert ps t 0 msk NGX_RADIX_NO_VALUE = Some (t1, r)" "radix_inv ps 32 t1" "radix_map t1 = Map.empty"
    by (auto simp: insert32_eq entry32_def)
  then show ?thesis by (subst create_keys.simps) auto
qed

definition inc_ok :: "u32 \<Rightarrow> bool" where
  "inc_ok inc \<longleftrightarrow> inc = 0 \<or> (\<exists>k < 32. inc = 2 ^ k)"

lemma inc_ok_half: "inc_ok inc \<Longrightarrow> inc_ok (drop_bit 1 inc)"
proof -
  assume "inc_ok inc"
  then consider "inc = 0" | k where "k < 32" "inc = 2 ^ k" by (auto simp: inc_ok_def)
  then show ?thesis
  proof cases
    case 2
    then have "drop_bit 1 inc = (if k = 0 then 0 else 2 ^ (k - 1))"
      unfolding 2(2) by (intro halve_power) simp
    moreover have "k - 1 < 32" using 2 by simp
    ultimately show ?thesis unfolding inc_ok_def by (metis (full_types))
  qed (simp add: inc_ok_def)
qed

lemma create_levels_spec:
  assumes ps: "node_size \<le> ps"
  shows "radix_inv ps 32 t \<Longrightarrow> radix_map t = Map.empty \<Longrightarrow> inc_ok inc \<Longrightarrow>
    \<exists>r. create_levels ps n t msk inc = Some r \<and> (\<forall>t'. r = Some t' \<longrightarrow> radix_inv ps 32 t' \<and> radix_map t' = Map.empty)"
proof (induction n arbitrary: t msk inc)
  case (Suc n)
  let ?m = "drop_bit 1 msk OR 0x80000000"
  have "\<exists>r. create_keys ps t 0 ?m inc = Some r \<and> (\<forall>t'. r = Some t' \<longrightarrow> radix_inv ps 32 t' \<and> radix_map t' = Map.empty)"
  proof (cases "inc = 0")
    case True
    then show ?thesis using create_keys_zero_inc [OF ps Suc.prems(1,2)] by simp
  next
    case False
    then obtain k where k: "k < 32" "inc = 2 ^ k" using Suc.prems(3) by (auto simp: inc_ok_def)
    have "unat inc = 2 ^ k" using k 
      using unsigned_of_nat [where 'b = 32 and 'a = nat, of "2 ^ k"] by (simp add: take_bit_nat_eq_self)
    then have "unat (0 :: u32) + 2 ^ (32 - k) * unat inc = 2 ^ 32" using k by (simp add: power_add [symmetric])
    then show ?thesis by (rule create_keys_spec [OF ps Suc.prems(1,2)]) simp
  qed
  then obtain r where r: "create_keys ps t 0 ?m inc = Some r"
    "\<forall>t'. r = Some t' \<longrightarrow> radix_inv ps 32 t' \<and> radix_map t' = Map.empty" by blast
  show ?case
  proof (cases r)
    case None
    then show ?thesis using r by (simp add: Let_def)
  next
    case (Some t')
    with r(2) Suc.IH [of t' "drop_bit 1 inc" ?m] inc_ok_half [OF Suc.prems(3)] show ?thesis
      using r(1) by (simp add: Let_def)
  qed
qed simp

lemma create_spec:
  assumes ps: "node_size \<le> ps" and pages: "pages_ok ps pages"
  shows "\<exists>r. ngx_radix_tree_create ps ok pages n = Some r \<and>
    (\<forall>t. r = Some t \<longrightarrow> radix_inv ps 32 t \<and> radix_map t = Map.empty)"
proof -
  let ?t0 = "\<lparr>rt_root = 0, rt_free = 0, rt_start = 0, rt_size = 0, rt_heap = \<lambda>_. None, rt_pages = pages\<rparr>"
  have pool0: "pool_ok ps ?t0 {} []"
    using pages by (simp add: pool_ok_def slots_def pages_ok_def page_slots_def node_size_def)
  from alloc_ok [OF pool0 _ ps] obtain t1 p where a: "ngx_radix_alloc ps ?t0 = Some (t1, p)"
    "p = 0 \<or> p \<noteq> 0 \<and> (\<exists>nd. rt_heap t1 = [p \<mapsto> nd]) \<and> (\<exists>fl'. pool_ok ps t1 {p} fl')" by auto
  show ?thesis
  proof (cases "\<not> ok \<or> p = 0")
    case True
    then show ?thesis using a by (auto simp: ngx_radix_tree_create_def)
  next
    case False
    with a obtain nd fl where p: "p \<noteq> 0" "rt_heap t1 = [p \<mapsto> nd]" "pool_ok ps t1 {p} fl" by auto
    let ?t = "t1\<lparr>rt_root := p, rt_heap := [p \<mapsto> new_node 0]\<rparr>"
    have init: "init_node (t1\<lparr>rt_root := p\<rparr>) p 0 = Some ?t"
      using p(2) by (simp add: init_node_def set_node_def new_node_def)
    have "pool_ok ps (t1\<lparr>rt_heap := [p \<mapsto> new_node 0]\<rparr>) {p} fl"
      by (rule pool_frame [OF p(3)]) (use p(2) in auto)
    then have pool: "pool_ok ps ?t {p} fl" by (simp add: pool_ok_def slots_def)
    have at: "at [p \<mapsto> new_node 0] p xs = (if xs = [] then Some p else None)" for xs by (cases xs) simp_all
    have "node_ok [p \<mapsto> new_node 0] {p} p p" by (rule node_okI [of _ p "new_node 0"]) simp_all
    then have "rtree_ok [p \<mapsto> new_node 0] p {p}" using p(1) by (simp add: rtree_ok_def)
    then have inv: "radix_inv ps 32 ?t" using pool at unfolding radix_inv_def tree_inv_def by fastforce
    have map: "radix_map ?t = Map.empty"
      by (rule ext) (simp add: radix_map_def node_map_def at)
    have inc: "inc_ok 0x80000000" unfolding inc_ok_def by (rule disjI2, rule exI [of _ 31]) simp
    let ?k = "if n = -1 then (if ps div node_size = 128 then 6 else if ps div node_size = 256 then 7 else 8) else n"
    from create_levels_spec [OF ps inv map inc, of "nat (?k mod 2 ^ 64)" 0] obtain r where
      "create_levels ps (nat (?k mod 2 ^ 64)) ?t 0 0x80000000 = Some r"
      "\<forall>t'. r = Some t' \<longrightarrow> radix_inv ps 32 t' \<and> radix_map t' = Map.empty" by blast
    then show ?thesis using False a(1) init inv map
      by (simp add: ngx_radix_tree_create_def Let_def split del: if_split cong: if_cong) (auto split: if_splits)
  qed
qed

section \<open>The interface\<close>

locale prefix_table =
  fixes inv :: "'s \<Rightarrow> bool"
    and contents :: "'s \<Rightarrow> bool list \<Rightarrow> u64 option"
    and ins :: "'s \<Rightarrow> 'k \<Rightarrow> 'm \<Rightarrow> u64 \<Rightarrow> ('s \<times> ngx_result) option"
    and del :: "'s \<Rightarrow> 'k \<Rightarrow> 'm \<Rightarrow> ('s \<times> ngx_result) option"
    and lookup :: "'s \<Rightarrow> 'k \<Rightarrow> u64 option"
    and entry :: "'k \<Rightarrow> 'm \<Rightarrow> bool list"
    and bits :: "'k \<Rightarrow> bool list"
    and valid :: "'k \<Rightarrow> 'm \<Rightarrow> bool"
    and key_ok :: "'k \<Rightarrow> bool"
    and room :: "'s \<Rightarrow> nat"
    and shrinks :: "'s \<Rightarrow> bool list \<Rightarrow> 's \<Rightarrow> bool"
  assumes ins_law: "inv s \<Longrightarrow> valid k m \<Longrightarrow>
      \<exists>s' r. ins s k m v = Some (s', r) \<and> inv s' \<and>
        (r = NGX_BUSY \<and> contents s (entry k m) \<noteq> None \<and> s' = s \<or>
         r = NGX_ERROR \<and> contents s (entry k m) = None \<and> contents s' = contents s \<and> room s < length (entry k m) \<or>
         r = NGX_OK \<and> contents s (entry k m) = None \<and>
           contents s' = (contents s)(entry k m := if v = NGX_RADIX_NO_VALUE then None else Some v))"
    and del_law: "inv s \<Longrightarrow> valid k m \<Longrightarrow> entry k m \<noteq> [] \<Longrightarrow>
      \<exists>s' r. del s k m = Some (s', r) \<and> inv s' \<and>
        (r = NGX_OK \<and> contents s' = (contents s)(entry k m := None) \<and> shrinks s (entry k m) s' \<or>
         r = NGX_ERROR \<and> s' = s \<and> contents s (entry k m) = None)"
    and lookup_law: "inv s \<Longrightarrow> key_ok k \<Longrightarrow> \<exists>r. lookup s k = Some r \<and> longest_match (contents s) (bits k) r"
begin

text \<open>A new entry is found by every key that it covers, unless a longer entry covers the key too.\<close>

lemma lookup_inserted:
  assumes "inv s" "valid k m" "ins s k m v = Some (s', NGX_OK)" "v \<noteq> NGX_RADIX_NO_VALUE"
    and "key_ok k'" "n \<le> length (bits k')" "take n (bits k') = entry k m"
    and longer: "\<And>j. n < j \<Longrightarrow> j \<le> length (bits k') \<Longrightarrow> contents s (take j (bits k')) = None"
  shows "lookup s' k' = Some v"
proof -
  have c: "contents s' = (contents s)(entry k m := Some v)" and inv': "inv s'"
    using ins_law [OF assms(1,2), of v] assms(3,4) by auto
  have n: "contents s' (take n (bits k')) = Some v" using c assms(7) by simp
  have len: "length (entry k m) = n" using assms(6) by (simp add: assms(7) [symmetric])
  have later: "contents s' (take j (bits k')) = None" if "n < j" "j \<le> length (bits k')" for j
  proof -
    have "length (take j (bits k')) = j" using that(2) by simp
    have "take j (bits k') \<noteq> entry k m"
    proof
      assume "take j (bits k') = entry k m"
      from arg_cong [OF this, of length] \<open>length (take j (bits k')) = j\<close> len that(1) show False by linarith
    qed
    then show ?thesis using c longer [OF that] by simp
  qed
  from lookup_law [OF inv' assms(5)] obtain r where r: "lookup s' k' = Some r" "longest_match (contents s') (bits k') r"
    by blast
  from r(2) consider i where "i \<le> length (bits k')" "contents s' (take i (bits k')) = Some r"
      "\<forall>j. i < j \<and> j \<le> length (bits k') \<longrightarrow> contents s' (take j (bits k')) = None"
    | "\<forall>i \<le> length (bits k'). contents s' (take i (bits k')) = None"
    unfolding longest_match_def by blast
  then have "r = v"
  proof cases
    case 1
    have "\<not> n < i" using later [of i] 1 by auto
    moreover have "\<not> i < n" using 1(3) n assms(6) by auto
    ultimately show ?thesis using 1(2) n by simp
  next
    case 2
    then show ?thesis using n assms(6) by auto
  qed
  with r(1) show ?thesis by simp
qed

text \<open>Deleting an entry that was just inserted restores the contents.\<close>

lemma delete_inserted:
  assumes "inv s" "valid k m" "entry k m \<noteq> []" "ins s k m v = Some (s', NGX_OK)" "v \<noteq> NGX_RADIX_NO_VALUE"
  shows "\<exists>s''. del s' k m = Some (s'', NGX_OK) \<and> inv s'' \<and> contents s'' = contents s"
proof -
  have c: "contents s' = (contents s)(entry k m := Some v)" "inv s'" "contents s (entry k m) = None"
    using ins_law [OF assms(1,2), of v] assms(4,5) by auto
  then have "(contents s')(entry k m := None) = contents s" by auto
  with del_law [OF c(2) assms(2,3)] c(1) show ?thesis by auto
qed

end

lemma lookup32:
  assumes "radix_inv ps 32 t"
  shows "\<exists>r. ngx_radix32tree_find t key = Some r \<and> longest_match (radix_map t) (bits32 key) r"
proof -
  from assms obtain S fl where ok: "rtree_ok (rt_heap t) (rt_root t) S"
    and dep: "\<And>xs p. at (rt_heap t) (rt_root t) xs = Some p \<Longrightarrow> length xs \<le> 32"
    by (auto simp: radix_inv_def tree_inv_def)
  have deep: "at (rt_heap t) (rt_root t) xs = None" if "32 < length xs" for xs
    using dep [of xs] that by (cases "at (rt_heap t) (rt_root t) xs") auto
  have "at (rt_heap t) (rt_root t) ([] @ bits32 key @ [False]) = None" by (rule deep) (simp add: bits32_length)
  from find_walk_spec [OF ok _ this, of "rt_root t" NGX_RADIX_NO_VALUE] obtain r where
    r: "find_walk (rt_heap t) (bits32 key @ [False]) NGX_RADIX_NO_VALUE (rt_root t) = Some r"
    "(\<exists>n \<le> 33. radix_map t (take n (bits32 key @ [False])) = Some r \<and>
         (\<forall>k. n < k \<and> k \<le> 33 \<longrightarrow> radix_map t (take k (bits32 key @ [False])) = None)) \<or>
      r = NGX_RADIX_NO_VALUE \<and> (\<forall>n \<le> 33. radix_map t (take n (bits32 key @ [False])) = None)"
    by (auto simp: radix_map_def bits32_length)
  have last: "radix_map t (take 33 (bits32 key @ [False])) = None"
    using deep [of "bits32 key @ [False]"] by (simp add: radix_map_def node_map_def bits32_length)
  have init: "take n (bits32 key @ [False]) = take n (bits32 key)" if "n \<le> 32" for n
    using that by (simp add: bits32_length)
  have small: "n \<le> 32" if "n \<le> 33" "radix_map t (take n (bits32 key @ [False])) = Some r" for n
    using that last by (cases "n = 33") auto
  have "longest_match (radix_map t) (bits32 key) r"
    using r(2)
  proof
    assume "\<exists>n \<le> 33. radix_map t (take n (bits32 key @ [False])) = Some r \<and>
         (\<forall>k. n < k \<and> k \<le> 33 \<longrightarrow> radix_map t (take k (bits32 key @ [False])) = None)"
    then obtain n where n: "n \<le> 32" "radix_map t (take n (bits32 key)) = Some r"
      "\<And>k. n < k \<Longrightarrow> k \<le> 33 \<Longrightarrow> radix_map t (take k (bits32 key @ [False])) = None"
      using small init by metis
    moreover have "radix_map t (take k (bits32 key)) = None" if "n < k" "k \<le> 32" for k
      using n(3) [of k] that init [of k] by simp
    ultimately show ?thesis unfolding longest_match_def bits32_length by blast
  next
    assume "r = NGX_RADIX_NO_VALUE \<and> (\<forall>n \<le> 33. radix_map t (take n (bits32 key @ [False])) = None)"
    then have "radix_map t (take n (bits32 key)) = None" if "n \<le> 32" for n
      using init [OF that] that by (auto dest: spec [of _ n])
    then show ?thesis using \<open>r = _ \<and> _\<close> unfolding longest_match_def bits32_length by blast
  qed
  moreover have "ngx_radix32tree_find t key = Some r"
    unfolding ngx_radix32tree_find_def by (rule find_walk32_eq) (use r(1) in \<open>simp add: bits32_def\<close>)
  ultimately show ?thesis by blast
qed

lemma lookup128:
  assumes "radix_inv ps 127 t" "length key = 16"
  shows "\<exists>r. ngx_radix128tree_find t key = Some r \<and> longest_match (radix_map t) (bits128 key) r"
proof -
  from assms obtain S fl where ok: "rtree_ok (rt_heap t) (rt_root t) S"
    and dep: "\<And>xs p. at (rt_heap t) (rt_root t) xs = Some p \<Longrightarrow> length xs \<le> 127"
    by (auto simp: radix_inv_def tree_inv_def)
  have "at (rt_heap t) (rt_root t) ([] @ bits128 key) = None"
    using dep [of "bits128 key"] by (cases "at (rt_heap t) (rt_root t) (bits128 key)") (auto simp: bits128_length)
  from find_walk_spec [OF ok _ this, of "rt_root t" NGX_RADIX_NO_VALUE] obtain r where
    r: "find_walk (rt_heap t) (bits128 key) NGX_RADIX_NO_VALUE (rt_root t) = Some r"
    "longest_match (radix_map t) (bits128 key) r"
    by (auto simp: radix_map_def longest_match_def)
  moreover have "ngx_radix128tree_find t key = Some r"
    unfolding ngx_radix128tree_find_def
    by (rule find_walk128_eq) (use r(1) assms(2) in \<open>simp_all add: bits128_def\<close>)
  ultimately show ?thesis by blast
qed

definition entry128_ok :: "u8 list \<Rightarrow> u8 list \<Rightarrow> bool" where
  "entry128_ok key msk \<longleftrightarrow> length key = 16 \<and> length msk = 16 \<and> length (entry128 key msk) < 128"

interpretation rt32: prefix_table "radix_inv 4096 32" radix_map "ngx_radix32tree_insert 4096" ngx_radix32tree_delete
  ngx_radix32tree_find entry32 bits32 "\<lambda>_ _. True" "\<lambda>_. True" "\<lambda>t. length (slots 4096 t)" prunes
proof
  show "\<exists>s' r. ngx_radix32tree_insert 4096 s k m v = Some (s', r) \<and> radix_inv 4096 32 s' \<and>
        (r = NGX_BUSY \<and> radix_map s (entry32 k m) \<noteq> None \<and> s' = s \<or>
         r = NGX_ERROR \<and> radix_map s (entry32 k m) = None \<and> radix_map s' = radix_map s
           \<and> length (slots 4096 s) < length (entry32 k m) \<or>
         r = NGX_OK \<and> radix_map s (entry32 k m) = None \<and>
           radix_map s' = (radix_map s)(entry32 k m := if v = NGX_RADIX_NO_VALUE then None else Some v))"
    if "radix_inv 4096 32 s" for s k m v
    using insert_bits_spec [OF that _ entry32_length, of k m v] by (simp add: insert32_eq entry32_def node_size_def)
  show "\<exists>s' r. ngx_radix32tree_delete s k m = Some (s', r) \<and> radix_inv 4096 32 s' \<and>
        (r = NGX_OK \<and> radix_map s' = (radix_map s)(entry32 k m := None) \<and> prunes s (entry32 k m) s' \<or>
         r = NGX_ERROR \<and> s' = s \<and> radix_map s (entry32 k m) = None)"
    if "radix_inv 4096 32 s" "entry32 k m \<noteq> []" for s k m
    using delete_node_spec [OF that(1), of "entry32 k m"] that(2)
    by (simp add: ngx_radix32tree_delete_def del_walk32_eq entry32_def)
  show "\<exists>r. ngx_radix32tree_find s k = Some r \<and> longest_match (radix_map s) (bits32 k) r"
    if "radix_inv 4096 32 s" for s k
    by (rule lookup32 [OF that])
qed

interpretation rt128: prefix_table "radix_inv 4096 127" radix_map "ngx_radix128tree_insert 4096" ngx_radix128tree_delete
  ngx_radix128tree_find entry128 bits128 entry128_ok "\<lambda>k. length k = 16"
  "\<lambda>t. length (slots 4096 t)" prunes
proof
  show "\<exists>s' r. ngx_radix128tree_insert 4096 s k m v = Some (s', r) \<and> radix_inv 4096 127 s' \<and>
        (r = NGX_BUSY \<and> radix_map s (entry128 k m) \<noteq> None \<and> s' = s \<or>
         r = NGX_ERROR \<and> radix_map s (entry128 k m) = None \<and> radix_map s' = radix_map s
           \<and> length (slots 4096 s) < length (entry128 k m) \<or>
         r = NGX_OK \<and> radix_map s (entry128 k m) = None \<and>
           radix_map s' = (radix_map s)(entry128 k m := if v = NGX_RADIX_NO_VALUE then None else Some v))"
    if "radix_inv 4096 127 s" "entry128_ok k m" for s k m v
    using insert_bits_spec [OF that(1), of "entry128 k m" v] that(2)
    by (auto simp: insert128_eq entry128_def node_size_def entry128_ok_def)
  show "\<exists>s' r. ngx_radix128tree_delete s k m = Some (s', r) \<and> radix_inv 4096 127 s' \<and>
        (r = NGX_OK \<and> radix_map s' = (radix_map s)(entry128 k m := None) \<and> prunes s (entry128 k m) s' \<or>
         r = NGX_ERROR \<and> s' = s \<and> radix_map s (entry128 k m) = None)"
    if "radix_inv 4096 127 s" "entry128_ok k m" "entry128 k m \<noteq> []" for s k m
    using delete_node_spec [OF that(1), of "entry128 k m"] that(2,3)
    by (simp add: ngx_radix128tree_delete_def del_walk128_eq entry128_def entry128_ok_def)
  show "\<exists>r. ngx_radix128tree_find s k = Some r \<and> longest_match (radix_map s) (bits128 k) r"
    if "radix_inv 4096 127 s" "length k = 16" for s k
    by (rule lookup128 [OF that])
qed

section \<open>A tree to start from\<close>

text \<open>A page at address 4096 whose first node is the root.\<close>

definition first_tree :: "(nat \<times> rnode) list \<Rightarrow> rtree" where
  "first_tree pages =
    \<lparr>rt_root = 4096, rt_free = 0, rt_start = 4128, rt_size = 4064, rt_heap = [4096 \<mapsto> new_node 0], rt_pages = pages\<rparr>"

lemma page_slots_bounds: "x \<in> set (page_slots n a) \<Longrightarrow> a \<le> x \<and> x < a + n"
proof -
  assume "x \<in> set (page_slots n a)"
  then obtain k where k: "k < n div node_size" "x = a + node_size * k" by (auto simp: page_slots_def)
  have "node_size * Suc k \<le> node_size * (n div node_size)" using k(1) by (intro mult_le_mono2) simp
  also have "\<dots> \<le> n" by simp
  finally show ?thesis using k(2) by (simp add: node_size_def)
qed

lemma page_slots_distinct: "distinct (page_slots n a)"
  by (simp add: page_slots_def distinct_map inj_on_def node_size_def)

lemma first_tree_inv:
  assumes "pages = [] \<or> pages = [(8192, junk)]"
  shows "radix_inv 4096 D (first_tree pages)" and "radix_map (first_tree pages) = Map.empty"
    and "length (slots 4096 (first_tree pages)) = 127 + 128 * length pages"
proof -
  have at: "at [4096 \<mapsto> new_node 0] 4096 xs = (if xs = [] then Some 4096 else None)" for xs by (cases xs) simp_all
  have "node_ok [4096 \<mapsto> new_node 0] {4096} 4096 4096" by (rule node_okI [of _ 4096 "new_node 0"]) simp_all
  then have "rtree_ok [4096 \<mapsto> new_node 0] 4096 {4096}" by (simp add: rtree_ok_def)
  moreover have "pool_ok 4096 (first_tree pages) {4096} []"
    using assms page_slots_bounds [of _ 4064 4128] page_slots_bounds [of _ 4096 8192]
    by (fastforce simp: pool_ok_def slots_def first_tree_def page_slots_distinct)
  ultimately have "tree_inv 4096 D (first_tree pages) {4096} []"
    using at by (simp add: tree_inv_def first_tree_def)
  then show "radix_inv 4096 D (first_tree pages)" unfolding radix_inv_def by blast
  show "radix_map (first_tree pages) = Map.empty"
    by (rule ext) (simp add: radix_map_def node_map_def at first_tree_def)
  show "length (slots 4096 (first_tree pages)) = 127 + 128 * length pages"
    using assms by (auto simp: slots_def first_tree_def page_slots_def node_size_def)
qed

section \<open>Properties\<close>

text \<open>C32. \<open>ngx_radix32tree_insert\<close> adds exactly the entry of its key and mask to the table when there is
  none, answers busy and changes nothing when there is one, and answers an error with the table
  unchanged only when fewer nodes are left than the entry has bits. The structure stays a tree with
  exact parent pointers, disjoint from the free nodes.\<close>

theorem radix32_insert_refines:
  assumes "radix_inv 4096 32 t"
  shows "\<exists>t' r. ngx_radix32tree_insert 4096 t key msk v = Some (t', r) \<and> radix_inv 4096 32 t' \<and>
    (r = NGX_BUSY \<and> radix_map t (entry32 key msk) \<noteq> None \<and> t' = t \<or>
     r = NGX_ERROR \<and> radix_map t (entry32 key msk) = None \<and> radix_map t' = radix_map t
       \<and> length (slots 4096 t) < length (entry32 key msk) \<or>
     r = NGX_OK \<and> radix_map t (entry32 key msk) = None \<and>
       radix_map t' = (radix_map t)(entry32 key msk := if v = NGX_RADIX_NO_VALUE then None else Some v))"
  using rt32.ins_law [OF assms] by simp

lemma radix32_insert_refines_witness:
  "\<exists>t'. ngx_radix32tree_insert 4096 (first_tree []) 0xC0A80000 0xFFFF0000 7 = Some (t', NGX_OK)
    \<and> radix_map t' = [entry32 0xC0A80000 0xFFFF0000 \<mapsto> 7]"
  using radix32_insert_refines [OF first_tree_inv(1), of "[]" undefined "0xC0A80000" "0xFFFF0000" 7]
    first_tree_inv(2,3) [of "[]"] entry32_length [of "0xC0A80000" "0xFFFF0000"]
  by (auto simp: NGX_RADIX_NO_VALUE_def)

text \<open>C33. \<open>ngx_radix32tree_find\<close> returns, in every reachable tree and for every key, the value of the
  longest entry that is a prefix of the key, or \<open>NGX_RADIX_NO_VALUE\<close> when no entry is; the walk ends.\<close>

theorem radix32_find_longest:
  assumes "radix_inv 4096 32 t"
  shows "\<exists>r. ngx_radix32tree_find t key = Some r \<and> longest_match (radix_map t) (bits32 key) r"
  using rt32.lookup_law [OF assms] by simp

lemma radix32_find_longest_witness: "ngx_radix32tree_find (first_tree []) 0xC0A80101 = Some NGX_RADIX_NO_VALUE"
  using radix32_find_longest [OF first_tree_inv(1), of "[]" undefined "0xC0A80101"] first_tree_inv(2) [of "[]"]
  by (auto simp: longest_match_def)

text \<open>C34. \<open>ngx_radix32tree_delete\<close> with a mask of at least one bit removes exactly the named entry, or
  answers an error on an unchanged tree that has no such entry. On success the tree is pruned
  (\<open>prunes\<close>): the nodes on the path of the entry, from its node up to the first one that is the root,
  holds a value or has another child, and no other nodes, leave the tree, and the free list is
  the old one with exactly these nodes put before it. An entry whose node has children keeps its node.\<close>

theorem radix32_delete_refines:
  assumes "radix_inv 4096 32 t" "entry32 key msk \<noteq> []"
  shows "\<exists>t' r. ngx_radix32tree_delete t key msk = Some (t', r) \<and> radix_inv 4096 32 t' \<and>
    (r = NGX_OK \<and> radix_map t' = (radix_map t)(entry32 key msk := None) \<and> prunes t (entry32 key msk) t' \<or>
     r = NGX_ERROR \<and> t' = t \<and> radix_map t (entry32 key msk) = None)"
  using rt32.del_law [OF assms(1) _ assms(2)] by simp

text \<open>An entry of one bit, inserted and deleted\<close>

lemma radix32_delete_refines_witness:
  "\<exists>t t'. ngx_radix32tree_insert 4096 (first_tree []) 0x80000000 0x80000000 7 = Some (t, NGX_OK) \<and>
    path_node t [True] = Some 4128 \<and> rt_free t = 0 \<and>
    ngx_radix32tree_delete t 0x80000000 0x80000000 = Some (t', NGX_OK) \<and> radix_map t' = Map.empty \<and>
    path_node t' [True] = None \<and> rt_free t' = 4128"
proof -
  let ?e = "entry32 0x80000000 0x80000000"
  have e: "?e = [True]" by (simp add: entry32_def path32.simps [of _ _ "0x80000000"] path32.simps [of _ _ "0x40000000"])
  note first = first_tree_inv [of "[]" "new_node 0", simplified]
  obtain t where t: "ngx_radix32tree_insert 4096 (first_tree []) 0x80000000 0x80000000 7 = Some (t, NGX_OK)"
      "path_node t [True] = Some 4128" "rt_free t = 0" "\<And>b. path_node t [True, b] = None"
    by (simp add: insert32_eq e [unfolded entry32_def] insert_bits_def ngx_radix_alloc_def first_tree_def node_size_def
        init_node_def set_child_def set_node_def new_node_def child_def path_node_def NGX_RADIX_NO_VALUE_def)
  have i: "radix_inv 4096 32 t" "radix_map t = [[True] \<mapsto> 7]"
    using rt32.ins_law [OF first(1), of "0x80000000" "0x80000000" 7] t(1) e first(2) by (auto simp: NGX_RADIX_NO_VALUE_def)
  from radix32_delete_refines [OF i(1), of "0x80000000" "0x80000000"] e i(2) obtain t' k fl where
    d: "ngx_radix32tree_delete t 0x80000000 0x80000000 = Some (t', NGX_OK)" "radix_map t' = Map.empty"
      "pruned t [True] k t'" "fl_list (rt_heap t) (rt_free t) fl" "fl_list (rt_heap t') (rt_free t') (freed t [True] k @ fl)"
    by (auto simp: prunes_def)
  have "k = 0"
  proof (rule ccontr)
    assume "k \<noteq> 0"
    then have "k = 1" using d(3) by (simp add: pruned_def)
    then have "needed t' [True]" "\<And>b. path_node t' [True, b] = None" using d(3) t(4) by (simp_all add: pruned_def)
    then show False using d(2) by (simp add: needed_def)
  qed
  have "0 < (1 :: nat) \<and> 1 \<le> length [True] \<and> [True] = take 1 [True]" by simp
  then have "path_node t' [True] = None" using d(3) unfolding \<open>k = 0\<close> pruned_def by metis
  moreover have "rt_free t' = 4128" using d(5) \<open>k = 0\<close> t(2) by (simp add: freed_def)
  ultimately show ?thesis using t(1-3) d(1,2) by blast
qed

text \<open>\<open>ngx_radix_tree_create\<close> returns for every \<open>preallocate\<close>, with a null
  pointer or an empty table; the loop over the keys of a level ends when the key wraps around to 0.\<close>

theorem radix_create_terminates:
  assumes "node_size \<le> ps" "pages_ok ps pages"
  shows "\<exists>r. ngx_radix_tree_create ps ok pages n = Some r \<and>
    (\<forall>t. r = Some t \<longrightarrow> radix_inv ps 32 t \<and> radix_map t = Map.empty)"
  by (rule create_spec [OF assms])

lemma radix_create_terminates_witness:
  "\<exists>r. ngx_radix_tree_create 4096 True [(4096, new_node 0)] (- 1) = Some r"
proof -
  have "pages_ok 4096 [(4096, new_node 0)]"
    using page_slots_bounds [of 0 4096 4096] by (auto simp: pages_ok_def page_slots_distinct)
  from radix_create_terminates [OF _ this, of True "- 1"] show ?thesis by (auto simp: node_size_def)
qed

text \<open>With 128-bit keys an entry of at most 127 bits that was inserted is found by every key it
  covers, unless a longer entry covers the key too.\<close>

theorem radix128_insert_find:
  assumes "radix_inv 4096 127 t" "entry128_ok key msk"
    and "ngx_radix128tree_insert 4096 t key msk v = Some (t', NGX_OK)" "v \<noteq> NGX_RADIX_NO_VALUE"
    and "length key' = 16" "n \<le> 128" "take n (bits128 key') = entry128 key msk"
    and "\<forall>j. n < j \<and> j \<le> 128 \<longrightarrow> radix_map t (take j (bits128 key')) = None"
  shows "ngx_radix128tree_find t' key' = Some v"
  using rt128.lookup_inserted [OF assms(1-5)] assms(6-8) by (simp add: bits128_length)

lemma radix128_insert_find_witness:
  "\<exists>t'. ngx_radix128tree_insert 4096 (first_tree []) (replicate 16 0) (0x80 # replicate 15 0) 7 = Some (t', NGX_OK)
    \<and> ngx_radix128tree_find t' (replicate 16 0x11) = Some 7"
proof -
  let ?t = "first_tree []" and ?k = "replicate 16 0 :: u8 list" and ?m = "0x80 # replicate 15 0 :: u8 list"
  note inv = first_tree_inv [of "[]" "new_node 0", simplified]
  have "drop_bit 1 (0x80 :: u8) = 0x40" by simp
  then have e: "entry128 ?k ?m = [False]"
    unfolding entry128_def by (subst path128_step) (simp_all add: path128_end)
  have b: "take 1 (bits128 (replicate 16 0x11)) = [False]"
    unfolding bits128_def by (subst path128_step) simp_all
  have ok: "entry128_ok ?k ?m" by (simp add: entry128_ok_def e)
  from rt128.ins_law [OF inv(1) ok, of 7] inv(2,3) obtain t' where
    t': "ngx_radix128tree_insert 4096 ?t ?k ?m 7 = Some (t', NGX_OK)"
    by (auto simp: e)
  from radix128_insert_find [OF inv(1) ok this, of "replicate 16 0x11" 1] b e t' inv(2) show ?thesis
    by (auto simp: NGX_RADIX_NO_VALUE_def)
qed


lemma find_walk128_overrun:
  "length key = 16 \<Longrightarrow> i \<le> 16 \<Longrightarrow> bt \<noteq> 0 \<Longrightarrow> node \<noteq> 0 \<Longrightarrow>
   at h node (path128 key (replicate 16 (- 1)) i bt) = Some p \<Longrightarrow> find_walk128 h key i bt val node = None"
proof (induction key "replicate 16 (- 1) :: u8 list" i bt arbitrary: val node rule: path128.induct)
  case (1 key i bt)
  show ?case
  proof (cases "h node")
    case None
    then show ?thesis using "1.prems"(4) by (subst find_walk128.simps) simp
  next
    case (Some nd)
    show ?thesis
    proof (cases "i = 16")
      case True
      then have "load key i = None" using "1.prems"(1) by (simp add: load_def)
      then show ?thesis using Some "1.prems"(4) by (subst find_walk128.simps) simp
    next
      case False
      then have i: "i < 16" using "1.prems"(2) by simp
      have b: "bt AND replicate 16 (- 1) ! i \<noteq> 0" using i "1.prems"(3) by simp
      have l: "load key i = Some (key ! i)" using i "1.prems"(1) by (simp add: load_Some)
      let ?c = "child nd (key ! i AND bt \<noteq> 0)"
      let ?v = "if rn_value nd \<noteq> NGX_RADIX_NO_VALUE then rn_value nd else val"
      have st: "find_walk128 h key i bt val node =
        (if drop_bit 1 bt = 0 then find_walk128 h key (i + 1) 0x80 ?v ?c else find_walk128 h key i (drop_bit 1 bt) ?v ?c)"
        using "1.prems"(4) Some l by (subst find_walk128.simps) (simp add: child_def Let_def)
      have at: "?c \<noteq> 0" "at h ?c (if drop_bit 1 bt = 0 then path128 key (replicate 16 (- 1)) (i + 1) 0x80
          else path128 key (replicate 16 (- 1)) i (drop_bit 1 bt)) = Some p"
        using "1.prems"(5) Some unfolding path128_step [OF i b] by (simp_all split: if_splits)
      show ?thesis
      proof (cases "drop_bit 1 bt = 0")
        case True
        then show ?thesis using st at 1(1) [OF conjI [OF i b] True "1.prems"(1) _ _ at(1)] i by simp
      next
        case False
        then show ?thesis using st at 1(2) [OF conjI [OF i b] False "1.prems"(1,2) False at(1)] by simp
      qed
    qed
  qed
qed

text \<open>Behind an entry of all 128 bits \<open>ngx_radix128tree_find\<close> reads the byte behind the 16 bytes of
  the key: every lookup of that key leaves the array.\<close>

theorem radix128_find_overruns:
  assumes "radix_inv 4096 128 t" "length key = 16"
    and "ngx_radix128tree_insert 4096 t key (replicate 16 (- 1)) v = Some (t', NGX_OK)" "v \<noteq> NGX_RADIX_NO_VALUE"
  shows "ngx_radix128tree_find t' key = None"
proof -
  have "length (replicate 16 (- 1) :: u8 list) = 16" by simp
  note ins = insert128_eq [OF assms(2) this]
  from insert_bits_spec [OF assms(1), of "bits128 key" v] assms(3,4) ins [of 4096 t v]
  have inv: "radix_inv 4096 128 t'" and m: "radix_map t' (bits128 key) = Some v"
    by (auto simp: bits128_def [symmetric] bits128_length node_size_def)
  from inv obtain S where ok: "rtree_ok (rt_heap t') (rt_root t') S" by (auto simp: radix_inv_def tree_inv_def)
  have "rt_root t' \<noteq> 0" using at_nonzero [OF ok, of "[]"] by simp
  moreover obtain p where "at (rt_heap t') (rt_root t') (bits128 key) = Some p"
    using m by (auto simp: radix_map_def node_map_def split: option.splits)
  ultimately show ?thesis
    unfolding ngx_radix128tree_find_def by (intro find_walk128_overrun [OF assms(2)]) (simp_all add: bits128_def)
qed

lemma radix128_find_overruns_witness:
  "\<exists>t'. ngx_radix128tree_insert 4096 (first_tree [(8192, new_node 0)]) (replicate 16 0) (replicate 16 (- 1)) 7 = Some (t', NGX_OK)
    \<and> ngx_radix128tree_find t' (replicate 16 0) = None"
proof -
  let ?t = "first_tree [(8192, new_node 0)]" and ?k = "replicate 16 0 :: u8 list"
  note inv = first_tree_inv [of "[(8192, new_node 0)]" "new_node 0", simplified]
  from insert_bits_spec [OF inv(1) [of 128], of "bits128 ?k" 7] inv(2,3) obtain t' where
    t': "ngx_radix128tree_insert 4096 ?t ?k (replicate 16 (- 1)) 7 = Some (t', NGX_OK)"
    by (auto simp: insert128_eq bits128_def [symmetric] bits128_length node_size_def)
  from radix128_find_overruns [OF inv(1) _ this] t' show ?thesis by (auto simp: NGX_RADIX_NO_VALUE_def)
qed

end
