(* ===== verification/Ngx_Queue.thy ===== *)
theory Ngx_Queue
  imports Prelude "HOL-Library.Multiset"
begin

text \<open>
  The intrusive circular doubly linked list of \<^verbatim>\<open>struct_data/ngx_queue\<close>: the macros of
  \<^verbatim>\<open>ngx_queue.h\<close> as transformations of a heap of links, one assignment after the other, and the
  two functions of \<^verbatim>\<open>ngx_queue.c\<close>, \<^verbatim>\<open>ngx_queue_middle\<close> and \<^verbatim>\<open>ngx_queue_sort\<close>, whose loops may
  in principle run for ever. The predicate \<^verbatim>\<open>qlist h s xs\<close> says that the links of \<^verbatim>\<open>h\<close> are the
  circular list with the sentinel \<^verbatim>\<open>s\<close> and the elements \<^verbatim>\<open>xs\<close>; every operation is shown to be an
  operation on \<^verbatim>\<open>xs\<close>. The order that the sort relies on is the locale \<^verbatim>\<open>queue_order\<close>, interpreted
  on the comparison \<^verbatim>\<open>testnode_cmp\<close> of the sample program \<^verbatim>\<open>ngx_main.c\<close>.
\<close>

section \<open>Links and macros\<close>

text \<open>Addresses are numbers, 0 is the null pointer.\<close>

type_synonym qaddr = nat

record queue_links =
  qprev :: "qaddr \<Rightarrow> qaddr"
  qnext :: "qaddr \<Rightarrow> qaddr"

definition set_prev :: "qaddr \<Rightarrow> qaddr \<Rightarrow> queue_links \<Rightarrow> queue_links" where
  "set_prev a b h = h\<lparr>qprev := (qprev h)(a := b)\<rparr>"

definition set_next :: "qaddr \<Rightarrow> qaddr \<Rightarrow> queue_links \<Rightarrow> queue_links" where
  "set_next a b h = h\<lparr>qnext := (qnext h)(a := b)\<rparr>"

definition ngx_queue_init :: "qaddr \<Rightarrow> queue_links \<Rightarrow> queue_links" where
  "ngx_queue_init q h = set_next q q (set_prev q q h)"

definition ngx_queue_empty :: "qaddr \<Rightarrow> queue_links \<Rightarrow> bool" where
  "ngx_queue_empty q h = (q = qprev h q)"

definition ngx_queue_insert_head :: "qaddr \<Rightarrow> qaddr \<Rightarrow> queue_links \<Rightarrow> queue_links" where
  "ngx_queue_insert_head q x h = (
    let h = set_next x (qnext h q) h;
        h = set_prev (qnext h x) x h;
        h = set_prev x q h
    in set_next q x h)"

text \<open>\<^verbatim>\<open>ngx_queue_insert_after\<close> is the same macro.\<close>

abbreviation ngx_queue_insert_after :: "qaddr \<Rightarrow> qaddr \<Rightarrow> queue_links \<Rightarrow> queue_links" where
  "ngx_queue_insert_after \<equiv> ngx_queue_insert_head"

definition ngx_queue_insert_tail :: "qaddr \<Rightarrow> qaddr \<Rightarrow> queue_links \<Rightarrow> queue_links" where
  "ngx_queue_insert_tail q x h = (
    let h = set_prev x (qprev h q) h;
        h = set_next (qprev h x) x h;
        h = set_next x q h
    in set_prev q x h)"

text \<open>The flag is \<^verbatim>\<open>NGX_DEBUG\<close>: with it the links of the removed element are cleared.\<close>

definition ngx_queue_remove :: "bool \<Rightarrow> qaddr \<Rightarrow> queue_links \<Rightarrow> queue_links" where
  "ngx_queue_remove dbg x h = (
    let h = set_prev (qnext h x) (qprev h x) h;
        h = set_next (qprev h x) (qnext h x) h
    in if dbg then set_next x 0 (set_prev x 0 h) else h)"

definition ngx_queue_split :: "qaddr \<Rightarrow> qaddr \<Rightarrow> qaddr \<Rightarrow> queue_links \<Rightarrow> queue_links" where
  "ngx_queue_split s q n h = (
    let h = set_prev n (qprev h s) h;
        h = set_next (qprev h n) n h;
        h = set_next n q h;
        h = set_prev s (qprev h q) h;
        h = set_next (qprev h s) s h
    in set_prev q n h)"

definition ngx_queue_add :: "qaddr \<Rightarrow> qaddr \<Rightarrow> queue_links \<Rightarrow> queue_links" where
  "ngx_queue_add s n h = (
    let h = set_next (qprev h s) (qnext h n) h;
        h = set_prev (qnext h n) (qprev h s) h;
        h = set_prev s (qprev h n) h
    in set_next (qprev h s) s h)"

section \<open>Functions\<close>

text \<open>
  \<^verbatim>\<open>middle\<close> makes one step where the second pointer makes two; the loop ends when the second
  pointer is at the last element.
\<close>

partial_function (option) middle_loop :: "qaddr \<Rightarrow> queue_links \<Rightarrow> qaddr \<Rightarrow> qaddr \<Rightarrow> qaddr option" where
  "middle_loop s h m n = (
    let m = qnext h m; n = qnext h n in
    if n = qprev h s then Some m
    else let n = qnext h n in
      if n = qprev h s then Some m else middle_loop s h m n)"

definition ngx_queue_middle :: "qaddr \<Rightarrow> queue_links \<Rightarrow> qaddr option" where
  "ngx_queue_middle s h = (
    let m = qnext h s in
    if m = qprev h s then Some m else middle_loop s h m (qnext h s))"

text \<open>The inner loop of the sort: from \<^verbatim>\<open>prev\<close> backwards to the place of \<^verbatim>\<open>q\<close>.\<close>

partial_function (option) sort_back ::
  "(qaddr \<Rightarrow> qaddr \<Rightarrow> int) \<Rightarrow> qaddr \<Rightarrow> queue_links \<Rightarrow> qaddr \<Rightarrow> qaddr \<Rightarrow> qaddr option" where
  "sort_back cmp s h q p = (
    if cmp p q \<le> 0 then Some p
    else let p = qprev h p in
      if p = s then Some p else sort_back cmp s h q p)"

partial_function (option) sort_loop ::
  "bool \<Rightarrow> (qaddr \<Rightarrow> qaddr \<Rightarrow> int) \<Rightarrow> qaddr \<Rightarrow> qaddr \<Rightarrow> queue_links \<Rightarrow> queue_links option" where
  "sort_loop dbg cmp s q h = (
    if q = s then Some h
    else
      let p = qprev h q; nx = qnext h q; h = ngx_queue_remove dbg q h in
      Option.bind (sort_back cmp s h q p) (\<lambda>p.
        sort_loop dbg cmp s nx (ngx_queue_insert_after p q h)))"

definition ngx_queue_sort ::
  "bool \<Rightarrow> qaddr \<Rightarrow> (qaddr \<Rightarrow> qaddr \<Rightarrow> int) \<Rightarrow> queue_links \<Rightarrow> queue_links option" where
  "ngx_queue_sort dbg s cmp h = (
    let q = qnext h s in
    if q = qprev h s then Some h else sort_loop dbg cmp s (qnext h q) h)"

declare middle_loop.simps [code] sort_back.simps [code] sort_loop.simps [code]

section \<open>The sample program\<close>

text \<open>
  A \<^verbatim>\<open>TestNode\<close> is named by the address of its link \<^verbatim>\<open>qEle\<close>, which \<^verbatim>\<open>ngx_queue_data\<close> maps to it;
  \<^verbatim>\<open>num\<close> reads its number.
\<close>

definition testnode_cmp :: "(qaddr \<Rightarrow> int) \<Rightarrow> qaddr \<Rightarrow> qaddr \<Rightarrow> int" where
  "testnode_cmp num a b = (if num a > num b then 1 else 0)"

text \<open>
  \<^verbatim>\<open>testnode_destroy\<close>: \<open>dead\<close> holds the freed nodes, and reading a link of a freed node is undefined,
  \<open>None\<close>. The removal reads the links of the node and writes those of its neighbours; the next
  element is read from the node at the end of the loop body.
\<close>

definition read_next :: "qaddr set \<Rightarrow> queue_links \<Rightarrow> qaddr \<Rightarrow> qaddr option" where
  "read_next dead h q = (if q \<in> dead then None else Some (qnext h q))"

partial_function (option) destroy_loop ::
  "bool \<Rightarrow> qaddr \<Rightarrow> qaddr \<Rightarrow> queue_links \<Rightarrow> qaddr set \<Rightarrow> (queue_links \<times> qaddr set) option" where
  "destroy_loop dbg s q h dead = (
    if q = s then Some (h, dead)
    else if {q, qnext h q, qprev h q} \<inter> dead \<noteq> {} then None
    else
      let h = ngx_queue_remove dbg q h; dead = insert q dead in
      Option.bind (read_next dead h q) (\<lambda>q. destroy_loop dbg s q h dead))"

definition testnode_destroy ::
  "bool \<Rightarrow> qaddr \<Rightarrow> queue_links \<Rightarrow> (int \<times> queue_links \<times> qaddr set) option" where
  "testnode_destroy dbg s h = (
    if s = 0 then Some (- 1, h, {})
    else map_option (Pair 0) (destroy_loop dbg s (qnext h s) h {}))"

section \<open>Circular lists\<close>

fun linked :: "queue_links \<Rightarrow> qaddr list \<Rightarrow> bool" where
  "linked h (a # b # xs) = (qnext h a = b \<and> qprev h b = a \<and> linked h (b # xs))"
| "linked h _ = True"

definition qlist :: "queue_links \<Rightarrow> qaddr \<Rightarrow> qaddr list \<Rightarrow> bool" where
  "qlist h s xs = (distinct (s # xs) \<and> linked h (s # xs @ [s]))"

named_theorems link_simps \<open>reading a link after an assignment\<close>

lemma set_links [link_simps]:
  "qprev (set_prev a b h) = (qprev h)(a := b)" "qnext (set_prev a b h) = qnext h"
  "qnext (set_next a b h) = (qnext h)(a := b)" "qprev (set_next a b h) = qprev h"
  by (simp_all add: set_prev_def set_next_def)

lemma linked_append:
  "linked h (xs @ a # ys) \<longleftrightarrow> linked h (xs @ [a]) \<and> linked h (a # ys)"
proof (induction xs)
  case Nil
  then show ?case by simp
next
  case (Cons x xs)
  then show ?case by (cases xs) auto
qed

text \<open>A list stays linked when no link inside it changes.\<close>

lemma linked_cong:
  assumes "linked h xs"
    and "\<And>a. a \<in> set (butlast xs) \<Longrightarrow> qnext h' a = qnext h a"
    and "\<And>a. a \<in> set (tl xs) \<Longrightarrow> qprev h' a = qprev h a"
  shows "linked h' xs"
  using assms
proof (induction xs)
  case (Cons x xs)
  show ?case
  proof (cases xs)
    case (Cons y ys)
    have "linked h' xs"
      using Cons.IH Cons.prems Cons by (cases ys) auto
    then show ?thesis
      using Cons.prems Cons by simp
  qed simp
qed simp

lemma linked_nexts: "linked h (xs @ a # b # ys) \<Longrightarrow> qnext h a = b \<and> qprev h b = a"
  by (simp add: linked_append [of h xs a "b # ys"])

lemma qlist_first: "qlist h s xs \<Longrightarrow> qnext h s = hd (xs @ [s])"
  by (cases xs) (auto simp: qlist_def)

lemma qlist_last: "qlist h s xs \<Longrightarrow> qprev h s = last (s # xs)"
proof (cases xs rule: rev_cases)
  case (snoc ys y)
  assume "qlist h s xs"
  then have "linked h ((s # ys) @ y # s # [])"
    using snoc by (simp add: qlist_def)
  then show ?thesis
    using linked_nexts snoc by (metis last_ConsR last_snoc snoc_eq_iff_butlast)
qed (simp add: qlist_def)

lemma qlist_nexts:
  assumes "qlist h s (xs @ a # ys)"
  shows "qprev h a = last (s # xs)" "qnext h a = hd (ys @ [s])"
proof -
  have l: "linked h ((s # xs) @ a # ys @ [s])"
    using assms by (simp add: qlist_def)
  obtain b bs where b: "ys @ [s] = b # bs" by (cases ys) auto
  show "qnext h a = hd (ys @ [s])"
    using linked_nexts [of h "s # xs" a b bs] l b by simp
  have "linked h (butlast (s # xs) @ last (s # xs) # a # ys @ [s])"
    using l append_butlast_last_id [of "s # xs"]
    by (metis append.assoc append_Cons append_Nil list.distinct(1))
  then show "qprev h a = last (s # xs)"
    using linked_nexts by blast
qed

section \<open>The macros on lists\<close>

lemma init_qlist: "qlist (ngx_queue_init s h) s []"
  by (simp add: qlist_def ngx_queue_init_def link_simps)

lemma empty_qlist: "qlist h s xs \<Longrightarrow> ngx_queue_empty s h \<longleftrightarrow> xs = []"
  using qlist_last [of h s xs] by (auto simp: ngx_queue_empty_def qlist_def)

lemma insert_after_links:
  assumes "qnext h p = b" "x \<noteq> p" "x \<noteq> b"
  shows "qnext (ngx_queue_insert_after p x h) = (qnext h)(x := b, p := x)"
    "qprev (ngx_queue_insert_after p x h) = (qprev h)(b := x, x := p)"
  using assms by (auto simp: ngx_queue_insert_head_def link_simps Let_def)

lemma butlast_split:
  "distinct (butlast (as @ p # b # cs)) \<Longrightarrow>
    p \<notin> set as \<and> p \<notin> set (butlast (b # cs)) \<and> distinct (butlast (b # cs))"
  by (simp add: butlast_append)

lemma tl_split:
  "distinct (tl (as @ p # b # cs)) \<Longrightarrow>
    b \<notin> set (tl (as @ [p])) \<and> b \<notin> set cs \<and> (as \<noteq> [] \<longrightarrow> p \<noteq> b)"
  by (cases as) auto

text \<open>Two lists linked at a changed place: what changes is outside both.\<close>

lemma linked_join:
  assumes "linked h (as @ [p])" "linked h (b # cs)"
    and "\<And>a. a \<in> set as \<union> set (butlast (b # cs)) \<Longrightarrow> qnext h' a = qnext h a"
    and "\<And>a. a \<in> set (tl (as @ [p])) \<union> set cs \<Longrightarrow> qprev h' a = qprev h a"
    and "qnext h' p = b" "qprev h' b = p"
  shows "linked h' (as @ p # b # cs)"
proof -
  have "linked h' (as @ [p])"
    by (rule linked_cong [OF assms(1)]) (use assms(3,4) in auto)
  moreover have "linked h' (b # cs)"
    by (rule linked_cong [OF assms(2)]) (use assms(3,4) in auto)
  ultimately show ?thesis
    using assms(5,6) linked_append [of h' as p "b # cs"] by simp
qed

lemma linked_insert_after:
  assumes l: "linked h (as @ p # b # cs)" and d: "distinct (butlast (as @ p # b # cs))"
    and d': "distinct (tl (as @ p # b # cs))" and x: "x \<notin> set (as @ p # b # cs)"
  shows "linked (ngx_queue_insert_after p x h) (as @ p # x # b # cs)"
proof (rule linked_join)
  have "qnext h p = b" using linked_nexts [OF l] by blast
  then have up: "qnext (ngx_queue_insert_after p x h) = (qnext h)(x := b, p := x)"
      "qprev (ngx_queue_insert_after p x h) = (qprev h)(b := x, x := p)"
    using insert_after_links x by auto
  let ?h = "set_prev b x (set_next x b h)"
  show "linked ?h (as @ [p])"
    by (rule linked_cong [of h])
      (use l x linked_append [of h as p "b # cs"] tl_split [OF d'] in
        \<open>auto simp: link_simps dest: list.set_sel(2)\<close>)
  have "linked ?h (b # cs)"
  proof (rule linked_cong)
    show "linked h (b # cs)"
      using l linked_append [of h as p "b # cs"] by simp
  qed (use x tl_split [OF d'] in_set_butlastD [of _ "b # cs"] in \<open>auto simp: link_simps\<close>)
  then show "linked ?h (x # b # cs)"
    by (simp add: link_simps)
  show "\<And>a. a \<in> set as \<union> set (butlast (x # b # cs)) \<Longrightarrow>
      qnext (ngx_queue_insert_after p x h) a = qnext ?h a"
    using butlast_split [OF d] x by (auto simp: up link_simps)
  show "\<And>a. a \<in> set (tl (as @ [p])) \<union> set (b # cs) \<Longrightarrow>
      qprev (ngx_queue_insert_after p x h) a = qprev ?h a"
    using x by (cases as) (auto simp: up link_simps)
qed (use x linked_nexts [OF l] insert_after_links [of h p b x] in auto)

lemma qlist_ends:
  assumes "qlist h s xs"
  shows "distinct (butlast (s # xs @ [s]))" "distinct (tl (s # xs @ [s]))"
  using assms by (auto simp: qlist_def butlast_append)

lemma insert_head_qlist:
  assumes "qlist h s xs" "x \<notin> set (s # xs)"
  shows "qlist (ngx_queue_insert_head s x h) s (x # xs)"
proof -
  obtain b cs where b: "xs @ [s] = b # cs" by (cases xs) auto
  have "linked (ngx_queue_insert_after s x h) ([] @ s # x # b # cs)"
    by (rule linked_insert_after)
      (use assms qlist_ends [OF assms(1)] in \<open>simp_all flip: b add: qlist_def\<close>)
  then show ?thesis
    using assms b by (auto simp: qlist_def)
qed

lemma insert_after_qlist:
  assumes "qlist h s (xs @ p # ys)" "x \<notin> set (s # xs @ p # ys)"
  shows "qlist (ngx_queue_insert_after p x h) s (xs @ p # x # ys)"
proof -
  obtain b cs where b: "ys @ [s] = b # cs" by (cases ys) auto
  have "linked (ngx_queue_insert_after p x h) ((s # xs) @ p # x # b # cs)"
    by (rule linked_insert_after)
      (use assms qlist_ends [OF assms(1)] in \<open>simp_all flip: b add: qlist_def\<close>)
  then show ?thesis
    using assms b by (auto simp: qlist_def)
qed

lemma insert_tail_is_after:
  assumes "qnext h (qprev h s) = s" "x \<noteq> s" "x \<noteq> qprev h s"
  shows "ngx_queue_insert_tail s x h = ngx_queue_insert_after (qprev h s) x h"
  using assms
  by (auto simp: ngx_queue_insert_tail_def ngx_queue_insert_head_def set_prev_def set_next_def
      Let_def fun_upd_twist)

lemma insert_tail_qlist:
  assumes q: "qlist h s xs" and x: "x \<notin> set (s # xs)"
  shows "qlist (ngx_queue_insert_tail s x h) s (xs @ [x])"
proof (cases xs rule: rev_cases)
  case Nil
  then have "qprev h s = s" "qnext h s = s"
    using qlist_last [OF q] qlist_first [OF q] by simp_all
  then show ?thesis
    using insert_tail_is_after [of h s x] insert_head_qlist [OF q x] x Nil by simp
next
  case (snoc ys y)
  have "qlist h s (ys @ y # [])" using q snoc by simp
  then have "qprev h s = y" "qnext h y = s"
    using qlist_last [OF q] qlist_nexts(2) [of h s ys y "[]"] snoc by simp_all
  then show ?thesis
    using insert_tail_is_after [of h s x] insert_after_qlist [of h s ys y "[]" x] q x snoc by auto
qed

lemma remove_links:
  assumes "qprev h x = p" "qnext h x = b" "x \<noteq> p" "x \<noteq> b" "a \<noteq> x"
  shows "qnext (ngx_queue_remove dbg x h) a = ((qnext h)(p := b)) a"
    "qprev (ngx_queue_remove dbg x h) a = ((qprev h)(b := p)) a"
  using assms by (auto simp: ngx_queue_remove_def link_simps Let_def)

lemma linked_remove:
  assumes l: "linked h (as @ p # x # b # cs)" and d: "distinct (butlast (as @ p # b # cs))"
    and d': "distinct (tl (as @ p # b # cs))" and x: "x \<notin> set (as @ p # b # cs)"
  shows "linked (ngx_queue_remove dbg x h) (as @ p # b # cs)"
proof (rule linked_join)
  have "linked h (as @ p # [x, b] @ cs)" using l by simp
  then have xs: "qprev h x = p" "qnext h x = b"
    using linked_nexts [of h as p x "b # cs"] linked_nexts [of h "as @ [p]" x b cs] by auto
  note up = remove_links [OF xs, of _ dbg]
  show "linked h (as @ [p])" "linked h (b # cs)"
    using l linked_append [of h as p "x # b # cs"] linked_append [of h "as @ [p]" x "b # cs"] by auto
  show "\<And>a. a \<in> set as \<union> set (butlast (b # cs)) \<Longrightarrow>
      qnext (ngx_queue_remove dbg x h) a = qnext h a"
    using butlast_split [OF d] x in_set_butlastD [of _ "b # cs"] by (subst up(1)) auto
  show "\<And>a. a \<in> set (tl (as @ [p])) \<union> set cs \<Longrightarrow>
      qprev (ngx_queue_remove dbg x h) a = qprev h a"
    using tl_split [OF d'] x list.set_sel(2) [of "as @ [p]"] by (subst up(2)) auto
  show "qnext (ngx_queue_remove dbg x h) p = b" "qprev (ngx_queue_remove dbg x h) b = p"
    using x by (auto simp: up)
qed

lemma remove_qlist:
  assumes q: "qlist h s (xs @ x # ys)"
  shows "qlist (ngx_queue_remove dbg x h) s (xs @ ys)"
proof -
  have d: "distinct (s # xs @ x # ys)" using q by (simp add: qlist_def)
  obtain b cs where b: "ys @ [s] = b # cs" by (cases ys) auto
  define as p where "as = butlast (s # xs)" and "p = last (s # xs)"
  then have p: "s # xs = as @ [p]" by simp
  have e: "as @ p # b # cs = s # (xs @ ys) @ [s]" "as @ p # x # b # cs = s # (xs @ x # ys) @ [s]"
    by (simp_all flip: append_Cons b add: p)
  have "linked (ngx_queue_remove dbg x h) (as @ p # b # cs)"
    by (rule linked_remove)
      (unfold e, use q d in \<open>simp_all add: qlist_def butlast_append, auto?\<close>)
  then show ?thesis
    using d e by (simp add: qlist_def)
qed

text \<open>
  \<^verbatim>\<open>ngx_queue_split\<close> moves the elements from \<open>q\<close> on to the new sentinel \<open>n\<close>;
  \<^verbatim>\<open>ngx_queue_add\<close> appends the elements of \<open>n\<close>.
\<close>

lemma linked_parts: "linked h (xs @ ys) \<Longrightarrow> linked h xs \<and> linked h ys"
proof (induction xs)
  case (Cons x xs)
  then show ?case by (cases xs; cases ys) auto
qed simp

lemma qlist_intro:
  assumes e: "s # xs = as @ [p]" and "distinct (s # xs)" "linked h (s # xs)" "qnext h p = s"
    "qprev h s = p"
  shows "qlist h s xs"
proof -
  have "linked h (as @ p # [s])"
    using linked_append [of h as p "[s]"] assms by simp
  then have "linked h ((s # xs) @ [s])" using e by (metis append.assoc append_Cons append_Nil)
  then show ?thesis using assms(2) by (simp add: qlist_def)
qed

text \<open>The same list after a change of its last next pointer and its first previous pointer.\<close>

lemma linked_ends_change:
  assumes "linked h (a # xs)" "a # xs = as @ [p]" "distinct (a # xs)"
    and "\<And>b. b \<in> set (a # xs) - {p} \<Longrightarrow> qnext h' b = qnext h b"
    and "\<And>b. b \<in> set (a # xs) - {a} \<Longrightarrow> qprev h' b = qprev h b"
  shows "linked h' (a # xs)"
proof (rule linked_cong [OF assms(1)])
  fix b assume "b \<in> set (butlast (a # xs))"
  then have "b \<in> set as" using assms(2) by simp
  then have "b \<in> set (a # xs) - {p}" using assms(2,3) by auto
  then show "qnext h' b = qnext h b" by (rule assms(4))
next
  fix b assume "b \<in> set (tl (a # xs))"
  then have "b \<in> set (a # xs) - {a}" using assms(3) by auto
  then show "qprev h' b = qprev h b" by (rule assms(5))
qed

lemma split_qlist:
  assumes l: "qlist h s (xs @ q # ys)" and n: "n \<notin> set (s # xs @ q # ys)"
  shows "qlist (ngx_queue_split s q n h) s xs" "qlist (ngx_queue_split s q n h) n (q # ys)"
proof -
  let ?h = "ngx_queue_split s q n h"
  obtain as p where p: "s # xs = as @ [p]" by (metis rev_exhaust list.distinct(1))
  obtain bs z where z: "q # ys = bs @ [z]" by (metis rev_exhaust list.distinct(1))
  have pz: "p \<in> set (s # xs)" "z \<in> set (q # ys)" by (simp_all only: p z) simp_all
  have d: "distinct (s # xs @ q # ys)" using l by (simp add: qlist_def)
  have ds: "distinct (s # xs)" "distinct (q # ys)" using d by simp_all
  have e: "qprev h s = z" "qprev h q = p"
    using qlist_last [OF l] qlist_nexts(1) [OF l] p z by (metis last_append last_snoc list.distinct(1) append_Cons)+
  have ne: "n \<noteq> s" "n \<noteq> p" "n \<noteq> z" "s \<noteq> z" "n \<noteq> q" "s \<noteq> q" "p \<noteq> z" "p \<noteq> q"
    using pz d n by auto
  have up: "qnext ?h = (qnext h)(z := n, n := q, p := s)" "qprev ?h = (qprev h)(n := z, s := p, q := n)"
    using ne e by (simp_all add: ngx_queue_split_def link_simps Let_def)
  have "linked h ((s # xs) @ (q # ys) @ [s])" using l by (simp add: qlist_def)
  from linked_parts [OF this] have "linked h (s # xs)" "linked h ((q # ys) @ [s])" by blast+
  from this(1) linked_parts [OF this(2)] have l: "linked h (s # xs)" "linked h (q # ys)" by blast+
  have "linked ?h (s # xs)"
    by (rule linked_ends_change [OF l(1) p ds(1)]) (use d n pz in \<open>auto simp: up\<close>)
  then show "qlist ?h s xs"
    by (rule qlist_intro [OF p ds(1)]) (use ne in \<open>simp_all add: up\<close>)
  have "linked ?h (q # ys)"
    by (rule linked_ends_change [OF l(2) z ds(2)]) (use d n pz in \<open>auto simp: up\<close>)
  then have "linked ?h (n # q # ys)"
    using ne by (simp add: up)
  moreover have "n # q # ys = (n # bs) @ [z]" using z by simp
  ultimately show "qlist ?h n (q # ys)"
    by (intro qlist_intro [of n "q # ys" "n # bs" z]) (use ds n ne in \<open>simp_all add: up\<close>)
qed

lemma add_nil_qlist:
  assumes l: "qlist h s xs" and l': "qlist h n []" and i: "n \<notin> set (s # xs)"
  shows "qlist (ngx_queue_add s n h) s xs"
proof -
  let ?h = "ngx_queue_add s n h"
  obtain as p where p: "s # xs = as @ [p]" by (metis rev_exhaust list.distinct(1))
  have e: "qprev h s = p" "qprev h n = n" "qnext h n = n"
    using qlist_last [OF l] qlist_last [OF l'] qlist_first [OF l'] p by simp_all
  have "p \<in> set (s # xs)" by (simp only: p) simp
  then have ne: "n \<noteq> p" "n \<noteq> s" using i by auto
  have up: "qnext ?h = (qnext h)(p := s)" "qprev ?h = (qprev h)(n := p, s := p)"
    using e ne by (simp_all add: ngx_queue_add_def link_simps Let_def)
  have d: "distinct (s # xs)" and "linked h ((s # xs) @ [s])" using l by (simp_all add: qlist_def)
  then have "linked h (s # xs)" using linked_parts by blast
  then have "linked ?h (s # xs)"
    by (rule linked_ends_change [OF _ p d]) (use i in \<open>auto simp: up\<close>)
  then show ?thesis
    by (rule qlist_intro [OF p d]) (use ne in \<open>simp_all add: up\<close>)
qed

lemma add_qlist:
  assumes l: "qlist h s xs" and l': "qlist h n ys" and i: "set (s # xs) \<inter> set (n # ys) = {}"
  shows "qlist (ngx_queue_add s n h) s (xs @ ys)"
proof (cases ys)
  case Nil
  then show ?thesis using add_nil_qlist [of h s xs n] assms by simp
next
  case (Cons y zs)
  let ?h = "ngx_queue_add s n h"
  obtain as p where p: "s # xs = as @ [p]" by (metis rev_exhaust list.distinct(1))
  obtain bs z where z: "y # zs = bs @ [z]" by (metis rev_exhaust list.distinct(1))
  have pz: "p \<in> set (s # xs)" "z \<in> set (y # zs)" by (simp_all only: p z) simp_all
  have "last (s # xs) = p" "last (n # ys) = z" using p z Cons by simp_all
  then have e: "qprev h s = p" "qprev h n = z" "qnext h n = y"
    using qlist_last [OF l] qlist_last [OF l'] qlist_first [OF l'] Cons by simp_all
  have n: "n \<notin> set (s # xs @ y # zs)" using Cons i l' by (auto simp: qlist_def)
  have d: "distinct (s # xs @ y # zs)" using l l' i Cons by (auto simp: qlist_def)
  have ds: "distinct (s # xs)" "distinct (y # zs)" using d by simp_all
  have ne: "n \<noteq> s" "n \<noteq> p" "n \<noteq> z" "s \<noteq> y" "p \<noteq> z" "n \<noteq> y" "s \<noteq> z"
    using pz d n by auto
  have up: "qnext ?h = (qnext h)(p := y, z := s)" "qprev ?h = (qprev h)(y := p, s := z)"
    using ne e by (simp_all add: ngx_queue_add_def link_simps Let_def)
  have "linked h ((s # xs) @ [s])" "linked h ([n] @ (y # zs) @ [n])"
    using l l' Cons by (simp_all add: qlist_def)
  from linked_parts [OF this(1)] linked_parts [OF this(2)] linked_parts [of h "y # zs" "[n]"]
  have ll: "linked h (s # xs)" "linked h (y # zs)" by blast+
  have "linked ?h (s # xs)"
    by (rule linked_ends_change [OF ll(1) p ds(1)]) (use d pz in \<open>auto simp: up\<close>)
  moreover have "linked ?h (y # zs)"
    by (rule linked_ends_change [OF ll(2) z ds(2)]) (use d pz in \<open>auto simp: up\<close>)
  moreover have "qnext ?h p = y" "qprev ?h y = p"
    using ne by (simp_all add: up)
  ultimately have "linked ?h (as @ p # y # zs)"
    using linked_append [of ?h as p "y # zs"] p by simp
  moreover have "as @ p # y # zs = s # xs @ y # zs"
    using p by (metis append.assoc append_Cons append_Nil)
  moreover have "s # xs @ y # zs = (s # xs @ bs) @ [z]" using z by simp
  ultimately have "qlist ?h s (xs @ y # zs)"
    by (intro qlist_intro [of s "xs @ y # zs" "s # xs @ bs" z]) (use d ne in \<open>simp_all add: up\<close>)
  then show ?thesis using Cons by simp
qed

section \<open>The middle element\<close>

lemma qlist_nth:
  assumes "qlist h s xs" "i < length xs"
  shows "qnext h (xs ! i) = (xs @ [s]) ! Suc i"
proof -
  have "xs = take i xs @ xs ! i # drop (Suc i) xs"
    using assms(2) by (rule id_take_nth_drop)
  then have "qnext h (xs ! i) = hd (drop (Suc i) xs @ [s])"
    using qlist_nexts(2) assms(1) by metis
  also have "\<dots> = (xs @ [s]) ! Suc i"
    using assms(2) by (cases "Suc i = length xs") (auto simp: nth_append hd_drop_conv_nth)
  finally show ?thesis .
qed

lemma middle_loop_result:
  assumes q: "qlist h s xs" and i: "Suc (2 * i) < length xs"
  shows "middle_loop s h (xs ! i) (xs ! (2 * i)) = Some (xs ! (length xs div 2))"
  using i
proof (induction "length xs - 2 * i" arbitrary: i rule: less_induct)
  case less
  have dx: "distinct xs" using q by (simp add: qlist_def)
  have z: "qprev h s = xs ! (length xs - 1)"
    using qlist_last [OF q] less.prems by (auto simp: last_conv_nth)
  have steps: "qnext h (xs ! i) = xs ! Suc i" "qnext h (xs ! (2 * i)) = xs ! Suc (2 * i)"
    using qlist_nth [OF q] less.prems by (simp_all add: nth_append)
  have at_end: "(xs ! j = qprev h s) = (j = length xs - 1)" if "j < length xs" for j
    using dx that z by (simp add: nth_eq_iff_index_eq)
  show ?case
  proof (cases "Suc (2 * i) = length xs - 1")
    case True
    then have "length xs div 2 = Suc i" by simp
    then show ?thesis
      using True less.prems steps at_end by (subst middle_loop.simps) (simp add: Let_def)
  next
    case False
    then have lt: "Suc (Suc (2 * i)) < length xs" using less.prems by linarith
    have st: "qnext h (xs ! Suc (2 * i)) = xs ! Suc (Suc (2 * i))"
      using qlist_nth [OF q] less.prems lt by (simp add: nth_append)
    show ?thesis
    proof (cases "Suc (Suc (2 * i)) = length xs - 1")
      case True
      then have "length xs div 2 = Suc i" by linarith
      then show ?thesis
        using True False less.prems lt steps st at_end
        by (subst middle_loop.simps) (simp add: Let_def)
    next
      case F2: False
      have "middle_loop s h (xs ! Suc i) (xs ! (2 * Suc i)) = Some (xs ! (length xs div 2))"
        by (rule less.hyps) (use F2 lt in auto)
      then show ?thesis
        using False F2 less.prems lt steps st at_end
        by (subst middle_loop.simps) (simp add: Let_def)
    qed
  qed
qed

lemma middle_result:
  assumes q: "qlist h s xs"
  shows "ngx_queue_middle s h = Some ((xs @ [s]) ! (length xs div 2))"
proof (cases "length xs \<le> 1")
  case True
  then show ?thesis
    using qlist_first [OF q] qlist_last [OF q]
    by (cases xs) (auto simp: ngx_queue_middle_def Let_def)
next
  case False
  have "distinct xs" using q by (simp add: qlist_def)
  then have "hd xs \<noteq> last xs"
    using False by (cases xs) auto
  then have ne: "qnext h s \<noteq> qprev h s"
    using False qlist_first [OF q] qlist_last [OF q] by (cases xs) auto
  have f: "qnext h s = xs ! 0"
    using False qlist_first [OF q] by (cases xs) auto
  have "middle_loop s h (xs ! 0) (xs ! (2 * 0)) = Some (xs ! (length xs div 2))"
    by (rule middle_loop_result [OF q]) (use False in simp)
  moreover have "length xs div 2 < length xs" using False by linarith
  ultimately show ?thesis
    using ne f by (simp add: ngx_queue_middle_def Let_def nth_append)
qed

section \<open>Sorting\<close>

text \<open>The reference: insertion after the last element that is not greater.\<close>

definition insert_back :: "('a \<Rightarrow> 'a \<Rightarrow> int) \<Rightarrow> 'a \<Rightarrow> 'a list \<Rightarrow> 'a list" where
  "insert_back cmp q xs =
    rev (dropWhile (\<lambda>p. cmp p q > 0) (rev xs)) @ q # rev (takeWhile (\<lambda>p. cmp p q > 0) (rev xs))"

definition sort_ref :: "('a \<Rightarrow> 'a \<Rightarrow> int) \<Rightarrow> 'a list \<Rightarrow> 'a list" where
  "sort_ref cmp xs = fold (insert_back cmp) xs []"

lemma sort_back_result:
  "linked h (s # xs @ [p]) \<Longrightarrow> s \<notin> set (xs @ [p]) \<Longrightarrow>
    sort_back cmp s h q p = Some (last (s # rev (dropWhile (\<lambda>p. cmp p q > 0) (rev (xs @ [p])))))"
proof (induction xs arbitrary: p rule: rev_induct)
  case Nil
  then show ?case
    by (subst sort_back.simps) (auto simp: Let_def)
next
  case (snoc x xs)
  have l: "linked h (s # xs @ [x])" "qprev h p = x"
    using snoc.prems(1) linked_append [of h "s # xs" x "[p]"] linked_nexts [of h "s # xs" x p "[]"] by auto
  show ?case
  proof (cases "cmp p q \<le> 0")
    case True
    then show ?thesis by (subst sort_back.simps) simp
  next
    case False
    have "sort_back cmp s h q p = sort_back cmp s h q x"
      using False l snoc.prems by (subst sort_back.simps) (auto simp: Let_def)
    then show ?thesis
      using snoc.IH [OF l(1)] snoc.prems False by simp
  qed
qed

lemma insert_at_place:
  assumes q: "qlist h s (xs @ ys)" and xs: "xs \<noteq> []" and x: "x \<notin> set (s # xs @ ys)"
  shows "\<exists>p. sort_back cmp s h x (last xs) = Some p \<and>
    qlist (ngx_queue_insert_after p x h) s (insert_back cmp x xs @ ys)"
proof -
  define as bs where "as = rev (dropWhile (\<lambda>p. cmp p x > 0) (rev xs))"
    and "bs = rev (takeWhile (\<lambda>p. cmp p x > 0) (rev xs))"
  have e: "xs = as @ bs" unfolding as_def bs_def
    by (metis rev_append rev_rev_ident takeWhile_dropWhile_id)
  have snoc: "xs = butlast xs @ [last xs]" using xs by simp
  have "linked h ((s # butlast xs) @ last xs # ys @ [s])"
    using q snoc by (metis append.assoc append_Cons append_Nil qlist_def)
  then have "linked h (s # butlast xs @ [last xs])"
    using linked_append [of h "s # butlast xs" "last xs" "ys @ [s]"] by simp
  moreover have "s \<notin> set (butlast xs @ [last xs])"
    using q snoc by (auto simp: qlist_def)
  ultimately have "sort_back cmp s h x (last xs) = Some (last (s # as))"
    using sort_back_result [of h s "butlast xs" "last xs" cmp x] snoc as_def by simp
  moreover have "qlist (ngx_queue_insert_after (last (s # as)) x h) s (as @ x # bs @ ys)"
  proof (cases as rule: rev_cases)
    case Nil
    then show ?thesis using insert_head_qlist q x e by simp
  next
    case (snoc cs c)
    then show ?thesis
      using insert_after_qlist [of h s cs c "bs @ ys" x] q x e by simp
  qed
  ultimately show ?thesis
    by (simp add: insert_back_def as_def bs_def)
qed

lemma set_insert_back: "set (insert_back cmp x xs) = insert x (set xs)"
  unfolding insert_back_def
  by (metis Un_insert_right list.simps(15) set_append set_rev sup_commute takeWhile_dropWhile_id)

lemma insert_back_not_Nil: "insert_back cmp x xs \<noteq> []"
  by (simp add: insert_back_def)

lemma sort_loop_result:
  "qlist h s (xs @ ys) \<Longrightarrow> xs \<noteq> [] \<Longrightarrow>
    \<exists>h'. sort_loop dbg cmp s (hd (ys @ [s])) h = Some h' \<and> qlist h' s (fold (insert_back cmp) ys xs)"
proof (induction ys arbitrary: xs h)
  case Nil
  then show ?case by (subst sort_loop.simps) simp
next
  case (Cons y ys)
  let ?h = "ngx_queue_remove dbg y h"
  have ns: "y \<noteq> s" and y: "y \<notin> set (s # xs @ ys)"
    using Cons.prems(1) by (auto simp: qlist_def)
  have e: "qprev h y = last xs" "qnext h y = hd (ys @ [s])"
    using qlist_nexts [OF Cons.prems(1)] Cons.prems(2) by simp_all
  obtain p where p: "sort_back cmp s ?h y (last xs) = Some p"
    and q: "qlist (ngx_queue_insert_after p y ?h) s (insert_back cmp y xs @ ys)"
    using insert_at_place [OF remove_qlist [OF Cons.prems(1)] Cons.prems(2) y] by blast
  have "sort_loop dbg cmp s y h = sort_loop dbg cmp s (hd (ys @ [s])) (ngx_queue_insert_after p y ?h)"
    using ns e p by (subst sort_loop.simps) (simp add: Let_def)
  then show ?case
    using Cons.IH [OF q insert_back_not_Nil] by simp
qed

lemma sort_result:
  assumes q: "qlist h s xs"
  shows "\<exists>h'. ngx_queue_sort dbg s cmp h = Some h' \<and> qlist h' s (sort_ref cmp xs)"
proof (cases xs)
  case Nil
  then show ?thesis
    using q qlist_first [OF q] qlist_last [OF q] by (simp add: ngx_queue_sort_def sort_ref_def)
next
  case (Cons x ys)
  have x: "insert_back cmp x [] = [x]" by (simp add: insert_back_def)
  have f: "qnext h s = x" "qnext h x = hd (ys @ [s])"
    using qlist_first [OF q] qlist_nexts(2) [of h s "[]" x ys] q Cons by simp_all
  show ?thesis
  proof (cases "x = qprev h s")
    case True
    then have "ys = []"
      using qlist_last [OF q] Cons q by (auto simp: qlist_def split: if_splits)
    then show ?thesis
      using True f q x Cons by (simp add: ngx_queue_sort_def sort_ref_def)
  next
    case False
    have "qlist h s ([x] @ ys)" using q Cons by simp
    from sort_loop_result [OF this, of dbg cmp] show ?thesis
      using False f x Cons by (simp add: ngx_queue_sort_def sort_ref_def)
  qed
qed

section \<open>What the sort guarantees\<close>

text \<open>
  The contract of the comparison: \<open>cmp a b \<le> 0\<close> means that \<open>a\<close> may stand before \<open>b\<close>, and this
  is a total preorder. Under it the sort gives a sorted permutation that keeps equal elements in
  their order.
\<close>

locale queue_order =
  fixes cmp :: "'a \<Rightarrow> 'a \<Rightarrow> int"
  assumes trans_le: "cmp a b \<le> 0 \<Longrightarrow> cmp b c \<le> 0 \<Longrightarrow> cmp a c \<le> 0"
    and total_le: "cmp a b \<le> 0 \<or> cmp b a \<le> 0"
begin

abbreviation le where "le a b \<equiv> cmp a b \<le> 0"

lemma mset_insert_back: "mset (insert_back cmp x xs) = add_mset x (mset xs)"
proof -
  have "mset xs = mset (rev (takeWhile (\<lambda>p. cmp p x > 0) (rev xs) @ dropWhile (\<lambda>p. cmp p x > 0) (rev xs)))"
    by simp
  then show ?thesis
    unfolding insert_back_def by (simp del: takeWhile_dropWhile_id)
qed

lemma insert_back_sorted:
  assumes "sorted_wrt le xs"
  shows "sorted_wrt le (insert_back cmp x xs)"
proof -
  define as bs where "as = rev (dropWhile (\<lambda>p. cmp p x > 0) (rev xs))"
    and "bs = rev (takeWhile (\<lambda>p. cmp p x > 0) (rev xs))"
  have e: "xs = as @ bs" unfolding as_def bs_def
    by (metis rev_append rev_rev_ident takeWhile_dropWhile_id)
  have gt: "le x b" if "b \<in> set bs" for b
    using that total_le [of x b] set_takeWhileD [of b "\<lambda>p. cmp p x > 0" "rev xs"] by (auto simp: bs_def)
  have lt: "le a x" if a: "a \<in> set as" for a
  proof -
    have "as \<noteq> []" using a by auto
    then have l: "last as \<in> set as" "le (last as) x"
      using hd_dropWhile [of "\<lambda>p. cmp p x > 0" "rev xs"] by (auto simp: as_def last_rev not_less)
    obtain cs where cs: "as = cs @ [last as]"
      using \<open>as \<noteq> []\<close> by (metis append_butlast_last_id)
    have "sorted_wrt le as" using assms e by (simp add: sorted_wrt_append)
    then have "sorted_wrt le (cs @ [last as])" using cs by simp
    then have "a = last as \<or> le a (last as)"
      using a cs by (metis Un_iff empty_iff insert_iff list.set(1) list.simps(15) set_append
          sorted_wrt_append)
    then show ?thesis using l(2) trans_le by auto
  qed
  have "sorted_wrt le (as @ x # bs)"
    using assms gt lt e by (auto simp: sorted_wrt_append)
  then show ?thesis by (simp add: insert_back_def as_def bs_def)
qed

lemma insert_back_stable:
  "filter (\<lambda>b. le a b \<and> le b a) (insert_back cmp x xs) =
    filter (\<lambda>b. le a b \<and> le b a) (xs @ [x])"
proof -
  define as bs where "as = rev (dropWhile (\<lambda>p. cmp p x > 0) (rev xs))"
    and "bs = rev (takeWhile (\<lambda>p. cmp p x > 0) (rev xs))"
  have e: "xs = as @ bs" unfolding as_def bs_def
    by (metis rev_append rev_rev_ident takeWhile_dropWhile_id)
  have "filter (\<lambda>b. le a b \<and> le b a) bs = []" if "le a x \<and> le x a"
  proof -
    have "\<not> (le a b \<and> le b a)" if "b \<in> set bs" for b
    proof
      assume "le a b \<and> le b a"
      then have "le b x" using \<open>le a x \<and> le x a\<close> trans_le by blast
      then show False
        using \<open>b \<in> set bs\<close> set_takeWhileD [of b "\<lambda>p. cmp p x > 0" "rev xs"] by (auto simp: bs_def)
    qed
    then show ?thesis by (simp add: filter_empty_conv)
  qed
  then have "filter (\<lambda>b. le a b \<and> le b a) (as @ x # bs) = filter (\<lambda>b. le a b \<and> le b a) (xs @ [x])"
    by (auto simp: e)
  then show ?thesis by (simp add: insert_back_def as_def bs_def)
qed

lemma fold_insert_back:
  "sorted_wrt le xs \<Longrightarrow>
    sorted_wrt le (fold (insert_back cmp) ys xs) \<and>
    mset (fold (insert_back cmp) ys xs) = mset xs + mset ys \<and>
    filter (\<lambda>b. le a b \<and> le b a) (fold (insert_back cmp) ys xs) =
      filter (\<lambda>b. le a b \<and> le b a) (xs @ ys)"
proof (induction ys arbitrary: xs)
  case (Cons y ys)
  from Cons.IH [OF insert_back_sorted [OF Cons.prems], of y] show ?case
    using insert_back_stable [of a y xs] by (simp add: mset_insert_back)
qed simp

lemma sort_ref_spec:
  "sorted_wrt le (sort_ref cmp xs)" "mset (sort_ref cmp xs) = mset xs"
  "filter (\<lambda>b. le a b \<and> le b a) (sort_ref cmp xs) = filter (\<lambda>b. le a b \<and> le b a) xs"
  using fold_insert_back [of "[]" xs a] by (simp_all add: sort_ref_def)

end

interpretation tn: queue_order "testnode_cmp num" for num :: "qaddr \<Rightarrow> int"
  by unfold_locales (auto simp: testnode_cmp_def split: if_splits)

lemma testnode_le: "testnode_cmp num a b \<le> 0 \<longleftrightarrow> num a \<le> num b"
  by (simp add: testnode_cmp_def)

lemma destroy_nonempty:
  assumes "qlist h s xs" "xs \<noteq> []" "s \<noteq> 0"
  shows "testnode_destroy dbg s h = None"
proof -
  have "qnext h s \<noteq> s"
    using assms(1,2) qlist_first [OF assms(1)] by (cases xs) (auto simp: qlist_def)
  then have "destroy_loop dbg s (qnext h s) h {} = None"
    by (subst destroy_loop.simps) (simp add: read_next_def Let_def)
  then show ?thesis
    using assms(3) by (simp add: testnode_destroy_def)
qed

section \<open>Properties\<close>

text \<open>
  The queue macros are list operations. If the links of \<open>h\<close> form the queue with the sentinel
  \<open>s\<close> and the elements \<open>xs @ q # ys\<close>, then inserting a new element \<open>x\<close> at the head, at the tail or
  after \<open>q\<close> gives the queue with \<open>x\<close> at that place, removing \<open>q\<close> gives \<open>xs @ ys\<close>, with or without
  the debugging variant, and splitting at \<open>q\<close> gives the queues \<open>xs\<close> under the old sentinel and
  \<open>q # ys\<close> under the new one. Adding the two queues again gives the queue from which the split
  started.
\<close>
theorem queue_macros_refine:
  assumes "qlist h s (xs @ q # ys)" and "x \<notin> set (s # xs @ q # ys)"
  shows "qlist (ngx_queue_insert_head s x h) s (x # xs @ q # ys) \<and>
    qlist (ngx_queue_insert_tail s x h) s (xs @ q # ys @ [x]) \<and>
    qlist (ngx_queue_insert_after q x h) s (xs @ q # x # ys) \<and>
    qlist (ngx_queue_remove dbg q h) s (xs @ ys) \<and>
    qlist (ngx_queue_split s q x h) s xs \<and> qlist (ngx_queue_split s q x h) x (q # ys) \<and>
    qlist (ngx_queue_add s x (ngx_queue_split s q x h)) s (xs @ q # ys) \<and>
    ngx_queue_empty s (ngx_queue_init s h) \<and> \<not> ngx_queue_empty s h"
proof (intro conjI)
  note q = assms
  show "qlist (ngx_queue_insert_head s x h) s (x # xs @ q # ys)"
    by (rule insert_head_qlist [OF q])
  show "qlist (ngx_queue_insert_tail s x h) s (xs @ q # ys @ [x])"
    using insert_tail_qlist [OF q] by simp
  show "qlist (ngx_queue_insert_after q x h) s (xs @ q # x # ys)"
    by (rule insert_after_qlist [OF q])
  show "qlist (ngx_queue_remove dbg q h) s (xs @ ys)"
    by (rule remove_qlist [OF q(1)])
  show sp: "qlist (ngx_queue_split s q x h) s xs" "qlist (ngx_queue_split s q x h) x (q # ys)"
    using split_qlist [OF q] by blast+
  show "qlist (ngx_queue_add s x (ngx_queue_split s q x h)) s (xs @ q # ys)"
    by (rule add_qlist [OF sp]) (use q in \<open>auto simp: qlist_def\<close>)
  show "ngx_queue_empty s (ngx_queue_init s h)"
    using empty_qlist [OF init_qlist] by simp
  show "\<not> ngx_queue_empty s h"
    using empty_qlist [OF q(1)] by simp
qed

definition sample_links :: "queue_links" where
  "sample_links = fold (\<lambda>x. ngx_queue_insert_tail 1 x) [2, 3, 4, 5]
    (ngx_queue_init 1 \<lparr>qprev = \<lambda>_. 0, qnext = \<lambda>_. 0\<rparr>)"

lemma sample_qlist: "qlist sample_links 1 [2, 3, 4, 5]"
  by (simp add: sample_links_def qlist_def ngx_queue_init_def ngx_queue_insert_tail_def link_simps)

theorem queue_macros_refine_witness:
  "qlist (ngx_queue_remove True 3 sample_links) 1 [2, 4, 5]"
  using queue_macros_refine [of sample_links 1 "[2]" 3 "[4, 5]" 9 True] sample_qlist by simp

text \<open>
  C36. \<^verbatim>\<open>ngx_queue_sort\<close> with the comparison of the sample program returns, and the queue then holds
  the same elements in ascending order of their numbers, elements with equal numbers in the order
  in which they stood before; and \<^verbatim>\<open>ngx_queue_middle\<close> on the sorted queue returns the median, the
  element at position \<open>n div 2\<close> of the \<open>n\<close> elements.
\<close>
theorem queue_sort_correct:
  assumes "qlist h s xs"
  shows "\<exists>h' ys. ngx_queue_sort dbg s (testnode_cmp num) h = Some h' \<and> qlist h' s ys \<and>
    mset ys = mset xs \<and> sorted_wrt (\<lambda>a b. num a \<le> num b) ys \<and>
    (\<forall>k. filter (\<lambda>a. num a = k) ys = filter (\<lambda>a. num a = k) xs) \<and>
    ngx_queue_middle s h' = Some ((ys @ [s]) ! (length xs div 2))"
proof -
  obtain h' where h: "ngx_queue_sort dbg s (testnode_cmp num) h = Some h'"
    and q: "qlist h' s (sort_ref (testnode_cmp num) xs)"
    using sort_result [OF assms] by blast
  let ?ys = "sort_ref (testnode_cmp num) xs"
  have m: "mset ?ys = mset xs" by (rule tn.sort_ref_spec)
  have s: "sorted_wrt (\<lambda>a b. num a \<le> num b) ?ys"
    using tn.sort_ref_spec(1) [of num xs] by (simp add: testnode_le)
  have st: "filter (\<lambda>a. num a = k) ?ys = filter (\<lambda>a. num a = k) xs" for k
  proof (cases "\<exists>a \<in> set xs. num a = k")
    case True
    then obtain a where "num a = k" by blast
    then show ?thesis
      using tn.sort_ref_spec(3) [of num a xs] unfolding testnode_le
      by (simp only: eq_commute [of k] flip: order_eq_iff)
  next
    case False
    moreover have "set ?ys = set xs" using m by (metis set_mset_mset)
    ultimately show ?thesis by (simp add: filter_empty_conv)
  qed
  have "length ?ys = length xs" using m by (metis size_mset)
  then have "ngx_queue_middle s h' = Some ((?ys @ [s]) ! (length xs div 2))"
    using middle_result [OF q] by simp
  then show ?thesis
    using h q m s st by blast
qed

theorem queue_sort_correct_witness:
  "\<exists>h'. ngx_queue_sort False 1 (testnode_cmp (\<lambda>a. 10 - int a)) sample_links = Some h'"
  using queue_sort_correct [OF sample_qlist, of False "\<lambda>a. 10 - int a"] by blast

end
