(* ===== verification/Memory.thy ===== *)
theory Memory
  imports Prelude
begin

text \<open>
  The memory that the pool, the array and the allocation list work on. The C library's allocator is
  a parameter (\<^verbatim>\<open>alloc live al n\<close> answers a request for \<open>n\<close> bytes at a multiple of \<open>al\<close>), its
  documented behaviour the predicate \<^verbatim>\<open>alloc_ok\<close>: what it returns overlaps no live block. The
  state records the live blocks, so that a leak, a double \<^verbatim>\<open>free\<close> or a \<^verbatim>\<open>free\<close> of something else
  is visible: freeing an address that is not a live block is undefined, \<open>None\<close>.
\<close>

section \<open>Live blocks and contents\<close>

text \<open>Live blocks (address and size) and the contents of the memory.\<close>

record pmem =
  pm_live :: "(nat \<times> nat) list"
  pm_bytes :: "nat \<Rightarrow> u8"

type_synonym allocator = "(nat \<times> nat) list \<Rightarrow> nat \<Rightarrow> nat \<Rightarrow> nat option"

definition memalign :: "allocator \<Rightarrow> nat \<Rightarrow> nat \<Rightarrow> pmem \<Rightarrow> (nat \<times> pmem) option" where
  "memalign alloc al n m =
    map_option (\<lambda>a. (a, m\<lparr>pm_live := (a, n) # pm_live m\<rparr>)) (alloc (pm_live m) al n)"

abbreviation malloc :: "allocator \<Rightarrow> nat \<Rightarrow> pmem \<Rightarrow> (nat \<times> pmem) option" where
  "malloc alloc \<equiv> memalign alloc 16"

definition mfree :: "nat \<Rightarrow> pmem \<Rightarrow> pmem option" where
  "mfree a m = (
    if a = 0 then Some m
    else if a \<in> fst ` set (pm_live m) then Some (m\<lparr>pm_live := filter (\<lambda>b. fst b \<noteq> a) (pm_live m)\<rparr>)
    else None)"

definition memset :: "nat \<Rightarrow> u8 \<Rightarrow> nat \<Rightarrow> pmem \<Rightarrow> pmem" where
  "memset p v n m = m\<lparr>pm_bytes := \<lambda>a. if p \<le> a \<and> a < p + n then v else pm_bytes m a\<rparr>"

definition memcpy :: "nat \<Rightarrow> nat \<Rightarrow> nat \<Rightarrow> pmem \<Rightarrow> pmem" where
  "memcpy dst src n m = m\<lparr>pm_bytes := \<lambda>a.
    if dst \<le> a \<and> a < dst + n then pm_bytes m (src + (a - dst)) else pm_bytes m a\<rparr>"

text \<open>Pointer arithmetic in \<^verbatim>\<open>size_t\<close>.\<close>

definition size_t :: "int \<Rightarrow> nat" where
  "size_t i = nat (i mod 2 ^ 64)"

lemma size_t_diff: "a \<le> b \<Longrightarrow> b < 2 ^ 63 \<Longrightarrow> size_t (int b - int a) = b - a"
  by (simp add: size_t_def)

lemma size_t_nat:
  assumes "n < 2 ^ 64"
  shows "size_t (int n) = n"
proof -
  have "int n < 2 ^ 64" using assms by (metis of_nat_less_iff of_nat_numeral of_nat_power)
  then show ?thesis unfolding size_t_def by (subst mod_pos_pos_trivial) auto
qed

section \<open>The allocator's contract\<close>

fun apart :: "nat \<times> nat \<Rightarrow> nat \<times> nat \<Rightarrow> bool" where
  "apart (a, n) (b, k) = (a + max 1 n \<le> b \<or> b + max 1 k \<le> a)"

definition alloc_ok :: "allocator \<Rightarrow> bool" where
  "alloc_ok alloc = (\<forall>live al n a. alloc live al n = Some a \<longrightarrow>
    0 < a \<and> al dvd a \<and> a + n < 2 ^ 63 \<and> (\<forall>b \<in> set live. apart (a, n) b))"

definition pmem_ok :: "pmem \<Rightarrow> bool" where
  "pmem_ok m = (sorted_wrt apart (pm_live m) \<and> (\<forall>(a, n) \<in> set (pm_live m). 0 < a \<and> a + n < 2 ^ 63))"

lemma apart_sym: "apart x y = apart y x"
  by (cases x; cases y) auto

lemma apart_neq: "apart x y \<Longrightarrow> fst x \<noteq> fst y"
  by (cases x; cases y) auto

lemma memalign_ok:
  assumes "alloc_ok alloc" "pmem_ok m" "memalign alloc al n m = Some (a, m')"
  shows "pmem_ok m'" "pm_live m' = (a, n) # pm_live m" "pm_bytes m' = pm_bytes m" "0 < a"
    "al dvd a" "a + n < 2 ^ 63" "\<forall>b \<in> set (pm_live m). apart (a, n) b" "a \<notin> fst ` set (pm_live m)"
proof -
  have "alloc (pm_live m) al n = Some a" and m': "m' = m\<lparr>pm_live := (a, n) # pm_live m\<rparr>"
    using assms(3) by (auto simp: memalign_def)
  then have *: "0 < a \<and> al dvd a \<and> a + n < 2 ^ 63 \<and> (\<forall>b \<in> set (pm_live m). apart (a, n) b)"
    using assms(1) unfolding alloc_ok_def by blast
  show "pmem_ok m'" using * assms(2) m' by (auto simp: pmem_ok_def)
  show "pm_live m' = (a, n) # pm_live m" "pm_bytes m' = pm_bytes m" by (simp_all add: m')
  show "0 < a" "al dvd a" "a + n < 2 ^ 63" "\<forall>b \<in> set (pm_live m). apart (a, n) b" using * by blast+
  show "a \<notin> fst ` set (pm_live m)" using * apart_neq [of "(a, n)"] by auto
qed

lemma mfree_ok:
  assumes "pmem_ok m" "mfree a m = Some m'"
  shows "pmem_ok m'"
  using assms by (auto simp: mfree_def pmem_ok_def sorted_wrt_filter split: if_splits)

lemma sorted_wrt_sym_pair:
  "sorted_wrt P xs \<Longrightarrow> (\<And>x y. P x y = P y x) \<Longrightarrow> x \<in> set xs \<Longrightarrow> y \<in> set xs \<Longrightarrow> x \<noteq> y \<Longrightarrow> P x y"
  by (induction xs) auto

lemma distinct_live: "pmem_ok m \<Longrightarrow> distinct (map fst (pm_live m))"
proof -
  have "sorted_wrt apart xs \<Longrightarrow> distinct (map fst xs)" for xs :: "(nat \<times> nat) list"
    by (induction xs) (auto dest!: apart_neq bspec simp del: apart.simps)
  then show "pmem_ok m \<Longrightarrow> distinct (map fst (pm_live m))" by (simp add: pmem_ok_def)
qed

lemma free_fresh:
  assumes "alloc_ok alloc" "pmem_ok m" "memalign alloc al n m = Some (p, m')"
  shows "mfree p m' = Some m"
proof -
  note M = memalign_ok [OF assms]
  have "m' = m\<lparr>pm_live := (p, n) # pm_live m\<rparr>"
    using assms(3) by (auto simp: memalign_def)
  moreover have "filter (\<lambda>b. fst b \<noteq> p) (pm_live m) = pm_live m"
    using M(8) by (auto simp: filter_id_conv)
  ultimately show ?thesis
    using M(4) by (simp add: mfree_def)
qed

lemma live_pos: "pmem_ok m \<Longrightarrow> a \<in> fst ` set (pm_live m) \<Longrightarrow> 0 < a"
  by (auto simp: pmem_ok_def)

lemma pmem_ok_filter: "pmem_ok m \<Longrightarrow> pmem_ok (m\<lparr>pm_live := filter P (pm_live m)\<rparr>)"
  by (auto simp: pmem_ok_def sorted_wrt_filter)

text \<open>Freeing a series of blocks.\<close>

fun free_all :: "nat list \<Rightarrow> pmem \<Rightarrow> pmem option" where
  "free_all [] m = Some m"
| "free_all (a # as) m = Option.bind (mfree a m) (free_all as)"

lemma free_all_append: "free_all (as @ bs) m = Option.bind (free_all as m) (free_all bs)"
  by (induction as arbitrary: m) (auto simp: Option.bind_assoc intro: bind_option_cong)

lemma free_all_live:
  "distinct as \<Longrightarrow> 0 \<notin> set as \<Longrightarrow> set as \<subseteq> fst ` set (pm_live m) \<Longrightarrow>
    free_all as m = Some (m\<lparr>pm_live := filter (\<lambda>x. fst x \<notin> set as) (pm_live m)\<rparr>)"
proof (induction as arbitrary: m)
  case (Cons a as)
  let ?m = "m\<lparr>pm_live := filter (\<lambda>x. fst x \<noteq> a) (pm_live m)\<rparr>"
  have "mfree a m = Some ?m" using Cons.prems by (simp add: mfree_def)
  moreover have "free_all as ?m = Some (?m\<lparr>pm_live := filter (\<lambda>x. fst x \<notin> set as) (pm_live ?m)\<rparr>)"
    by (rule Cons.IH) (use Cons.prems in force)+
  moreover have "filter (\<lambda>x. fst x \<notin> set as \<and> fst x \<noteq> a) (pm_live m) =
      filter (\<lambda>x. fst x \<notin> set (a # as)) (pm_live m)"
    by (rule filter_cong) auto
  ultimately show ?case by simp
qed simp

text \<open>A concrete allocator: the next free multiple above everything that is live.\<close>

definition bump_alloc :: allocator where
  "bump_alloc live al n = (
    let top = fold (\<lambda>(a, k) t. max (a + max 1 k) t) live 1; a = (top + (al - 1)) div al * al in
    if 0 < al \<and> a + n < 2 ^ 63 then Some a else None)"

lemma bump_top:
  fixes live :: "(nat \<times> nat) list"
  shows "t \<le> fold (\<lambda>(a, k) t. max (a + max 1 k) t) live t \<and>
    (\<forall>(a, k) \<in> set live. a + max 1 k \<le> fold (\<lambda>(a, k) t. max (a + max 1 k) t) live t)"
proof (induction live arbitrary: t)
  case (Cons x live)
  define u where "u = max (fst x + max 1 (snd x)) t"
  define T where "T = fold (\<lambda>(a, k) t. max (a + max 1 k) t) live u"
  have "u \<le> T" "\<forall>(a, k) \<in> set live. a + max 1 k \<le> T"
    using Cons.IH [of u] by (simp_all add: T_def)
  moreover have "t \<le> u" "fst x + max 1 (snd x) \<le> u" by (simp_all add: u_def)
  moreover have e: "fold (\<lambda>(a, k) t. max (a + max 1 k) t) (x # live) t = T"
    by (simp add: T_def u_def split_beta)
  ultimately show ?case unfolding e by (cases x) auto
qed simp

lemma bump_ok: "alloc_ok bump_alloc"
  unfolding alloc_ok_def
proof (intro allI impI)
  fix live al n a
  assume b: "bump_alloc live al n = Some a"
  define top where "top = fold (\<lambda>(a, k) t. max (a + max 1 k) t) live 1"
  have a: "0 < al" "a = (top + (al - 1)) div al * al" "a + n < 2 ^ 63"
    using b by (simp_all add: bump_alloc_def top_def Let_def split: if_splits)
  have "top \<le> a"
    using a(1,2) div_mult_mod_eq [of "top + (al - 1)" al] mod_less_divisor [OF a(1), of "top + (al - 1)"]
    by linarith
  moreover have t: "1 \<le> top" "\<forall>(c, k) \<in> set live. c + max 1 k \<le> top"
    using bump_top [of 1 live] by (auto simp: top_def)
  moreover have "apart (a, n) b" if "b \<in> set live" for b
    using t(2) that \<open>top \<le> a\<close> by (cases b) fastforce
  ultimately have "0 < a \<and> (\<forall>b \<in> set live. apart (a, n) b)"
    by auto
  moreover have "al dvd a" unfolding a(2) by (rule dvd_triv_right)
  ultimately show "0 < a \<and> al dvd a \<and> a + n < 2 ^ 63 \<and> (\<forall>b \<in> set live. apart (a, n) b)"
    using a(3) by blast
qed

definition empty_mem :: pmem where
  "empty_mem = \<lparr>pm_live = [], pm_bytes = \<lambda>_. 0\<rparr>"

lemma empty_mem_ok: "pmem_ok empty_mem"
  by (simp add: empty_mem_def pmem_ok_def)

end
