(* ===== verification/Ngx_Pool.thy ===== *)
theory Ngx_Pool
  imports Memory
begin

text \<open>
  The memory pool of \<^verbatim>\<open>data_struct/ngx_pool\<close> on the memory of the theory \<^verbatim>\<open>Memory\<close>.

  The singly linked chains of the C code, which nothing shares, are lists here: the blocks in the
  order of \<^verbatim>\<open>d.next\<close> (the pool itself is the first), the entries of \<^verbatim>\<open>large\<close> with the address of
  each entry, and the clean-up handlers. \<^verbatim>\<open>current\<close> is the index of a block. Sizes are those of
  an LP64 machine.
\<close>

section \<open>Pool\<close>

definition SIZEOF_POOL :: nat where "SIZEOF_POOL = 64"
definition SIZEOF_POOL_DATA :: nat where "SIZEOF_POOL_DATA = 32"
definition SIZEOF_LARGE :: nat where "SIZEOF_LARGE = 16"
definition NGX_ALIGNMENT :: nat where "NGX_ALIGNMENT = 8"
definition NGX_POOL_ALIGNMENT :: nat where "NGX_POOL_ALIGNMENT = 16"
definition NGX_MAX_ALLOC_FROM_POOL :: nat where "NGX_MAX_ALLOC_FROM_POOL = 4095"

definition ngx_align_ptr :: "nat \<Rightarrow> nat \<Rightarrow> nat" where
  "ngx_align_ptr p a = nat ((int p + (int a - 1)) AND NOT (int a - 1))"

record pool_block =
  bk_base :: nat
  bk_last :: nat
  bk_end :: nat
  bk_failed :: u32

text \<open>A clean-up handler with its data is its effect on the memory.\<close>

record ngx_pool =
  pl_blocks :: "pool_block list"
  pl_max :: nat
  pl_current :: nat
  pl_large :: "(nat \<times> nat) list"
  pl_cleanup :: "(pmem \<Rightarrow> pmem option) option list"

definition ngx_create_pool :: "allocator \<Rightarrow> nat \<Rightarrow> pmem \<Rightarrow> (ngx_pool \<times> pmem) option" where
  "ngx_create_pool alloc sz m =
    map_option (\<lambda>(p, m).
      let rest = size_t (int sz - int SIZEOF_POOL) in
      (\<lparr>pl_blocks = [\<lparr>bk_base = p, bk_last = p + SIZEOF_POOL, bk_end = p + sz, bk_failed = 0\<rparr>],
        pl_max = (if rest < NGX_MAX_ALLOC_FROM_POOL then rest else NGX_MAX_ALLOC_FROM_POOL),
        pl_current = 0, pl_large = [], pl_cleanup = []\<rparr>, m))
      (malloc alloc (size_t (int sz * int SIZEOF_POOL)) m)"

fun run_cleanup :: "(pmem \<Rightarrow> pmem option) option list \<Rightarrow> pmem \<Rightarrow> pmem option" where
  "run_cleanup [] m = Some m"
| "run_cleanup (None # cs) m = run_cleanup cs m"
| "run_cleanup (Some f # cs) m = Option.bind (f m) (run_cleanup cs)"

fun free_large :: "(nat \<times> nat) list \<Rightarrow> pmem \<Rightarrow> pmem option" where
  "free_large [] m = Some m"
| "free_large ((_, a) # ls) m =
    (if a \<noteq> 0 then Option.bind (mfree a m) (free_large ls) else free_large ls m)"

fun free_blocks :: "pool_block list \<Rightarrow> pmem \<Rightarrow> pmem option" where
  "free_blocks [] m = Some m"
| "free_blocks (b # bs) m = Option.bind (mfree (bk_base b) m) (free_blocks bs)"

definition ngx_destroy_pool :: "ngx_pool \<Rightarrow> pmem \<Rightarrow> pmem option" where
  "ngx_destroy_pool pool m =
    Option.bind (run_cleanup (pl_cleanup pool) m) (\<lambda>m.
    Option.bind (free_large (pl_large pool) m) (\<lambda>m.
    free_blocks (pl_blocks pool) m))"

definition ngx_reset_pool :: "ngx_pool \<Rightarrow> pmem \<Rightarrow> (ngx_pool \<times> pmem) option" where
  "ngx_reset_pool pool m =
    map_option (\<lambda>m. (pool\<lparr>
      pl_blocks := map (\<lambda>b. b\<lparr>bk_last := bk_base b + SIZEOF_POOL, bk_failed := 0\<rparr>) (pl_blocks pool),
      pl_current := 0, pl_large := []\<rparr>, m))
    (free_large (pl_large pool) m)"

text \<open>\<^verbatim>\<open>ngx_palloc_small\<close>: the first block from \<^verbatim>\<open>current\<close> on that has room.\<close>

fun small_fit :: "nat \<Rightarrow> bool \<Rightarrow> pool_block list \<Rightarrow> (nat \<times> pool_block list) option" where
  "small_fit sz align [] = None"
| "small_fit sz align (b # bs) = (
    let m = if align then ngx_align_ptr (bk_last b) NGX_ALIGNMENT else bk_last b in
    if size_t (int (bk_end b) - int m) \<ge> sz then Some (m, b\<lparr>bk_last := m + sz\<rparr> # bs)
    else map_option (\<lambda>(m, bs). (m, b # bs)) (small_fit sz align bs))"

text \<open>The walk of \<^verbatim>\<open>ngx_palloc_block\<close> over the blocks from \<^verbatim>\<open>current\<close>: all but the last count a failure.\<close>

fun count_failed :: "nat \<Rightarrow> nat \<Rightarrow> pool_block list \<Rightarrow> nat \<times> pool_block list" where
  "count_failed i cur (b # c # bs) = (
    let cur = if bk_failed b > 4 then Suc i else cur;
        (cur, rest) = count_failed (Suc i) cur (c # bs)
    in (cur, b\<lparr>bk_failed := bk_failed b + 1\<rparr> # rest))"
| "count_failed i cur bs = (cur, bs)"

definition ngx_palloc_block ::
  "allocator \<Rightarrow> nat \<Rightarrow> ngx_pool \<Rightarrow> pmem \<Rightarrow> nat option \<times> ngx_pool \<times> pmem" where
  "ngx_palloc_block alloc sz pool m = (
    let first = hd (pl_blocks pool);
        psize = size_t (int (bk_end first) - int (bk_base first)) in
    case memalign alloc NGX_POOL_ALIGNMENT psize m of
      None \<Rightarrow> (None, pool, m)
    | Some (p, m) \<Rightarrow>
        let a = ngx_align_ptr (p + SIZEOF_POOL_DATA) NGX_ALIGNMENT;
            new = \<lparr>bk_base = p, bk_last = a + sz, bk_end = p + psize, bk_failed = 0\<rparr>;
            c = pl_current pool;
            (cur, bs) = count_failed c c (drop c (pl_blocks pool))
        in (Some a, pool\<lparr>pl_blocks := take c (pl_blocks pool) @ bs @ [new], pl_current := cur\<rparr>, m))"

definition ngx_palloc_small ::
  "allocator \<Rightarrow> nat \<Rightarrow> bool \<Rightarrow> ngx_pool \<Rightarrow> pmem \<Rightarrow> nat option \<times> ngx_pool \<times> pmem" where
  "ngx_palloc_small alloc sz align pool m = (
    let c = pl_current pool in
    case small_fit sz align (drop c (pl_blocks pool)) of
      Some (a, bs) \<Rightarrow> (Some a, pool\<lparr>pl_blocks := take c (pl_blocks pool) @ bs\<rparr>, m)
    | None \<Rightarrow> ngx_palloc_block alloc sz pool m)"

text \<open>A free slot among the first entries; the counter \<open>n\<close> ends the search.\<close>

fun reuse_slot :: "nat \<Rightarrow> nat \<Rightarrow> (nat \<times> nat) list \<Rightarrow> (nat \<times> nat) list option" where
  "reuse_slot n p [] = None"
| "reuse_slot n p ((a, q) # ls) = (
    if q = 0 then Some ((a, p) # ls)
    else if n > 3 then None
    else map_option ((#) (a, q)) (reuse_slot (Suc n) p ls))"

text \<open>A new entry for \<open>p\<close>, in the pool; without room for it \<open>p\<close> is freed again.\<close>

definition add_large :: "allocator \<Rightarrow> nat \<Rightarrow> ngx_pool \<Rightarrow> pmem \<Rightarrow> (nat option \<times> ngx_pool \<times> pmem) option" where
  "add_large alloc p pool m = (
    case ngx_palloc_small alloc SIZEOF_LARGE True pool m of
      (None, pool, m) \<Rightarrow> map_option (\<lambda>m. (None, pool, m)) (mfree p m)
    | (Some l, pool, m) \<Rightarrow> Some (Some p, pool\<lparr>pl_large := (l, p) # pl_large pool\<rparr>, m))"

definition ngx_palloc_large ::
  "allocator \<Rightarrow> nat \<Rightarrow> ngx_pool \<Rightarrow> pmem \<Rightarrow> (nat option \<times> ngx_pool \<times> pmem) option" where
  "ngx_palloc_large alloc sz pool m = (
    case malloc alloc sz m of
      None \<Rightarrow> Some (None, pool, m)
    | Some (p, m) \<Rightarrow>
        (case reuse_slot 0 p (pl_large pool) of
          Some ls \<Rightarrow> Some (Some p, pool\<lparr>pl_large := ls\<rparr>, m)
        | None \<Rightarrow> add_large alloc p pool m))"

definition ngx_palloc ::
  "allocator \<Rightarrow> nat \<Rightarrow> ngx_pool \<Rightarrow> pmem \<Rightarrow> (nat option \<times> ngx_pool \<times> pmem) option" where
  "ngx_palloc alloc sz pool m = ngx_palloc_large alloc sz pool m"

definition ngx_pnalloc ::
  "allocator \<Rightarrow> nat \<Rightarrow> ngx_pool \<Rightarrow> pmem \<Rightarrow> (nat option \<times> ngx_pool \<times> pmem) option" where
  "ngx_pnalloc alloc sz pool m = ngx_palloc_large alloc sz pool m"

definition ngx_pcalloc ::
  "allocator \<Rightarrow> nat \<Rightarrow> ngx_pool \<Rightarrow> pmem \<Rightarrow> (nat option \<times> ngx_pool \<times> pmem) option" where
  "ngx_pcalloc alloc sz pool m =
    map_option (\<lambda>(p, pool, m). (p, pool, case p of None \<Rightarrow> m | Some a \<Rightarrow> memset a 0 sz m))
      (ngx_palloc alloc sz pool m)"

definition ngx_pmemalign ::
  "allocator \<Rightarrow> nat \<Rightarrow> nat \<Rightarrow> ngx_pool \<Rightarrow> pmem \<Rightarrow> (nat option \<times> ngx_pool \<times> pmem) option" where
  "ngx_pmemalign alloc sz alignment pool m = (
    case memalign alloc alignment sz m of
      None \<Rightarrow> Some (None, pool, m)
    | Some (p, m) \<Rightarrow> add_large alloc p pool m)"

text \<open>The walk of \<^verbatim>\<open>ngx_pfree\<close>: the result is 0 when an entry has the address, \<open>- 1\<close> otherwise.\<close>

fun pfree_walk :: "nat \<Rightarrow> (nat \<times> nat) list \<Rightarrow> pmem \<Rightarrow> (int \<times> (nat \<times> nat) list \<times> pmem) option" where
  "pfree_walk p [] m = Some (- 1, [], m)"
| "pfree_walk p ((a, q) # ls) m = (
    if p = q then map_option (\<lambda>m. (0, (a, 0) # ls, m)) (mfree q m)
    else map_option (\<lambda>(r, ls, m). (r, (a, q) # ls, m)) (pfree_walk p ls m))"

definition ngx_pfree :: "nat \<Rightarrow> ngx_pool \<Rightarrow> pmem \<Rightarrow> (int \<times> ngx_pool \<times> pmem) option" where
  "ngx_pfree p pool m =
    map_option (\<lambda>(r, ls, m). (r, pool\<lparr>pl_large := ls\<rparr>, m)) (pfree_walk p (pl_large pool) m)"

section \<open>Invariant\<close>

text \<open>The first block starts with the pool's own fields, the others only with \<^verbatim>\<open>ngx_pool_data_t\<close>.\<close>

definition header :: "nat \<Rightarrow> pool_block \<Rightarrow> nat" where
  "header first b = (if bk_base b = first then SIZEOF_POOL else SIZEOF_POOL_DATA)"

definition block_good :: "nat \<Rightarrow> nat \<Rightarrow> (nat \<times> nat) list \<Rightarrow> pool_block \<Rightarrow> bool" where
  "block_good psize first live b = (
    bk_base b + header first b \<le> bk_last b \<and> bk_last b \<le> bk_end b \<and> bk_end b = bk_base b + psize \<and>
    8 dvd bk_last b \<and> 16 dvd bk_base b \<and> (\<exists>k \<ge> psize. (bk_base b, k) \<in> set live))"

definition entry_in :: "nat \<Rightarrow> pool_block list \<Rightarrow> nat \<Rightarrow> bool" where
  "entry_in first bs l = (\<exists>b \<in> set bs. bk_base b + header first b \<le> l \<and> l + SIZEOF_LARGE \<le> bk_last b)"

abbreviation entry_block :: "nat \<Rightarrow> nat \<times> nat" where
  "entry_block l \<equiv> (l, SIZEOF_LARGE)"

definition owned :: "ngx_pool \<Rightarrow> nat list" where
  "owned pool = map bk_base (pl_blocks pool) @ filter (\<lambda>a. a \<noteq> 0) (map snd (pl_large pool))"

text \<open>
  \<open>F\<close> is the list of the live blocks that are not the pool's. The entries lie in the blocks, apart
  from each other and from the header.
\<close>

definition pool_inv :: "nat \<Rightarrow> (nat \<times> nat) list \<Rightarrow> ngx_pool \<Rightarrow> pmem \<Rightarrow> bool" where
  "pool_inv psize F pool m = (
    let bs = pl_blocks pool; first = bk_base (hd bs); ls = map fst (pl_large pool) in
    pmem_ok m \<and> 64 \<le> psize \<and> psize < 2 ^ 63 \<and> pl_current pool < length bs \<and> pl_cleanup pool = [] \<and>
    (\<forall>b \<in> set bs. block_good psize first (pm_live m) b) \<and>
    sorted_wrt apart (map entry_block ls) \<and> (\<forall>l \<in> set ls. entry_in first bs l) \<and>
    distinct (owned pool) \<and> set (owned pool) \<subseteq> fst ` set (pm_live m) \<and>
    filter (\<lambda>x. fst x \<notin> set (owned pool)) (pm_live m) = F)"

lemma align_8: "8 dvd p \<Longrightarrow> ngx_align_ptr p NGX_ALIGNMENT = p"
proof -
  assume "8 dvd p"
  then obtain k where k: "p = 8 * k" by blast
  have "(int p + 7) AND NOT (mask 3) = push_bit 3 (drop_bit 3 (int p + 7))"
    by (rule bit_eqI) (auto simp: bit_simps)
  moreover have "drop_bit 3 (int p + 7) = int k"
    by (simp add: k drop_bit_eq_div)
  ultimately have "(int p + 7) AND NOT 7 = int p"
    by (simp add: mask_eq_exp_minus_1 push_bit_eq_mult k)
  then show ?thesis
    by (simp add: ngx_align_ptr_def NGX_ALIGNMENT_def)
qed

lemma small_fit_spec:
  "small_fit sz align bs = Some (a, bs') \<Longrightarrow>
    \<exists>pre b post. bs = pre @ b # post \<and> bs' = pre @ b\<lparr>bk_last := a + sz\<rparr> # post \<and>
      a = (if align then ngx_align_ptr (bk_last b) NGX_ALIGNMENT else bk_last b) \<and>
      sz \<le> size_t (int (bk_end b) - int a)"
proof (induction bs arbitrary: bs')
  case (Cons b bs)
  show ?case
  proof (cases "sz \<le> size_t (int (bk_end b) - int (if align then ngx_align_ptr (bk_last b) NGX_ALIGNMENT
      else bk_last b))")
    case True
    then show ?thesis
      using Cons.prems by (intro exI [of _ "[]"] exI [of _ b] exI [of _ bs]) (auto simp: Let_def)
  next
    case False
    then obtain bs2 where "small_fit sz align bs = Some (a, bs2)" "bs' = b # bs2"
      using Cons.prems by (auto simp: Let_def split: if_splits)
    then show ?thesis
      using Cons.IH by (metis append_Cons)
  qed
qed simp

text \<open>Counting failures changes nothing but the counters, and \<^verbatim>\<open>current\<close> stays inside the chain.\<close>

abbreviation same_block :: "pool_block \<Rightarrow> pool_block \<Rightarrow> bool" where
  "same_block b c \<equiv> bk_base b = bk_base c \<and> bk_last b = bk_last c \<and> bk_end b = bk_end c"

lemma count_failed_spec:
  "count_failed i cur bs = (cur', bs') \<Longrightarrow> cur < i + length bs \<Longrightarrow>
    list_all2 same_block bs' bs \<and> cur' < i + length bs"
proof (induction i cur bs arbitrary: cur' bs' rule: count_failed.induct)
  case (1 i cur b c bs)
  let ?cur = "if bk_failed b > 4 then Suc i else cur"
  obtain cur2 rest where r: "count_failed (Suc i) ?cur (c # bs) = (cur2, rest)" by fastforce
  have "?cur < Suc i + length (c # bs)" using "1.prems"(2) by simp
  from "1.IH" [OF refl r this]
  have "list_all2 same_block rest (c # bs) \<and> cur2 < Suc i + length (c # bs)" .
  then show ?case
    using "1.prems"(1) r by (auto simp: Let_def)
qed (auto simp: list_all2_same)

text \<open>The invariant, in parts.\<close>

lemma pool_invI:
  assumes "pmem_ok m" "64 \<le> psize" "psize < 2 ^ 63" "pl_current pool < length (pl_blocks pool)"
    "pl_cleanup pool = []"
    "\<And>b. b \<in> set (pl_blocks pool) \<Longrightarrow> block_good psize (bk_base (hd (pl_blocks pool))) (pm_live m) b"
    "sorted_wrt apart (map entry_block (map fst (pl_large pool)))"
    "\<And>l. l \<in> set (map fst (pl_large pool)) \<Longrightarrow>
      entry_in (bk_base (hd (pl_blocks pool))) (pl_blocks pool) l"
    "distinct (owned pool)" "set (owned pool) \<subseteq> fst ` set (pm_live m)"
    "filter (\<lambda>x. fst x \<notin> set (owned pool)) (pm_live m) = F"
  shows "pool_inv psize F pool m"
  using assms by (simp add: pool_inv_def Let_def)

lemma pool_invD:
  assumes "pool_inv psize F pool m"
  shows "pmem_ok m" "64 \<le> psize" "psize < 2 ^ 63" "pl_current pool < length (pl_blocks pool)"
    "pl_cleanup pool = []"
    "\<And>b. b \<in> set (pl_blocks pool) \<Longrightarrow> block_good psize (bk_base (hd (pl_blocks pool))) (pm_live m) b"
    "sorted_wrt apart (map entry_block (map fst (pl_large pool)))"
    "\<And>l. l \<in> set (map fst (pl_large pool)) \<Longrightarrow>
      entry_in (bk_base (hd (pl_blocks pool))) (pl_blocks pool) l"
    "distinct (owned pool)" "set (owned pool) \<subseteq> fst ` set (pm_live m)"
    "filter (\<lambda>x. fst x \<notin> set (owned pool)) (pm_live m) = F"
    "pl_blocks pool \<noteq> []"
  using assms by (auto simp: pool_inv_def Let_def)

text \<open>Two blocks of the pool do not overlap.\<close>

lemma blocks_apart:
  assumes inv: "pool_inv psize F pool m"
    and b: "b \<in> set (pl_blocks pool)" "c \<in> set (pl_blocks pool)" "bk_base b \<noteq> bk_base c"
  shows "bk_end b \<le> bk_base c \<or> bk_end c \<le> bk_base b"
proof -
  note I = pool_invD [OF inv]
  obtain k k' where k: "psize \<le> k" "(bk_base b, k) \<in> set (pm_live m)"
      "psize \<le> k'" "(bk_base c, k') \<in> set (pm_live m)" "bk_end b = bk_base b + psize"
      "bk_end c = bk_base c + psize"
    using I(6) [OF b(1)] I(6) [OF b(2)] by (auto simp: block_good_def)
  have "apart (bk_base b, k) (bk_base c, k')"
  proof (rule sorted_wrt_sym_pair [OF _ apart_sym k(2,4)])
    show "sorted_wrt apart (pm_live m)" using I(1) by (simp add: pmem_ok_def)
  qed (use b(3) in simp)
  then show ?thesis using k by auto
qed

definition fresh_entry :: "ngx_pool \<Rightarrow> nat \<Rightarrow> bool" where
  "fresh_entry pool l = (entry_in (bk_base (hd (pl_blocks pool))) (pl_blocks pool) l \<and>
    (\<forall>l' \<in> set (map fst (pl_large pool)). apart (entry_block l) (entry_block l')))"

lemma hd_update: "bk_base (hd (pre @ b\<lparr>bk_last := x\<rparr> # post)) = bk_base (hd (pre @ b # post))"
  by (cases pre) auto

lemma header_update [simp]: "header first (b\<lparr>bk_last := x\<rparr>) = header first b"
  by (simp add: header_def)

lemma distinct_blocks:
  assumes "pool_inv psize F pool m"
  shows "distinct (map bk_base (pl_blocks pool))"
  using pool_invD(9) [OF assms] by (simp add: owned_def)

lemma update_block:
  assumes inv: "pool_inv psize F pool m" and bs: "pl_blocks pool = pre @ b # post"
    and a: "a = bk_last b" "a + SIZEOF_LARGE \<le> bk_end b"
    and pool': "pool' = pool\<lparr>pl_blocks := pre @ b\<lparr>bk_last := a + SIZEOF_LARGE\<rparr> # post\<rparr>"
  shows "pool_inv psize F pool' m" "fresh_entry pool' a"
proof -
  note I = pool_invD [OF inv]
  let ?b = "b\<lparr>bk_last := a + SIZEOF_LARGE\<rparr>" and ?f = "bk_base (hd (pl_blocks pool))"
  have f: "bk_base (hd (pl_blocks pool')) = ?f"
    using bs hd_update by (simp add: pool')
  have b: "b \<in> set (pl_blocks pool)" using bs by simp
  have gb: "block_good psize ?f (pm_live m) ?b"
    using I(6) [OF b] a by (auto simp: block_good_def SIZEOF_LARGE_def)
  have mono: "entry_in ?f (pl_blocks pool') l" if "entry_in ?f (pl_blocks pool) l" for l
    using that a by (auto simp: entry_in_def bs pool')
  have o: "owned pool' = owned pool" by (simp add: owned_def bs pool')
  show "pool_inv psize F pool' m"
  proof (rule pool_invI)
    fix c assume "c \<in> set (pl_blocks pool')"
    then have "c = ?b \<or> c \<in> set (pl_blocks pool)" by (auto simp: pool' bs)
    then show "block_good psize (bk_base (hd (pl_blocks pool'))) (pm_live m) c"
      using gb I(6) f by auto
  next
    fix l assume "l \<in> set (map fst (pl_large pool'))"
    then show "entry_in (bk_base (hd (pl_blocks pool'))) (pl_blocks pool') l"
      using I(8) mono f by (simp add: pool')
  qed (use I o bs in \<open>simp_all add: pool'\<close>)
  have "entry_in ?f (pl_blocks pool') a"
    using I(6) [OF b] a by (auto simp: entry_in_def pool' block_good_def)
  moreover have "apart (entry_block a) (entry_block l)" if l: "l \<in> set (map fst (pl_large pool))" for l
  proof -
    obtain c where c: "c \<in> set (pl_blocks pool)" "bk_base c \<le> l" "l + SIZEOF_LARGE \<le> bk_last c"
      using I(8) [OF l] unfolding entry_in_def by (meson add_leD1)
    have e: "bk_last c \<le> bk_end c" "bk_base b \<le> a"
      using I(6) [OF c(1)] I(6) [OF b] a by (auto simp: block_good_def)
    show ?thesis
    proof (cases "bk_base c = bk_base b")
      case True
      then have "c = b"
        using c(1) b distinct_blocks [OF inv] by (auto simp: distinct_map dest: inj_onD)
      then show ?thesis using c a by (simp add: SIZEOF_LARGE_def)
    next
      case False
      then have "bk_end b \<le> bk_base c \<or> bk_end c \<le> bk_base b"
        using blocks_apart [OF inv b c(1)] by auto
      then show ?thesis using c a e by (auto simp: SIZEOF_LARGE_def)
    qed
  qed
  ultimately show "fresh_entry pool' a"
    by (simp add: fresh_entry_def f) (simp add: pool')
qed

text \<open>The failure counters and \<^verbatim>\<open>current\<close> are irrelevant for the invariant.\<close>

lemma same_blocks_inv:
  assumes inv: "pool_inv psize F pool m" and s: "list_all2 same_block bs (pl_blocks pool)"
    and c: "cur < length bs"
  shows "pool_inv psize F (pool\<lparr>pl_blocks := bs, pl_current := cur\<rparr>) m"
proof -
  note I = pool_invD [OF inv]
  let ?p = "pool\<lparr>pl_blocks := bs, pl_current := cur\<rparr>" and ?f = "bk_base (hd (pl_blocks pool))"
  have m: "map bk_base bs = map bk_base (pl_blocks pool)"
    using s by (induction rule: list_all2_induct) auto
  have f: "bk_base (hd bs) = ?f"
    using m I(12) by (metis list.map_disc_iff list.map_sel(1))
  have o: "owned ?p = owned pool" by (simp add: owned_def m)
  have b1: "\<exists>c \<in> set (pl_blocks pool). same_block b c" if "b \<in> set bs" for b
    using s that by (induction rule: list_all2_induct) auto
  have b2: "\<exists>b \<in> set bs. same_block b c" if "c \<in> set (pl_blocks pool)" for c
    using s that by (induction rule: list_all2_induct) auto
  show ?thesis
  proof (rule pool_invI)
    fix b assume "b \<in> set (pl_blocks ?p)"
    then obtain c where "c \<in> set (pl_blocks pool)" "same_block b c" using b1 by auto
    then show "block_good psize (bk_base (hd (pl_blocks ?p))) (pm_live m) b"
      using I(6) [of c] f by (simp add: block_good_def header_def)
  next
    fix l assume "l \<in> set (map fst (pl_large ?p))"
    then obtain c where c: "c \<in> set (pl_blocks pool)" "bk_base c + header ?f c \<le> l"
        "l + SIZEOF_LARGE \<le> bk_last c"
      using I(8) by (fastforce simp: entry_in_def)
    then obtain b where "b \<in> set bs" "same_block b c" using b2 by blast
    then show "entry_in (bk_base (hd (pl_blocks ?p))) (pl_blocks ?p) l"
      using c f unfolding entry_in_def by (intro bexI [of _ b]) (auto simp: header_def)
  qed (use I(1-5,7,9-11) c in \<open>simp_all add: o\<close>)
qed

text \<open>A further block, allocated with the size of the first.\<close>

lemma new_block_inv:
  assumes ok: "alloc_ok alloc" and inv: "pool_inv psize F pool m"
    and al: "memalign alloc NGX_POOL_ALIGNMENT psize m = Some (p, m')"
    and pool': "pool' = pool\<lparr>pl_blocks := pl_blocks pool @
      [\<lparr>bk_base = p, bk_last = p + SIZEOF_POOL_DATA + SIZEOF_LARGE, bk_end = p + psize, bk_failed = 0\<rparr>]\<rparr>"
  shows "pool_inv psize F pool' m'" "fresh_entry pool' (p + SIZEOF_POOL_DATA)" "16 dvd p"
proof -
  note I = pool_invD [OF inv] and M = memalign_ok [OF ok pool_invD(1) [OF inv] al]
  let ?f = "bk_base (hd (pl_blocks pool))"
  let ?new = "\<lparr>bk_base = p, bk_last = p + SIZEOF_POOL_DATA + SIZEOF_LARGE, bk_end = p + psize, bk_failed = 0\<rparr>"
  have f: "bk_base (hd (pl_blocks pool')) = ?f"
    using I(12) by (simp add: pool')
  show d: "16 dvd p" using M(5) by (simp add: NGX_POOL_ALIGNMENT_def)
  have "?f \<in> set (owned pool)" using I(12) by (auto simp: owned_def)
  then have pf: "p \<noteq> ?f" and po: "p \<notin> set (owned pool)"
    using I(10) M(8) by auto
  have d8: "8 dvd p + SIZEOF_POOL_DATA + SIZEOF_LARGE"
    using d unfolding SIZEOF_POOL_DATA_def SIZEOF_LARGE_def by presburger
  have g: "block_good psize ?f (pm_live m') ?new"
    using pf d d8 I(2) M(2) by (auto simp: block_good_def header_def SIZEOF_POOL_DATA_def SIZEOF_LARGE_def)
  have o: "set (owned pool') = insert p (set (owned pool))"
    by (auto simp: owned_def pool')
  show "pool_inv psize F pool' m'"
  proof (rule pool_invI)
    fix b assume "b \<in> set (pl_blocks pool')"
    then have "b = ?new \<or> b \<in> set (pl_blocks pool)" by (auto simp: pool')
    then show "block_good psize (bk_base (hd (pl_blocks pool'))) (pm_live m') b"
      using g I(6) [of b] f M(2) by (auto simp: block_good_def)
  next
    fix l assume "l \<in> set (map fst (pl_large pool'))"
    then have "entry_in ?f (pl_blocks pool) l" using I(8) by (simp add: pool')
    then show "entry_in (bk_base (hd (pl_blocks pool'))) (pl_blocks pool') l"
      unfolding f by (auto simp: entry_in_def pool')
  next
    show "distinct (owned pool')"
      using I(9) po by (auto simp: owned_def pool')
    show "set (owned pool') \<subseteq> fst ` set (pm_live m')"
      using I(10) o M(2) by auto
    have "filter (\<lambda>x. fst x \<notin> set (owned pool')) (pm_live m) = filter (\<lambda>x. fst x \<notin> set (owned pool)) (pm_live m)"
      using M(8) o by (intro filter_cong) auto
    then show "filter (\<lambda>x. fst x \<notin> set (owned pool')) (pm_live m') = F"
      using I(11) o M(2) by simp
  qed (use I M(1) in \<open>simp_all add: pool'\<close>)
  have "entry_in ?f (pl_blocks pool') (p + SIZEOF_POOL_DATA)"
    using pf by (auto simp: entry_in_def pool' header_def)
  moreover have "apart (entry_block (p + SIZEOF_POOL_DATA)) (entry_block l)"
    if l: "l \<in> set (map fst (pl_large pool))" for l
  proof -
    obtain c where c: "c \<in> set (pl_blocks pool)" "bk_base c \<le> l" "l + SIZEOF_LARGE \<le> bk_last c"
      using I(8) [OF l] unfolding entry_in_def by (meson add_leD1)
    obtain k where k: "bk_last c \<le> bk_base c + psize" "psize \<le> k" "(bk_base c, k) \<in> set (pm_live m)"
      using I(6) [OF c(1)] by (auto simp: block_good_def)
    have "apart (p, psize) (bk_base c, k)" using M(7) k(3) by blast
    then show ?thesis
      using c k I(2) by (auto simp: SIZEOF_LARGE_def SIZEOF_POOL_DATA_def)
  qed
  ultimately show "fresh_entry pool' (p + SIZEOF_POOL_DATA)"
    unfolding fresh_entry_def f by (simp add: pool')
qed

text \<open>
  What an allocation leaves alone: the live blocks stay live, the contents are the same and the
  pool stays where it is.
\<close>

definition keeps :: "ngx_pool \<times> pmem \<Rightarrow> ngx_pool \<times> pmem \<Rightarrow> bool" where
  "keeps s s' = (set (pm_live (snd s)) \<subseteq> set (pm_live (snd s')) \<and> pm_bytes (snd s') = pm_bytes (snd s) \<and>
    bk_base (hd (pl_blocks (fst s'))) = bk_base (hd (pl_blocks (fst s))))"

lemma palloc_small_inv:
  assumes ok: "alloc_ok alloc" and inv: "pool_inv psize F pool m"
    and r: "ngx_palloc_small alloc SIZEOF_LARGE True pool m = (r, pool', m')"
  shows "case r of None \<Rightarrow> pool' = pool \<and> m' = m
    | Some l \<Rightarrow> pool_inv psize F pool' m' \<and> fresh_entry pool' l \<and> pl_large pool' = pl_large pool \<and>
        keeps (pool, m) (pool', m')"
proof -
  note I = pool_invD [OF inv]
  let ?c = "pl_current pool" and ?bs = "pl_blocks pool"
  show ?thesis
  proof (cases "small_fit SIZEOF_LARGE True (drop ?c ?bs)")
    case (Some ab)
    then obtain a bs' where ab: "small_fit SIZEOF_LARGE True (drop ?c ?bs) = Some (a, bs')"
      by (cases ab) auto
    obtain pre b post where s: "drop ?c ?bs = pre @ b # post"
        "bs' = pre @ b\<lparr>bk_last := a + SIZEOF_LARGE\<rparr> # post"
        "a = ngx_align_ptr (bk_last b) NGX_ALIGNMENT" "SIZEOF_LARGE \<le> size_t (int (bk_end b) - int a)"
      using small_fit_spec [OF ab] by auto
    have e: "?bs = (take ?c ?bs @ pre) @ b # post"
      using s(1) append_take_drop_id [of ?c ?bs] by simp
    then have "b \<in> set ?bs" by (metis in_set_conv_decomp)
    then have g: "8 dvd bk_last b" "bk_last b \<le> bk_end b" "bk_end b = bk_base b + psize"
        "\<exists>k\<ge>psize. (bk_base b, k) \<in> set (pm_live m)"
      using I(6) [of b] by (auto simp: block_good_def)
    have "bk_end b < 2 ^ 63"
      using g(3,4) I(1) unfolding pmem_ok_def by fastforce
    then have a: "a = bk_last b" "a + SIZEOF_LARGE \<le> bk_end b"
      using s(3,4) g(1,2) align_8 size_t_diff [of "bk_last b" "bk_end b"] by auto
    have p': "r = Some a" "pool' = pool\<lparr>pl_blocks := (take ?c ?bs @ pre) @ b\<lparr>bk_last := a + SIZEOF_LARGE\<rparr> # post\<rparr>"
        "m' = m"
      using r ab s(2) by (simp_all add: ngx_palloc_small_def Let_def)
    have "keeps (pool, m) (pool', m')"
      using hd_update [of "take ?c ?bs @ pre" "a + SIZEOF_LARGE" b post] e p' by (simp add: keeps_def)
    then show ?thesis
      using update_block [OF inv e a p'(2)] p' by simp
  next
    case None
    have r2: "ngx_palloc_block alloc SIZEOF_LARGE pool m = (r, pool', m')"
      using r None by (simp add: ngx_palloc_small_def)
    have f: "hd ?bs \<in> set ?bs" using I(12) by simp
    then have e: "bk_end (hd ?bs) = bk_base (hd ?bs) + psize" "bk_end (hd ?bs) < 2 ^ 63"
      using I(6) [OF f] I(1) unfolding block_good_def pmem_ok_def by fastforce+
    then have ps: "size_t (int (bk_end (hd ?bs)) - int (bk_base (hd ?bs))) = psize"
      using size_t_diff [of "bk_base (hd ?bs)" "bk_end (hd ?bs)"] by simp
    show ?thesis
    proof (cases "memalign alloc NGX_POOL_ALIGNMENT psize m")
      case None
      then show ?thesis using r2 ps by (simp add: ngx_palloc_block_def Let_def)
    next
      case (Some pm)
      then obtain p m1 where pm: "memalign alloc NGX_POOL_ALIGNMENT psize m = Some (p, m1)"
        by (cases pm) auto
      obtain cur bs where cf: "count_failed ?c ?c (drop ?c ?bs) = (cur, bs)" by fastforce
      have "?c < ?c + length (drop ?c ?bs)" using I(4) by simp
      from count_failed_spec [OF cf this]
      have l2: "list_all2 same_block bs (drop ?c ?bs)" and "cur < ?c + length (drop ?c ?bs)" by blast+
      then have cur: "cur < length ?bs" using I(4) by simp
      have "list_all2 same_block (take ?c ?bs) (take ?c ?bs)" by (simp add: list_all2_same)
      from list_all2_appendI [OF this l2]
      have l3: "list_all2 same_block (take ?c ?bs @ bs) ?bs" by (simp only: append_take_drop_id)
      let ?q = "pool\<lparr>pl_blocks := take ?c ?bs @ bs, pl_current := cur\<rparr>"
      have "cur < length (take ?c ?bs @ bs)"
        unfolding list_all2_lengthD [OF l3] by (rule cur)
      then have q: "pool_inv psize F ?q m" by (rule same_blocks_inv [OF inv l3])
      let ?q' = "?q\<lparr>pl_blocks := pl_blocks ?q @ [\<lparr>bk_base = p,
        bk_last = p + SIZEOF_POOL_DATA + SIZEOF_LARGE, bk_end = p + psize, bk_failed = 0\<rparr>]\<rparr>"
      note N = new_block_inv [OF ok q pm refl]
      have "8 dvd p + SIZEOF_POOL_DATA"
        using N(3) unfolding SIZEOF_POOL_DATA_def by presburger
      then have "ngx_align_ptr (p + SIZEOF_POOL_DATA) NGX_ALIGNMENT = p + SIZEOF_POOL_DATA"
        by (rule align_8)
      then have "r = Some (p + SIZEOF_POOL_DATA)" "m' = m1" "pool' = ?q'"
        using r2 pm ps cf by (simp_all add: ngx_palloc_block_def Let_def, cases pool, auto)
      moreover have "bk_base (hd (take ?c ?bs @ bs)) = bk_base (hd ?bs)" "take ?c ?bs @ bs \<noteq> []"
        using l3 I(12) by (cases ?bs; force simp: list_all2_Cons2)+
      then have "keeps (pool, m) (?q', m1)"
        using memalign_ok(2,3) [OF ok I(1) pm] by (auto simp: keeps_def hd_append)
      ultimately show ?thesis
        using N(1,2) by simp
    qed
  qed
qed

section \<open>Operations keep the invariant\<close>

lemma malloc_inv:
  assumes ok: "alloc_ok alloc" and inv: "pool_inv psize F pool m"
    and al: "memalign alloc al n m = Some (p, m')"
  shows "pool_inv psize ((p, n) # F) pool m'"
proof -
  note I = pool_invD [OF inv] and M = memalign_ok [OF ok pool_invD(1) [OF inv] al]
  show ?thesis
  proof (rule pool_invI)
    fix b assume "b \<in> set (pl_blocks pool)"
    then show "block_good psize (bk_base (hd (pl_blocks pool))) (pm_live m') b"
      using I(6) [of b] M(2) by (auto simp: block_good_def)
  next
    show "set (owned pool) \<subseteq> fst ` set (pm_live m')" using I(10) M(2) by auto
    have "p \<notin> set (owned pool)" using I(10) M(8) by auto
    then show "filter (\<lambda>x. fst x \<notin> set (owned pool)) (pm_live m') = (p, n) # F"
      using I(11) M(2) by simp
  qed (use I M(1) in simp_all)
qed

lemma foreign:
  assumes inv: "pool_inv psize ((p, n) # F) pool m"
  shows "(p, n) \<in> set (pm_live m)" "p \<notin> set (owned pool)" "p \<notin> fst ` set F" "0 < p"
proof -
  note I = pool_invD [OF inv]
  have "(p, n) \<in> set (filter (\<lambda>x. fst x \<notin> set (owned pool)) (pm_live m))" using I(11) by simp
  then show *: "(p, n) \<in> set (pm_live m)" "p \<notin> set (owned pool)" by auto
  then show "0 < p" using I(1) by (auto simp: pmem_ok_def)
  have "distinct (map fst (filter (\<lambda>x. fst x \<notin> set (owned pool)) (pm_live m)))"
    using distinct_live [OF I(1)] by (rule distinct_map_filter)
  then show "p \<notin> fst ` set F" using I(11) by simp
qed

text \<open>Entering \<open>p\<close> into the list of large blocks makes it the pool's.\<close>

lemma adopt_inv:
  assumes inv: "pool_inv psize ((p, n) # F) pool m"
    and o: "set (owned pool') = insert p (set (owned pool))" "distinct (owned pool')"
    and e: "sorted_wrt apart (map entry_block (map fst (pl_large pool')))"
      "\<And>l. l \<in> set (map fst (pl_large pool')) \<Longrightarrow> entry_in (bk_base (hd (pl_blocks pool))) (pl_blocks pool) l"
    and same: "pl_blocks pool' = pl_blocks pool" "pl_current pool' = pl_current pool"
      "pl_cleanup pool' = pl_cleanup pool"
  shows "pool_inv psize F pool' m"
proof (rule pool_invI)
  note I = pool_invD [OF inv] and f = foreign [OF inv]
  show "set (owned pool') \<subseteq> fst ` set (pm_live m)"
    using I(10) o(1) f(1) by force
  have "filter (\<lambda>x. fst x \<notin> set (owned pool')) (pm_live m) =
      filter (\<lambda>x. fst x \<noteq> p) (filter (\<lambda>x. fst x \<notin> set (owned pool)) (pm_live m))"
    using o(1) by (auto intro: filter_cong)
  also have "\<dots> = F"
    using I(11) f(3) by (auto simp: filter_id_conv)
  finally show "filter (\<lambda>x. fst x \<notin> set (owned pool')) (pm_live m) = F" .
qed (use pool_invD [OF inv] o(2) e same in simp_all)

lemma add_large_cases:
  assumes ok: "alloc_ok alloc" and inv: "pool_inv psize ((p, n) # F) pool m"
  shows "\<exists>r pool' m'. add_large alloc p pool m = Some (r, pool', m') \<and>
    (case r of None \<Rightarrow> pool' = pool \<and> mfree p m = Some m'
    | Some q \<Rightarrow> q = p \<and> pool_inv psize F pool' m' \<and> keeps (pool, m) (pool', m') \<and>
        p \<in> set (map snd (pl_large pool')))"
proof -
  note f = foreign [OF inv]
  obtain r pool1 m1 where s: "ngx_palloc_small alloc SIZEOF_LARGE True pool m = (r, pool1, m1)"
    by (metis prod_cases3)
  note S = palloc_small_inv [OF ok inv s]
  show ?thesis
  proof (cases r)
    case None
    obtain m' where "mfree p m = Some m'"
      using f(1,4) by (force simp: mfree_def)
    then show ?thesis using S None s by (simp add: add_large_def)
  next
    case (Some l)
    let ?q = "pool1\<lparr>pl_large := (l, p) # pl_large pool1\<rparr>"
    have inv1: "pool_inv psize ((p, n) # F) pool1 m1" and fr: "fresh_entry pool1 l"
      and k: "keeps (pool, m) (pool1, m1)"
      using S Some by simp_all
    note I1 = pool_invD [OF inv1] and f1 = foreign [OF inv1]
    have "pool_inv psize F ?q m1"
    proof (rule adopt_inv [OF inv1])
      show "set (owned ?q) = insert p (set (owned pool1))" using f1(4) by (auto simp: owned_def)
      show "distinct (owned ?q)" using I1(9) f1(2) by (auto simp: owned_def)
      show "sorted_wrt apart (map entry_block (map fst (pl_large ?q)))"
        using I1(7) fr by (auto simp: fresh_entry_def simp del: apart.simps)
      show "\<And>l. l \<in> set (map fst (pl_large ?q)) \<Longrightarrow>
          entry_in (bk_base (hd (pl_blocks pool1))) (pl_blocks pool1) l"
        using I1(8) fr by (auto simp: fresh_entry_def)
    qed simp_all
    then show ?thesis using s Some k by (simp add: add_large_def keeps_def)
  qed
qed

lemma reuse_slot_spec:
  "reuse_slot n p ls = Some ls' \<Longrightarrow> \<exists>pre a post. ls = pre @ (a, 0) # post \<and> ls' = pre @ (a, p) # post"
proof (induction n p ls arbitrary: ls' rule: reuse_slot.induct)
  case (2 n p a q ls)
  show ?case
  proof (cases "q = 0")
    case True
    then show ?thesis using "2.prems" by (intro exI [of _ "[]"]) auto
  next
    case False
    then obtain ls2 where "reuse_slot (Suc n) p ls = Some ls2" "ls' = (a, q) # ls2" "\<not> n > 3"
      using "2.prems" by (auto split: if_splits)
    then show ?thesis
      using "2.IH" False by (metis append_Cons)
  qed
qed simp

lemma palloc_large_cases:
  assumes ok: "alloc_ok alloc" and inv: "pool_inv psize F pool m"
  shows "\<exists>r pool' m'. ngx_palloc_large alloc n pool m = Some (r, pool', m') \<and>
    (case r of None \<Rightarrow> pool' = pool \<and> m' = m
    | Some p \<Rightarrow> pool_inv psize F pool' m' \<and> keeps (pool, m) (pool', m') \<and>
        p \<in> set (map snd (pl_large pool')) \<and> (p, n) \<in> set (pm_live m') \<and>
        (\<forall>b \<in> set (pm_live m). apart (p, n) b))"
proof (cases "malloc alloc n m")
  case None
  then show ?thesis by (simp add: ngx_palloc_large_def)
next
  case (Some pm)
  then obtain p m1 where pm: "malloc alloc n m = Some (p, m1)" by (cases pm) auto
  note M = memalign_ok [OF ok pool_invD(1) [OF inv] pm]
  have inv1: "pool_inv psize ((p, n) # F) pool m1" by (rule malloc_inv [OF ok inv pm])
  note I1 = pool_invD [OF inv1] and f1 = foreign [OF inv1]
  have k1: "keeps (pool, m) (q, m1)" if "pl_blocks q = pl_blocks pool" for q
    using M(2,3) that by (auto simp: keeps_def)
  show ?thesis
  proof (cases "reuse_slot 0 p (pl_large pool)")
    case None
    obtain r pool' m' where a: "add_large alloc p pool m1 = Some (r, pool', m')"
      and c: "case r of None \<Rightarrow> pool' = pool \<and> mfree p m1 = Some m'
        | Some q \<Rightarrow> q = p \<and> pool_inv psize F pool' m' \<and> keeps (pool, m1) (pool', m') \<and>
            p \<in> set (map snd (pl_large pool'))"
      using add_large_cases [OF ok inv1] by blast
    have l: "ngx_palloc_large alloc n pool m = Some (r, pool', m')"
      using pm None a by (simp add: ngx_palloc_large_def)
    show ?thesis
    proof (cases r)
      case None
      then have "pool' = pool \<and> m' = m"
        using c free_fresh [OF ok pool_invD(1) [OF inv] pm] by simp
      then show ?thesis using l None by simp
    next
      case (Some q)
      have "set (pm_live m1) \<subseteq> set (pm_live m')" "pm_bytes m' = pm_bytes m1" "q = p"
        "bk_base (hd (pl_blocks pool')) = bk_base (hd (pl_blocks pool))" "pool_inv psize F pool' m'" "p \<in> set (map snd (pl_large pool'))"
        using c Some by (simp_all add: keeps_def)
      then show ?thesis using l Some M(2,3,7) by (simp add: keeps_def)
    qed
  next
    case (Some ls)
    obtain pre a post where s: "pl_large pool = pre @ (a, 0) # post" "ls = pre @ (a, p) # post"
      using reuse_slot_spec [OF Some] by blast
    let ?q = "pool\<lparr>pl_large := ls\<rparr>"
    have "pool_inv psize F ?q m1"
    proof (rule adopt_inv [OF inv1])
      show "set (owned ?q) = insert p (set (owned pool))" using f1(4) s by (auto simp: owned_def)
      show "distinct (owned ?q)" using I1(9) f1(2) s by (auto simp: owned_def)
      have e: "map fst ls = map fst (pl_large pool)" using s by simp
      show "sorted_wrt apart (map entry_block (map fst (pl_large ?q)))"
        using I1(7) e by simp
      show "\<And>l. l \<in> set (map fst (pl_large ?q)) \<Longrightarrow>
          entry_in (bk_base (hd (pl_blocks pool))) (pl_blocks pool) l"
        using I1(8) e by simp
    qed simp_all
    then show ?thesis
      using pm Some k1 M(2,7) s by (simp add: ngx_palloc_large_def)
  qed
qed

lemma free_large_all: "free_large ls m = free_all (filter (\<lambda>a. a \<noteq> 0) (map snd ls)) m"
  by (induction ls m rule: free_large.induct) (auto intro: bind_option_cong)

lemma free_blocks_all: "free_blocks bs m = free_all (map bk_base bs) m"
  by (induction bs m rule: free_blocks.induct) (auto intro: bind_option_cong)

lemma owned_pos: "pool_inv psize F pool m \<Longrightarrow> 0 \<notin> set (owned pool)"
  using pool_invD(1,10) live_pos by blast

lemma destroy_frees_all:
  assumes inv: "pool_inv psize F pool m"
  shows "ngx_destroy_pool pool m = Some (m\<lparr>pm_live := F\<rparr>)"
proof -
  note I = pool_invD [OF inv]
  let ?as = "filter (\<lambda>a. a \<noteq> 0) (map snd (pl_large pool)) @ map bk_base (pl_blocks pool)"
  have "set ?as = set (owned pool)" "distinct ?as"
    using I(9) by (auto simp: owned_def)
  then have "free_all ?as m = Some (m\<lparr>pm_live := F\<rparr>)"
    using free_all_live [of ?as m] I(10,11) owned_pos [OF inv] by simp
  then show ?thesis
    by (simp add: ngx_destroy_pool_def I(5) free_large_all free_blocks_all free_all_append
        bind_eq_Some_conv cong: bind_option_cong)
qed

text \<open>Resetting frees the large blocks and keeps the blocks of the pool, empty.\<close>

lemma reset_inv:
  assumes inv: "pool_inv psize F pool m"
  shows "\<exists>pool' m'. ngx_reset_pool pool m = Some (pool', m') \<and> pool_inv psize F pool' m' \<and>
    owned pool' = map bk_base (pl_blocks pool) \<and> pm_bytes m' = pm_bytes m"
proof -
  note I = pool_invD [OF inv]
  let ?as = "filter (\<lambda>a. a \<noteq> 0) (map snd (pl_large pool))"
  let ?m = "m\<lparr>pm_live := filter (\<lambda>x. fst x \<notin> set ?as) (pm_live m)\<rparr>"
  let ?r = "\<lambda>b. b\<lparr>bk_last := bk_base b + SIZEOF_POOL, bk_failed := 0\<rparr>"
  let ?q = "pool\<lparr>pl_blocks := map ?r (pl_blocks pool), pl_current := 0, pl_large := []\<rparr>"
  have so: "set (owned pool) = set (map bk_base (pl_blocks pool)) \<union> set ?as"
    and d: "distinct ?as" "set (map bk_base (pl_blocks pool)) \<inter> set ?as = {}"
    using I(9) by (auto simp: owned_def)
  have o: "owned ?q = map bk_base (pl_blocks pool)" by (simp add: owned_def comp_def)
  have "free_all ?as m = Some ?m"
    by (rule free_all_live [OF d(1)]) (use so I(10) in auto)
  then have r: "ngx_reset_pool pool m = Some (?q, ?m)"
    by (simp add: ngx_reset_pool_def free_large_all)
  have "pool_inv psize F ?q ?m"
  proof (rule pool_invI)
    fix b assume "b \<in> set (pl_blocks ?q)"
    then obtain c where c: "c \<in> set (pl_blocks pool)" "b = ?r c" by auto
    have "bk_base c \<notin> set ?as" using d(2) c(1) by auto
    moreover obtain k where "psize \<le> k" "(bk_base c, k) \<in> set (pm_live m)" "16 dvd bk_base c"
        "bk_end c = bk_base c + psize"
      using I(6) [OF c(1)] by (auto simp: block_good_def)
    moreover have "8 dvd bk_base c + SIZEOF_POOL"
      using \<open>16 dvd bk_base c\<close> unfolding SIZEOF_POOL_def by presburger
    ultimately show "block_good psize (bk_base (hd (pl_blocks ?q))) (pm_live ?m) b"
      using I(2) c(2) by (auto simp: block_good_def header_def SIZEOF_POOL_def SIZEOF_POOL_DATA_def)
  next
    show "set (owned ?q) \<subseteq> fst ` set (pm_live ?m)"
    proof
      fix a assume a: "a \<in> set (owned ?q)"
      then have "a \<in> fst ` set (pm_live m)" "a \<notin> set ?as" using so I(10) d(2) o by auto
      then show "a \<in> fst ` set (pm_live ?m)" by force
    qed
    show "filter (\<lambda>x. fst x \<notin> set (owned ?q)) (pm_live ?m) = F"
      unfolding I(11) [symmetric] o so by (simp add: conj_commute)
    show "distinct (owned ?q)" using distinct_blocks [OF inv] o by simp
  qed (use I pmem_ok_filter [OF I(1)] in simp_all)
  then show ?thesis using r o by simp
qed

lemma pfree_walk_absent: "p \<notin> set (map snd ls) \<Longrightarrow> pfree_walk p ls m = Some (- 1, ls, m)"
  by (induction p ls m rule: pfree_walk.induct) auto

lemma pfree_walk_found:
  "p \<in> set (map snd ls) \<Longrightarrow> mfree p m = Some m' \<Longrightarrow>
    \<exists>pre a post. ls = pre @ (a, p) # post \<and> pfree_walk p ls m = Some (0, pre @ (a, 0) # post, m')"
proof (induction p ls m rule: pfree_walk.induct)
  case (2 p a q ls m)
  show ?case
  proof (cases "p = q")
    case True
    then show ?thesis using "2.prems" by (intro exI [of _ "[]"]) auto
  next
    case False
    then obtain pre b post where "ls = pre @ (b, p) # post"
        "pfree_walk p ls m = Some (0, pre @ (b, 0) # post, m')"
      using 2 by auto
    then show ?thesis
      using False by (intro exI [of _ "(a, q) # pre"] exI [of _ b] exI [of _ post]) simp
  qed
qed simp

lemma pfree_inv:
  assumes inv: "pool_inv psize F pool m"
  shows "\<exists>r pool' m'. ngx_pfree p pool m = Some (r, pool', m') \<and> pool_inv psize F pool' m' \<and>
    r = (if p \<in> set (map snd (pl_large pool)) then 0 else - 1) \<and> pm_bytes m' = pm_bytes m \<and>
    pm_live m' = (if p \<in> set (map snd (pl_large pool)) \<and> p \<noteq> 0
      then filter (\<lambda>x. fst x \<noteq> p) (pm_live m) else pm_live m)"
proof (cases "p \<in> set (map snd (pl_large pool))")
  case False
  then show ?thesis using inv by (simp add: ngx_pfree_def pfree_walk_absent)
next
  case True
  note I = pool_invD [OF inv]
  show ?thesis
  proof (cases "p = 0")
    case True
    then have "mfree p m = Some m" by (simp add: mfree_def)
    from pfree_walk_found [OF \<open>p \<in> set (map snd (pl_large pool))\<close> this] True
    have "pfree_walk p (pl_large pool) m = Some (0, pl_large pool, m)" by auto
    then show ?thesis
      using True \<open>p \<in> set (map snd (pl_large pool))\<close> inv by (simp add: ngx_pfree_def)
  next
    case False
    let ?m = "m\<lparr>pm_live := filter (\<lambda>x. fst x \<noteq> p) (pm_live m)\<rparr>"
    have po: "p \<in> set (owned pool)" using True False by (auto simp: owned_def)
    then have "p \<in> fst ` set (pm_live m)" using I(10) by blast
    then have "mfree p m = Some ?m" using False by (simp add: mfree_def)
    from pfree_walk_found [OF True this] obtain pre a post
      where s: "pl_large pool = pre @ (a, p) # post"
        "pfree_walk p (pl_large pool) m = Some (0, pre @ (a, 0) # post, ?m)" by blast
    let ?q = "pool\<lparr>pl_large := pre @ (a, 0) # post\<rparr>"
    have so: "set (owned ?q) = set (owned pool) - {p}" "distinct (owned ?q)"
      using I(9) False s(1) by (auto simp: owned_def)
    have e: "map fst (pl_large ?q) = map fst (pl_large pool)" using s(1) by simp
    have "pool_inv psize F ?q ?m"
    proof (rule pool_invI)
      fix b assume "b \<in> set (pl_blocks ?q)"
      then have b: "b \<in> set (pl_blocks pool)" by simp
      have "bk_base b \<noteq> p" using I(9) b s(1) False by (auto simp: owned_def)
      then show "block_good psize (bk_base (hd (pl_blocks ?q))) (pm_live ?m) b"
        using I(6) [OF b] by (auto simp: block_good_def)
    next
      show "set (owned ?q) \<subseteq> fst ` set (pm_live ?m)"
        using I(10) so(1) by force
      show "filter (\<lambda>x. fst x \<notin> set (owned ?q)) (pm_live ?m) = F"
        unfolding I(11) [symmetric] so(1) using po by (auto intro: filter_cong)
    next
      fix l assume "l \<in> set (map fst (pl_large ?q))"
      then have "l \<in> set (map fst (pl_large pool))" unfolding e .
      then show "entry_in (bk_base (hd (pl_blocks ?q))) (pl_blocks ?q) l" using I(8) by simp
    qed (use I pmem_ok_filter [OF I(1)] so(2) e in simp_all)
    then show ?thesis using True False s(2) by (simp add: ngx_pfree_def)
  qed
qed

lemma pmemalign_inv:
  assumes ok: "alloc_ok alloc" and inv: "pool_inv psize F pool m"
  shows "\<exists>r pool' m'. ngx_pmemalign alloc n al pool m = Some (r, pool', m') \<and> pool_inv psize F pool' m'"
proof (cases "memalign alloc al n m")
  case None
  then show ?thesis using inv by (simp add: ngx_pmemalign_def)
next
  case (Some pm)
  then obtain p m1 where pm: "memalign alloc al n m = Some (p, m1)" by (cases pm) auto
  obtain r pool' m' where a: "add_large alloc p pool m1 = Some (r, pool', m')"
    and c: "case r of None \<Rightarrow> pool' = pool \<and> mfree p m1 = Some m'
      | Some q \<Rightarrow> q = p \<and> pool_inv psize F pool' m' \<and> keeps (pool, m1) (pool', m') \<and>
          p \<in> set (map snd (pl_large pool'))"
    using add_large_cases [OF ok malloc_inv [OF ok inv pm]] by blast
  have "pool_inv psize F pool' m'"
    using c free_fresh [OF ok pool_invD(1) [OF inv] pm] inv by (cases r) auto
  then show ?thesis using pm a by (simp add: ngx_pmemalign_def)
qed

lemma palloc_inv:
  assumes "alloc_ok alloc" "pool_inv psize F pool m"
  shows "\<exists>r pool' m'. ngx_palloc alloc n pool m = Some (r, pool', m') \<and> pool_inv psize F pool' m'"
proof -
  obtain r pool' m' where l: "ngx_palloc_large alloc n pool m = Some (r, pool', m')"
    and c: "case r of None \<Rightarrow> pool' = pool \<and> m' = m | Some p \<Rightarrow> pool_inv psize F pool' m' \<and>
      keeps (pool, m) (pool', m') \<and> p \<in> set (map snd (pl_large pool')) \<and>
      (p, n) \<in> set (pm_live m') \<and> (\<forall>b \<in> set (pm_live m). apart (p, n) b)"
    using palloc_large_cases [OF assms] by blast
  have "pool_inv psize F pool' m'" using c assms(2) by (cases r) auto
  then show ?thesis using l by (simp add: ngx_palloc_def)
qed

lemma bytes_irrelevant: "pool_inv psize F pool (m\<lparr>pm_bytes := b\<rparr>) = pool_inv psize F pool m"
  by (simp add: pool_inv_def pmem_ok_def)

lemma pcalloc_inv:
  assumes "alloc_ok alloc" "pool_inv psize F pool m"
  shows "\<exists>r pool' m'. ngx_pcalloc alloc n pool m = Some (r, pool', m') \<and> pool_inv psize F pool' m'"
proof -
  obtain r pool' m' where "ngx_palloc alloc n pool m = Some (r, pool', m')" "pool_inv psize F pool' m'"
    using palloc_inv [OF assms] by blast
  then show ?thesis
    by (cases r) (auto simp: ngx_pcalloc_def memset_def bytes_irrelevant)
qed

section \<open>Series of operations\<close>

datatype pool_op = Palloc nat | Pnalloc nat | Pcalloc nat | Pmemalign nat nat | Pfree nat | Reset

fun pool_step :: "allocator \<Rightarrow> pool_op \<Rightarrow> ngx_pool \<times> pmem \<Rightarrow> (ngx_pool \<times> pmem) option" where
  "pool_step alloc (Palloc n) (pool, m) = map_option snd (ngx_palloc alloc n pool m)"
| "pool_step alloc (Pnalloc n) (pool, m) = map_option snd (ngx_pnalloc alloc n pool m)"
| "pool_step alloc (Pcalloc n) (pool, m) = map_option snd (ngx_pcalloc alloc n pool m)"
| "pool_step alloc (Pmemalign n al) (pool, m) = map_option snd (ngx_pmemalign alloc n al pool m)"
| "pool_step alloc (Pfree p) (pool, m) = map_option snd (ngx_pfree p pool m)"
| "pool_step alloc Reset (pool, m) = ngx_reset_pool pool m"

fun pool_run :: "allocator \<Rightarrow> pool_op list \<Rightarrow> ngx_pool \<times> pmem \<Rightarrow> (ngx_pool \<times> pmem) option" where
  "pool_run alloc [] s = Some s"
| "pool_run alloc (x # xs) s = Option.bind (pool_step alloc x s) (pool_run alloc xs)"

lemma pool_step_inv:
  assumes "alloc_ok alloc" "pool_inv psize F pool m"
  shows "\<exists>pool' m'. pool_step alloc x (pool, m) = Some (pool', m') \<and> pool_inv psize F pool' m'"
proof (cases x)
  case (Palloc n)
  then show ?thesis using palloc_inv [OF assms, of n] by auto
next
  case (Pnalloc n)
  then show ?thesis using palloc_inv [OF assms, of n] by (auto simp: ngx_palloc_def ngx_pnalloc_def)
next
  case (Pcalloc n)
  then show ?thesis using pcalloc_inv [OF assms, of n] by auto
next
  case (Pmemalign n al)
  then show ?thesis using pmemalign_inv [OF assms, of n al] by auto
next
  case (Pfree p)
  then show ?thesis using pfree_inv [OF assms(2), of p] by auto
next
  case Reset
  then show ?thesis using reset_inv [OF assms(2)] by auto
qed

lemma pool_run_inv:
  "alloc_ok alloc \<Longrightarrow> pool_inv psize F pool m \<Longrightarrow>
    \<exists>pool' m'. pool_run alloc xs (pool, m) = Some (pool', m') \<and> pool_inv psize F pool' m'"
proof (induction xs arbitrary: pool m)
  case (Cons x xs)
  obtain pool1 m1 where "pool_step alloc x (pool, m) = Some (pool1, m1)" "pool_inv psize F pool1 m1"
    using pool_step_inv [OF Cons.prems] by blast
  then show ?case using Cons.IH [OF Cons.prems(1)] by simp
qed simp

lemma create_inv:
  assumes ok: "alloc_ok alloc" "pmem_ok m" and s: "64 \<le> sz" "sz < 2 ^ 57"
    and c: "ngx_create_pool alloc sz m = Some (pool, m')"
  shows "pool_inv sz (pm_live m) pool m'"
proof -
  have "int sz * 64 < 2 ^ 63" using s(2) by simp
  then have n: "size_t (int sz * int SIZEOF_POOL) = sz * 64"
    using s by (simp add: size_t_def SIZEOF_POOL_def)
  obtain p where al: "malloc alloc (sz * 64) m = Some (p, m')"
    and pool: "pl_blocks pool = [\<lparr>bk_base = p, bk_last = p + SIZEOF_POOL, bk_end = p + sz, bk_failed = 0\<rparr>]"
      "pl_current pool = 0" "pl_large pool = []" "pl_cleanup pool = []"
    using c n by (auto simp: ngx_create_pool_def Let_def)
  note M = memalign_ok [OF ok al]
  have o: "owned pool = [p]" by (simp add: owned_def pool)
  have d: "8 dvd p + SIZEOF_POOL"
    using M(5) unfolding SIZEOF_POOL_def by presburger
  show ?thesis
  proof (rule pool_invI)
    show "filter (\<lambda>x. fst x \<notin> set (owned pool)) (pm_live m') = pm_live m"
      using M(2,8) o by (auto simp: filter_id_conv)
    fix b assume "b \<in> set (pl_blocks pool)"
    then show "block_good sz (bk_base (hd (pl_blocks pool))) (pm_live m') b"
      using M(2,5) s(1) d
      by (auto simp: pool block_good_def header_def SIZEOF_POOL_def intro!: exI [of _ "sz * 64"])
  qed (use M(1,2) s o in \<open>simp_all add: pool\<close>)
qed

section \<open>Properties\<close>

text \<open>
  C37. A pool leaks nothing and frees nothing twice. Whatever series of allocations, frees (of any
  address) and resets follows the creation of a pool of 64 or more bytes, no step frees an address
  that is not a live block, the pool's list entries stay inside its blocks, behind their headers,
  and apart from each other, and destroying the pool leaves exactly the blocks that were live
  before it was created. (With fewer than 64 bytes the end lies before the header's end and the
  first entry is written behind the block, see \<^verbatim>\<open>small_pool_overruns\<close>.)
\<close>
theorem pool_frees_everything:
  assumes "alloc_ok alloc" "pmem_ok m" "64 \<le> sz" "sz < 2 ^ 57"
    and "ngx_create_pool alloc sz m = Some (pool, m1)"
  shows "\<exists>pool' m2 m3. pool_run alloc ops (pool, m1) = Some (pool', m2) \<and>
    (\<forall>l \<in> set (map fst (pl_large pool')). entry_in (bk_base (hd (pl_blocks pool'))) (pl_blocks pool') l) \<and>
    sorted_wrt apart (map entry_block (map fst (pl_large pool'))) \<and>
    ngx_destroy_pool pool' m2 = Some m3 \<and> pm_live m3 = pm_live m"
proof -
  obtain pool' m2 where r: "pool_run alloc ops (pool, m1) = Some (pool', m2)"
    and inv: "pool_inv sz (pm_live m) pool' m2"
    using pool_run_inv [OF assms(1) create_inv [OF assms]] by blast
  show ?thesis
    using r destroy_frees_all [OF inv] pool_invD(7,8) [OF inv] by auto
qed

lemma sample_create: "\<exists>pool m. ngx_create_pool bump_alloc 128 empty_mem = Some (pool, m)"
  by (simp add: ngx_create_pool_def memalign_def bump_alloc_def empty_mem_def size_t_def SIZEOF_POOL_def)

theorem pool_frees_everything_witness:
  "\<exists>pool m1 pool' m2 m3. ngx_create_pool bump_alloc 128 empty_mem = Some (pool, m1) \<and>
    pool_run bump_alloc [Palloc 10, Pcalloc 20, Pfree 7, Reset, Pmemalign 3 32] (pool, m1) = Some (pool', m2) \<and>
    ngx_destroy_pool pool' m2 = Some m3 \<and> pm_live m3 = []"
proof -
  obtain pool m1 where c: "ngx_create_pool bump_alloc 128 empty_mem = Some (pool, m1)"
    using sample_create by blast
  show ?thesis
    using c pool_frees_everything
      [OF bump_ok empty_mem_ok _ _ c, of "[Palloc 10, Pcalloc 20, Pfree 7, Reset, Pmemalign 3 32]"]
    by (simp add: empty_mem_def del: pool_run.simps) blast
qed

lemma small_pool_overruns:
  assumes ok: "alloc_ok alloc" "pmem_ok m" and c: "ngx_create_pool alloc 1 m = Some (pool, m1)"
    and a: "ngx_palloc alloc n pool m1 = Some (Some q, pool', m2)"
  shows "\<exists>p. (p, 64) \<in> set (pm_live m1) \<and> pl_large pool' = [(p + 64, q)]"
proof -
  have n: "size_t (int SIZEOF_POOL) = 64" by (simp add: size_t_def SIZEOF_POOL_def)
  obtain p where al: "malloc alloc 64 m = Some (p, m1)"
    and pool: "pl_blocks pool = [\<lparr>bk_base = p, bk_last = p + SIZEOF_POOL, bk_end = p + 1, bk_failed = 0\<rparr>]"
      "pl_current pool = 0" "pl_large pool = []"
    using c by (auto simp: ngx_create_pool_def n Let_def)
  note M = memalign_ok [OF ok al]
  have "8 dvd p + SIZEOF_POOL"
    using M(5) unfolding SIZEOF_POOL_def by presburger
  then have l: "ngx_align_ptr (p + SIZEOF_POOL) NGX_ALIGNMENT = p + 64"
    using align_8 by (simp add: SIZEOF_POOL_def)
  have "SIZEOF_LARGE \<le> size_t (int (p + 1) - int (p + 64))"
    by (simp add: size_t_def SIZEOF_LARGE_def)
  then have s: "small_fit SIZEOF_LARGE True (pl_blocks pool) =
      Some (p + 64, [\<lparr>bk_base = p, bk_last = p + 64 + SIZEOF_LARGE, bk_end = p + 1, bk_failed = 0\<rparr>])"
    using l by (simp add: pool Let_def)
  have "pl_large pool' = [(p + 64, q)]"
    using a s by (auto simp: ngx_palloc_def ngx_palloc_large_def add_large_def ngx_palloc_small_def
        pool(2,3) split: option.splits)
  then show ?thesis using M(2) by auto
qed

section \<open>The pool as an allocator for other components\<close>

text \<open>
  What a client such as the array relies on: a request answers with a new live block of the size
  asked for, apart from all others, or with a null pointer and an unchanged state; live blocks and
  their contents stay as they are. The pool's own first block \<open>own\<close> is live too, and its fill
  pointer \<open>last\<close> lies inside it.
\<close>

locale block_source =
  fixes palloc :: "nat \<Rightarrow> 's \<Rightarrow> (nat option \<times> 's) option"
    and inv :: "'s \<Rightarrow> bool"
    and live :: "'s \<Rightarrow> (nat \<times> nat) set"
    and contents :: "'s \<Rightarrow> nat \<Rightarrow> u8"
    and own :: "'s \<Rightarrow> nat \<Rightarrow> bool"
    and fill :: "'s \<Rightarrow> nat"
  assumes palloc_total: "inv s \<Longrightarrow> palloc n s \<noteq> None"
    and palloc_null: "inv s \<Longrightarrow> palloc n s = Some (None, s') \<Longrightarrow> s' = s"
    and palloc_block: "inv s \<Longrightarrow> palloc n s = Some (Some p, s') \<Longrightarrow>
      inv s' \<and> (p, n) \<in> live s' \<and> live s \<subseteq> live s' \<and> (\<forall>b \<in> live s. apart (p, n) b) \<and>
      contents s' = contents s \<and> own s' = own s"
    and live_bounds: "inv s \<Longrightarrow> (a, k) \<in> live s \<Longrightarrow> 0 < a \<and> a + k < 2 ^ 63"
    and live_apart: "inv s \<Longrightarrow> x \<in> live s \<Longrightarrow> y \<in> live s \<Longrightarrow> x \<noteq> y \<Longrightarrow> apart x y"
    and own_live: "inv s \<Longrightarrow> \<exists>a k. own s a \<and> (a, k) \<in> live s \<and> a < fill s \<and> fill s \<le> a + k"
    and own_unique: "inv s \<Longrightarrow> own s a \<Longrightarrow> own s b \<Longrightarrow> a = b"
begin

text \<open>No client's block ends where the pool's fill pointer stands.\<close>

lemma not_at_fill:
  assumes "inv s" "(e, k) \<in> live s" "\<not> own s e" "0 < k"
  shows "e + k \<noteq> fill s"
proof -
  obtain a l where a: "own s a" "(a, l) \<in> live s" "a < fill s" "fill s \<le> a + l"
    using own_live assms(1) by blast
  then have "(a, l) \<noteq> (e, k)" using assms(3) by auto
  then have "apart (a, l) (e, k)" using live_apart assms(1,2) a(2) by blast
  then show ?thesis using a(3,4) assms(4) by auto
qed

lemma request_keeps: "inv s \<Longrightarrow> palloc n s = Some (r, s') \<Longrightarrow> inv s'"
  using palloc_null palloc_block by (cases r) auto

text \<open>A new block is none of the old ones.\<close>

lemma new_not_own:
  assumes "inv s" "palloc n s = Some (Some p, s')"
  shows "\<not> own s' p"
proof
  assume "own s' p"
  then have "own s p" using palloc_block [OF assms] by simp
  then obtain k where "(p, k) \<in> live s"
    using own_live own_unique assms(1) by blast
  then have "apart (p, n) (p, k)" using palloc_block [OF assms] by blast
  then show False by simp
qed

end

definition pool_ok :: "allocator \<Rightarrow> ngx_pool \<times> pmem \<Rightarrow> bool" where
  "pool_ok alloc s = (alloc_ok alloc \<and> (\<exists>psize F. pool_inv psize F (fst s) (snd s)))"

definition pool_fill :: "ngx_pool \<Rightarrow> nat" where
  "pool_fill pool = bk_last (hd (pl_blocks pool))"

interpretation pool: block_source "\<lambda>n (pool, m). ngx_palloc alloc n pool m" "pool_ok alloc"
  "\<lambda>s. set (pm_live (snd s))" "\<lambda>s. pm_bytes (snd s)" "\<lambda>s a. a = bk_base (hd (pl_blocks (fst s)))"
  "\<lambda>s. pool_fill (fst s)" for alloc
proof (unfold_locales, goal_cases)
  case (1 s n)
  then obtain psize F where i: "alloc_ok alloc" "pool_inv psize F (fst s) (snd s)" by (auto simp: pool_ok_def)
  from palloc_inv [OF i, of n] show ?case by (auto simp: split_beta)
next
  case (2 s n s')
  then obtain psize F where i: "alloc_ok alloc" "pool_inv psize F (fst s) (snd s)" by (auto simp: pool_ok_def)
  from palloc_large_cases [OF i, of n] 2(2) show ?case
    by (auto simp: ngx_palloc_def split_beta prod_eq_iff)
next
  case (3 s n p s')
  then obtain psize F where i: "alloc_ok alloc" "pool_inv psize F (fst s) (snd s)" by (auto simp: pool_ok_def)
  from palloc_large_cases [OF i, of n] 3(2) show ?case
    using i(1) by (auto simp: ngx_palloc_def split_beta keeps_def pool_ok_def simp del: apart.simps) blast
next
  case (4 s a k)
  then show ?case using pool_invD(1) by (fastforce simp: pool_ok_def pmem_ok_def)
next
  case (5 s x y)
  then obtain psize F where "pool_inv psize F (fst s) (snd s)" by (auto simp: pool_ok_def)
  then have "sorted_wrt apart (pm_live (snd s))" using pool_invD(1) by (auto simp: pmem_ok_def)
  from sorted_wrt_sym_pair [OF this apart_sym 5(2-4)] show ?case .
next
  case (6 s)
  then obtain psize F where i: "pool_inv psize F (fst s) (snd s)" by (auto simp: pool_ok_def)
  note I = pool_invD [OF this]
  have "hd (pl_blocks (fst s)) \<in> set (pl_blocks (fst s))" using I(12) by simp
  from I(6) [OF this] show ?case
    by (auto simp: block_good_def pool_fill_def header_def SIZEOF_POOL_def)
next
  case (7 s a b)
  then show ?case by simp
qed

end
