(* ===== verification/Ngx_Array.thy ===== *)
theory Ngx_Array
  imports Ngx_Pool
begin

text \<open>
  The growing array of \<^verbatim>\<open>struct_data/ngx_array\<close> on the memory pool. The pool that an array points
  to is the state its operations run on. The array relies on the contract \<^verbatim>\<open>block_source\<close> of the
  pool, through the interpretation \<^verbatim>\<open>pool\<close>; its elements are the strings of \<^verbatim>\<open>ar_size\<close> bytes at
  their places in the memory.
\<close>

section \<open>State and operations\<close>

record ngx_array =
  ar_addr :: nat
  ar_elts :: nat
  ar_nelts :: u32
  ar_size :: nat
  ar_nalloc :: u32

type_synonym pool_state = "ngx_pool \<times> pmem"

definition SIZEOF_ARRAY :: nat where "SIZEOF_ARRAY = 40"

abbreviation pool_palloc :: "allocator \<Rightarrow> nat \<Rightarrow> pool_state \<Rightarrow> (nat option \<times> pool_state) option" where
  "pool_palloc alloc n s \<equiv> (case s of (pool, m) \<Rightarrow> ngx_palloc alloc n pool m)"

text \<open>\<open>p->d.last += d\<close> for the first block of the pool.\<close>

definition move_fill :: "int \<Rightarrow> pool_state \<Rightarrow> pool_state" where
  "move_fill d s = (case pl_blocks (fst s) of
      [] \<Rightarrow> s
    | b # bs \<Rightarrow> ((fst s)\<lparr>pl_blocks := b\<lparr>bk_last := size_t (int (bk_last b) + d)\<rparr> # bs\<rparr>, snd s))"

definition pool_end :: "pool_state \<Rightarrow> nat" where
  "pool_end s = bk_end (hd (pl_blocks (fst s)))"

text \<open>The result of \<^verbatim>\<open>ngx_array_init\<close> with its status; the number of elements is an \<^verbatim>\<open>int\<close>.\<close>

definition ngx_array_init ::
  "allocator \<Rightarrow> nat \<Rightarrow> int \<Rightarrow> nat \<Rightarrow> pool_state \<Rightarrow> (int \<times> ngx_array \<times> pool_state) option" where
  "ngx_array_init alloc addr n sz s =
    map_option (\<lambda>(p, s).
      (if p = None then - 1 else 0,
        \<lparr>ar_addr = addr, ar_elts = (case p of None \<Rightarrow> 0 | Some e \<Rightarrow> e), ar_nelts = 0, ar_size = sz,
          ar_nalloc = word_of_int n\<rparr>, s))
      (pool_palloc alloc (size_t (n * int sz)) s)"

definition ngx_array_create ::
  "allocator \<Rightarrow> int \<Rightarrow> nat \<Rightarrow> pool_state \<Rightarrow> (ngx_array option \<times> pool_state) option" where
  "ngx_array_create alloc n sz s =
    Option.bind (pool_palloc alloc SIZEOF_ARRAY s) (\<lambda>(p, s).
      case p of
        None \<Rightarrow> Some (None, s)
      | Some addr \<Rightarrow>
          map_option (\<lambda>(r, a, s). (if r \<noteq> 0 then None else Some a, s)) (ngx_array_init alloc addr n sz s))"

definition ngx_array_destroy :: "ngx_array \<Rightarrow> pool_state \<Rightarrow> pool_state" where
  "ngx_array_destroy a s = (
    let n = size_t (int (ar_size a) * int (unat (ar_nalloc a)));
        s = (if ar_elts a + n = pool_fill (fst s) then move_fill (- int n) s else s)
    in if ar_addr a + SIZEOF_ARRAY = pool_fill (fst s)
       then move_fill (int (ar_addr a) - int (pool_fill (fst s))) s else s)"

text \<open>
  \<^verbatim>\<open>ngx_array_push\<close>: a null pointer and nothing changed, or the address of the new element with the
  new array.
\<close>

definition ngx_array_push ::
  "allocator \<Rightarrow> ngx_array \<Rightarrow> pool_state \<Rightarrow> (nat option \<times> ngx_array \<times> pool_state) option" where
  "ngx_array_push alloc a s = (
    let put = (\<lambda>(a, s). (Some (ar_elts a + ar_size a * unat (ar_nelts a)), a\<lparr>ar_nelts := ar_nelts a + 1\<rparr>, s))
    in if ar_nelts a = ar_nalloc a then
      let sz = size_t (int (ar_size a) * int (unat (ar_nalloc a))) in
      if ar_elts a + sz = pool_fill (fst s) \<and> pool_fill (fst s) + ar_size a \<le> pool_end s then
        Some (put (a\<lparr>ar_nalloc := ar_nalloc a + 1\<rparr>, move_fill (int (ar_size a)) s))
      else
        map_option (\<lambda>(p, pool, m). case p of
            None \<Rightarrow> (None, a, (pool, m))
          | Some new \<Rightarrow>
              put (a\<lparr>ar_elts := new, ar_nalloc := ar_nalloc a * 2\<rparr>, (pool, memcpy new (ar_elts a) sz m)))
          (pool_palloc alloc (size_t (2 * int sz)) s)
    else Some (put (a, s)))"

text \<open>
  \<^verbatim>\<open>ngx_array_push_n\<close> with an \<^verbatim>\<open>int\<close> number of elements, which the comparisons with the unsigned
  fields convert.
\<close>

definition push_n_nalloc :: "u32 \<Rightarrow> u32 \<Rightarrow> u32" where
  "push_n_nalloc n nalloc = 2 * (if n \<ge> nalloc then n else nalloc)"

definition ngx_array_push_n ::
  "allocator \<Rightarrow> ngx_array \<Rightarrow> int \<Rightarrow> pool_state \<Rightarrow> (nat option \<times> ngx_array \<times> pool_state) option" where
  "ngx_array_push_n alloc a n s = (
    let put = (\<lambda>(a, s). (Some (ar_elts a + ar_size a * unat (ar_nelts a)),
                          a\<lparr>ar_nelts := ar_nelts a + word_of_int n\<rparr>, s));
        sz = size_t (n * int (ar_size a)); n' = word_of_int n :: u32
    in if ar_nelts a + n' > ar_nalloc a then
      if ar_elts a + size_t (int (ar_size a) * int (unat (ar_nalloc a))) = pool_fill (fst s)
        \<and> pool_fill (fst s) + sz \<le> pool_end s
      then Some (put (a\<lparr>ar_nalloc := ar_nalloc a + n'\<rparr>, move_fill (int sz) s))
      else
        let nalloc = push_n_nalloc n' (ar_nalloc a) in
        map_option (\<lambda>(p, pool, m). case p of
            None \<Rightarrow> (None, a, (pool, m))
          | Some new \<Rightarrow>
              put (a\<lparr>ar_elts := new, ar_nalloc := nalloc\<rparr>,
                (pool, memcpy new (ar_elts a) (size_t (int (unat (ar_nelts a)) * int (ar_size a))) m)))
          (pool_palloc alloc (size_t (sint nalloc * int (ar_size a))) s)
    else Some (put (a, s)))"

section \<open>Elements\<close>

definition bytes_at :: "pmem \<Rightarrow> nat \<Rightarrow> nat \<Rightarrow> u8 list" where
  "bytes_at m p n = map (\<lambda>i. pm_bytes m (p + i)) [0..<n]"

text \<open>The contents of the array: its elements as strings of bytes.\<close>

definition elements :: "ngx_array \<Rightarrow> pool_state \<Rightarrow> u8 list list" where
  "elements a s = map (\<lambda>i. bytes_at (snd s) (ar_elts a + ar_size a * i) (ar_size a)) [0..<unat (ar_nelts a)]"

text \<open>Storing an element at the address that a push returns.\<close>

definition put_bytes :: "nat \<Rightarrow> u8 list \<Rightarrow> pmem \<Rightarrow> pmem" where
  "put_bytes p bs m = m\<lparr>pm_bytes := \<lambda>a.
    if p \<le> a \<and> a < p + length bs then bs ! (a - p) else pm_bytes m a\<rparr>"

definition array_ok :: "allocator \<Rightarrow> ngx_array \<Rightarrow> pool_state \<Rightarrow> bool" where
  "array_ok alloc a s = (pool_ok alloc s \<and> 0 < ar_size a \<and> 0 < ar_nalloc a \<and> ar_nelts a \<le> ar_nalloc a \<and>
    (ar_elts a, ar_size a * unat (ar_nalloc a)) \<in> set (pm_live (snd s)) \<and>
    ar_elts a \<noteq> bk_base (hd (pl_blocks (fst s))))"

section \<open>Growing\<close>

lemma array_block:
  assumes "array_ok alloc a s"
  shows "ar_elts a + ar_size a * unat (ar_nalloc a) < 2 ^ 63"
    "ar_elts a + ar_size a * unat (ar_nalloc a) \<noteq> pool_fill (fst s)"
    "size_t (int (ar_size a) * int (unat (ar_nalloc a))) = ar_size a * unat (ar_nalloc a)"
proof -
  have l: "pool_ok alloc s" "(ar_elts a, ar_size a * unat (ar_nalloc a)) \<in> set (pm_live (snd s))"
    using assms by (auto simp: array_ok_def)
  show b: "ar_elts a + ar_size a * unat (ar_nalloc a) < 2 ^ 63"
    using pool.live_bounds [OF l] by simp
  have "0 < ar_size a * unat (ar_nalloc a)"
    using assms by (simp add: array_ok_def word_gt_0 unat_gt_0)
  then show "ar_elts a + ar_size a * unat (ar_nalloc a) \<noteq> pool_fill (fst s)"
    using pool.not_at_fill [OF l] assms by (auto simp: array_ok_def)
  have "int (ar_size a) * int (unat (ar_nalloc a)) = int (ar_size a * unat (ar_nalloc a))" by simp
  also have "size_t \<dots> = ar_size a * unat (ar_nalloc a)"
    by (rule size_t_nat, rule le_less_trans [OF _ less_trans [OF b]]) simp_all
  finally show "size_t (int (ar_size a) * int (unat (ar_nalloc a))) = ar_size a * unat (ar_nalloc a)" .
qed

lemma pool_ok_bytes: "pool_ok alloc (pool, m\<lparr>pm_bytes := f\<rparr>) = pool_ok alloc (pool, m)"
  by (simp add: pool_ok_def bytes_irrelevant)

lemma grow_ok:
  assumes ok: "array_ok alloc a s"
    and p: "pool_palloc alloc (ar_size a * unat k) s = Some (Some new, (pool, m))"
    and k: "0 < k" "ar_nelts a \<le> k"
  shows "array_ok alloc (a\<lparr>ar_elts := new, ar_nalloc := k\<rparr>) (pool, memcpy new (ar_elts a) n m) \<and>
    (\<forall>i < n. pm_bytes (memcpy new (ar_elts a) n m) (new + i) = pm_bytes (snd s) (ar_elts a + i))"
proof -
  have i: "pool_ok alloc s" using ok by (simp add: array_ok_def)
  note B = pool.palloc_block [OF i p] and N = pool.new_not_own [OF i p]
  have b: "pm_bytes m = pm_bytes (snd s)" using B by simp
  show ?thesis
    using B N ok k by (simp add: array_ok_def memcpy_def pool_ok_bytes b)
qed

text \<open>Counting one more element in an array with room for it.\<close>

lemma count_ok:
  assumes "array_ok alloc a s" "unat (ar_nelts a) + unat n \<le> unat (ar_nalloc a)"
  shows "array_ok alloc (a\<lparr>ar_nelts := ar_nelts a + n\<rparr>) s \<and>
    unat (ar_nelts a + n) = unat (ar_nelts a) + unat n"
proof -
  have "unat (ar_nelts a) + unat n < 2 ^ 32"
    by (rule le_less_trans [OF assms(2)], rule order_less_le_trans [OF unsigned_less]) simp
  then have "unat (ar_nelts a + n) = unat (ar_nelts a) + unat n"
    using unat_add_lem [of "ar_nelts a" n] by simp
  then show ?thesis
    using assms by (simp add: array_ok_def word_le_nat_alt)
qed

definition pushed :: "allocator \<Rightarrow> nat \<Rightarrow> ngx_array \<Rightarrow> pool_state \<Rightarrow> nat option \<times> ngx_array \<times> pool_state \<Rightarrow> bool" where
  "pushed alloc n a s x = (case x of
      (None, a', s') \<Rightarrow> a' = a \<and> s' = s
    | (Some e, a', s') \<Rightarrow> array_ok alloc a' s' \<and> ar_size a' = ar_size a \<and>
        unat (ar_nelts a') = unat (ar_nelts a) + n \<and> e = ar_elts a' + ar_size a * unat (ar_nelts a) \<and>
        (\<forall>i < ar_size a * unat (ar_nelts a).
          pm_bytes (snd s') (ar_elts a' + i) = pm_bytes (snd s) (ar_elts a + i)))"

lemma array_push_cases:
  assumes ok: "array_ok alloc a s" and small: "unat (ar_nalloc a) < 2 ^ 31"
  shows "\<exists>x. ngx_array_push alloc a s = Some x \<and> pushed alloc 1 a s x"
proof (cases "ar_nelts a = ar_nalloc a")
  case False
  then have "unat (ar_nelts a) + unat (1 :: u32) \<le> unat (ar_nalloc a)"
    using ok by (simp add: array_ok_def) (metis Suc_leI order_le_less word_less_nat_alt)
  from count_ok [OF ok this] show ?thesis
    using False ok by (simp add: ngx_array_push_def Let_def pushed_def)
next
  case True
  let ?sz = "ar_size a * unat (ar_nalloc a)"
  note A = array_block [OF ok]
  have "2 * int ?sz = int (2 * ?sz)" by simp
  also have "size_t \<dots> = 2 * ?sz"
  proof (rule size_t_nat)
    have "?sz < 2 ^ 63" by (rule le_less_trans [OF _ A(1)]) simp
    then show "2 * ?sz < 2 ^ 64" by simp
  qed
  finally have two: "size_t (2 * int ?sz) = 2 * ?sz" .
  have k: "unat (ar_nalloc a * 2) = 2 * unat (ar_nalloc a)"
    using small unat_mult_lem [of "ar_nalloc a" 2] by simp
  then have req: "2 * ?sz = ar_size a * unat (ar_nalloc a * 2)" by simp
  have i: "pool_ok alloc s" and pos: "0 < unat (ar_nalloc a)"
    using ok by (simp_all add: array_ok_def word_gt_0 unat_gt_0)
  obtain p pool m where p: "pool_palloc alloc (2 * ?sz) s = Some (p, (pool, m))"
    using pool.palloc_total [OF i, of "2 * ?sz"] by (metis not_None_eq prod_cases3)
  show ?thesis
  proof (cases p)
    case None
    then have "(pool, m) = s" using pool.palloc_null [OF i] p by blast
    then show ?thesis
      using True A p None two by (simp add: ngx_array_push_def Let_def pushed_def)
  next
    case (Some new)
    let ?a = "a\<lparr>ar_elts := new, ar_nalloc := ar_nalloc a * 2\<rparr>"
      and ?m = "memcpy new (ar_elts a) ?sz m"
    have le: "0 < ar_nalloc a * 2" "ar_nelts a \<le> ar_nalloc a * 2"
      using True k pos by (simp_all add: word_le_nat_alt word_less_nat_alt)
    have p': "pool_palloc alloc (ar_size a * unat (ar_nalloc a * 2)) s = Some (Some new, (pool, m))"
      using p Some req by simp
    from grow_ok [OF ok p' le, of ?sz]
    have g: "array_ok alloc ?a (pool, ?m)"
      "\<forall>i < ?sz. pm_bytes ?m (new + i) = pm_bytes (snd s) (ar_elts a + i)" by blast+
    have "unat (ar_nelts ?a) + unat (1 :: u32) \<le> unat (ar_nalloc ?a)"
      using True k pos by simp
    from count_ok [OF g(1) this]
    show ?thesis
      using True A p Some g(2) two by (simp add: ngx_array_push_def Let_def pushed_def)
  qed
qed

lemma sint_small:
  assumes "unat (x :: u32) < 2 ^ 31"
  shows "sint x = int (unat x)"
proof -
  have "int (unat x) < int (2 ^ 31)" using assms by (simp only: of_nat_less_iff)
  then have "uint x < 2 ^ 31" by simp
  moreover have "- (2 ^ 31) \<le> uint x" by (rule order_trans [of _ 0]) simp_all
  ultimately have "signed_take_bit 31 (uint x) = uint x"
    by (rule signed_take_bit_int_eq_self [rotated])
  then show ?thesis by (simp add: sint_uint)
qed

text \<open>The same for \<open>n\<close> elements at once, as long as the counters fit in an \<^verbatim>\<open>int\<close>.\<close>

lemma array_push_n_cases:
  assumes ok: "array_ok alloc a s" and n: "0 < n" "n < 2 ^ 30" and small: "unat (ar_nalloc a) < 2 ^ 30"
    and fits: "2 * max n (unat (ar_nalloc a)) * ar_size a < 2 ^ 64"
  shows "\<exists>x. ngx_array_push_n alloc a (int n) s = Some x \<and> pushed alloc n a s x"
proof -
  let ?n = "word_of_nat n :: u32"
  have un: "unat ?n = n"
    using n(2) by (simp add: unsigned_of_nat take_bit_nat_eq_self)
  have "unat (ar_nelts a) \<le> unat (ar_nalloc a)" using ok by (simp add: array_ok_def word_le_nat_alt)
  then have sum: "unat (ar_nelts a + ?n) = unat (ar_nelts a) + n"
    using unat_add_lem [of "ar_nelts a" ?n] un n small by simp
  show ?thesis
  proof (cases "ar_nelts a + ?n > ar_nalloc a")
    case False
    then have "unat (ar_nelts a) + unat ?n \<le> unat (ar_nalloc a)"
      using sum un by (simp add: word_le_nat_alt not_less)
    from count_ok [OF ok this] show ?thesis
      using False ok un by (simp add: ngx_array_push_n_def Let_def pushed_def)
  next
    case True
    let ?k = "push_n_nalloc ?n (ar_nalloc a)"
    note A = array_block [OF ok]
    have k: "unat ?k = 2 * max n (unat (ar_nalloc a))"
      using un n small unat_mult_lem [of 2 ?n] unat_mult_lem [of 2 "ar_nalloc a"]
      by (simp add: push_n_nalloc_def word_le_nat_alt max_def)
    then have "unat ?k < 2 ^ 31" using n small by simp
    then have sk: "sint ?k = int (unat ?k)" by (rule sint_small)
    have "sint ?k * int (ar_size a) = int (ar_size a * unat ?k)"
      using sk by (simp add: mult.commute)
    also have "size_t \<dots> = ar_size a * unat ?k"
      by (rule size_t_nat) (use fits k in \<open>simp only: mult.commute mult.left_commute\<close>)
    finally have req: "size_t (sint ?k * int (ar_size a)) = ar_size a * unat ?k" .
    have i: "pool_ok alloc s" using ok by (simp add: array_ok_def)
    obtain p pool m where p: "pool_palloc alloc (ar_size a * unat ?k) s = Some (p, (pool, m))"
      using pool.palloc_total [OF i, of "ar_size a * unat ?k"] by (metis not_None_eq prod_cases3)
    show ?thesis
    proof (cases p)
      case None
      then have "(pool, m) = s" using pool.palloc_null [OF i] p by blast
      then show ?thesis
        using True A p None req by (simp add: ngx_array_push_n_def Let_def pushed_def)
    next
      case (Some new)
      let ?sz = "ar_size a * unat (ar_nelts a)"
      let ?a = "a\<lparr>ar_elts := new, ar_nalloc := ?k\<rparr>" and ?m = "memcpy new (ar_elts a) ?sz m"
      have le: "0 < ?k" "ar_nelts a \<le> ?k"
        using k n ok by (simp_all only: word_less_nat_alt word_le_nat_alt array_ok_def) linarith+
      from grow_ok [OF ok p [unfolded Some] le, of ?sz]
      have g: "array_ok alloc ?a (pool, ?m)"
        "\<forall>i < ?sz. pm_bytes ?m (new + i) = pm_bytes (snd s) (ar_elts a + i)" by blast+
      have "unat (ar_nelts ?a) + unat ?n \<le> unat (ar_nalloc ?a)"
        using k un ok by (simp add: array_ok_def word_le_nat_alt max_def)
      note c = count_ok [OF g(1) this]
      have "int (unat (ar_nelts a)) * int (ar_size a) = int ?sz" by simp
      also have "size_t \<dots> = ?sz"
      proof (rule size_t_nat)
        have "?sz \<le> ar_size a * unat (ar_nalloc a)"
          using ok by (simp add: array_ok_def word_le_nat_alt)
        then show "?sz < 2 ^ 64"
          by (rule le_less_trans) (use A(1) in simp)
      qed
      finally have "size_t (int (unat (ar_nelts a)) * int (ar_size a)) = ?sz" .
      then show ?thesis
        using c True A p Some g(2) req un by (simp add: ngx_array_push_n_def Let_def pushed_def)
    qed
  qed
qed

section \<open>The array as a list\<close>

lemma bytes_at_cong:
  "(\<And>i. i < n \<Longrightarrow> pm_bytes m (p + i) = pm_bytes m' (p' + i)) \<Longrightarrow> bytes_at m p n = bytes_at m' p' n"
  by (simp add: bytes_at_def)

lemma put_bytes_at: "length bs = n \<Longrightarrow> bytes_at (put_bytes p bs m) p n = bs"
  by (rule nth_equalityI) (simp_all add: bytes_at_def put_bytes_def)

lemma elements_put:
  assumes "pushed alloc 1 a s (Some e, a', (pool, m))" and bs: "length bs = ar_size a"
  shows "elements a' (pool, put_bytes e bs m) = elements a s @ [bs]"
proof -
  let ?z = "ar_size a" and ?n = "unat (ar_nelts a)"
  have p: "ar_size a' = ?z" "unat (ar_nelts a') = ?n + 1" "e = ar_elts a' + ?z * ?n"
    "\<And>i. i < ?z * ?n \<Longrightarrow> pm_bytes m (ar_elts a' + i) = pm_bytes (snd s) (ar_elts a + i)"
    using assms(1) by (auto simp: pushed_def)
  have "bytes_at (put_bytes e bs m) (ar_elts a' + ?z * i) ?z = bytes_at (snd s) (ar_elts a + ?z * i) ?z"
    if i: "i < ?n" for i
  proof (rule bytes_at_cong)
    fix j assume j: "j < ?z"
    have "?z * i + j < ?z * Suc i" using j by simp
    also have "\<dots> \<le> ?z * ?n" using i by (intro mult_le_mono2) simp
    finally have lt: "?z * i + j < ?z * ?n" .
    then have "pm_bytes (put_bytes e bs m) (ar_elts a' + ?z * i + j) = pm_bytes m (ar_elts a' + (?z * i + j))"
      by (simp add: put_bytes_def p(3) add.assoc)
    then show "pm_bytes (put_bytes e bs m) (ar_elts a' + ?z * i + j) = pm_bytes (snd s) (ar_elts a + ?z * i + j)"
      using p(4) [OF lt] by (simp add: add.assoc)
  qed
  then show ?thesis
    using put_bytes_at [OF bs, of e m] p(1-3) by (simp add: elements_def)
qed

section \<open>Creating and destroying\<close>

lemma array_create_ok:
  assumes i: "pool_ok alloc s" and n: "0 < n" "n < 2 ^ 31" and z: "0 < sz" "n * sz < 2 ^ 64"
  shows "\<exists>r s'. ngx_array_create alloc (int n) sz s = Some (r, s') \<and> pool_ok alloc s' \<and>
    (case r of None \<Rightarrow> True | Some a \<Rightarrow> array_ok alloc a s' \<and> elements a s' = [] \<and> ar_size a = sz \<and>
      unat (ar_nalloc a) = n)"
proof -
  obtain p s1 where p: "pool_palloc alloc SIZEOF_ARRAY s = Some (p, s1)"
    using pool.palloc_total [OF i] by fastforce
  have i1: "pool_ok alloc s1" by (rule pool.request_keeps [OF i p])
  obtain q s2 where q: "pool_palloc alloc (n * sz) s1 = Some (q, s2)"
    using pool.palloc_total [OF i1] by fastforce
  have i2: "pool_ok alloc s2" by (rule pool.request_keeps [OF i1 q])
  have r: "size_t (int n * int sz) = n * sz"
    using size_t_nat [OF z(2)] by simp
  have u: "unat (word_of_nat n :: u32) = n"
    using n(2) by (simp add: unsigned_of_nat take_bit_nat_eq_self)
  then have "0 < (word_of_nat n :: u32)" using n(1) by (simp add: word_less_nat_alt)
  then show ?thesis
    using p q r i1 i2 u z(1) pool.palloc_block [OF i1] pool.new_not_own [OF i1]
    by (cases p; cases q)
      (auto simp: ngx_array_create_def ngx_array_init_def array_ok_def elements_def mult.commute split_beta)
qed

text \<open>Destroying an array changes nothing: its blocks are not at the fill pointer of the pool.\<close>

lemma array_destroy_nop:
  assumes ok: "array_ok alloc a s"
    and addr: "(ar_addr a, SIZEOF_ARRAY) \<in> set (pm_live (snd s))" "ar_addr a \<noteq> bk_base (hd (pl_blocks (fst s)))"
  shows "ngx_array_destroy a s = s"
proof -
  have "ar_addr a + SIZEOF_ARRAY \<noteq> pool_fill (fst s)"
    using pool.not_at_fill [of alloc s "ar_addr a" SIZEOF_ARRAY] ok addr
    by (simp add: array_ok_def SIZEOF_ARRAY_def)
  then show ?thesis
    using array_block [OF ok] by (simp add: ngx_array_destroy_def Let_def)
qed

text \<open>
  An array created for no elements: doubling 0 bytes gives 0 bytes, and the address that the first
  push returns is that of a block without a byte. The counters then differ, so that the next
  pushes do not even look for room.
\<close>

lemma array_push_empty:
  assumes i: "pool_ok alloc s" and a: "ar_nelts a = 0" "ar_nalloc a = 0" "ar_elts a \<noteq> pool_fill (fst s)"
    and r: "ngx_array_push alloc a s = Some (Some e, a', s')"
  shows "(e, 0) \<in> set (pm_live (snd s'))" "ar_nelts a' = 1" "ar_nalloc a' = 0"
    "\<exists>a''. ngx_array_push alloc a' s' = Some (Some (e + ar_size a), a'', s')"
proof -
  have z: "size_t 0 = 0" by (simp add: size_t_def)
  obtain p pool m where p: "pool_palloc alloc 0 s = Some (p, (pool, m))"
    using pool.palloc_total [OF i, of 0] by (metis not_None_eq prod_cases3)
  then have e: "p = Some e" "a' = a\<lparr>ar_elts := e, ar_nalloc := 0, ar_nelts := 1\<rparr>"
      "s' = (pool, memcpy e (ar_elts a) 0 m)"
    using r a by (auto simp: ngx_array_push_def Let_def z split: option.splits)
  show "(e, 0) \<in> set (pm_live (snd s'))"
    using pool.palloc_block [OF i p [unfolded e(1)]] e(3) by (simp add: memcpy_def)
  show "ar_nelts a' = 1" "ar_nalloc a' = 0" using e(2) by simp_all
  show "\<exists>a''. ngx_array_push alloc a' s' = Some (Some (e + ar_size a), a'', s')"
    using e(2) by (simp add: ngx_array_push_def Let_def)
qed

section \<open>Properties\<close>

text \<open>
  C38. The array is a growing list. On an array with room for at least one element,
  \<^verbatim>\<open>ngx_array_push\<close> returns, either a null pointer with nothing changed (no memory) or the address
  of a place for one element inside the array's block; once the element's bytes are stored there,
  the contents are the old ones followed by the new element, whether the elements had to move to a
  larger block or not. The branch that extends the array in place at the end of the pool is never
  taken, since \<^verbatim>\<open>ngx_palloc\<close> places no block inside the pool. (An array for 0 elements is not
  covered, see \<^verbatim>\<open>array_push_empty\<close>.)
\<close>
theorem array_push_appends:
  assumes "array_ok alloc a s" "unat (ar_nalloc a) < 2 ^ 31" "length bs = ar_size a"
  shows "\<exists>r a' pool m. ngx_array_push alloc a s = Some (r, a', (pool, m)) \<and>
    (case r of
      None \<Rightarrow> a' = a \<and> (pool, m) = s
    | Some e \<Rightarrow> array_ok alloc a' (pool, put_bytes e bs m) \<and>
        elements a' (pool, put_bytes e bs m) = elements a s @ [bs] \<and>
        ar_elts a' \<le> e \<and> e + ar_size a \<le> ar_elts a' + ar_size a' * unat (ar_nalloc a'))"
proof -
  obtain r a' pool m where x: "ngx_array_push alloc a s = Some (r, a', (pool, m))"
    and p: "pushed alloc 1 a s (r, a', (pool, m))"
    using array_push_cases [OF assms(1,2)] by (metis prod_cases4)
  show ?thesis
  proof (cases r)
    case None
    then show ?thesis using x p by (cases s) (auto simp: pushed_def)
  next
    case (Some e)
    have ok: "array_ok alloc a' (pool, m)" and e: "e = ar_elts a' + ar_size a * unat (ar_nelts a)"
      and n: "unat (ar_nelts a') = Suc (unat (ar_nelts a))" "ar_size a' = ar_size a"
      using p Some by (simp_all add: pushed_def)
    have "array_ok alloc a' (pool, put_bytes e bs m)"
      using ok by (simp add: array_ok_def put_bytes_def pool_ok_bytes)
    moreover have "Suc (unat (ar_nelts a)) \<le> unat (ar_nalloc a')"
      using ok n(1) by (simp add: array_ok_def word_le_nat_alt)
    then have "ar_size a * Suc (unat (ar_nelts a)) \<le> ar_size a * unat (ar_nalloc a')"
      by (rule mult_le_mono2)
    ultimately show ?thesis
      using x p Some elements_put [of alloc a s e a' pool m bs] assms(3) e n by simp
  qed
qed

definition sample_pool :: pool_state where
  "sample_pool = the (ngx_create_pool bump_alloc 128 empty_mem)"

lemma sample_pool_ok: "pool_ok bump_alloc sample_pool"
proof -
  obtain pool m where c: "ngx_create_pool bump_alloc 128 empty_mem = Some (pool, m)"
    using sample_create by blast
  have "pool_inv 128 (pm_live empty_mem) pool m"
    by (rule create_inv [OF bump_ok empty_mem_ok _ _ c]) simp_all
  then show ?thesis using c bump_ok by (auto simp: sample_pool_def pool_ok_def)
qed

lemma sample_array_exists:
  "map_option (\<lambda>(a, _). a \<noteq> None) (ngx_array_create bump_alloc 2 3 sample_pool) = Some True"
  by (simp add: sample_pool_def ngx_create_pool_def memalign_def bump_alloc_def empty_mem_def size_t_def
      SIZEOF_POOL_def SIZEOF_ARRAY_def SIZEOF_LARGE_def NGX_ALIGNMENT_def ngx_array_create_def
      ngx_array_init_def ngx_palloc_def ngx_palloc_large_def add_large_def ngx_palloc_small_def
      ngx_align_ptr_def Let_def)

theorem array_push_appends_witness:
  "\<exists>a s x. ngx_array_create bump_alloc 2 3 sample_pool = Some (Some a, s) \<and>
    ngx_array_push bump_alloc a s = Some x"
proof -
  obtain a s where c: "ngx_array_create bump_alloc 2 3 sample_pool = Some (Some a, s)"
    using sample_array_exists by auto
  then have a: "array_ok bump_alloc a s" "ar_size a = 3" "unat (ar_nalloc a) = 2"
    using array_create_ok [OF sample_pool_ok, of 2 3] by auto
  have "unat (ar_nalloc a) < 2 ^ 31" "length [1, 2, 3 :: u8] = ar_size a" using a by simp_all
  from array_push_appends [OF a(1) this] c show ?thesis by blast
qed

end
