(* ===== verification/Bitrate.thy ===== *)
theory Bitrate
  imports Prelude "HOL-Library.Signed_Division"
begin

text \<open>
  The bit rate meter of \<^verbatim>\<open>test_bitrate/src/bitrate_calc.c\<close>: per channel a ring of 120 frames, whose
  used part is the window over which size and frame rate are averaged. Signed arithmetic that
  leaves the range of a 32-bit \<^verbatim>\<open>int\<close> is undefined and \<open>None\<close>, and so is a channel number outside
  the table. The frame rate is a \<^verbatim>\<open>float\<close> that nothing in the file computes with further: the
  function that the floating-point expression computes from the frame count and the time span is
  the parameter \<open>fps\<close>.
\<close>

section \<open>State\<close>

definition MAX_FRAME_HIST :: int where "MAX_FRAME_HIST = 120"
definition MAX_CH_NUM :: int where "MAX_CH_NUM = 2"
definition SEQ_NUM :: int where "SEQ_NUM = 40"

record frame_item =
  frame_sz :: int
  frame_pts :: int

record 'f rc_statistics =
  frame_hist :: "frame_item list"
  hist_in_idx :: int
  hist_out_idx :: int
  total_win_size :: int
  frame_cnt :: int
  cur_average_rc :: int
  cur_average_framerate :: 'f

text \<open>The value of a signed expression, if it fits.\<close>

definition int32 :: "int \<Rightarrow> int option" where
  "int32 i = (if - (2 ^ 31) \<le> i \<and> i < 2 ^ 31 then Some i else None)"

definition hist_at :: "'f rc_statistics \<Rightarrow> int \<Rightarrow> frame_item option" where
  "hist_at rc i = (if 0 \<le> i then load (frame_hist rc) (nat i) else None)"

definition with_channel ::
  "int \<Rightarrow> ('f rc_statistics \<Rightarrow> 'f rc_statistics option) \<Rightarrow> 'f rc_statistics list \<Rightarrow> 'f rc_statistics list option" where
  "with_channel ch f g = (
    if 0 \<le> ch \<and> ch < MAX_CH_NUM then
      Option.bind (load g (nat ch)) (\<lambda>rc. Option.bind (f rc) (store g (nat ch)))
    else None)"

section \<open>Operations\<close>

definition check_channel :: "(int \<Rightarrow> int \<Rightarrow> 'f) \<Rightarrow> 'f rc_statistics \<Rightarrow> 'f rc_statistics option" where
  "check_channel fps rc = (
    if frame_cnt rc \<ge> SEQ_NUM then
      let rc = rc\<lparr>cur_average_rc := total_win_size rc sdiv frame_cnt rc\<rparr>;
          start_idx = (hist_in_idx rc + MAX_FRAME_HIST - 1) smod MAX_FRAME_HIST in
      Option.bind (hist_at rc start_idx) (\<lambda>newest.
      Option.bind (hist_at rc (hist_out_idx rc)) (\<lambda>oldest.
      Option.bind (int32 (frame_pts newest - frame_pts oldest)) (\<lambda>tm_delta.
      let rc = rc\<lparr>cur_average_framerate := fps (frame_cnt rc) tm_delta\<rparr>;
          rc = rc\<lparr>frame_cnt := frame_cnt rc - 1\<rparr> in
      Option.bind (int32 (total_win_size rc - frame_sz oldest)) (\<lambda>total.
      let rc = rc\<lparr>total_win_size := total, hist_out_idx := hist_out_idx rc + 1\<rparr> in
      Some (if hist_out_idx rc \<ge> MAX_FRAME_HIST
            then rc\<lparr>hist_out_idx := hist_out_idx rc smod MAX_FRAME_HIST\<rparr> else rc)))))
    else Some rc)"

definition rc_check :: "(int \<Rightarrow> int \<Rightarrow> 'f) \<Rightarrow> int \<Rightarrow> 'f rc_statistics list \<Rightarrow> 'f rc_statistics list option" where
  "rc_check fps ch g = with_channel ch (check_channel fps) g"

definition fill_channel :: "frame_item \<Rightarrow> 'f rc_statistics \<Rightarrow> 'f rc_statistics option" where
  "fill_channel item rc = (
    if frame_cnt rc < MAX_FRAME_HIST - 1 then
      Option.bind (if 0 \<le> hist_in_idx rc then store (frame_hist rc) (nat (hist_in_idx rc)) item else None) (\<lambda>hist.
      let rc = rc\<lparr>frame_hist := hist\<rparr> in
      Option.bind (int32 (total_win_size rc + frame_sz item)) (\<lambda>total.
      let rc = rc\<lparr>total_win_size := total, frame_cnt := frame_cnt rc + 1, hist_in_idx := hist_in_idx rc + 1\<rparr> in
      Some (if hist_in_idx rc \<ge> MAX_FRAME_HIST
            then rc\<lparr>hist_in_idx := hist_in_idx rc smod MAX_FRAME_HIST\<rparr> else rc)))
    else Some rc)"

definition rc_filled :: "int \<Rightarrow> frame_item \<Rightarrow> 'f rc_statistics list \<Rightarrow> 'f rc_statistics list option" where
  "rc_filled ch item g = with_channel ch (fill_channel item) g"

text \<open>The flags say whether the pointers for the results are given.\<close>

definition rc_get_info ::
  "int \<Rightarrow> bool \<Rightarrow> bool \<Rightarrow> 'f rc_statistics list \<Rightarrow> (int \<times> 'f) option option" where
  "rc_get_info ch bitrate fps g = (
    if bitrate \<and> fps then
      if 0 \<le> ch \<and> ch < MAX_CH_NUM then
        map_option (\<lambda>rc. Some (cur_average_rc rc, cur_average_framerate rc)) (load g (nat ch))
      else None
    else Some None)"

section \<open>The window as a list\<close>

definition window :: "'f rc_statistics \<Rightarrow> frame_item list" where
  "window rc = map (\<lambda>i. frame_hist rc ! nat ((hist_out_idx rc + int i) mod 120)) [0..<nat (frame_cnt rc)]"

definition window_size :: "frame_item list \<Rightarrow> int" where
  "window_size w = sum_list (map frame_sz w)"

text \<open>Frames of less than 16 MB and time stamps that are not negative cannot overflow.\<close>

definition item_ok :: "frame_item \<Rightarrow> bool" where
  "item_ok f = (0 \<le> frame_sz f \<and> frame_sz f < 2 ^ 24 \<and> 0 \<le> frame_pts f \<and> frame_pts f < 2 ^ 31)"

definition rc_inv :: "'f rc_statistics \<Rightarrow> bool" where
  "rc_inv rc = (length (frame_hist rc) = 120 \<and> 0 \<le> frame_cnt rc \<and> frame_cnt rc \<le> 119 \<and>
    0 \<le> hist_out_idx rc \<and> hist_out_idx rc < 120 \<and>
    hist_in_idx rc = (hist_out_idx rc + frame_cnt rc) mod 120 \<and>
    total_win_size rc = window_size (window rc) \<and> (\<forall>f \<in> set (window rc). item_ok f))"

text \<open>What the two operations do to the window, and the average that the check reports.\<close>

definition spec_fill :: "frame_item \<Rightarrow> frame_item list \<Rightarrow> frame_item list" where
  "spec_fill item w = (if length w < 119 then w @ [item] else w)"

definition spec_check :: "frame_item list \<times> int \<Rightarrow> frame_item list \<times> int" where
  "spec_check = (\<lambda>(w, avg). if length w \<ge> 40 then (tl w, window_size w div int (length w)) else (w, avg))"

lemma window_bound:
  assumes "\<forall>f \<in> set w. item_ok f" "length w \<le> 119"
  shows "0 \<le> window_size w" "window_size w < 2 ^ 31 - 2 ^ 24"
proof -
  have "\<forall>f \<in> set w. item_ok f \<Longrightarrow> 0 \<le> window_size w \<and> window_size w \<le> int (length w) * 2 ^ 24" for w
    by (induction w) (auto simp: window_size_def item_ok_def)
  then have "0 \<le> window_size w" "window_size w \<le> int (length w) * 2 ^ 24"
    using assms(1) by auto
  then show "0 \<le> window_size w" "window_size w < 2 ^ 31 - 2 ^ 24" using assms(2) by auto
qed

lemma length_window: "rc_inv rc \<Longrightarrow> length (window rc) = nat (frame_cnt rc)"
  by (simp add: window_def)

lemma ring_slot_neq:
  fixes j c q :: int
  assumes "0 \<le> j" "j < c" "c < 120"
  shows "(q + j) mod 120 \<noteq> (q + c) mod 120"
proof
  assume "(q + j) mod 120 = (q + c) mod 120"
  then have "120 dvd (q + c) - (q + j)" by (metis mod_eq_dvd_iff)
  then have "120 dvd c - j" by simp
  then show False using assms by (auto dest: zdvd_imp_le)
qed

lemma fill_refines:
  assumes inv: "rc_inv rc" and item: "item_ok item"
  shows "\<exists>rc'. fill_channel item rc = Some rc' \<and> rc_inv rc' \<and> window rc' = spec_fill item (window rc) \<and>
    cur_average_rc rc' = cur_average_rc rc"
proof (cases "frame_cnt rc < 119")
  case False
  then show ?thesis
    using inv by (simp add: fill_channel_def spec_fill_def length_window MAX_FRAME_HIST_def)
next
  case True
  let ?i = "hist_in_idx rc" and ?o = "hist_out_idx rc" and ?c = "frame_cnt rc"
  have r: "length (frame_hist rc) = 120" "0 \<le> ?c" "0 \<le> ?o" "?o < 120" "?i = (?o + ?c) mod 120"
    "total_win_size rc = window_size (window rc)" "\<forall>f \<in> set (window rc). item_ok f"
    using inv by (auto simp: rc_inv_def)
  have i: "0 \<le> ?i" "?i < 120" using r(5) by simp_all
  let ?h = "(frame_hist rc)[nat ?i := item]"
  have "length (window rc) \<le> 119" using length_window [OF inv] True by simp
  from window_bound [OF r(7) this]
  have b: "int32 (total_win_size rc + frame_sz item) = Some (total_win_size rc + frame_sz item)"
    using r(6) item by (simp add: int32_def item_ok_def)
  let ?rc = "rc\<lparr>frame_hist := ?h, total_win_size := total_win_size rc + frame_sz item,
    frame_cnt := ?c + 1, hist_in_idx := (?i + 1) mod 120\<rparr>"
  have f: "fill_channel item rc = Some ?rc"
    using True i r(1) b
    by (auto simp: fill_channel_def MAX_FRAME_HIST_def store_def Let_def smod_int_alt_def)
  have w: "window ?rc = window rc @ [item]"
  proof -
    have n: "nat (?c + 1) = Suc (nat ?c)" using r(2) by simp
    have "?h ! nat ((?o + int j) mod 120) = frame_hist rc ! nat ((?o + int j) mod 120)" if "j < nat ?c" for j
    proof (rule nth_list_update_neq)
      have "(?o + int j) mod 120 \<noteq> ?i"
        using ring_slot_neq [of "int j" ?c ?o] that True r(5) by simp
      then show "nat ?i \<noteq> nat ((?o + int j) mod 120)"
        using i(1) by (simp add: eq_nat_nat_iff)
    qed
    moreover have "?h ! nat ((?o + int (nat ?c)) mod 120) = item"
      using r(1,2,5) i by simp
    ultimately show ?thesis by (simp add: window_def n)
  qed
  have "rc_inv ?rc"
    using r True w item by (auto simp: rc_inv_def window_size_def mod_simps algebra_simps)
  then show ?thesis
    using f w True length_window [OF inv] by (simp add: spec_fill_def)
qed

lemma check_refines:
  assumes inv: "rc_inv rc"
  shows "\<exists>rc'. check_channel fps rc = Some rc' \<and> rc_inv rc' \<and>
    (window rc', cur_average_rc rc') = spec_check (window rc, cur_average_rc rc)"
proof (cases "40 \<le> frame_cnt rc")
  case False
  then have "\<not> 40 \<le> length (window rc)"
    unfolding length_window [OF inv] by linarith
  then show ?thesis
    using False inv by (simp add: check_channel_def spec_check_def SEQ_NUM_def)
next
  case True
  let ?i = "hist_in_idx rc" and ?o = "hist_out_idx rc" and ?c = "frame_cnt rc"
  have r: "length (frame_hist rc) = 120" "0 \<le> ?c" "?c \<le> 119" "0 \<le> ?o" "?o < 120" "?i = (?o + ?c) mod 120"
    "total_win_size rc = window_size (window rc)" "\<forall>f \<in> set (window rc). item_ok f"
    using inv by (auto simp: rc_inv_def)
  let ?old = "frame_hist rc ! nat ?o" and ?s = "(?i + 119) mod 120"
  let ?new = "frame_hist rc ! nat ?s"
  have n: "nat ?c = Suc (nat (?c - 1))" using True by simp
  have w: "window rc = ?old # tl (window rc)"
    using r(4,5) by (simp add: window_def n upt_conv_Cons del: upt_Suc)
  have s: "?s = (?o + (?c - 1)) mod 120"
  proof -
    have "?s = ((?o + (?c - 1)) + 120) mod 120"
      using r(6) by (simp add: mod_simps algebra_simps)
    then show ?thesis by (simp only: mod_add_self2)
  qed
  have "?new = window rc ! nat (?c - 1)"
    using s True by (simp add: window_def)
  moreover have "nat (?c - 1) < length (window rc)"
    using length_window [OF inv] True by simp
  ultimately have new: "item_ok ?new" using r(8) nth_mem by metis
  have old: "item_ok ?old" using r(8) w by (metis list.set_intros(1))
  have rest: "window_size (window rc) = frame_sz ?old + window_size (tl (window rc))"
    by (subst w) (simp add: window_size_def)
  have "length (tl (window rc)) \<le> 119" using length_window [OF inv] r(3) by simp
  moreover have items: "\<forall>f \<in> set (tl (window rc)). item_ok f"
    using r(8) w by (metis list.set_intros(2))
  ultimately have bd: "0 \<le> window_size (tl (window rc))" "window_size (tl (window rc)) < 2 ^ 31 - 2 ^ 24"
    using window_bound by blast+
  let ?rc = "rc\<lparr>cur_average_rc := total_win_size rc div ?c,
    cur_average_framerate := fps ?c (frame_pts ?new - frame_pts ?old), frame_cnt := ?c - 1,
    total_win_size := total_win_size rc - frame_sz ?old, hist_out_idx := (?o + 1) mod 120\<rparr>"
  have dv: "total_win_size rc sdiv ?c = total_win_size rc div ?c"
    using r(7) rest bd(1) old True by (simp add: signed_divide_int_def item_ok_def sgn_if)
  have i0: "0 \<le> ?i" "?i < 120" using r(6) by simp_all
  have at: "hist_at (rc\<lparr>cur_average_rc := a\<rparr>) ?s = Some ?new" "hist_at (rc\<lparr>cur_average_rc := a\<rparr>) ?o = Some ?old" for a
    using r(1,4,5) by (simp_all add: hist_at_def load_def)
  have fits: "int32 (frame_pts ?new - frame_pts ?old) = Some (frame_pts ?new - frame_pts ?old)"
    "int32 (total_win_size rc - frame_sz ?old) = Some (total_win_size rc - frame_sz ?old)"
    using new old bd rest r(7) by (simp_all add: int32_def item_ok_def)
  have sm: "(?i + 120 - 1) smod 120 = ?s" "(119 + ?i) smod 120 = ?s"
    using i0 by (simp_all add: smod_int_alt_def add.commute)
  have f: "check_channel fps rc = Some ?rc"
  proof (cases "?o = 119")
    case True
    then show ?thesis
      unfolding check_channel_def SEQ_NUM_def MAX_FRAME_HIST_def
      using \<open>40 \<le> ?c\<close> at fits by (simp add: Let_def sm dv)
  next
    case False
    then have "\<not> 120 \<le> ?o + 1" "(?o + 1) mod 120 = ?o + 1" using r(4,5) by simp_all
    then show ?thesis
      unfolding check_channel_def SEQ_NUM_def MAX_FRAME_HIST_def
      using \<open>40 \<le> ?c\<close> at fits by (simp add: Let_def sm dv)
  qed
  have w': "window ?rc = tl (window rc)"
    using n by (simp add: window_def upt_conv_Cons map_Suc_upt [symmetric] mod_simps algebra_simps
        del: upt_Suc map_Suc_upt)
  have "rc_inv ?rc"
  proof -
    have "((?o + 1) mod 120 + (?c - 1)) mod 120 = (?o + 1 + (?c - 1)) mod 120" by (rule mod_add_left_eq)
    also have "\<dots> = ?i" using r(6) by simp
    finally have "?i = ((?o + 1) mod 120 + (?c - 1)) mod 120" by simp
    then show ?thesis
      unfolding rc_inv_def w' using r(1,3,7) True items rest by simp
  qed
  then show ?thesis
    using f w' True length_window [OF inv] r(7) by (auto simp: spec_check_def)
qed

section \<open>Series of calls\<close>

datatype rc_call = Filled frame_item | Check

fun rc_step :: "(int \<Rightarrow> int \<Rightarrow> 'f) \<Rightarrow> int \<Rightarrow> rc_call \<Rightarrow> 'f rc_statistics list \<Rightarrow> 'f rc_statistics list option" where
  "rc_step fps ch (Filled item) g = rc_filled ch item g"
| "rc_step fps ch Check g = rc_check fps ch g"

fun rc_run :: "(int \<Rightarrow> int \<Rightarrow> 'f) \<Rightarrow> (int \<times> rc_call) list \<Rightarrow> 'f rc_statistics list \<Rightarrow> 'f rc_statistics list option" where
  "rc_run fps [] g = Some g"
| "rc_run fps ((ch, x) # xs) g = Option.bind (rc_step fps ch x g) (rc_run fps xs)"

fun spec_step :: "rc_call \<Rightarrow> frame_item list \<times> int \<Rightarrow> frame_item list \<times> int" where
  "spec_step (Filled item) (w, avg) = (spec_fill item w, avg)"
| "spec_step Check s = spec_check s"

fun call_ok :: "int \<times> rc_call \<Rightarrow> bool" where
  "call_ok (ch, Filled item) = (0 \<le> ch \<and> ch < 2 \<and> item_ok item)"
| "call_ok (ch, Check) = (0 \<le> ch \<and> ch < 2)"

definition meters_ok :: "'f rc_statistics list \<Rightarrow> bool" where
  "meters_ok g = (length g = 2 \<and> (\<forall>rc \<in> set g. rc_inv rc))"

definition meter :: "'f rc_statistics \<Rightarrow> frame_item list \<times> int" where
  "meter rc = (window rc, cur_average_rc rc)"

lemma with_channel_refines:
  assumes g: "meters_ok g" and ch: "0 \<le> ch" "ch < 2"
    and f: "\<And>rc. rc_inv rc \<Longrightarrow> \<exists>rc'. f rc = Some rc' \<and> rc_inv rc' \<and> meter rc' = h (meter rc)"
  shows "\<exists>g'. with_channel ch f g = Some g' \<and> meters_ok g' \<and>
    map meter g' = (map meter g)[nat ch := h (map meter g ! nat ch)]"
proof -
  have l: "nat ch < length g" using g ch by (simp add: meters_ok_def)
  then have "rc_inv (g ! nat ch)" using g by (simp add: meters_ok_def)
  then obtain rc' where "f (g ! nat ch) = Some rc'" "rc_inv rc'" "meter rc' = h (meter (g ! nat ch))"
    using f by blast
  then show ?thesis
    using l g ch by (auto simp: with_channel_def MAX_CH_NUM_def load_def store_def meters_ok_def
        map_update dest: set_update_subset_insert [THEN subsetD])
qed

lemma rc_step_refines:
  assumes "meters_ok g" "call_ok (ch, x)"
  shows "\<exists>g'. rc_step fps ch x g = Some g' \<and> meters_ok g' \<and>
    map meter g' = (map meter g)[nat ch := spec_step x (map meter g ! nat ch)]"
proof (cases x)
  case (Filled item)
  then have c: "0 \<le> ch" "ch < 2" "item_ok item" using assms(2) by simp_all
  have "\<exists>rc'. fill_channel item rc = Some rc' \<and> rc_inv rc' \<and> meter rc' = spec_step x (meter rc)"
    if "rc_inv rc" for rc :: "'a rc_statistics"
    using fill_refines [OF that c(3)] Filled by (auto simp: meter_def)
  from with_channel_refines [where h = "spec_step x", OF assms(1) c(1,2) this] show ?thesis
    using Filled by (simp add: rc_filled_def)
next
  case Check
  then have c: "0 \<le> ch" "ch < 2" using assms(2) by simp_all
  have "\<exists>rc'. check_channel fps rc = Some rc' \<and> rc_inv rc' \<and> meter rc' = spec_step x (meter rc)"
    if "rc_inv rc" for rc :: "'a rc_statistics"
    using check_refines [OF that, of fps] Check by (auto simp: meter_def)
  from with_channel_refines [where h = "spec_step x", OF assms(1) c this] show ?thesis
    using Check by (simp add: rc_check_def)
qed

section \<open>Properties\<close>

text \<open>
  C39. The ring and its running total are a sliding window. For every series of \<^verbatim>\<open>rc_filled\<close> and
  \<^verbatim>\<open>rc_check\<close> calls on the two channels, with frames of less than 16 MB and time stamps that are
  not negative, no access leaves the ring and no \<^verbatim>\<open>int\<close> overflows; each channel's window gains the
  frame at its end, unless it has 119 frames already, and a check with 40 or more frames sets the
  average to the sum of the sizes in the window divided by their number and drops the oldest frame.
  A call changes its own channel only.
\<close>
theorem bitrate_window_refines:
  assumes "meters_ok g" and "list_all call_ok calls"
  shows "\<exists>g'. rc_run fps calls g = Some g' \<and> meters_ok g' \<and>
    map meter g' = fold (\<lambda>(ch, x) ms. ms[nat ch := spec_step x (ms ! nat ch)]) calls (map meter g)"
  using assms
proof (induction calls arbitrary: g)
  case (Cons c calls)
  obtain ch x where c: "c = (ch, x)" by fastforce
  obtain g1 where "rc_step fps ch x g = Some g1" "meters_ok g1"
      "map meter g1 = (map meter g)[nat ch := spec_step x (map meter g ! nat ch)]"
    using rc_step_refines [OF Cons.prems(1)] Cons.prems(2) c by fastforce
  then show ?case
    using Cons.IH [of g1] Cons.prems(2) c by simp
qed simp

definition idle_channel :: "int rc_statistics" where
  "idle_channel = \<lparr>frame_hist = replicate 120 \<lparr>frame_sz = 0, frame_pts = 0\<rparr>, hist_in_idx = 0,
    hist_out_idx = 0, total_win_size = 0, frame_cnt = 0, cur_average_rc = 0, cur_average_framerate = 0\<rparr>"

lemma idle_ok: "meters_ok [idle_channel, idle_channel]"
  by (simp add: meters_ok_def rc_inv_def idle_channel_def window_def window_size_def)

theorem bitrate_window_refines_witness:
  "\<exists>g'. rc_run (\<lambda>n t. n * 1000 div t)
      [(0, Filled \<lparr>frame_sz = 7, frame_pts = 0\<rparr>), (1, Check), (0, Filled \<lparr>frame_sz = 9, frame_pts = 40\<rparr>)]
      [idle_channel, idle_channel] = Some g' \<and> map (map frame_sz \<circ> fst \<circ> meter) g' = [[7, 9], []]"
proof -
  let ?calls = "[(0, Filled \<lparr>frame_sz = 7, frame_pts = 0\<rparr>), (1, Check), (0, Filled \<lparr>frame_sz = 9, frame_pts = 40\<rparr>)]"
  have "list_all call_ok ?calls" by (simp add: item_ok_def)
  from bitrate_window_refines [OF idle_ok this, of "\<lambda>n t. n * 1000 div t"]
  obtain g' where g: "rc_run (\<lambda>n t. n * 1000 div t) ?calls [idle_channel, idle_channel] = Some g'"
    and "map meter g' = fold (\<lambda>(ch, x) ms. ms[nat ch := spec_step x (ms ! nat ch)]) ?calls
      (map meter [idle_channel, idle_channel])" by blast
  then have "map meter g' =
      [([\<lparr>frame_sz = 7, frame_pts = 0\<rparr>, \<lparr>frame_sz = 9, frame_pts = 40\<rparr>], 0), ([], 0)]"
    by (simp add: meter_def idle_channel_def window_def spec_fill_def spec_check_def)
  then have "map (map frame_sz \<circ> fst) (map meter g') = [[7, 9], []]" by simp
  then show ?thesis using g by (simp add: comp_assoc)
qed

end
