(* ===== verification/Alist.thy ===== *)
theory Alist
  imports Memory "HOL-Library.Monad_Syntax"
begin

text \<open>
  The allocation list of \<^verbatim>\<open>test_alist/alist.c\<close>: every block carries a canary, the link to the block
  before it and its length behind the bytes of the client. The list lives in the bytes of the
  memory of the theory \<^verbatim>\<open>Memory\<close>; a word read or written outside the live blocks is \<open>None\<close>, so a
  use after free shows. The loops follow links that the client could have overwritten: they are
  partial functions. The mutex that brackets the critical sections is left out, one thread runs.
\<close>

section \<open>Words in memory\<close>

definition inside :: "nat \<Rightarrow> nat \<Rightarrow> pmem \<Rightarrow> bool" where
  "inside a k m = list_ex (\<lambda>(b, n). b \<le> a \<and> a + k \<le> b + n) (pm_live m)"

text \<open>Words of \<open>k\<close> bytes, the least significant first.\<close>

definition word_at :: "nat \<Rightarrow> nat \<Rightarrow> pmem \<Rightarrow> nat option" where
  "word_at k a m = (if inside a k m then Some (\<Sum>i<k. unat (pm_bytes m (a + i)) * 256 ^ i) else None)"

definition put_word :: "nat \<Rightarrow> nat \<Rightarrow> nat \<Rightarrow> pmem \<Rightarrow> pmem option" where
  "put_word k a v m = (
    if inside a k m then
      Some (m\<lparr>pm_bytes := \<lambda>x. if a \<le> x \<and> x < a + k then of_nat (v div 256 ^ (x - a)) else pm_bytes m x\<rparr>)
    else None)"

section \<open>The list\<close>

record alist =
  al_memlist :: nat

definition SOAP_MAXALLOCSIZE :: nat where "SOAP_MAXALLOCSIZE = 0"
definition SOAP_CANARY :: nat where "SOAP_CANARY = 0xC0DE"

text \<open>\<^verbatim>\<open>alist_init\<close> answers 0; a null list is left alone.\<close>

definition alist_init :: "alist option \<Rightarrow> int \<times> alist option" where
  "alist_init l = (0, map_option (\<lambda>al. al\<lparr>al_memlist := 0\<rparr>) l)"

definition alist_malloc ::
  "allocator \<Rightarrow> nat \<Rightarrow> alist \<Rightarrow> pmem \<Rightarrow> (nat option \<times> alist \<times> pmem) option" where
  "alist_malloc alloc n al m = (
    if SOAP_MAXALLOCSIZE > 0 \<and> n > SOAP_MAXALLOCSIZE then Some (None, al, m)
    else if size_t (int n + 2) < n then Some (None, al, m)
    else
      let n = size_t (int n + 2); pad = size_t (- int n) mod 8 in
      if size_t (int n + int pad + 8 + 8) < n then Some (None, al, m)
      else
        let n = size_t (int n + int pad) in
        case malloc alloc (size_t (int n + 8 + 8)) m of
          None \<Rightarrow> Some (None, al, m)
        | Some (p, m) \<Rightarrow> do {
            m \<leftarrow> put_word 2 (p + n - 2) SOAP_CANARY m;
            m \<leftarrow> put_word 8 (p + n) (al_memlist al) m;
            m \<leftarrow> put_word 8 (p + n + 8) n m;
            Some (Some p, al\<lparr>al_memlist := p + n\<rparr>, m)
          })"

definition alist_calloc ::
  "allocator \<Rightarrow> nat \<Rightarrow> alist \<Rightarrow> pmem \<Rightarrow> (nat option \<times> alist \<times> pmem) option" where
  "alist_calloc alloc n al m = do {
    (r, al, m) \<leftarrow> alist_malloc alloc n al m;
    Some (r, al, case r of None \<Rightarrow> m | Some p \<Rightarrow> memset p 0 n m)
  }"

text \<open>The argument of \<^verbatim>\<open>alist_strdup\<close> is a null pointer or the bytes before the terminating zero.\<close>

definition copy_bytes :: "nat \<Rightarrow> u8 list \<Rightarrow> pmem \<Rightarrow> pmem" where
  "copy_bytes p bs m = m\<lparr>pm_bytes := \<lambda>a. if p \<le> a \<and> a < p + length bs then bs ! (a - p) else pm_bytes m a\<rparr>"

definition alist_strdup ::
  "allocator \<Rightarrow> u8 list option \<Rightarrow> alist \<Rightarrow> pmem \<Rightarrow> (nat option \<times> alist \<times> pmem) option" where
  "alist_strdup alloc s al m = (case s of
      None \<Rightarrow> Some (None, al, m)
    | Some s \<Rightarrow>
        let n = length s + 1 in do {
          (r, al, m) \<leftarrow> alist_calloc alloc n al m;
          Some (r, al, case r of None \<Rightarrow> m | Some t \<Rightarrow> memset (t + (n - 1)) 0 1 (copy_bytes t (s @ [0]) m))
        })"

text \<open>
  \<^verbatim>\<open>alist_dealloc\<close> of a block walks with the address of the link it came through: the head of the
  list or the first word behind a block.
\<close>

datatype link = Head | Cell nat

fun read_link :: "link \<Rightarrow> alist \<Rightarrow> pmem \<Rightarrow> nat option" where
  "read_link Head al m = Some (al_memlist al)"
| "read_link (Cell a) al m = word_at 8 a m"

fun write_link :: "link \<Rightarrow> nat \<Rightarrow> alist \<Rightarrow> pmem \<Rightarrow> (alist \<times> pmem) option" where
  "write_link Head v al m = Some (al\<lparr>al_memlist := v\<rparr>, m)"
| "write_link (Cell a) v al m = map_option (Pair al) (put_word 8 a v m)"

partial_function (option) dealloc_walk :: "nat \<Rightarrow> link \<Rightarrow> alist \<Rightarrow> pmem \<Rightarrow> (alist \<times> pmem) option" where
  "dealloc_walk p lk al m =
    Option.bind (read_link lk al m) (\<lambda>q.
    if q = 0 then Some (al, m)
    else
      Option.bind (word_at 2 (q - 2) m) (\<lambda>canary.
      if canary \<noteq> SOAP_CANARY then Some (al, m)
      else
        Option.bind (word_at 8 (q + 8) m) (\<lambda>n.
        if p = size_t (int q - int n) then
          Option.bind (word_at 8 q m) (\<lambda>nx.
          Option.bind (write_link lk nx al m) (\<lambda>(al, m).
          map_option (Pair al) (mfree p m)))
        else dealloc_walk p (Cell q) al m)))"

partial_function (option) dealloc_all :: "alist \<Rightarrow> pmem \<Rightarrow> (alist \<times> pmem) option" where
  "dealloc_all al m = (
    let q = al_memlist al in
    if q = 0 then Some (al, m)
    else
      Option.bind (word_at 2 (q - 2) m) (\<lambda>canary.
      if canary \<noteq> SOAP_CANARY then Some (al, m)
      else
        Option.bind (word_at 8 q m) (\<lambda>nx.
        Option.bind (word_at 8 (q + 8) m) (\<lambda>n.
        Option.bind (mfree (size_t (int q - int n)) m) (\<lambda>m.
        dealloc_all (al\<lparr>al_memlist := nx\<rparr>) m)))))"

text \<open>A null pointer frees everything; without a list nothing happens.\<close>

definition dealloc_list :: "nat \<Rightarrow> alist \<Rightarrow> pmem \<Rightarrow> (alist \<times> pmem) option" where
  "dealloc_list p al m = (if p \<noteq> 0 then dealloc_walk p Head al m else dealloc_all al m)"

definition alist_dealloc :: "nat \<Rightarrow> alist option \<Rightarrow> pmem \<Rightarrow> (alist option \<times> pmem) option" where
  "alist_dealloc p l m = (case l of
      None \<Rightarrow> Some (None, m)
    | Some al \<Rightarrow> map_option (\<lambda>(al, m). (Some al, m)) (dealloc_list p al m))"

definition alist_uninit :: "alist option \<Rightarrow> pmem \<Rightarrow> (alist option \<times> pmem) option" where
  "alist_uninit l m = (case l of None \<Rightarrow> Some (None, m) | Some al \<Rightarrow> alist_dealloc 0 (Some al) m)"

text \<open>\<^verbatim>\<open>echo_alist\<close> with the addresses that it prints.\<close>

partial_function (option) echo_loop :: "alist \<Rightarrow> pmem \<Rightarrow> (nat list \<times> alist) option" where
  "echo_loop al m = (
    let q = al_memlist al in
    if q = 0 then Some ([], al)
    else
      Option.bind (word_at 2 (q - 2) m) (\<lambda>canary.
      if canary \<noteq> SOAP_CANARY then Some ([], al)
      else
        Option.bind (word_at 8 q m) (\<lambda>nx.
        Option.bind (word_at 8 (q + 8) m) (\<lambda>n.
        Option.bind (echo_loop (al\<lparr>al_memlist := nx\<rparr>) m) (\<lambda>(ps, al).
        Some (size_t (int q - int n) # ps, al))))))"

definition echo_alist :: "alist option \<Rightarrow> pmem \<Rightarrow> (nat list \<times> alist option) option" where
  "echo_alist l m = (case l of
      None \<Rightarrow> Some ([], None)
    | Some al \<Rightarrow> map_option (\<lambda>(ps, al). (ps, Some al)) (echo_loop al m))"

declare dealloc_walk.simps [code] dealloc_all.simps [code] echo_loop.simps [code]

section \<open>Reading back what was written\<close>

lemma digits: "(\<Sum>i<k. v div 256 ^ i mod 256 * 256 ^ i) = v mod (256 :: nat) ^ k"
proof (induction k)
  case (Suc k)
  have "v mod 256 ^ Suc k = v div 256 ^ k mod 256 * 256 ^ k + v mod 256 ^ k"
    using mod_mult2_eq [of v "256 ^ k" 256] by (simp add: mult.commute)
  then show ?case using Suc by simp
qed simp

lemma put_word_same:
  assumes "put_word k a v m = Some m'" "v < 256 ^ k"
  shows "word_at k a m' = Some v"
proof -
  have i: "inside a k m" and m': "m' = m\<lparr>pm_bytes := \<lambda>x. if a \<le> x \<and> x < a + k
      then of_nat (v div 256 ^ (x - a)) else pm_bytes m x\<rparr>"
    using assms(1) by (auto simp: put_word_def split: if_splits)
  have "unat (of_nat x :: u8) = x mod 256" for x
    by (simp add: unsigned_of_nat take_bit_nat_def)
  then have "(\<Sum>i<k. unat (pm_bytes m' (a + i)) * 256 ^ i) = (\<Sum>i<k. v div 256 ^ i mod 256 * 256 ^ i)"
    by (simp add: m')
  then show ?thesis
    using i assms(2) digits [of v k] by (simp add: word_at_def m' inside_def)
qed

lemma put_word_frame:
  assumes "put_word k a v m = Some m'"
  shows "pm_live m' = pm_live m" "x < a \<or> a + k \<le> x \<Longrightarrow> pm_bytes m' x = pm_bytes m x"
  using assms by (auto simp: put_word_def split: if_splits)

lemma put_word_total: "inside a k m \<Longrightarrow> \<exists>m'. put_word k a v m = Some m'"
  by (simp add: put_word_def)

lemma word_at_cong:
  assumes "word_at k a m = Some v" "inside a k m'" "\<And>i. i < k \<Longrightarrow> pm_bytes m' (a + i) = pm_bytes m (a + i)"
  shows "word_at k a m' = Some v"
  using assms by (auto simp: word_at_def split: if_splits intro!: sum.cong)

section \<open>Chains\<close>

text \<open>
  A chain of blocks \<open>(p, n)\<close>: the client's bytes, with the canary, are the \<open>n\<close> bytes from \<open>p\<close>,
  followed by the link and the length.
\<close>

definition node :: "pmem \<Rightarrow> nat \<times> nat \<Rightarrow> nat \<Rightarrow> bool" where
  "node m x nx = (case x of (p, n) \<Rightarrow>
    8 \<le> n \<and> (p, n + 16) \<in> set (pm_live m) \<and> word_at 2 (p + n - 2) m = Some SOAP_CANARY \<and>
    word_at 8 (p + n) m = Some nx \<and> word_at 8 (p + n + 8) m = Some n)"

fun addr :: "(nat \<times> nat) list \<Rightarrow> nat \<Rightarrow> nat" where
  "addr [] e = e"
| "addr ((p, n) # xs) e = p + n"

fun chain :: "pmem \<Rightarrow> (nat \<times> nat) list \<Rightarrow> nat \<Rightarrow> bool" where
  "chain m [] e = True"
| "chain m (x # xs) e = (node m x (addr xs e) \<and> chain m xs e)"

lemma addr_append: "addr (xs @ ys) e = addr xs (addr ys e)"
  by (cases xs) auto

lemma chain_append: "chain m (xs @ ys) e \<longleftrightarrow> chain m xs (addr ys e) \<and> chain m ys e"
  by (induction xs) (auto simp: addr_append)

lemma inside_part: "(p, k) \<in> set (pm_live m) \<Longrightarrow> p \<le> a \<Longrightarrow> a + j \<le> p + k \<Longrightarrow> inside a j m"
  by (auto simp: inside_def list_ex_iff)

lemma node_cong:
  assumes "node m (p, n) nx" "(p, n + 16) \<in> set (pm_live m')"
    and "\<And>x. p + n - 2 \<le> x \<Longrightarrow> x < p + n + 16 \<Longrightarrow> pm_bytes m' x = pm_bytes m x"
  shows "node m' (p, n) nx"
proof -
  have n: "8 \<le> n" "word_at 2 (p + n - 2) m = Some SOAP_CANARY" "word_at 8 (p + n) m = Some nx"
    "word_at 8 (p + n + 8) m = Some n"
    using assms(1) by (auto simp: node_def)
  have "word_at 2 (p + n - 2) m' = Some SOAP_CANARY"
    by (rule word_at_cong [OF n(2) inside_part [OF assms(2)]]) (use n(1) assms(3) in auto)
  moreover have "word_at 8 (p + n) m' = Some nx"
    by (rule word_at_cong [OF n(3) inside_part [OF assms(2)]]) (use n(1) assms(3) in auto)
  moreover have "word_at 8 (p + n + 8) m' = Some n"
    by (rule word_at_cong [OF n(4) inside_part [OF assms(2)]]) (use n(1) assms(3) in auto)
  ultimately show ?thesis using n(1) assms(2) by (simp add: node_def)
qed

lemma chain_cong:
  assumes "chain m xs e"
    and "\<And>p n. (p, n) \<in> set xs \<Longrightarrow> (p, n + 16) \<in> set (pm_live m')"
    and "\<And>p n x. (p, n) \<in> set xs \<Longrightarrow> p + n - 2 \<le> x \<Longrightarrow> x < p + n + 16 \<Longrightarrow> pm_bytes m' x = pm_bytes m x"
  shows "chain m' xs e"
  using assms
proof (induction xs)
  case (Cons y xs)
  obtain p n where y: "y = (p, n)" by fastforce
  have "node m' (p, n) (addr xs e)"
  proof (rule node_cong [of m])
    show "(p, n + 16) \<in> set (pm_live m')" using Cons.prems(2) y by simp
    fix x assume "p + n - 2 \<le> x" "x < p + n + 16"
    then show "pm_bytes m' x = pm_bytes m x" using Cons.prems(3) [of p n x] y by simp
  qed (use Cons.prems(1) y in simp)
  moreover have "chain m' xs e"
  proof (rule Cons.IH)
    show "chain m xs e" using Cons.prems(1) by simp
    fix p n assume q: "(p, n) \<in> set xs"
    then show "(p, n + 16) \<in> set (pm_live m')" using Cons.prems(2) by simp
    fix x assume "p + n - 2 \<le> x" "x < p + n + 16"
    then show "pm_bytes m' x = pm_bytes m x" using Cons.prems(3) [of p n x] q by simp
  qed
  ultimately show ?case using y by simp
qed simp

lemma chain_live: "chain m xs e \<Longrightarrow> (p, n) \<in> set xs \<Longrightarrow> (p, n + 16) \<in> set (pm_live m) \<and> 8 \<le> n"
  by (induction xs) (auto simp: node_def)

text \<open>\<open>F\<close> are the live blocks that are not in the list.\<close>

definition alist_inv :: "(nat \<times> nat) list \<Rightarrow> alist \<Rightarrow> pmem \<Rightarrow> (nat \<times> nat) list \<Rightarrow> bool" where
  "alist_inv F al m xs = (pmem_ok m \<and> al_memlist al = addr xs 0 \<and> chain m xs 0 \<and> distinct (map fst xs) \<and>
    filter (\<lambda>b. fst b \<notin> set (map fst xs)) (pm_live m) = F)"

section \<open>Allocating and writing\<close>

text \<open>Writing into a live block leaves the list alone, up to the 18 bytes at the block's end.\<close>

lemma write_inv:
  assumes inv: "alist_inv F al m xs" and b: "(p, k) \<in> set (pm_live m)" and l: "pm_live m' = pm_live m"
    and w: "\<And>x. \<not> (p \<le> x \<and> x < p + k - 18) \<Longrightarrow> pm_bytes m' x = pm_bytes m x"
  shows "alist_inv F al m' xs"
proof -
  have i: "pmem_ok m" "chain m xs 0" using inv by (auto simp: alist_inv_def)
  have "chain m' xs 0"
  proof (rule chain_cong [OF i(2)])
    fix q n assume q: "(q, n) \<in> set xs"
    then have n: "(q, n + 16) \<in> set (pm_live m)" "8 \<le> n" using chain_live [OF i(2)] by auto
    then show "(q, n + 16) \<in> set (pm_live m')" using l by simp
    fix x assume x: "q + n - 2 \<le> x" "x < q + n + 16"
    show "pm_bytes m' x = pm_bytes m x"
    proof (rule w, cases "(q, n + 16) = (p, k)")
      case True
      then show "\<not> (p \<le> x \<and> x < p + k - 18)" using x by auto
    next
      case False
      have "sorted_wrt apart (pm_live m)" using i(1) by (simp add: pmem_ok_def)
      from sorted_wrt_sym_pair [OF this apart_sym n(1) b False]
      show "\<not> (p \<le> x \<and> x < p + k - 18)" using x n(2) by auto
    qed
  qed
  then show ?thesis using inv l by (simp add: alist_inv_def pmem_ok_def)
qed

text \<open>The trailer that an allocation writes.\<close>

lemma trailer:
  assumes "(p, n + 16) \<in> set (pm_live m)" "8 \<le> n" "n < 2 ^ 63" "nx < 2 ^ 63"
  shows "\<exists>m1 m2 m'. put_word 2 (p + n - 2) SOAP_CANARY m = Some m1 \<and> put_word 8 (p + n) nx m1 = Some m2 \<and>
    put_word 8 (p + n + 8) n m2 = Some m' \<and> node m' (p, n) nx \<and> pm_live m' = pm_live m \<and>
    (\<forall>x. x < p + n - 2 \<or> p + n + 16 \<le> x \<longrightarrow> pm_bytes m' x = pm_bytes m x)"
proof -
  obtain m1 where m1: "put_word 2 (p + n - 2) SOAP_CANARY m = Some m1"
    using put_word_total [OF inside_part [OF assms(1)]] assms(2) by fastforce
  note f1 = put_word_frame [OF m1]
  have l1: "(p, n + 16) \<in> set (pm_live m1)" using assms(1) f1(1) by simp
  obtain m2 where m2: "put_word 8 (p + n) nx m1 = Some m2"
    using put_word_total [OF inside_part [OF l1]] by fastforce
  note f2 = put_word_frame [OF m2]
  have l2: "(p, n + 16) \<in> set (pm_live m2)" using l1 f2(1) by simp
  obtain m' where m3: "put_word 8 (p + n + 8) n m2 = Some m'"
    using put_word_total [OF inside_part [OF l2]] by fastforce
  note f3 = put_word_frame [OF m3]
  have l3: "(p, n + 16) \<in> set (pm_live m')" using l2 f3(1) by simp
  have fr: "pm_live m' = pm_live m" using f1(1) f2(1) f3(1) by simp
  have fr2: "pm_bytes m' x = pm_bytes m x" if "x < p + n - 2 \<or> p + n + 16 \<le> x" for x
  proof -
    have "pm_bytes m' x = pm_bytes m2 x" using f3(2) [of x] that by linarith
    also have "\<dots> = pm_bytes m1 x" using f2(2) [of x] that by linarith
    also have "\<dots> = pm_bytes m x" using f1(2) [of x] that assms(2) by linarith
    finally show ?thesis .
  qed
  have "word_at 2 (p + n - 2) m1 = Some SOAP_CANARY"
    by (rule put_word_same [OF m1]) (simp add: SOAP_CANARY_def)
  then have "word_at 2 (p + n - 2) m' = Some SOAP_CANARY"
  proof (rule word_at_cong)
    show "inside (p + n - 2) 2 m'" using inside_part [OF l3] assms(2) by simp
    fix i :: nat assume "i < 2"
    then have "p + n - 2 + i < p + n" using assms(2) by linarith
    then show "pm_bytes m' (p + n - 2 + i) = pm_bytes m1 (p + n - 2 + i)"
      using f2(2) [of "p + n - 2 + i"] f3(2) [of "p + n - 2 + i"] by simp
  qed
  moreover have "word_at 8 (p + n) m2 = Some nx"
    by (rule put_word_same [OF m2]) (use assms(4) in simp)
  then have "word_at 8 (p + n) m' = Some nx"
    by (rule word_at_cong) (use f3(2) inside_part [OF l3] in auto)
  moreover have "word_at 8 (p + n + 8) m' = Some n"
    by (rule put_word_same [OF m3]) (use assms(3) in simp)
  ultimately have "node m' (p, n) nx"
    using l3 assms(2) by (simp add: node_def)
  then show ?thesis using m1 m2 m3 fr fr2 by blast
qed

lemma addr_bound: "alist_inv F al m xs \<Longrightarrow> addr xs 0 < 2 ^ 63"
  by (cases xs) (auto simp: alist_inv_def node_def pmem_ok_def)

lemma size_t_small: "0 \<le> i \<Longrightarrow> i < 2 ^ 64 \<Longrightarrow> size_t i = nat i"
  by (simp add: size_t_def)

lemma size_t_wraps:
  assumes "2 ^ 64 \<le> i" "i < 2 ^ 65"
  shows "size_t i = nat (i - 2 ^ 64)"
proof -
  have "i mod 2 ^ 64 = (i - 2 ^ 64) mod 2 ^ 64" by simp
  also have "\<dots> = i - 2 ^ 64" using assms by (intro mod_pos_pos_trivial) auto
  finally show ?thesis by (simp add: size_t_def)
qed

text \<open>The overflow tests of \<^verbatim>\<open>alist_malloc\<close>: behind them the sums are exact.\<close>

lemma first_test:
  assumes "n < 2 ^ 64" "\<not> size_t (int n + 2) < n"
  shows "int n + 2 < 2 ^ 64" "size_t (int n + 2) = n + 2"
proof -
  have n: "int n < 2 ^ 64" using assms(1) by (metis of_nat_less_iff of_nat_numeral of_nat_power)
  show a: "int n + 2 < 2 ^ 64"
  proof (rule ccontr)
    assume c: "\<not> int n + 2 < 2 ^ 64"
    then have "size_t (int n + 2) = nat (int n + 2 - 2 ^ 64)" using n by (intro size_t_wraps) simp_all
    moreover have "0 < int n" using c by simp
    then have "nat (int n + 2 - 2 ^ 64) < nat (int n)" by (subst zless_nat_conj) simp
    then have "nat (int n + 2 - 2 ^ 64) < n" by simp
    ultimately show False using assms(2) by simp
  qed
  then show "size_t (int n + 2) = n + 2" using size_t_small by simp
qed

lemma padded:
  assumes "n < 2 ^ 64" "\<not> size_t (int n + 2) < n"
    and pad: "pad = size_t (- int (n + 2)) mod 8" and "\<not> size_t (int (n + 2) + int pad + 8 + 8) < n + 2"
  shows "size_t (int (n + 2) + int pad) = n + 2 + pad"
    "size_t (int (n + 2 + pad) + 8 + 8) = n + 2 + pad + 16" "8 \<le> n + 2 + pad"
proof -
  note a = first_test [OF assms(1,2)]
  have p8: "pad < 8" by (simp add: pad)
  have b: "int (n + 2) + int pad + 8 + 8 < 2 ^ 64"
  proof (rule ccontr)
    assume c: "\<not> int (n + 2) + int pad + 8 + 8 < 2 ^ 64"
    then have "size_t (int (n + 2) + int pad + 8 + 8) = nat (int (n + 2) + int pad + 8 + 8 - 2 ^ 64)"
      using a(1) p8 by (intro size_t_wraps) simp_all
    then show False using assms(4) a(1) p8 by simp
  qed
  then show "size_t (int (n + 2) + int pad) = n + 2 + pad"
    "size_t (int (n + 2 + pad) + 8 + 8) = n + 2 + pad + 16"
    using size_t_small by (simp_all add: nat_eq_iff)
  have "int pad = (- int (n + 2)) mod 2 ^ 64 mod 8"
    unfolding pad size_t_def by (simp add: zmod_int)
  also have "\<dots> = (- int (n + 2)) mod 8" by (rule mod_mod_cancel) simp
  finally show "8 \<le> n + 2 + pad" by presburger
qed

text \<open>
  An allocation: nothing, or a new block at the head of the list whose first \<open>n\<close> bytes are the
  client's.
\<close>

definition allocated ::
  "nat \<Rightarrow> (nat \<times> nat) list \<Rightarrow> alist \<Rightarrow> pmem \<Rightarrow> (nat \<times> nat) list \<Rightarrow> nat option \<times> alist \<times> pmem \<Rightarrow> bool" where
  "allocated n F al m xs x = (case x of
      (None, al', m') \<Rightarrow> al' = al \<and> m' = m
    | (Some p, al', m') \<Rightarrow> \<exists>k. n + 2 \<le> k \<and> alist_inv F al' m' ((p, k) # xs))"

lemma alist_malloc_eq:
  assumes n: "n < 2 ^ 64" and F1: "\<not> size_t (int n + 2) < n"
    and pad: "pad = size_t (- int (n + 2)) mod 8" and F2: "\<not> size_t (int (n + 2) + int pad + 8 + 8) < n + 2"
    and k: "k = n + 2 + pad"
  shows "alist_malloc alloc n al m = (case malloc alloc (k + 16) m of
      None \<Rightarrow> Some (None, al, m)
    | Some (p, m) \<Rightarrow> do {
        m \<leftarrow> put_word 2 (p + k - 2) SOAP_CANARY m;
        m \<leftarrow> put_word 8 (p + k) (al_memlist al) m;
        m \<leftarrow> put_word 8 (p + k + 8) k m;
        Some (Some p, al\<lparr>al_memlist := p + k\<rparr>, m)
      })"
proof -
  have z: "(SOAP_MAXALLOCSIZE > 0) = False" by (simp add: SOAP_MAXALLOCSIZE_def)
  show ?thesis
    unfolding alist_malloc_def Let_def z first_test(2) [OF n F1] pad [symmetric]
    unfolding padded(1) [OF n F1 pad F2]
    unfolding padded(2) [OF n F1 pad F2]
    unfolding k [symmetric]
    using F1 F2 first_test(2) [OF n F1] by simp
qed

lemma alist_malloc_inv:
  assumes ok: "alloc_ok alloc" and inv: "alist_inv F al m xs" and n: "n < 2 ^ 64"
  shows "\<exists>x. alist_malloc alloc n al m = Some x \<and> allocated n F al m xs x"
proof (cases "size_t (int n + 2) < n")
  case True
  then show ?thesis by (simp add: alist_malloc_def SOAP_MAXALLOCSIZE_def allocated_def)
next
  case F1: False
  define pad where "pad = size_t (- int (n + 2)) mod 8"
  show ?thesis
  proof (cases "size_t (int (n + 2) + int pad + 8 + 8) < n + 2")
    case True
    then show ?thesis
      using F1 first_test(2) [OF n F1] by (simp add: alist_malloc_def SOAP_MAXALLOCSIZE_def allocated_def Let_def pad_def)
  next
    case F2: False
    let ?k = "n + 2 + pad"
    note P = padded [OF n F1 pad_def F2]
    show ?thesis
    proof (cases "malloc alloc (?k + 16) m")
      case None
      then show ?thesis
        by (simp add: alist_malloc_eq [OF n F1 pad_def F2 refl] allocated_def)
    next
      case (Some pm)
      then obtain p m0 where pm: "malloc alloc (?k + 16) m = Some (p, m0)" by (cases pm) auto
      have i: "pmem_ok m" "al_memlist al = addr xs 0" "chain m xs 0" "distinct (map fst xs)"
        "filter (\<lambda>b. fst b \<notin> set (map fst xs)) (pm_live m) = F"
        using inv by (auto simp: alist_inv_def)
      note M = memalign_ok [OF ok i(1) pm]
      have "(p, ?k + 16) \<in> set (pm_live m0)" "?k < 2 ^ 63" using M(2,6) by auto
      from trailer [OF this(1) P(3) this(2) addr_bound [OF inv]]
      obtain m1 m2 m' where t: "put_word 2 (p + ?k - 2) SOAP_CANARY m0 = Some m1"
          "put_word 8 (p + ?k) (addr xs 0) m1 = Some m2" "put_word 8 (p + ?k + 8) ?k m2 = Some m'"
        and nd: "node m' (p, ?k) (addr xs 0)" and l: "pm_live m' = pm_live m0"
        and fr: "\<forall>x. x < p + ?k - 2 \<or> p + ?k + 16 \<le> x \<longrightarrow> pm_bytes m' x = pm_bytes m0 x"
        by blast
      have r: "alist_malloc alloc n al m = Some (Some p, al\<lparr>al_memlist := p + ?k\<rparr>, m')"
        unfolding alist_malloc_eq [OF n F1 pad_def F2 refl] i(2) using pm t by simp
      have "chain m' xs 0"
      proof (rule chain_cong [OF i(3)])
        fix q j assume q: "(q, j) \<in> set xs"
        then have j: "(q, j + 16) \<in> set (pm_live m)" "8 \<le> j" using chain_live [OF i(3)] by auto
        then show "(q, j + 16) \<in> set (pm_live m')" using l M(2) by simp
        fix x assume x: "q + j - 2 \<le> x" "x < q + j + 16"
        have "apart (p, ?k + 16) (q, j + 16)" using M(7) j(1) by blast
        then have "x < p + ?k - 2 \<or> p + ?k + 16 \<le> x" using x j(2) P(3) by auto
        then have "pm_bytes m' x = pm_bytes m0 x" using fr by blast
        then show "pm_bytes m' x = pm_bytes m x" using M(3) by simp
      qed
      moreover have "p \<notin> fst ` set xs"
        using M(8) chain_live [OF i(3)] by force
      moreover have "pmem_ok m'" using M(1) l by (simp add: pmem_ok_def)
      moreover have "filter (\<lambda>b. fst b \<notin> set (map fst ((p, ?k) # xs))) (pm_live m') =
          filter (\<lambda>b. fst b \<notin> set (map fst xs)) (pm_live m)"
        using M(2,8) l by (auto intro!: filter_cong)
      ultimately have "alist_inv F (al\<lparr>al_memlist := p + ?k\<rparr>) m' ((p, ?k) # xs)"
        using nd i(4,5) by (simp add: alist_inv_def)
      then show ?thesis using r by (auto simp: allocated_def intro: exI [of _ ?k])
    qed
  qed
qed

text \<open>Filling the client's bytes afterwards, as \<^verbatim>\<open>alist_calloc\<close> and \<^verbatim>\<open>alist_strdup\<close> do.\<close>

lemma fill_inv:
  assumes "allocated n F al m xs (r, al', m1)"
    and "\<And>p. r = Some p \<Longrightarrow> pm_live m2 = pm_live m1 \<and>
      (\<forall>x. \<not> (p \<le> x \<and> x < p + n) \<longrightarrow> pm_bytes m2 x = pm_bytes m1 x)"
    and "r = None \<Longrightarrow> m2 = m1"
  shows "allocated n F al m xs (r, al', m2)"
proof (cases r)
  case None
  then show ?thesis using assms(1,3) by (simp add: allocated_def)
next
  case (Some p)
  then obtain k where k: "n + 2 \<le> k" "alist_inv F al' m1 ((p, k) # xs)"
    using assms(1) by (auto simp: allocated_def)
  then have "(p, k + 16) \<in> set (pm_live m1)" by (auto simp: alist_inv_def node_def)
  then have "alist_inv F al' m2 ((p, k) # xs)"
  proof (rule write_inv [OF k(2)])
    show "pm_live m2 = pm_live m1" using assms(2) [OF Some] by simp
    fix x assume "\<not> (p \<le> x \<and> x < p + (k + 16) - 18)"
    then have "\<not> (p \<le> x \<and> x < p + n)" using k(1) by linarith
    then show "pm_bytes m2 x = pm_bytes m1 x" using assms(2) [OF Some] by blast
  qed
  then show ?thesis using Some k(1) by (auto simp: allocated_def)
qed

lemma alist_calloc_inv:
  assumes "alloc_ok alloc" "alist_inv F al m xs" "n < 2 ^ 64"
  shows "\<exists>x. alist_calloc alloc n al m = Some x \<and> allocated n F al m xs x"
proof -
  obtain r al' m1 where r: "alist_malloc alloc n al m = Some (r, al', m1)"
    and a: "allocated n F al m xs (r, al', m1)"
    using alist_malloc_inv [OF assms] by (metis prod_cases3)
  let ?m = "case r of None \<Rightarrow> m1 | Some p \<Rightarrow> memset p 0 n m1"
  have "allocated n F al m xs (r, al', ?m)"
    by (rule fill_inv [OF a]) (auto simp: memset_def)
  then show ?thesis using r by (simp add: alist_calloc_def)
qed

lemma alist_strdup_inv:
  assumes "alloc_ok alloc" "alist_inv F al m xs" "\<And>t. s = Some t \<Longrightarrow> length t + 1 < 2 ^ 64"
  shows "\<exists>x. alist_strdup alloc s al m = Some x \<and> allocated (case s of None \<Rightarrow> 0 | Some t \<Rightarrow> length t + 1) F al m xs x"
proof (cases s)
  case None
  then show ?thesis by (simp add: alist_strdup_def allocated_def)
next
  case (Some t)
  let ?n = "length t + 1"
  obtain r al' m1 where r: "alist_calloc alloc ?n al m = Some (r, al', m1)"
    and a: "allocated ?n F al m xs (r, al', m1)"
    using alist_calloc_inv [OF assms(1,2) assms(3) [OF Some]] by (metis prod_cases3)
  let ?m = "case r of None \<Rightarrow> m1 | Some p \<Rightarrow> memset (p + (?n - 1)) 0 1 (copy_bytes p (t @ [0]) m1)"
  have "allocated ?n F al m xs (r, al', ?m)"
    by (rule fill_inv [OF a]) (auto simp: memset_def copy_bytes_def)
  moreover have "alist_strdup alloc s al m = Some (r, al', ?m)"
    using r Some by (cases r) (simp_all add: alist_strdup_def Let_def)
  ultimately show ?thesis using Some by simp
qed

section \<open>Freeing\<close>

definition link_of :: "(nat \<times> nat) list \<Rightarrow> link" where
  "link_of ds = (if ds = [] then Head else Cell (fst (last ds) + snd (last ds)))"

lemma read_link_of:
  assumes "alist_inv F al m (ds @ xs)"
  shows "read_link (link_of ds) al m = Some (addr xs 0)"
proof (cases ds rule: rev_cases)
  case Nil
  then show ?thesis using assms by (simp add: link_of_def alist_inv_def)
next
  case (snoc es y)
  then have "chain m (es @ y # xs) 0" using assms by (simp add: alist_inv_def)
  then have "node m y (addr xs 0)" by (simp add: chain_append)
  then show ?thesis using snoc by (auto simp: link_of_def node_def)
qed

lemma blocks_of:
  assumes "alist_inv F al m (ds @ (q, k) # xs)" "(p, n) \<in> set ds \<union> set xs"
  shows "p + n + 16 \<le> q \<or> q + k + 16 \<le> p" "8 \<le> n"
proof -
  have i: "pmem_ok m" "chain m (ds @ (q, k) # xs) 0" "distinct (map fst (ds @ (q, k) # xs))"
    using assms(1) by (auto simp: alist_inv_def)
  have l: "(p, n + 16) \<in> set (pm_live m)" "(q, k + 16) \<in> set (pm_live m)"
    using chain_live [OF i(2)] assms(2) by auto
  show "8 \<le> n" using chain_live [OF i(2)] assms(2) by auto
  have "p \<noteq> q" using i(3) assms(2) by force
  moreover have "sorted_wrt apart (pm_live m)" using i(1) by (simp add: pmem_ok_def)
  ultimately have "apart (p, n + 16) (q, k + 16)"
    by (intro sorted_wrt_sym_pair [OF _ apart_sym l]) simp_all
  then show "p + n + 16 \<le> q \<or> q + k + 16 \<le> p" by auto
qed

lemma unlink:
  assumes inv: "alist_inv F al m (ds @ (p, n) # xs)"
  shows "\<exists>al' m'. write_link (link_of ds) (addr xs 0) al m = Some (al', m') \<and> pm_live m' = pm_live m \<and>
    al_memlist al' = addr (ds @ xs) 0 \<and> chain m' (ds @ xs) 0"
proof (cases ds rule: rev_cases)
  case Nil
  then show ?thesis using inv by (simp add: link_of_def alist_inv_def)
next
  case (snoc es y)
  obtain q k where y: "y = (q, k)" by fastforce
  have inv': "alist_inv F al m (es @ (q, k) # (p, n) # xs)" using inv snoc y by simp
  then have c: "chain m es (q + k)" "node m (q, k) (p + n)" "chain m xs 0" "al_memlist al = addr es (q + k)"
    by (auto simp: alist_inv_def chain_append addr_append)
  have l: "(q, k + 16) \<in> set (pm_live m)" "8 \<le> k" using c(2) by (auto simp: node_def)
  obtain m' where m': "put_word 8 (q + k) (addr xs 0) m = Some m'"
    using put_word_total [OF inside_part [OF l(1)]] by fastforce
  note f = put_word_frame [OF m']
  have "xs = [] \<or> (\<exists>b j. hd xs = (b, j) \<and> (b, j + 16) \<in> set (pm_live m) \<and> addr xs 0 = b + j)"
    using chain_live [OF c(3)] by (cases xs) auto
  then have "addr xs 0 < 2 ^ 63"
    using inv' by (auto simp: alist_inv_def pmem_ok_def)
  then have "word_at 8 (q + k) m' = Some (addr xs 0)"
    by (intro put_word_same [OF m']) simp
  moreover have w: "word_at 2 (q + k - 2) m = Some SOAP_CANARY" "word_at 8 (q + k + 8) m = Some k"
    using c(2) by (auto simp: node_def)
  have "word_at 2 (q + k - 2) m' = Some SOAP_CANARY"
  proof (rule word_at_cong [OF w(1)])
    show "inside (q + k - 2) 2 m'" using inside_part [of q "k + 16" m'] l f(1) by simp
    fix i :: nat assume "i < 2"
    then have "q + k - 2 + i < q + k" using l(2) by linarith
    then show "pm_bytes m' (q + k - 2 + i) = pm_bytes m (q + k - 2 + i)" using f(2) by blast
  qed
  moreover have "word_at 8 (q + k + 8) m' = Some k"
    by (rule word_at_cong [OF w(2)]) (use l f inside_part [of q "k + 16" m'] in auto)
  ultimately have "node m' (q, k) (addr xs 0)" using l f(1) by (simp add: node_def)
  moreover have frame: "chain m' zs e" if z: "chain m zs e" "set zs \<subseteq> set es \<union> set xs" for zs e
  proof (rule chain_cong [OF z(1)])
    fix b j assume b: "(b, j) \<in> set zs"
    then show "(b, j + 16) \<in> set (pm_live m')" using chain_live [OF z(1)] f(1) by simp
    fix x assume x: "b + j - 2 \<le> x" "x < b + j + 16"
    have "(b, j) \<in> set es \<union> set ((p, n) # xs)" using b z(2) by auto
    from blocks_of [OF inv' this] have "x < q + k \<or> q + k + 8 \<le> x" using x by auto
    then show "pm_bytes m' x = pm_bytes m x" by (rule f(2))
  qed
  moreover have "chain m' es (q + k)" "chain m' xs 0" using frame c(1,3) by auto
  ultimately show ?thesis
    using m' f(1) snoc y c(4) by (simp add: link_of_def chain_append addr_append)
qed

text \<open>Freeing an unlinked block.\<close>

lemma free_unlinked:
  assumes inv: "alist_inv F al m (ds @ (p, n) # xs)"
    and l: "pm_live m1 = pm_live m" and c: "al_memlist al1 = addr (ds @ xs) 0" "chain m1 (ds @ xs) 0"
  shows "\<exists>m'. mfree p m1 = Some m' \<and> alist_inv F al1 m' (ds @ xs)"
proof -
  let ?m = "m1\<lparr>pm_live := filter (\<lambda>b. fst b \<noteq> p) (pm_live m1)\<rparr>"
  have i: "pmem_ok m" "chain m (ds @ (p, n) # xs) 0" "distinct (map fst (ds @ (p, n) # xs))"
    "filter (\<lambda>b. fst b \<notin> set (map fst (ds @ (p, n) # xs))) (pm_live m) = F"
    using inv by (auto simp: alist_inv_def)
  have "(p, n + 16) \<in> set (pm_live m1)" using chain_live [OF i(2)] l by simp
  moreover from this have "0 < p" using live_pos [OF i(1)] l by force
  ultimately have "mfree p m1 = Some ?m" by (force simp: mfree_def)
  moreover have "chain ?m (ds @ xs) 0"
  proof (rule chain_cong [OF c(2)])
    fix q k assume q: "(q, k) \<in> set (ds @ xs)"
    then have "q \<noteq> p" using i(3) by force
    then show "(q, k + 16) \<in> set (pm_live ?m)" using chain_live [OF c(2) q] by simp
  qed simp
  moreover have "pmem_ok m1" using i(1) l by (simp add: pmem_ok_def)
  then have "pmem_ok ?m" by (rule pmem_ok_filter)
  moreover have "filter (\<lambda>b. fst b \<notin> set (map fst (ds @ xs))) (pm_live ?m) = F"
    unfolding i(4) [symmetric] l by (auto intro!: filter_cong)
  ultimately show ?thesis using c(1) i(3) by (simp add: alist_inv_def)
qed

lemma block_start:
  assumes "alist_inv F al m (ds @ (p, n) # xs)"
  shows "size_t (int (p + n) - int n) = p" "word_at 2 (p + n - 2) m = Some SOAP_CANARY"
    "word_at 8 (p + n + 8) m = Some n" "word_at 8 (p + n) m = Some (addr xs 0)" "0 < p"
proof -
  have "pmem_ok m" "chain m (ds @ (p, n) # xs) 0" using assms by (auto simp: alist_inv_def)
  then have nd: "node m (p, n) (addr xs 0)" and b: "p + n + 16 < 2 ^ 63" "0 < p"
    using chain_live [of m "ds @ (p, n) # xs" 0 p n] by (auto simp: chain_append pmem_ok_def)
  then have "n \<le> p + n" "p + n < 2 ^ 63" by simp_all
  from size_t_diff [OF this] show "size_t (int (p + n) - int n) = p" by simp
  show "word_at 2 (p + n - 2) m = Some SOAP_CANARY" "word_at 8 (p + n + 8) m = Some n"
    "word_at 8 (p + n) m = Some (addr xs 0)" "0 < p"
    using nd b(2) by (auto simp: node_def)
qed

lemma dealloc_walk_result:
  "alist_inv F al m (ds @ xs) \<Longrightarrow> \<exists>al' m'. dealloc_walk p (link_of ds) al m = Some (al', m') \<and>
    (if p \<in> set (map fst xs) then alist_inv F al' m' (ds @ filter (\<lambda>x. fst x \<noteq> p) xs)
     else al' = al \<and> m' = m)"
proof (induction xs arbitrary: ds)
  case Nil
  then show ?case
    using read_link_of [OF Nil] by (subst dealloc_walk.simps) simp
next
  case (Cons x xs)
  obtain q n where x: "x = (q, n)" by fastforce
  have inv: "alist_inv F al m (ds @ (q, n) # xs)" using Cons.prems x by simp
  note B = block_start [OF inv] and R = read_link_of [OF inv]
  show ?case
  proof (cases "p = q")
    case True
    obtain al1 m1 where w: "write_link (link_of ds) (addr xs 0) al m = Some (al1, m1)"
        "pm_live m1 = pm_live m" "al_memlist al1 = addr (ds @ xs) 0" "chain m1 (ds @ xs) 0"
      using unlink [OF inv] by blast
    obtain m2 where fr: "mfree q m1 = Some m2" "alist_inv F al1 m2 (ds @ xs)"
      using free_unlinked [OF inv w(2-4)] by blast
    have "dealloc_walk p (link_of ds) al m = Some (al1, m2)"
      using B R w(1) fr(1) True by (subst dealloc_walk.simps) simp
    moreover have "filter (\<lambda>y. fst y \<noteq> p) (x # xs) = xs"
      using inv x True by (auto simp: alist_inv_def filter_id_conv)
    ultimately show ?thesis using fr(2) x True by simp
  next
    case False
    have "dealloc_walk p (link_of ds) al m = dealloc_walk p (link_of (ds @ [x])) al m"
      using B R False x by (subst dealloc_walk.simps) (simp add: link_of_def)
    then show ?thesis
      using Cons.IH [of "ds @ [x]"] Cons.prems x False by (cases "p \<in> fst ` set xs") auto
  qed
qed

lemma dealloc_all_result:
  "alist_inv F al m xs \<Longrightarrow> \<exists>al' m'. dealloc_all al m = Some (al', m') \<and> alist_inv F al' m' []"
proof (induction xs arbitrary: al m)
  case Nil
  then have "al_memlist al = 0" by (simp add: alist_inv_def)
  then show ?case using Nil by (subst dealloc_all.simps) simp
next
  case (Cons x xs)
  obtain p n where x: "x = (p, n)" by fastforce
  have inv: "alist_inv F al m ([] @ (p, n) # xs)" using Cons.prems x by simp
  note B = block_start [OF inv]
  have h: "al_memlist al = p + n" using inv by (simp add: alist_inv_def)
  let ?al = "al\<lparr>al_memlist := addr xs 0\<rparr>"
  have c: "chain m ([] @ xs) 0" using inv by (simp add: alist_inv_def)
  obtain m1 where m1: "mfree p m = Some m1" "alist_inv F ?al m1 ([] @ xs)"
    using free_unlinked [OF inv refl _ c, of ?al] by auto
  have "dealloc_all al m = dealloc_all ?al m1"
    using B h m1(1) by (subst dealloc_all.simps) (simp add: Let_def)
  then show ?case using Cons.IH [of ?al m1] m1(2) by simp
qed

text \<open>Printing walks the list off its head.\<close>

lemma echo_loop_result:
  "alist_inv F al m (ds @ xs) \<Longrightarrow> echo_loop (al\<lparr>al_memlist := addr xs 0\<rparr>) m =
    Some (map fst xs, al\<lparr>al_memlist := 0\<rparr>)"
proof (induction xs arbitrary: ds)
  case Nil
  then show ?case by (subst echo_loop.simps) simp
next
  case (Cons x xs)
  obtain p n where x: "x = (p, n)" by fastforce
  have inv: "alist_inv F al m (ds @ (p, n) # xs)" using Cons.prems x by simp
  note B = block_start [OF inv]
  have "alist_inv F al m ((ds @ [x]) @ xs)" using Cons.prems by simp
  from Cons.IH [OF this] show ?case
    using B x by (subst echo_loop.simps) (simp add: Let_def)
qed

lemma dealloc_list_inv:
  assumes inv: "alist_inv F al m xs"
  shows "\<exists>al' m'. dealloc_list p al m = Some (al', m') \<and>
    alist_inv F al' m' (if p = 0 then [] else filter (\<lambda>x. fst x \<noteq> p) xs)"
proof (cases "p = 0")
  case True
  then show ?thesis using dealloc_all_result [OF inv] by (simp add: dealloc_list_def)
next
  case False
  have "filter (\<lambda>x. fst x \<noteq> p) xs = xs" if "p \<notin> fst ` set xs"
    using that by (force simp: filter_id_conv)
  then show ?thesis
    using dealloc_walk_result [of F al m "[]" xs p] inv False
    by (cases "p \<in> fst ` set xs") (auto simp: dealloc_list_def link_of_def)
qed

text \<open>
  \<^verbatim>\<open>echo_alist\<close> leaves an empty list behind: nothing can free the blocks that it printed.
\<close>

lemma echo_forgets:
  assumes inv: "alist_inv F al m xs"
  shows "\<exists>l. echo_alist (Some al) m = Some (map fst xs, l) \<and> alist_uninit l m = Some (l, m)"
proof -
  have "al\<lparr>al_memlist := addr xs 0\<rparr> = al" using inv by (simp add: alist_inv_def)
  then have "echo_loop al m = Some (map fst xs, al\<lparr>al_memlist := 0\<rparr>)"
    using echo_loop_result [of F al m "[]" xs] inv by simp
  moreover have "dealloc_list 0 (al\<lparr>al_memlist := 0\<rparr>) m = Some (al\<lparr>al_memlist := 0\<rparr>, m)"
    by (simp add: dealloc_list_def dealloc_all.simps [of "al\<lparr>al_memlist := 0\<rparr>"])
  ultimately show ?thesis by (simp add: echo_alist_def alist_uninit_def alist_dealloc_def)
qed

section \<open>Reachable states\<close>

text \<open>
  The list and the memory after any calls, with a client that writes where it likes inside live
  blocks as long as it keeps off their last 18 bytes, which a request never covers.
\<close>

inductive al_reach :: "allocator \<Rightarrow> pmem \<Rightarrow> alist \<Rightarrow> pmem \<Rightarrow> bool" for alloc m0 where
  init: "alist_init (Some al) = (r, Some al') \<Longrightarrow> al_reach alloc m0 al' m0"
| malloc: "al_reach alloc m0 al m \<Longrightarrow> n < 2 ^ 64 \<Longrightarrow> alist_malloc alloc n al m = Some (r, al', m') \<Longrightarrow>
    al_reach alloc m0 al' m'"
| calloc: "al_reach alloc m0 al m \<Longrightarrow> n < 2 ^ 64 \<Longrightarrow> alist_calloc alloc n al m = Some (r, al', m') \<Longrightarrow>
    al_reach alloc m0 al' m'"
| strdup: "al_reach alloc m0 al m \<Longrightarrow> (\<And>t. s = Some t \<Longrightarrow> length t + 1 < 2 ^ 64) \<Longrightarrow>
    alist_strdup alloc s al m = Some (r, al', m') \<Longrightarrow> al_reach alloc m0 al' m'"
| dealloc: "al_reach alloc m0 al m \<Longrightarrow> alist_dealloc p (Some al) m = Some (Some al', m') \<Longrightarrow>
    al_reach alloc m0 al' m'"
| client: "al_reach alloc m0 al m \<Longrightarrow> (p, k) \<in> set (pm_live m) \<Longrightarrow> p \<le> a \<Longrightarrow> a < p + k - 18 \<Longrightarrow>
    al_reach alloc m0 al (m\<lparr>pm_bytes := (pm_bytes m)(a := v)\<rparr>)"

lemma allocated_inv:
  assumes "allocated n F al m xs (r, al', m')" "alist_inv F al m xs"
  shows "\<exists>ys. alist_inv F al' m' ys"
  using assms by (cases r) (auto simp: allocated_def)

lemma al_reach_inv:
  assumes "al_reach alloc m0 al m" and ok: "alloc_ok alloc" "pmem_ok m0"
  shows "\<exists>xs. alist_inv (pm_live m0) al m xs"
  using assms(1)
proof (induction rule: al_reach.induct)
  case (init al r al')
  then have "alist_inv (pm_live m0) al' m0 []"
    using ok by (auto simp: alist_init_def alist_inv_def)
  then show ?case ..
next
  case (malloc al m n r al' m')
  then show ?case using alist_malloc_inv [OF ok(1) _ malloc.hyps(2)] allocated_inv by fastforce
next
  case (calloc al m n r al' m')
  then show ?case using alist_calloc_inv [OF ok(1) _ calloc.hyps(2)] allocated_inv by fastforce
next
  case (strdup al m s r al' m')
  then show ?case using alist_strdup_inv [OF ok(1) _ strdup.hyps(2)] allocated_inv by fastforce
next
  case (dealloc al m p al' m')
  then show ?case using dealloc_list_inv [of "pm_live m0" al m _ p] by (fastforce simp: alist_dealloc_def)
next
  case (client al m p k a v)
  then obtain xs where "alist_inv (pm_live m0) al m xs" by blast
  from this client.hyps(2)
  have "alist_inv (pm_live m0) al (m\<lparr>pm_bytes := (pm_bytes m)(a := v)\<rparr>) xs"
  proof (rule write_inv)
    fix x assume "\<not> (p \<le> x \<and> x < p + k - 18)"
    then have "x \<noteq> a" using client.hyps(3,4) by blast
    then show "pm_bytes (m\<lparr>pm_bytes := (pm_bytes m)(a := v)\<rparr>) x = pm_bytes m x" by simp
  qed simp
  then show ?case ..
qed

section \<open>Properties\<close>

text \<open>
  C40. The list never loses a block. In every state that calls of \<^verbatim>\<open>alist_malloc\<close>, \<^verbatim>\<open>alist_calloc\<close>,
  \<^verbatim>\<open>alist_strdup\<close> and \<^verbatim>\<open>alist_dealloc\<close> (with any address) and the client's writes into its bytes can
  lead to, each of these calls returns without touching freed memory or freeing anything twice,
  and \<^verbatim>\<open>alist_uninit\<close> returns and leaves exactly the blocks live that were live before the list
  was created.
\<close>
theorem alist_uninit_frees_all:
  assumes "al_reach alloc m0 al m" and "alloc_ok alloc" and "pmem_ok m0"
  shows "(\<forall>p. alist_dealloc p (Some al) m \<noteq> None) \<and>
    (\<forall>n. n < 2 ^ 64 \<longrightarrow> alist_malloc alloc n al m \<noteq> None \<and> alist_calloc alloc n al m \<noteq> None) \<and>
    (\<forall>t. length t + 1 < 2 ^ 64 \<longrightarrow> alist_strdup alloc (Some t) al m \<noteq> None) \<and>
    (\<exists>l m'. alist_uninit (Some al) m = Some (l, m') \<and> pm_live m' = pm_live m0)"
proof -
  obtain xs where inv: "alist_inv (pm_live m0) al m xs"
    using al_reach_inv [OF assms] by blast
  have "\<exists>l m'. alist_uninit (Some al) m = Some (l, m') \<and> pm_live m' = pm_live m0"
    using dealloc_list_inv [OF inv, of 0] by (auto simp: alist_uninit_def alist_dealloc_def alist_inv_def)
  moreover have "alist_dealloc p (Some al) m \<noteq> None" for p
    using dealloc_list_inv [OF inv, of p] by (auto simp: alist_dealloc_def)
  moreover have "alist_malloc alloc n al m \<noteq> None \<and> alist_calloc alloc n al m \<noteq> None" if "n < 2 ^ 64" for n
    using alist_malloc_inv [OF assms(2) inv that] alist_calloc_inv [OF assms(2) inv that] by blast
  moreover have "alist_strdup alloc (Some t) al m \<noteq> None" if "length t + 1 < 2 ^ 64" for t
    using alist_strdup_inv [OF assms(2) inv, of "Some t"] that by blast
  ultimately show ?thesis by blast
qed

theorem alist_uninit_frees_all_witness:
  "\<exists>al m l m'. al_reach bump_alloc empty_mem al m \<and> alist_malloc bump_alloc 10 \<lparr>al_memlist = 0\<rparr> empty_mem \<noteq> None \<and>
    alist_uninit (Some al) m = Some (l, m') \<and> pm_live m' = []"
proof -
  have i: "al_reach bump_alloc empty_mem \<lparr>al_memlist = 0\<rparr> empty_mem"
    by (rule al_reach.init [of "\<lparr>al_memlist = 7\<rparr>" 0]) (simp add: alist_init_def)
  from alist_uninit_frees_all [OF i bump_ok empty_mem_ok]
  obtain x where m: "alist_malloc bump_alloc 10 \<lparr>al_memlist = 0\<rparr> empty_mem = Some x" by fastforce
  obtain r al m1 where x: "x = (r, al, m1)" by (cases x)
  have "al_reach bump_alloc empty_mem al m1"
    by (rule al_reach.malloc [OF i _ m [unfolded x]]) simp
  from alist_uninit_frees_all [OF this bump_ok empty_mem_ok] this m show ?thesis
    by (auto simp: empty_mem_def)
qed

end
