(* ===== verification/Ngx_Rbtree.thy ===== *)
theory Ngx_Rbtree
  imports Prelude "HOL-Library.Monad_Syntax"
begin

text \<open>
  The red-black tree of \<^verbatim>\<open>struct_data/ngx_rbtree\<close> (the same code is in
  \<^verbatim>\<open>nginx_module/ngxlib/ngx_rbtree.c\<close>). Nodes live in a heap from addresses to nodes; an access
  through a pointer that is no node is \<open>None\<close>. The loops follow pointers and may in principle run
  for ever, so they are partial functions. The byte \<^verbatim>\<open>data\<close> of a node, which belongs to the user,
  is left out. This theory holds the operations; the theories \<^verbatim>\<open>Rbtree_Shape\<close>, \<^verbatim>\<open>Rbtree_Insert\<close>
  and \<^verbatim>\<open>Rbtree_Delete\<close> hold what they do.
\<close>

section \<open>Nodes and their fields\<close>

type_synonym rbaddr = nat

record ngx_rbtree_node =
  rb_key :: u64
  rb_left :: rbaddr
  rb_right :: rbaddr
  rb_parent :: rbaddr
  rb_color :: u8

type_synonym rbheap = "rbaddr \<Rightarrow> ngx_rbtree_node option"

text \<open>The tree with its insertion function; \<open>root\<close> is changed through a pointer to it.\<close>

record ngx_rbtree =
  rb_root :: rbaddr
  rb_sentinel :: rbaddr
  rb_insert :: "rbaddr \<Rightarrow> rbaddr \<Rightarrow> rbaddr \<Rightarrow> rbheap \<Rightarrow> rbheap option"

text \<open>\<open>p->f\<close> as a value, and \<open>p->f = v\<close>.\<close>

definition rb_get :: "(ngx_rbtree_node \<Rightarrow> 'a) \<Rightarrow> rbaddr \<Rightarrow> rbheap \<Rightarrow> 'a option" where
  "rb_get f p h = (case h p of None \<Rightarrow> None | Some n \<Rightarrow> Some (f n))"

definition rb_put :: "(ngx_rbtree_node \<Rightarrow> ngx_rbtree_node) \<Rightarrow> rbaddr \<Rightarrow> rbheap \<Rightarrow> rbheap option" where
  "rb_put f p h = (case h p of None \<Rightarrow> None | Some n \<Rightarrow> Some (h(p \<mapsto> f n)))"

definition put_key :: "rbaddr \<Rightarrow> u64 \<Rightarrow> rbheap \<Rightarrow> rbheap option" where
  "put_key p v = rb_put (\<lambda>n. n\<lparr>rb_key := v\<rparr>) p"

definition put_left :: "rbaddr \<Rightarrow> rbaddr \<Rightarrow> rbheap \<Rightarrow> rbheap option" where
  "put_left p v = rb_put (\<lambda>n. n\<lparr>rb_left := v\<rparr>) p"

definition put_right :: "rbaddr \<Rightarrow> rbaddr \<Rightarrow> rbheap \<Rightarrow> rbheap option" where
  "put_right p v = rb_put (\<lambda>n. n\<lparr>rb_right := v\<rparr>) p"

definition put_parent :: "rbaddr \<Rightarrow> rbaddr \<Rightarrow> rbheap \<Rightarrow> rbheap option" where
  "put_parent p v = rb_put (\<lambda>n. n\<lparr>rb_parent := v\<rparr>) p"

definition put_color :: "rbaddr \<Rightarrow> u8 \<Rightarrow> rbheap \<Rightarrow> rbheap option" where
  "put_color p v = rb_put (\<lambda>n. n\<lparr>rb_color := v\<rparr>) p"

definition ngx_rbt_red :: "rbaddr \<Rightarrow> rbheap \<Rightarrow> rbheap option" where
  "ngx_rbt_red p = put_color p 1"

definition ngx_rbt_black :: "rbaddr \<Rightarrow> rbheap \<Rightarrow> rbheap option" where
  "ngx_rbt_black p = put_color p 0"

definition ngx_rbt_is_red :: "rbaddr \<Rightarrow> rbheap \<Rightarrow> bool option" where
  "ngx_rbt_is_red p = rb_get (\<lambda>n. rb_color n \<noteq> 0) p"

definition ngx_rbt_is_black :: "rbaddr \<Rightarrow> rbheap \<Rightarrow> bool option" where
  "ngx_rbt_is_black p = rb_get (\<lambda>n. rb_color n = 0) p"

definition ngx_rbt_copy_color :: "rbaddr \<Rightarrow> rbaddr \<Rightarrow> rbheap \<Rightarrow> rbheap option" where
  "ngx_rbt_copy_color p q h = do { c \<leftarrow> rb_get rb_color q h; put_color p c h }"

definition ngx_rbtree_init ::
  "rbaddr \<Rightarrow> (rbaddr \<Rightarrow> rbaddr \<Rightarrow> rbaddr \<Rightarrow> rbheap \<Rightarrow> rbheap option) \<Rightarrow> rbheap \<Rightarrow> (ngx_rbtree \<times> rbheap) option" where
  "ngx_rbtree_init s i h = do {
     h \<leftarrow> ngx_rbt_black s h;
     Some (\<lparr>rb_root = s, rb_sentinel = s, rb_insert = i\<rparr>, h)
   }"

partial_function (option) ngx_rbtree_min :: "rbaddr \<Rightarrow> rbaddr \<Rightarrow> rbheap \<Rightarrow> rbaddr option" where
  "ngx_rbtree_min node s h =
     Option.bind (rb_get rb_left node h) (\<lambda>l. if l \<noteq> s then ngx_rbtree_min l s h else Some node)"

section \<open>Rotations\<close>

definition ngx_rbtree_left_rotate :: "rbaddr \<Rightarrow> rbaddr \<Rightarrow> rbaddr \<Rightarrow> rbheap \<Rightarrow> (rbaddr \<times> rbheap) option" where
  "ngx_rbtree_left_rotate root s node h = do {
     temp \<leftarrow> rb_get rb_right node h;
     tl \<leftarrow> rb_get rb_left temp h;
     h \<leftarrow> put_right node tl h;
     tl \<leftarrow> rb_get rb_left temp h;
     h \<leftarrow> (if tl \<noteq> s then put_parent tl node h else Some h);
     np \<leftarrow> rb_get rb_parent node h;
     h \<leftarrow> put_parent temp np h;
     (root, h) \<leftarrow> (
       if node = root then Some (temp, h)
       else do {
         np \<leftarrow> rb_get rb_parent node h;
         npl \<leftarrow> rb_get rb_left np h;
         h \<leftarrow> (if node = npl then put_left np temp h else put_right np temp h);
         Some (root, h)
       });
     h \<leftarrow> put_left temp node h;
     h \<leftarrow> put_parent node temp h;
     Some (root, h)
   }"

definition ngx_rbtree_right_rotate :: "rbaddr \<Rightarrow> rbaddr \<Rightarrow> rbaddr \<Rightarrow> rbheap \<Rightarrow> (rbaddr \<times> rbheap) option" where
  "ngx_rbtree_right_rotate root s node h = do {
     temp \<leftarrow> rb_get rb_left node h;
     tr \<leftarrow> rb_get rb_right temp h;
     h \<leftarrow> put_left node tr h;
     tr \<leftarrow> rb_get rb_right temp h;
     h \<leftarrow> (if tr \<noteq> s then put_parent tr node h else Some h);
     np \<leftarrow> rb_get rb_parent node h;
     h \<leftarrow> put_parent temp np h;
     (root, h) \<leftarrow> (
       if node = root then Some (temp, h)
       else do {
         np \<leftarrow> rb_get rb_parent node h;
         npr \<leftarrow> rb_get rb_right np h;
         h \<leftarrow> (if node = npr then put_right np temp h else put_left np temp h);
         Some (root, h)
       });
     h \<leftarrow> put_right temp node h;
     h \<leftarrow> put_parent node temp h;
     Some (root, h)
   }"

section \<open>Insertion\<close>

text \<open>
  The two insertion functions differ in the comparison \<open>lt node_key temp_key\<close> only. The walk
  returns the last node and whether the new one becomes its left child.
\<close>

definition value_less :: "u64 \<Rightarrow> u64 \<Rightarrow> bool" where
  "value_less k t = (k < t)"

definition timer_less :: "u64 \<Rightarrow> u64 \<Rightarrow> bool" where
  "timer_less k t = (sint (k - t) < 0)"

partial_function (option) rb_walk ::
  "(u64 \<Rightarrow> u64 \<Rightarrow> bool) \<Rightarrow> rbaddr \<Rightarrow> rbaddr \<Rightarrow> rbaddr \<Rightarrow> rbheap \<Rightarrow> (rbaddr \<times> bool) option" where
  "rb_walk lt temp node s h =
     Option.bind (rb_get rb_key node h) (\<lambda>nk.
     Option.bind (rb_get rb_key temp h) (\<lambda>tk.
     Option.bind (if lt nk tk then rb_get rb_left temp h else rb_get rb_right temp h) (\<lambda>p.
       if p = s then Some (temp, lt nk tk) else rb_walk lt p node s h)))"

definition rb_link ::
  "(u64 \<Rightarrow> u64 \<Rightarrow> bool) \<Rightarrow> rbaddr \<Rightarrow> rbaddr \<Rightarrow> rbaddr \<Rightarrow> rbheap \<Rightarrow> rbheap option" where
  "rb_link lt temp node s h = do {
     (temp, left) \<leftarrow> rb_walk lt temp node s h;
     h \<leftarrow> (if left then put_left temp node h else put_right temp node h);
     h \<leftarrow> put_parent node temp h;
     h \<leftarrow> put_left node s h;
     h \<leftarrow> put_right node s h;
     ngx_rbt_red node h
   }"

definition ngx_rbtree_insert_value :: "rbaddr \<Rightarrow> rbaddr \<Rightarrow> rbaddr \<Rightarrow> rbheap \<Rightarrow> rbheap option" where
  "ngx_rbtree_insert_value = rb_link value_less"

definition ngx_rbtree_insert_timer_value :: "rbaddr \<Rightarrow> rbaddr \<Rightarrow> rbaddr \<Rightarrow> rbheap \<Rightarrow> rbheap option" where
  "ngx_rbtree_insert_timer_value = rb_link timer_less"

text \<open>The branches of one round of the re-balancing loop; the value is the new \<open>node\<close>.\<close>

definition rb_uncle_red :: "rbaddr \<Rightarrow> rbaddr \<Rightarrow> rbheap \<Rightarrow> (rbaddr \<times> rbheap) option" where
  "rb_uncle_red node temp h = do {
     p \<leftarrow> rb_get rb_parent node h;
     h \<leftarrow> ngx_rbt_black p h;
     h \<leftarrow> ngx_rbt_black temp h;
     p \<leftarrow> rb_get rb_parent node h;
     g \<leftarrow> rb_get rb_parent p h;
     h \<leftarrow> ngx_rbt_red g h;
     p \<leftarrow> rb_get rb_parent node h;
     g \<leftarrow> rb_get rb_parent p h;
     Some (g, h)
   }"

definition rb_turn_left :: "rbaddr \<Rightarrow> rbaddr \<Rightarrow> rbaddr \<Rightarrow> rbheap \<Rightarrow> (rbaddr \<times> rbaddr \<times> rbheap) option" where
  "rb_turn_left root s node h = do {
     p \<leftarrow> rb_get rb_parent node h;
     pr \<leftarrow> rb_get rb_right p h;
     (node, root, h) \<leftarrow> (
       if node = pr then do {
         (root, h) \<leftarrow> ngx_rbtree_left_rotate root s p h;
         Some (p, root, h)
       } else Some (node, root, h));
     p \<leftarrow> rb_get rb_parent node h;
     h \<leftarrow> ngx_rbt_black p h;
     p \<leftarrow> rb_get rb_parent node h;
     g \<leftarrow> rb_get rb_parent p h;
     h \<leftarrow> ngx_rbt_red g h;
     p \<leftarrow> rb_get rb_parent node h;
     g \<leftarrow> rb_get rb_parent p h;
     (root, h) \<leftarrow> ngx_rbtree_right_rotate root s g h;
     Some (node, root, h)
   }"

definition rb_turn_right :: "rbaddr \<Rightarrow> rbaddr \<Rightarrow> rbaddr \<Rightarrow> rbheap \<Rightarrow> (rbaddr \<times> rbaddr \<times> rbheap) option" where
  "rb_turn_right root s node h = do {
     p \<leftarrow> rb_get rb_parent node h;
     pl \<leftarrow> rb_get rb_left p h;
     (node, root, h) \<leftarrow> (
       if node = pl then do {
         (root, h) \<leftarrow> ngx_rbtree_right_rotate root s p h;
         Some (p, root, h)
       } else Some (node, root, h));
     p \<leftarrow> rb_get rb_parent node h;
     h \<leftarrow> ngx_rbt_black p h;
     p \<leftarrow> rb_get rb_parent node h;
     g \<leftarrow> rb_get rb_parent p h;
     h \<leftarrow> ngx_rbt_red g h;
     p \<leftarrow> rb_get rb_parent node h;
     g \<leftarrow> rb_get rb_parent p h;
     (root, h) \<leftarrow> ngx_rbtree_left_rotate root s g h;
     Some (node, root, h)
   }"

definition rb_insert_round :: "rbaddr \<Rightarrow> rbaddr \<Rightarrow> rbaddr \<Rightarrow> rbheap \<Rightarrow> (rbaddr \<times> rbaddr \<times> rbheap) option" where
  "rb_insert_round root s node h = do {
     p \<leftarrow> rb_get rb_parent node h;
     g \<leftarrow> rb_get rb_parent p h;
     gl \<leftarrow> rb_get rb_left g h;
     if p = gl then do {
       temp \<leftarrow> rb_get rb_right g h;
       red \<leftarrow> ngx_rbt_is_red temp h;
       if red then do { (node, h) \<leftarrow> rb_uncle_red node temp h; Some (node, root, h) }
       else rb_turn_left root s node h
     } else do {
       temp \<leftarrow> rb_get rb_left g h;
       red \<leftarrow> ngx_rbt_is_red temp h;
       if red then do { (node, h) \<leftarrow> rb_uncle_red node temp h; Some (node, root, h) }
       else rb_turn_right root s node h
     }
   }"

text \<open>The condition of the loop, with the parent read only when \<open>node\<close> is not the root.\<close>

definition rb_parent_red :: "rbaddr \<Rightarrow> rbaddr \<Rightarrow> rbheap \<Rightarrow> bool option" where
  "rb_parent_red root node h = (
     if node = root then Some False
     else do { p \<leftarrow> rb_get rb_parent node h; ngx_rbt_is_red p h })"

partial_function (option) rb_insert_loop :: "rbaddr \<Rightarrow> rbaddr \<Rightarrow> rbaddr \<Rightarrow> rbheap \<Rightarrow> (rbaddr \<times> rbheap) option" where
  "rb_insert_loop root s node h =
     Option.bind (rb_parent_red root node h) (\<lambda>red.
       if red then Option.bind (rb_insert_round root s node h) (\<lambda>(node, root, h). rb_insert_loop root s node h)
       else Some (root, h))"

definition ngx_rbtree_insert :: "ngx_rbtree \<Rightarrow> rbaddr \<Rightarrow> rbheap \<Rightarrow> (ngx_rbtree \<times> rbheap) option" where
  "ngx_rbtree_insert tree node h = (
     let s = rb_sentinel tree in
     if rb_root tree = s then do {
       h \<leftarrow> put_parent node 0 h;
       h \<leftarrow> put_left node s h;
       h \<leftarrow> put_right node s h;
       h \<leftarrow> ngx_rbt_black node h;
       Some (tree\<lparr>rb_root := node\<rparr>, h)
     } else do {
       h \<leftarrow> rb_insert tree (rb_root tree) node s h;
       (root, h) \<leftarrow> rb_insert_loop (rb_root tree) s node h;
       h \<leftarrow> ngx_rbt_black root h;
       Some (tree\<lparr>rb_root := root\<rparr>, h)
     })"

section \<open>Deletion\<close>

text \<open>The node that takes the place of \<open>node\<close> and the child that takes its place.\<close>

definition rb_subst :: "rbaddr \<Rightarrow> rbaddr \<Rightarrow> rbheap \<Rightarrow> (rbaddr \<times> rbaddr) option" where
  "rb_subst s node h = do {
     nl \<leftarrow> rb_get rb_left node h;
     nr \<leftarrow> rb_get rb_right node h;
     if nl = s then Some (node, nr)
     else if nr = s then Some (node, nl)
     else do {
       subst \<leftarrow> ngx_rbtree_min nr s h;
       sl \<leftarrow> rb_get rb_left subst h;
       sr \<leftarrow> rb_get rb_right subst h;
       Some (subst, if sl \<noteq> s then sl else sr)
     }
   }"

text \<open>The statements marked DEBUG.\<close>

definition rb_clear :: "rbaddr \<Rightarrow> rbheap \<Rightarrow> rbheap option" where
  "rb_clear node h = do {
     h \<leftarrow> put_left node 0 h;
     h \<leftarrow> put_right node 0 h;
     h \<leftarrow> put_parent node 0 h;
     put_key node 0 h
   }"

text \<open>Replacing the child \<open>old\<close> of its parent.\<close>

definition rb_relink :: "rbaddr \<Rightarrow> rbaddr \<Rightarrow> rbheap \<Rightarrow> rbheap option" where
  "rb_relink old new h = do {
     p \<leftarrow> rb_get rb_parent old h;
     pl \<leftarrow> rb_get rb_left p h;
     if old = pl then put_left p new h else put_right p new h
   }"

text \<open>\<open>subst\<close>, already unlinked, takes over the links and the colour of \<open>node\<close>.\<close>

definition rb_take_over :: "rbaddr \<Rightarrow> rbaddr \<Rightarrow> rbaddr \<Rightarrow> rbaddr \<Rightarrow> rbheap \<Rightarrow> (rbaddr \<times> rbheap) option" where
  "rb_take_over root s node subst h = do {
     nl \<leftarrow> rb_get rb_left node h;
     h \<leftarrow> put_left subst nl h;
     nr \<leftarrow> rb_get rb_right node h;
     h \<leftarrow> put_right subst nr h;
     np \<leftarrow> rb_get rb_parent node h;
     h \<leftarrow> put_parent subst np h;
     h \<leftarrow> ngx_rbt_copy_color subst node h;
     (root, h) \<leftarrow> (
       if node = root then Some (subst, h)
       else do { h \<leftarrow> rb_relink node subst h; Some (root, h) });
     sl \<leftarrow> rb_get rb_left subst h;
     h \<leftarrow> (if sl \<noteq> s then put_parent sl subst h else Some h);
     sr \<leftarrow> rb_get rb_right subst h;
     h \<leftarrow> (if sr \<noteq> s then put_parent sr subst h else Some h);
     Some (root, h)
   }"

definition rb_replace :: "rbaddr \<Rightarrow> rbaddr \<Rightarrow> rbaddr \<Rightarrow> rbaddr \<Rightarrow> rbaddr \<Rightarrow> rbheap \<Rightarrow> (rbaddr \<times> rbheap) option" where
  "rb_replace root s node subst temp h = do {
     sp \<leftarrow> rb_get rb_parent subst h;
     h \<leftarrow> (if sp = node then put_parent temp subst h else put_parent temp sp h);
     rb_take_over root s node subst h
   }"

text \<open>
  One round of the fixup for a left child and for a right child; the value is the new \<open>temp\<close>.
  The part of the round where the sibling \<open>w\<close> is black comes first.
\<close>

definition rb_fix_left_black :: "rbaddr \<Rightarrow> rbaddr \<Rightarrow> rbaddr \<Rightarrow> rbaddr \<Rightarrow> rbheap \<Rightarrow> (rbaddr \<times> rbaddr \<times> rbheap) option" where
  "rb_fix_left_black root s temp w h = do {
     wl \<leftarrow> rb_get rb_left w h;
     lb \<leftarrow> ngx_rbt_is_black wl h;
     wr \<leftarrow> rb_get rb_right w h;
     rb \<leftarrow> (if lb then ngx_rbt_is_black wr h else Some False);
     if lb \<and> rb then do {
       h \<leftarrow> ngx_rbt_red w h;
       p \<leftarrow> rb_get rb_parent temp h;
       Some (p, root, h)
     } else do {
       wr \<leftarrow> rb_get rb_right w h;
       rb \<leftarrow> ngx_rbt_is_black wr h;
       (w, root, h) \<leftarrow> (
         if rb then do {
           wl \<leftarrow> rb_get rb_left w h;
           h \<leftarrow> ngx_rbt_black wl h;
           h \<leftarrow> ngx_rbt_red w h;
           (root, h) \<leftarrow> ngx_rbtree_right_rotate root s w h;
           p \<leftarrow> rb_get rb_parent temp h;
           w \<leftarrow> rb_get rb_right p h;
           Some (w, root, h)
         } else Some (w, root, h));
       p \<leftarrow> rb_get rb_parent temp h;
       h \<leftarrow> ngx_rbt_copy_color w p h;
       p \<leftarrow> rb_get rb_parent temp h;
       h \<leftarrow> ngx_rbt_black p h;
       wr \<leftarrow> rb_get rb_right w h;
       h \<leftarrow> ngx_rbt_black wr h;
       p \<leftarrow> rb_get rb_parent temp h;
       (root, h) \<leftarrow> ngx_rbtree_left_rotate root s p h;
       Some (root, root, h)
     }
   }"

definition rb_fix_left :: "rbaddr \<Rightarrow> rbaddr \<Rightarrow> rbaddr \<Rightarrow> rbheap \<Rightarrow> (rbaddr \<times> rbaddr \<times> rbheap) option" where
  "rb_fix_left root s temp h = do {
     p \<leftarrow> rb_get rb_parent temp h;
     w \<leftarrow> rb_get rb_right p h;
     red \<leftarrow> ngx_rbt_is_red w h;
     (w, root, h) \<leftarrow> (
       if red then do {
         h \<leftarrow> ngx_rbt_black w h;
         p \<leftarrow> rb_get rb_parent temp h;
         h \<leftarrow> ngx_rbt_red p h;
         (root, h) \<leftarrow> ngx_rbtree_left_rotate root s p h;
         p \<leftarrow> rb_get rb_parent temp h;
         w \<leftarrow> rb_get rb_right p h;
         Some (w, root, h)
       } else Some (w, root, h));
     rb_fix_left_black root s temp w h
   }"

definition rb_fix_right_black :: "rbaddr \<Rightarrow> rbaddr \<Rightarrow> rbaddr \<Rightarrow> rbaddr \<Rightarrow> rbheap \<Rightarrow> (rbaddr \<times> rbaddr \<times> rbheap) option" where
  "rb_fix_right_black root s temp w h = do {
     wl \<leftarrow> rb_get rb_left w h;
     lb \<leftarrow> ngx_rbt_is_black wl h;
     wr \<leftarrow> rb_get rb_right w h;
     rb \<leftarrow> (if lb then ngx_rbt_is_black wr h else Some False);
     if lb \<and> rb then do {
       h \<leftarrow> ngx_rbt_red w h;
       p \<leftarrow> rb_get rb_parent temp h;
       Some (p, root, h)
     } else do {
       wl \<leftarrow> rb_get rb_left w h;
       lb \<leftarrow> ngx_rbt_is_black wl h;
       (w, root, h) \<leftarrow> (
         if lb then do {
           wr \<leftarrow> rb_get rb_right w h;
           h \<leftarrow> ngx_rbt_black wr h;
           h \<leftarrow> ngx_rbt_red w h;
           (root, h) \<leftarrow> ngx_rbtree_left_rotate root s w h;
           p \<leftarrow> rb_get rb_parent temp h;
           w \<leftarrow> rb_get rb_left p h;
           Some (w, root, h)
         } else Some (w, root, h));
       p \<leftarrow> rb_get rb_parent temp h;
       h \<leftarrow> ngx_rbt_copy_color w p h;
       p \<leftarrow> rb_get rb_parent temp h;
       h \<leftarrow> ngx_rbt_black p h;
       wl \<leftarrow> rb_get rb_left w h;
       h \<leftarrow> ngx_rbt_black wl h;
       p \<leftarrow> rb_get rb_parent temp h;
       (root, h) \<leftarrow> ngx_rbtree_right_rotate root s p h;
       Some (root, root, h)
     }
   }"

definition rb_fix_right :: "rbaddr \<Rightarrow> rbaddr \<Rightarrow> rbaddr \<Rightarrow> rbheap \<Rightarrow> (rbaddr \<times> rbaddr \<times> rbheap) option" where
  "rb_fix_right root s temp h = do {
     p \<leftarrow> rb_get rb_parent temp h;
     w \<leftarrow> rb_get rb_left p h;
     red \<leftarrow> ngx_rbt_is_red w h;
     (w, root, h) \<leftarrow> (
       if red then do {
         h \<leftarrow> ngx_rbt_black w h;
         p \<leftarrow> rb_get rb_parent temp h;
         h \<leftarrow> ngx_rbt_red p h;
         (root, h) \<leftarrow> ngx_rbtree_right_rotate root s p h;
         p \<leftarrow> rb_get rb_parent temp h;
         w \<leftarrow> rb_get rb_left p h;
         Some (w, root, h)
       } else Some (w, root, h));
     rb_fix_right_black root s temp w h
   }"

definition rb_delete_round :: "rbaddr \<Rightarrow> rbaddr \<Rightarrow> rbaddr \<Rightarrow> rbheap \<Rightarrow> (rbaddr \<times> rbaddr \<times> rbheap) option" where
  "rb_delete_round root s temp h = do {
     p \<leftarrow> rb_get rb_parent temp h;
     pl \<leftarrow> rb_get rb_left p h;
     if temp = pl then rb_fix_left root s temp h else rb_fix_right root s temp h
   }"

text \<open>The condition of the fixup loop.\<close>

definition rb_short :: "rbaddr \<Rightarrow> rbaddr \<Rightarrow> rbheap \<Rightarrow> bool option" where
  "rb_short root temp h = (if temp = root then Some False else ngx_rbt_is_black temp h)"

partial_function (option) rb_delete_loop ::
  "rbaddr \<Rightarrow> rbaddr \<Rightarrow> rbaddr \<Rightarrow> rbheap \<Rightarrow> (rbaddr \<times> rbaddr \<times> rbheap) option" where
  "rb_delete_loop root s temp h =
     Option.bind (rb_short root temp h) (\<lambda>short.
       if short then Option.bind (rb_delete_round root s temp h) (\<lambda>(temp, root, h). rb_delete_loop root s temp h)
       else Some (temp, root, h))"

definition ngx_rbtree_delete :: "ngx_rbtree \<Rightarrow> rbaddr \<Rightarrow> rbheap \<Rightarrow> (ngx_rbtree \<times> rbheap) option" where
  "ngx_rbtree_delete tree node h = (
     let s = rb_sentinel tree; root = rb_root tree in do {
       (subst, temp) \<leftarrow> rb_subst s node h;
       if subst = root then do {
         h \<leftarrow> ngx_rbt_black temp h;
         h \<leftarrow> rb_clear node h;
         Some (tree\<lparr>rb_root := temp\<rparr>, h)
       } else do {
         red \<leftarrow> ngx_rbt_is_red subst h;
         h \<leftarrow> rb_relink subst temp h;
         (root, h) \<leftarrow> (
           if subst = node then do {
             sp \<leftarrow> rb_get rb_parent subst h;
             h \<leftarrow> put_parent temp sp h;
             Some (root, h)
           } else rb_replace root s node subst temp h);
         h \<leftarrow> rb_clear node h;
         if red then Some (tree\<lparr>rb_root := root\<rparr>, h)
         else do {
           (temp, root, h) \<leftarrow> rb_delete_loop root s temp h;
           h \<leftarrow> ngx_rbt_black temp h;
           Some (tree\<lparr>rb_root := root\<rparr>, h)
         }
       }
     })"

section \<open>The successor\<close>

partial_function (option) rb_climb :: "rbaddr \<Rightarrow> rbaddr \<Rightarrow> rbheap \<Rightarrow> rbaddr option" where
  "rb_climb root node h =
     Option.bind (rb_get rb_parent node h) (\<lambda>parent.
       if node = root then Some 0
       else Option.bind (rb_get rb_left parent h) (\<lambda>l.
         if node = l then Some parent else rb_climb root parent h))"

definition ngx_rbtree_next :: "ngx_rbtree \<Rightarrow> rbaddr \<Rightarrow> rbheap \<Rightarrow> rbaddr option" where
  "ngx_rbtree_next tree node h = do {
     r \<leftarrow> rb_get rb_right node h;
     if r \<noteq> rb_sentinel tree then ngx_rbtree_min r (rb_sentinel tree) h
     else rb_climb (rb_root tree) node h
   }"

end
