(* ===== verification/Rbtree_Shape.thy ===== *)
theory Rbtree_Shape
  imports Ngx_Rbtree
begin

text \<open>
  The tree that the links of \<^verbatim>\<open>Ngx_Rbtree\<close> form. A subtree in its context is a zipper \<open>plug fs t\<close>,
  the frames of the way to the root with the nearest first; \<open>rep\<close> says that the heap holds a whole
  tree and is unchanged outside of it. Every elementary action of the code, reading a field,
  colouring a node, rotating, is shown here as an action on the zipper.
\<close>

section \<open>Trees and zippers\<close>

datatype rbtree = Lf | Nd rbtree rbaddr u64 bool rbtree

datatype frame = FL rbaddr u64 bool rbtree | FR rbtree rbaddr u64 bool

fun plug :: "frame list \<Rightarrow> rbtree \<Rightarrow> rbtree" where
  "plug [] t = t"
| "plug (FL a k c r # fs) t = plug fs (Nd t a k c r)"
| "plug (FR l a k c # fs) t = plug fs (Nd l a k c t)"

fun nodes :: "rbtree \<Rightarrow> (rbaddr \<times> u64) list" where
  "nodes Lf = []"
| "nodes (Nd l a k c r) = nodes l @ (a, k) # nodes r"

fun lefts :: "frame list \<Rightarrow> (rbaddr \<times> u64) list" where
  "lefts [] = []"
| "lefts (FL a k c r # fs) = lefts fs"
| "lefts (FR l a k c # fs) = lefts fs @ nodes l @ [(a, k)]"

fun rights :: "frame list \<Rightarrow> (rbaddr \<times> u64) list" where
  "rights [] = []"
| "rights (FL a k c r # fs) = (a, k) # nodes r @ rights fs"
| "rights (FR l a k c # fs) = rights fs"

definition addrs :: "rbtree \<Rightarrow> rbaddr set" where
  "addrs t = fst ` set (nodes t)"

definition faddrs :: "frame list \<Rightarrow> rbaddr set" where
  "faddrs fs = fst ` set (lefts fs) \<union> fst ` set (rights fs)"

fun root :: "rbaddr \<Rightarrow> rbtree \<Rightarrow> rbaddr" where
  "root s Lf = s"
| "root s (Nd l a k c r) = a"

fun faddr :: "frame \<Rightarrow> rbaddr" where
  "faddr (FL a k c r) = a"
| "faddr (FR l a k c) = a"

definition par :: "frame list \<Rightarrow> rbaddr \<Rightarrow> rbaddr" where
  "par fs p = (case fs of [] \<Rightarrow> p | f # _ \<Rightarrow> faddr f)"

fun red :: "rbtree \<Rightarrow> bool" where
  "red Lf = False"
| "red (Nd l a k c r) = c"

fun fred :: "frame \<Rightarrow> bool" where
  "fred (FL a k c r) = c"
| "fred (FR l a k c) = c"

fun paint :: "bool \<Rightarrow> rbtree \<Rightarrow> rbtree" where
  "paint c' Lf = Lf"
| "paint c' (Nd l a k c r) = Nd l a k c' r"

definition col :: "bool \<Rightarrow> u8" where
  "col c = (if c then 1 else 0)"

lemma par_simps [simp]: "par [] p = p" "par (f # fs) p = faddr f"
  by (simp_all add: par_def)

lemma addrs_simps [simp]:
  "addrs Lf = {}" "addrs (Nd l a k c r) = insert a (addrs l \<union> addrs r)"
  by (auto simp: addrs_def)

lemma faddrs_simps [simp]:
  "faddrs [] = {}" "faddrs (FL a k c r # fs) = insert a (addrs r \<union> faddrs fs)"
  "faddrs (FR l a k c # fs) = insert a (addrs l \<union> faddrs fs)"
  by (auto simp: addrs_def faddrs_def)

lemma nodes_plug [simp]: "nodes (plug fs t) = lefts fs @ nodes t @ rights fs"
  by (induction fs t rule: plug.induct) simp_all

lemma addrs_plug [simp]: "addrs (plug fs t) = faddrs fs \<union> addrs t"
  by (auto simp: addrs_def faddrs_def)

lemma nodes_paint [simp]: "nodes (paint c t) = nodes t" "addrs (paint c t) = addrs t"
  by (cases t; simp)+

lemma root_paint [simp]: "root s (paint c t) = root s t"
  by (cases t) simp_all

lemma red_paint [simp]: "red (paint False t) = False"
  by (cases t) simp_all

lemma paint_id: "red t = c \<Longrightarrow> paint c t = t"
  by (cases t) auto

lemma plug_append [simp]: "plug (fs @ gs) t = plug gs (plug fs t)"
  by (induction fs t rule: plug.induct) simp_all

lemma lefts_append [simp]: "lefts (fs @ gs) = lefts gs @ lefts fs"
  by (induction fs rule: lefts.induct) simp_all

lemma rights_append [simp]: "rights (fs @ gs) = rights fs @ rights gs"
  by (induction fs rule: rights.induct) simp_all

lemma plug_eq_Lf [simp]: "plug fs t = Lf \<longleftrightarrow> fs = [] \<and> t = Lf"
  by (induction fs t rule: plug.induct) auto

lemma root_in [simp]: "t \<noteq> Lf \<Longrightarrow> root s t \<in> addrs t"
  by (cases t) simp_all

lemma root_notin: "x \<notin> addrs t \<Longrightarrow> x \<noteq> s \<Longrightarrow> root s t \<noteq> x" "x \<notin> addrs t \<Longrightarrow> x \<noteq> s \<Longrightarrow> x \<noteq> root s t"
  by (cases t; auto)+

text \<open>No address occurs twice.\<close>

definition uniq :: "rbtree \<Rightarrow> bool" where
  "uniq t = distinct (map fst (nodes t))"

definition funiq :: "frame list \<Rightarrow> bool" where
  "funiq fs = distinct (map fst (lefts fs @ rights fs))"

lemma uniq_simps [simp]:
  "uniq Lf"
  "uniq (Nd l a k c r) \<longleftrightarrow> uniq l \<and> uniq r \<and> a \<notin> addrs l \<and> a \<notin> addrs r \<and> addrs l \<inter> addrs r = {}"
  by (auto simp: uniq_def addrs_def image_iff)

lemma funiq_simps [simp]:
  "funiq []"
  "funiq (FL a k c r # fs) \<longleftrightarrow> funiq fs \<and> uniq r \<and> a \<notin> addrs r \<and> a \<notin> faddrs fs \<and> addrs r \<inter> faddrs fs = {}"
  "funiq (FR l a k c # fs) \<longleftrightarrow> funiq fs \<and> uniq l \<and> a \<notin> addrs l \<and> a \<notin> faddrs fs \<and> addrs l \<inter> faddrs fs = {}"
  by (auto simp: funiq_def uniq_def addrs_def faddrs_def image_iff)

lemma uniq_plug [simp]: "uniq (plug fs t) \<longleftrightarrow> uniq t \<and> funiq fs \<and> addrs t \<inter> faddrs fs = {}"
  by (induction fs t rule: plug.induct) auto

section \<open>Trees in the heap\<close>

definition node_of :: "u64 \<Rightarrow> rbaddr \<Rightarrow> rbaddr \<Rightarrow> rbaddr \<Rightarrow> bool \<Rightarrow> ngx_rbtree_node" where
  "node_of k l r p c = \<lparr>rb_key = k, rb_left = l, rb_right = r, rb_parent = p, rb_color = col c\<rparr>"

fun is_tree :: "rbheap \<Rightarrow> rbaddr \<Rightarrow> rbtree \<Rightarrow> rbaddr \<Rightarrow> bool" where
  "is_tree h s Lf p = True"
| "is_tree h s (Nd l a k c r) p \<longleftrightarrow>
     h a = Some (node_of k (root s l) (root s r) p c) \<and> is_tree h s l a \<and> is_tree h s r a"

fun is_ctx :: "rbheap \<Rightarrow> rbaddr \<Rightarrow> frame list \<Rightarrow> rbaddr \<Rightarrow> rbaddr \<Rightarrow> bool" where
  "is_ctx h s [] x p = True"
| "is_ctx h s (FL a k c r # fs) x p \<longleftrightarrow>
     h a = Some (node_of k x (root s r) (par fs p) c) \<and> is_tree h s r a \<and> is_ctx h s fs a p"
| "is_ctx h s (FR l a k c # fs) x p \<longleftrightarrow>
     h a = Some (node_of k (root s l) x (par fs p) c) \<and> is_tree h s l a \<and> is_ctx h s fs a p"

lemma is_tree_cong: "(\<And>x. x \<in> addrs t \<Longrightarrow> h' x = h x) \<Longrightarrow> is_tree h' s t p = is_tree h s t p"
  by (induction t arbitrary: p) auto

lemma is_ctx_cong: "(\<And>y. y \<in> faddrs fs \<Longrightarrow> h' y = h y) \<Longrightarrow> is_ctx h' s fs x p = is_ctx h s fs x p"
proof (induction fs arbitrary: x)
  case (Cons f fs)
  then have "is_ctx h' s fs x p = is_ctx h s fs x p" for x
    by (cases f) auto
  with Cons.prems show ?case
    by (cases f) (simp_all add: is_tree_cong [of _ h' h])
qed simp

lemma is_tree_frame [simp]: "a \<notin> addrs t \<Longrightarrow> is_tree (h(a := v)) s t p = is_tree h s t p"
  by (rule is_tree_cong) auto

lemma is_ctx_frame [simp]: "a \<notin> faddrs fs \<Longrightarrow> is_ctx (h(a := v)) s fs x p = is_ctx h s fs x p"
  by (rule is_ctx_cong) auto

lemma is_tree_plug: "is_tree h s (plug fs t) p \<longleftrightarrow> is_ctx h s fs (root s t) p \<and> is_tree h s t (par fs p)"
  by (induction fs t rule: plug.induct) auto

definition ztop :: "frame list \<Rightarrow> rbaddr \<Rightarrow> rbaddr" where
  "ztop fs a = (if fs = [] then a else faddr (last fs))"

lemma ztop_Nil [simp]: "ztop [] a = a"
  by (simp add: ztop_def)

lemma root_plug [simp]: "root s (plug fs t) = ztop fs (root s t)"
  by (induction fs t rule: plug.induct) (simp_all add: ztop_def)

lemma faddr_last [simp]: "fs \<noteq> [] \<Longrightarrow> faddr (last fs) \<in> faddrs fs"
proof (induction fs)
  case (Cons f fs)
  then show ?case by (cases f; cases fs) auto
qed simp

lemma faddr_par [simp]: "fs \<noteq> [] \<Longrightarrow> par fs p \<in> faddrs fs"
  by (cases fs rule: lefts.cases) auto

text \<open>The state of the code between two statements; \<open>h0\<close> is the heap outside of the tree.\<close>

definition rep :: "rbheap \<Rightarrow> rbheap \<Rightarrow> rbaddr \<Rightarrow> rbaddr \<Rightarrow> rbtree \<Rightarrow> bool" where
  "rep h0 h R s T \<longleftrightarrow> R = root s T \<and> (\<exists>p. is_tree h s T p) \<and> uniq T \<and> s \<notin> addrs T \<and> 0 \<notin> addrs T \<and>
     (\<exists>sn. h0 s = Some sn \<and> rb_color sn = 0) \<and> (\<forall>x. x \<notin> addrs T \<longrightarrow> h x = h0 x)"

lemma rep_color:
  assumes "rep h0 h R s (plug fs (Nd l a k c r))"
  shows "\<exists>h'. put_color a (col c') h = Some h' \<and> rep h0 h' R s (plug fs (Nd l a k c' r))"
proof -
  from assms obtain p where "h a = Some (node_of k (root s l) (root s r) (par fs p) c)"
    by (auto simp: rep_def is_tree_plug)
  with assms show ?thesis
    by (cases fs) (auto simp: rep_def is_tree_plug put_color_def rb_put_def node_of_def)
qed

text \<open>Colouring a node changes no link.\<close>

lemma put_color_get:
  assumes "put_color a v h = Some h'"
  shows "rb_get rb_left x h' = rb_get rb_left x h" "rb_get rb_right x h' = rb_get rb_right x h"
    "rb_get rb_parent x h' = rb_get rb_parent x h" "rb_get rb_key x h' = rb_get rb_key x h"
    "x \<noteq> a \<Longrightarrow> h' x = h x"
  using assms by (auto simp: put_color_def rb_put_def rb_get_def split: option.splits if_splits)

lemmas paint_get = put_color_get [where v = 0, folded ngx_rbt_black_def]
  put_color_get [where v = 1, folded ngx_rbt_red_def]

lemmas rep_black = rep_color [where c' = False, unfolded col_def, simplified, folded ngx_rbt_black_def]
lemmas rep_red = rep_color [where c' = True, unfolded col_def, simplified, folded ngx_rbt_red_def]

text \<open>The fields of a node and of the children of a node in the tree.\<close>

lemma rb_get_node:
  assumes "h a = Some (node_of k l r p c)"
  shows "rb_get rb_key a h = Some k" "rb_get rb_left a h = Some l" "rb_get rb_right a h = Some r"
    "rb_get rb_parent a h = Some p" "rb_get rb_color a h = Some (col c)"
    "ngx_rbt_is_red a h = Some c" "ngx_rbt_is_black a h = Some (\<not> c)"
  using assms by (simp_all add: rb_get_def node_of_def ngx_rbt_is_red_def ngx_rbt_is_black_def col_def)

lemma rep_is_red:
  assumes "rep h0 h R s (plug fs t)"
  shows "ngx_rbt_is_red (root s t) h = Some (red t)" "ngx_rbt_is_black (root s t) h = Some (\<not> red t)"
  using assms
  by (cases t; auto simp: rep_def is_tree_plug rb_get_node ngx_rbt_is_red_def ngx_rbt_is_black_def rb_get_def node_of_def col_def)+

lemma rep_reads:
  assumes "rep h0 h R s (plug fs (Nd l a k c r))"
  shows "rb_get rb_key a h = Some k" "rb_get rb_left a h = Some (root s l)" "rb_get rb_right a h = Some (root s r)"
    "rb_get rb_color a h = Some (col c)" "ngx_rbt_is_red a h = Some c" "ngx_rbt_is_black a h = Some (\<not> c)"
    "ngx_rbt_is_red (root s l) h = Some (red l)" "ngx_rbt_is_black (root s l) h = Some (\<not> red l)"
    "ngx_rbt_is_red (root s r) h = Some (red r)" "ngx_rbt_is_black (root s r) h = Some (\<not> red r)"
    "l \<noteq> Lf \<Longrightarrow> rb_get rb_parent (root s l) h = Some a"
    "r \<noteq> Lf \<Longrightarrow> rb_get rb_parent (root s r) h = Some a"
proof -
  from assms obtain q where q: "h a = Some (node_of k (root s l) (root s r) (par fs q) c)"
    "is_tree h s l a" "is_tree h s r a"
    by (auto simp: rep_def is_tree_plug)
  from q(1) show "rb_get rb_key a h = Some k" "rb_get rb_left a h = Some (root s l)"
    "rb_get rb_right a h = Some (root s r)" "rb_get rb_color a h = Some (col c)"
    "ngx_rbt_is_red a h = Some c" "ngx_rbt_is_black a h = Some (\<not> c)" by (simp_all add: rb_get_node)
  from rep_is_red [of h0 h R s "FL a k c r # fs" l] rep_is_red [of h0 h R s "FR l a k c # fs" r] assms
  show "ngx_rbt_is_red (root s l) h = Some (red l)" "ngx_rbt_is_black (root s l) h = Some (\<not> red l)"
    "ngx_rbt_is_red (root s r) h = Some (red r)" "ngx_rbt_is_black (root s r) h = Some (\<not> red r)"
    by simp_all
  from q(2) show "l \<noteq> Lf \<Longrightarrow> rb_get rb_parent (root s l) h = Some a" by (cases l) (auto simp: rb_get_node)
  from q(3) show "r \<noteq> Lf \<Longrightarrow> rb_get rb_parent (root s r) h = Some a" by (cases r) (auto simp: rb_get_node)
qed

lemma rep_root: "rep h0 h R s (plug (f # fs) t) \<Longrightarrow> R \<in> faddrs (f # fs)"
  using faddr_last [of "f # fs"] by (simp only: rep_def root_plug ztop_def) simp

lemma rep_change:
  assumes "rep h0 h R s T" "nodes T' = nodes T" "R' = root s T'" "is_tree h' s T' p"
    "\<And>x. x \<notin> addrs T \<Longrightarrow> h' x = h x"
  shows "rep h0 h' R' s T'"
  using assms unfolding rep_def uniq_def addrs_def by auto

section \<open>Rotations\<close>

lemmas rotate_simps = rb_get_def put_left_def put_right_def put_parent_def rb_put_def node_of_def

lemma left_rotate_rep:
  assumes r: "rep h0 h R s (plug fs (Nd a x kx cx (Nd b y ky cy c)))"
  shows "\<exists>h' R'. ngx_rbtree_left_rotate R s x h = Some (R', h') \<and>
    rep h0 h' R' s (plug fs (Nd (Nd a x kx cx b) y ky cy c))"
proof -
  from r obtain q where v: "h x = Some (node_of kx (root s a) y (par fs q) cx)"
     "h y = Some (node_of ky (root s b) (root s c) x cy)"
     "is_ctx h s fs x q" "is_tree h s a x" "is_tree h s b y" "is_tree h s c y"
     and R: "R = ztop fs x"
    by (auto simp: rep_def is_tree_plug)
  from r have u: "x \<notin> addrs a" "x \<noteq> y" "y \<noteq> x" "x \<notin> addrs b" "x \<notin> addrs c"
     "y \<notin> addrs a" "y \<notin> addrs b" "y \<notin> addrs c" "x \<notin> faddrs fs" "y \<notin> faddrs fs" "x \<noteq> s" "y \<noteq> s"
     "uniq b" "addrs b \<inter> addrs a = {}" "addrs b \<inter> addrs c = {}" "addrs b \<inter> faddrs fs = {}" "s \<notin> addrs b"
     "funiq fs" "addrs a \<inter> faddrs fs = {}" "addrs c \<inter> faddrs fs = {}"
    by (auto simp: rep_def)
  have R': "R \<noteq> x \<and> x \<noteq> R" if "fs \<noteq> []"
    using that u(9,10) R faddr_last [OF that] by (auto simp: ztop_def)
  show ?thesis
  proof (cases fs rule: lefts.cases)
    case 1
    from v u R show ?thesis
      by (cases b) (simp_all add: 1 ngx_rbtree_left_rotate_def rotate_simps,
        (rule rep_change [OF r [unfolded 1], where p = q], simp_all add: node_of_def)+)
  next
    case (2 g kg cg u gs)
    from u(9-12) have "root s u \<noteq> x" "root s u \<noteq> y" "x \<noteq> root s u" "y \<noteq> root s u"
      unfolding 2 by (simp_all add: root_notin)
    moreover from r have "R = ztop gs g" by (simp add: 2 rep_def)
    ultimately show ?thesis using v u R'
      apply (cases b)
      subgoal by (clarsimp simp: 2 node_of_def, simp add: ngx_rbtree_left_rotate_def rotate_simps,
        rule rep_change [OF r [unfolded 2], where p = q], simp_all add: node_of_def is_tree_plug)
      subgoal by (clarsimp simp: 2 node_of_def, simp add: ngx_rbtree_left_rotate_def rotate_simps,
        rule rep_change [OF r [unfolded 2], where p = q], simp_all add: node_of_def is_tree_plug)
      done
  next
    case (3 l g kg cg gs)
    from u(9-12) have "root s l \<noteq> x" "root s l \<noteq> y" "x \<noteq> root s l" "y \<noteq> root s l"
      unfolding 3 by (simp_all add: root_notin)
    moreover from r have "R = ztop gs g" by (simp add: 3 rep_def)
    ultimately show ?thesis using v u R'
      apply (cases b)
      subgoal by (clarsimp simp: 3 node_of_def, simp add: ngx_rbtree_left_rotate_def rotate_simps,
        rule rep_change [OF r [unfolded 3], where p = q], simp_all add: node_of_def is_tree_plug)
      subgoal by (clarsimp simp: 3 node_of_def, simp add: ngx_rbtree_left_rotate_def rotate_simps,
        rule rep_change [OF r [unfolded 3], where p = q], simp_all add: node_of_def is_tree_plug)
      done
  qed
qed

lemma right_rotate_rep:
  assumes r: "rep h0 h R s (plug fs (Nd (Nd a x kx cx b) y ky cy c))"
  shows "\<exists>h' R'. ngx_rbtree_right_rotate R s y h = Some (R', h') \<and>
    rep h0 h' R' s (plug fs (Nd a x kx cx (Nd b y ky cy c)))"
proof -
  from r obtain q where v: "h y = Some (node_of ky x (root s c) (par fs q) cy)"
     "h x = Some (node_of kx (root s a) (root s b) y cx)"
     "is_ctx h s fs y q" "is_tree h s a x" "is_tree h s b x" "is_tree h s c y"
     and R: "R = ztop fs y"
    by (auto simp: rep_def is_tree_plug)
  from r have u: "x \<notin> addrs a" "x \<noteq> y" "y \<noteq> x" "x \<notin> addrs b" "x \<notin> addrs c"
     "y \<notin> addrs a" "y \<notin> addrs b" "y \<notin> addrs c" "x \<notin> faddrs fs" "y \<notin> faddrs fs" "x \<noteq> s" "y \<noteq> s"
     "uniq b" "addrs b \<inter> addrs a = {}" "addrs b \<inter> addrs c = {}" "addrs b \<inter> faddrs fs = {}" "s \<notin> addrs b"
     "funiq fs" "addrs a \<inter> faddrs fs = {}" "addrs c \<inter> faddrs fs = {}"
    by (auto simp: rep_def)
  have R': "R \<noteq> y \<and> y \<noteq> R" if "fs \<noteq> []"
    using that u(9,10) R faddr_last [OF that] by (auto simp: ztop_def)
  show ?thesis
  proof (cases fs rule: lefts.cases)
    case 1
    from v u R show ?thesis
      by (cases b) (simp_all add: 1 ngx_rbtree_right_rotate_def rotate_simps,
        (rule rep_change [OF r [unfolded 1], where p = q], simp_all add: node_of_def)+)
  next
    case (2 g kg cg u gs)
    from u(9-12) have "root s u \<noteq> x" "root s u \<noteq> y" "x \<noteq> root s u" "y \<noteq> root s u"
      unfolding 2 by (simp_all add: root_notin)
    moreover from r have "R = ztop gs g" by (simp add: 2 rep_def)
    ultimately show ?thesis using v u R'
      apply (cases b)
      subgoal by (clarsimp simp: 2 node_of_def, simp add: ngx_rbtree_right_rotate_def rotate_simps,
        rule rep_change [OF r [unfolded 2], where p = q], simp_all add: node_of_def is_tree_plug)
      subgoal by (clarsimp simp: 2 node_of_def, simp add: ngx_rbtree_right_rotate_def rotate_simps,
        rule rep_change [OF r [unfolded 2], where p = q], simp_all add: node_of_def is_tree_plug)
      done
  next
    case (3 l g kg cg gs)
    from u(9-12) have "root s l \<noteq> x" "root s l \<noteq> y" "x \<noteq> root s l" "y \<noteq> root s l"
      unfolding 3 by (simp_all add: root_notin)
    moreover from r have "R = ztop gs g" by (simp add: 3 rep_def)
    ultimately show ?thesis using v u R'
      apply (cases b)
      subgoal by (clarsimp simp: 3 node_of_def, simp add: ngx_rbtree_right_rotate_def rotate_simps,
        rule rep_change [OF r [unfolded 3], where p = q], simp_all add: node_of_def is_tree_plug)
      subgoal by (clarsimp simp: 3 node_of_def, simp add: ngx_rbtree_right_rotate_def rotate_simps,
        rule rep_change [OF r [unfolded 3], where p = q], simp_all add: node_of_def is_tree_plug)
      done
  qed
qed

section \<open>Colours and heights\<close>

fun bheight :: "rbtree \<Rightarrow> nat" where
  "bheight Lf = 0"
| "bheight (Nd l a k c r) = bheight l + (if c then 0 else 1)"

fun invh :: "rbtree \<Rightarrow> bool" where
  "invh Lf = True"
| "invh (Nd l a k c r) \<longleftrightarrow> invh l \<and> invh r \<and> bheight l = bheight r"

fun invc :: "rbtree \<Rightarrow> bool" where
  "invc Lf = True"
| "invc (Nd l a k c r) \<longleftrightarrow> invc l \<and> invc r \<and> (c \<longrightarrow> \<not> red l \<and> \<not> red r)"

text \<open>A context, for a hole of black height \<open>n\<close>, and for a black hole.\<close>

fun cinvh :: "frame list \<Rightarrow> nat \<Rightarrow> bool" where
  "cinvh [] n = True"
| "cinvh (FL a k c r # fs) n \<longleftrightarrow> invh r \<and> bheight r = n \<and> cinvh fs (n + (if c then 0 else 1))"
| "cinvh (FR l a k c # fs) n \<longleftrightarrow> invh l \<and> bheight l = n \<and> cinvh fs (n + (if c then 0 else 1))"

definition hred :: "frame list \<Rightarrow> bool" where
  "hred fs \<longleftrightarrow> fs \<noteq> [] \<and> fred (hd fs)"

fun cinvc :: "frame list \<Rightarrow> bool" where
  "cinvc [] = True"
| "cinvc (FL a k c r # fs) \<longleftrightarrow> invc r \<and> (c \<longrightarrow> \<not> red r \<and> \<not> hred fs) \<and> cinvc fs"
| "cinvc (FR l a k c # fs) \<longleftrightarrow> invc l \<and> (c \<longrightarrow> \<not> red l \<and> \<not> hred fs) \<and> cinvc fs"

lemma hred_simps [simp]: "\<not> hred []" "hred (f # fs) = fred f"
  by (simp_all add: hred_def)

lemma invh_plug [simp]: "invh (plug fs t) \<longleftrightarrow> invh t \<and> cinvh fs (bheight t)"
  by (induction fs t rule: plug.induct) auto

lemma invc_plug [simp]: "invc (plug fs t) \<longleftrightarrow> invc t \<and> cinvc fs \<and> (hred fs \<longrightarrow> \<not> red t)"
  by (induction fs t rule: plug.induct) auto

lemma red_plug: "fs \<noteq> [] \<Longrightarrow> red (plug fs t) = fred (last fs)"
proof (induction fs t rule: plug.induct)
  case (2 a k c r fs t)
  then show ?case by (cases fs) auto
next
  case (3 l a k c fs t)
  then show ?case by (cases fs) auto
qed simp

lemma invs_paint [simp]:
  "invc t \<Longrightarrow> invc (paint False t)" "invh (paint c t) = invh t"
  by (cases t; simp)+

lemma bheight_paint: "bheight (paint False t) = bheight t + (if red t then 1 else 0)"
  by (cases t) auto

text \<open>A red-black tree: black root, no red child of a red node, equal black heights.\<close>

definition rbt :: "rbtree \<Rightarrow> bool" where
  "rbt T \<longleftrightarrow> invc T \<and> invh T \<and> \<not> red T"

fun height :: "rbtree \<Rightarrow> nat" where
  "height Lf = 0"
| "height (Nd l a k c r) = max (height l) (height r) + 1"

lemma height_bheight: "invc T \<Longrightarrow> invh T \<Longrightarrow> height T \<le> 2 * bheight T + (if red T then 1 else 0)"
proof (induction T)
  case (Nd l a k c r)
  then show ?case by (cases c) (auto split: if_splits)
qed simp

lemma bheight_nodes: "invh T \<Longrightarrow> 2 ^ bheight T \<le> length (nodes T) + 1"
proof (induction T)
  case (Nd l a k c r)
  then have "2 ^ bheight l \<le> length (nodes l) + 1" "2 ^ bheight l \<le> length (nodes r) + 1" by auto
  then show ?case by auto
qed simp

text \<open>Half of the height is at most the logarithm of the number of nodes.\<close>

lemma rbt_height: "rbt T \<Longrightarrow> 2 ^ height T \<le> (length (nodes T) + 1) ^ 2"
proof -
  assume T: "rbt T"
  then have "height T \<le> 2 * bheight T" using height_bheight [of T] by (simp add: rbt_def)
  then have "(2::nat) ^ height T \<le> (2 ^ bheight T) ^ 2"
    by (simp add: power_increasing power_mult [symmetric] mult.commute)
  also have "\<dots> \<le> (length (nodes T) + 1) ^ 2"
    using bheight_nodes [of T] T by (simp add: rbt_def power_mono)
  finally show ?thesis .
qed

end
