(* ===== verification/Rbtree_Insert.thy ===== *)
theory Rbtree_Insert
  imports Rbtree_Shape
begin

text \<open>
  Insertion into the red-black tree: the walk to the place of the new node, the re-balancing loop
  as a function on zippers, and the simulation between the two.
\<close>

section \<open>The walk\<close>

fun locate :: "(u64 \<Rightarrow> u64 \<Rightarrow> bool) \<Rightarrow> u64 \<Rightarrow> rbtree \<Rightarrow> frame list \<Rightarrow> frame list" where
  "locate lt k Lf fs = fs"
| "locate lt k (Nd l a j c r) fs =
     (if lt k j then locate lt k l (FL a j c r # fs) else locate lt k r (FR l a j c # fs))"

fun is_FL :: "frame \<Rightarrow> bool" where
  "is_FL (FL a k c r) = True"
| "is_FL (FR l a k c) = False"

lemma plug_locate [simp]: "plug (locate lt k t fs) Lf = plug fs t"
  by (induction t arbitrary: fs) simp_all

lemma locate_append: "locate lt k t fs = locate lt k t [] @ fs"
proof (induction t arbitrary: fs)
  case (Nd l a j c r)
  show ?case
    using Nd [of "FL a j c r # fs"] Nd [of "[FL a j c r]"] Nd [of "FR l a j c # fs"] Nd [of "[FR l a j c]"]
    by auto
qed simp

lemma root_neq: "s \<notin> addrs t \<Longrightarrow> root s t = s \<longleftrightarrow> t = Lf"
  by (cases t) auto

lemma rb_walk_locate:
  assumes "is_tree h s t p" "s \<notin> addrs t" "rb_get rb_key x h = Some k" "t \<noteq> Lf"
  shows "\<exists>f gs. locate lt k t fs = f # gs \<and> rb_walk lt (root s t) x s h = Some (faddr f, is_FL f)"
  using assms
proof (induction t arbitrary: p fs)
  case (Nd l a j c r)
  from Nd.prems have a: "rb_get rb_key a h = Some j" "rb_get rb_left a h = Some (root s l)" "rb_get rb_right a h = Some (root s r)"
    by (auto simp: rb_get_node)
  from Nd.prems have t: "is_tree h s l a" "is_tree h s r a" by simp_all
  show ?case
  proof (cases "lt k j")
    case True
    then show ?thesis
      using Nd.IH(1) [of a "FL a j c r # fs"] Nd.prems a t
      by (cases "l = Lf") (auto simp: rb_walk.simps [of lt a] root_neq simp del: is_tree.simps(2))
  next
    case False
    then show ?thesis
      using Nd.IH(2) [of a "FR l a j c # fs"] Nd.prems a t
      by (cases "r = Lf") (auto simp: rb_walk.simps [of lt a] root_neq simp del: is_tree.simps(2))
  qed
qed simp

lemma rep_grow:
  assumes "rep h0 h R s T" "addrs T' = insert x (addrs T)" "uniq T'" "R = root s T'" "is_tree h' s T' p"
    "x \<noteq> s" "x \<noteq> 0" "\<And>y. y \<notin> addrs T' \<Longrightarrow> h' y = h y"
  shows "rep h0 h' R s T'"
  using assms unfolding rep_def by auto

lemmas put_simps = rb_put_def put_left_def put_right_def put_parent_def put_color_def put_key_def
  ngx_rbt_red_def ngx_rbt_black_def

lemma rb_link_rep:
  assumes r: "rep h0 h R s T" and T: "T \<noteq> Lf" and x: "h x = Some n" "rb_key n = k" "x \<notin> addrs T" "x \<noteq> s" "x \<noteq> 0"
  shows "\<exists>h'. rb_link lt R x s h = Some h' \<and> rep h0 h' R s (plug (locate lt k T []) (Nd Lf x k True Lf))"
proof -
  from r obtain q where t: "is_tree h s T q" and s: "s \<notin> addrs T" and R: "R = root s T"
    by (auto simp: rep_def)
  from x have "rb_get rb_key x h = Some k" by (simp add: rb_get_def)
  from rb_walk_locate [OF t s this T, of lt "[]"] obtain f gs where
    f: "locate lt k T [] = f # gs" "rb_walk lt R x s h = Some (faddr f, is_FL f)"
    unfolding R by auto
  have T': "T = plug (f # gs) Lf" using f(1) plug_locate [of lt k T "[]"] by simp
  show ?thesis
  proof (cases f)
    case (FL a j c r')
    with r x f(2) obtain m where v: "h a = Some m" "m = node_of j s (root s r') (par gs q) c"
      "is_tree h s r' a" "is_ctx h s gs a q" "uniq r'" "funiq gs" "a \<notin> addrs r'" "a \<notin> faddrs gs"
      "x \<notin> addrs r'" "x \<notin> faddrs gs" "x \<noteq> a" "addrs r' \<inter> faddrs gs = {}"
      using t unfolding T' by (auto simp: rep_def is_tree_plug)
    have R': "R = ztop gs a" using R FL unfolding T' by simp
    from v x f(2) show ?thesis unfolding f(1) FL
      apply (clarsimp simp: node_of_def, simp add: rb_link_def put_simps)
      apply (rule rep_grow [OF r [unfolded T' FL], where x = x and p = q])
      apply (simp_all add: node_of_def is_tree_plug R' col_def insert_commute)
      done
  next
    case (FR l a j c)
    with r x f(2) obtain m where v: "h a = Some m" "m = node_of j (root s l) s (par gs q) c"
      "is_tree h s l a" "is_ctx h s gs a q" "uniq l" "funiq gs" "a \<notin> addrs l" "a \<notin> faddrs gs"
      "x \<notin> addrs l" "x \<notin> faddrs gs" "x \<noteq> a" "addrs l \<inter> faddrs gs = {}"
      using t unfolding T' by (auto simp: rep_def is_tree_plug)
    have R': "R = ztop gs a" using R FR unfolding T' by simp
    from v x f(2) show ?thesis unfolding f(1) FR
      apply (clarsimp simp: node_of_def, simp add: rb_link_def put_simps)
      apply (rule rep_grow [OF r [unfolded T' FR], where x = x and p = q])
      apply (simp_all add: node_of_def is_tree_plug R' col_def insert_commute)
      done
  qed
qed

section \<open>Re-balancing\<close>

fun ins_fix :: "frame list \<Rightarrow> rbtree \<Rightarrow> rbtree" where
  "ins_fix (FL p kp True b # FL g kg cg u # fs) a =
    (if red u then ins_fix fs (Nd (Nd a p kp False b) g kg True (paint False u))
     else plug fs (Nd a p kp False (Nd b g kg True u)))"
| "ins_fix (FR a p kp True # FL g kg cg u # fs) (Nd b x kx cx c) =
    (if red u then ins_fix fs (Nd (Nd a p kp False (Nd b x kx cx c)) g kg True (paint False u))
     else plug fs (Nd (Nd a p kp True b) x kx False (Nd c g kg True u)))"
| "ins_fix (FR b p kp True # FR u g kg cg # fs) a =
    (if red u then ins_fix fs (Nd (paint False u) g kg True (Nd b p kp False a))
     else plug fs (Nd (Nd u g kg True b) p kp False a))"
| "ins_fix (FL p kp True a # FR u g kg cg # fs) (Nd c x kx cx b) =
    (if red u then ins_fix fs (Nd (paint False u) g kg True (Nd (Nd c x kx cx b) p kp False a))
     else plug fs (Nd (Nd u g kg True c) x kx False (Nd b p kp True a)))"
| "ins_fix fs t = plug fs t"

lemma nodes_ins_fix: "nodes (ins_fix fs t) = lefts fs @ nodes t @ rights fs"
  by (induction fs t rule: ins_fix.induct) simp_all

text \<open>Straight-line parts of a round, given what their reads and writes do.\<close>

lemma rb_uncle_red_eval:
  assumes "rb_get rb_parent x h = Some p" "rb_get rb_parent p h = Some g"
    "ngx_rbt_black p h = Some h1" "ngx_rbt_black u h1 = Some h2" "ngx_rbt_red g h2 = Some h3"
  shows "rb_uncle_red x u h = Some (g, h3)"
  using assms paint_get(3) [OF assms(3)] paint_get(3) [OF assms(4)] paint_get(8) [OF assms(5)]
  by (simp add: rb_uncle_red_def)

lemma rb_turn_left_eval:
  assumes "rb_get rb_parent x h = Some p" "rb_get rb_right p h = Some pr"
    "(if x = pr then Option.bind (ngx_rbtree_left_rotate R s p h) (\<lambda>(R, h). Some (p, R, h)) else Some (x, R, h)) =
       Some (y, R1, h1)"
    "rb_get rb_parent y h1 = Some q" "rb_get rb_parent q h1 = Some g" "ngx_rbt_black q h1 = Some h2"
    "ngx_rbt_red g h2 = Some h3" "ngx_rbtree_right_rotate R1 s g h3 = Some (R2, h4)"
  shows "rb_turn_left R s x h = Some (y, R2, h4)"
  using assms paint_get(3) [OF assms(6)] paint_get(8) [OF assms(7)]
  by (simp add: rb_turn_left_def)

lemma rb_turn_right_eval:
  assumes "rb_get rb_parent x h = Some p" "rb_get rb_left p h = Some pl"
    "(if x = pl then Option.bind (ngx_rbtree_right_rotate R s p h) (\<lambda>(R, h). Some (p, R, h)) else Some (x, R, h)) =
       Some (y, R1, h1)"
    "rb_get rb_parent y h1 = Some q" "rb_get rb_parent q h1 = Some g" "ngx_rbt_black q h1 = Some h2"
    "ngx_rbt_red g h2 = Some h3" "ngx_rbtree_left_rotate R1 s g h3 = Some (R2, h4)"
  shows "rb_turn_right R s x h = Some (y, R2, h4)"
  using assms paint_get(3) [OF assms(6)] paint_get(8) [OF assms(7)]
  by (simp add: rb_turn_right_def)

text \<open>The same parts on the tree.\<close>

lemma finish_left:
  assumes "rep h0 h R s (plug fs (Nd (Nd a p kp cp b) g kg cg u))"
  shows "\<exists>h1 h2 R' h3. ngx_rbt_black p h = Some h1 \<and> ngx_rbt_red g h1 = Some h2 \<and>
    ngx_rbtree_right_rotate R s g h2 = Some (R', h3) \<and> rep h0 h3 R' s (plug fs (Nd a p kp False (Nd b g kg True u)))"
proof -
  from rep_black [of h0 h R s "FL g kg cg u # fs" a p kp cp b] assms obtain h1 where
    h1: "ngx_rbt_black p h = Some h1" "rep h0 h1 R s (plug fs (Nd (Nd a p kp False b) g kg cg u))" by auto
  from rep_red [OF h1(2)] obtain h2 where
    h2: "ngx_rbt_red g h1 = Some h2" "rep h0 h2 R s (plug fs (Nd (Nd a p kp False b) g kg True u))" by auto
  from right_rotate_rep [OF h2(2)] h1(1) h2(1) show ?thesis by auto
qed

lemma finish_right:
  assumes "rep h0 h R s (plug fs (Nd u g kg cg (Nd b p kp cp a)))"
  shows "\<exists>h1 h2 R' h3. ngx_rbt_black p h = Some h1 \<and> ngx_rbt_red g h1 = Some h2 \<and>
    ngx_rbtree_left_rotate R s g h2 = Some (R', h3) \<and> rep h0 h3 R' s (plug fs (Nd (Nd u g kg True b) p kp False a))"
proof -
  from rep_black [of h0 h R s "FR u g kg cg # fs" b p kp cp a] assms obtain h1 where
    h1: "ngx_rbt_black p h = Some h1" "rep h0 h1 R s (plug fs (Nd u g kg cg (Nd b p kp False a)))" by auto
  from rep_red [OF h1(2)] obtain h2 where
    h2: "ngx_rbt_red g h1 = Some h2" "rep h0 h2 R s (plug fs (Nd u g kg True (Nd b p kp False a)))" by auto
  from left_rotate_rep [OF h2(2)] h1(1) h2(1) show ?thesis by auto
qed

lemma recolor_left:
  assumes "rep h0 h R s (plug fs (Nd (Nd a p kp cp b) g kg cg u))" "red u"
  shows "\<exists>h1 h2 h3. ngx_rbt_black p h = Some h1 \<and> ngx_rbt_black (root s u) h1 = Some h2 \<and>
    ngx_rbt_red g h2 = Some h3 \<and> rep h0 h3 R s (plug fs (Nd (Nd a p kp False b) g kg True (paint False u)))"
proof -
  from rep_black [of h0 h R s "FL g kg cg u # fs" a p kp cp b] assms obtain h1 where
    h1: "ngx_rbt_black p h = Some h1" "rep h0 h1 R s (plug fs (Nd (Nd a p kp False b) g kg cg u))" by auto
  from assms(2) obtain ul v ku ur where u: "u = Nd ul v ku True ur" by (cases u) auto
  from rep_black [of h0 h1 R s "FR (Nd a p kp False b) g kg cg # fs" ul v ku True ur] h1(2) obtain h2 where
    h2: "ngx_rbt_black v h1 = Some h2" "rep h0 h2 R s (plug fs (Nd (Nd a p kp False b) g kg cg (paint False u)))"
    unfolding u by auto
  from rep_red [OF h2(2)] h1(1) h2(1) show ?thesis by (auto simp: u)
qed

lemma recolor_right:
  assumes "rep h0 h R s (plug fs (Nd u g kg cg (Nd b p kp cp a)))" "red u"
  shows "\<exists>h1 h2 h3. ngx_rbt_black p h = Some h1 \<and> ngx_rbt_black (root s u) h1 = Some h2 \<and>
    ngx_rbt_red g h2 = Some h3 \<and> rep h0 h3 R s (plug fs (Nd (paint False u) g kg True (Nd b p kp False a)))"
proof -
  from rep_black [of h0 h R s "FR u g kg cg # fs" b p kp cp a] assms obtain h1 where
    h1: "ngx_rbt_black p h = Some h1" "rep h0 h1 R s (plug fs (Nd u g kg cg (Nd b p kp False a)))" by auto
  from assms(2) obtain ul v ku ur where u: "u = Nd ul v ku True ur" by (cases u) auto
  from rep_black [of h0 h1 R s "FL g kg cg (Nd b p kp False a) # fs" ul v ku True ur] h1(2) obtain h2 where
    h2: "ngx_rbt_black v h1 = Some h2" "rep h0 h2 R s (plug fs (Nd (paint False u) g kg cg (Nd b p kp False a)))"
    unfolding u by auto
  from rep_red [OF h2(2)] h1(1) h2(1) show ?thesis by (auto simp: u)
qed

text \<open>One round of the loop, in its four shapes.\<close>

lemma rep_distinct:
  assumes "rep h0 h R s (plug fs t)"
  shows "uniq t" "s \<notin> addrs t" "addrs t \<inter> faddrs fs = {}"
  using assms by (auto simp: rep_def)

lemma insert_round_LL:
  assumes r: "rep h0 h R s (plug fs (Nd (Nd (Nd xl x kx cx xr) p kp True b) g kg cg u))"
  shows "\<exists>h' R' y. rb_insert_round R s x h = Some (y, R', h') \<and>
    (if red u then y = g \<and> rep h0 h' R' s (plug fs (Nd (Nd (Nd xl x kx cx xr) p kp False b) g kg True (paint False u)))
     else y = x \<and> rep h0 h' R' s (plug fs (Nd (Nd xl x kx cx xr) p kp False (Nd b g kg True u))))"
proof -
  note v = rep_reads [OF r] rep_reads [of h0 h R s "FL g kg cg u # fs", simplified, OF r]
    rep_reads [of h0 h R s "FL p kp True b # FL g kg cg u # fs", simplified, OF r]
  from rep_distinct [OF r] have d: "x \<noteq> root s b" by (cases b) auto
  show ?thesis
  proof (cases "red u")
    case True
    from recolor_left [OF r True] obtain h1 h2 h3 where
      w: "ngx_rbt_black p h = Some h1" "ngx_rbt_black (root s u) h1 = Some h2" "ngx_rbt_red g h2 = Some h3"
        "rep h0 h3 R s (plug fs (Nd (Nd (Nd xl x kx cx xr) p kp False b) g kg True (paint False u)))" by auto
    from v True w(4) rb_uncle_red_eval [OF _ _ w(1-3), where x = x] show ?thesis
      by (simp add: rb_insert_round_def)
  next
    case False
    from finish_left [OF r] obtain h1 h2 R' h3 where
      w: "ngx_rbt_black p h = Some h1" "ngx_rbt_red g h1 = Some h2" "ngx_rbtree_right_rotate R s g h2 = Some (R', h3)"
        "rep h0 h3 R' s (plug fs (Nd (Nd xl x kx cx xr) p kp False (Nd b g kg True u)))" by auto
    from v False w(4) d rb_turn_left_eval [OF _ _ _ _ _ w(1-3), where x = x and p = p and pr = "root s b" and R = R and y = x and h = h] show ?thesis
      by (simp add: rb_insert_round_def)
  qed
qed

lemma insert_round_LR:
  assumes r: "rep h0 h R s (plug fs (Nd (Nd a p kp True (Nd xl x kx cx xr)) g kg cg u))"
  shows "\<exists>h' R' y. rb_insert_round R s x h = Some (y, R', h') \<and>
    (if red u then y = g \<and> rep h0 h' R' s (plug fs (Nd (Nd a p kp False (Nd xl x kx cx xr)) g kg True (paint False u)))
     else y = p \<and> rep h0 h' R' s (plug fs (Nd (Nd a p kp True xl) x kx False (Nd xr g kg True u))))"
proof -
  note v = rep_reads [OF r] rep_reads [of h0 h R s "FL g kg cg u # fs", simplified, OF r]
  show ?thesis
  proof (cases "red u")
    case True
    from recolor_left [OF r True] obtain h1 h2 h3 where
      w: "ngx_rbt_black p h = Some h1" "ngx_rbt_black (root s u) h1 = Some h2" "ngx_rbt_red g h2 = Some h3"
        "rep h0 h3 R s (plug fs (Nd (Nd a p kp False (Nd xl x kx cx xr)) g kg True (paint False u)))" by auto
    from v True w(4) rb_uncle_red_eval [OF _ _ w(1-3), where x = x] show ?thesis
      by (simp add: rb_insert_round_def)
  next
    case False
    from left_rotate_rep [of h0 h R s "FL g kg cg u # fs" a p kp True xl x kx cx xr] r obtain h1 R1 where
      rot: "ngx_rbtree_left_rotate R s p h = Some (R1, h1)"
        "rep h0 h1 R1 s (plug fs (Nd (Nd (Nd a p kp True xl) x kx cx xr) g kg cg u))" by auto
    note v1 = rep_reads [OF rot(2)] rep_reads [of h0 h1 R1 s "FL g kg cg u # fs", simplified, OF rot(2)]
    from finish_left [OF rot(2)] obtain h2 h3 R2 h4 where
      w: "ngx_rbt_black x h1 = Some h2" "ngx_rbt_red g h2 = Some h3" "ngx_rbtree_right_rotate R1 s g h3 = Some (R2, h4)"
        "rep h0 h4 R2 s (plug fs (Nd (Nd a p kp True xl) x kx False (Nd xr g kg True u)))" by auto
    from v v1 False w(4) rot(1)
      rb_turn_left_eval [OF _ _ _ _ _ w(1-3), where x = x and p = p and pr = x and R = R and y = p and h = h]
    show ?thesis by (simp add: rb_insert_round_def)
  qed
qed

lemma insert_round_RR:
  assumes r: "rep h0 h R s (plug fs (Nd u g kg cg (Nd b p kp True (Nd xl x kx cx xr))))"
  shows "\<exists>h' R' y. rb_insert_round R s x h = Some (y, R', h') \<and>
    (if red u then y = g \<and> rep h0 h' R' s (plug fs (Nd (paint False u) g kg True (Nd b p kp False (Nd xl x kx cx xr))))
     else y = x \<and> rep h0 h' R' s (plug fs (Nd (Nd u g kg True b) p kp False (Nd xl x kx cx xr))))"
proof -
  note v = rep_reads [OF r] rep_reads [of h0 h R s "FR u g kg cg # fs", simplified, OF r]
  from rep_distinct [OF r] have d: "x \<noteq> root s b" "p \<noteq> root s u" by (cases b; cases u; auto)+
  show ?thesis
  proof (cases "red u")
    case True
    from recolor_right [OF r True] obtain h1 h2 h3 where
      w: "ngx_rbt_black p h = Some h1" "ngx_rbt_black (root s u) h1 = Some h2" "ngx_rbt_red g h2 = Some h3"
        "rep h0 h3 R s (plug fs (Nd (paint False u) g kg True (Nd b p kp False (Nd xl x kx cx xr))))" by auto
    from v True w(4) d rb_uncle_red_eval [OF _ _ w(1-3), where x = x] show ?thesis
      by (simp add: rb_insert_round_def)
  next
    case False
    from finish_right [OF r] obtain h1 h2 R' h3 where
      w: "ngx_rbt_black p h = Some h1" "ngx_rbt_red g h1 = Some h2" "ngx_rbtree_left_rotate R s g h2 = Some (R', h3)"
        "rep h0 h3 R' s (plug fs (Nd (Nd u g kg True b) p kp False (Nd xl x kx cx xr)))" by auto
    from v False w(4) d
      rb_turn_right_eval [OF _ _ _ _ _ w(1-3), where x = x and p = p and pl = "root s b" and R = R and y = x and h = h]
    show ?thesis by (simp add: rb_insert_round_def)
  qed
qed

lemma insert_round_RL:
  assumes r: "rep h0 h R s (plug fs (Nd u g kg cg (Nd (Nd xl x kx cx xr) p kp True a)))"
  shows "\<exists>h' R' y. rb_insert_round R s x h = Some (y, R', h') \<and>
    (if red u then y = g \<and> rep h0 h' R' s (plug fs (Nd (paint False u) g kg True (Nd (Nd xl x kx cx xr) p kp False a)))
     else y = p \<and> rep h0 h' R' s (plug fs (Nd (Nd u g kg True xl) x kx False (Nd xr p kp True a))))"
proof -
  note v = rep_reads [OF r] rep_reads [of h0 h R s "FR u g kg cg # fs", simplified, OF r]
  from rep_distinct [OF r] have d: "p \<noteq> root s u" by (cases u) auto
  show ?thesis
  proof (cases "red u")
    case True
    from recolor_right [OF r True] obtain h1 h2 h3 where
      w: "ngx_rbt_black p h = Some h1" "ngx_rbt_black (root s u) h1 = Some h2" "ngx_rbt_red g h2 = Some h3"
        "rep h0 h3 R s (plug fs (Nd (paint False u) g kg True (Nd (Nd xl x kx cx xr) p kp False a)))" by auto
    from v True w(4) d rb_uncle_red_eval [OF _ _ w(1-3), where x = x] show ?thesis
      by (simp add: rb_insert_round_def)
  next
    case False
    from right_rotate_rep [of h0 h R s "FR u g kg cg # fs" xl x kx cx xr p kp True a] r obtain h1 R1 where
      rot: "ngx_rbtree_right_rotate R s p h = Some (R1, h1)"
        "rep h0 h1 R1 s (plug fs (Nd u g kg cg (Nd xl x kx cx (Nd xr p kp True a))))" by auto
    note v1 = rep_reads [OF rot(2)] rep_reads [of h0 h1 R1 s "FR u g kg cg # fs", simplified, OF rot(2)]
    from finish_right [OF rot(2)] obtain h2 h3 R2 h4 where
      w: "ngx_rbt_black x h1 = Some h2" "ngx_rbt_red g h2 = Some h3" "ngx_rbtree_left_rotate R1 s g h3 = Some (R2, h4)"
        "rep h0 h4 R2 s (plug fs (Nd (Nd u g kg True xl) x kx False (Nd xr p kp True a)))" by auto
    from v v1 False w(4) rot(1) d
      rb_turn_right_eval [OF _ _ _ _ _ w(1-3), where x = x and p = p and pl = x and R = R and y = p and h = h]
    show ?thesis by (simp add: rb_insert_round_def)
  qed
qed

section \<open>The loop\<close>

lemma rb_parent_red_rep:
  assumes "rep h0 h R s (plug fs t)" "t \<noteq> Lf"
  shows "rb_parent_red R (root s t) h = Some (fs \<noteq> [] \<and> fred (hd fs))"
proof (cases fs rule: lefts.cases)
  case 1
  with assms show ?thesis by (simp add: rb_parent_red_def rep_def)
next
  case (2 a k c r gs)
  from assms(1) have "R \<in> faddrs fs" unfolding 2 by (rule rep_root)
  moreover have "root s t \<notin> faddrs fs"
    using rep_distinct(3) [OF assms(1)] root_in [OF assms(2)] by blast
  ultimately have "root s t \<noteq> R" by auto
  with rep_reads [of h0 h R s gs t a k c r] assms show ?thesis
    by (simp add: 2 rb_parent_red_def)
next
  case (3 l a k c gs)
  from assms(1) have "R \<in> faddrs fs" unfolding 3 by (rule rep_root)
  moreover have "root s t \<notin> faddrs fs"
    using rep_distinct(3) [OF assms(1)] root_in [OF assms(2)] by blast
  ultimately have "root s t \<noteq> R" by auto
  with rep_reads [of h0 h R s gs l a k c t] assms show ?thesis
    by (simp add: 3 rb_parent_red_def)
qed

lemma rb_insert_loop_stop:
  assumes "rep h0 h R s (plug fs t)" "t \<noteq> Lf" "fs \<noteq> [] \<Longrightarrow> \<not> fred (hd fs)"
  shows "\<exists>h' R'. rb_insert_loop R s (root s t) h = Some (R', h') \<and> rep h0 h' R' s (plug fs t)"
  using rb_parent_red_rep [OF assms(1,2)] assms(1,3) by (auto simp: rb_insert_loop.simps [of R s "root s t"])

lemma rb_insert_loop_rep:
  assumes "rep h0 h R s (plug fs t)" "t \<noteq> Lf" "fs \<noteq> [] \<Longrightarrow> \<not> fred (last fs)"
  shows "\<exists>h' R'. rb_insert_loop R s (root s t) h = Some (R', h') \<and> rep h0 h' R' s (ins_fix fs t)"
  using assms
proof (induction fs t arbitrary: h R rule: ins_fix.induct)
  case (1 p kp b g kg cg u fs a)
  from 1 obtain xl x kx cx xr where a: "a = Nd xl x kx cx xr" by (cases a) auto
  from "1.prems"(1) have r: "rep h0 h R s (plug (FL p kp True b # FL g kg cg u # fs) (Nd xl x kx cx xr))" by (simp add: a)
  from rb_parent_red_rep [OF r] have go: "rb_parent_red R x h = Some True" by simp
  from "1.prems"(3) have last: "fs \<noteq> [] \<Longrightarrow> \<not> fred (last fs)" by auto
  from r have r': "rep h0 h R s (plug fs (Nd (Nd (Nd xl x kx cx xr) p kp True b) g kg cg u))" by simp
  from insert_round_LL [OF r'] obtain h' R' y where
    round: "rb_insert_round R s x h = Some (y, R', h')" and
    post: "if red u then y = g \<and> rep h0 h' R' s (plug fs (Nd (Nd (Nd xl x kx cx xr) p kp False b) g kg True (paint False u))) else y = x \<and> rep h0 h' R' s (plug fs (Nd (Nd xl x kx cx xr) p kp False (Nd b g kg True u)))"
    by auto
  show ?case
  proof (cases "red u")
    case True
    with post "1.IH" [of h' R'] last round go show ?thesis by (simp add: a add: rb_insert_loop.simps [of R s x])
  next
    case False
    with post rb_parent_red_rep [of h0 h' R' s "FL p kp False (Nd b g kg True u) # fs" "Nd xl x kx cx xr"]
    have "rb_parent_red R' y h' = Some False" by simp
    with post False round go show ?thesis
      by (simp add: a add: rb_insert_loop.simps [of R s x] rb_insert_loop.simps [of R' s x])
  qed
next
  case (2 a p kp g kg cg u fs xl x kx cx xr)
  from "2.prems"(1) have r: "rep h0 h R s (plug (FR a p kp True # FL g kg cg u # fs) (Nd xl x kx cx xr))" by simp
  from rb_parent_red_rep [OF r] have go: "rb_parent_red R x h = Some True" by simp
  from "2.prems"(3) have last: "fs \<noteq> [] \<Longrightarrow> \<not> fred (last fs)" by auto
  from r have r': "rep h0 h R s (plug fs (Nd (Nd a p kp True (Nd xl x kx cx xr)) g kg cg u))" by simp
  from insert_round_LR [OF r'] obtain h' R' y where
    round: "rb_insert_round R s x h = Some (y, R', h')" and
    post: "if red u then y = g \<and> rep h0 h' R' s (plug fs (Nd (Nd a p kp False (Nd xl x kx cx xr)) g kg True (paint False u))) else y = p \<and> rep h0 h' R' s (plug fs (Nd (Nd a p kp True xl) x kx False (Nd xr g kg True u)))"
    by auto
  show ?case
  proof (cases "red u")
    case True
    with post "2.IH" [of h' R'] last round go show ?thesis by (simp add: rb_insert_loop.simps [of R s x])
  next
    case False
    with post rb_parent_red_rep [of h0 h' R' s "FL x kx False (Nd xr g kg True u) # fs" "Nd a p kp True xl"]
    have "rb_parent_red R' y h' = Some False" by simp
    with post False round go show ?thesis
      by (simp add: rb_insert_loop.simps [of R s x] rb_insert_loop.simps [of R' s p])
  qed
next
  case (3 b p kp u g kg cg fs a)
  from 3 obtain xl x kx cx xr where a: "a = Nd xl x kx cx xr" by (cases a) auto
  from "3.prems"(1) have r: "rep h0 h R s (plug (FR b p kp True # FR u g kg cg # fs) (Nd xl x kx cx xr))" by (simp add: a)
  from rb_parent_red_rep [OF r] have go: "rb_parent_red R x h = Some True" by simp
  from "3.prems"(3) have last: "fs \<noteq> [] \<Longrightarrow> \<not> fred (last fs)" by auto
  from r have r': "rep h0 h R s (plug fs (Nd u g kg cg (Nd b p kp True (Nd xl x kx cx xr))))" by simp
  from insert_round_RR [OF r'] obtain h' R' y where
    round: "rb_insert_round R s x h = Some (y, R', h')" and
    post: "if red u then y = g \<and> rep h0 h' R' s (plug fs (Nd (paint False u) g kg True (Nd b p kp False (Nd xl x kx cx xr)))) else y = x \<and> rep h0 h' R' s (plug fs (Nd (Nd u g kg True b) p kp False (Nd xl x kx cx xr)))"
    by auto
  show ?case
  proof (cases "red u")
    case True
    with post "3.IH" [of h' R'] last round go show ?thesis by (simp add: a add: rb_insert_loop.simps [of R s x])
  next
    case False
    with post rb_parent_red_rep [of h0 h' R' s "FR (Nd u g kg True b) p kp False # fs" "Nd xl x kx cx xr"]
    have "rb_parent_red R' y h' = Some False" by simp
    with post False round go show ?thesis
      by (simp add: a add: rb_insert_loop.simps [of R s x] rb_insert_loop.simps [of R' s x])
  qed
next
  case (4 p kp a u g kg cg fs xl x kx cx xr)
  from "4.prems"(1) have r: "rep h0 h R s (plug (FL p kp True a # FR u g kg cg # fs) (Nd xl x kx cx xr))" by simp
  from rb_parent_red_rep [OF r] have go: "rb_parent_red R x h = Some True" by simp
  from "4.prems"(3) have last: "fs \<noteq> [] \<Longrightarrow> \<not> fred (last fs)" by auto
  from r have r': "rep h0 h R s (plug fs (Nd u g kg cg (Nd (Nd xl x kx cx xr) p kp True a)))" by simp
  from insert_round_RL [OF r'] obtain h' R' y where
    round: "rb_insert_round R s x h = Some (y, R', h')" and
    post: "if red u then y = g \<and> rep h0 h' R' s (plug fs (Nd (paint False u) g kg True (Nd (Nd xl x kx cx xr) p kp False a))) else y = p \<and> rep h0 h' R' s (plug fs (Nd (Nd u g kg True xl) x kx False (Nd xr p kp True a)))"
    by auto
  show ?case
  proof (cases "red u")
    case True
    with post "4.IH" [of h' R'] last round go show ?thesis by (simp add: rb_insert_loop.simps [of R s x])
  next
    case False
    with post rb_parent_red_rep [of h0 h' R' s "FR (Nd u g kg True xl) x kx False # fs" "Nd xr p kp True a"]
    have "rb_parent_red R' y h' = Some False" by simp
    with post False round go show ?thesis
      by (simp add: rb_insert_loop.simps [of R s x] rb_insert_loop.simps [of R' s p])
  qed
qed (simp only: ins_fix.simps, rule rb_insert_loop_stop, assumption, assumption, simp)+

section \<open>The result of re-balancing\<close>

lemma ins_fix_invc:
  "invc t \<Longrightarrow> cinvc fs \<Longrightarrow> red t \<Longrightarrow> (fs \<noteq> [] \<Longrightarrow> \<not> fred (last fs)) \<Longrightarrow> invc (paint False (ins_fix fs t))"
proof (induction fs t rule: ins_fix.induct)
  case (1 p kp b g kg cg u fs a)
  then show ?case by (cases "red u") (auto split: if_splits)
next
  case (2 a p kp g kg cg u fs b x kx cx c)
  then show ?case by (cases "red u") (auto split: if_splits)
next
  case (3 b p kp u g kg cg fs a)
  then show ?case by (cases "red u") (auto split: if_splits)
next
  case (4 p kp a u g kg cg fs c x kx cx b)
  then show ?case by (cases "red u") (auto split: if_splits)
qed (auto split: if_splits)

lemma ins_fix_invh: "invh (plug fs t) \<Longrightarrow> cinvc fs \<Longrightarrow> red t \<Longrightarrow> invh (ins_fix fs t)"
proof (induction fs t rule: ins_fix.induct)
  case (1 p kp b g kg cg u fs a)
  then show ?case by (cases "red u") (auto simp: bheight_paint)
next
  case (2 a p kp g kg cg u fs b x kx cx c)
  then show ?case by (cases "red u") (auto simp: bheight_paint)
next
  case (3 b p kp u g kg cg fs a)
  then show ?case by (cases "red u") (auto simp: bheight_paint)
next
  case (4 p kp a u g kg cg fs c x kx cx b)
  then show ?case by (cases "red u") (auto simp: bheight_paint)
qed auto

section \<open>The order of the keys\<close>

definition place :: "(u64 \<Rightarrow> u64 \<Rightarrow> bool) \<Rightarrow> rbaddr \<times> u64 \<Rightarrow> (rbaddr \<times> u64) list \<Rightarrow> (rbaddr \<times> u64) list" where
  "place lt e xs = takeWhile (\<lambda>y. \<not> lt (snd e) (snd y)) xs @ e # dropWhile (\<lambda>y. \<not> lt (snd e) (snd y)) xs"

definition sorted_by :: "(u64 \<Rightarrow> nat) \<Rightarrow> (rbaddr \<times> u64) list \<Rightarrow> bool" where
  "sorted_by rank xs \<longleftrightarrow> sorted (map (rank \<circ> snd) xs)"

text \<open>What the tree needs of a comparison: on the keys \<open>K\<close> it compares ranks.\<close>

locale key_order =
  fixes lt :: "u64 \<Rightarrow> u64 \<Rightarrow> bool" and rank :: "u64 \<Rightarrow> nat" and K :: "u64 set"
  assumes lt_rank: "j \<in> K \<Longrightarrow> k \<in> K \<Longrightarrow> lt j k \<longleftrightarrow> rank j < rank k"
begin

lemma locate_split:
  assumes "sorted_by rank (nodes (plug fs t))" "k \<in> K" "snd ` set (nodes (plug fs t)) \<subseteq> K"
    "\<forall>y \<in> set (lefts fs). \<not> lt k (snd y)" "\<forall>y \<in> set (rights fs). lt k (snd y)"
  shows "(\<forall>y \<in> set (lefts (locate lt k t fs)). \<not> lt k (snd y)) \<and> (\<forall>y \<in> set (rights (locate lt k t fs)). lt k (snd y))"
  using assms
proof (induction t arbitrary: fs)
  case (Nd l a j c r)
  then have K: "j \<in> K" "\<And>y. y \<in> set (nodes l) \<Longrightarrow> snd y \<in> K" "\<And>y. y \<in> set (nodes r) \<Longrightarrow> snd y \<in> K" by auto
  from Nd.prems(1) have le: "\<And>y. y \<in> set (nodes l) \<Longrightarrow> rank (snd y) \<le> rank j" "\<And>y. y \<in> set (nodes r) \<Longrightarrow> rank j \<le> rank (snd y)"
    by (auto simp: sorted_by_def sorted_append)
  show ?case
  proof (cases "lt k j")
    case True
    then have kj: "rank k < rank j" using lt_rank [OF Nd.prems(2) K(1)] by simp
    have "lt k (snd y)" if y: "y \<in> set (nodes r)" for y
      using lt_rank [OF Nd.prems(2) K(3) [OF y]] le(2) [OF y] kj by simp
    then have "\<forall>y \<in> set (nodes r). lt k (snd y)" ..
    then have "\<forall>y \<in> set (rights (FL a j c r # fs)). lt k (snd y)" using True Nd.prems(5) by auto
    moreover have "locate lt k (Nd l a j c r) fs = locate lt k l (FL a j c r # fs)" using True by simp
    moreover have "sorted_by rank (nodes (plug (FL a j c r # fs) l))" "snd ` set (nodes (plug (FL a j c r # fs) l)) \<subseteq> K"
      "\<forall>y \<in> set (lefts (FL a j c r # fs)). \<not> lt k (snd y)"
      using Nd.prems(1,3,4) by simp_all
    ultimately show ?thesis using Nd.IH(1) [of "FL a j c r # fs"] Nd.prems(2) by argo
  next
    case False
    then have kj: "rank j \<le> rank k" using lt_rank [OF Nd.prems(2) K(1)] by simp
    have "\<not> lt k (snd y)" if y: "y \<in> set (nodes l)" for y
      using lt_rank [OF Nd.prems(2) K(2) [OF y]] le(1) [OF y] kj by simp
    then have "\<forall>y \<in> set (nodes l). \<not> lt k (snd y)" ..
    then have "\<forall>y \<in> set (lefts (FR l a j c # fs)). \<not> lt k (snd y)" using False Nd.prems(4) by auto
    moreover have "locate lt k (Nd l a j c r) fs = locate lt k r (FR l a j c # fs)" using False by simp
    moreover have "sorted_by rank (nodes (plug (FR l a j c # fs) r))" "snd ` set (nodes (plug (FR l a j c # fs) r)) \<subseteq> K"
      "\<forall>y \<in> set (rights (FR l a j c # fs)). lt k (snd y)"
      using Nd.prems(1,3,5) by simp_all
    ultimately show ?thesis using Nd.IH(2) [of "FR l a j c # fs"] Nd.prems(2) by argo
  qed
qed simp

lemma place_locate:
  assumes "sorted_by rank (nodes t)" "k \<in> K" "snd ` set (nodes t) \<subseteq> K"
  shows "lefts (locate lt k t []) @ (x, k) # rights (locate lt k t []) = place lt (x, k) (nodes t)"
proof -
  have n: "nodes t = lefts (locate lt k t []) @ rights (locate lt k t [])"
    using nodes_plug [of "locate lt k t []" Lf] by simp
  from locate_split [of "[]" t k] assms
  have "\<And>y. y \<in> set (lefts (locate lt k t [])) \<Longrightarrow> \<not> lt k (snd y)"
    and r: "\<And>y. y \<in> set (rights (locate lt k t [])) \<Longrightarrow> lt k (snd y)" by auto
  moreover from r have "takeWhile (\<lambda>y. \<not> lt k (snd y)) (rights (locate lt k t [])) = []"
    "dropWhile (\<lambda>y. \<not> lt k (snd y)) (rights (locate lt k t [])) = rights (locate lt k t [])"
    by (cases "rights (locate lt k t [])"; simp)+
  ultimately show ?thesis
    unfolding place_def by (subst (1 2) n) simp
qed

lemma place_sorted:
  assumes "sorted_by rank xs" "snd e \<in> K" "snd ` set xs \<subseteq> K"
  shows "sorted_by rank (place lt e xs)"
  using assms
proof (induction xs)
  case (Cons y ys)
  then have K: "snd y \<in> K" "\<And>z. z \<in> set ys \<Longrightarrow> snd z \<in> K"
    and le: "\<And>z. z \<in> set ys \<Longrightarrow> rank (snd y) \<le> rank (snd z)" by (auto simp: sorted_by_def)
  show ?case
  proof (cases "lt (snd e) (snd y)")
    case True
    then have "rank (snd e) < rank (snd y)" using lt_rank Cons.prems(2) K(1) by simp
    with True le Cons.prems(1) show ?thesis
      by (fastforce simp: place_def sorted_by_def)
  next
    case False
    then have ge: "rank (snd y) \<le> rank (snd e)" using lt_rank Cons.prems(2) K(1) by (meson leI)
    have "set (place lt e ys) = insert e (set ys)"
      unfolding place_def by (metis Un_insert_right list.simps(15) set_append takeWhile_dropWhile_id)
    moreover have "place lt e (y # ys) = y # place lt e ys" using False by (simp add: place_def)
    ultimately show ?thesis using Cons ge le by (auto simp: sorted_by_def)
  qed
qed (simp add: place_def sorted_by_def)

end

lemma set_place: "set (place lt e xs) = insert e (set xs)"
  unfolding place_def by (metis Un_insert_right list.simps(15) set_append takeWhile_dropWhile_id)

interpretation by_value: key_order value_less unat UNIV
  by unfold_locales (simp add: value_less_def word_less_nat_alt)

text \<open>Times that lie in a window of half the clock's range compare by their distance from its start.\<close>

lemma timer_less_window:
  assumes "unat (j - b) < 2 ^ 63" "unat (k - b) < 2 ^ 63"
  shows "timer_less j k \<longleftrightarrow> unat (j - b) < unat (k - b)"
proof -
  have d: "j - k = (j - b) - (k - b)" by simp
  have neg: "sint w < 0 \<longleftrightarrow> 2 ^ 63 \<le> uint w" for w :: u64
  proof -
    have "uint w < 2 ^ 64" using uint_lt2p [of w] by simp
    then have "uint w div 2 ^ 63 = (if 2 ^ 63 \<le> uint w then 1 else 0)"
      by (simp add: div_pos_pos_trivial int_div_pos_eq [of _ _ 1 "uint w - 2 ^ 63"])
    then have "bit (uint w) 63 \<longleftrightarrow> 2 ^ 63 \<le> uint w"
      by (simp add: bit_iff_odd)
    then show ?thesis by (simp add: sint_uint)
  qed
  have "2 ^ 63 \<le> uint (u - v) \<longleftrightarrow> uint u < uint v" if "uint u < 2 ^ 63" "uint v < 2 ^ 63" for u v :: u64
  proof -
    have "0 \<le> U \<Longrightarrow> 0 \<le> V \<Longrightarrow> U < 2 ^ 63 \<Longrightarrow> V < 2 ^ 63 \<Longrightarrow>
        2 ^ 63 \<le> (if V \<le> U then U - V else U - V + 2 ^ 64) \<longleftrightarrow> U < V" for U V :: int
      by auto
    moreover have "uint (u - v) = (if uint v \<le> uint u then uint u - uint v else uint u - uint v + 2 ^ 64)"
      by (simp add: uint_sub_if')
    ultimately show ?thesis using that by (simp only: uint_ge_0)
  qed
  moreover have "uint (j - b) < 2 ^ 63" "uint (k - b) < 2 ^ 63"
    using assms by (simp_all only: unat_eq_nat_uint nat_less_iff uint_ge_0) simp_all
  ultimately show ?thesis
    unfolding timer_less_def neg d by (simp only: unat_eq_nat_uint nat_less_eq_zless uint_ge_0)
qed

interpretation by_timer: key_order timer_less "\<lambda>k. unat (k - b)" "{k. unat (k - b) < 2 ^ 63}" for b :: u64
  by unfold_locales (simp add: timer_less_window)

section \<open>Insertion as a whole\<close>

text \<open>
  The contract of the container: the heap holds a red-black tree with these nodes, in this order.
\<close>

definition rb_tree :: "ngx_rbtree \<Rightarrow> rbheap \<Rightarrow> (rbaddr \<times> u64) list \<Rightarrow> bool" where
  "rb_tree tree h xs \<longleftrightarrow> (\<exists>T. rep h h (rb_root tree) (rb_sentinel tree) T \<and> rbt T \<and> nodes T = xs)"

lemma rep_other: "rep h0 h R s T \<Longrightarrow> rep h h R s T"
  by (auto simp: rep_def)

lemma rep_frame: "rep h0 h R s T \<Longrightarrow> y \<notin> fst ` set (nodes T) \<Longrightarrow> h y = h0 y"
  by (simp add: rep_def addrs_def)

lemma rep_paint_root:
  assumes "rep h0 h R s T" "T \<noteq> Lf"
  shows "\<exists>h'. ngx_rbt_black R h = Some h' \<and> rep h0 h' R s (paint False T)"
proof -
  from assms obtain l a k c r where T: "T = Nd l a k c r" by (cases T) auto
  with rep_black [of h0 h R s "[]" l a k c r] assms show ?thesis by (simp add: rep_def T)
qed

lemma last_black: "\<not> red (plug fs Lf) \<Longrightarrow> fs \<noteq> [] \<Longrightarrow> \<not> fred (last fs)"
  by (simp add: red_plug)

lemma ngx_rbtree_insert_locate:
  assumes t: "rep h h (rb_root tree) (rb_sentinel tree) T" "rbt T" and i: "rb_insert tree = rb_link lt"
    and x: "h x = Some n" "rb_key n = k" "x \<notin> addrs T" "x \<noteq> rb_sentinel tree" "x \<noteq> 0"
  shows "\<exists>R' h' T'. ngx_rbtree_insert tree x h = Some (tree\<lparr>rb_root := R'\<rparr>, h') \<and>
    rep h h' R' (rb_sentinel tree) T' \<and> rbt T' \<and>
    nodes T' = lefts (locate lt k T []) @ (x, k) # rights (locate lt k T [])"
proof (cases "T = Lf")
  case True
  with t have R: "rb_root tree = rb_sentinel tree" by (simp add: rep_def)
  from t(1) obtain sn where "h (rb_sentinel tree) = Some sn" "rb_color sn = 0" by (auto simp: rep_def)
  with x have "rep h (h(x \<mapsto> node_of k (rb_sentinel tree) (rb_sentinel tree) 0 False)) x (rb_sentinel tree) (Nd Lf x k False Lf)"
    by (auto simp: rep_def)
  with x R show ?thesis
    by (cases n, intro exI [of _ x] exI [of _ "h(x \<mapsto> node_of k (rb_sentinel tree) (rb_sentinel tree) 0 False)"] exI [of _ "Nd Lf x k False Lf"])
      (simp add: True rbt_def ngx_rbtree_insert_def put_simps node_of_def col_def Let_def)
next
  case False
  let ?fs = "locate lt k T []" and ?s = "rb_sentinel tree"
  have T: "plug ?fs Lf = T" by simp
  from t False have R: "rb_root tree \<noteq> ?s" by (cases T) (auto simp: rep_def)
  from rb_link_rep [OF t(1) False x] obtain h1 where
    h1: "rb_link lt (rb_root tree) x ?s h = Some h1" "rep h h1 (rb_root tree) ?s (plug ?fs (Nd Lf x k True Lf))" by blast
  from t(2) have inv: "invc (plug ?fs Lf)" "invh (plug ?fs Lf)" "\<not> red (plug ?fs Lf)" 
    unfolding T rbt_def by blast+
  from inv(1,2) invc_plug [of ?fs Lf] invh_plug [of ?fs Lf] have c: "cinvc ?fs" "cinvh ?fs 0"
    unfolding T by (simp_all only: bheight.simps)
  have last: "?fs \<noteq> [] \<Longrightarrow> \<not> fred (last ?fs)" by (rule last_black) (use inv(3) T in simp_all)
  from rb_insert_loop_rep [OF h1(2) _ last] obtain h2 R2 where
    h2: "rb_insert_loop (rb_root tree) ?s x h1 = Some (R2, h2)" "rep h h2 R2 ?s (ins_fix ?fs (Nd Lf x k True Lf))" by auto
  have n: "nodes (ins_fix ?fs (Nd Lf x k True Lf)) = lefts ?fs @ (x, k) # rights ?fs"
    by (simp add: nodes_ins_fix)
  then have ne: "ins_fix ?fs (Nd Lf x k True Lf) \<noteq> Lf" by auto
  from rep_paint_root [OF h2(2) ne] obtain h3 where
    h3: "ngx_rbt_black R2 h2 = Some h3" "rep h h3 R2 ?s (paint False (ins_fix ?fs (Nd Lf x k True Lf)))" by auto
  have "invc (paint False (ins_fix ?fs (Nd Lf x k True Lf)))"
    by (rule ins_fix_invc) (use c last in auto)
  moreover have "invh (ins_fix ?fs (Nd Lf x k True Lf))"
    by (rule ins_fix_invh) (use c in auto)
  ultimately have "rbt (paint False (ins_fix ?fs (Nd Lf x k True Lf)))" by (simp add: rbt_def)
  with h1 h2 h3 R i n show ?thesis
    by (intro exI [of _ R2] exI [of _ h3] exI [of _ "paint False (ins_fix ?fs (Nd Lf x k True Lf))"])
      (simp add: ngx_rbtree_insert_def Let_def)
qed

context key_order
begin

lemma insert_places:
  assumes t: "rb_tree tree h xs" "rb_insert tree = rb_link lt" and xs: "sorted_by rank xs" "snd ` set xs \<subseteq> K"
    and x: "h x = Some n" "rb_key n \<in> K" "x \<notin> fst ` set xs" "x \<noteq> rb_sentinel tree" "x \<noteq> 0"
  shows "\<exists>R' h'. ngx_rbtree_insert tree x h = Some (tree\<lparr>rb_root := R'\<rparr>, h') \<and>
    rb_tree (tree\<lparr>rb_root := R'\<rparr>) h' (place lt (x, rb_key n) xs) \<and> sorted_by rank (place lt (x, rb_key n) xs) \<and>
    (\<forall>y. y \<noteq> x \<longrightarrow> y \<notin> fst ` set xs \<longrightarrow> h' y = h y)"
proof -
  from t(1) obtain T where T: "rep h h (rb_root tree) (rb_sentinel tree) T" "rbt T" "nodes T = xs"
    by (auto simp: rb_tree_def)
  with x(3) have "x \<notin> addrs T" by (simp add: addrs_def)
  from ngx_rbtree_insert_locate [OF T(1,2) t(2) x(1) refl this x(4,5)] obtain R' h' T' where
    i: "ngx_rbtree_insert tree x h = Some (tree\<lparr>rb_root := R'\<rparr>, h')" "rep h h' R' (rb_sentinel tree) T'" "rbt T'"
      "nodes T' = lefts (locate lt (rb_key n) T []) @ (x, rb_key n) # rights (locate lt (rb_key n) T [])" by blast
  have n: "nodes T' = place lt (x, rb_key n) xs"
    using place_locate [of T "rb_key n" x] xs x(2) i(4) by (simp add: T(3))
  have "y \<notin> fst ` set (nodes T')" if "y \<noteq> x" "y \<notin> fst ` set xs" for y
    using that by (simp add: n set_place)
  with rep_frame [OF i(2)] have "\<forall>y. y \<noteq> x \<longrightarrow> y \<notin> fst ` set xs \<longrightarrow> h' y = h y" by blast
  moreover have "rb_tree (tree\<lparr>rb_root := R'\<rparr>) h' (place lt (x, rb_key n) xs)"
    using rep_other [OF i(2)] i(3) n by (auto simp: rb_tree_def)
  ultimately show ?thesis using i(1) place_sorted [of xs "(x, rb_key n)"] xs x(2) by auto
qed

end

end
