(* ===== verification/Rbtree_Next.thy ===== *)
theory Rbtree_Next
  imports Rbtree_Insert
begin

text \<open>
  The least node and the successor of a node: \<^verbatim>\<open>ngx_rbtree_min\<close> and \<^verbatim>\<open>ngx_rbtree_next\<close> walk the nodes
  of the tree in order.
\<close>

lemma min_split:
  assumes "rep h0 h R s (plug fs t)" "t \<noteq> Lf"
  shows "\<exists>ms a k c r. t = plug ms (Nd Lf a k c r) \<and> lefts ms = [] \<and> ngx_rbtree_min (root s t) s h = Some a"
  using assms
proof (induction t arbitrary: fs)
  case (Nd l b j d r)
  from rep_reads(2) [OF Nd.prems(1)] have l: "rb_get rb_left b h = Some (root s l)" .
  show ?case
  proof (cases "l = Lf")
    case True
    with l show ?thesis
      by (intro exI [of _ "[]"] exI [of _ b] exI [of _ j] exI [of _ d] exI [of _ r]) (simp add: ngx_rbtree_min.simps [of b])
  next
    case False
    from Nd.IH(1) [of "FL b j d r # fs"] Nd.prems(1) False obtain ms a k c r' where
      m: "l = plug ms (Nd Lf a k c r')" "lefts ms = []" "ngx_rbtree_min (root s l) s h = Some a" by auto
    have "root s l \<noteq> s" using rep_distinct(2) [OF Nd.prems(1)] root_neq [of s l] False by auto
    with m l have "ngx_rbtree_min (root s (Nd l b j d r)) s h = Some a"
      by (simp add: ngx_rbtree_min.simps [of b])
    with m(1,2) show ?thesis
      by (intro exI [of _ "ms @ [FL b j d r]"] exI [of _ a] exI [of _ k] exI [of _ c] exI [of _ r']) simp
  qed
qed simp

lemma min_rep:
  assumes "rep h0 h R s (plug fs t)" "t \<noteq> Lf"
  shows "ngx_rbtree_min (root s t) s h = Some (fst (hd (nodes t)))"
proof -
  from min_split [OF assms] obtain ms a k c r where
    m: "t = plug ms (Nd Lf a k c r)" "lefts ms = []" "ngx_rbtree_min (root s t) s h = Some a" by blast
  then have "nodes t = (a, k) # nodes r @ rights ms" by simp
  with m(3) show ?thesis by simp
qed

lemma climb_rep:
  assumes "rep h0 h R s (plug fs t)" "t \<noteq> Lf"
  shows "rb_climb R (root s t) h = Some (case rights fs of [] \<Rightarrow> 0 | e # _ \<Rightarrow> fst e)"
  using assms
proof (induction fs arbitrary: t)
  case Nil
  then obtain l a k c r where t: "t = Nd l a k c r" by (cases t) auto
  with Nil obtain p where "h a = Some (node_of k (root s l) (root s r) p c)" "R = a" by (auto simp: rep_def)
  with t show ?case by (simp add: rb_climb.simps [of a a] rb_get_node)
next
  case (Cons f fs)
  from Cons.prems(1) have "R \<in> faddrs (f # fs)" by (rule rep_root)
  moreover have "root s t \<notin> faddrs (f # fs)"
    using rep_distinct(3) [OF Cons.prems(1)] root_in [OF Cons.prems(2)] by blast
  ultimately have ne: "root s t \<noteq> R" by auto
  show ?case
  proof (cases f)
    case (FL a k c r)
    with Cons.prems rep_reads [of h0 h R s fs t a k c r] ne show ?thesis
      by (simp add: rb_climb.simps [of R])
  next
    case (FR l a k c)
    with Cons.prems have r: "rep h0 h R s (plug fs (Nd l a k c t))" by simp
    have "root s t \<noteq> root s l"
      using rep_distinct [OF r] root_in [OF Cons.prems(2), of s] by (cases l) auto
    with Cons.prems rep_reads [OF r] ne Cons.IH [OF r] FR show ?thesis
      by (simp add: rb_climb.simps [of R "root s t"])
  qed
qed

text \<open>The place of a node in the tree.\<close>

lemma focus:
  assumes "(a, k) \<in> set (nodes t)"
  shows "\<exists>ms l c r. t = plug ms (Nd l a k c r)"
  using assms
proof (induction t)
  case (Nd l b j d r)
  then consider "(a, k) \<in> set (nodes l)" | "a = b" "k = j" | "(a, k) \<in> set (nodes r)" by auto
  then show ?case
  proof cases
    case 1
    with Nd.IH(1) obtain ms l' c r' where "l = plug ms (Nd l' a k c r')" by blast
    then have "Nd l b j d r = plug (ms @ [FL b j d r]) (Nd l' a k c r')" by simp
    then show ?thesis by blast
  next
    case 2
    then have "Nd l b j d r = plug [] (Nd l a k d r)" by simp
    then show ?thesis by blast
  next
    case 3
    with Nd.IH(2) obtain ms l' c r' where "r = plug ms (Nd l' a k c r')" by blast
    then have "Nd l b j d r = plug (ms @ [FR l b j d]) (Nd l' a k c r')" by simp
    then show ?thesis by blast
  qed
qed simp

lemma focus_unique:
  assumes "uniq t" "nodes t = xs @ (a, k) # ys"
  shows "\<exists>ms l c r. t = plug ms (Nd l a k c r) \<and> lefts ms @ nodes l = xs \<and> nodes r @ rights ms = ys"
proof -
  have "(a, k) \<in> set (nodes t)" by (simp add: assms(2))
  from focus [OF this] obtain ms l c r where t: "t = plug ms (Nd l a k c r)" by blast
  have "(lefts ms @ nodes l) @ (a, k) # (nodes r @ rights ms) = xs @ (a, k) # ys"
    using assms(2) by (simp add: t)
  moreover have "a \<notin> fst ` set xs" using assms(1) by (simp add: uniq_def assms(2))
  then have "(a, k) \<notin> set xs" by force
  moreover have "a \<notin> fst ` set (lefts ms @ nodes l)"
    using assms(1) unfolding t by (auto simp: addrs_def faddrs_def)
  then have "(a, k) \<notin> set (lefts ms @ nodes l)" by force
  ultimately have "lefts ms @ nodes l = xs \<and> nodes r @ rights ms = ys"
    by (auto simp: append_eq_append_conv2 Cons_eq_append_conv append_eq_Cons_conv)
  with t show ?thesis by blast
qed

lemma next_rep:
  assumes T: "rep h h (rb_root tree) (rb_sentinel tree) T" and n: "nodes T = xs @ (a, k) # ys"
  shows "ngx_rbtree_next tree a h = Some (case ys of [] \<Rightarrow> 0 | e # _ \<Rightarrow> fst e)"
proof -
  from T have "uniq T" by (simp add: rep_def)
  from focus_unique [OF this n] obtain ms l c r where
    t: "T = plug ms (Nd l a k c r)" and ys: "nodes r @ rights ms = ys" by blast
  note v = rep_reads [OF T [unfolded t]]
  show ?thesis
  proof (cases "r = Lf")
    case True
    with v climb_rep [OF T [unfolded t]] ys show ?thesis by (simp add: ngx_rbtree_next_def)
  next
    case False
    then have "root (rb_sentinel tree) r \<noteq> rb_sentinel tree"
      using rep_distinct(2) [OF T [unfolded t]] root_neq by auto
    moreover have "nodes r \<noteq> []" using False by (cases r) auto
    ultimately show ?thesis
      using v min_rep [of h h _ _ "FR l a k c # ms" r] T False ys unfolding t
      by (cases "nodes r") (auto simp: ngx_rbtree_next_def)
  qed
qed

lemma rb_tree_next:
  assumes "rb_tree tree h xs" "i < length xs"
  shows "ngx_rbtree_next tree (fst (xs ! i)) h = Some (if Suc i < length xs then fst (xs ! Suc i) else 0)"
proof -
  from assms(1) obtain T where T: "rep h h (rb_root tree) (rb_sentinel tree) T" "nodes T = xs"
    by (auto simp: rb_tree_def)
  have "nodes T = take i xs @ (fst (xs ! i), snd (xs ! i)) # drop (Suc i) xs"
    using T(2) id_take_nth_drop [OF assms(2)] by simp
  from next_rep [OF T(1) this] show ?thesis
    by (cases "Suc i < length xs") (auto simp: Cons_nth_drop_Suc [symmetric])
qed

lemma rb_tree_min:
  assumes "rb_tree tree h xs" "xs \<noteq> []"
  shows "ngx_rbtree_min (rb_root tree) (rb_sentinel tree) h = Some (fst (hd xs))"
proof -
  from assms(1) obtain T where T: "rep h h (rb_root tree) (rb_sentinel tree) T" "nodes T = xs"
    by (auto simp: rb_tree_def)
  with assms(2) have "T \<noteq> Lf" by auto
  with min_rep [of h h "rb_root tree" "rb_sentinel tree" "[]" T] T show ?thesis
    by (simp add: rep_def)
qed

end
