(* ===== verification/Rbtree_Fixup.thy ===== *)
theory Rbtree_Fixup
  imports Rbtree_Next
begin

text \<open>
  The rounds of the fixup loop after a deletion as actions on zippers: the subtree \<open>t\<close> at \<open>temp\<close>
  is one black node short, its sibling is \<open>w\<close>. The part for a left child comes first, its mirror
  image second.
\<close>

section \<open>A left child\<close>

lemma fix_left_turn:
  assumes r: "rep h0 h R s (plug fs (Nd t p kp cp (Nd wl w kw cw wr)))" and "wr \<noteq> Lf"
  shows "\<exists>h1 h2 h3 R' h4. ngx_rbt_copy_color w p h = Some h1 \<and> ngx_rbt_black p h1 = Some h2 \<and>
    ngx_rbt_black (root s wr) h2 = Some h3 \<and> ngx_rbtree_left_rotate R s p h3 = Some (R', h4) \<and>
    rep h0 h4 R' s (plug fs (Nd (Nd t p kp False wl) w kw cp (paint False wr))) \<and>
    (\<forall>x. rb_get rb_parent x h1 = rb_get rb_parent x h \<and> rb_get rb_parent x h2 = rb_get rb_parent x h \<and>
      rb_get rb_parent x h3 = rb_get rb_parent x h) \<and> rb_get rb_right w h2 = rb_get rb_right w h"
proof -
  from rep_color [of h0 h R s "FR t p kp cp # fs" wl w kw cw wr cp] r obtain h1 where
    h1: "put_color w (col cp) h = Some h1" "rep h0 h1 R s (plug fs (Nd t p kp cp (Nd wl w kw cp wr)))" by auto
  from rep_black [OF h1(2)] obtain h2 where
    h2: "ngx_rbt_black p h1 = Some h2" "rep h0 h2 R s (plug fs (Nd t p kp False (Nd wl w kw cp wr)))" by auto
  from assms(2) obtain a v kv cv b where wr: "wr = Nd a v kv cv b" by (cases wr) auto
  from rep_black [of h0 h2 R s "FR wl w kw cp # FR t p kp False # fs" a v kv cv b] h2(2) obtain h3 where
    h3: "ngx_rbt_black v h2 = Some h3" "rep h0 h3 R s (plug fs (Nd t p kp False (Nd wl w kw cp (paint False wr))))"
    unfolding wr by auto
  from left_rotate_rep [OF h3(2)] obtain R' h4 where
    h4: "ngx_rbtree_left_rotate R s p h3 = Some (R', h4)"
      "rep h0 h4 R' s (plug fs (Nd (Nd t p kp False wl) w kw cp (paint False wr)))" by auto
  from rep_reads(4) [OF r] h1(1) have "ngx_rbt_copy_color w p h = Some h1" by (simp add: ngx_rbt_copy_color_def)
  with h1 h2 h3 h4 show ?thesis
    using put_color_get [OF h1(1)] paint_get(1-5) [OF h2(1)] paint_get(1-5) [OF h3(1)] by (auto simp: wr)
qed

text \<open>The parent of \<open>temp\<close>, which may be the sentinel.\<close>

lemma left_parent:
  assumes "rep h0 h R s (plug fs (Nd t p kp cp w))" "t = Lf \<Longrightarrow> rb_get rb_parent s h0 = Some p"
  shows "rb_get rb_parent (root s t) h = Some p"
proof (cases "t = Lf")
  case True
  with assms show ?thesis by (simp add: rep_def rb_get_def)
next
  case False
  with rep_reads [OF assms(1)] show ?thesis by simp
qed

definition turned_left :: "rbtree \<Rightarrow> rbaddr \<Rightarrow> u64 \<Rightarrow> bool \<Rightarrow> rbtree \<Rightarrow> rbaddr \<Rightarrow> u64 \<Rightarrow> rbtree \<Rightarrow> rbtree" where
  "turned_left t p kp cp wl w kw wr = (
     if red wr then Nd (Nd t p kp False wl) w kw cp (paint False wr)
     else case wl of Lf \<Rightarrow> Lf | Nd a x kx c b \<Rightarrow> Nd (Nd t p kp False a) x kx cp (Nd b w kw False wr))"

lemma fix_left_black_rep:
  assumes r: "rep h0 h R s (plug fs (Nd t p kp cp (Nd wl w kw False wr)))"
    and tp: "t = Lf \<Longrightarrow> rb_get rb_parent s h0 = Some p"
  shows "\<exists>h' R' y. rb_fix_left_black R s (root s t) w h = Some (y, R', h') \<and>
    (if \<not> red wl \<and> \<not> red wr then y = p \<and> rep h0 h' R' s (plug fs (Nd t p kp cp (Nd wl w kw True wr)))
     else y = R' \<and> rep h0 h' R' s (plug fs (turned_left t p kp cp wl w kw wr)))"
proof -
  note v = rep_reads [OF r] rep_reads [of h0 h R s "FR t p kp cp # fs", simplified, OF r] left_parent [OF r tp]
  consider "\<not> red wl" "\<not> red wr" | "red wr" | "red wl" "\<not> red wr" by blast
  then show ?thesis
  proof cases
    case 1
    from rep_red [of h0 h R s "FR t p kp cp # fs" wl w kw False wr] r obtain h1 where
      h1: "ngx_rbt_red w h = Some h1" "rep h0 h1 R s (plug fs (Nd t p kp cp (Nd wl w kw True wr)))" by auto
    from v 1 h1 paint_get(8) [OF h1(1), of "root s t"] show ?thesis by (simp add: rb_fix_left_black_def)
  next
    case 2
    then have "wr \<noteq> Lf" by auto
    from fix_left_turn [OF r this] obtain h1 h2 h3 R' h4 where
      f: "ngx_rbt_copy_color w p h = Some h1" "ngx_rbt_black p h1 = Some h2" "ngx_rbt_black (root s wr) h2 = Some h3"
        "ngx_rbtree_left_rotate R s p h3 = Some (R', h4)"
        "rep h0 h4 R' s (plug fs (Nd (Nd t p kp False wl) w kw cp (paint False wr)))"
        "\<And>x. rb_get rb_parent x h1 = rb_get rb_parent x h" "\<And>x. rb_get rb_parent x h2 = rb_get rb_parent x h"
        "\<And>x. rb_get rb_parent x h3 = rb_get rb_parent x h" "rb_get rb_right w h2 = rb_get rb_right w h" by metis
    with v 2 show ?thesis by (simp add: rb_fix_left_black_def turned_left_def)
  next
    case 3
    then obtain a x kx b where wl: "wl = Nd a x kx True b" by (cases wl) auto
    from rep_black [of h0 h R s "FL w kw False wr # FR t p kp cp # fs" a x kx True b] r obtain g1 where
      g1: "ngx_rbt_black x h = Some g1" "rep h0 g1 R s (plug fs (Nd t p kp cp (Nd (Nd a x kx False b) w kw False wr)))"
      unfolding wl by auto
    from rep_red [of h0 g1 R s "FR t p kp cp # fs" "Nd a x kx False b" w kw False wr] g1(2) obtain g2 where
      g2: "ngx_rbt_red w g1 = Some g2" "rep h0 g2 R s (plug fs (Nd t p kp cp (Nd (Nd a x kx False b) w kw True wr)))" by auto
    from right_rotate_rep [of h0 g2 R s "FR t p kp cp # fs" a x kx False b w kw True wr] g2(2) obtain R1 g3 where
      g3: "ngx_rbtree_right_rotate R s w g2 = Some (R1, g3)"
        "rep h0 g3 R1 s (plug fs (Nd t p kp cp (Nd a x kx False (Nd b w kw True wr))))" by auto
    note v3 = rep_reads [OF g3(2)] rep_reads [of h0 g3 R1 s "FR t p kp cp # fs", simplified, OF g3(2)] left_parent [OF g3(2) tp]
    from fix_left_turn [OF g3(2)] obtain h1 h2 h3 R' h4 where
      f: "ngx_rbt_copy_color x p g3 = Some h1" "ngx_rbt_black p h1 = Some h2"
        "ngx_rbt_black (root s (Nd b w kw True wr)) h2 = Some h3" "ngx_rbtree_left_rotate R1 s p h3 = Some (R', h4)"
        "rep h0 h4 R' s (plug fs (Nd (Nd t p kp False a) x kx cp (paint False (Nd b w kw True wr))))"
        "\<And>x. rb_get rb_parent x h1 = rb_get rb_parent x g3" "\<And>x. rb_get rb_parent x h2 = rb_get rb_parent x g3"
        "\<And>x. rb_get rb_parent x h3 = rb_get rb_parent x g3" "rb_get rb_right x h2 = rb_get rb_right x g3"
      by (metis rbtree.distinct(1))
    from 3 wl v v3 g1(1) g2(1) g3(1) f show ?thesis by (simp add: rb_fix_left_black_def turned_left_def)
  qed
qed

lemma fix_left_rep:
  assumes r: "rep h0 h R s (plug fs (Nd t p kp cp (Nd wl w kw cw wr)))"
    and tp: "t = Lf \<Longrightarrow> rb_get rb_parent s h0 = Some p"
  shows "cw \<Longrightarrow> \<exists>h' R'. rb_fix_left R s (root s t) h = rb_fix_left_black R' s (root s t) (root s wl) h' \<and>
      rep h0 h' R' s (plug fs (Nd (Nd t p kp True wl) w kw False wr))"
    and "\<not> cw \<Longrightarrow> rb_fix_left R s (root s t) h = rb_fix_left_black R s (root s t) w h"
proof -
  note v = rep_reads [OF r] left_parent [OF r tp]
  show "\<not> cw \<Longrightarrow> rb_fix_left R s (root s t) h = rb_fix_left_black R s (root s t) w h"
    using v by (simp add: rb_fix_left_def)
  from rep_black [of h0 h R s "FR t p kp cp # fs" wl w kw cw wr] r obtain h1 where
    h1: "ngx_rbt_black w h = Some h1" "rep h0 h1 R s (plug fs (Nd t p kp cp (Nd wl w kw False wr)))" by auto
  from rep_red [OF h1(2)] obtain h2 where
    h2: "ngx_rbt_red p h1 = Some h2" "rep h0 h2 R s (plug fs (Nd t p kp True (Nd wl w kw False wr)))" by auto
  from left_rotate_rep [OF h2(2)] obtain R1 h3 where
    h3: "ngx_rbtree_left_rotate R s p h2 = Some (R1, h3)"
      "rep h0 h3 R1 s (plug fs (Nd (Nd t p kp True wl) w kw False wr))" by auto
  have r3: "rep h0 h3 R1 s (plug (FL w kw False wr # fs) (Nd t p kp True wl))" using h3(2) by simp
  from v left_parent [OF r3 tp] rep_reads [OF r3] paint_get(3) [OF h1(1)] paint_get(8) [OF h2(1)] h1(1) h2(1) h3
  show "cw \<Longrightarrow> \<exists>h' R'. rb_fix_left R s (root s t) h = rb_fix_left_black R' s (root s t) (root s wl) h' \<and>
      rep h0 h' R' s (plug fs (Nd (Nd t p kp True wl) w kw False wr))"
    by (intro exI [of _ h3] exI [of _ R1]) (simp add: rb_fix_left_def)
qed

section \<open>A right child\<close>

lemma fix_right_turn:
  assumes r: "rep h0 h R s (plug fs (Nd (Nd wl w kw cw wr) p kp cp t))" and "wl \<noteq> Lf"
  shows "\<exists>h1 h2 h3 R' h4. ngx_rbt_copy_color w p h = Some h1 \<and> ngx_rbt_black p h1 = Some h2 \<and>
    ngx_rbt_black (root s wl) h2 = Some h3 \<and> ngx_rbtree_right_rotate R s p h3 = Some (R', h4) \<and>
    rep h0 h4 R' s (plug fs (Nd (paint False wl) w kw cp (Nd wr p kp False t))) \<and>
    (\<forall>x. rb_get rb_parent x h1 = rb_get rb_parent x h \<and> rb_get rb_parent x h2 = rb_get rb_parent x h \<and>
      rb_get rb_parent x h3 = rb_get rb_parent x h) \<and> rb_get rb_left w h2 = rb_get rb_left w h"
proof -
  from rep_color [of h0 h R s "FL p kp cp t # fs" wl w kw cw wr cp] r obtain h1 where
    h1: "put_color w (col cp) h = Some h1" "rep h0 h1 R s (plug fs (Nd (Nd wl w kw cp wr) p kp cp t))" by auto
  from rep_black [OF h1(2)] obtain h2 where
    h2: "ngx_rbt_black p h1 = Some h2" "rep h0 h2 R s (plug fs (Nd (Nd wl w kw cp wr) p kp False t))" by auto
  from assms(2) obtain a v kv cv b where wl: "wl = Nd b v kv cv a" by (cases wl) auto
  from rep_black [of h0 h2 R s "FL w kw cp wr # FL p kp False t # fs" b v kv cv a] h2(2) obtain h3 where
    h3: "ngx_rbt_black v h2 = Some h3" "rep h0 h3 R s (plug fs (Nd (Nd (paint False wl) w kw cp wr) p kp False t))"
    unfolding wl by auto
  from right_rotate_rep [OF h3(2)] obtain R' h4 where
    h4: "ngx_rbtree_right_rotate R s p h3 = Some (R', h4)"
      "rep h0 h4 R' s (plug fs (Nd (paint False wl) w kw cp (Nd wr p kp False t)))" by auto
  from rep_reads(4) [OF r] h1(1) have "ngx_rbt_copy_color w p h = Some h1" by (simp add: ngx_rbt_copy_color_def)
  with h1 h2 h3 h4 show ?thesis
    using put_color_get [OF h1(1)] paint_get(1-5) [OF h2(1)] paint_get(1-5) [OF h3(1)] by (auto simp: wl)
qed

text \<open>The parent of \<open>temp\<close>, which may be the sentinel.\<close>

lemma right_parent:
  assumes "rep h0 h R s (plug fs (Nd w p kp cp t))" "t = Lf \<Longrightarrow> rb_get rb_parent s h0 = Some p"
  shows "rb_get rb_parent (root s t) h = Some p"
proof (cases "t = Lf")
  case True
  with assms show ?thesis by (simp add: rep_def rb_get_def)
next
  case False
  with rep_reads [OF assms(1)] show ?thesis by simp
qed

definition turned_right :: "rbtree \<Rightarrow> rbaddr \<Rightarrow> u64 \<Rightarrow> bool \<Rightarrow> rbtree \<Rightarrow> rbaddr \<Rightarrow> u64 \<Rightarrow> rbtree \<Rightarrow> rbtree" where
  "turned_right t p kp cp wr w kw wl = (
     if red wl then Nd (paint False wl) w kw cp (Nd wr p kp False t)
     else case wr of Lf \<Rightarrow> Lf | Nd b x kx c a \<Rightarrow> Nd (Nd wl w kw False b) x kx cp (Nd a p kp False t))"

lemma fix_right_black_rep:
  assumes r: "rep h0 h R s (plug fs (Nd (Nd wl w kw False wr) p kp cp t))"
    and tp: "t = Lf \<Longrightarrow> rb_get rb_parent s h0 = Some p"
  shows "\<exists>h' R' y. rb_fix_right_black R s (root s t) w h = Some (y, R', h') \<and>
    (if \<not> red wr \<and> \<not> red wl then y = p \<and> rep h0 h' R' s (plug fs (Nd (Nd wl w kw True wr) p kp cp t))
     else y = R' \<and> rep h0 h' R' s (plug fs (turned_right t p kp cp wr w kw wl)))"
proof -
  note v = rep_reads [OF r] rep_reads [of h0 h R s "FL p kp cp t # fs", simplified, OF r] right_parent [OF r tp]
  consider "\<not> red wr" "\<not> red wl" | "red wl" | "red wr" "\<not> red wl" by blast
  then show ?thesis
  proof cases
    case 1
    from rep_red [of h0 h R s "FL p kp cp t # fs" wl w kw False wr] r obtain h1 where
      h1: "ngx_rbt_red w h = Some h1" "rep h0 h1 R s (plug fs (Nd (Nd wl w kw True wr) p kp cp t))" by auto
    from v 1 h1 paint_get(8) [OF h1(1), of "root s t"] show ?thesis by (simp add: rb_fix_right_black_def)
  next
    case 2
    then have "wl \<noteq> Lf" by auto
    from fix_right_turn [OF r this] obtain h1 h2 h3 R' h4 where
      f: "ngx_rbt_copy_color w p h = Some h1" "ngx_rbt_black p h1 = Some h2" "ngx_rbt_black (root s wl) h2 = Some h3"
        "ngx_rbtree_right_rotate R s p h3 = Some (R', h4)"
        "rep h0 h4 R' s (plug fs (Nd (paint False wl) w kw cp (Nd wr p kp False t)))"
        "\<And>x. rb_get rb_parent x h1 = rb_get rb_parent x h" "\<And>x. rb_get rb_parent x h2 = rb_get rb_parent x h"
        "\<And>x. rb_get rb_parent x h3 = rb_get rb_parent x h" "rb_get rb_left w h2 = rb_get rb_left w h" by metis
    with v 2 show ?thesis by (simp add: rb_fix_right_black_def turned_right_def)
  next
    case 3
    then obtain a x kx b where wr: "wr = Nd b x kx True a" by (cases wr) auto
    from rep_black [of h0 h R s "FR wl w kw False # FL p kp cp t # fs" b x kx True a] r obtain g1 where
      g1: "ngx_rbt_black x h = Some g1" "rep h0 g1 R s (plug fs (Nd (Nd wl w kw False (Nd b x kx False a)) p kp cp t))"
      unfolding wr by auto
    from rep_red [of h0 g1 R s "FL p kp cp t # fs" wl w kw False "Nd b x kx False a"] g1(2) obtain g2 where
      g2: "ngx_rbt_red w g1 = Some g2" "rep h0 g2 R s (plug fs (Nd (Nd wl w kw True (Nd b x kx False a)) p kp cp t))" by auto
    from left_rotate_rep [of h0 g2 R s "FL p kp cp t # fs" wl w kw True b x kx False a] g2(2) obtain R1 g3 where
      g3: "ngx_rbtree_left_rotate R s w g2 = Some (R1, g3)"
        "rep h0 g3 R1 s (plug fs (Nd (Nd (Nd wl w kw True b) x kx False a) p kp cp t))" by auto
    note v3 = rep_reads [OF g3(2)] rep_reads [of h0 g3 R1 s "FL p kp cp t # fs", simplified, OF g3(2)] right_parent [OF g3(2) tp]
    from fix_right_turn [OF g3(2)] obtain h1 h2 h3 R' h4 where
      f: "ngx_rbt_copy_color x p g3 = Some h1" "ngx_rbt_black p h1 = Some h2"
        "ngx_rbt_black (root s (Nd wl w kw True b)) h2 = Some h3" "ngx_rbtree_right_rotate R1 s p h3 = Some (R', h4)"
        "rep h0 h4 R' s (plug fs (Nd (paint False (Nd wl w kw True b)) x kx cp (Nd a p kp False t)))"
        "\<And>x. rb_get rb_parent x h1 = rb_get rb_parent x g3" "\<And>x. rb_get rb_parent x h2 = rb_get rb_parent x g3"
        "\<And>x. rb_get rb_parent x h3 = rb_get rb_parent x g3" "rb_get rb_left x h2 = rb_get rb_left x g3"
      by (metis rbtree.distinct(1))
    from 3 wr v v3 g1(1) g2(1) g3(1) f show ?thesis by (simp add: rb_fix_right_black_def turned_right_def)
  qed
qed

lemma fix_right_rep:
  assumes r: "rep h0 h R s (plug fs (Nd (Nd wl w kw cw wr) p kp cp t))"
    and tp: "t = Lf \<Longrightarrow> rb_get rb_parent s h0 = Some p"
  shows "cw \<Longrightarrow> \<exists>h' R'. rb_fix_right R s (root s t) h = rb_fix_right_black R' s (root s t) (root s wr) h' \<and>
      rep h0 h' R' s (plug fs (Nd wl w kw False (Nd wr p kp True t)))"
    and "\<not> cw \<Longrightarrow> rb_fix_right R s (root s t) h = rb_fix_right_black R s (root s t) w h"
proof -
  note v = rep_reads [OF r] right_parent [OF r tp]
  show "\<not> cw \<Longrightarrow> rb_fix_right R s (root s t) h = rb_fix_right_black R s (root s t) w h"
    using v by (simp add: rb_fix_right_def)
  from rep_black [of h0 h R s "FL p kp cp t # fs" wl w kw cw wr] r obtain h1 where
    h1: "ngx_rbt_black w h = Some h1" "rep h0 h1 R s (plug fs (Nd (Nd wl w kw False wr) p kp cp t))" by auto
  from rep_red [OF h1(2)] obtain h2 where
    h2: "ngx_rbt_red p h1 = Some h2" "rep h0 h2 R s (plug fs (Nd (Nd wl w kw False wr) p kp True t))" by auto
  from right_rotate_rep [OF h2(2)] obtain R1 h3 where
    h3: "ngx_rbtree_right_rotate R s p h2 = Some (R1, h3)"
      "rep h0 h3 R1 s (plug fs (Nd wl w kw False (Nd wr p kp True t)))" by auto
  have r3: "rep h0 h3 R1 s (plug (FR wl w kw False # fs) (Nd wr p kp True t))" using h3(2) by simp
  from v right_parent [OF r3 tp] rep_reads [OF r3] paint_get(3) [OF h1(1)] paint_get(8) [OF h2(1)] h1(1) h2(1) h3
  show "cw \<Longrightarrow> \<exists>h' R'. rb_fix_right R s (root s t) h = rb_fix_right_black R' s (root s t) (root s wr) h' \<and>
      rep h0 h' R' s (plug fs (Nd wl w kw False (Nd wr p kp True t)))"
    by (intro exI [of _ h3] exI [of _ R1]) (simp add: rb_fix_right_def)
qed

section \<open>Colours and heights along the loop\<close>

text \<open>The tree \<open>plug fs t\<close> is a red-black tree but for one black node missing above \<open>t\<close>.\<close>

definition short :: "frame list \<Rightarrow> rbtree \<Rightarrow> bool" where
  "short fs t \<longleftrightarrow> invc (paint False t) \<and> invh t \<and> cinvc fs \<and> cinvh fs (bheight t + 1) \<and>
     (fs \<noteq> [] \<longrightarrow> \<not> fred (last fs))"

lemma short_sibling:
  assumes "short (FL p kp cp w # fs) t \<or> short (FR w p kp cp # fs) t"
  shows "\<exists>wl a kw cw wr. w = Nd wl a kw cw wr" "red w \<Longrightarrow> \<exists>a kw b x kx c d. w = Nd (Nd b x kx False c) a kw True d"
    "red w \<Longrightarrow> \<exists>a kw b x kx c d. w = Nd d a kw True (Nd b x kx False c)"
proof -
  from assms have w: "bheight w = bheight t + 1" "invc w" "invh w" by (auto simp: short_def)
  then show "\<exists>wl a kw cw wr. w = Nd wl a kw cw wr" by (cases w) auto
  assume "red w"
  with w obtain l a k r where n: "w = Nd l a k True r" "bheight l = bheight t + 1" "bheight r = bheight t + 1"
    "\<not> red l" "\<not> red r" by (cases w) auto
  from n(2,4) obtain b x kx c where "l = Nd b x kx False c" by (cases l) auto
  with n(1) show "\<exists>a kw b x kx c d. w = Nd (Nd b x kx False c) a kw True d" by blast
  from n(3,5) obtain b x kx c where "r = Nd b x kx False c" by (cases r) auto
  with n(1) show "\<exists>a kw b x kx c d. w = Nd d a kw True (Nd b x kx False c)" by blast
qed

lemma paint_black: "\<not> red t \<Longrightarrow> paint False t = t"
  by (simp add: paint_id)

lemma short_up:
  "short (FL p kp cp (Nd wl w kw False wr) # fs) t \<Longrightarrow> \<not> red t \<Longrightarrow> \<not> red wl \<Longrightarrow> \<not> red wr \<Longrightarrow>
    short fs (Nd t p kp cp (Nd wl w kw True wr))"
  "short (FR (Nd wl w kw False wr) p kp cp # fs) t \<Longrightarrow> \<not> red t \<Longrightarrow> \<not> red wl \<Longrightarrow> \<not> red wr \<Longrightarrow>
    short fs (Nd (Nd wl w kw True wr) p kp cp t)"
  by (auto simp: short_def paint_black split: if_splits)

lemma short_red_sibling:
  "short (FL p kp cp (Nd wl w kw True wr) # fs) t \<Longrightarrow> short (FL p kp True wl # FL w kw False wr # fs) t"
  "short (FR (Nd wl w kw True wr) p kp cp # fs) t \<Longrightarrow> short (FR wr p kp True # FR wl w kw False # fs) t"
  by (auto simp: short_def split: if_splits)

lemma rbt_plug:
  assumes "invc t" "invh t" "cinvc fs" "cinvh fs (bheight t)" "hred fs \<longrightarrow> \<not> red t" "fs \<noteq> [] \<longrightarrow> \<not> fred (last fs)"
    "fs = [] \<longrightarrow> \<not> red t"
  shows "rbt (plug fs t)"
  using assms by (cases "fs = []") (auto simp: rbt_def red_plug)

lemma turned_nodes:
  "red wl \<or> red wr \<Longrightarrow> nodes (turned_left t p kp cp wl w kw wr) = nodes t @ (p, kp) # nodes wl @ (w, kw) # nodes wr"
  "red wr \<or> red wl \<Longrightarrow> nodes (turned_right t p kp cp wr w kw wl) = nodes wl @ (w, kw) # nodes wr @ (p, kp) # nodes t"
  by (cases wl; cases wr; auto simp: turned_left_def turned_right_def)+

lemma turned_rbt:
  "short (FL p kp cp (Nd wl w kw False wr) # fs) t \<Longrightarrow> \<not> red t \<Longrightarrow> red wl \<or> red wr \<Longrightarrow>
    rbt (plug fs (turned_left t p kp cp wl w kw wr))"
  "short (FR (Nd wl w kw False wr) p kp cp # fs) t \<Longrightarrow> \<not> red t \<Longrightarrow> red wr \<or> red wl \<Longrightarrow>
    rbt (plug fs (turned_right t p kp cp wr w kw wl))"
  by (rule rbt_plug; cases wl; cases wr; auto simp: short_def turned_left_def turned_right_def paint_black split: if_splits)+

section \<open>A round\<close>

text \<open>What a round leaves: a tree that is in order again, or a subtree that is still short.\<close>

definition round_done :: "rbheap \<Rightarrow> rbheap \<Rightarrow> rbaddr \<Rightarrow> rbaddr \<Rightarrow> rbaddr \<Rightarrow> frame list \<Rightarrow> (rbaddr \<times> u64) list \<Rightarrow> bool" where
  "round_done h0 h R s y fs xs \<longleftrightarrow> (\<exists>gs t. t \<noteq> Lf \<and> rep h0 h R s (plug gs t) \<and> nodes (plug gs t) = xs \<and>
     (y = R \<and> rbt (plug gs t) \<or> y = root s t \<and> short gs t \<and> (gs = fs \<or> red t)))"

lemma fix_left_black_done:
  assumes r: "rep h0 h R s (plug fs (Nd t p kp cp (Nd wl w kw False wr)))"
    and tp: "t = Lf \<Longrightarrow> rb_get rb_parent s h0 = Some p"
    and i: "short (FL p kp cp (Nd wl w kw False wr) # fs) t" "\<not> red t" and g: "fs = gs \<or> cp"
  shows "\<exists>h' R' y. rb_fix_left_black R s (root s t) w h = Some (y, R', h') \<and>
    round_done h0 h' R' s y gs (nodes (plug fs (Nd t p kp cp (Nd wl w kw False wr))))"
proof -
  from fix_left_black_rep [OF r tp] obtain h' R' y where e: "rb_fix_left_black R s (root s t) w h = Some (y, R', h')"
    and post: "if \<not> red wl \<and> \<not> red wr then y = p \<and> rep h0 h' R' s (plug fs (Nd t p kp cp (Nd wl w kw True wr)))
      else y = R' \<and> rep h0 h' R' s (plug fs (turned_left t p kp cp wl w kw wr))" by blast
  show ?thesis
  proof (cases "red wl \<or> red wr")
    case True
    then have "turned_left t p kp cp wl w kw wr \<noteq> Lf" using turned_nodes(1) [OF True, of t p kp cp w kw] by force
    with True post e turned_rbt(1) [OF i True] turned_nodes(1) [OF True, of t p kp cp w kw] show ?thesis
      by (auto simp: round_done_def intro!: exI [of _ fs] exI [of _ "turned_left t p kp cp wl w kw wr"])
  next
    case False
    with post e short_up(1) [OF i] g show ?thesis
      by (auto simp: round_done_def intro!: exI [of _ fs] exI [of _ "Nd t p kp cp (Nd wl w kw True wr)"])
  qed
qed

lemma fix_left_done:
  assumes r: "rep h0 h R s (plug (FL p kp cp w # fs) t)"
    and tp: "t = Lf \<Longrightarrow> rb_get rb_parent s h0 = Some p"
    and i: "short (FL p kp cp w # fs) t" "\<not> red t"
  shows "\<exists>h' R' y. rb_fix_left R s (root s t) h = Some (y, R', h') \<and>
    round_done h0 h' R' s y fs (nodes (plug (FL p kp cp w # fs) t))"
proof (cases "red w")
  case True
  then obtain a kw b x kx c d where w: "w = Nd (Nd b x kx False c) a kw True d" using short_sibling(2) i(1) by blast
  from r have r': "rep h0 h R s (plug fs (Nd t p kp cp w))" by simp
  from fix_left_rep(1) [OF r' [unfolded w] tp] obtain h' R' where
    e: "rb_fix_left R s (root s t) h = rb_fix_left_black R' s (root s t) x h'"
      "rep h0 h' R' s (plug (FL a kw False d # fs) (Nd t p kp True (Nd b x kx False c)))" by auto
  from fix_left_black_done [OF e(2) tp short_red_sibling(1) [OF i(1) [unfolded w]] i(2), of fs] e(1) show ?thesis
    by (simp add: w)
next
  case False
  then obtain a kw wl wr where w: "w = Nd wl a kw False wr" using short_sibling(1) i(1) by fastforce
  from r have r': "rep h0 h R s (plug fs (Nd t p kp cp w))" by simp
  from fix_left_black_done [OF r' [unfolded w] tp i [unfolded w], of fs] fix_left_rep(2) [OF r' [unfolded w] tp] show ?thesis
    by (simp add: w)
qed

lemma fix_right_black_done:
  assumes r: "rep h0 h R s (plug fs (Nd (Nd wl w kw False wr) p kp cp t))"
    and tp: "t = Lf \<Longrightarrow> rb_get rb_parent s h0 = Some p"
    and i: "short (FR (Nd wl w kw False wr) p kp cp # fs) t" "\<not> red t" and g: "fs = gs \<or> cp"
  shows "\<exists>h' R' y. rb_fix_right_black R s (root s t) w h = Some (y, R', h') \<and>
    round_done h0 h' R' s y gs (nodes (plug fs (Nd (Nd wl w kw False wr) p kp cp t)))"
proof -
  from fix_right_black_rep [OF r tp] obtain h' R' y where e: "rb_fix_right_black R s (root s t) w h = Some (y, R', h')"
    and post: "if \<not> red wr \<and> \<not> red wl then y = p \<and> rep h0 h' R' s (plug fs (Nd (Nd wl w kw True wr) p kp cp t))
      else y = R' \<and> rep h0 h' R' s (plug fs (turned_right t p kp cp wr w kw wl))" by blast
  show ?thesis
  proof (cases "red wr \<or> red wl")
    case True
    then have "turned_right t p kp cp wr w kw wl \<noteq> Lf" using turned_nodes(2) [OF True, of t p kp cp w kw] by force
    with True post e turned_rbt(2) [OF i True] turned_nodes(2) [OF True, of t p kp cp w kw] show ?thesis
      by (auto simp: round_done_def intro!: exI [of _ fs] exI [of _ "turned_right t p kp cp wr w kw wl"])
  next
    case False
    with post e short_up(2) [OF i] g show ?thesis
      by (auto simp: round_done_def intro!: exI [of _ fs] exI [of _ "Nd (Nd wl w kw True wr) p kp cp t"])
  qed
qed

lemma fix_right_done:
  assumes r: "rep h0 h R s (plug (FR w p kp cp # fs) t)"
    and tp: "t = Lf \<Longrightarrow> rb_get rb_parent s h0 = Some p"
    and i: "short (FR w p kp cp # fs) t" "\<not> red t"
  shows "\<exists>h' R' y. rb_fix_right R s (root s t) h = Some (y, R', h') \<and>
    round_done h0 h' R' s y fs (nodes (plug (FR w p kp cp # fs) t))"
proof (cases "red w")
  case True
  then obtain a kw b x kx c d where w: "w = Nd d a kw True (Nd c x kx False b)" using short_sibling(3) i(1) by blast
  from r have r': "rep h0 h R s (plug fs (Nd w p kp cp t))" by simp
  from fix_right_rep(1) [OF r' [unfolded w] tp] obtain h' R' where
    e: "rb_fix_right R s (root s t) h = rb_fix_right_black R' s (root s t) x h'"
      "rep h0 h' R' s (plug (FR d a kw False # fs) (Nd (Nd c x kx False b) p kp True t))" by auto
  from fix_right_black_done [OF e(2) tp short_red_sibling(2) [OF i(1) [unfolded w]] i(2), of fs] e(1) show ?thesis
    by (simp add: w)
next
  case False
  then obtain a kw wr wl where w: "w = Nd wl a kw False wr" using short_sibling(1) i(1) by fastforce
  from r have r': "rep h0 h R s (plug fs (Nd w p kp cp t))" by simp
  from fix_right_black_done [OF r' [unfolded w] tp i [unfolded w], of fs] fix_right_rep(2) [OF r' [unfolded w] tp] show ?thesis
    by (simp add: w)
qed

lemma delete_round_done:
  assumes r: "rep h0 h R s (plug (f # fs) t)" and tp: "t = Lf \<Longrightarrow> rb_get rb_parent s h0 = Some (faddr f)"
    and i: "short (f # fs) t" "\<not> red t"
  shows "\<exists>h' R' y. rb_delete_round R s (root s t) h = Some (y, R', h') \<and>
    round_done h0 h' R' s y fs (nodes (plug (f # fs) t))"
proof (cases f)
  case (FL p kp cp w)
  with r have r': "rep h0 h R s (plug fs (Nd t p kp cp w))" by simp
  from rep_reads(2) [OF r'] left_parent [OF r'] tp FL
  have "rb_delete_round R s (root s t) h = rb_fix_left R s (root s t) h" by (simp add: rb_delete_round_def)
  with fix_left_done [of h0 h R s p kp cp w fs t] assms FL show ?thesis by simp
next
  case (FR w p kp cp)
  with r have r': "rep h0 h R s (plug fs (Nd w p kp cp t))" by simp
  from short_sibling(1) i(1) FR obtain wl a kw cw wr where w: "w = Nd wl a kw cw wr" by blast
  have "root s t \<noteq> root s w"
    using rep_distinct [OF r'] by (cases t) (auto simp: w)
  with rep_reads(2) [OF r'] right_parent [OF r'] tp FR
  have "rb_delete_round R s (root s t) h = rb_fix_right R s (root s t) h" by (simp add: rb_delete_round_def)
  with fix_right_done [of h0 h R s w p kp cp fs t] assms FR show ?thesis by simp
qed

section \<open>The loop\<close>

text \<open>The loop with the statement after it, which paints the last \<open>temp\<close> black.\<close>

definition loop_done :: "rbheap \<Rightarrow> rbheap \<Rightarrow> rbaddr \<Rightarrow> rbaddr \<Rightarrow> rbaddr \<Rightarrow> (rbaddr \<times> u64) list \<Rightarrow> bool" where
  "loop_done h0 h R s x xs \<longleftrightarrow> (\<exists>y R1 h1 h2 T. rb_delete_loop R s x h = Some (y, R1, h1) \<and> ngx_rbt_black y h1 = Some h2 \<and>
     rep h0 h2 R1 s T \<and> rbt T \<and> nodes T = xs)"

lemma rbt_paint: "rbt T \<Longrightarrow> paint False T = T"
  by (simp add: rbt_def paint_black)

lemma loop_at_root:
  assumes "rep h0 h R s T" "T \<noteq> Lf" "rbt T"
  shows "loop_done h0 h R s R (nodes T)"
proof -
  from rep_paint_root [OF assms(1,2)] obtain h' where
    "ngx_rbt_black R h = Some h'" "rep h0 h' R s (paint False T)" by blast
  with assms(3) show ?thesis
    by (auto simp: loop_done_def rb_delete_loop.simps [of R s R] rb_short_def rbt_paint)
qed

lemma loop_stops:
  assumes r: "rep h0 h R s (plug fs t)" and t: "t \<noteq> Lf" "fs = [] \<or> red t" and i: "short fs t"
  shows "loop_done h0 h R s (root s t) (nodes (plug fs t))"
proof -
  from t(1) obtain l a k c r' where n: "t = Nd l a k c r'" by (cases t) auto
  have "rb_short R (root s t) h = Some False"
  proof (cases "fs = []")
    case True
    with r show ?thesis by (simp add: rb_short_def rep_def)
  next
    case False
    with rep_is_red(2) [OF r] t(2) show ?thesis by (simp add: rb_short_def)
  qed
  moreover from rep_black [OF r [unfolded n]] obtain h' where
    "ngx_rbt_black a h = Some h'" "rep h0 h' R s (plug fs (paint False t))" by (auto simp: n)
  moreover have "rbt (plug fs (paint False t))"
    by (rule rbt_plug) (use i t(2) in \<open>auto simp: short_def bheight_paint split: if_splits\<close>)
  moreover have "nodes (plug fs (paint False t)) = nodes (plug fs t)" by simp
  ultimately show ?thesis
    unfolding loop_done_def by (simp add: n rb_delete_loop.simps [of R s a] del: nodes_plug) blast
qed

lemma delete_loop_done:
  assumes "rep h0 h R s (plug fs t)" "short fs t" "t = Lf \<Longrightarrow> fs \<noteq> [] \<and> rb_get rb_parent s h0 = Some (faddr (hd fs))"
  shows "loop_done h0 h R s (root s t) (nodes (plug fs t))"
  using assms
proof (induction fs arbitrary: t h R)
  case Nil
  then show ?case using loop_stops [of h0 h R s "[]" t] by (cases "t = Lf") auto
next
  case (Cons f fs)
  show ?case
  proof (cases "red t")
    case True
    with loop_stops [OF Cons.prems(1) _ _ Cons.prems(2)] show ?thesis by (cases t) auto
  next
    case False
    from Cons.prems(3) have "t = Lf \<Longrightarrow> rb_get rb_parent s h0 = Some (faddr f)" by simp
    from delete_round_done [OF Cons.prems(1) this Cons.prems(2) False] obtain h' R' y where
      e: "rb_delete_round R s (root s t) h = Some (y, R', h')" and d: "round_done h0 h' R' s y fs (nodes (plug (f # fs) t))" by blast
    have "R \<in> faddrs (f # fs)" by (rule rep_root [OF Cons.prems(1)])
    moreover have "root s t \<notin> faddrs (f # fs)"
      using rep_distinct(3) [OF Cons.prems(1)] Cons.prems(1) by (cases t) (auto simp: rep_def)
    ultimately have "rb_short R (root s t) h = Some True"
      using rep_is_red(2) [OF Cons.prems(1)] False by (auto simp: rb_short_def)
    with e have "rb_delete_loop R s (root s t) h = rb_delete_loop R' s y h'"
      by (simp add: rb_delete_loop.simps [of R s "root s t"])
    moreover from d obtain gs t' where g: "t' \<noteq> Lf" "rep h0 h' R' s (plug gs t')" "nodes (plug gs t') = nodes (plug (f # fs) t)"
      "y = R' \<and> rbt (plug gs t') \<or> y = root s t' \<and> short gs t' \<and> (gs = fs \<or> red t')" unfolding round_done_def by blast
    have "loop_done h0 h' R' s y (nodes (plug gs t'))"
      using g(4)
    proof (elim disjE conjE)
      assume "y = R'" "rbt (plug gs t')"
      with loop_at_root [OF g(2)] g(1) show ?thesis by simp
    next
      assume "y = root s t'" "short gs t'" "gs = fs"
      with Cons.IH [of h' R' t'] g(1,2) show ?thesis by simp
    next
      assume "y = root s t'" "short gs t'" "red t'"
      with loop_stops [OF g(2,1)] show ?thesis by simp
    qed
    ultimately show ?thesis unfolding loop_done_def g(3) by simp
  qed
qed

end
