(* ===== verification/Rbtree_Delete.thy ===== *)
theory Rbtree_Delete
  imports Rbtree_Fixup
begin

text \<open>
  Deletion from the red-black tree: a node with a missing child is unlinked, a node with two
  children changes places with its successor, and the loop of \<^verbatim>\<open>Rbtree_Fixup\<close> puts the heights right.
\<close>

section \<open>Unlinking\<close>

lemma ctx_relink:
  assumes "is_ctx h s (f # fs) x p" "h x = Some n" "rb_parent n = faddr f" "x \<notin> faddrs (f # fs)" "x \<noteq> s" "funiq (f # fs)"
  shows "\<exists>h'. rb_relink x y h = Some h' \<and> is_ctx h' s (f # fs) y p \<and> (\<forall>a. a \<noteq> faddr f \<longrightarrow> h' a = h a)"
proof (cases f)
  case (FL a k c r)
  with assms show ?thesis
    by (auto simp: rb_relink_def rotate_simps)
next
  case (FR l a k c)
  with assms have "root s l \<noteq> x" "x \<noteq> root s l" by (simp_all add: root_notin)
  with assms FR show ?thesis
    by (auto simp: rb_relink_def rotate_simps)
qed

lemma adopt:
  assumes "is_tree h s t q" "uniq t" "t = Lf \<Longrightarrow> h s = Some sn"
  shows "\<exists>h'. put_parent (root s t) p h = Some h' \<and> is_tree h' s t p \<and> (\<forall>a. a \<noteq> root s t \<longrightarrow> h' a = h a) \<and>
    (t = Lf \<longrightarrow> h' s = Some (sn\<lparr>rb_parent := p\<rparr>))"
  using assms by (cases t) (auto simp: rotate_simps)

lemma adopt_child:
  assumes "is_tree h s t q" "uniq t" "s \<notin> addrs t"
  shows "\<exists>h'. (if root s t \<noteq> s then put_parent (root s t) p h else Some h) = Some h' \<and> is_tree h' s t p \<and>
    (\<forall>a. a \<notin> addrs t \<longrightarrow> h' a = h a)"
proof (cases "t = Lf")
  case False
  with adopt [OF assms(1,2), where p = p] obtain h' where
    "put_parent (root s t) p h = Some h'" "is_tree h' s t p" "\<And>a. a \<noteq> root s t \<Longrightarrow> h' a = h a" by blast
  moreover have "a \<noteq> root s t" if "a \<notin> addrs t" for a using that root_in [OF False, of s] by blast
  ultimately show ?thesis using False root_neq [OF assms(3)] by (intro exI [of _ h']) simp
qed simp

lemma take_over:
  assumes c: "is_ctx h s fs z p" and z: "h z = Some (node_of kz (root s l) (root s r) (par fs p) cz)"
    and l: "is_tree h s l q1" and r: "is_tree h s r q2" and y: "h y = Some n" and R: "R = ztop fs z"
    and u: "uniq (plug fs (Nd l z kz cz r))" "s \<notin> addrs (plug fs (Nd l z kz cz r))"
      "y \<notin> addrs (plug fs (Nd l z kz cz r))" "y \<noteq> s"
  shows "\<exists>h'. rb_take_over R s z y h = Some (ztop fs y, h') \<and>
    is_tree h' s (plug fs (Nd l y (rb_key n) cz r)) p \<and>
    (\<forall>a. a \<noteq> y \<longrightarrow> a \<notin> addrs l \<longrightarrow> a \<notin> addrs r \<longrightarrow> a \<notin> faddrs fs \<longrightarrow> h' a = h a)"
proof -
  from u have d: "y \<noteq> z" "y \<notin> addrs l" "y \<notin> addrs r" "y \<notin> faddrs fs" "z \<notin> addrs l" "z \<notin> addrs r" "z \<notin> faddrs fs"
    "uniq l" "uniq r" "funiq fs" "addrs l \<inter> addrs r = {}" "addrs l \<inter> faddrs fs = {}" "addrs r \<inter> faddrs fs = {}"
    "s \<notin> addrs l" "s \<notin> addrs r" "s \<notin> faddrs fs" "z \<noteq> s" "s \<noteq> z" by auto
  let ?n = "node_of (rb_key n) (root s l) (root s r) (par fs p) cz" and ?g = "\<lambda>v. h(y \<mapsto> v)"
  obtain h1 where h1: "(if z = R then Some (y, ?g ?n) else Option.bind (rb_relink z y (?g ?n)) (\<lambda>h. Some (R, h))) = Some (ztop fs y, h1)"
    "is_ctx h1 s fs y p" "\<And>a. a \<notin> faddrs fs \<Longrightarrow> h1 a = ?g ?n a"
  proof (cases fs)
    case Nil
    with R that show ?thesis by simp
  next
    case (Cons f gs)
    have "is_ctx (?g ?n) s (f # gs) z p" using c d(4) Cons by simp
    moreover have "(?g ?n) z = Some (node_of kz (root s l) (root s r) (faddr f) cz)" using z d(1) Cons by simp
    ultimately obtain h' where h': "rb_relink z y (?g ?n) = Some h'" "is_ctx h' s (f # gs) y p"
      "\<And>a. a \<noteq> faddr f \<Longrightarrow> h' a = ?g ?n a"
      using ctx_relink [of "?g ?n" s f gs z p _ y] d(7,10,17) Cons by (auto simp: node_of_def)
    have "R = faddr (last fs)" using R Cons by (simp add: ztop_def)
    with faddr_last [of fs] d(7) Cons have ne: "z \<noteq> R" by auto
    have mem: "faddr f \<in> faddrs fs" using faddr_par [of fs] Cons by simp
    from ne have "(if z = R then Some (y, ?g ?n) else Option.bind (rb_relink z y (?g ?n)) (\<lambda>h. Some (R, h))) = Some (R, h')"
      by (simp add: h'(1))
    moreover have "h' a = ?g ?n a" if "a \<notin> faddrs fs" for a
    proof -
      have "a \<noteq> faddr f" using that mem by blast
      then show ?thesis by (rule h'(3))
    qed
    moreover have "ztop fs y = R" using R Cons by (simp add: ztop_def)
    ultimately show ?thesis using that [of h'] h'(1,2) Cons by auto
  qed
  have l1: "is_tree h1 s l q1"
    using l is_tree_cong [of l h1 h s q1] h1(3) d by (metis disjoint_iff fun_upd_apply)
  from adopt_child [OF l1 d(8,14), of y] obtain h2 where
    h2: "(if root s l \<noteq> s then put_parent (root s l) y h1 else Some h1) = Some h2" "is_tree h2 s l y"
      "\<And>a. a \<notin> addrs l \<Longrightarrow> h2 a = h1 a" by blast
  have r2: "is_tree h2 s r q2"
    using r is_tree_cong [of r h2 h s q2] h1(3) h2(3) d by (metis disjoint_iff fun_upd_apply)
  from adopt_child [OF r2 d(9,15), of y] obtain h3 where
    h3: "(if root s r \<noteq> s then put_parent (root s r) y h2 else Some h2) = Some h3" "is_tree h3 s r y"
      "\<And>a. a \<notin> addrs r \<Longrightarrow> h3 a = h2 a" by blast
  have l3: "is_tree h3 s l y"
    using h2(2) is_tree_cong [of l h3 h2 s y] h3(3) d(11) by (metis disjoint_iff)
  have c3: "is_ctx h3 s fs y p"
    using h1(2) is_ctx_cong [of fs h3 h1 s y p] h3(3) h2(3) d(12,13) by (metis disjoint_iff)
  have y1: "h1 y = Some ?n" using h1(3) d(4) by simp
  have y2: "h2 y = Some ?n" using h2(3) d(2) y1 by simp
  have y3: "h3 y = Some ?n" using h3(3) d(3) y2 by simp
  have "rb_take_over R s z y h = Option.bind
      (if z = R then Some (y, ?g ?n) else Option.bind (rb_relink z y (?g ?n)) (\<lambda>h. Some (R, h)))
      (\<lambda>(root, h). do {
        sl \<leftarrow> rb_get rb_left y h;
        h \<leftarrow> (if sl \<noteq> s then put_parent sl y h else Some h);
        sr \<leftarrow> rb_get rb_right y h;
        h \<leftarrow> (if sr \<noteq> s then put_parent sr y h else Some h);
        Some (root, h) })"
    using z y d(1) by (cases n) (simp add: rb_take_over_def ngx_rbt_copy_color_def put_left_def put_right_def
      put_parent_def [of y] put_color_def rb_put_def rb_get_def node_of_def)
  also have "\<dots> = Some (ztop fs y, h3)"
    unfolding h1(1) using y1 y2 h2(1) h3(1) by (simp add: rb_get_node)
  finally have "rb_take_over R s z y h = Some (ztop fs y, h3)" .
  moreover have "is_tree h3 s (plug fs (Nd l y (rb_key n) cz r)) p"
    using c3 y3 l3 h3(2) by (simp add: is_tree_plug)
  moreover have "\<forall>a. a \<noteq> y \<longrightarrow> a \<notin> addrs l \<longrightarrow> a \<notin> addrs r \<longrightarrow> a \<notin> faddrs fs \<longrightarrow> h3 a = h a"
    using h1(3) h2(3) h3(3) by simp
  ultimately show ?thesis by blast
qed

lemma unlink_child:
  assumes c: "is_ctx h s (g # gs) y p" and y: "h y = Some n" "rb_parent n = faddr g" "y \<notin> faddrs (g # gs)" "y \<noteq> s"
    and t: "is_tree h s t q" "uniq t" "s \<notin> addrs t" and d: "funiq (g # gs)" "s \<notin> faddrs (g # gs)" "addrs t \<inter> faddrs (g # gs) = {}"
    and s: "h s = Some sn"
  shows "\<exists>h1 h2 sn'. rb_relink y (root s t) h = Some h1 \<and> put_parent (root s t) pp h1 = Some h2 \<and>
    is_ctx h2 s (g # gs) (root s t) p \<and> is_tree h2 s t pp \<and>
    (\<forall>a. a \<notin> faddrs (g # gs) \<longrightarrow> h1 a = h a) \<and>
    (\<forall>a. a \<notin> faddrs (g # gs) \<longrightarrow> a \<notin> addrs t \<longrightarrow> a \<noteq> s \<longrightarrow> h2 a = h a) \<and>
    h2 s = Some sn' \<and> rb_color sn' = rb_color sn \<and> (t = Lf \<longrightarrow> rb_parent sn' = pp)"
proof -
  have g: "faddr g \<in> faddrs (g # gs)" using faddr_par [of "g # gs"] by simp
  from ctx_relink [OF c y(1-4) d(1)] obtain h1 where h1: "rb_relink y (root s t) h = Some h1"
    "is_ctx h1 s (g # gs) (root s t) p" "\<And>a. a \<noteq> faddr g \<Longrightarrow> h1 a = h a" by blast
  have f1: "h1 a = h a" if "a \<notin> faddrs (g # gs)" for a
    using that g h1(3) [of a] by (cases "a = faddr g") simp_all
  have "is_tree h1 s t q" using t(1) is_tree_cong [of t h1 h s q] f1 d(3) by (metis disjoint_iff)
  moreover have "h1 s = Some sn" using f1 [OF d(2)] s by simp
  ultimately obtain h2 where h2: "put_parent (root s t) pp h1 = Some h2" "is_tree h2 s t pp"
    "\<And>a. a \<noteq> root s t \<Longrightarrow> h2 a = h1 a" "t = Lf \<Longrightarrow> h2 s = Some (sn\<lparr>rb_parent := pp\<rparr>)"
    using adopt [of h1 s t q sn pp] t(2) by blast
  have "is_ctx h2 s (g # gs) (root s t) p"
  proof (rule is_ctx_cong [THEN iffD2, OF _ h1(2)])
    fix a assume a: "a \<in> faddrs (g # gs)"
    have "a \<noteq> root s t"
    proof
      assume e: "a = root s t"
      show False
      proof (cases "t = Lf")
        case True with e a d(2) show False by simp
      next
        case False with e a d(3) root_in [OF False, of s] show False by blast
      qed
    qed
    then show "h2 a = h1 a" by (rule h2(3))
  qed
  moreover have "h2 a = h a" if "a \<notin> faddrs (g # gs)" "a \<notin> addrs t" "a \<noteq> s" for a
    using that f1 [of a] h2(3) [of a] root_notin [of a t s] by simp
  moreover have "\<exists>sn'. h2 s = Some sn' \<and> rb_color sn' = rb_color sn \<and> (t = Lf \<longrightarrow> rb_parent sn' = pp)"
  proof (cases "t = Lf")
    case True
    with h2(4) show ?thesis by simp
  next
    case False
    with h2(3) [of s] f1 [OF d(2)] s root_neq [OF t(3)] show ?thesis by auto
  qed
  ultimately show ?thesis using h1(1) h2(1,2) f1 by blast
qed

lemma rb_clear_eval:
  "h z = Some n \<Longrightarrow> rb_clear z h = Some (h(z \<mapsto> \<lparr>rb_key = 0, rb_left = 0, rb_right = 0, rb_parent = 0, rb_color = rb_color n\<rparr>))"
  by (cases n) (simp add: rb_clear_def put_simps)

lemma is_ctx_append: "is_ctx h s (ms @ fs) x p \<longleftrightarrow> is_ctx h s ms x (par fs p) \<and> is_ctx h s fs (ztop ms x) p"
proof (induction ms arbitrary: x)
  case (Cons f ms)
  have "par (ms @ fs) p = par ms (par fs p)" by (cases ms) simp_all
  moreover have "ztop (f # ms) x = ztop ms (faddr f)" by (simp add: ztop_def)
  ultimately show ?case using Cons by (cases f) simp_all
qed simp

text \<open>Address and key of a frame do not matter for colours and heights.\<close>

lemma inv_swap:
  "hred (ms @ FR l z k c # fs) = hred (ms @ FR l y j c # fs)"
  "cinvc (ms @ FR l z k c # fs) = cinvc (ms @ FR l y j c # fs)"
  "cinvh (ms @ FR l z k c # fs) n = cinvh (ms @ FR l y j c # fs) n"
  "fred (last (ms @ FR l z k c # fs)) = fred (last (ms @ FR l y j c # fs))"
proof -
  have hd: "hred (ms @ FR l z k c # fs) = hred (ms @ FR l y j c # fs)" for ms by (cases ms) simp_all
  then show "hred (ms @ FR l z k c # fs) = hred (ms @ FR l y j c # fs)" .
  show "cinvc (ms @ FR l z k c # fs) = cinvc (ms @ FR l y j c # fs)"
    by (induction ms rule: cinvc.induct) (simp_all add: hd)
  show "cinvh (ms @ FR l z k c # fs) n = cinvh (ms @ FR l y j c # fs) n"
    by (induction ms n rule: cinvh.induct) simp_all
  show "fred (last (ms @ FR l z k c # fs)) = fred (last (ms @ FR l y j c # fs))" by simp
qed

lemma short_swap: "short (ms @ FR l z k c # fs) t \<Longrightarrow> short (ms @ FR l y j c # fs) t"
  using inv_swap [where ms = ms and l = l and z = z and k = k and c = c and fs = fs and y = y and j = j]
  unfolding short_def by simp

lemma rbt_swap: "rbt (plug (ms @ FR l z k c # fs) t) \<Longrightarrow> rbt (plug (ms @ FR l y j c # fs) t)"
  using inv_swap [where ms = ms and l = l and z = z and k = k and c = c and fs = fs and y = y and j = j]
    red_plug [of "ms @ FR l z k c # fs" t] red_plug [of "ms @ FR l y j c # fs" t]
  unfolding rbt_def invc_plug invh_plug by simp

lemma rbt_plug_short:
  assumes "rbt (plug fs (Nd l z k c r))" "l = Lf \<and> t = r \<or> r = Lf \<and> t = l"
  shows "c \<Longrightarrow> rbt (plug fs t)" "\<not> c \<Longrightarrow> short fs t" "fs = [] \<Longrightarrow> rbt (paint False t)"
proof -
  from assms(1) have i: "invc (Nd l z k c r)" "invh (Nd l z k c r)" "cinvc fs" "cinvh fs (bheight (Nd l z k c r))"
    "hred fs \<longrightarrow> \<not> c" "fs \<noteq> [] \<longrightarrow> \<not> fred (last fs)" "fs = [] \<longrightarrow> \<not> c"
    by (cases "fs = []"; auto simp: rbt_def red_plug)+
  show "c \<Longrightarrow> rbt (plug fs t)" by (rule rbt_plug) (use i assms(2) in auto)
  show "\<not> c \<Longrightarrow> short fs t" using i assms(2) by (auto simp: short_def)
  show "fs = [] \<Longrightarrow> rbt (paint False t)" using i assms(2) by (auto simp: rbt_def)
qed

section \<open>Deletion as a whole\<close>

definition cleared :: "rbheap \<Rightarrow> rbaddr \<Rightarrow> bool" where
  "cleared h z \<longleftrightarrow> (\<exists>c. h z = Some \<lparr>rb_key = 0, rb_left = 0, rb_right = 0, rb_parent = 0, rb_color = c\<rparr>)"

text \<open>What is left to do once the node is out of the tree.\<close>

lemma delete_finish:
  assumes r: "rep h h R s (plug gs t)" and i: "if c then rbt (plug gs t) else short gs t"
    and t: "t = Lf \<Longrightarrow> gs \<noteq> [] \<and> rb_get rb_parent s h = Some (faddr (hd gs))"
  shows "\<exists>R' h' T'. (if c then Some (tree\<lparr>rb_root := R\<rparr>, h)
      else do { (temp, root, h) \<leftarrow> rb_delete_loop R s (root s t) h; h \<leftarrow> ngx_rbt_black temp h; Some (tree\<lparr>rb_root := root\<rparr>, h) })
      = Some (tree\<lparr>rb_root := R'\<rparr>, h') \<and> rep h h' R' s T' \<and> rbt T' \<and> nodes T' = nodes (plug gs t)"
proof (cases c)
  case True
  with r i show ?thesis by (intro exI [of _ R] exI [of _ h] exI [of _ "plug gs t"]) simp
next
  case False
  with i have "short gs t" by simp
  from delete_loop_done [OF r this t] obtain y R1 h1 h2 T where
    "rb_delete_loop R s (root s t) h = Some (y, R1, h1)" "ngx_rbt_black y h1 = Some h2"
    "rep h h2 R1 s T" "rbt T" "nodes T = nodes (plug gs t)" unfolding loop_done_def by blast
  with False show ?thesis by (intro exI [of _ R1] exI [of _ h2] exI [of _ T]) simp
qed

lemma delete_root:
  assumes T: "rep h h (rb_root tree) (rb_sentinel tree) (Nd l z k c r)" "rbt (Nd l z k c r)"
    and t: "l = Lf \<and> t = r \<or> r = Lf \<and> t = l"
  shows "\<exists>h'. ngx_rbtree_delete tree z h = Some (tree\<lparr>rb_root := root (rb_sentinel tree) t\<rparr>, h') \<and>
    rep h' h' (root (rb_sentinel tree) t) (rb_sentinel tree) (paint False t) \<and> cleared h' z \<and>
    (\<forall>a. a \<noteq> z \<longrightarrow> a \<notin> addrs t \<longrightarrow> h' a = h a)"
proof -
  let ?s = "rb_sentinel tree"
  note v = rep_reads [of h h "rb_root tree" ?s "[]" l z k c r, simplified, OF T(1)]
  have R: "rb_root tree = z" using T(1) by (simp add: rep_def)
  have ne: "root ?s l = ?s \<longleftrightarrow> l = Lf" "root ?s r = ?s \<longleftrightarrow> r = Lf" using T(1) by (auto simp: rep_def root_neq)
  have sub: "rb_subst ?s z h = Some (z, root ?s t)"
    using v ne t by (auto simp: rb_subst_def)
  from T(1) obtain p sn where z: "h z = Some (node_of k (root ?s l) (root ?s r) p c)" and tt: "is_tree h ?s t z"
    and sn: "h ?s = Some sn" "rb_color sn = 0" using t by (auto simp: rep_def)
  have u: "uniq t" "z \<notin> addrs t" "?s \<notin> addrs t" "0 \<notin> addrs t" "z \<noteq> ?s" using T(1) t by (auto simp: rep_def)
  obtain h1 where h1: "ngx_rbt_black (root ?s t) h = Some h1" "is_tree h1 ?s (paint False t) z"
    "\<And>a. a \<notin> addrs t \<Longrightarrow> h1 a = h a"
  proof (cases t)
    case Lf
    with sn that [of h] show ?thesis by (cases sn) (auto simp: put_simps fun_upd_idem)
  next
    case (Nd l' x kx cx r')
    with tt u that [of "h(x \<mapsto> node_of kx (root ?s l') (root ?s r') z False)"] show ?thesis
      by (auto simp: put_simps node_of_def col_def)
  qed
  let ?h = "h1(z \<mapsto> \<lparr>rb_key = 0, rb_left = 0, rb_right = 0, rb_parent = 0, rb_color = col c\<rparr>)"
  have "rb_clear z h1 = Some ?h" using z h1(3) [OF u(2)] by (subst rb_clear_eval) (auto simp: node_of_def)
  with sub h1(1) R have "ngx_rbtree_delete tree z h = Some (tree\<lparr>rb_root := root ?s t\<rparr>, ?h)"
    by (simp add: ngx_rbtree_delete_def Let_def)
  moreover have "rep ?h ?h (root ?s t) ?s (paint False t)"
    using h1(2) h1(3) [OF u(3)] u sn by (cases t) (auto simp: rep_def)
  moreover have "cleared ?h z" by (simp add: cleared_def)
  ultimately show ?thesis using h1(3) by auto
qed

lemma delete_one_child:
  assumes T: "rep h h (rb_root tree) (rb_sentinel tree) (plug (g # gs) (Nd l z k c r))" "rbt (plug (g # gs) (Nd l z k c r))"
    and t: "l = Lf \<and> t = r \<or> r = Lf \<and> t = l"
  shows "\<exists>R' h' T'. ngx_rbtree_delete tree z h = Some (tree\<lparr>rb_root := R'\<rparr>, h') \<and>
    rep h' h' R' (rb_sentinel tree) T' \<and> rbt T' \<and> nodes T' = nodes (plug (g # gs) t) \<and> cleared h' z \<and>
    (\<forall>a. a \<noteq> z \<longrightarrow> a \<notin> faddrs (g # gs) \<longrightarrow> a \<notin> addrs t \<longrightarrow> a \<noteq> rb_sentinel tree \<longrightarrow> h' a = h a)"
proof -
  let ?s = "rb_sentinel tree" and ?R = "rb_root tree"
  note v = rep_reads [OF T(1)]
  from T(1) obtain p where z: "h z = Some (node_of k (root ?s l) (root ?s r) (faddr g) c)"
    and c: "is_ctx h ?s (g # gs) z p" and tt: "is_tree h ?s t z"
    using t by (auto simp: rep_def is_tree_plug simp del: plug.simps)
  from T(1) obtain sn where sn: "h ?s = Some sn" "rb_color sn = 0" by (auto simp: rep_def)
  from T(1) t have u: "uniq t" "z \<notin> addrs t" "?s \<notin> addrs t" "z \<noteq> ?s" "z \<notin> faddrs (g # gs)" "funiq (g # gs)"
    "?s \<notin> faddrs (g # gs)" "addrs t \<inter> faddrs (g # gs) = {}" "0 \<notin> faddrs (g # gs)" "0 \<notin> addrs t"
    by (auto simp: rep_def simp del: plug.simps)
  have "?R \<in> faddrs (g # gs)" by (rule rep_root [OF T(1)])
  with u(5) have R: "z \<noteq> ?R" by auto
  have R': "?R = root ?s (plug (g # gs) t)" using T(1) by (simp add: rep_def ztop_def del: plug.simps)
  have ne: "root ?s l = ?s \<longleftrightarrow> l = Lf" "root ?s r = ?s \<longleftrightarrow> r = Lf"
    using rep_distinct(2) [OF T(1)] by (auto simp: root_neq)
  have sub: "rb_subst ?s z h = Some (z, root ?s t)"
    using v ne t by (auto simp: rb_subst_def)
  from unlink_child [OF c z _ u(5,4) tt u(1,3,6,7,8) sn(1), of "faddr g"] obtain h1 h2 sn' where
    h: "rb_relink z (root ?s t) h = Some h1" "put_parent (root ?s t) (faddr g) h1 = Some h2"
      "is_ctx h2 ?s (g # gs) (root ?s t) p" "is_tree h2 ?s t (faddr g)"
      "\<And>a. a \<notin> faddrs (g # gs) \<Longrightarrow> h1 a = h a"
      "\<And>a. a \<notin> faddrs (g # gs) \<Longrightarrow> a \<notin> addrs t \<Longrightarrow> a \<noteq> ?s \<Longrightarrow> h2 a = h a"
      "h2 ?s = Some sn'" "rb_color sn' = 0" "t = Lf \<Longrightarrow> rb_parent sn' = faddr g"
    unfolding node_of_def using sn(2) by auto
  let ?h = "h2(z \<mapsto> \<lparr>rb_key = 0, rb_left = 0, rb_right = 0, rb_parent = 0, rb_color = col c\<rparr>)"
  have clr: "rb_clear z h2 = Some ?h" using z h(6) [OF u(5,2,4)] by (subst rb_clear_eval) (auto simp: node_of_def)
  have rep: "rep ?h ?h ?R ?s (plug (g # gs) t)"
    using h(3,4,7,8) u R' by (auto simp: rep_def is_tree_plug simp del: plug.simps funiq_simps)
  have inv: "if c then rbt (plug (g # gs) t) else short (g # gs) t"
    using rbt_plug_short [OF T(2) t] by simp
  have par: "t = Lf \<Longrightarrow> g # gs \<noteq> [] \<and> rb_get rb_parent ?s ?h = Some (faddr (hd (g # gs)))"
    using h(7,9) u(4) by (simp add: rb_get_def)
  from delete_finish [OF rep inv par, of tree] obtain R2 h3 T' where f: "(if c then Some (tree\<lparr>rb_root := ?R\<rparr>, ?h)
      else do { (temp, root, h) \<leftarrow> rb_delete_loop ?R ?s (root ?s t) ?h; h \<leftarrow> ngx_rbt_black temp h; Some (tree\<lparr>rb_root := root\<rparr>, h) })
      = Some (tree\<lparr>rb_root := R2\<rparr>, h3)" "rep ?h h3 R2 ?s T'" "rbt T'" "nodes T' = nodes (plug (g # gs) t)" by blast
  have "rb_get rb_parent z h1 = Some (faddr g)" using z h(5) [OF u(5)] by (simp add: rb_get_node)
  with sub R v h(1,2) clr f(1) have "ngx_rbtree_delete tree z h = Some (tree\<lparr>rb_root := R2\<rparr>, h3)"
    by (simp add: ngx_rbtree_delete_def Let_def)
  moreover have other: "h3 a = ?h a" if "a \<notin> faddrs (g # gs)" "a \<notin> addrs t" for a
  proof (rule rep_frame [OF f(2)])
    show "a \<notin> fst ` set (nodes T')" unfolding f(4) addrs_def [symmetric] addrs_plug using that by simp
  qed
  moreover have "cleared h3 z" using other [OF u(5,2)] by (simp add: cleared_def)
  ultimately show ?thesis using f(3,4) rep_other [OF f(2)] h(6) by auto
qed

lemma delete_two_children:
  assumes T: "rep h h (rb_root tree) (rb_sentinel tree) (plug fs (Nd l z kz cz r))" "rbt (plug fs (Nd l z kz cz r))"
    and lr: "l \<noteq> Lf" "r \<noteq> Lf"
  shows "\<exists>R' h' T'. ngx_rbtree_delete tree z h = Some (tree\<lparr>rb_root := R'\<rparr>, h') \<and>
    rep h' h' R' (rb_sentinel tree) T' \<and> rbt T' \<and> nodes T' = lefts fs @ nodes l @ nodes r @ rights fs \<and> cleared h' z \<and>
    (\<forall>a. a \<noteq> z \<longrightarrow> a \<notin> faddrs fs \<longrightarrow> a \<notin> addrs l \<longrightarrow> a \<notin> addrs r \<longrightarrow> a \<noteq> rb_sentinel tree \<longrightarrow> h' a = h a)"
proof -
  let ?s = "rb_sentinel tree" and ?R = "rb_root tree"
  note v = rep_reads [OF T(1)]
  from T(1) have rr: "rep h h ?R ?s (plug (FR l z kz cz # fs) r)" by simp
  from min_split [OF rr lr(2)] obtain ms y ky cy t where
    r: "r = plug ms (Nd Lf y ky cy t)" and ms: "lefts ms = []" and m: "ngx_rbtree_min (root ?s r) ?s h = Some y" by blast
  let ?gs = "ms @ FR l z kz cz # fs" and ?gs' = "ms @ FR l y ky cz # fs"
  have T': "rep h h ?R ?s (plug ?gs (Nd Lf y ky cy t))" using T(1) by (simp add: r)
  note vy = rep_reads [OF T']
  obtain g gs where gs: "?gs = g # gs" by (cases ?gs) auto
  from T' obtain p where y: "h y = Some (node_of ky ?s (root ?s t) (faddr g) cy)"
    and c: "is_ctx h ?s (g # gs) y p" and tt: "is_tree h ?s t y"
    unfolding gs by (auto simp: rep_def is_tree_plug simp del: plug.simps)
  from T(1) obtain sn where sn: "h ?s = Some sn" "rb_color sn = 0" by (auto simp: rep_def)
  from T' have u: "uniq t" "y \<notin> addrs t" "?s \<notin> addrs t" "y \<noteq> ?s" "y \<notin> faddrs (g # gs)" "funiq (g # gs)"
    "?s \<notin> faddrs (g # gs)" "addrs t \<inter> faddrs (g # gs) = {}" "0 \<notin> faddrs (g # gs)" "0 \<notin> addrs t" "0 \<noteq> y"
    unfolding gs by (auto simp: rep_def simp del: plug.simps)
  have fa: "faddrs (g # gs) = faddrs ms \<union> insert z (addrs l \<union> faddrs fs)"
    unfolding gs [symmetric] by (auto simp: faddrs_def addrs_def)
  have "?R \<in> faddrs (g # gs)" by (rule rep_root [OF T' [unfolded gs]])
  with u(5) have R: "y \<noteq> ?R" by auto
  have ne: "root ?s l \<noteq> ?s" "root ?s r \<noteq> ?s"
    using rep_distinct(2) [OF T(1)] lr by (auto simp: root_neq)
  have sub: "rb_subst ?s z h = Some (y, root ?s t)"
    using v vy ne m by (simp add: rb_subst_def)
  let ?pp = "if faddr g = z then y else faddr g"
  from T(1) have d: "z \<notin> faddrs ms" "z \<notin> addrs l" "z \<notin> addrs t" "z \<notin> faddrs fs" "z \<noteq> y" "z \<noteq> ?s"
    and ud: "uniq (plug fs (Nd l z kz cz (plug ms t)))" "?s \<notin> addrs (plug fs (Nd l z kz cz (plug ms t)))"
    "y \<notin> addrs (plug fs (Nd l z kz cz (plug ms t)))" "0 \<notin> addrs (plug fs (Nd l z kz cz (plug ms t)))"
    unfolding r by (auto simp: rep_def)
  have pp: "faddr g = z \<longleftrightarrow> ms = []"
  proof (cases ms)
    case Nil
    with gs show ?thesis by auto
  next
    case (Cons f fs')
    with gs faddr_par [of ms] d(1) show ?thesis by auto
  qed
  from unlink_child [OF c y _ u(5,4) tt u(1,3,6,7,8) sn(1), of ?pp] obtain h1 h2 sn' where
    h: "rb_relink y (root ?s t) h = Some h1" "put_parent (root ?s t) ?pp h1 = Some h2"
      "is_ctx h2 ?s (g # gs) (root ?s t) p" "is_tree h2 ?s t ?pp"
      "\<And>a. a \<notin> faddrs (g # gs) \<Longrightarrow> h1 a = h a"
      "\<And>a. a \<notin> faddrs (g # gs) \<Longrightarrow> a \<notin> addrs t \<Longrightarrow> a \<noteq> ?s \<Longrightarrow> h2 a = h a"
      "h2 ?s = Some sn'" "rb_color sn' = 0" "t = Lf \<Longrightarrow> rb_parent sn' = ?pp"
    unfolding node_of_def using sn(2) by auto
  from h(3) have c2: "is_ctx h2 ?s ms (root ?s t) z" "is_ctx h2 ?s fs z p" "is_tree h2 ?s l z"
    "h2 z = Some (node_of kz (root ?s l) (root ?s (plug ms t)) (par fs p) cz)"
    unfolding gs [symmetric] by (simp_all add: is_ctx_append)
  have r2: "is_tree h2 ?s (plug ms t) (if ms = [] then y else z)"
    using c2(1) h(4) pp gs by (cases ms) (auto simp: is_tree_plug)
  have y2: "h2 y = Some (node_of ky ?s (root ?s t) (faddr g) cy)" using h(6) [OF u(5,2,4)] y by simp
  have Rz: "?R = ztop fs z" using T(1) by (simp add: rep_def)
  from take_over [OF c2(2,4,3) r2 y2 Rz ud(1,2,3) u(4)] obtain h3 where
    h3: "rb_take_over ?R ?s z y h2 = Some (ztop fs y, h3)" "is_tree h3 ?s (plug ?gs' t) p"
      "\<And>a. a \<noteq> y \<Longrightarrow> a \<notin> addrs l \<Longrightarrow> a \<notin> addrs (plug ms t) \<Longrightarrow> a \<notin> faddrs fs \<Longrightarrow> h3 a = h2 a"
    by (auto simp: node_of_def)
  have z3: "h3 z = h2 z" using h3(3) d by simp
  have s3: "h3 ?s = Some sn'" using h3(3) [of ?s] h(7) ud(2) u(4) by simp
  let ?h = "h3(z \<mapsto> \<lparr>rb_key = 0, rb_left = 0, rb_right = 0, rb_parent = 0, rb_color = col cz\<rparr>)"
  have clr: "rb_clear z h3 = Some ?h" using c2(4) z3 by (subst rb_clear_eval) (auto simp: node_of_def)
  have z': "z \<notin> addrs (plug ?gs' t)" using d by simp
  have rep: "rep ?h ?h (ztop fs y) ?s (plug ?gs' t)"
    using h3(2) z' ud u(4,11) d(6) s3 h(8) by (auto simp: rep_def is_tree_frame [OF z'])
  have inv: "if cy then rbt (plug ?gs' t) else short ?gs' t"
  proof -
    have "rbt (plug ?gs (Nd Lf y ky cy t))" using T(2) by (simp add: r)
    from rbt_plug_short [OF this] show ?thesis
      using rbt_swap [of ms l z kz cz fs t y ky] short_swap [of ms l z kz cz fs t y ky] by simp
  qed
  have "?pp = faddr (hd ?gs')" using pp gs by (cases ms) auto
  then have par: "t = Lf \<Longrightarrow> ?gs' \<noteq> [] \<and> rb_get rb_parent ?s ?h = Some (faddr (hd ?gs'))"
    using h(9) s3 d(6) by (simp add: rb_get_def)
  from delete_finish [OF rep inv par, of tree] obtain R2 h4 T2 where f: "(if cy then Some (tree\<lparr>rb_root := ztop fs y\<rparr>, ?h)
      else do { (temp, root, h) \<leftarrow> rb_delete_loop (ztop fs y) ?s (root ?s t) ?h; h \<leftarrow> ngx_rbt_black temp h; Some (tree\<lparr>rb_root := root\<rparr>, h) })
      = Some (tree\<lparr>rb_root := R2\<rparr>, h4)" "rep ?h h4 R2 ?s T2" "rbt T2" "nodes T2 = nodes (plug ?gs' t)" by blast
  have "rb_get rb_parent y h1 = Some (faddr g)" using y h(5) [OF u(5)] by (simp add: rb_get_node)
  with h(2) h3(1) have "rb_replace ?R ?s z y (root ?s t) h1 = Some (ztop fs y, h3)"
    by (cases "faddr g = z") (simp_all add: rb_replace_def)
  with sub R vy h(1) clr f(1) d(5) have "ngx_rbtree_delete tree z h = Some (tree\<lparr>rb_root := R2\<rparr>, h4)"
    by (simp add: ngx_rbtree_delete_def Let_def)
  moreover have other: "h4 a = ?h a" if "a \<notin> addrs (plug ?gs' t)" for a
  proof (rule rep_frame [OF f(2)])
    show "a \<notin> fst ` set (nodes T2)" unfolding f(4) addrs_def [symmetric] using that by simp
  qed
  moreover have "cleared h4 z" using other [OF z'] by (simp add: cleared_def)
  moreover have "h4 a = h a" if "a \<noteq> z" "a \<notin> faddrs fs" "a \<notin> addrs l" "a \<notin> addrs r" "a \<noteq> ?s" for a
  proof -
    from that have a: "a \<noteq> y" "a \<notin> addrs t" "a \<notin> faddrs ms" by (auto simp: r)
    with that have "h4 a = h3 a" using other [of a] by simp
    also have "\<dots> = h2 a" using h3(3) [of a] a that by simp
    also have "\<dots> = h a" using h(6) [of a] a that by (simp add: fa)
    finally show ?thesis .
  qed
  moreover have "nodes T2 = lefts fs @ nodes l @ nodes r @ rights fs"
    using f(4) ms by (simp add: r)
  ultimately show ?thesis using f(3) rep_other [OF f(2)] by blast
qed

end
