(* ===== verification/Rbtree.thy ===== *)
theory Rbtree
  imports Rbtree_Delete
begin

text \<open>
  The red-black tree as a sorted list of nodes: what creation, insertion, deletion and the walk
  over the nodes promise, for one call and for any series of calls.
\<close>

section \<open>Single operations\<close>

lemma rb_tree_delete:
  assumes "rb_tree tree h (xs @ (z, k) # ys)"
  shows "\<exists>R' h'. ngx_rbtree_delete tree z h = Some (tree\<lparr>rb_root := R'\<rparr>, h') \<and>
    rb_tree (tree\<lparr>rb_root := R'\<rparr>) h' (xs @ ys) \<and> cleared h' z \<and>
    (\<forall>a. a \<noteq> z \<longrightarrow> a \<notin> fst ` set (xs @ ys) \<longrightarrow> a \<noteq> rb_sentinel tree \<longrightarrow> h' a = h a)"
proof -
  let ?s = "rb_sentinel tree"
  from assms obtain T where T: "rep h h (rb_root tree) ?s T" "rbt T" "nodes T = xs @ (z, k) # ys"
    by (auto simp: rb_tree_def)
  then have "uniq T" by (simp add: rep_def)
  from focus_unique [OF this T(3)] obtain fs l c r where
    t: "T = plug fs (Nd l z k c r)" "lefts fs @ nodes l = xs" "nodes r @ rights fs = ys" by blast
  have set: "fst ` set (xs @ ys) = faddrs fs \<union> addrs l \<union> addrs r"
    unfolding t(2,3) [symmetric] by (auto simp: addrs_def faddrs_def)
  have "\<exists>R' h' T'. ngx_rbtree_delete tree z h = Some (tree\<lparr>rb_root := R'\<rparr>, h') \<and> rep h' h' R' ?s T' \<and> rbt T' \<and>
    nodes T' = xs @ ys \<and> cleared h' z \<and>
    (\<forall>a. a \<noteq> z \<longrightarrow> a \<notin> fst ` set (xs @ ys) \<longrightarrow> a \<noteq> ?s \<longrightarrow> h' a = h a)"
  proof (cases "l \<noteq> Lf \<and> r \<noteq> Lf")
    case True
    with delete_two_children [OF T(1,2) [unfolded t(1)]] obtain R' h' T' where
      d: "ngx_rbtree_delete tree z h = Some (tree\<lparr>rb_root := R'\<rparr>, h')" "rep h' h' R' ?s T'" "rbt T'"
        "nodes T' = lefts fs @ nodes l @ nodes r @ rights fs" "cleared h' z"
        "\<And>a. a \<noteq> z \<Longrightarrow> a \<notin> faddrs fs \<Longrightarrow> a \<notin> addrs l \<Longrightarrow> a \<notin> addrs r \<Longrightarrow> a \<noteq> ?s \<Longrightarrow> h' a = h a" by blast
    then show ?thesis unfolding set by (intro exI [of _ R'] exI [of _ h'] exI [of _ T']) (simp add: t(2,3) [symmetric])
  next
    case False
    then obtain u where u: "l = Lf \<and> u = r \<or> r = Lf \<and> u = l" by blast
    then have n: "xs @ ys = lefts fs @ nodes u @ rights fs" "addrs l \<union> addrs r = addrs u"
      unfolding t(2,3) [symmetric] by auto
    show ?thesis
    proof (cases fs)
      case Nil
      from delete_root [OF T(1,2) [unfolded t(1) Nil plug.simps] u] obtain h' where
        d: "ngx_rbtree_delete tree z h = Some (tree\<lparr>rb_root := root ?s u\<rparr>, h')"
          "rep h' h' (root ?s u) ?s (paint False u)" "cleared h' z" "\<And>a. a \<noteq> z \<Longrightarrow> a \<notin> addrs u \<Longrightarrow> h' a = h a" by blast
      have "rbt (paint False u)" using rbt_plug_short(3) [OF T(2) [unfolded t(1) Nil] u] by simp
      with d set n Nil show ?thesis
        by (intro exI [of _ "root ?s u"] exI [of _ h'] exI [of _ "paint False u"]) auto
    next
      case (Cons g gs)
      from delete_one_child [OF T(1,2) [unfolded t(1) Cons] u] obtain R' h' T' where
        d: "ngx_rbtree_delete tree z h = Some (tree\<lparr>rb_root := R'\<rparr>, h')" "rep h' h' R' ?s T'" "rbt T'"
          "nodes T' = nodes (plug (g # gs) u)" "cleared h' z"
          "\<And>a. a \<noteq> z \<Longrightarrow> a \<notin> faddrs (g # gs) \<Longrightarrow> a \<notin> addrs u \<Longrightarrow> a \<noteq> ?s \<Longrightarrow> h' a = h a" by blast
      have "fst ` set (xs @ ys) = faddrs fs \<union> addrs u" unfolding set using n(2) by blast
      with d n(1) Cons show ?thesis by (intro exI [of _ R'] exI [of _ h'] exI [of _ T']) simp
    qed
  qed
  then show ?thesis by (fastforce simp: rb_tree_def)
qed

lemma rb_tree_init:
  assumes "h s = Some sn" "s \<noteq> 0"
  shows "\<exists>h'. ngx_rbtree_init s i h = Some (\<lparr>rb_root = s, rb_sentinel = s, rb_insert = i\<rparr>, h') \<and>
    rb_tree \<lparr>rb_root = s, rb_sentinel = s, rb_insert = i\<rparr> h' [] \<and> (\<forall>a. a \<noteq> s \<longrightarrow> h' a = h a)"
  using assms by (auto simp: ngx_rbtree_init_def put_simps rb_tree_def rep_def rbt_def intro!: exI [of _ Lf])

lemma is_tree_alloc: "is_tree h s t p \<Longrightarrow> a \<in> addrs t \<Longrightarrow> h a \<noteq> None"
  by (induction t arbitrary: p) auto

lemma rb_tree_alloc:
  assumes "rb_tree tree h xs" "a \<in> fst ` set xs"
  shows "h a \<noteq> None"
proof -
  from assms(1) obtain T p where "is_tree h (rb_sentinel tree) T p" "nodes T = xs"
    by (auto simp: rb_tree_def rep_def)
  with is_tree_alloc [of h "rb_sentinel tree" T p a] assms(2) show ?thesis by (simp add: addrs_def)
qed

lemma rb_tree_outside:
  assumes "rb_tree tree h xs" "x \<notin> fst ` set xs" "x \<noteq> rb_sentinel tree"
  shows "rb_tree tree (h(x := v)) xs"
proof -
  from assms(1) obtain T where "rep h h (rb_root tree) (rb_sentinel tree) T" "rbt T" "nodes T = xs"
    by (auto simp: rb_tree_def)
  moreover from this have "x \<notin> addrs T" using assms(2) by (simp add: addrs_def)
  ultimately have "rep (h(x := v)) (h(x := v)) (rb_root tree) (rb_sentinel tree) T"
    using assms(3) by (simp add: rep_def)
  with \<open>rbt T\<close> \<open>nodes T = xs\<close> show ?thesis by (auto simp: rb_tree_def)
qed

lemma rb_tree_fresh: "rb_tree tree h xs \<Longrightarrow> distinct (map fst xs) \<and> rb_sentinel tree \<notin> fst ` set xs \<and> 0 \<notin> fst ` set xs"
  by (auto simp: rb_tree_def rep_def uniq_def addrs_def)

section \<open>Series of operations\<close>

text \<open>The client sets the key of a node before it inserts the node.\<close>

datatype rb_op = RbInsert rbaddr u64 | RbDelete rbaddr

fun rb_run :: "rb_op list \<Rightarrow> ngx_rbtree \<times> rbheap \<Rightarrow> (ngx_rbtree \<times> rbheap) option" where
  "rb_run [] st = Some st"
| "rb_run (RbInsert x k # ops) (tree, h) = do {
     h \<leftarrow> put_key x k h;
     st \<leftarrow> ngx_rbtree_insert tree x h;
     rb_run ops st
   }"
| "rb_run (RbDelete x # ops) (tree, h) = do {
     st \<leftarrow> ngx_rbtree_delete tree x h;
     rb_run ops st
   }"

text \<open>
  The same on the list of nodes; \<open>None\<close> when a node is inserted twice or a node that is not in the
  tree is deleted.
\<close>

fun rb_list :: "rb_op list \<Rightarrow> (rbaddr \<times> u64) list \<Rightarrow> (rbaddr \<times> u64) list option" where
  "rb_list [] xs = Some xs"
| "rb_list (RbInsert x k # ops) xs =
     (if x \<in> fst ` set xs then None
      else rb_list ops (takeWhile (\<lambda>e. snd e \<le> k) xs @ (x, k) # dropWhile (\<lambda>e. snd e \<le> k) xs))"
| "rb_list (RbDelete x # ops) xs =
     (if x \<in> fst ` set xs then rb_list ops (filter (\<lambda>e. fst e \<noteq> x) xs) else None)"

fun rb_op_addr :: "rb_op \<Rightarrow> rbaddr" where
  "rb_op_addr (RbInsert x k) = x"
| "rb_op_addr (RbDelete x) = x"

lemma rb_run_list:
  assumes "rb_tree tree h xs" "rb_insert tree = ngx_rbtree_insert_value" "sorted_by unat xs" "rb_list ops xs = Some ys"
    "\<And>x. x \<in> rb_op_addr ` set ops \<Longrightarrow> h x \<noteq> None \<and> x \<noteq> 0 \<and> x \<noteq> rb_sentinel tree"
  shows "\<exists>R' h'. rb_run ops (tree, h) = Some (tree\<lparr>rb_root := R'\<rparr>, h') \<and> rb_tree (tree\<lparr>rb_root := R'\<rparr>) h' ys \<and> sorted_by unat ys"
  using assms
proof (induction ops arbitrary: tree h xs)
  case Nil
  then show ?case by (intro exI [of _ "rb_root tree"] exI [of _ h]) simp
next
  case (Cons op ops)
  show ?case
  proof (cases op)
    case (RbInsert x k)
    with Cons.prems(4) have x: "x \<notin> fst ` set xs" and l: "rb_list ops (place value_less (x, k) xs) = Some ys"
      by (auto simp: place_def value_less_def not_less split: if_splits)
    from Cons.prems(5) [of x] RbInsert obtain n where n: "h x = Some n" "x \<noteq> 0" "x \<noteq> rb_sentinel tree" by auto
    let ?h = "h(x \<mapsto> n\<lparr>rb_key := k\<rparr>)"
    have t: "rb_tree tree ?h xs" by (rule rb_tree_outside [OF Cons.prems(1) x n(3)])
    from by_value.insert_places [OF t _ Cons.prems(3), of x "n\<lparr>rb_key := k\<rparr>"] Cons.prems(2) n x obtain R1 h1 where
      i: "ngx_rbtree_insert tree x ?h = Some (tree\<lparr>rb_root := R1\<rparr>, h1)" "rb_tree (tree\<lparr>rb_root := R1\<rparr>) h1 (place value_less (x, k) xs)"
        "sorted_by unat (place value_less (x, k) xs)" "\<And>y. y \<noteq> x \<Longrightarrow> y \<notin> fst ` set xs \<Longrightarrow> h1 y = ?h y"
      by (auto simp: ngx_rbtree_insert_value_def)
    have a: "h1 y \<noteq> None \<and> y \<noteq> 0 \<and> y \<noteq> rb_sentinel (tree\<lparr>rb_root := R1\<rparr>)" if "y \<in> rb_op_addr ` set ops" for y
      using Cons.prems(5) [of y] that rb_tree_alloc [OF i(2), of y] i(4) [of y]
      by (cases "y = x \<or> y \<in> fst ` set xs") (auto simp: set_place)
    from Cons.IH [OF i(2) _ i(3) l a] Cons.prems(2) obtain R' h' where
      "rb_run ops (tree\<lparr>rb_root := R1\<rparr>, h1) = Some (tree\<lparr>rb_root := R'\<rparr>, h')" "rb_tree (tree\<lparr>rb_root := R'\<rparr>) h' ys" "sorted_by unat ys"
      by auto
    with i(1) n(1) RbInsert show ?thesis
      by (intro exI [of _ R'] exI [of _ h']) (simp add: put_key_def rb_put_def)
  next
    case (RbDelete x)
    with Cons.prems(4) have x: "x \<in> fst ` set xs" and l: "rb_list ops (filter (\<lambda>e. fst e \<noteq> x) xs) = Some ys"
      by (auto split: if_splits)
    from x obtain k us vs where xs: "xs = us @ (x, k) # vs" by (auto dest: split_list)
    with rb_tree_fresh [OF Cons.prems(1)] have "x \<notin> fst ` set us" "x \<notin> fst ` set vs" by auto
    then have "filter (\<lambda>e. fst e \<noteq> x) us = us" "filter (\<lambda>e. fst e \<noteq> x) vs = vs"
      by (auto intro!: filter_True)
    then have f: "filter (\<lambda>e. fst e \<noteq> x) xs = us @ vs" by (simp add: xs)
    from rb_tree_delete [OF Cons.prems(1) [unfolded xs]] obtain R1 h1 where
      d: "ngx_rbtree_delete tree x h = Some (tree\<lparr>rb_root := R1\<rparr>, h1)" "rb_tree (tree\<lparr>rb_root := R1\<rparr>) h1 (us @ vs)"
        "cleared h1 x" "\<And>a. a \<noteq> x \<Longrightarrow> a \<notin> fst ` set (us @ vs) \<Longrightarrow> a \<noteq> rb_sentinel tree \<Longrightarrow> h1 a = h a" by blast
    have s: "sorted_by unat (us @ vs)" using Cons.prems(3) by (auto simp: xs sorted_by_def sorted_append)
    have a: "h1 y \<noteq> None \<and> y \<noteq> 0 \<and> y \<noteq> rb_sentinel (tree\<lparr>rb_root := R1\<rparr>)" if "y \<in> rb_op_addr ` set ops" for y
      using Cons.prems(5) [of y] that rb_tree_alloc [OF d(2), of y] d(3) d(4) [of y]
      by (cases "y = x"; cases "y \<in> fst ` set (us @ vs)") (auto simp: cleared_def)
    from Cons.IH [OF d(2) _ s l [unfolded f] a] Cons.prems(2) obtain R' h' where
      "rb_run ops (tree\<lparr>rb_root := R1\<rparr>, h1) = Some (tree\<lparr>rb_root := R'\<rparr>, h')" "rb_tree (tree\<lparr>rb_root := R'\<rparr>) h' ys" "sorted_by unat ys"
      by auto
    with d(1) RbDelete show ?thesis
      by (intro exI [of _ R'] exI [of _ h']) simp
  qed
qed

text \<open>A tree of three nodes at 2, 3 and 4, with the sentinel at 1 and a free node at 5.\<close>

definition small_heap :: rbheap where
  "small_heap = [1 \<mapsto> node_of 0 0 0 0 False, 2 \<mapsto> node_of 50 3 4 0 False, 3 \<mapsto> node_of 10 1 1 2 True,
     4 \<mapsto> node_of 90 1 1 2 True, 5 \<mapsto> node_of 70 0 0 0 False]"

definition small_tree :: "(rbaddr \<Rightarrow> rbaddr \<Rightarrow> rbaddr \<Rightarrow> rbheap \<Rightarrow> rbheap option) \<Rightarrow> ngx_rbtree" where
  "small_tree i = \<lparr>rb_root = 2, rb_sentinel = 1, rb_insert = i\<rparr>"

lemma small_rb_tree: "rb_tree (small_tree i) small_heap [(3, 10), (2, 50), (4, 90)]"
  unfolding rb_tree_def
  by (rule exI [of _ "Nd (Nd Lf 3 10 True Lf) 2 50 False (Nd Lf 4 90 True Lf)"])
    (simp add: rep_def small_tree_def small_heap_def node_of_def col_def rbt_def)

section \<open>What the tree promises\<close>

text \<open>
  C24. Inserting a timer: when all times lie within half the range of the clock from some time
  \<open>now\<close>, also across the wrap-around of the clock, \<open>ngx_rbtree_insert\<close> returns, the new node comes
  after every timer that is due no later and before every timer that is due later, the tree is a
  red-black tree again, and nothing outside of it is changed.
\<close>

theorem rbtree_timer_insert:
  assumes "rb_tree tree h xs" "rb_insert tree = ngx_rbtree_insert_timer_value"
    and "sorted_by (\<lambda>k. unat (k - now)) xs" "\<forall>e \<in> set xs. unat (snd e - now) < 2 ^ 63"
    and "h x = Some n" "unat (rb_key n - now) < 2 ^ 63" "x \<notin> fst ` set xs" "x \<noteq> rb_sentinel tree" "x \<noteq> 0"
  shows "\<exists>R' h' us vs. xs = us @ vs \<and> ngx_rbtree_insert tree x h = Some (tree\<lparr>rb_root := R'\<rparr>, h') \<and>
    rb_tree (tree\<lparr>rb_root := R'\<rparr>) h' (us @ (x, rb_key n) # vs) \<and>
    (\<forall>e \<in> set us. unat (snd e - now) \<le> unat (rb_key n - now)) \<and>
    (\<forall>e \<in> set vs. unat (rb_key n - now) < unat (snd e - now)) \<and>
    (\<forall>y. y \<noteq> x \<longrightarrow> y \<notin> fst ` set xs \<longrightarrow> h' y = h y)"
proof -
  let ?us = "takeWhile (\<lambda>y. \<not> timer_less (rb_key n) (snd y)) xs" and ?vs = "dropWhile (\<lambda>y. \<not> timer_less (rb_key n) (snd y)) xs"
  from assms(4) have K: "snd ` set xs \<subseteq> {k. unat (k - now) < 2 ^ 63}" by auto
  from by_timer.insert_places [OF assms(1) _ assms(3) K assms(5) _ assms(7-9)] assms(2,6) obtain R' h' where
    i: "ngx_rbtree_insert tree x h = Some (tree\<lparr>rb_root := R'\<rparr>, h')"
      "rb_tree (tree\<lparr>rb_root := R'\<rparr>) h' (?us @ (x, rb_key n) # ?vs)"
      "sorted_by (\<lambda>k. unat (k - now)) (?us @ (x, rb_key n) # ?vs)" "\<forall>y. y \<noteq> x \<longrightarrow> y \<notin> fst ` set xs \<longrightarrow> h' y = h y"
    by (auto simp: ngx_rbtree_insert_timer_value_def place_def)
  from i(3) have s: "\<forall>e \<in> set ?us. unat (snd e - now) \<le> unat (rb_key n - now)" "sorted_by (\<lambda>k. unat (k - now)) ?vs"
    by (auto simp: sorted_by_def sorted_append)
  have "\<forall>e \<in> set ?vs. unat (rb_key n - now) < unat (snd e - now)"
  proof (cases ?vs)
    case (Cons y ys)
    then have "timer_less (rb_key n) (snd y)" using hd_dropWhile [of "\<lambda>y. \<not> timer_less (rb_key n) (snd y)" xs] by simp
    moreover have "y \<in> set xs" using Cons set_dropWhileD [of y _ xs] by (metis list.set_intros(1))
    ultimately have "unat (rb_key n - now) < unat (snd y - now)" using timer_less_window assms(4,6) by blast
    with s(2) Cons show ?thesis by (auto simp: sorted_by_def)
  next
    case Nil
    then show ?thesis by (simp only: list.set) simp
  qed
  with i s(1) show ?thesis by (intro exI [of _ R'] exI [of _ h'] exI [of _ ?us] exI [of _ ?vs]) simp
qed

text \<open>Before the clock wraps around, at 100 below zero, the times 10, 50, 70 and 90 are yet to come.\<close>

theorem rbtree_timer_insert_witness:
  "\<exists>R' h' us vs. [(3, 10), (2, 50), (4, 90)] = us @ vs \<and>
    rb_tree (small_tree ngx_rbtree_insert_timer_value\<lparr>rb_root := R'\<rparr>) h' (us @ (5, 70) # vs)"
proof -
  have "sorted_by (\<lambda>k. unat (k - (- 100))) [(3, 10), (2, 50), (4, 90 :: u64)]" by (simp add: sorted_by_def)
  from rbtree_timer_insert [OF small_rb_tree _ this, where x = 5 and n = "node_of 70 0 0 0 False"] show ?thesis
    by (auto simp: small_tree_def small_heap_def node_of_def)
qed

text \<open>
  C23. \<open>ngx_rbtree_delete\<close> returns and takes exactly the given node out of the tree: the other nodes
  stay, with their keys and in their order, the tree is a red-black tree again, the links and the
  key of the deleted node are cleared, and apart from the sentinel nothing else is changed.
\<close>

theorem rbtree_delete_removes:
  assumes "rb_tree tree h (xs @ (z, k) # ys)"
  shows "\<exists>R' h' c. ngx_rbtree_delete tree z h = Some (tree\<lparr>rb_root := R'\<rparr>, h') \<and>
    rb_tree (tree\<lparr>rb_root := R'\<rparr>) h' (xs @ ys) \<and>
    h' z = Some \<lparr>rb_key = 0, rb_left = 0, rb_right = 0, rb_parent = 0, rb_color = c\<rparr> \<and>
    (\<forall>a. a \<noteq> z \<longrightarrow> a \<notin> fst ` set (xs @ ys) \<longrightarrow> a \<noteq> rb_sentinel tree \<longrightarrow> h' a = h a)"
  using rb_tree_delete [OF assms] unfolding cleared_def by blast

theorem rbtree_delete_removes_witness:
  "\<exists>R' h' c. ngx_rbtree_delete (small_tree ngx_rbtree_insert_value) 2 small_heap = Some (small_tree ngx_rbtree_insert_value\<lparr>rb_root := R'\<rparr>, h') \<and>
    rb_tree (small_tree ngx_rbtree_insert_value\<lparr>rb_root := R'\<rparr>) h' [(3, 10), (4, 90)]"
  using rbtree_delete_removes [of "small_tree ngx_rbtree_insert_value" small_heap "[(3, 10)]" 2 50 "[(4, 90)]"]
    small_rb_tree [of ngx_rbtree_insert_value] by auto

text \<open>
  C25. \<open>ngx_rbtree_min\<close> from the root and then \<open>ngx_rbtree_next\<close> visit every node of the tree once, in
  the order of the keys, and end with the null pointer.
\<close>

theorem rbtree_walk_in_order:
  assumes "rb_tree tree h xs" "xs \<noteq> []"
  shows "ngx_rbtree_min (rb_root tree) (rb_sentinel tree) h = Some (fst (hd xs)) \<and>
    (\<forall>i < length xs. ngx_rbtree_next tree (fst (xs ! i)) h = Some (if Suc i < length xs then fst (xs ! Suc i) else 0))"
  using rb_tree_min [OF assms] rb_tree_next [OF assms(1)] by blast

theorem rbtree_walk_in_order_witness:
  "ngx_rbtree_min 2 1 small_heap = Some 3 \<and>
    ngx_rbtree_next (small_tree ngx_rbtree_insert_value) 3 small_heap = Some 2 \<and>
    ngx_rbtree_next (small_tree ngx_rbtree_insert_value) 2 small_heap = Some 4 \<and>
    ngx_rbtree_next (small_tree ngx_rbtree_insert_value) 4 small_heap = Some 0"
proof -
  have m: "ngx_rbtree_min 2 1 small_heap = Some 3"
    and n: "\<And>i. i < 3 \<Longrightarrow> ngx_rbtree_next (small_tree ngx_rbtree_insert_value) (fst ([(3, 10 :: u64), (2, 50), (4, 90)] ! i)) small_heap =
      Some (if Suc i < 3 then fst ([(3, 10 :: u64), (2, 50), (4, 90)] ! Suc i) else 0)"
    using rbtree_walk_in_order [OF small_rb_tree [of ngx_rbtree_insert_value]] by (simp_all add: small_tree_def)
  show ?thesis using m n [of 0] n [of 1] n [of 2] by simp
qed

text \<open>
  C22. From \<open>ngx_rbtree_init\<close> on, any series of insertions and deletions in which no node is inserted
  twice and only nodes of the tree are deleted returns, and leaves a red-black tree with exactly
  the nodes it should have, sorted by key, equal keys in the order of insertion; its height is at
  most twice the binary logarithm of the number of nodes plus one.
\<close>

theorem rbtree_history:
  assumes "h s = Some sn" "s \<noteq> 0" "rb_list ops [] = Some xs"
    and "\<forall>x \<in> rb_op_addr ` set ops. h x \<noteq> None \<and> x \<noteq> 0 \<and> x \<noteq> s"
  shows "\<exists>tree0 h0 tree h' T. ngx_rbtree_init s ngx_rbtree_insert_value h = Some (tree0, h0) \<and>
    rb_run ops (tree0, h0) = Some (tree, h') \<and> rep h' h' (rb_root tree) s T \<and> rbt T \<and> nodes T = xs \<and>
    sorted_by unat xs \<and> 2 ^ height T \<le> (length xs + 1) ^ 2"
proof -
  let ?t = "\<lparr>rb_root = s, rb_sentinel = s, rb_insert = ngx_rbtree_insert_value\<rparr>"
  from rb_tree_init [of h s sn ngx_rbtree_insert_value, OF assms(1,2)] obtain h0 where
    i: "ngx_rbtree_init s ngx_rbtree_insert_value h = Some (?t, h0)" "rb_tree ?t h0 []" "\<And>a. a \<noteq> s \<Longrightarrow> h0 a = h a" by blast
  have "sorted_by unat []" by (simp add: sorted_by_def)
  from rb_run_list [OF i(2) _ this assms(3)] i(3) assms(4) obtain R' h' where
    r: "rb_run ops (?t, h0) = Some (?t\<lparr>rb_root := R'\<rparr>, h')" "rb_tree (?t\<lparr>rb_root := R'\<rparr>) h' xs" "sorted_by unat xs"
    by auto
  from r(2) obtain T where "rep h' h' R' s T" "rbt T" "nodes T = xs" by (auto simp: rb_tree_def)
  with i(1) r(1,3) rbt_height [of T] show ?thesis by force
qed

theorem rbtree_history_witness:
  "\<exists>tree0 h0 tree h' T. ngx_rbtree_init 1 ngx_rbtree_insert_value small_heap = Some (tree0, h0) \<and>
    rb_run [RbInsert 2 7, RbInsert 3 4, RbInsert 4 7, RbDelete 3, RbInsert 5 9, RbDelete 2, RbInsert 3 8] (tree0, h0) = Some (tree, h') \<and>
    rbt T \<and> nodes T = [(4, 7), (3, 8), (5, 9)] \<and> 2 ^ height T \<le> (16 :: nat)"
proof -
  let ?ops = "[RbInsert 2 7, RbInsert 3 4, RbInsert 4 7, RbDelete 3, RbInsert 5 9, RbDelete 2, RbInsert 3 8]"
  have "small_heap 1 = Some (node_of 0 0 0 0 False)" "rb_list ?ops [] = Some [(4, 7), (3, 8), (5, 9)]"
    "\<forall>x \<in> rb_op_addr ` set ?ops. small_heap x \<noteq> None \<and> x \<noteq> 0 \<and> x \<noteq> 1"
    by (simp_all add: small_heap_def)
  from rbtree_history [OF this(1) one_neq_zero this(2,3)] obtain tree0 h0 tree h' T where
    "ngx_rbtree_init 1 ngx_rbtree_insert_value small_heap = Some (tree0, h0)" "rb_run ?ops (tree0, h0) = Some (tree, h')"
    "rbt T" "nodes T = [(4, 7), (3, 8), (5, 9)]" "2 ^ height T \<le> (length [(4 :: nat, 7 :: u64), (3, 8), (5, 9)] + 1) ^ 2" by blast
  then show ?thesis by (intro exI conjI) (assumption | simp add: power2_eq_square)+
qed

end
