(* ===== verification/Btree.thy ===== *)
theory Btree
  imports Prelude "HOL-Library.Monad_Syntax"
begin

text \<open>
  The B+ tree of \<^verbatim>\<open>lib_btree/btree.c\<close>. A node is a block of 16 longs (NODESIZE is 128 bytes) that
  holds its keys first and then its values, unused pairs being zero; on the lowest level the values
  are those of the client, above it they are the addresses of the nodes below. All blocks, the
  client's keys included, live in a heap from addresses to lists of longs, and a key is passed as a
  pointer into a block, because the code passes pointers into its own nodes. \<open>None\<close> is an access
  outside of a block or a failed \<^verbatim>\<open>BUG_ON\<close>. The functions that the source spreads over mutually
  recursive calls, insertion with splitting and removal with merging, are partial functions. The
  debugging output (\<^verbatim>\<open>dumptree\<close> and the \<^verbatim>\<open>printf\<close> of \<^verbatim>\<open>btree_grow\<close>) is left out.
\<close>

section \<open>Memory, keys and nodes\<close>

type_synonym bheap = "u64 \<Rightarrow> u64 list option"
type_synonym kptr = "u64 \<times> nat"

record btree_head =
  bt_node :: u64
  bt_height :: nat

record btree_geo =
  keylen :: nat
  no_pairs :: nat

text \<open>\<^verbatim>\<open>NODESIZE / sizeof(long)\<close>\<close>

definition node_longs :: nat where
  "node_longs = 16"

definition btree_geo32 :: btree_geo where
  "btree_geo32 = \<lparr>keylen = 1, no_pairs = node_longs div 2\<rparr>"

definition btree_geo64 :: btree_geo where
  "btree_geo64 = \<lparr>keylen = 1, no_pairs = node_longs div (1 + 1)\<rparr>"

definition btree_geo128 :: btree_geo where
  "btree_geo128 = \<lparr>keylen = 2 * 1, no_pairs = node_longs div (1 + 2 * 1)\<rparr>"

definition ld :: "kptr \<Rightarrow> bheap \<Rightarrow> u64 option" where
  "ld p h = (case h (fst p) of None \<Rightarrow> None | Some ws \<Rightarrow> load ws (snd p))"

definition st :: "kptr \<Rightarrow> u64 \<Rightarrow> bheap \<Rightarrow> bheap option" where
  "st p v h = (case h (fst p) of None \<Rightarrow> None
     | Some ws \<Rightarrow> (case store ws (snd p) v of None \<Rightarrow> None | Some ws' \<Rightarrow> Some (h(fst p \<mapsto> ws'))))"

definition kadd :: "kptr \<Rightarrow> nat \<Rightarrow> kptr" where
  "kadd p i = (fst p, snd p + i)"

fun longcmp_from :: "kptr \<Rightarrow> kptr \<Rightarrow> nat \<Rightarrow> nat \<Rightarrow> bheap \<Rightarrow> int option" where
  "longcmp_from l1 l2 i 0 h = Some 0"
| "longcmp_from l1 l2 i (Suc n) h = do {
     a \<leftarrow> ld (kadd l1 i) h;
     b \<leftarrow> ld (kadd l2 i) h;
     if a < b then Some (-1) else if a > b then Some 1 else longcmp_from l1 l2 (Suc i) n h
   }"

definition longcmp :: "kptr \<Rightarrow> kptr \<Rightarrow> nat \<Rightarrow> bheap \<Rightarrow> int option" where
  "longcmp l1 l2 n h = longcmp_from l1 l2 0 n h"

fun longcpy_from :: "kptr \<Rightarrow> kptr \<Rightarrow> nat \<Rightarrow> nat \<Rightarrow> bheap \<Rightarrow> bheap option" where
  "longcpy_from dest src i 0 h = Some h"
| "longcpy_from dest src i (Suc n) h = do {
     v \<leftarrow> ld (kadd src i) h;
     h \<leftarrow> st (kadd dest i) v h;
     longcpy_from dest src (Suc i) n h
   }"

definition longcpy :: "kptr \<Rightarrow> kptr \<Rightarrow> nat \<Rightarrow> bheap \<Rightarrow> bheap option" where
  "longcpy dest src n h = longcpy_from dest src 0 n h"

fun longset_from :: "kptr \<Rightarrow> u64 \<Rightarrow> nat \<Rightarrow> nat \<Rightarrow> bheap \<Rightarrow> bheap option" where
  "longset_from s c i 0 h = Some h"
| "longset_from s c i (Suc n) h = do { h \<leftarrow> st (kadd s i) c h; longset_from s c (Suc i) n h }"

definition longset :: "kptr \<Rightarrow> u64 \<Rightarrow> nat \<Rightarrow> bheap \<Rightarrow> bheap option" where
  "longset s c n h = longset_from s c 0 n h"

definition bkey :: "btree_geo \<Rightarrow> u64 \<Rightarrow> nat \<Rightarrow> kptr" where
  "bkey geo node n = (node, n * keylen geo)"

definition bval :: "btree_geo \<Rightarrow> u64 \<Rightarrow> nat \<Rightarrow> bheap \<Rightarrow> u64 option" where
  "bval geo node n h = ld (node, no_pairs geo * keylen geo + n) h"

definition setkeyb :: "btree_geo \<Rightarrow> u64 \<Rightarrow> kptr \<Rightarrow> nat \<Rightarrow> bheap \<Rightarrow> bheap option" where
  "setkeyb geo node key n h = longcpy (bkey geo node n) key (keylen geo) h"

definition setval :: "btree_geo \<Rightarrow> u64 \<Rightarrow> u64 \<Rightarrow> nat \<Rightarrow> bheap \<Rightarrow> bheap option" where
  "setval geo node v n h = st (node, no_pairs geo * keylen geo + n) v h"

definition clearpair :: "btree_geo \<Rightarrow> u64 \<Rightarrow> nat \<Rightarrow> bheap \<Rightarrow> bheap option" where
  "clearpair geo node n h = do {
     h \<leftarrow> longset (bkey geo node n) 0 (keylen geo) h;
     st (node, no_pairs geo * keylen geo + n) 0 h
   }"

text \<open>The two statements \<open>setkeyb(geo, dst, bkey(geo, src, i), j); setval(geo, dst, bval(geo, src, i), j)\<close>.\<close>

definition move_pair :: "btree_geo \<Rightarrow> u64 \<Rightarrow> nat \<Rightarrow> u64 \<Rightarrow> nat \<Rightarrow> bheap \<Rightarrow> bheap option" where
  "move_pair geo dst j src i h = do {
     h \<leftarrow> setkeyb geo dst (bkey geo src i) j h;
     v \<leftarrow> bval geo src i h;
     setval geo dst v j h
   }"

text \<open>\<open>for (i = a; i < b; i++) body\<close> and \<open>for (i = b - 1; i >= a; i--) body\<close>\<close>

definition for_up :: "nat \<Rightarrow> nat \<Rightarrow> (nat \<Rightarrow> bheap \<Rightarrow> bheap option) \<Rightarrow> bheap \<Rightarrow> bheap option" where
  "for_up a b f h = fold (\<lambda>i r. Option.bind r (f i)) [a..<b] (Some h)"

definition for_down :: "nat \<Rightarrow> nat \<Rightarrow> (nat \<Rightarrow> bheap \<Rightarrow> bheap option) \<Rightarrow> bheap \<Rightarrow> bheap option" where
  "for_down a b f h = fold (\<lambda>i r. Option.bind r (f i)) (rev [a..<b]) (Some h)"

section \<open>Searching\<close>

definition btree_init :: btree_head where
  "btree_init = \<lparr>bt_node = 0, bt_height = 0\<rparr>"

definition keycmp :: "btree_geo \<Rightarrow> u64 \<Rightarrow> nat \<Rightarrow> kptr \<Rightarrow> bheap \<Rightarrow> int option" where
  "keycmp geo node pos key h = longcmp (bkey geo node pos) key (keylen geo) h"

function getpos_from :: "btree_geo \<Rightarrow> u64 \<Rightarrow> kptr \<Rightarrow> nat \<Rightarrow> bheap \<Rightarrow> nat option" where
  "getpos_from geo node key i h =
     (if i < no_pairs geo
      then Option.bind (keycmp geo node i key h) (\<lambda>c. if c \<le> 0 then Some i else getpos_from geo node key (Suc i) h)
      else Some i)"
  by pat_completeness auto
termination by (relation "measure (\<lambda>(geo, node, key, i, h). no_pairs geo - i)") auto

definition getpos :: "btree_geo \<Rightarrow> u64 \<Rightarrow> kptr \<Rightarrow> bheap \<Rightarrow> nat option" where
  "getpos geo node key h = getpos_from geo node key 0 h"

function getfill :: "btree_geo \<Rightarrow> u64 \<Rightarrow> nat \<Rightarrow> bheap \<Rightarrow> nat option" where
  "getfill geo node i h =
     (if i < no_pairs geo
      then Option.bind (bval geo node i h) (\<lambda>v. if v = 0 then Some i else getfill geo node (Suc i) h)
      else Some i)"
  by pat_completeness auto
termination by (relation "measure (\<lambda>(geo, node, i, h). no_pairs geo - i)") auto

text \<open>The last loop of the lookup compares for equality.\<close>

function lookup_leaf :: "btree_geo \<Rightarrow> u64 \<Rightarrow> kptr \<Rightarrow> nat \<Rightarrow> bheap \<Rightarrow> u64 option" where
  "lookup_leaf geo node key i h =
     (if i < no_pairs geo
      then Option.bind (keycmp geo node i key h) (\<lambda>c. if c = 0 then bval geo node i h else lookup_leaf geo node key (Suc i) h)
      else Some 0)"
  by pat_completeness auto
termination by (relation "measure (\<lambda>(geo, node, key, i, h). no_pairs geo - i)") auto

declare getpos_from.simps [simp del] getfill.simps [simp del] lookup_leaf.simps [simp del]

fun lookup_down :: "btree_geo \<Rightarrow> kptr \<Rightarrow> nat \<Rightarrow> u64 \<Rightarrow> bheap \<Rightarrow> u64 option" where
  "lookup_down geo key 0 node h = (if node = 0 then Some 0 else lookup_leaf geo node key 0 h)"
| "lookup_down geo key (Suc n) node h = do {
     i \<leftarrow> getpos geo node key h;
     if i = no_pairs geo then Some 0
     else do {
       node \<leftarrow> bval geo node i h;
       if node = 0 then Some 0 else lookup_down geo key n node h
     }
   }"

definition btree_lookup :: "btree_head \<Rightarrow> btree_geo \<Rightarrow> kptr \<Rightarrow> bheap \<Rightarrow> u64 option" where
  "btree_lookup head geo key h =
     (if bt_height head = 0 then Some 0 else lookup_down geo key (bt_height head - 1) (bt_node head) h)"

fun first_down :: "btree_geo \<Rightarrow> nat \<Rightarrow> u64 \<Rightarrow> bheap \<Rightarrow> u64 option" where
  "first_down geo 0 node h = Some node"
| "first_down geo (Suc n) node h = Option.bind (bval geo node 0 h) (\<lambda>node. first_down geo n node h)"

text \<open>The null pointer is the value \<open>None\<close> inside.\<close>

definition btree_last :: "btree_head \<Rightarrow> btree_geo \<Rightarrow> bheap \<Rightarrow> kptr option option" where
  "btree_last head geo h =
     (if bt_height head = 0 then Some None
      else Option.bind (first_down geo (bt_height head - 1) (bt_node head) h) (\<lambda>node. Some (Some (bkey geo node 0))))"

text \<open>
  \<open>steps\<close> is \<open>height - level\<close>. When the key is smaller than all of a node, the last key of the node
  is lowered to it; in an empty node the index is -1, and the write goes outside.
\<close>

fun find_down :: "btree_geo \<Rightarrow> kptr \<Rightarrow> nat \<Rightarrow> u64 \<Rightarrow> bheap \<Rightarrow> (u64 \<times> bheap) option" where
  "find_down geo key 0 node h = (if node = 0 then None else Some (node, h))"
| "find_down geo key (Suc steps) node h = do {
     i \<leftarrow> getpos geo node key h;
     last \<leftarrow> (if i = no_pairs geo then Some True else do { v \<leftarrow> bval geo node i h; Some (v = 0) });
     (i, h) \<leftarrow> (
       if last then (case i of 0 \<Rightarrow> None | Suc j \<Rightarrow> do { h \<leftarrow> setkeyb geo node key j h; Some (j, h) })
       else Some (i, h));
     node \<leftarrow> bval geo node i h;
     find_down geo key steps node h
   }"

definition find_level :: "btree_head \<Rightarrow> btree_geo \<Rightarrow> kptr \<Rightarrow> nat \<Rightarrow> bheap \<Rightarrow> (u64 \<times> bheap) option" where
  "find_level head geo key level h = find_down geo key (bt_height head - level) (bt_node head) h"

section \<open>Insertion\<close>

text \<open>
  The allocator answers a request for a zeroed node with an address, 0 when there is no memory;
  \<^verbatim>\<open>free\<close> gives a node back.
\<close>

definition btree_node_alloc :: "(bheap \<Rightarrow> u64) \<Rightarrow> bheap \<Rightarrow> u64 \<times> bheap" where
  "btree_node_alloc alloc h =
     (let a = alloc h in (a, if a = 0 then h else h(a \<mapsto> replicate node_longs 0)))"

definition bfree :: "u64 \<Rightarrow> bheap \<Rightarrow> bheap option" where
  "bfree a h = (if a = 0 then Some h else case h a of None \<Rightarrow> None | Some _ \<Rightarrow> Some (h(a := None)))"

definition ENOMEM :: int where
  "ENOMEM = 12"

definition btree_grow ::
  "(bheap \<Rightarrow> u64) \<Rightarrow> btree_head \<Rightarrow> btree_geo \<Rightarrow> bheap \<Rightarrow> (int \<times> btree_head \<times> bheap) option" where
  "btree_grow alloc head geo h = (
     let (node, h) = btree_node_alloc alloc h in
     if node = 0 then Some (- ENOMEM, head, h)
     else do {
       h \<leftarrow> (
         if bt_node head \<noteq> 0 then do {
           fill \<leftarrow> getfill geo (bt_node head) 0 h;
           h \<leftarrow> (case fill of 0 \<Rightarrow> None | Suc j \<Rightarrow> setkeyb geo node (bkey geo (bt_node head) j) 0 h);
           setval geo node (bt_node head) 0 h
         } else Some h);
       Some (0, head\<lparr>bt_node := node, bt_height := bt_height head + 1\<rparr>, h)
     })"

definition btree_shrink :: "btree_head \<Rightarrow> btree_geo \<Rightarrow> nat \<Rightarrow> bheap \<Rightarrow> (btree_head \<times> bheap) option" where
  "btree_shrink head geo fill h = (
     if fill = 0 \<or> fill = 1 \<and> bt_height head > 1 then do {
       v \<leftarrow> bval geo (bt_node head) 0 h;
       h \<leftarrow> bfree (bt_node head) h;
       Some (head\<lparr>bt_node := v, bt_height := bt_height head - 1\<rparr>, h)
     } else Some (head, h))"

definition steal_l ::
  "btree_geo \<Rightarrow> u64 \<Rightarrow> nat \<Rightarrow> u64 \<Rightarrow> nat \<Rightarrow> u64 \<Rightarrow> nat \<Rightarrow> nat \<Rightarrow> bheap \<Rightarrow> bheap option" where
  "steal_l geo left lfill right rfill parent lpos no_entries h = do {
     h \<leftarrow> for_down 0 rfill (\<lambda>i. move_pair geo right (i + no_entries) right i) h;
     h \<leftarrow> for_up 0 no_entries (\<lambda>i. move_pair geo right i left (lfill - no_entries + i)) h;
     h \<leftarrow> setkeyb geo parent (bkey geo left (lfill - no_entries - 1)) lpos h;
     for_up (lfill - no_entries) lfill (clearpair geo left) h
   }"

definition steal_r ::
  "btree_geo \<Rightarrow> u64 \<Rightarrow> nat \<Rightarrow> u64 \<Rightarrow> nat \<Rightarrow> u64 \<Rightarrow> nat \<Rightarrow> nat \<Rightarrow> bheap \<Rightarrow> bheap option" where
  "steal_r geo left lfill right rfill parent lpos no_entries h = do {
     h \<leftarrow> for_up 0 no_entries (\<lambda>i. move_pair geo left (lfill + i) right i) h;
     h \<leftarrow> setkeyb geo parent (bkey geo right (no_entries - 1)) lpos h;
     h \<leftarrow> for_up no_entries rfill (\<lambda>i. move_pair geo right (i - no_entries) right i) h;
     for_up (rfill - no_entries) rfill (clearpair geo right) h
   }"

text \<open>The copying part of \<open>split\<close>: the first half moves to the new node.\<close>

definition split_move :: "btree_geo \<Rightarrow> u64 \<Rightarrow> u64 \<Rightarrow> nat \<Rightarrow> bheap \<Rightarrow> bheap option" where
  "split_move geo node new fill h = do {
     h \<leftarrow> for_up 0 (fill div 2) (\<lambda>i h. do {
       h \<leftarrow> move_pair geo new i node i h;
       h \<leftarrow> move_pair geo node i node (i + fill div 2) h;
       clearpair geo node (i + fill div 2) h
     }) h;
     if odd fill then do {
       h \<leftarrow> move_pair geo node (fill div 2) node (fill - 1) h;
       clearpair geo node (fill - 1) h
     } else Some h
   }"

text \<open>
  \<open>split\<close>, \<open>rebalance_insert\<close> and \<open>merge\<close>, \<open>rebalance\<close> below are called by the function that they call:
  they take that function as the parameter \<open>rec\<close>, and the recursive definitions close the knot.
\<close>

type_synonym insert_fun = "btree_head \<Rightarrow> kptr \<Rightarrow> u64 \<Rightarrow> nat \<Rightarrow> bheap \<Rightarrow> (int \<times> btree_head \<times> bheap) option"

definition split :: "(bheap \<Rightarrow> u64) \<Rightarrow> insert_fun \<Rightarrow> btree_head \<Rightarrow> btree_geo \<Rightarrow> u64 \<Rightarrow> nat \<Rightarrow> bheap \<Rightarrow>
    (int \<times> btree_head \<times> bheap) option" where
  "split alloc rec head geo node level h = (
     let fill = no_pairs geo;
         (new, h) = btree_node_alloc alloc h in
     if new = 0 then Some (- ENOMEM, head, h)
     else do {
       (err, head, h) \<leftarrow> rec head (bkey geo node (fill div 2 - 1)) new (level + 1) h;
       if err \<noteq> 0 then do { h \<leftarrow> bfree new h; Some (err, head, h) }
       else do { h \<leftarrow> split_move geo node new fill h; Some (0, head, h) }
     })"

text \<open>\<open>AGGRESSIVE_COMPACTION\<close> is defined.\<close>

definition rebalance_insert :: "(bheap \<Rightarrow> u64) \<Rightarrow> insert_fun \<Rightarrow> btree_head \<Rightarrow> btree_geo \<Rightarrow> kptr \<Rightarrow> u64 \<Rightarrow> nat \<Rightarrow> bheap \<Rightarrow>
    (int \<times> btree_head \<times> bheap) option" where
  "rebalance_insert alloc rec head geo key child level h = (
     if level = bt_height head then split alloc rec head geo child level h
     else do {
       (parent, h) \<leftarrow> find_level head geo key (level + 1) h;
       child_no \<leftarrow> getpos geo parent key h;
       v \<leftarrow> bval geo parent child_no h;
       if v \<noteq> child then None
       else do {
         (left, no_left) \<leftarrow> (
           if child_no > 0 then do {
             left \<leftarrow> bval geo parent (child_no - 1) h;
             no_left \<leftarrow> getfill geo left 0 h;
             Some (left, no_left)
           } else Some (0, 0));
         if child_no > 0 \<and> no_pairs geo - no_left \<ge> 2 then do {
           h \<leftarrow> steal_r geo left no_left child (no_pairs geo) parent (child_no - 1) ((no_pairs geo - no_left) div 2) h;
           Some (0, head, h)
         } else do {
           pfill \<leftarrow> getfill geo parent child_no h;
           (right, no_right) \<leftarrow> (
             if child_no + 1 < pfill then do {
               right \<leftarrow> bval geo parent (child_no + 1) h;
               no_right \<leftarrow> getfill geo right 0 h;
               Some (right, no_right)
             } else Some (0, 0));
           if child_no + 1 < pfill \<and> no_pairs geo - no_right \<ge> 2 then do {
             h \<leftarrow> steal_l geo child (no_pairs geo) right no_right parent child_no ((no_pairs geo - no_right) div 2) h;
             Some (0, head, h)
           } else split alloc rec head geo child level h
         }
       }
     })"

definition insert_pair :: "btree_geo \<Rightarrow> u64 \<Rightarrow> kptr \<Rightarrow> u64 \<Rightarrow> nat \<Rightarrow> nat \<Rightarrow> bheap \<Rightarrow> bheap option" where
  "insert_pair geo node key v pos fill h = do {
     h \<leftarrow> for_down pos fill (\<lambda>i. move_pair geo node (i + 1) node i) h;
     h \<leftarrow> setkeyb geo node key pos h;
     setval geo node v pos h
   }"

text \<open>
  The first argument that is not of the source says where the function is entered: at its start or
  at the label \<open>retry\<close>. Both \<open>BUG_ON\<close> of the source are the value \<open>None\<close>.
\<close>

lemma case_prod_mono:
  "(\<And>a b. mono_option (\<lambda>f. F f a b)) \<Longrightarrow> mono_option (\<lambda>f. case p of (a, b) \<Rightarrow> F f a b)"
  by (cases p) simp

lemma split_mono [partial_function_mono]:
  assumes "\<And>hd k v l h. mono_option (\<lambda>f. R f hd k v l h)"
  shows "mono_option (\<lambda>f. split alloc (R f) head geo node level h)"
  unfolding split_def Let_def by (intro case_prod_mono partial_function_mono assms)

lemma rebalance_insert_mono [partial_function_mono]:
  assumes "\<And>hd k v l h. mono_option (\<lambda>f. R f hd k v l h)"
  shows "mono_option (\<lambda>f. rebalance_insert alloc (R f) head geo key child level h)"
  unfolding rebalance_insert_def by (intro case_prod_mono partial_function_mono assms)

partial_function (option) btree_insert_level ::
  "bool \<Rightarrow> (bheap \<Rightarrow> u64) \<Rightarrow> btree_geo \<Rightarrow> btree_head \<Rightarrow> kptr \<Rightarrow> u64 \<Rightarrow> nat \<Rightarrow> bheap \<Rightarrow> (int \<times> btree_head \<times> bheap) option" where
  "btree_insert_level retry alloc geo head key v level h = do {
     (err, head, h) \<leftarrow> (
       if retry then Some (0, head, h)
       else if v = 0 then None
       else if bt_height head < level then btree_grow alloc head geo h
       else Some (0, head, h));
     if err \<noteq> 0 then Some (err, head, h)
     else do {
       (node, h) \<leftarrow> find_level head geo key level h;
       pos \<leftarrow> getpos geo node key h;
       fill \<leftarrow> getfill geo node pos h;
       same \<leftarrow> (if pos < fill then do { c \<leftarrow> keycmp geo node pos key h; Some (c = 0) } else Some False);
       if same then None
       else if fill = no_pairs geo then do {
         (err, head, h) \<leftarrow> rebalance_insert alloc (btree_insert_level False alloc geo) head geo key node level h;
         if err \<noteq> 0 then Some (err, head, h)
         else btree_insert_level True alloc geo head key v level h
       } else do {
         h \<leftarrow> insert_pair geo node key v pos fill h;
         Some (0, head, h)
       }
     }
   }"

definition btree_insert ::
  "(bheap \<Rightarrow> u64) \<Rightarrow> btree_head \<Rightarrow> btree_geo \<Rightarrow> kptr \<Rightarrow> u64 \<Rightarrow> bheap \<Rightarrow> (int \<times> btree_head \<times> bheap) option" where
  "btree_insert alloc head geo key v h = btree_insert_level False alloc geo head key v 1 h"

section \<open>Removal\<close>

type_synonym remove_fun = "btree_head \<Rightarrow> kptr \<Rightarrow> nat \<Rightarrow> bheap \<Rightarrow> (u64 \<times> btree_head \<times> bheap) option"

definition merge :: "remove_fun \<Rightarrow> btree_head \<Rightarrow> btree_geo \<Rightarrow> nat \<Rightarrow> u64 \<Rightarrow> nat \<Rightarrow> u64 \<Rightarrow> nat \<Rightarrow> u64 \<Rightarrow> nat \<Rightarrow> bheap \<Rightarrow>
    (btree_head \<times> bheap) option" where
  "merge rec head geo level left lfill right rfill parent lpos h = do {
     h \<leftarrow> for_up 0 rfill (\<lambda>i. move_pair geo left (lfill + i) right i) h;
     h \<leftarrow> setval geo parent right lpos h;
     h \<leftarrow> setval geo parent left (lpos + 1) h;
     (_, head, h) \<leftarrow> rec head (bkey geo parent lpos) (level + 1) h;
     h \<leftarrow> bfree right h;
     Some (head, h)
   }"

definition rebalance :: "remove_fun \<Rightarrow> btree_head \<Rightarrow> btree_geo \<Rightarrow> kptr \<Rightarrow> nat \<Rightarrow> u64 \<Rightarrow> nat \<Rightarrow> bheap \<Rightarrow>
    (btree_head \<times> bheap) option" where
  "rebalance rec head geo key level child fill h = do {
     (parent, h) \<leftarrow> find_level head geo key (level + 1) h;
     child_no \<leftarrow> getpos geo parent key h;
     v \<leftarrow> bval geo parent child_no h;
     if v \<noteq> child then None
     else do {
       (left, no_left) \<leftarrow> (
         if child_no > 0 then do {
           left \<leftarrow> bval geo parent (child_no - 1) h;
           no_left \<leftarrow> getfill geo left 0 h;
           Some (left, no_left)
         } else Some (0, 0));
       if child_no > 0 \<and> fill + no_left \<le> no_pairs geo
       then merge rec head geo level left no_left child fill parent (child_no - 1) h
       else do {
         pfill \<leftarrow> getfill geo parent child_no h;
         (right, no_right) \<leftarrow> (
           if child_no + 1 < pfill then do {
             right \<leftarrow> bval geo parent (child_no + 1) h;
             no_right \<leftarrow> getfill geo right 0 h;
             Some (right, no_right)
           } else Some (0, 0));
         if child_no + 1 < pfill \<and> fill + no_right \<le> no_pairs geo
         then merge rec head geo level child fill right no_right parent child_no h
         else if fill > 1 then Some (head, h)
         else if left \<noteq> 0 then (
           let i = (no_left - fill) div 2 in
           if i < 1 then None
           else do { h \<leftarrow> steal_l geo left no_left child fill parent (child_no - 1) i h; Some (head, h) })
         else if right \<noteq> 0 then (
           let i = (no_right - fill) div 2 in
           if i < 1 then None
           else do { h \<leftarrow> steal_r geo child fill right no_right parent child_no i h; Some (head, h) })
         else None
       }
     }
   }"

text \<open>\<open>remove and shift\<close>: in an empty node the cleared index is -1.\<close>

definition remove_pair :: "btree_geo \<Rightarrow> u64 \<Rightarrow> nat \<Rightarrow> nat \<Rightarrow> bheap \<Rightarrow> bheap option" where
  "remove_pair geo node pos fill h = do {
     h \<leftarrow> for_up pos (fill - 1) (\<lambda>i. move_pair geo node i node (i + 1)) h;
     (case fill of 0 \<Rightarrow> None | Suc j \<Rightarrow> clearpair geo node j h)
   }"

lemma merge_mono [partial_function_mono]:
  assumes "\<And>hd k l h. mono_option (\<lambda>f. R f hd k l h)"
  shows "mono_option (\<lambda>f. merge (R f) head geo level left lfill right rfill parent lpos h)"
  unfolding merge_def by (intro case_prod_mono partial_function_mono assms)

lemma rebalance_mono [partial_function_mono]:
  assumes "\<And>hd k l h. mono_option (\<lambda>f. R f hd k l h)"
  shows "mono_option (\<lambda>f. rebalance (R f) head geo key level child fill h)"
  unfolding rebalance_def Let_def by (intro case_prod_mono partial_function_mono assms)

partial_function (option) btree_remove_level ::
  "btree_geo \<Rightarrow> btree_head \<Rightarrow> kptr \<Rightarrow> nat \<Rightarrow> bheap \<Rightarrow> (u64 \<times> btree_head \<times> bheap) option" where
  "btree_remove_level geo head key level h = (
     if level > bt_height head then Some (0, head\<lparr>bt_height := 0, bt_node := 0\<rparr>, h)
     else do {
       (node, h) \<leftarrow> find_level head geo key level h;
       pos \<leftarrow> getpos geo node key h;
       fill \<leftarrow> getfill geo node pos h;
       absent \<leftarrow> (if level = 1 then do { c \<leftarrow> keycmp geo node pos key h; Some (c \<noteq> 0) } else Some False);
       if absent then Some (0, head, h)
       else do {
         ret \<leftarrow> bval geo node pos h;
         h \<leftarrow> remove_pair geo node pos fill h;
         if fill - 1 < no_pairs geo div 2 then do {
           (head, h) \<leftarrow> (
             if level < bt_height head then rebalance (btree_remove_level geo) head geo key level node (fill - 1) h
             else btree_shrink head geo (fill - 1) h);
           Some (ret, head, h)
         } else Some (ret, head, h)
       }
     })"

definition btree_remove :: "btree_head \<Rightarrow> btree_geo \<Rightarrow> kptr \<Rightarrow> bheap \<Rightarrow> (u64 \<times> btree_head \<times> bheap) option" where
  "btree_remove head geo key h =
     (if bt_height head = 0 then Some (0, head, h) else btree_remove_level geo head key 1 h)"

section \<open>Merging two trees and visiting\<close>

text \<open>
  Target and victim are two objects, as the \<open>BUG_ON\<close> of the source demands; \<open>duplicate\<close> is a block for
  one key.
\<close>

partial_function (option) btree_merge_loop ::
  "(bheap \<Rightarrow> u64) \<Rightarrow> btree_geo \<Rightarrow> kptr \<Rightarrow> btree_head \<Rightarrow> btree_head \<Rightarrow> bheap \<Rightarrow> (int \<times> btree_head \<times> btree_head \<times> bheap) option" where
  "btree_merge_loop alloc geo duplicate target victim h = do {
     key \<leftarrow> btree_last victim geo h;
     (case key of None \<Rightarrow> Some (0, target, victim, h)
      | Some key \<Rightarrow> do {
          v \<leftarrow> btree_lookup victim geo key h;
          (err, target, h) \<leftarrow> btree_insert alloc target geo key v h;
          if err \<noteq> 0 then Some (err, target, victim, h)
          else do {
            h \<leftarrow> longcpy duplicate key (keylen geo) h;
            (_, victim, h) \<leftarrow> btree_remove victim geo duplicate h;
            btree_merge_loop alloc geo duplicate target victim h
          }
        })
   }"

definition btree_merge ::
  "(bheap \<Rightarrow> u64) \<Rightarrow> btree_head \<Rightarrow> btree_head \<Rightarrow> btree_geo \<Rightarrow> kptr \<Rightarrow> bheap \<Rightarrow> (int \<times> btree_head \<times> btree_head \<times> bheap) option" where
  "btree_merge alloc target victim geo duplicate h =
     (if bt_node target = 0
      then Some (0, target\<lparr>bt_node := bt_node victim, bt_height := bt_height victim\<rparr>, btree_init, h)
      else btree_merge_loop alloc geo duplicate target victim h)"

text \<open>
  The visitors call back for every pair of the lowest level: the calls are collected as triples of
  the value, the pointer to the key and the running index.
\<close>

type_synonym visit = "u64 \<times> kptr \<times> nat"

function for_each_from :: "btree_geo \<Rightarrow> bool \<Rightarrow> nat \<Rightarrow> u64 \<Rightarrow> nat \<Rightarrow> nat \<Rightarrow> bheap \<Rightarrow> (visit list \<times> nat \<times> bheap) option" where
  "for_each_from geo reap height node i count h = (
     if i < no_pairs geo then do {
       child \<leftarrow> bval geo node i h;
       if child = 0 then do {
         h \<leftarrow> (if reap then bfree node h else Some h);
         Some ([], count, h)
       } else do {
         (calls, count, h) \<leftarrow> (
           if height > 1 then for_each_from geo reap (height - 1) child 0 count h
           else Some ([(child, bkey geo node i, count)], count + 1, h));
         (calls', count, h) \<leftarrow> for_each_from geo reap height node (i + 1) count h;
         Some (calls @ calls', count, h)
       }
     } else do {
       h \<leftarrow> (if reap then bfree node h else Some h);
       Some ([], count, h)
     })"
  by pat_completeness auto
termination by (relation "measures [\<lambda>(geo, reap, height, node, i, count, h). height, \<lambda>(geo, reap, height, node, i, count, h). no_pairs geo - i]") auto

declare for_each_from.simps [simp del]

definition btree_visitor :: "btree_head \<Rightarrow> btree_geo \<Rightarrow> bheap \<Rightarrow> (visit list \<times> nat) option" where
  "btree_visitor head geo h =
     (if bt_node head = 0 then Some ([], 0)
      else do { (calls, count, h) \<leftarrow> for_each_from geo False (bt_height head) (bt_node head) 0 0 h; Some (calls, count) })"

definition btree_grim_visitor :: "btree_head \<Rightarrow> btree_geo \<Rightarrow> bheap \<Rightarrow> (visit list \<times> nat \<times> btree_head \<times> bheap) option" where
  "btree_grim_visitor head geo h = do {
     (calls, count, h) \<leftarrow> (
       if bt_node head = 0 then Some ([], 0, h)
       else for_each_from geo True (bt_height head) (bt_node head) 0 0 h);
     Some (calls, count, btree_init, h)
   }"

end
