(* ===== verification/Btree_Node.thy ===== *)
theory Btree_Node
  imports Btree "HOL-Library.List_Lexorder"
begin

text \<open>
  The nodes of the B+ tree as lists of pairs. A block is the encoding of its slots, one pair of a key
  and a value each, and a node with the entries \<open>es\<close> is the block whose first slots are \<open>es\<close> and whose
  other slots are zero. Each access, each loop of \<^verbatim>\<open>btree.c\<close> over the slots and each of its operations
  on two neighbours is an equation on the lists. Keys are compared as lists of longs in their
  lexicographic order.
\<close>

section \<open>Loops\<close>

lemma fold_bind: "fold (\<lambda>i r. Option.bind r (f i)) is r = Option.bind r (\<lambda>h. fold (\<lambda>i r. Option.bind r (f i)) is (Some h))"
proof (cases r)
  case None
  have "fold (\<lambda>i r. Option.bind r (f i)) is None = None" by (induction "is") simp_all
  then show ?thesis using None by simp
qed simp

lemma for_up_empty [simp]: "b \<le> a \<Longrightarrow> for_up a b f h = Some h"
  by (simp add: for_up_def)

lemma for_up_Suc: "a \<le> b \<Longrightarrow> for_up a (Suc b) f h = Option.bind (for_up a b f h) (f b)"
  by (simp add: for_up_def)

lemma for_down_empty [simp]: "b \<le> a \<Longrightarrow> for_down a b f h = Some h"
  by (simp add: for_down_def)

lemma for_down_Suc: "a \<le> b \<Longrightarrow> for_down a (Suc b) f h = Option.bind (f b h) (for_down a b f)"
  unfolding for_down_def by (simp add: fold_bind [of f _ "f b h"])

lemma for_up_add: "for_up (a + n) (b + n) f h = for_up a b (\<lambda>i. f (i + n)) h"
proof -
  have "[a + n..<b + n] = map (\<lambda>i. i + n) [a..<b]" by (induction b) auto
  then show ?thesis by (simp add: for_up_def fold_map comp_def)
qed

text \<open>A loop that writes one slot each time computes a function of the slots.\<close>

lemma for_up_inv:
  assumes "a \<le> b" "P a h" "\<And>i h. a \<le> i \<Longrightarrow> i < b \<Longrightarrow> P i h \<Longrightarrow> \<exists>h'. f i h = Some h' \<and> P (Suc i) h'"
  shows "\<exists>h'. for_up a b f h = Some h' \<and> P b h'"
  using assms(1,3)
proof (induction b rule: dec_induct)
  case base
  show ?case using assms(2) by simp
next
  case (step n)
  then obtain h' where "for_up a n f h = Some h'" "P n h'" by (metis less_Suc_eq)
  then show ?case using step by (auto simp: for_up_Suc)
qed

lemma for_down_inv:
  assumes "a \<le> b" "P b h" "\<And>i h. a \<le> i \<Longrightarrow> i < b \<Longrightarrow> P (Suc i) h \<Longrightarrow> \<exists>h'. f i h = Some h' \<and> P i h'"
  shows "\<exists>h'. for_down a b f h = Some h' \<and> P a h'"
  using assms
proof (induction b arbitrary: h rule: dec_induct)
  case base
  then show ?case by simp
next
  case (step n)
  from step.prems(2) [of n h] step.prems(1) step.hyps obtain h' where
    h': "f n h = Some h'" "P n h'" by auto
  from step.IH [OF h'(2)] step.prems(2) have "\<exists>h''. for_down a n f h' = Some h'' \<and> P a h''" by (meson less_SucI)
  then show ?case using h' step.hyps by (simp add: for_down_Suc)
qed

section \<open>Keys in memory\<close>

text \<open>\<open>key_at geo h p k\<close>: the key \<open>k\<close> is at \<open>p\<close>.\<close>

definition key_at :: "btree_geo \<Rightarrow> bheap \<Rightarrow> kptr \<Rightarrow> u64 list \<Rightarrow> bool" where
  "key_at geo h p k \<longleftrightarrow> (\<exists>ws. h (fst p) = Some ws \<and> snd p + keylen geo \<le> length ws \<and>
     take (keylen geo) (drop (snd p) ws) = k)"

lemma key_at_length: "key_at geo h p k \<Longrightarrow> length k = keylen geo"
  by (auto simp: key_at_def)

lemma key_at_ld: "key_at geo h p k \<Longrightarrow> j < keylen geo \<Longrightarrow> ld (kadd p j) h = Some (k ! j)"
  by (auto simp: key_at_def ld_def kadd_def load_def)

lemma key_at_other: "key_at geo h p k \<Longrightarrow> h' (fst p) = h (fst p) \<Longrightarrow> key_at geo h' p k"
  by (simp add: key_at_def)

lemma ld_other [simp]: "fst p \<noteq> a \<Longrightarrow> ld p (h(a \<mapsto> ws)) = ld p h"
  by (simp add: ld_def)

lemma longcpy_from_eq:
  assumes "h (fst d) = Some wd" "snd d + i + length vs \<le> length wd"
    and "\<And>j. j < length vs \<Longrightarrow> ld (kadd s (i + j)) h = Some (vs ! j)"
    and "fst d = fst s \<Longrightarrow> snd d + length vs \<le> snd s \<or> snd s + length vs \<le> snd d"
  shows "longcpy_from d s i (length vs) h =
    Some (h(fst d \<mapsto> take (snd d + i) wd @ vs @ drop (snd d + i + length vs) wd))"
  using assms
proof (induction vs arbitrary: i h wd)
  case Nil
  then have "h(fst d \<mapsto> wd) = h" by (simp add: fun_upd_idem_iff)
  then show ?case by simp
next
  case (Cons v vs)
  let ?h = "h(fst d \<mapsto> wd[snd d + i := v])"
  have st: "st (kadd d i) v h = Some ?h"
    using Cons.prems(1,2) by (simp add: st_def kadd_def store_def)
  have ld0: "ld (kadd s i) h = Some v" using Cons.prems(3) [of 0] by simp
  have ldj: "ld (kadd s (Suc i + j)) ?h = Some (vs ! j)" if "j < length vs" for j
  proof -
    have "ld (kadd s (i + Suc j)) h = Some (vs ! j)" using Cons.prems(3) [of "Suc j"] that by simp
    moreover have "fst d = fst s \<Longrightarrow> snd s + (i + Suc j) \<noteq> snd d + i" using Cons.prems(4) that by auto
    ultimately show ?thesis using Cons.prems(1)
      by (cases "fst d = fst s") (auto simp: ld_def kadd_def load_def split: if_splits)
  qed
  have "longcpy_from d s (Suc i) (length vs) ?h =
      Some (?h(fst d \<mapsto> take (snd d + Suc i) (wd[snd d + i := v]) @ vs @ drop (snd d + Suc i + length vs) (wd[snd d + i := v])))"
  proof (rule Cons.IH)
    show "ld (kadd s (Suc i + j)) ?h = Some (vs ! j)" if "j < length vs" for j by (rule ldj [OF that])
  qed (use Cons.prems in auto)
  moreover have "take (Suc (snd d + i)) (wd[snd d + i := v]) = take (snd d + i) wd @ [v]"
    using Cons.prems(2) by (simp add: take_Suc_conv_app_nth)
  ultimately show ?case using st ld0 by (simp del: fun_upd_apply)
qed

lemma longcpy_eq:
  assumes "h (fst d) = Some wd" "snd d + keylen geo \<le> length wd" "key_at geo h s k"
    and "fst d = fst s \<Longrightarrow> snd d + keylen geo \<le> snd s \<or> snd s + keylen geo \<le> snd d"
  shows "longcpy d s (keylen geo) h = Some (h(fst d \<mapsto> take (snd d) wd @ k @ drop (snd d + keylen geo) wd))"
proof -
  note l = key_at_length [OF assms(3)]
  have "longcpy_from d s 0 (length k) h = Some (h(fst d \<mapsto> take (snd d + 0) wd @ k @ drop (snd d + 0 + length k) wd))"
    by (rule longcpy_from_eq) (use assms l key_at_ld [OF assms(3)] in auto)
  then show ?thesis by (simp add: longcpy_def l)
qed

lemma longset_from_eq:
  assumes "h (fst d) = Some wd" "snd d + i + n \<le> length wd"
  shows "longset_from d c i n h = Some (h(fst d \<mapsto> take (snd d + i) wd @ replicate n c @ drop (snd d + i + n) wd))"
  using assms
proof (induction n arbitrary: i h wd)
  case 0
  then have "h(fst d \<mapsto> wd) = h" by (simp add: fun_upd_idem_iff)
  then show ?case by simp
next
  case (Suc n)
  let ?h = "h(fst d \<mapsto> wd[snd d + i := c])"
  have st: "st (kadd d i) c h = Some ?h"
    using Suc.prems(1,2) by (simp add: st_def kadd_def store_def)
  have "longset_from d c (Suc i) n ?h =
      Some (?h(fst d \<mapsto> take (snd d + Suc i) (wd[snd d + i := c]) @ replicate n c @ drop (snd d + Suc i + n) (wd[snd d + i := c])))"
    by (rule Suc.IH) (use Suc.prems in auto)
  moreover have "take (Suc (snd d + i)) (wd[snd d + i := c]) = take (snd d + i) wd @ [c]"
    using Suc.prems(2) by (simp add: take_Suc_conv_app_nth)
  ultimately show ?case using st by (simp del: fun_upd_apply)
qed

text \<open>The sign of a comparison\<close>

definition order_of :: "'a::ord \<Rightarrow> 'a \<Rightarrow> int" where
  "order_of x y = (if x < y then - 1 else if x > y then 1 else 0)"

lemma order_of_simps [simp]:
  fixes x y :: "'a::linorder"
  shows "order_of x y = 0 \<longleftrightarrow> x = y" "order_of x y \<le> 0 \<longleftrightarrow> x \<le> y"
  by (auto simp: order_of_def)

lemma longcmp_from_eq:
  assumes "\<And>j. j < n \<Longrightarrow> ld (kadd p (i + j)) h = Some (x ! j)" "\<And>j. j < n \<Longrightarrow> ld (kadd q (i + j)) h = Some (y ! j)"
    and "length x = n" "length y = n"
  shows "longcmp_from p q i n h = Some (order_of x y)"
  using assms
proof (induction n arbitrary: i x y)
  case 0
  then show ?case by (simp add: order_of_def)
next
  case (Suc n)
  then obtain a x' b y' where xy: "x = a # x'" "y = b # y'" by (metis length_Suc_conv)
  have "ld (kadd p i) h = Some a" "ld (kadd q i) h = Some b"
    using Suc.prems(1,2) [of 0] xy by simp_all
  moreover have "longcmp_from p q (Suc i) n h = Some (order_of x' y')"
  proof (rule Suc.IH)
    show "ld (kadd p (Suc i + j)) h = Some (x' ! j)" if "j < n" for j using Suc.prems(1) [of "Suc j"] that xy by simp
    show "ld (kadd q (Suc i + j)) h = Some (y' ! j)" if "j < n" for j using Suc.prems(2) [of "Suc j"] that xy by simp
  qed (use Suc.prems xy in simp_all)
  ultimately show ?case using xy by (auto simp: order_of_def)
qed

lemma longcmp_eq:
  "key_at geo h p x \<Longrightarrow> key_at geo h q y \<Longrightarrow> longcmp p q (keylen geo) h = Some (order_of x y)"
  unfolding longcmp_def by (rule longcmp_from_eq) (simp_all add: key_at_ld key_at_length)

lemma replicate_zero_le: "replicate (length k) (0 :: u64) \<le> k"
  by (induction k) (auto simp: word_gt_0)

section \<open>Slots\<close>

text \<open>What the operations need of a geometry; the three of the source have it.\<close>

locale geometry =
  fixes geo :: btree_geo
  assumes keylen_pos: "1 \<le> keylen geo"
    and no_pairs_4: "4 \<le> no_pairs geo"
    and node_fits: "no_pairs geo * (keylen geo + 1) \<le> node_longs"

interpretation geo32: geometry btree_geo32
  by unfold_locales (simp_all add: btree_geo32_def node_longs_def)

interpretation geo64: geometry btree_geo64
  by unfold_locales (simp_all add: btree_geo64_def node_longs_def flip: numeral_2_eq_2)

interpretation geo128: geometry btree_geo128
  by unfold_locales (simp_all add: btree_geo128_def node_longs_def flip: numeral_2_eq_2)

type_synonym pair = "u64 list \<times> u64"

definition slots_ok :: "btree_geo \<Rightarrow> pair list \<Rightarrow> bool" where
  "slots_ok geo S \<longleftrightarrow> length S = no_pairs geo \<and> (\<forall>e \<in> set S. length (fst e) = keylen geo)"

definition enc :: "btree_geo \<Rightarrow> pair list \<Rightarrow> u64 list" where
  "enc geo S = concat (map fst S) @ map snd S @ replicate (node_longs - no_pairs geo * (keylen geo + 1)) 0"

definition zero_pair :: "btree_geo \<Rightarrow> pair" where
  "zero_pair geo = (replicate (keylen geo) 0, 0)"

lemma slots_okD: "slots_ok geo S \<Longrightarrow> length S = no_pairs geo" "slots_ok geo S \<Longrightarrow> i < no_pairs geo \<Longrightarrow> length (fst (S ! i)) = keylen geo"
  by (auto simp: slots_ok_def)

lemma slots_ok_upd: "slots_ok geo S \<Longrightarrow> length (fst e) = keylen geo \<Longrightarrow> slots_ok geo (S[i := e])"
  by (auto simp: slots_ok_def dest!: subsetD [OF set_update_subset_insert])

lemma length_concat_keys: "(\<And>e. e \<in> set S \<Longrightarrow> length (fst e) = k) \<Longrightarrow> length (concat (map fst S)) = length S * k"
  by (induction S) auto

lemma enc_split:
  assumes "slots_ok geo S" "i < no_pairs geo"
  shows "enc geo S = concat (map fst (take i S)) @ fst (S ! i) @ concat (map fst (drop (Suc i) S)) @ map snd (take i S) @
      snd (S ! i) # map snd (drop (Suc i) S) @ replicate (node_longs - no_pairs geo * (keylen geo + 1)) 0"
    and "length (concat (map fst (take i S))) = i * keylen geo"
    and "length (concat (map fst (drop (Suc i) S))) = (no_pairs geo - Suc i) * keylen geo"
proof -
  have "S = take i S @ S ! i # drop (Suc i) S" using assms by (intro id_take_nth_drop) (simp add: slots_okD)
  then have "map fst S = map fst (take i S) @ fst (S ! i) # map fst (drop (Suc i) S)"
    "map snd S = map snd (take i S) @ snd (S ! i) # map snd (drop (Suc i) S)"
    by (metis list.simps(9) map_append)+
  then show "enc geo S = concat (map fst (take i S)) @ fst (S ! i) @ concat (map fst (drop (Suc i) S)) @ map snd (take i S) @
      snd (S ! i) # map snd (drop (Suc i) S) @ replicate (node_longs - no_pairs geo * (keylen geo + 1)) 0"
    unfolding enc_def by simp
  have "length (concat (map fst (take i S))) = length (take i S) * keylen geo"
    by (rule length_concat_keys) (use assms(1) in \<open>auto simp: slots_ok_def dest: in_set_takeD\<close>)
  then show "length (concat (map fst (take i S))) = i * keylen geo" using assms by (simp add: slots_okD)
  have "length (concat (map fst (drop (Suc i) S))) = length (drop (Suc i) S) * keylen geo"
    by (rule length_concat_keys) (use assms(1) in \<open>auto simp: slots_ok_def dest: in_set_dropD\<close>)
  then show "length (concat (map fst (drop (Suc i) S))) = (no_pairs geo - Suc i) * keylen geo" using assms by (simp add: slots_okD)
qed

lemma enc_key:
  assumes "slots_ok geo S" "i < no_pairs geo"
  shows "take (keylen geo) (drop (i * keylen geo) (enc geo S)) = fst (S ! i)"
    and "length k = keylen geo \<Longrightarrow>
      take (i * keylen geo) (enc geo S) @ k @ drop (i * keylen geo + keylen geo) (enc geo S) = enc geo (S[i := (k, snd (S ! i))])"
proof -
  note e = enc_split [OF assms] and l = slots_okD [OF assms(1)] slots_okD(2) [OF assms]
  show "take (keylen geo) (drop (i * keylen geo) (enc geo S)) = fst (S ! i)" unfolding e(1) using e(2) l by simp
  assume k: "length k = keylen geo"
  have ok: "slots_ok geo (S[i := (k, snd (S ! i))])" using assms(1) k by (simp add: slots_ok_upd)
  have "drop (i * keylen geo + keylen geo) (enc geo S) = concat (map fst (drop (Suc i) S)) @ map snd (take i S) @
      snd (S ! i) # map snd (drop (Suc i) S) @ replicate (node_longs - no_pairs geo * (keylen geo + 1)) 0"
    unfolding e(1) using e(2) l by simp
  moreover have "take (i * keylen geo) (enc geo S) = concat (map fst (take i S))" unfolding e(1) using e(2) l by simp
  ultimately show "take (i * keylen geo) (enc geo S) @ k @ drop (i * keylen geo + keylen geo) (enc geo S) = enc geo (S[i := (k, snd (S ! i))])"
    unfolding enc_split(1) [OF ok assms(2)] using assms(2) l by simp
qed

lemma enc_val:
  assumes "slots_ok geo S" "i < no_pairs geo"
  shows "enc geo S ! (no_pairs geo * keylen geo + i) = snd (S ! i)"
    and "(enc geo S)[no_pairs geo * keylen geo + i := v] = enc geo (S[i := (fst (S ! i), v)])"
proof -
  note e = enc_split [OF assms] and l = slots_okD [OF assms(1)] slots_okD(2) [OF assms]
  let ?a = "concat (map fst (take i S)) @ fst (S ! i) @ concat (map fst (drop (Suc i) S)) @ map snd (take i S)"
  have e': "enc geo S = ?a @ snd (S ! i) # map snd (drop (Suc i) S) @ replicate (node_longs - no_pairs geo * (keylen geo + 1)) 0"
    unfolding e(1) by simp
  have "i * keylen geo + (keylen geo + (no_pairs geo - Suc i) * keylen geo) = (i + Suc (no_pairs geo - Suc i)) * keylen geo"
    by (simp add: algebra_simps)
  then have la: "length ?a = no_pairs geo * keylen geo + i" using e(2,3) l assms(2) by simp
  show "enc geo S ! (no_pairs geo * keylen geo + i) = snd (S ! i)" unfolding e' la [symmetric] by (rule nth_append_length)
  have ok: "slots_ok geo (S[i := (fst (S ! i), v)])" using assms(1) l by (simp add: slots_ok_upd)
  show "(enc geo S)[no_pairs geo * keylen geo + i := v] = enc geo (S[i := (fst (S ! i), v)])"
    unfolding enc_split(1) [OF ok assms(2)] e' la [symmetric] list_update_length using assms(2) l by simp
qed

context geometry
begin

lemma length_enc: "slots_ok geo S \<Longrightarrow> length (enc geo S) = node_longs"
  using node_fits length_concat_keys [of S "keylen geo"] by (simp add: slots_ok_def enc_def algebra_simps)

lemma key_bound: "i < no_pairs geo \<Longrightarrow> i * keylen geo + keylen geo \<le> no_pairs geo * keylen geo"
  by (metis Suc_leI add.commute mult_Suc mult_le_mono1)

lemma key_fits: "i < no_pairs geo \<Longrightarrow> i * keylen geo + keylen geo \<le> node_longs"
  using key_bound [of i] node_fits by (simp add: algebra_simps)

lemma val_fits: "i < no_pairs geo \<Longrightarrow> no_pairs geo * keylen geo + i < node_longs"
  using node_fits by (simp add: algebra_simps)

lemma key_at_slot: "h a = Some (enc geo S) \<Longrightarrow> slots_ok geo S \<Longrightarrow> i < no_pairs geo \<Longrightarrow> key_at geo h (bkey geo a i) (fst (S ! i))"
  by (simp add: key_at_def bkey_def enc_key length_enc key_fits)

lemma bval_slot: "h a = Some (enc geo S) \<Longrightarrow> slots_ok geo S \<Longrightarrow> i < no_pairs geo \<Longrightarrow> bval geo a i h = Some (snd (S ! i))"
  by (simp add: bval_def ld_def load_def length_enc val_fits enc_val)

lemma setval_slot:
  "h a = Some (enc geo S) \<Longrightarrow> slots_ok geo S \<Longrightarrow> i < no_pairs geo \<Longrightarrow>
   setval geo a v i h = Some (h(a \<mapsto> enc geo (S[i := (fst (S ! i), v)])))"
  by (simp add: setval_def st_def store_def length_enc val_fits enc_val)

lemma setkeyb_slot:
  assumes "h a = Some (enc geo S)" "slots_ok geo S" "i < no_pairs geo" "key_at geo h p k" "fst p \<noteq> a"
  shows "setkeyb geo a p i h = Some (h(a \<mapsto> enc geo (S[i := (k, snd (S ! i))])))"
proof -
  have "longcpy (bkey geo a i) p (keylen geo) h = Some (h(fst (bkey geo a i) \<mapsto>
      take (snd (bkey geo a i)) (enc geo S) @ k @ drop (snd (bkey geo a i) + keylen geo) (enc geo S)))"
    by (rule longcpy_eq) (use assms in \<open>auto simp: bkey_def length_enc key_fits\<close>)
  then show ?thesis using assms(2,3) key_at_length [OF assms(4)] by (simp add: setkeyb_def bkey_def enc_key)
qed

lemma setkeyb_same:
  assumes "h a = Some (enc geo S)" "slots_ok geo S" "i < no_pairs geo" "j < no_pairs geo" "i \<noteq> j"
  shows "setkeyb geo a (bkey geo a j) i h = Some (h(a \<mapsto> enc geo (S[i := (fst (S ! j), snd (S ! i))])))"
proof -
  have "i * keylen geo + keylen geo \<le> j * keylen geo \<or> j * keylen geo + keylen geo \<le> i * keylen geo"
  proof (cases "i < j")
    case True
    then have "Suc i * keylen geo \<le> j * keylen geo" by (intro mult_le_mono1) simp
    then show ?thesis by simp
  next
    case False
    then have "Suc j * keylen geo \<le> i * keylen geo" using assms(5) by (intro mult_le_mono1) simp
    then show ?thesis by simp
  qed
  then have "longcpy (bkey geo a i) (bkey geo a j) (keylen geo) h = Some (h(fst (bkey geo a i) \<mapsto>
      take (snd (bkey geo a i)) (enc geo S) @ fst (S ! j) @ drop (snd (bkey geo a i) + keylen geo) (enc geo S)))"
    by (intro longcpy_eq) (use assms key_at_slot [of h a S j, OF assms(1,2,4)] in \<open>auto simp: bkey_def length_enc key_fits\<close>)
  then show ?thesis using assms slots_okD(2) [OF assms(2,4)] by (simp add: setkeyb_def bkey_def enc_key)
qed

lemma clearpair_slot:
  assumes "h a = Some (enc geo S)" "slots_ok geo S" "i < no_pairs geo"
  shows "clearpair geo a i h = Some (h(a \<mapsto> enc geo (S[i := zero_pair geo])))"
proof -
  let ?z = "replicate (keylen geo) 0" let ?S = "S[i := (?z, snd (S ! i))]" let ?h = "h(a \<mapsto> enc geo ?S)"
  have ok: "slots_ok geo ?S" using assms(2) by (simp add: slots_ok_upd)
  have "longset_from (bkey geo a i) 0 0 (keylen geo) h = Some (h(fst (bkey geo a i) \<mapsto>
      take (snd (bkey geo a i) + 0) (enc geo S) @ ?z @ drop (snd (bkey geo a i) + 0 + keylen geo) (enc geo S)))"
    by (rule longset_from_eq) (use assms in \<open>auto simp: bkey_def length_enc key_fits\<close>)
  then have "longset (bkey geo a i) 0 (keylen geo) h = Some ?h"
    using assms(2,3) by (simp add: longset_def bkey_def enc_key)
  moreover have "setval geo a 0 i ?h = Some (?h(a \<mapsto> enc geo (?S[i := (fst (?S ! i), 0)])))"
    by (rule setval_slot) (use ok assms(3) in simp_all)
  ultimately show ?thesis using assms slots_okD(1) [OF assms(2)]
    by (simp add: clearpair_def zero_pair_def setval_def [symmetric])
qed

lemma move_pair_slot:
  assumes "h dst = Some (enc geo D)" "slots_ok geo D" "h src = Some (enc geo S)" "slots_ok geo S"
    and "j < no_pairs geo" "i < no_pairs geo" "dst \<noteq> src"
  shows "move_pair geo dst j src i h = Some (h(dst \<mapsto> enc geo (D[j := S ! i])))"
proof -
  let ?D = "D[j := (fst (S ! i), snd (D ! j))]" let ?h = "h(dst \<mapsto> enc geo ?D)"
  have ok: "slots_ok geo ?D" using assms(2,4,6) by (simp add: slots_ok_upd slots_okD)
  have "setkeyb geo dst (bkey geo src i) j h = Some ?h"
    by (rule setkeyb_slot) (use assms key_at_slot [of h src S i, OF assms(3,4,6)] in \<open>auto simp: bkey_def\<close>)
  moreover have "bval geo src i ?h = Some (snd (S ! i))" by (rule bval_slot) (use assms in auto)
  moreover have "setval geo dst (snd (S ! i)) j ?h = Some (?h(dst \<mapsto> enc geo (?D[j := (fst (?D ! j), snd (S ! i))])))"
    by (rule setval_slot) (use ok assms(5) in simp_all)
  ultimately show ?thesis using assms(5) slots_okD(1) [OF assms(2)] by (simp add: move_pair_def)
qed

lemma move_pair_same:
  assumes "h a = Some (enc geo S)" "slots_ok geo S" "j < no_pairs geo" "i < no_pairs geo" "i \<noteq> j"
  shows "move_pair geo a j a i h = Some (h(a \<mapsto> enc geo (S[j := S ! i])))"
proof -
  let ?S = "S[j := (fst (S ! i), snd (S ! j))]" let ?h = "h(a \<mapsto> enc geo ?S)"
  have ok: "slots_ok geo ?S" using assms(2,4) by (simp add: slots_ok_upd slots_okD)
  have "setkeyb geo a (bkey geo a i) j h = Some ?h"
    by (rule setkeyb_same) (use assms in auto)
  moreover have "bval geo a i ?h = Some (snd (?S ! i))" by (rule bval_slot) (use assms ok in auto)
  moreover have "setval geo a (snd (S ! i)) j ?h = Some (?h(a \<mapsto> enc geo (?S[j := (fst (?S ! j), snd (S ! i))])))"
    by (rule setval_slot) (use ok assms(3) in simp_all)
  ultimately show ?thesis using assms(3,5) slots_okD(1) [OF assms(2)] by (simp add: move_pair_def)
qed

end

end
