(* ===== verification/Btree_Ops.thy ===== *)
theory Btree_Ops
  imports Btree_Node
begin

text \<open>
  The loops over the slots and the operations of \<^verbatim>\<open>btree.c\<close> on one node and on two neighbours, as
  equations on the lists of entries.
\<close>

section \<open>Loops over slots\<close>

lemma update_boundary: "i < length D \<Longrightarrow> (xs @ drop i D)[length xs := v] = (xs @ [v]) @ drop (Suc i) D"
  by (simp add: Cons_nth_drop_Suc [symmetric])

lemma update_boundary_down: "m < length D \<Longrightarrow> (take (Suc m) D @ ys)[m := v] = take m D @ v # ys"
  by (simp add: take_Suc_conv_app_nth list_update_append)

lemma take_Suc_drop: "s + i < length S \<Longrightarrow> take (Suc i) (drop s S) = take i (drop s S) @ [S ! (s + i)]"
  by (simp add: take_Suc_conv_app_nth)

context geometry
begin

lemma up_slots:
  assumes "a \<le> b" "slots_ok geo (F a)" "h x = Some (enc geo (F a))"
    and "\<And>i h'. a \<le> i \<Longrightarrow> i < b \<Longrightarrow> h' = h(x \<mapsto> enc geo (F i)) \<Longrightarrow> slots_ok geo (F i) \<Longrightarrow>
      f i h' = Some (h'(x \<mapsto> enc geo (F (Suc i)))) \<and> slots_ok geo (F (Suc i))"
  shows "for_up a b f h = Some (h(x \<mapsto> enc geo (F b))) \<and> slots_ok geo (F b)"
proof -
  have "\<exists>h'. for_up a b f h = Some h' \<and> (h' = h(x \<mapsto> enc geo (F b)) \<and> slots_ok geo (F b))"
  proof (rule for_up_inv [where P = "\<lambda>i h'. h' = h(x \<mapsto> enc geo (F i)) \<and> slots_ok geo (F i)"])
    show "h = h(x \<mapsto> enc geo (F a)) \<and> slots_ok geo (F a)" using assms(2,3) by (simp add: fun_upd_idem)
    show "\<exists>h''. f i h' = Some h'' \<and> (h'' = h(x \<mapsto> enc geo (F (Suc i))) \<and> slots_ok geo (F (Suc i)))"
      if "a \<le> i" "i < b" "h' = h(x \<mapsto> enc geo (F i)) \<and> slots_ok geo (F i)" for i h'
      using assms(4) [OF that(1,2)] that(3) by simp
  qed (rule assms(1))
  then show ?thesis by auto
qed

lemma down_slots:
  assumes "a \<le> b" "slots_ok geo (F b)" "h x = Some (enc geo (F b))"
    and "\<And>i h'. a \<le> i \<Longrightarrow> i < b \<Longrightarrow> h' = h(x \<mapsto> enc geo (F (Suc i))) \<Longrightarrow> slots_ok geo (F (Suc i)) \<Longrightarrow>
      f i h' = Some (h'(x \<mapsto> enc geo (F i))) \<and> slots_ok geo (F i)"
  shows "for_down a b f h = Some (h(x \<mapsto> enc geo (F a))) \<and> slots_ok geo (F a)"
proof -
  have "\<exists>h'. for_down a b f h = Some h' \<and> (h' = h(x \<mapsto> enc geo (F a)) \<and> slots_ok geo (F a))"
  proof (rule for_down_inv [where P = "\<lambda>i h'. h' = h(x \<mapsto> enc geo (F i)) \<and> slots_ok geo (F i)"])
    show "h = h(x \<mapsto> enc geo (F b)) \<and> slots_ok geo (F b)" using assms(2,3) by (simp add: fun_upd_idem)
    show "\<exists>h''. f i h' = Some h'' \<and> (h'' = h(x \<mapsto> enc geo (F i)) \<and> slots_ok geo (F i))"
      if "a \<le> i" "i < b" "h' = h(x \<mapsto> enc geo (F (Suc i))) \<and> slots_ok geo (F (Suc i))" for i h'
      using assms(4) [OF that(1,2)] that(3) by simp
  qed (rule assms(1))
  then show ?thesis by auto
qed

text \<open>Copying \<open>n\<close> pairs to another node\<close>

lemma copy_loop:
  assumes "h dst = Some (enc geo D)" "slots_ok geo D" "h src = Some (enc geo S)" "slots_ok geo S" "dst \<noteq> src"
    and "j + n \<le> no_pairs geo" "s + n \<le> no_pairs geo"
  shows "for_up 0 n (\<lambda>i. move_pair geo dst (j + i) src (s + i)) h =
      Some (h(dst \<mapsto> enc geo (take j D @ take n (drop s S) @ drop (j + n) D)))"
    and "slots_ok geo (take j D @ take n (drop s S) @ drop (j + n) D)"
proof -
  let ?F = "\<lambda>i. take j D @ take i (drop s S) @ drop (j + i) D"
  have l: "length D = no_pairs geo" "length S = no_pairs geo" using assms(2,4) by (simp_all add: slots_okD)
  have step: "(?F i)[j + i := S ! (s + i)] = ?F (Suc i)" if "i < n" for i
    using update_boundary [of "j + i" D "take j D @ take i (drop s S)" "S ! (s + i)"] that l assms(6,7)
    by (simp add: take_Suc_drop)
  have "for_up 0 n (\<lambda>i. move_pair geo dst (j + i) src (s + i)) h = Some (h(dst \<mapsto> enc geo (?F n))) \<and> slots_ok geo (?F n)"
  proof (rule up_slots [where F = ?F])
    fix i h' assume i: "i < n" "h' = h(dst \<mapsto> enc geo (?F i))" "slots_ok geo (?F i)"
    have "move_pair geo dst (j + i) src (s + i) h' = Some (h'(dst \<mapsto> enc geo ((?F i)[j + i := S ! (s + i)])))"
      by (rule move_pair_slot) (use i assms in auto)
    moreover have "slots_ok geo ((?F i)[j + i := S ! (s + i)])"
      using i assms by (intro slots_ok_upd) (simp_all add: slots_okD)
    ultimately show "move_pair geo dst (j + i) src (s + i) h' = Some (h'(dst \<mapsto> enc geo (?F (Suc i)))) \<and> slots_ok geo (?F (Suc i))"
      unfolding step [OF i(1)] by blast
  qed (use assms in simp_all)
  then show "for_up 0 n (\<lambda>i. move_pair geo dst (j + i) src (s + i)) h =
      Some (h(dst \<mapsto> enc geo (take j D @ take n (drop s S) @ drop (j + n) D)))"
    "slots_ok geo (take j D @ take n (drop s S) @ drop (j + n) D)" by simp_all
qed

text \<open>Shifting within a node\<close>

lemma shift_right_loop:
  assumes "h a = Some (enc geo D)" "slots_ok geo D" "p \<le> f" "f + n \<le> no_pairs geo" "1 \<le> n"
  shows "for_down p f (\<lambda>i. move_pair geo a (i + n) a i) h =
      Some (h(a \<mapsto> enc geo (take (p + n) D @ drop p (take f D) @ drop (f + n) D)))"
    and "slots_ok geo (take (p + n) D @ drop p (take f D) @ drop (f + n) D)"
proof -
  let ?F = "\<lambda>i. take (i + n) D @ drop i (take f D) @ drop (f + n) D"
  have l: "length D = no_pairs geo" using assms(2) by (simp add: slots_okD)
  have step: "(?F (Suc i))[i + n := ?F (Suc i) ! i] = ?F i" if "i < f" for i
  proof -
    have "?F (Suc i) ! i = D ! i" using that l assms(4) by (simp add: nth_append)
    moreover have "drop i (take f D) = D ! i # drop (Suc i) (take f D)" using that l assms(4)
      by (simp add: Cons_nth_drop_Suc [symmetric])
    ultimately show ?thesis
      using update_boundary_down [of "i + n" D "drop (Suc i) (take f D) @ drop (f + n) D" "D ! i"] that l assms(4) by simp
  qed
  have "for_down p f (\<lambda>i. move_pair geo a (i + n) a i) h = Some (h(a \<mapsto> enc geo (?F p))) \<and> slots_ok geo (?F p)"
  proof (rule down_slots [where F = ?F])
    fix i h' assume i: "i < f" "h' = h(a \<mapsto> enc geo (?F (Suc i)))" "slots_ok geo (?F (Suc i))"
    have "move_pair geo a (i + n) a i h' = Some (h'(a \<mapsto> enc geo ((?F (Suc i))[i + n := ?F (Suc i) ! i])))"
      by (rule move_pair_same) (use i assms in auto)
    moreover have "slots_ok geo ((?F (Suc i))[i + n := ?F (Suc i) ! i])"
      using i(1) assms(4) by (intro slots_ok_upd i(3) slots_okD(2) [OF i(3)]) simp_all
    ultimately show "move_pair geo a (i + n) a i h' = Some (h'(a \<mapsto> enc geo (?F i))) \<and> slots_ok geo (?F i)"
      unfolding step [OF i(1)] by blast
  qed (use assms in simp_all)
  then show "for_down p f (\<lambda>i. move_pair geo a (i + n) a i) h =
      Some (h(a \<mapsto> enc geo (take (p + n) D @ drop p (take f D) @ drop (f + n) D)))"
    "slots_ok geo (take (p + n) D @ drop p (take f D) @ drop (f + n) D)" by simp_all
qed

lemma shift_left_loop:
  assumes "h a = Some (enc geo D)" "slots_ok geo D" "p \<le> f" "f + n \<le> no_pairs geo" "1 \<le> n"
  shows "for_up p f (\<lambda>i. move_pair geo a i a (i + n)) h =
      Some (h(a \<mapsto> enc geo (take p D @ take (f - p) (drop (p + n) D) @ drop f D)))"
    and "slots_ok geo (take p D @ take (f - p) (drop (p + n) D) @ drop f D)"
proof -
  let ?F = "\<lambda>i. take p D @ take (i - p) (drop (p + n) D) @ drop i D"
  have l: "length D = no_pairs geo" using assms(2) by (simp add: slots_okD)
  have step: "(?F i)[i := ?F i ! (i + n)] = ?F (Suc i)" if "p \<le> i" "i < f" for i
  proof -
    have "\<not> i + n - p < i - p" using that by linarith
    then have "?F i ! (i + n) = D ! (i + n)" using that l assms(4) by (simp add: nth_append)
    moreover have "take (Suc i - p) (drop (p + n) D) = take (i - p) (drop (p + n) D) @ [D ! (i + n)]"
      using that l assms(4) take_Suc_drop [of "p + n" "i - p" D] by (simp add: Suc_diff_le add.commute)
    ultimately show ?thesis
      using update_boundary [of i D "take p D @ take (i - p) (drop (p + n) D)" "D ! (i + n)"] that l assms(4) by simp
  qed
  have "for_up p f (\<lambda>i. move_pair geo a i a (i + n)) h = Some (h(a \<mapsto> enc geo (?F f))) \<and> slots_ok geo (?F f)"
  proof (rule up_slots [where F = ?F])
    fix i h' assume i: "p \<le> i" "i < f" "h' = h(a \<mapsto> enc geo (?F i))" "slots_ok geo (?F i)"
    have "move_pair geo a i a (i + n) h' = Some (h'(a \<mapsto> enc geo ((?F i)[i := ?F i ! (i + n)])))"
      by (rule move_pair_same) (use i assms in auto)
    moreover have "slots_ok geo ((?F i)[i := ?F i ! (i + n)])"
      using i(2) assms(4) by (intro slots_ok_upd i(4) slots_okD(2) [OF i(4)]) simp_all
    ultimately show "move_pair geo a i a (i + n) h' = Some (h'(a \<mapsto> enc geo (?F (Suc i)))) \<and> slots_ok geo (?F (Suc i))"
      unfolding step [OF i(1,2)] by blast
  qed (use assms in simp_all)
  then show "for_up p f (\<lambda>i. move_pair geo a i a (i + n)) h =
      Some (h(a \<mapsto> enc geo (take p D @ take (f - p) (drop (p + n) D) @ drop f D)))"
    "slots_ok geo (take p D @ take (f - p) (drop (p + n) D) @ drop f D)" by simp_all
qed

lemma length_zero_pair [simp]: "length (fst (zero_pair geo)) = keylen geo"
  by (simp add: zero_pair_def)

lemma clear_loop:
  assumes "h a = Some (enc geo D)" "slots_ok geo D" "p \<le> f" "f \<le> no_pairs geo"
  shows "for_up p f (clearpair geo a) h = Some (h(a \<mapsto> enc geo (take p D @ replicate (f - p) (zero_pair geo) @ drop f D)))"
    and "slots_ok geo (take p D @ replicate (f - p) (zero_pair geo) @ drop f D)"
proof -
  let ?F = "\<lambda>i. take p D @ replicate (i - p) (zero_pair geo) @ drop i D"
  have l: "length D = no_pairs geo" using assms(2) by (simp add: slots_okD)
  have step: "(?F i)[i := zero_pair geo] = ?F (Suc i)" if "p \<le> i" "i < f" for i
    using update_boundary [of i D "take p D @ replicate (i - p) (zero_pair geo)" "zero_pair geo"] that l assms(4)
    by (simp add: Suc_diff_le replicate_append_same)
  have "for_up p f (clearpair geo a) h = Some (h(a \<mapsto> enc geo (?F f))) \<and> slots_ok geo (?F f)"
  proof (rule up_slots [where F = ?F])
    fix i h' assume i: "p \<le> i" "i < f" "h' = h(a \<mapsto> enc geo (?F i))" "slots_ok geo (?F i)"
    have "clearpair geo a i h' = Some (h'(a \<mapsto> enc geo ((?F i)[i := zero_pair geo])))"
      by (rule clearpair_slot) (use i assms in auto)
    moreover have "slots_ok geo ((?F i)[i := zero_pair geo])" by (intro slots_ok_upd i(4)) simp
    ultimately show "clearpair geo a i h' = Some (h'(a \<mapsto> enc geo (?F (Suc i)))) \<and> slots_ok geo (?F (Suc i))"
      unfolding step [OF i(1,2)] by blast
  qed (use assms in simp_all)
  then show "for_up p f (clearpair geo a) h = Some (h(a \<mapsto> enc geo (take p D @ replicate (f - p) (zero_pair geo) @ drop f D)))"
    "slots_ok geo (take p D @ replicate (f - p) (zero_pair geo) @ drop f D)" by simp_all
qed

end

section \<open>Nodes\<close>

text \<open>The slots of a node with the entries \<open>es\<close>\<close>

definition pad_slots :: "btree_geo \<Rightarrow> pair list \<Rightarrow> pair list" where
  "pad_slots geo es = es @ replicate (no_pairs geo - length es) (zero_pair geo)"

definition entries_ok :: "btree_geo \<Rightarrow> pair list \<Rightarrow> bool" where
  "entries_ok geo es \<longleftrightarrow> length es \<le> no_pairs geo \<and> (\<forall>e \<in> set es. length (fst e) = keylen geo \<and> snd e \<noteq> 0)"

definition node_at :: "btree_geo \<Rightarrow> bheap \<Rightarrow> u64 \<Rightarrow> pair list \<Rightarrow> bool" where
  "node_at geo h a es \<longleftrightarrow> h a = Some (enc geo (pad_slots geo es)) \<and> entries_ok geo es"

definition node_block :: "btree_geo \<Rightarrow> pair list \<Rightarrow> u64 list" where
  "node_block geo es = enc geo (pad_slots geo es)"

lemma pad_nth: "i < length es \<Longrightarrow> pad_slots geo es ! i = es ! i"
  by (simp add: pad_slots_def nth_append)

lemma length_pad: "length es \<le> no_pairs geo \<Longrightarrow> length (pad_slots geo es) = no_pairs geo"
  by (simp add: pad_slots_def)

lemma pad_nth_zero: "length es \<le> i \<Longrightarrow> i < no_pairs geo \<Longrightarrow> pad_slots geo es ! i = zero_pair geo"
  by (simp add: pad_slots_def nth_append)

lemma entries_okD:
  assumes "entries_ok geo es"
  shows "length es \<le> no_pairs geo" "e \<in> set es \<Longrightarrow> length (fst e) = keylen geo" "e \<in> set es \<Longrightarrow> snd e \<noteq> 0"
    and "i < length es \<Longrightarrow> length (fst (es ! i)) = keylen geo" "i < length es \<Longrightarrow> snd (es ! i) \<noteq> 0"
  using assms by (auto simp: entries_ok_def)

lemma entries_ok_Nil [simp]: "entries_ok geo []"
  by (simp add: entries_ok_def)

lemma node_at_other: "node_at geo h a es \<Longrightarrow> h' a = h a \<Longrightarrow> node_at geo h' a es"
  by (simp add: node_at_def)

lemma node_at_upd [simp]: "node_at geo (h(a \<mapsto> node_block geo es)) b fs \<longleftrightarrow>
    (if b = a then node_block geo es = node_block geo fs \<and> entries_ok geo fs else node_at geo h b fs)"
  by (simp add: node_at_def node_block_def)

context geometry
begin

lemma zero_pair_ok: "length (fst (zero_pair geo)) = keylen geo"
  by (simp add: zero_pair_def)

lemma slots_ok_pad: "entries_ok geo es \<Longrightarrow> slots_ok geo (pad_slots geo es)"
  by (auto simp: slots_ok_def entries_ok_def pad_slots_def zero_pair_def)

lemma node_atD: "node_at geo h a es \<Longrightarrow> h a = Some (enc geo (pad_slots geo es))" "node_at geo h a es \<Longrightarrow> slots_ok geo (pad_slots geo es)"
    "node_at geo h a es \<Longrightarrow> entries_ok geo es" "node_at geo h a es \<Longrightarrow> length es \<le> no_pairs geo"
  by (simp_all add: node_at_def slots_ok_pad entries_okD)

lemma node_at_key: "node_at geo h a es \<Longrightarrow> i < length es \<Longrightarrow> key_at geo h (bkey geo a i) (fst (es ! i))"
  using key_at_slot [of h a "pad_slots geo es" i] node_atD [of h a es] by (simp add: pad_nth)

lemma node_at_val: "node_at geo h a es \<Longrightarrow> i < length es \<Longrightarrow> bval geo a i h = Some (snd (es ! i))"
  using bval_slot [of h a "pad_slots geo es" i] node_atD [of h a es] by (simp add: pad_nth)

lemma node_at_zero: "node_at geo h a es \<Longrightarrow> length es \<le> i \<Longrightarrow> i < no_pairs geo \<Longrightarrow> bval geo a i h = Some 0"
  using bval_slot [of h a "pad_slots geo es" i] node_atD [of h a es] by (simp add: pad_nth_zero) (simp add: zero_pair_def)

lemma node_at_keycmp:
  "node_at geo h a es \<Longrightarrow> key_at geo h p k \<Longrightarrow> i < length es \<Longrightarrow> keycmp geo a i p h = Some (order_of (fst (es ! i)) k)"
  unfolding keycmp_def by (rule longcmp_eq) (simp_all add: node_at_key)

lemma node_at_keycmp_zero:
  assumes "node_at geo h a es" "key_at geo h p k" "length es \<le> i" "i < no_pairs geo"
  shows "keycmp geo a i p h = Some (order_of (replicate (keylen geo) 0) k)"
proof -
  have "key_at geo h (bkey geo a i) (fst (pad_slots geo es ! i))"
    by (rule key_at_slot) (use node_atD [OF assms(1)] assms(4) in simp_all)
  then have "key_at geo h (bkey geo a i) (replicate (keylen geo) 0)"
    using pad_nth_zero [OF assms(3,4)] by (simp add: zero_pair_def)
  then show ?thesis unfolding keycmp_def using assms(2) by (rule longcmp_eq)
qed

lemma getfill_node:
  assumes "node_at geo h a es" "i \<le> length es"
  shows "getfill geo a i h = Some (length es)"
  using assms(2)
proof (induction i rule: inc_induct)
  case base
  show ?case using node_at_zero [OF assms(1), of "length es"] node_atD(4) [OF assms(1)]
    by (subst getfill.simps) auto
next
  case (step i)
  then show ?case using node_at_val [OF assms(1), of i] node_atD(4) [OF assms(1)] entries_okD(5) [OF node_atD(3) [OF assms(1)]]
    by (subst getfill.simps) simp
qed

lemma getpos_node:
  assumes "node_at geo h a es" "key_at geo h p k"
  shows "getpos geo a p h = Some (length (takeWhile (\<lambda>e. k < fst e) es))"
proof -
  let ?n = "length (takeWhile (\<lambda>e. k < fst e) es)"
  have n: "?n \<le> length es" by (rule length_takeWhile_le)
  have le: "length es \<le> no_pairs geo" by (rule node_atD(4) [OF assms(1)])
  have "getpos_from geo a p i h = Some ?n" if "i \<le> ?n" for i
    using that
  proof (induction i rule: inc_induct)
    case base
    show ?case
    proof (cases "?n < length es")
      case True
      then have "\<not> k < fst (es ! ?n)" by (rule nth_length_takeWhile)
      then show ?thesis using node_at_keycmp [OF assms True] True le
        by (subst getpos_from.simps) (simp add: not_less)
    next
      case False
      then have e: "?n = length es" using n by simp
      have "order_of (replicate (keylen geo) 0) k \<le> 0"
        using replicate_zero_le [of k] key_at_length [OF assms(2)] by simp
      then show ?thesis using node_at_keycmp_zero [OF assms, of ?n] e le
        by (subst getpos_from.simps) auto
    qed
  next
    case (step i)
    then have i: "i < length es" using n by simp
    have "takeWhile (\<lambda>e. k < fst e) es ! i = es ! i" using step.hyps(2) by (rule takeWhile_nth)
    moreover have "takeWhile (\<lambda>e. k < fst e) es ! i \<in> set (takeWhile (\<lambda>e. k < fst e) es)" using step.hyps(2) by (rule nth_mem)
    ultimately have "k < fst (es ! i)" using set_takeWhileD by metis
    then have "\<not> order_of (fst (es ! i)) k \<le> 0" by simp
    then show ?case using node_at_keycmp [OF assms i] step.IH le i by (subst getpos_from.simps) simp
  qed
  then show ?thesis by (simp add: getpos_def)
qed

text \<open>Equality of the last loop of the lookup: the first entry with the key\<close>

lemma lookup_leaf_node:
  assumes "node_at geo h a es" "key_at geo h p k" "i \<le> length es"
  shows "lookup_leaf geo a p i h = Some (case map_of (drop i es) k of Some v \<Rightarrow> v | None \<Rightarrow> 0)"
proof -
  have le: "length es \<le> no_pairs geo" by (rule node_atD(4) [OF assms(1)])
  have z: "lookup_leaf geo a p i h = Some 0" if "length es \<le> i" "i \<le> no_pairs geo" for i
    using that(2,1)
  proof (induction i rule: inc_induct)
    case base
    show ?case by (subst lookup_leaf.simps) simp
  next
    case (step i)
    then show ?case using node_at_keycmp_zero [OF assms(1,2), of i] node_at_zero [OF assms(1), of i]
      by (subst lookup_leaf.simps) simp
  qed
  show ?thesis using assms(3)
  proof (induction i rule: inc_induct)
    case base
    show ?case using z [of "length es"] le by simp
  next
    case (step i)
    have "drop i es = es ! i # drop (Suc i) es" using step.hyps(2) by (simp add: Cons_nth_drop_Suc)
    then show ?case using step le node_at_keycmp [OF assms(1,2) step.hyps(2)] node_at_val [OF assms(1) step.hyps(2)]
      by (subst lookup_leaf.simps) (simp add: map_of_Cons_code(2) split: prod.splits)
  qed
qed

end

section \<open>Operations on nodes\<close>

lemma take_pad: "n \<le> length es \<Longrightarrow> take n (pad_slots geo es) = take n es"
  by (simp add: pad_slots_def)

lemma drop_pad: "length es \<le> n \<Longrightarrow> drop n (pad_slots geo es) = replicate (no_pairs geo - n) (zero_pair geo)"
  by (simp add: pad_slots_def)

lemma drop_pad': "n \<le> length es \<Longrightarrow> drop n (pad_slots geo es) = drop n es @ replicate (no_pairs geo - length es) (zero_pair geo)"
  by (simp add: pad_slots_def)

lemma entries_ok_Cons [simp]:
  "entries_ok geo (e # es) \<longleftrightarrow> length es < no_pairs geo \<and> length (fst e) = keylen geo \<and> snd e \<noteq> 0 \<and> entries_ok geo es"
  by (auto simp: entries_ok_def)

lemma entries_ok_append [simp]:
  "entries_ok geo (es @ fs) \<longleftrightarrow> length es + length fs \<le> no_pairs geo \<and> entries_ok geo es \<and> entries_ok geo fs"
  by (auto simp: entries_ok_def)

lemma entries_ok_take [simp]: "entries_ok geo es \<Longrightarrow> entries_ok geo (take n es)"
  by (auto simp: entries_ok_def dest: in_set_takeD)

lemma entries_ok_drop [simp]: "entries_ok geo es \<Longrightarrow> entries_ok geo (drop n es)"
  by (auto simp: entries_ok_def dest: in_set_dropD)

lemma entries_ok_upd [simp]: "entries_ok geo es \<Longrightarrow> length (fst e) = keylen geo \<Longrightarrow> snd e \<noteq> 0 \<Longrightarrow> entries_ok geo (es[i := e])"
  by (auto simp: entries_ok_def dest!: subsetD [OF set_update_subset_insert])

lemma pad_upd: "i < length es \<Longrightarrow> (pad_slots geo es)[i := e] = pad_slots geo (es[i := e])"
  by (simp add: pad_slots_def list_update_append)

context geometry
begin

lemma setkeyb_node:
  assumes "node_at geo h a es" "i < length es" "key_at geo h p k" "fst p \<noteq> a"
  shows "setkeyb geo a p i h = Some (h(a \<mapsto> node_block geo (es[i := (k, snd (es ! i))])))"
  using setkeyb_slot [OF node_atD(1,2) [OF assms(1)] _ assms(3,4), of i] assms(2) node_atD(4) [OF assms(1)]
  by (simp add: pad_upd pad_nth node_block_def)

lemma setval_node:
  assumes "node_at geo h a es" "i < length es"
  shows "setval geo a v i h = Some (h(a \<mapsto> node_block geo (es[i := (fst (es ! i), v)])))"
  using setval_slot [of h a "pad_slots geo es" i v, OF node_atD(1,2) [OF assms(1)]] assms(2) node_atD(4) [OF assms(1)]
  by (simp add: pad_upd pad_nth node_block_def)

lemma insert_pair_node:
  assumes "node_at geo h a es" "length es < no_pairs geo" "pos \<le> length es" "key_at geo h p k" "fst p \<noteq> a"
  shows "insert_pair geo a p v pos (length es) h = Some (h(a \<mapsto> node_block geo (take pos es @ (k, v) # drop pos es)))"
proof -
  let ?D = "take (pos + 1) (pad_slots geo es) @ drop pos (take (length es) (pad_slots geo es)) @ drop (length es + 1) (pad_slots geo es)"
  let ?h = "h(a \<mapsto> enc geo ?D)" let ?D' = "?D[pos := (k, snd (?D ! pos))]"
  note n = node_atD [OF assms(1)] and k = key_at_length [OF assms(4)]
  have sh: "for_down pos (length es) (\<lambda>i. move_pair geo a (i + 1) a i) h = Some ?h" and ok: "slots_ok geo ?D"
    by (rule shift_right_loop; use n assms in simp)+
  have p: "pos < no_pairs geo" using assms(2,3) by simp
  have "setkeyb geo a p pos ?h = Some (?h(a \<mapsto> enc geo ?D'))"
    by (rule setkeyb_slot) (use ok p assms(5) key_at_other [OF assms(4), of ?h] in simp_all)
  moreover have "setval geo a v pos (?h(a \<mapsto> enc geo ?D')) = Some (?h(a \<mapsto> enc geo ?D', a \<mapsto> enc geo (?D'[pos := (fst (?D' ! pos), v)])))"
    by (rule setval_slot) (use ok p k in \<open>simp_all add: slots_ok_upd\<close>)
  moreover have "?D'[pos := (fst (?D' ! pos), v)] = ?D[pos := (k, v)]" using p slots_okD(1) [OF ok] by simp
  moreover have "?D[pos := (k, v)] = pad_slots geo (take pos es @ (k, v) # drop pos es)"
    using update_boundary_down [of pos "pad_slots geo es" "drop pos es @ drop (length es + 1) (pad_slots geo es)" "(k, v)"] p assms(3) length_pad [OF n(4)]
    by (simp add: take_pad drop_pad) (simp add: pad_slots_def)
  ultimately show ?thesis using sh by (simp add: insert_pair_def node_block_def)
qed

lemma remove_pair_node:
  assumes "node_at geo h a es" "pos < length es"
  shows "remove_pair geo a pos (length es) h = Some (h(a \<mapsto> node_block geo (take pos es @ drop (Suc pos) es)))"
proof -
  let ?f = "length es - 1"
  let ?D = "take pos (pad_slots geo es) @ take (?f - pos) (drop (pos + 1) (pad_slots geo es)) @ drop ?f (pad_slots geo es)"
  note n = node_atD [OF assms(1)]
  have sh: "for_up pos ?f (\<lambda>i. move_pair geo a i a (i + 1)) h = Some (h(a \<mapsto> enc geo ?D))" and ok: "slots_ok geo ?D"
    by (rule shift_left_loop; use n assms in simp)+
  have cl: "clearpair geo a ?f (h(a \<mapsto> enc geo ?D)) = Some (h(a \<mapsto> enc geo ?D, a \<mapsto> enc geo (?D[?f := zero_pair geo])))"
    by (rule clearpair_slot) (use ok n assms in simp_all)
  have "take (?f - pos) (drop (pos + 1) (pad_slots geo es)) = drop (Suc pos) es"
    using assms(2) by (simp add: pad_slots_def)
  moreover have "Suc ?f = length es" using assms(2) by simp
  moreover have "zero_pair geo # replicate (no_pairs geo - length es) (zero_pair geo) = replicate (no_pairs geo - ?f) (zero_pair geo)"
    using assms(2) n(4) by (simp flip: replicate_Suc add: Suc_diff_le)
  ultimately have "?D[?f := zero_pair geo] = pad_slots geo (take pos es @ drop (Suc pos) es)"
    using update_boundary [of ?f "pad_slots geo es" "take pos es @ drop (Suc pos) es" "zero_pair geo"] assms(2) n(4) length_pad [OF n(4)]
    by (simp add: take_pad drop_pad) (simp add: pad_slots_def)
  then show ?thesis using sh cl assms(2) by (cases "length es") (simp_all add: remove_pair_def node_block_def)
qed

text \<open>The entries of a node moved to the end of another: the first loop of \<open>merge\<close> and of \<open>steal_r\<close>\<close>

lemma append_node:
  assumes "node_at geo h a es" "node_at geo h b fs" "a \<noteq> b" "length es + n \<le> no_pairs geo" "n \<le> length fs"
  shows "for_up 0 n (\<lambda>i. move_pair geo a (length es + i) b i) h = Some (h(a \<mapsto> node_block geo (es @ take n fs)))"
proof -
  note na = node_atD [OF assms(1)] and nb = node_atD [OF assms(2)]
  have "for_up 0 n (\<lambda>i. move_pair geo a (length es + i) b (0 + i)) h = Some (h(a \<mapsto> enc geo
      (take (length es) (pad_slots geo es) @ take n (drop 0 (pad_slots geo fs)) @ drop (length es + n) (pad_slots geo es))))"
    by (rule copy_loop(1)) (use na nb assms in simp_all)
  then show ?thesis using assms(4,5) by (simp add: take_pad drop_pad node_block_def pad_slots_def)
qed

lemma clear_node:
  assumes "node_at geo h a es" "p \<le> length es"
  shows "for_up p (length es) (clearpair geo a) h = Some (h(a \<mapsto> node_block geo (take p es)))"
proof -
  note n = node_atD [OF assms(1)]
  have "for_up p (length es) (clearpair geo a) h = Some (h(a \<mapsto> enc geo
      (take p (pad_slots geo es) @ replicate (length es - p) (zero_pair geo) @ drop (length es) (pad_slots geo es))))"
    by (rule clear_loop(1)) (use n assms in simp_all)
  then show ?thesis using assms(2) n(4) by (simp add: take_pad drop_pad node_block_def pad_slots_def flip: replicate_add)
qed

lemma steal_l_node:
  assumes "node_at geo h l es" "node_at geo h r fs" "node_at geo h q ps" "l \<noteq> r" "q \<noteq> l" "q \<noteq> r"
    and "1 \<le> n" "n < length es" "n + length fs \<le> no_pairs geo" "i < length ps"
  shows "steal_l geo l (length es) r (length fs) q i n h = Some (h
    (r \<mapsto> node_block geo (drop (length es - n) es @ fs),
     q \<mapsto> node_block geo (ps[i := (fst (es ! (length es - n - 1)), snd (ps ! i))]),
     l \<mapsto> node_block geo (take (length es - n) es)))"
proof -
  note nl = node_atD [OF assms(1)] and nr = node_atD [OF assms(2)] and nq = node_atD [OF assms(3)]
  let ?D = "take (0 + n) (pad_slots geo fs) @ drop 0 (take (length fs) (pad_slots geo fs)) @ drop (length fs + n) (pad_slots geo fs)"
  let ?D' = "take 0 ?D @ take n (drop (length es - n) (pad_slots geo es)) @ drop (0 + n) ?D"
  let ?h1 = "h(r \<mapsto> enc geo ?D)" let ?h2 = "?h1(r \<mapsto> enc geo ?D')"
  let ?h3 = "?h2(q \<mapsto> node_block geo (ps[i := (fst (es ! (length es - n - 1)), snd (ps ! i))]))"
  have 1: "for_down 0 (length fs) (\<lambda>i. move_pair geo r (i + n) r i) h = Some ?h1" and ok: "slots_ok geo ?D"
    by (rule shift_right_loop; use nr assms in simp)+
  have 2: "for_up 0 n (\<lambda>i. move_pair geo r (0 + i) l (length es - n + i)) ?h1 = Some ?h2"
    by (rule copy_loop) (use nl ok assms in simp_all)
  have D': "?D' = pad_slots geo (drop (length es - n) es @ fs)"
    using assms(8,9) by (simp add: take_pad drop_pad') (simp add: pad_slots_def add.commute)
  have 3: "setkeyb geo q (bkey geo l (length es - n - 1)) i ?h2 = Some ?h3"
  proof (rule setkeyb_node)
    show "node_at geo ?h2 q ps" using assms(3) by (rule node_at_other) (use assms in simp)
    show "key_at geo ?h2 (bkey geo l (length es - n - 1)) (fst (es ! (length es - n - 1)))"
      by (rule node_at_key, rule node_at_other [OF assms(1)]) (use assms in simp_all)
  qed (use assms in \<open>simp_all add: bkey_def\<close>)
  have 4: "for_up (length es - n) (length es) (clearpair geo l) ?h3 = Some (?h3(l \<mapsto> node_block geo (take (length es - n) es)))"
    by (rule clear_node, rule node_at_other [OF assms(1)]) (use assms in simp_all)
  have "?h2 = h(r \<mapsto> node_block geo (drop (length es - n) es @ fs))" unfolding D' by (simp add: node_block_def)
  then show ?thesis using 1 2 3 4 by (simp add: steal_l_def)
qed

lemma steal_r_node:
  assumes "node_at geo h l es" "node_at geo h r fs" "node_at geo h q ps" "l \<noteq> r" "q \<noteq> l" "q \<noteq> r"
    and "1 \<le> n" "n < length fs" "length es + n \<le> no_pairs geo" "i < length ps"
  shows "steal_r geo l (length es) r (length fs) q i n h = Some (h
    (l \<mapsto> node_block geo (es @ take n fs),
     q \<mapsto> node_block geo (ps[i := (fst (fs ! (n - 1)), snd (ps ! i))]),
     r \<mapsto> node_block geo (drop n fs)))"
proof -
  note nl = node_atD [OF assms(1)] and nr = node_atD [OF assms(2)] and nq = node_atD [OF assms(3)]
  let ?h1 = "h(l \<mapsto> node_block geo (es @ take n fs))"
  let ?h2 = "?h1(q \<mapsto> node_block geo (ps[i := (fst (fs ! (n - 1)), snd (ps ! i))]))"
  let ?m = "length fs - n"
  let ?D = "take 0 (pad_slots geo fs) @ take (?m - 0) (drop (0 + n) (pad_slots geo fs)) @ drop ?m (pad_slots geo fs)"
  let ?h3 = "?h2(r \<mapsto> enc geo ?D)"
  have 1: "for_up 0 n (\<lambda>i. move_pair geo l (length es + i) r i) h = Some ?h1"
    by (rule append_node) (use assms in simp_all)
  have 2: "setkeyb geo q (bkey geo r (n - 1)) i ?h1 = Some ?h2"
  proof (rule setkeyb_node)
    show "node_at geo ?h1 q ps" using assms(3) by (rule node_at_other) (use assms in simp)
    show "key_at geo ?h1 (bkey geo r (n - 1)) (fst (fs ! (n - 1)))"
      by (rule node_at_key, rule node_at_other [OF assms(2)]) (use assms in simp_all)
  qed (use assms in \<open>simp_all add: bkey_def\<close>)
  have r2: "node_at geo ?h2 r fs" using assms(2) by (rule node_at_other) (use assms in simp)
  note n2 = node_atD [OF r2]
  have "for_up n (length fs) (\<lambda>i. move_pair geo r (i - n) r i) ?h2 = for_up (0 + n) (?m + n) (\<lambda>i. move_pair geo r (i - n) r i) ?h2"
    using assms(8) by simp
  also have "\<dots> = for_up 0 ?m (\<lambda>i. move_pair geo r i r (i + n)) ?h2" by (simp only: for_up_add add_diff_cancel_right')
  also have "\<dots> = Some ?h3" by (rule shift_left_loop) (use n2 assms in simp_all)
  finally have 3: "for_up n (length fs) (\<lambda>i. move_pair geo r (i - n) r i) ?h2 = Some ?h3" .
  have ok: "slots_ok geo ?D" by (rule shift_left_loop(2)) (use n2 assms in simp_all)
  have "for_up ?m (length fs) (clearpair geo r) ?h3 = Some (?h3(r \<mapsto> enc geo (take ?m ?D @ replicate (length fs - ?m) (zero_pair geo) @ drop (length fs) ?D)))"
    by (rule clear_loop) (use ok n2 assms in simp_all)
  moreover have "take ?m ?D @ replicate (length fs - ?m) (zero_pair geo) @ drop (length fs) ?D = pad_slots geo (drop n fs)"
    using assms(8) nr(4) by (simp add: drop_pad) (simp add: pad_slots_def flip: replicate_add)
  ultimately show ?thesis using 1 2 3 by (simp add: steal_r_def node_block_def)
qed

text \<open>\<open>split\<close> of a full node\<close>

lemma split_step:
  fixes z :: 'a
  assumes "length es = n" "i < m" "i + m < n"
  defines "B \<equiv> \<lambda>i. take i (drop m es) @ take (m - i) (drop i es) @ replicate i z @ drop (m + i) es"
  shows "B i ! i = es ! i" "B i ! (i + m) = es ! (i + m)" "((B i)[i := es ! (i + m)])[i + m := z] = B (Suc i)"
proof -
  let ?X = "take i (drop m es)" let ?Y = "take (m - Suc i) (drop (Suc i) es)" let ?W = "drop (Suc (m + i)) es"
  have 1: "take (m - i) (drop i es) = es ! i # ?Y"
    using assms by (metis Cons_nth_drop_Suc Suc_diff_Suc Suc_lessD add_lessD1 take_Suc_Cons)
  have 2: "drop (m + i) es = es ! (i + m) # ?W" using assms(1,3) by (simp add: Cons_nth_drop_Suc add.commute)
  have B: "B i = ?X @ es ! i # ?Y @ replicate i z @ es ! (i + m) # ?W" unfolding B_def 1 2 by simp
  have lX: "length ?X = i" and lY: "length ?Y = m - Suc i" using assms(1-3) by simp_all
  have len: "length (?X @ v # ?Y @ replicate i z) = i + m" for v using lX lY assms(2) by simp
  show "B i ! i = es ! i" unfolding B using lX by (metis nth_append_length)
  have B': "B i = (?X @ es ! i # ?Y @ replicate i z) @ es ! (i + m) # ?W" unfolding B by simp
  show "B i ! (i + m) = es ! (i + m)" unfolding B' by (metis len nth_append_length)
  have "(B i)[i := es ! (i + m)] = (?X @ es ! (i + m) # ?Y @ replicate i z) @ es ! (i + m) # ?W"
    unfolding B using lX by (metis append.assoc append_Cons list_update_length)
  then have "((B i)[i := es ! (i + m)])[i + m := z] = (?X @ es ! (i + m) # ?Y @ replicate i z) @ z # ?W"
    by (metis len list_update_length)
  moreover have "take (Suc i) (drop m es) = ?X @ [es ! (i + m)]"
    using take_Suc_drop [of m i es] assms(1,3) by (simp add: add.commute)
  ultimately show "((B i)[i := es ! (i + m)])[i + m := z] = B (Suc i)"
    unfolding B_def by (simp add: replicate_app_Cons_same)
qed

lemma split_move_node:
  assumes "node_at geo h a es" "length es = no_pairs geo" "node_at geo h b []" "a \<noteq> b"
  shows "split_move geo a b (no_pairs geo) h = Some (h
    (b \<mapsto> node_block geo (take (no_pairs geo div 2) es), a \<mapsto> node_block geo (drop (no_pairs geo div 2) es)))"
proof -
  let ?m = "no_pairs geo div 2" let ?z = "zero_pair geo" let ?N = "no_pairs geo"
  let ?A = "\<lambda>i. take i es @ drop i (replicate ?N ?z)"
  let ?B = "\<lambda>i. take i (drop ?m es) @ take (?m - i) (drop i es) @ replicate i ?z @ drop (?m + i) es"
  let ?body = "\<lambda>i h. Option.bind (move_pair geo b i a i h) (\<lambda>h. Option.bind (move_pair geo a i a (i + ?m) h) (clearpair geo a (i + ?m)))"
  have N: "?m \<ge> 2" "?m + ?m \<le> ?N" using no_pairs_4 by simp_all
  have pe: "pad_slots geo es = es" "pad_slots geo [] = replicate ?N ?z" using assms(2) by (simp_all add: pad_slots_def)
  note na = node_atD [OF assms(1), unfolded pe] and nb = node_atD [OF assms(3), unfolded pe]
  let ?P = "\<lambda>i h'. h' = h(b \<mapsto> enc geo (?A i), a \<mapsto> enc geo (?B i)) \<and> slots_ok geo (?A i) \<and> slots_ok geo (?B i)"
  have body: "\<exists>h''. ?body i h' = Some h'' \<and> ?P (Suc i) h''" if i: "i < ?m" and P: "?P i h'" for i h'
  proof -
    have im: "i + ?m < ?N" "i < ?N" "?m \<noteq> 0" using i N by simp_all
    note s = split_step [OF assms(2) i im(1), of ?z]
    note okA = conjunct1 [OF conjunct2 [OF P]] and okB = conjunct2 [OF conjunct2 [OF P]]
    have A: "(?A i)[i := es ! i] = ?A (Suc i)"
      using update_boundary [of i "replicate ?N ?z" "take i es" "es ! i"] im(2) assms(2)
      by (simp add: take_Suc_conv_app_nth del: drop_replicate)
    have okA': "slots_ok geo ((?A i)[i := es ! i])"
      by (rule slots_ok_upd [OF okA]) (use slots_okD(2) [OF na(2) im(2)] in simp)
    have okB': "slots_ok geo ((?B i)[i := es ! (i + ?m)])"
      by (rule slots_ok_upd [OF okB]) (use slots_okD(2) [OF na(2) im(1)] in simp)
    let ?h1 = "h'(b \<mapsto> enc geo ((?A i)[i := es ! i]))"
    let ?h2 = "?h1(a \<mapsto> enc geo ((?B i)[i := es ! (i + ?m)]))"
    have "move_pair geo b i a i h' = Some (h'(b \<mapsto> enc geo ((?A i)[i := ?B i ! i])))"
      by (rule move_pair_slot) (use P im assms(4) in simp_all)
    then have 1: "move_pair geo b i a i h' = Some ?h1" unfolding s(1) .
    have "move_pair geo a i a (i + ?m) ?h1 = Some (?h1(a \<mapsto> enc geo ((?B i)[i := ?B i ! (i + ?m)])))"
      by (rule move_pair_same) (use P im assms(4) okB in simp_all)
    then have 2: "move_pair geo a i a (i + ?m) ?h1 = Some ?h2" unfolding s(2) .
    have 3: "clearpair geo a (i + ?m) ?h2 = Some (?h2(a \<mapsto> enc geo (((?B i)[i := es ! (i + ?m)])[i + ?m := ?z])))"
      by (rule clearpair_slot) (use okB' im in simp_all)
    have "?h2(a \<mapsto> enc geo (?B (Suc i))) = h(b \<mapsto> enc geo (?A (Suc i)), a \<mapsto> enc geo (?B (Suc i)))"
      using P assms(4) unfolding A by (simp add: fun_upd_twist)
    moreover have "slots_ok geo (?B (Suc i))" unfolding s(3) [symmetric] by (rule slots_ok_upd [OF okB']) simp
    ultimately show ?thesis using 1 2 3 okA' unfolding s(3) A by simp
  qed
  obtain h1 where h1: "for_up 0 ?m ?body h = Some h1" "?P ?m h1"
  proof -
    have "\<exists>h1. for_up 0 ?m ?body h = Some h1 \<and> ?P ?m h1"
    proof (rule for_up_inv [where P = ?P])
      have "h(b \<mapsto> enc geo (?A 0), a \<mapsto> enc geo (?B 0)) = h"
        using na(1) nb(1) assms(4) by (simp add: fun_upd_idem)
      then show "?P 0 h" using na nb by simp
    qed (use body in blast)+
    then show ?thesis using that by blast
  qed
  have Am: "?A ?m = pad_slots geo (take ?m es)" using assms(2) by (simp add: pad_slots_def)
  have Bm: "?B ?m = take ?m (drop ?m es) @ replicate ?m ?z @ drop (?m + ?m) es" by simp
  show ?thesis
  proof (cases "odd ?N")
    case False
    then have e: "?m + ?m = ?N" by auto
    have "?B ?m = pad_slots geo (drop ?m es)" unfolding Bm using assms(2) e by (simp add: pad_slots_def)
    then show ?thesis using h1 False unfolding Am by (simp add: split_move_def node_block_def)
  next
    case True
    then have e: "?N = Suc (?m + ?m)" by presburger
    let ?v = "es ! (?N - 1)"
    have m: "?m + ?m = ?N - 1" using e by simp
    have W: "drop (?m + ?m) es = [?v]" unfolding m using e assms(2) by (simp add: Cons_nth_drop_Suc [symmetric] del: diff_Suc_1)
    have X: "length (take ?m (drop ?m es)) = ?m" using e assms(2) by simp
    have r: "replicate ?m ?z = ?z # replicate (?m - 1) ?z" using N(1) by (simp flip: replicate_Suc)
    have B1: "?B ?m = take ?m (drop ?m es) @ ?z # replicate (?m - 1) ?z @ [?v]" unfolding Bm W r by simp
    have "length (take ?m (drop ?m es) @ replicate ?m ?z) = ?N - 1" unfolding length_append X using m by simp
    moreover have "?B ?m = (take ?m (drop ?m es) @ replicate ?m ?z) @ [?v]" using W by simp
    ultimately have B2: "?B ?m ! (?N - 1) = ?v" by (metis nth_append_length)
    have "(?B ?m)[?m := ?v] = take ?m (drop ?m es) @ ?v # replicate (?m - 1) ?z @ [?v]"
      unfolding B1 using X by (metis list_update_length)
    also have "\<dots> = (take ?m (drop ?m es) @ ?v # replicate (?m - 1) ?z) @ [?v]" by simp
    finally have B3: "(?B ?m)[?m := ?v] = (take ?m (drop ?m es) @ ?v # replicate (?m - 1) ?z) @ [?v]" .
    have "length (take ?m (drop ?m es) @ ?v # replicate (?m - 1) ?z) = ?N - 1"
      unfolding length_append list.size X using N(1) m by simp
    then have B3: "((?B ?m)[?m := ?v])[?N - 1 := ?z] = (take ?m (drop ?m es) @ ?v # replicate (?m - 1) ?z) @ [?z]"
      unfolding B3 by (metis list_update_length)
    have "take ?m (drop ?m es) @ [?v] = drop ?m es"
      using W append_take_drop_id [of ?m "drop ?m es"] by (simp add: add.commute)
    then have B4: "((?B ?m)[?m := ?v])[?N - 1 := ?z] = pad_slots geo (drop ?m es)"
      unfolding B3 using assms(2) e N(1) r by (simp add: pad_slots_def replicate_append_same)
    note okB = conjunct2 [OF conjunct2 [OF h1(2)]]
    have okB': "slots_ok geo ((?B ?m)[?m := ?v])"
      by (rule slots_ok_upd [OF okB]) (use slots_okD(2) [OF na(2), of "?N - 1"] e in simp)
    let ?h2 = "h1(a \<mapsto> enc geo ((?B ?m)[?m := ?v]))"
    have "move_pair geo a ?m a (?N - 1) h1 = Some (h1(a \<mapsto> enc geo ((?B ?m)[?m := ?B ?m ! (?N - 1)])))"
      by (rule move_pair_same) (use okB h1(2) e N in simp_all)
    then have 1: "move_pair geo a ?m a (?N - 1) h1 = Some ?h2" unfolding B2 .
    have 2: "clearpair geo a (?N - 1) ?h2 = Some (?h2(a \<mapsto> enc geo (((?B ?m)[?m := ?v])[?N - 1 := ?z])))"
      by (rule clearpair_slot) (use okB' e in simp_all)
    show ?thesis using h1 True 1 2 unfolding B4 Am by (simp add: split_move_def node_block_def)
  qed
qed

end

end
