(* ===== verification/Btree_Tree.thy ===== *)
theory Btree_Tree
  imports Btree_Ops
begin

text \<open>
  The shape of the B+ tree and its search. A tree is the list of its levels from the leaves up, a
  level the list of its nodes from left to right. Every entry carries a ghost set of keys: those
  that belong below the entry, at least all that are there. The keys of a level are separators for
  the level below when the ghost sets respect them, and this one condition on the concatenation of
  the entries of a level is all that searching, splitting, stealing and merging rely on.
\<close>

section \<open>Levels\<close>

type_synonym gpair = "u64 list \<times> u64 \<times> u64 list set"
type_synonym level = "(u64 \<times> gpair list) list"

definition strip :: "gpair \<Rightarrow> pair" where
  "strip e = (fst e, fst (snd e))"

definition ghost :: "gpair \<Rightarrow> u64 list set" where
  "ghost e = snd (snd e)"

definition gkeys :: "gpair list \<Rightarrow> u64 list set" where
  "gkeys es = (\<Union>e \<in> set es. insert (fst e) (ghost e))"

definition entries_of :: "level \<Rightarrow> gpair list" where
  "entries_of l = concat (map snd l)"

definition separated :: "gpair list \<Rightarrow> bool" where
  "separated es \<longleftrightarrow> sorted_wrt (\<lambda>x y. \<forall>z \<in> insert (fst y) (ghost y). z < fst x) es \<and>
     (\<forall>e \<in> set es. \<forall>z \<in> ghost e. fst e \<le> z)"

definition child_linked :: "level \<Rightarrow> gpair list \<Rightarrow> bool" where
  "child_linked l C \<longleftrightarrow> list_all2 (\<lambda>n e. fst (snd e) = fst n \<and> gkeys (snd n) \<subseteq> ghost e) l C"

fun levels_ok :: "level list \<Rightarrow> bool" where
  "levels_ok [] = True"
| "levels_ok [l] = (length l = 1 \<and> separated (entries_of l))"
| "levels_ok (l # u # us) = (separated (entries_of l) \<and> child_linked l (entries_of u) \<and> levels_ok (u # us))"

definition big :: "level list \<Rightarrow> bool" where
  "big ls \<longleftrightarrow> (\<forall>l \<in> set ls. \<forall>n \<in> set l. 2 \<le> length (snd n))"

definition node_addrs :: "level list \<Rightarrow> u64 list" where
  "node_addrs ls = concat (map (map fst) ls)"

definition nodes_at :: "btree_geo \<Rightarrow> bheap \<Rightarrow> level \<Rightarrow> bool" where
  "nodes_at geo h l \<longleftrightarrow> (\<forall>n \<in> set l. fst n \<noteq> 0 \<and> node_at geo h (fst n) (map strip (snd n)))"

definition tree_at :: "btree_geo \<Rightarrow> bheap \<Rightarrow> btree_head \<Rightarrow> nat \<Rightarrow> level list \<Rightarrow> bool" where
  "tree_at geo h head level ls \<longleftrightarrow>
     (\<forall>l \<in> set ls. nodes_at geo h l) \<and> distinct (node_addrs ls) \<and> bt_height head + 1 = level + length ls \<and>
     (ls \<noteq> [] \<longrightarrow> bt_node head = fst (hd (last ls)))"

text \<open>The key \<open>k\<close> belongs to the node with the index \<open>i\<close> of the level below \<open>us\<close>.\<close>

definition reserved :: "level list \<Rightarrow> nat \<Rightarrow> u64 list \<Rightarrow> bool" where
  "reserved us i k \<longleftrightarrow> us = [] \<or> i < length (entries_of (hd us)) \<and> k \<in> ghost (entries_of (hd us) ! i)"

lemma strip_simps [simp]: "fst (strip e) = fst e" "snd (strip e) = fst (snd e)"
  by (simp_all add: strip_def)

lemma ghost_simps [simp]: "ghost (k, v, K) = K"
  by (simp add: ghost_def)

lemma gkeys_simps [simp]:
  "gkeys [] = {}" "gkeys (e # es) = insert (fst e) (ghost e) \<union> gkeys es" "gkeys (es @ fs) = gkeys es \<union> gkeys fs"
  by (auto simp: gkeys_def)

lemma gkeysI: "e \<in> set es \<Longrightarrow> fst e \<in> gkeys es" "e \<in> set es \<Longrightarrow> z \<in> ghost e \<Longrightarrow> z \<in> gkeys es"
  by (auto simp: gkeys_def)

lemma contents_simps [simp]:
  "entries_of [] = []" "entries_of (n # l) = snd n @ entries_of l" "entries_of (l @ l') = entries_of l @ entries_of l'"
  by (simp_all add: entries_of_def)

lemma node_addrs_simps [simp]:
  "node_addrs [] = []" "node_addrs (l # ls) = map fst l @ node_addrs ls" "node_addrs (ls @ ls') = node_addrs ls @ node_addrs ls'"
  by (simp_all add: node_addrs_def)

lemma big_simps [simp]:
  "big []" "big (l # ls) \<longleftrightarrow> (\<forall>n \<in> set l. 2 \<le> length (snd n)) \<and> big ls"
  by (auto simp: big_def)

lemma nodes_at_simps [simp]:
  "nodes_at geo h []"
  "nodes_at geo h (n # l) \<longleftrightarrow> fst n \<noteq> 0 \<and> node_at geo h (fst n) (map strip (snd n)) \<and> nodes_at geo h l"
  "nodes_at geo h (l @ l') \<longleftrightarrow> nodes_at geo h l \<and> nodes_at geo h l'"
  by (auto simp: nodes_at_def)

lemma nodes_at_other: "nodes_at geo h l \<Longrightarrow> (\<And>a. a \<in> fst ` set l \<Longrightarrow> h' a = h a) \<Longrightarrow> nodes_at geo h' l"
  by (auto simp: nodes_at_def intro: node_at_other)

lemma nodes_at_upd: "nodes_at geo h l \<Longrightarrow> P \<notin> fst ` set l \<Longrightarrow> (\<And>b. b \<noteq> P \<Longrightarrow> h' b = h b) \<Longrightarrow> nodes_at geo h' l"
  by (erule nodes_at_other) metis

lemma all_nodes_other:
  "(\<forall>l \<in> set ls. nodes_at geo h l) \<Longrightarrow> (\<And>a. a \<in> set (node_addrs ls) \<Longrightarrow> h' a = h a) \<Longrightarrow> \<forall>l \<in> set ls. nodes_at geo h' l"
  by (induction ls) (auto intro!: nodes_at_other [of geo h _ h'])

lemma separated_Nil [simp]: "separated []"
  by (simp add: separated_def)

lemma separated_Cons [simp]:
  "separated (e # es) \<longleftrightarrow> (\<forall>z \<in> ghost e. fst e \<le> z) \<and> (\<forall>z \<in> gkeys es. z < fst e) \<and> separated es"
  by (auto simp: separated_def gkeys_def)

lemma separated_append [simp]:
  "separated (es @ fs) \<longleftrightarrow> separated es \<and> separated fs \<and> (\<forall>e \<in> set es. \<forall>z \<in> gkeys fs. z < fst e)"
  by (induction es) auto

lemma linked_simps [simp]:
  "child_linked [] C \<longleftrightarrow> C = []" "child_linked l [] \<longleftrightarrow> l = []"
  "child_linked (n # l) (e # C) \<longleftrightarrow> fst (snd e) = fst n \<and> gkeys (snd n) \<subseteq> ghost e \<and> child_linked l C"
  by (auto simp: child_linked_def)

lemma linked_app:
  "length l = length C \<Longrightarrow> child_linked (l @ l') (C @ C') \<longleftrightarrow> child_linked l C \<and> child_linked l' C'"
  by (simp add: child_linked_def list_all2_append)

lemma linked_length: "child_linked l C \<Longrightarrow> length l = length C"
  by (simp add: child_linked_def list_all2_lengthD)

lemma linked_split:
  assumes "child_linked l (A @ e # B)"
  obtains xs n ys where "l = xs @ n # ys" "child_linked xs A" "child_linked ys B" "fst n = fst (snd e)" "gkeys (snd n) \<subseteq> ghost e"
  using assms by (auto simp: child_linked_def list_all2_append2 list_all2_Cons2)

lemma linked_split_left:
  assumes "child_linked (xs @ n # ys) C"
  obtains A e B where "C = A @ e # B" "child_linked xs A" "child_linked ys B" "fst n = fst (snd e)" "gkeys (snd n) \<subseteq> ghost e"
  using assms by (auto simp: child_linked_def list_all2_append1 list_all2_Cons1)

lemma linked_gkeys: "child_linked l C \<Longrightarrow> gkeys (entries_of l) \<subseteq> gkeys C"
  unfolding child_linked_def by (induction rule: list_all2_induct) auto

lemma linked_gkeys_ghost: "child_linked l C \<Longrightarrow> x \<in> gkeys (entries_of l) \<Longrightarrow> \<exists>e \<in> set C. x \<in> ghost e"
  unfolding child_linked_def by (induction rule: list_all2_induct) auto

lemma gkeys_contents: "n \<in> set l \<Longrightarrow> gkeys (snd n) \<subseteq> gkeys (entries_of l)"
  by (induction l) auto

lemma levels_ok_tl: "levels_ok (l # us) \<Longrightarrow> levels_ok us"
  by (cases us) simp_all

lemma levels_ok_sep: "levels_ok (l # us) \<Longrightarrow> separated (entries_of l)"
  by (cases us) simp_all

text \<open>A key that belongs to a node lies between the keys on its left and those on its right.\<close>

lemma reserved_range:
  assumes "levels_ok ((xs @ n # ys) # us)" "reserved us (length xs) k"
  shows "\<forall>z \<in> gkeys (entries_of xs). k < z" "\<forall>z \<in> gkeys (entries_of ys). z < k"
proof -
  have "(\<forall>z \<in> gkeys (entries_of xs). k < z) \<and> (\<forall>z \<in> gkeys (entries_of ys). z < k)"
  proof (cases us)
    case Nil
    then show ?thesis using assms(1) by auto
  next
    case (Cons u us')
    with assms(1) have lk: "child_linked (xs @ n # ys) (entries_of u)" and sep: "separated (entries_of u)"
      by (auto dest: levels_ok_sep)
    obtain A e B where C: "entries_of u = A @ e # B" "child_linked xs A" "child_linked ys B" by (rule linked_split_left [OF lk])
    have "k \<in> ghost e" using assms(2) Cons C by (simp add: reserved_def linked_length)
    then have e: "fst e \<le> k" "\<forall>a \<in> set A. k < fst a" "\<forall>z \<in> gkeys B. z < fst e"
      using sep C(1) by auto
    have "k < z" if "z \<in> gkeys (entries_of xs)" for z
    proof -
      from linked_gkeys_ghost [OF C(2) that] obtain a where "a \<in> set A" "z \<in> ghost a" by blast
      moreover then have "fst a \<le> z" using sep C(1) by (auto simp: separated_def)
      ultimately show ?thesis using e(2) by fastforce
    qed
    moreover have "z < k" if "z \<in> gkeys (entries_of ys)" for z
      using linked_gkeys [OF C(3)] e that by fastforce
    ultimately show ?thesis by blast
  qed
  then show "\<forall>z \<in> gkeys (entries_of xs). k < z" "\<forall>z \<in> gkeys (entries_of ys). z < k" by blast+
qed

lemma takeWhile_ghost:
  assumes "separated (A @ e # B)" "k \<in> insert (fst e) (ghost e)"
  shows "takeWhile (\<lambda>e. k < fst e) (A @ e # B) = A"
proof -
  have "\<forall>a \<in> set A. k < fst a" "fst e \<le> k" using assms by auto
  then show ?thesis by (simp add: takeWhile_append2 not_less)
qed

text \<open>The entry to which a key belongs lies in the node to which the key belongs.\<close>

lemma reserved_entry:
  assumes "separated (A @ ps @ B)" "\<forall>z \<in> gkeys A. k < z" "\<forall>z \<in> gkeys B. z < k"
    and "i < length (A @ ps @ B)" "k \<in> ghost ((A @ ps @ B) ! i)"
  obtains ps1 e ps2 where "ps = ps1 @ e # ps2" "i = length A + length ps1" "k \<in> ghost e"
    "takeWhile (\<lambda>e. k < fst e) ps = ps1" "e = (A @ ps @ B) ! i"
proof -
  have nA: "\<not> i < length A"
  proof
    assume "i < length A"
    then have "k \<in> gkeys A" using assms(5) by (intro gkeysI(2) [of "A ! i"]) (simp_all add: nth_append)
    then show False using assms(2) by blast
  qed
  have nB: "i < length A + length ps"
  proof (rule ccontr)
    assume n: "\<not> i < length A + length ps"
    then have "\<not> i - length A < length ps" using nA by linarith
    then have "(A @ ps @ B) ! i = B ! (i - length A - length ps)" using nA by (simp add: nth_append)
    then have "k \<in> gkeys B" using assms(4,5) n by (intro gkeysI(2) [of "B ! (i - length A - length ps)"]) simp_all
    then show False using assms(3) by blast
  qed
  let ?j = "i - length A" let ?e = "ps ! ?j"
  have "?j < length ps" using nA nB by linarith
  then have e: "(A @ ps @ B) ! i = ?e" using nA by (simp add: nth_append)
  have ps: "ps = take ?j ps @ ?e # drop (Suc ?j) ps" using nA nB by (intro id_take_nth_drop) simp
  have "separated ps" using assms(1) by simp
  then have "takeWhile (\<lambda>e. k < fst e) ps = take ?j ps"
    using takeWhile_ghost [of "take ?j ps" ?e "drop (Suc ?j) ps" k] ps assms(5) e by simp
  then show ?thesis using ps nA nB e assms(5) by (intro that [of "take ?j ps" ?e "drop (Suc ?j) ps"]) simp_all
qed

section \<open>Searching\<close>

lemma find_down_snoc:
  "find_down geo p n node h = Some (a, h1) \<Longrightarrow> find_down geo p 1 a h1 = Some r \<Longrightarrow> find_down geo p (Suc n) node h = Some r"
proof (induction n arbitrary: node h)
  case 0
  then show ?case by (auto split: if_splits)
next
  case (Suc n)
  from Suc.prems(1) obtain i last j h' node' where
    s: "getpos geo node p h = Some i"
    "(if i = no_pairs geo then Some True else Option.bind (bval geo node i h) (\<lambda>v. Some (v = 0))) = Some last"
    "(if last then case i of 0 \<Rightarrow> None | Suc j \<Rightarrow> Option.bind (setkeyb geo node p j h) (\<lambda>h. Some (j, h)) else Some (i, h)) = Some (j, h')"
    "bval geo node j h' = Some node'" "find_down geo p n node' h' = Some (a, h1)"
    unfolding find_down.simps(2) by (auto simp only: bind_eq_Some_conv split_paired_Ex prod.case)
  have "find_down geo p (Suc n) node' h' = Some r" using s(5) Suc.prems(2) by (rule Suc.IH)
  then show ?case using s(1-4) by (subst find_down.simps(2)) (simp del: find_down.simps)
qed

lemma takeWhile_strip [simp]: "length (takeWhile (\<lambda>e. k < fst e) (map strip es)) = length (takeWhile (\<lambda>e. k < fst e) es)"
  by (induction es) simp_all

text \<open>A node may take any entries that keep its level separated and add no key but one that belongs to it.\<close>

lemma levels_ok_replace:
  assumes "levels_ok ((xs @ (a, es) # ys) # us)" "reserved us (length xs) k"
    and "separated (entries_of xs @ fs @ entries_of ys)" "gkeys fs \<subseteq> insert k (gkeys es)"
  shows "levels_ok ((xs @ (a, fs) # ys) # us)"
proof (cases us)
  case Nil
  then show ?thesis using assms by simp
next
  case (Cons u us')
  with assms(1) have lk: "child_linked (xs @ (a, es) # ys) (entries_of u)" and up: "levels_ok (u # us')" by simp_all
  obtain A e B where C: "entries_of u = A @ e # B" "child_linked xs A" "child_linked ys B" "fst (a, es) = fst (snd e)" "gkeys (snd (a, es)) \<subseteq> ghost e"
    by (rule linked_split_left [OF lk])
  have "k \<in> ghost e" using assms(2) Cons C by (simp add: reserved_def linked_length)
  then have "child_linked (xs @ (a, fs) # ys) (entries_of u)"
    using C assms(4) by (auto simp: linked_app linked_length)
  then show ?thesis using Cons up assms(3) by simp
qed

lemma lower_cases:
  fixes ps :: "gpair list"
  assumes "ps \<noteq> []"
  obtains ps1 s v K ps2 where "ps = ps1 @ (s, v, K) # ps2" "\<forall>e \<in> set ps1. k < fst e" "s \<le> k \<or> ps2 = []"
proof (cases "takeWhile (\<lambda>e. k < fst e) ps = ps")
  case True
  then have "\<forall>e \<in> set ps. k < fst e" by (simp add: takeWhile_eq_all_conv)
  moreover obtain ps1 e where "ps = ps1 @ [e]" using assms by (metis rev_exhaust)
  ultimately show ?thesis using that [of ps1 "fst e" "fst (snd e)" "snd (snd e)" "[]"] by simp
next
  case False
  then have "dropWhile (\<lambda>e. k < fst e) ps \<noteq> []"
    using takeWhile_dropWhile_id [of "\<lambda>e. k < fst e" ps] by (metis append_Nil2)
  then obtain e ps2 where d: "dropWhile (\<lambda>e. k < fst e) ps = e # ps2" by (cases "dropWhile (\<lambda>e. k < fst e) ps") auto
  then have "fst e \<le> k" using hd_dropWhile [of "\<lambda>e. k < fst e" ps] by (simp add: not_less)
  moreover have "ps = takeWhile (\<lambda>e. k < fst e) ps @ e # ps2"
    using takeWhile_dropWhile_id [of "\<lambda>e. k < fst e" ps] d by simp
  moreover have "\<forall>e \<in> set (takeWhile (\<lambda>e. k < fst e) ps). k < fst e" by (auto dest: set_takeWhileD)
  ultimately show ?thesis
    by (intro that [of "takeWhile (\<lambda>e. k < fst e) ps" "fst e" "fst (snd e)" "snd (snd e)" ps2]) simp_all
qed

context geometry
begin

lemma find_step:
  assumes "node_at geo h a (map strip (ps1 @ (s, v, K) # ps2))" "key_at geo h p k" "fst p \<noteq> a"
    and "\<forall>e \<in> set ps1. k < fst e" "s \<le> k \<or> ps2 = []"
  shows "\<exists>h'. find_down geo p 1 a h = Some (v, h') \<and> node_at geo h' a (map strip (ps1 @ (min s k, v, insert k K) # ps2)) \<and>
    (\<forall>b. b \<noteq> a \<longrightarrow> h' b = h b)"
proof -
  let ?ps = "ps1 @ (s, v, K) # ps2" let ?es = "map strip ?ps"
  note n = node_atD [OF assms(1)]
  have gp: "getpos geo a p h = Some (length (takeWhile (\<lambda>e. k < fst e) ?ps))"
    using getpos_node [OF assms(1,2)] by (simp only: takeWhile_strip)
  have v: "bval geo a (length ps1) h' = Some v" if "node_at geo h' a (map strip (ps1 @ (s', v, K') # ps2))" for h' s' K'
    using node_at_val [OF that, of "length ps1"] by (simp add: nth_append)
  have v0: "v \<noteq> 0" using entries_okD(3) [OF n(3), of "strip (s, v, K)"] by simp
  show ?thesis
  proof (cases "s \<le> k")
    case True
    then have "takeWhile (\<lambda>e. k < fst e) ?ps = ps1" using assms(4) by (simp add: takeWhile_append2 not_less)
    then have "getpos geo a p h = Some (length ps1)" using gp by simp
    then have "find_down geo p 1 a h = Some (v, h)"
      using v [OF assms(1)] v0 n(4) by simp
    moreover have "map strip (ps1 @ (min s k, v, insert k K) # ps2) = ?es" using True by (simp add: min_def strip_def)
    ultimately show ?thesis using assms(1) by auto
  next
    case False
    then have p2: "ps2 = []" using assms(5) by simp
    then have "takeWhile (\<lambda>e. k < fst e) ?ps = ?ps" using assms(4) False by (simp add: takeWhile_append2)
    then have g: "getpos geo a p h = Some (Suc (length ps1))" using gp p2 by simp
    let ?h = "h(a \<mapsto> node_block geo (?es[length ps1 := (k, snd (?es ! length ps1))]))"
    have st: "setkeyb geo a p (length ps1) h = Some ?h"
      by (rule setkeyb_node) (use assms in simp_all)
    have es: "?es[length ps1 := (k, snd (?es ! length ps1))] = map strip (ps1 @ (k, v, insert k K) # ps2)"
      by (simp add: list_update_append nth_append strip_def)
    have "entries_ok geo (?es[length ps1 := (k, snd (?es ! length ps1))])"
      by (rule entries_ok_upd) (use n(3) key_at_length [OF assms(2)] v0 in \<open>simp_all add: nth_append\<close>)
    then have n': "node_at geo ?h a (map strip (ps1 @ (k, v, insert k K) # ps2))" unfolding es by simp
    have "(if Suc (length ps1) = no_pairs geo then Some True
        else Option.bind (bval geo a (Suc (length ps1)) h) (\<lambda>v. Some (v = 0))) = Some True"
      using node_at_zero [OF assms(1), of "Suc (length ps1)"] n(4) p2 by simp
    then have "find_down geo p 1 a h = Some (v, ?h)"
      using g st v [OF n'] v0 by (simp del: fun_upd_apply)
    then show ?thesis using n' False by (auto simp: min_def)
  qed
qed

lemma find_level_ok:
  assumes "tree_at geo h head level (l # us)" "levels_ok (l # us)" "big us" "key_at geo h p k" "fst p \<notin> set (node_addrs us)"
  shows "\<exists>h' us' xs a es ys. find_level head geo p level h = Some (a, h') \<and> l = xs @ (a, es) # ys \<and>
    tree_at geo h' head level (l # us') \<and> levels_ok (l # us') \<and> big us' \<and> map (map fst) us' = map (map fst) us \<and>
    (\<forall>b. b \<notin> set (node_addrs us) \<longrightarrow> h' b = h b) \<and> reserved us' (length xs) k \<and>
    (us \<noteq> [] \<longrightarrow> (\<forall>j. reserved us j k \<longrightarrow> j = length xs))"
  using assms
proof (induction us arbitrary: l level)
  case Nil
  then obtain n where "l = [n]" by (auto simp: length_Suc_conv)
  moreover from this Nil have "bt_height head = level" "bt_node head = fst n" "fst n \<noteq> 0"
    by (auto simp: tree_at_def)
  ultimately show ?case using Nil by (intro exI [of _ h] exI [of _ "[]"] exI [of _ "fst n"] exI [of _ "snd n"])
     (auto simp: find_level_def reserved_def)
next
  case (Cons u us)
  have ht: "bt_height head - level = Suc (bt_height head - Suc level)" using Cons.prems(1) by (simp add: tree_at_def)
  have lk: "child_linked l (entries_of u)" and sepl: "separated (entries_of l)" using Cons.prems(2) by simp_all
  have dist: "distinct (node_addrs (l # u # us))" and nl: "nodes_at geo h l" using Cons.prems(1) by (simp_all add: tree_at_def)
  have tu: "tree_at geo h head (Suc level) (u # us)" using Cons.prems(1) by (simp add: tree_at_def)
  have "big us" "fst p \<notin> set (node_addrs us)" using Cons.prems(3,5) by simp_all
  from Cons.IH [OF tu levels_ok_tl [OF Cons.prems(2)] this(1) Cons.prems(4) this(2)]
  obtain h1 us' xs P ps ys where
    f: "find_level head geo p (Suc level) h = Some (P, h1)" and u: "u = xs @ (P, ps) # ys"
    and t1: "tree_at geo h1 head (Suc level) (u # us')" and l1: "levels_ok (u # us')" and b1: "big us'"
    and ad: "map (map fst) us' = map (map fst) us" and fr: "\<And>b. b \<notin> set (node_addrs us) \<Longrightarrow> h1 b = h b"
    and rs: "reserved us' (length xs) k"
    by blast
  note rg = reserved_range [OF l1 [unfolded u] rs]
  have rg': "\<forall>e \<in> set (entries_of xs). k < fst e" using rg(1) by (auto dest: gkeysI(1))
  have len: "2 \<le> length ps" using Cons.prems(3) u by simp
  then have "ps \<noteq> []" by auto
  from lower_cases [OF this, of k] obtain ps1 s v K ps2 where
    ps: "ps = ps1 @ (s, v, K) # ps2" "\<forall>e \<in> set ps1. k < fst e" "s \<le> k \<or> ps2 = []" by blast
  let ?ps = "ps1 @ (min s k, v, insert k K) # ps2" let ?u = "xs @ (P, ?ps) # ys"
  have "node_at geo h1 P (map strip (ps1 @ (s, v, K) # ps2))" using t1 u ps(1) by (simp add: tree_at_def)
  moreover have "key_at geo h1 p k" using Cons.prems(4) by (rule key_at_other) (use Cons.prems(5) fr in simp)
  moreover have "fst p \<noteq> P" using Cons.prems(5) u by auto
  ultimately obtain h2 where
    h2: "find_down geo p 1 P h1 = Some (v, h2)" "node_at geo h2 P (map strip ?ps)" "\<And>b. b \<noteq> P \<Longrightarrow> h2 b = h1 b"
    using find_step [OF _ _ _ ps(2,3), of h1 P v K p] by blast
  have "find_level head geo p level h = Some (v, h2)"
    using find_down_snoc [OF _ h2(1)] f unfolding find_level_def ht by blast
  moreover have sep: "separated (entries_of u)" using l1 by (rule levels_ok_sep)
  then have sep': "separated (entries_of xs @ ?ps @ entries_of ys)"
    using rg rg' ps unfolding u by (auto simp: min_def)
  then have l2: "levels_ok (?u # us')"
    by (intro levels_ok_replace [OF l1 [unfolded u] rs]) (auto simp: ps(1) min_def)
  have cu: "entries_of u = (entries_of xs @ ps1) @ (s, v, K) # (ps2 @ entries_of ys)" by (simp add: u ps(1))
  obtain xl n yl where
    l: "l = xl @ n # yl" "child_linked xl (entries_of xs @ ps1)" "child_linked yl (ps2 @ entries_of ys)" "fst n = fst (snd (s, v, K))"
      "gkeys (snd n) \<subseteq> ghost (s, v, K)"
    by (rule linked_split [OF lk [unfolded cu]])
  have cu': "entries_of ?u = (entries_of xs @ ps1) @ (min s k, v, insert k K) # (ps2 @ entries_of ys)" by simp
  have "child_linked l (entries_of ?u)" unfolding cu' l(1) by (subst linked_app) (use l(2-5) in \<open>auto simp: linked_length\<close>)
  then have l3: "levels_ok (l # ?u # us')" using sepl l2 by simp
  have same: "h2 a = h a" if "a \<notin> set (node_addrs (u # us))" for a using that fr h2(3) u by simp
  have "tree_at geo h2 head level (l # ?u # us')"
  proof -
    have "nodes_at geo h2 l" using nl
    proof (rule nodes_at_other)
      fix a assume "a \<in> fst ` set l"
      then have "a \<notin> set (node_addrs (u # us))" using dist by auto
      then show "h2 a = h a" by (rule same)
    qed
    moreover have "\<forall>l \<in> set us'. nodes_at geo h2 l"
    proof (rule all_nodes_other)
      show "\<forall>l \<in> set us'. nodes_at geo h1 l" using t1 by (simp add: tree_at_def)
      have "P \<notin> set (node_addrs us')" using t1 u by (auto simp: tree_at_def)
      then show "h2 a = h1 a" if "a \<in> set (node_addrs us')" for a using h2(3) that by metis
    qed
    moreover have "nodes_at geo h2 xs" "nodes_at geo h2 ys"
      by (rule nodes_at_upd [OF _ _ h2(3)]; use t1 u in \<open>auto simp: tree_at_def\<close>)+
    moreover have "node_addrs us' = node_addrs us" using ad by (simp add: node_addrs_def)
    moreover have "map fst ?u = map fst u" using u by simp
    moreover have "fst (hd (xs @ (P, ps) # ys)) = fst (hd ?u)" by (cases xs) simp_all
    ultimately show ?thesis using h2(2) t1 Cons.prems(1) dist u by (auto simp: tree_at_def)
  qed
  moreover have "reserved (?u # us') (length xl) k"
    using linked_length [OF l(2)] by (simp add: reserved_def nth_append)
  moreover have "j = length xl" if "reserved (u # us) j k" for j
  proof -
    have j: "j < length (entries_of xs @ ps @ entries_of ys)" "k \<in> ghost ((entries_of xs @ ps @ entries_of ys) ! j)"
      using that u by (simp_all add: reserved_def)
    have "separated (entries_of xs @ ps @ entries_of ys)" using sep u by simp
    then obtain ps1' e ps2' where e: "ps = ps1' @ e # ps2'" "j = length (entries_of xs) + length ps1'" "k \<in> ghost e"
      "takeWhile (\<lambda>e. k < fst e) ps = ps1'"
      by (rule reserved_entry [OF _ rg j])
    have "fst e \<le> k" using sep e(1,3) u by auto
    have "ps1' = ps1"
    proof (cases "s \<le> k")
      case True
      then have "takeWhile (\<lambda>e. k < fst e) ps = ps1" using ps by (simp add: takeWhile_append2 not_less)
      then show ?thesis using e(4) by simp
    next
      case False
      then have "\<forall>e \<in> set ps. k < fst e" using ps by auto
      then show ?thesis using \<open>fst e \<le> k\<close> e(1) by auto
    qed
    then show ?thesis using e(2) linked_length [OF l(2)] by simp
  qed
  moreover have "map (map fst) (?u # us') = map (map fst) (u # us)" using ad u by simp
  moreover have "big (?u # us')" using b1 Cons.prems(3) u ps(1) by auto
  moreover have "l = xl @ (v, snd n) # yl" using l(1,4) by auto
  ultimately show ?case using l3 same
    by (intro exI [of _ h2] exI [of _ "?u # us'"] exI [of _ xl] exI [of _ v] exI [of _ "snd n"] exI [of _ yl] conjI allI impI)
      (assumption | simp only: )+
qed

end

end
