(* ===== verification/Btree_Add.thy ===== *)
theory Btree_Add
  imports Btree_Tree
begin

text \<open>
  Insertion into a node with room. The abstract effect on the entries of a level is \<open>add_entry\<close>; the theorem about
  \<open>btree_insert_level\<close> is stated for the tree that begins at any level, so that splitting a node is
  one use of it for the level above.
\<close>

section \<open>What changes in memory\<close>

text \<open>
  The nodes of a tree are at \<open>A\<close> before and at \<open>A'\<close> afterwards: new ones were free memory, old ones are
  free memory, and all other memory is as it was.
\<close>

definition heap_frame :: "bheap \<Rightarrow> u64 set \<Rightarrow> bheap \<Rightarrow> u64 set \<Rightarrow> bool" where
  "heap_frame h A h' A' \<longleftrightarrow>
     (\<forall>b. b \<notin> A \<union> A' \<longrightarrow> h' b = h b) \<and> (\<forall>b \<in> A' - A. h b = None) \<and> (\<forall>b \<in> A - A'. h' b = None)"

lemma heap_frame_refl: "(\<And>b. b \<notin> A \<Longrightarrow> h' b = h b) \<Longrightarrow> heap_frame h A h' A"
  by (simp add: heap_frame_def)

lemma heap_frame_trans: "heap_frame h A h1 A1 \<Longrightarrow> heap_frame h1 A1 h2 A2 \<Longrightarrow> heap_frame h A h2 A2"
  unfolding heap_frame_def by (metis (no_types, lifting) DiffI Un_iff DiffD1 DiffD2)

lemma heap_frame_more: "heap_frame h A h' A' \<Longrightarrow> heap_frame h (L \<union> A) h' (L \<union> A')"
  by (auto simp: heap_frame_def)

lemma heap_frame_same: "heap_frame h A h' A' \<Longrightarrow> h b \<noteq> None \<Longrightarrow> b \<notin> A \<Longrightarrow> h' b = h b \<and> b \<notin> A'"
  unfolding heap_frame_def by (metis DiffI Un_iff)

section \<open>A new entry\<close>

fun put_entry :: "u64 list \<Rightarrow> u64 \<Rightarrow> gpair list \<Rightarrow> gpair list" where
  "put_entry k v [] = [(k, v, {})]"
| "put_entry k v ((s, w, K) # qs) = (k, v, {x \<in> K. k \<le> x}) # (s, w, {x \<in> K. x < k}) # qs"

definition add_entry :: "u64 list \<Rightarrow> u64 \<Rightarrow> gpair list \<Rightarrow> gpair list" where
  "add_entry k v es = takeWhile (\<lambda>e. k < fst e) es @ put_entry k v (dropWhile (\<lambda>e. k < fst e) es)"

lemma takeWhile_split:
  fixes k :: "u64 list"
  assumes "\<forall>e \<in> set ps. k < fst e" "qs = [] \<or> fst (hd qs) \<le> k"
  shows "takeWhile (\<lambda>e. k < fst e) (ps @ qs) = ps" "dropWhile (\<lambda>e. k < fst e) (ps @ qs) = qs"
proof -
  have "takeWhile (\<lambda>e. k < fst e) qs = []" "dropWhile (\<lambda>e. k < fst e) qs = qs"
    using assms(2) by (cases qs; auto dest: leD)+
  then show "takeWhile (\<lambda>e. k < fst e) (ps @ qs) = ps" "dropWhile (\<lambda>e. k < fst e) (ps @ qs) = qs"
    using assms(1) by (simp_all add: takeWhile_append2 dropWhile_append2)
qed

lemma add_entry_append:
  "\<forall>e \<in> set ps. k < fst e \<Longrightarrow> qs = [] \<or> fst (hd qs) \<le> k \<Longrightarrow> add_entry k v (ps @ qs) = ps @ put_entry k v qs"
  unfolding add_entry_def by (simp only: takeWhile_split)

lemma entry_cases:
  obtains ps qs where "C = ps @ qs" "\<forall>e \<in> set ps. (k :: u64 list) < fst e" "qs = [] \<or> fst (hd qs) \<le> k"
proof
  show "C = takeWhile (\<lambda>e. k < fst e) C @ dropWhile (\<lambda>e. k < fst e) C" by simp
  show "\<forall>e \<in> set (takeWhile (\<lambda>e. k < fst e) C). k < fst e" by (auto dest: set_takeWhileD)
  show "dropWhile (\<lambda>e. k < fst e) C = [] \<or> fst (hd (dropWhile (\<lambda>e. k < fst e) C)) \<le> k"
    using hd_dropWhile [of "\<lambda>e. k < fst e" C] by (metis not_less)
qed

lemma map_strip_add_entry:
  "map strip (add_entry k v es) =
    take (length (takeWhile (\<lambda>e. k < fst e) es)) (map strip es) @ (k, v) # drop (length (takeWhile (\<lambda>e. k < fst e) es)) (map strip es)"
proof -
  obtain ps qs where e: "es = ps @ qs" "\<forall>e \<in> set ps. k < fst e" "qs = [] \<or> fst (hd qs) \<le> k" by (rule entry_cases)
  have "map strip (put_entry k v qs) = (k, v) # map strip qs"
    by (cases "(k, v, qs)" rule: put_entry.cases) (simp_all add: strip_def)
  then show ?thesis unfolding e(1) using add_entry_append [OF e(2,3), of v] takeWhile_split [OF e(2,3)] by simp
qed

lemma gkeys_add_entry: "gkeys (add_entry k v es) \<subseteq> insert k (gkeys es)"
proof -
  obtain ps qs where e: "es = ps @ qs" "\<forall>e \<in> set ps. k < fst e" "qs = [] \<or> fst (hd qs) \<le> k" by (rule entry_cases)
  show ?thesis unfolding e(1) add_entry_append [OF e(2,3)]
    by (cases "(k, v, qs)" rule: put_entry.cases) auto
qed

lemma separated_add_entry:
  assumes "separated C" "k \<notin> fst ` set C"
  shows "separated (add_entry k v C)"
proof -
  obtain ps qs where e: "C = ps @ qs" "\<forall>e \<in> set ps. k < fst e" "qs = [] \<or> fst (hd qs) \<le> k" by (rule entry_cases)
  show ?thesis using assms unfolding e(1) add_entry_append [OF e(2,3)]
    using e(2,3) by (cases "(k, v, qs)" rule: put_entry.cases) (auto simp: order.order_iff_strict)
qed

lemma add_entry_node:
  assumes "\<forall>z \<in> gkeys A. k < z" "\<forall>z \<in> gkeys B. z < k"
  shows "add_entry k v (A @ es @ B) = A @ add_entry k v es @ B"
proof -
  obtain ps qs where e: "es = ps @ qs" "\<forall>e \<in> set ps. k < fst e" "qs = [] \<or> fst (hd qs) \<le> k" by (rule entry_cases)
  have A: "\<forall>e \<in> set (A @ ps). k < fst e" using assms(1) e(2) gkeysI(1) [of _ A] by auto
  have B: "B = [] \<or> fst (hd B) \<le> k" using assms(2) by (cases B) auto
  have "qs @ B = [] \<or> fst (hd (qs @ B)) \<le> k" using e(3) B by (cases qs) auto
  from add_entry_append [OF A this, of v] have "add_entry k v (A @ es @ B) = A @ ps @ put_entry k v (qs @ B)" by (simp add: e(1))
  moreover have "put_entry k v (qs @ B) = put_entry k v qs @ B"
  proof (cases qs)
    case Nil
    show ?thesis
    proof (cases B)
      case (Cons b B')
      obtain s w K where b: "b = (s, w, K)" by (cases b)
      then have "\<forall>x \<in> K. x < k" using assms(2) Cons by simp
      then have "{x \<in> K. k \<le> x} = {}" "{x \<in> K. x < k} = K" by (auto dest: leD)
      then show ?thesis using Nil Cons b by simp
    qed (simp add: Nil)
  next
    case (Cons q qs')
    then show ?thesis by (cases q) simp
  qed
  ultimately show ?thesis using add_entry_append [OF e(2,3), of v] by (simp add: e(1))
qed

lemma add_entry_contents:
  assumes "levels_ok ((xs @ (a, es) # ys) # us)" "reserved us (length xs) k"
  shows "entries_of xs @ add_entry k v es @ entries_of ys = add_entry k v (entries_of (xs @ (a, es) # ys))"
  using add_entry_node [OF reserved_range [OF assms], of v es] by simp

lemma last_least: "separated es \<Longrightarrow> es \<noteq> [] \<Longrightarrow> \<forall>x \<in> gkeys es. fst (last es) \<le> x"
proof (induction es)
  case (Cons e es)
  show ?case
  proof (cases "es = []")
    case False
    then have "fst (last es) < fst e" using Cons.prems(1) gkeysI(1) [of "last es" es] by simp
    then show ?thesis using Cons False by (auto intro: order.trans [OF less_imp_le])
  qed (use Cons in simp)
qed simp

text \<open>The boundary between two neighbours moves to another key of theirs.\<close>

lemma move_boundary:
  assumes "separated (A @ (s1, a1, K1) # (s2, a2, K2) # B)" "separated (X @ Y)" "gkeys (X @ Y) \<subseteq> K1 \<union> K2" "X \<noteq> []" "Y \<noteq> []"
  defines "m \<equiv> fst (last X)" and "KX \<equiv> {x \<in> K1 \<union> K2. fst (last X) \<le> x}" and "KY \<equiv> {x \<in> K1 \<union> K2. x < fst (last X)}"
  shows "separated (A @ (m, a1, KX) # (s2, a2, KY) # B)" "gkeys X \<subseteq> KX" "gkeys Y \<subseteq> KY" "m \<in> K1 \<union> K2"
proof -
  obtain X' e where X: "X = X' @ [e]" using assms(4) by (metis rev_exhaust)
  obtain y Y' where Y: "Y = y # Y'" using assms(5) by (metis list.exhaust)
  have m: "m = fst e" "fst (last X) = fst e" using X by (simp_all add: m_def)
  show mK: "m \<in> K1 \<union> K2" using assms(3) X m by auto
  have "fst y < m" "fst y \<in> K1 \<union> K2" using assms(2,3) X Y m by auto
  moreover have sep: "\<forall>x \<in> K1. s1 \<le> x" "\<forall>x \<in> K2. s2 \<le> x" "s2 < s1" "\<forall>e \<in> set A. \<forall>x \<in> K1. x < fst e" "\<forall>e \<in> set A. \<forall>x \<in> K2. x < fst e"
    using assms(1) by simp_all
  then have "\<forall>x \<in> K1. s2 \<le> x" by (metis less_imp_le order.trans)
  with sep have K: "\<forall>x \<in> K1 \<union> K2. s2 \<le> x" "\<forall>x \<in> K1 \<union> K2. \<forall>e \<in> set A. x < fst e" "s2 < s1" by blast+
  ultimately have s2: "s2 < m" using K(1) by (meson order.strict_trans1)
  have Am: "\<forall>e \<in> set A. m < fst e" using K(2) mK by blast
  have sA: "separated A" "separated B" "\<forall>z \<in> gkeys B. z < s2" "\<forall>e \<in> set A. s2 < fst e" "\<forall>e \<in> set A. \<forall>z \<in> gkeys B. z < fst e"
    using assms(1) by simp_all
  have KXY: "\<forall>x \<in> KX. m \<le> x" "\<forall>x \<in> KY. x < m" "\<forall>x \<in> KY. s2 \<le> x" "KX \<subseteq> K1 \<union> K2" "KY \<subseteq> K1 \<union> K2"
    using K(1) m by (auto simp: KX_def KY_def)
  have "\<forall>z \<in> gkeys B. z < m" using sA(3) s2 by (metis order.strict_trans)
  then have "separated ((m, a1, KX) # (s2, a2, KY) # B)" using KXY(1-3) sA(2,3) s2 by auto
  moreover have "\<forall>e \<in> set A. \<forall>z \<in> gkeys ((m, a1, KX) # (s2, a2, KY) # B). z < fst e" using KXY(4,5) K(2) sA Am by auto
  ultimately show "separated (A @ (m, a1, KX) # (s2, a2, KY) # B)" using sA(1) by simp
  have "separated X" using assms(2) by simp
  then have "\<forall>x \<in> gkeys X. m \<le> x" unfolding m_def using assms(4) by (rule last_least)
  then show "gkeys X \<subseteq> KX" using assms(3) m by (auto simp: KX_def)
  have "\<forall>x \<in> gkeys Y. x < m" using assms(2) X m by simp
  then show "gkeys Y \<subseteq> KY" using assms(3) m by (auto simp: KY_def)
qed

section \<open>Into a node with room\<close>

definition insert_ok :: "btree_geo \<Rightarrow> bheap \<Rightarrow> nat \<Rightarrow> level list \<Rightarrow> u64 list \<Rightarrow> u64 \<Rightarrow> (int \<times> btree_head \<times> bheap) option \<Rightarrow> bool" where
  "insert_ok geo h level ls k v r \<longleftrightarrow> (\<exists>err head' h' l' us'. r = Some (err, head', h') \<and>
     tree_at geo h' head' level (l' # us') \<and> levels_ok (l' # us') \<and> (us' \<noteq> [] \<longrightarrow> big (l' # us')) \<and>
     heap_frame h (set (node_addrs ls)) h' (set (node_addrs (l' # us'))) \<and>
     (err = 0 \<and> entries_of l' = add_entry k v (entries_of (hd ls)) \<or> err = - ENOMEM \<and> entries_of l' = entries_of (hd ls)))"

lemma tree_at_change:
  assumes "tree_at geo h head level (l # us)" "map fst l' = map fst l" "nodes_at geo h' l'" "\<And>b. b \<notin> fst ` set l \<Longrightarrow> h' b = h b"
  shows "tree_at geo h' head level (l' # us)"
proof -
  have "fst ` set l \<inter> set (node_addrs us) = {}" using assms(1) by (auto simp: tree_at_def)
  then have "\<forall>l \<in> set us. nodes_at geo h' l"
    using assms(1) by (intro all_nodes_other [of us geo h h']) (auto simp: tree_at_def intro!: assms(4))
  moreover have "l' \<noteq> [] \<longleftrightarrow> l \<noteq> []" "l \<noteq> [] \<Longrightarrow> fst (hd l') = fst (hd l)" using assms(2) by (cases l; cases l'; simp)+
  moreover have "fst (hd l') = fst (hd l)" using assms(2) by (cases l; cases l'; simp)
  ultimately show ?thesis using assms(1-3) by (auto simp: tree_at_def)
qed

lemma tree_at_height: "tree_at geo h head level (l # us) \<Longrightarrow> bt_height head = level + length us"
  by (simp add: tree_at_def)

lemma tree_at_node:
  assumes "tree_at geo h head level ((xs @ (a, es) # ys) # us)"
  shows "a \<noteq> 0" "node_at geo h a (map strip es)" "nodes_at geo h xs" "nodes_at geo h ys"
    "a \<notin> fst ` set xs" "a \<notin> fst ` set ys" "a \<notin> set (node_addrs us)" "h a \<noteq> None"
  using assms by (auto simp: tree_at_def node_at_def)

lemma insert_unfold:
  assumes "retry \<or> v \<noteq> 0 \<and> level \<le> bt_height head"
  shows "btree_insert_level retry alloc geo head p v level h =
    Option.bind (find_level head geo p level h) (\<lambda>(node, h). Option.bind (getpos geo node p h) (\<lambda>pos.
    Option.bind (getfill geo node pos h) (\<lambda>fill.
    Option.bind (if pos < fill then Option.bind (keycmp geo node pos p h) (\<lambda>c. Some (c = 0)) else Some False) (\<lambda>same.
    if same then None
    else if fill = no_pairs geo then
      Option.bind (rebalance_insert alloc (btree_insert_level False alloc geo) head geo p node level h) (\<lambda>(err, head, h).
        if err \<noteq> 0 then Some (err, head, h) else btree_insert_level True alloc geo head p v level h)
    else Option.bind (insert_pair geo node p v pos fill h) (\<lambda>h. Some (0, head, h))))))"
  using assms by (subst btree_insert_level.simps) auto

context geometry
begin

lemma insert_found:
  assumes "retry \<or> v \<noteq> 0 \<and> level \<le> bt_height head" "find_level head geo p level h = Some (a, h1)"
    and "node_at geo h1 a (map strip es)" "key_at geo h1 p k" "k \<notin> fst ` set es"
  shows "btree_insert_level retry alloc geo head p v level h =
    (if length es = no_pairs geo then
       Option.bind (rebalance_insert alloc (btree_insert_level False alloc geo) head geo p a level h1) (\<lambda>(err, head, h).
         if err \<noteq> 0 then Some (err, head, h) else btree_insert_level True alloc geo head p v level h)
     else Option.bind (insert_pair geo a p v (length (takeWhile (\<lambda>e. k < fst e) es)) (length es) h1) (\<lambda>h. Some (0, head, h)))"
proof -
  let ?pos = "length (takeWhile (\<lambda>e. k < fst e) es)"
  have pos: "?pos \<le> length es" by (rule length_takeWhile_le)
  have "getpos geo a p h1 = Some ?pos" using getpos_node [OF assms(3,4)] by simp
  moreover have "getfill geo a ?pos h1 = Some (length es)" using getfill_node [OF assms(3)] pos by simp
  moreover have "(if ?pos < length es then Option.bind (keycmp geo a ?pos p h1) (\<lambda>c. Some (c = 0)) else Some False) = Some False"
  proof (cases "?pos < length es")
    case True
    then have "fst (es ! ?pos) \<noteq> k" using assms(5) by (metis image_eqI nth_mem)
    then show ?thesis using node_at_keycmp [OF assms(3,4), of ?pos] True by simp
  qed simp
  ultimately show ?thesis using insert_unfold [OF assms(1), of alloc geo p h] assms(2) by simp
qed

lemma insert_fit:
  assumes t: "tree_at geo h1 head level (l # us)" and lv: "levels_ok (l # us)" and b: "us \<noteq> [] \<Longrightarrow> big (l # us)"
    and l: "l = xs @ (a, es) # ys" and rs: "reserved us (length xs) k" and k: "key_at geo h1 p k" "fst p \<notin> set (node_addrs (l # us))"
    and f: "find_level head geo p level h = Some (a, h1)"
    and v: "v \<noteq> 0" and new: "k \<notin> fst ` set (entries_of l)" and room: "length es < no_pairs geo"
  shows "insert_ok geo h1 level (l # us) k v (btree_insert_level retry alloc geo head p v level h)"
proof -
  let ?fs = "add_entry k v es" let ?l = "xs @ (a, ?fs) # ys"
  let ?h = "h1(a \<mapsto> node_block geo (map strip ?fs))"
  note n = tree_at_node [OF t [unfolded l]]
  have hl: "level \<le> bt_height head" using tree_at_height [OF t] by simp
  have "k \<notin> fst ` set es" using new l by auto
  then have "btree_insert_level retry alloc geo head p v level h =
      Option.bind (insert_pair geo a p v (length (takeWhile (\<lambda>e. k < fst e) es)) (length es) h1) (\<lambda>h. Some (0, head, h))"
    using insert_found [OF _ f n(2) k(1), of retry v] v hl room by simp
  also have "insert_pair geo a p v (length (takeWhile (\<lambda>e. k < fst e) es)) (length es) h1 = Some ?h"
    using insert_pair_node [OF n(2) _ _ k(1), of "length (takeWhile (\<lambda>e. k < fst e) es)" v] room k(2) l
    by (simp add: map_strip_add_entry length_takeWhile_le)
  finally have r: "btree_insert_level retry alloc geo head p v level h = Some (0, head, ?h)" by simp
  have ok: "entries_ok geo (map strip ?fs)"
    unfolding map_strip_add_entry using node_atD(3) [OF n(2)] room v key_at_length [OF k(1)]
    by (simp del: takeWhile_strip) (simp add: entries_ok_def length_takeWhile_le)
  have t': "tree_at geo ?h head level (?l # us)"
  proof (rule tree_at_change [OF t])
    show "nodes_at geo ?h ?l" using ok n by (auto intro: nodes_at_upd)
  qed (auto simp: l)
  have c: "entries_of ?l = add_entry k v (entries_of l)" using add_entry_contents [OF lv [unfolded l] rs] by (simp add: l)
  have "separated (entries_of xs @ ?fs @ entries_of ys)"
    using separated_add_entry [OF levels_ok_sep [OF lv] new, of v] c by (simp del: separated_append)
  then have lv': "levels_ok (?l # us)" by (rule levels_ok_replace [OF lv [unfolded l] rs _ gkeys_add_entry])
  have "2 \<le> length es \<Longrightarrow> 2 \<le> length ?fs"
    using arg_cong [OF map_strip_add_entry [of k v es], of length] length_takeWhile_le [of _ es] by simp
  then have "us \<noteq> [] \<longrightarrow> big (?l # us)" using b l by auto
  moreover have "heap_frame h1 (set (node_addrs (l # us))) ?h (set (node_addrs (?l # us)))"
    unfolding l by (simp add: heap_frame_def)
  ultimately show ?thesis unfolding insert_ok_def r using t' lv' c by (intro exI conjI) (rule refl | assumption | simp)+
qed

end

end
