(* ===== verification/Btree_Split.thy ===== *)
theory Btree_Split
  imports Btree_Add
begin

text \<open>
  Insertion into a full node: a new root, the neighbours that take entries over, and splitting.
\<close>

section \<open>Entries move between two neighbours\<close>

lemma tree_at_nodes:
  assumes "tree_at geo h head level ls" "map (map fst) ls' = map (map fst) ls" "\<forall>l \<in> set ls'. nodes_at geo h' l"
  shows "tree_at geo h' head level ls'"
proof -
  have 1: "node_addrs ls' = node_addrs ls" "length ls' = length ls"
    using assms(2) map_eq_imp_length_eq [OF assms(2)] by (simp_all add: node_addrs_def)
  have "fst (hd (last ls')) = fst (hd (last ls))" if "ls \<noteq> []"
  proof -
    have "ls' \<noteq> []" using that 1(2) by auto
    moreover have "last (map (map fst) ls') = last (map (map fst) ls)" by (simp only: assms(2))
    ultimately have "map fst (last ls') = map fst (last ls)" using that by (simp add: last_map)
    then show ?thesis by (cases "last ls"; cases "last ls'") simp_all
  qed
  moreover have "ls' \<noteq> [] \<longleftrightarrow> ls \<noteq> []" using 1(2) by auto
  ultimately show ?thesis using assms(1,3) 1 by (simp add: tree_at_def)
qed

lemma steal_state:
  assumes t: "tree_at geo h head level (l # u # us)" and lv: "levels_ok (l # u # us)"
    and l: "l = xs @ (al, X0) # (ar, Y0) # ys" and u: "u = xu @ (P, ps1 @ (s1, al, K1) # (s2, ar, K2) # ps2) # yu"
    and len: "length xs = length (entries_of xu) + length ps1" and rs: "reserved us (length xu) k0"
    and XY: "X @ Y = X0 @ Y0" "X \<noteq> []" "Y \<noteq> []"
    and h': "node_at geo h' al (map strip X)" "node_at geo h' ar (map strip Y)"
      "node_at geo h' P (map strip (ps1 @ (fst (last X), al, K1) # (s2, ar, K2) # ps2))"
      "\<And>b. b \<noteq> al \<Longrightarrow> b \<noteq> ar \<Longrightarrow> b \<noteq> P \<Longrightarrow> h' b = h b"
  shows "\<exists>l' u'. tree_at geo h' head level (l' # u' # us) \<and> levels_ok (l' # u' # us) \<and>
    l' = xs @ (al, X) # (ar, Y) # ys \<and> map fst u' = map fst u \<and> map (length \<circ> snd) u' = map (length \<circ> snd) u \<and>
    (k \<in> K1 \<union> K2 \<longrightarrow> reserved (u' # us) (length xs) k \<or> reserved (u' # us) (Suc (length xs)) k)"
proof -
  let ?m = "fst (last X)" let ?KX = "{x \<in> K1 \<union> K2. ?m \<le> x}" let ?KY = "{x \<in> K1 \<union> K2. x < ?m}"
  let ?ps = "ps1 @ (?m, al, ?KX) # (s2, ar, ?KY) # ps2" let ?u = "xu @ (P, ?ps) # yu" let ?l = "xs @ (al, X) # (ar, Y) # ys"
  have lk: "child_linked l (entries_of u)" and sl: "separated (entries_of l)" using lv by simp_all
  have su: "separated (entries_of u)" using levels_ok_sep levels_ok_tl [OF lv] by simp
  have cu: "entries_of u = (entries_of xu @ ps1) @ (s1, al, K1) # (s2, ar, K2) # (ps2 @ entries_of yu)" by (simp add: u)
  have lk2: "child_linked xs (entries_of xu @ ps1)" "gkeys X0 \<subseteq> K1" "gkeys Y0 \<subseteq> K2" "child_linked ys (ps2 @ entries_of yu)"
    using lk len unfolding l cu by (subst (asm) linked_app; simp)+
  have "separated (X0 @ Y0)" using sl by (simp add: l)
  then have sXY: "separated (X @ Y)" unfolding XY(1) .
  have g: "gkeys (X @ Y) \<subseteq> K1 \<union> K2" unfolding XY(1) using lk2(2,3) by auto
  note mb = move_boundary [OF su [unfolded cu] sXY g XY(2,3)]
  have "separated (entries_of xu @ ?ps @ entries_of yu)" using mb(1) by (simp only: append_assoc append_Cons)
  moreover have "gkeys ?ps \<subseteq> insert k0 (gkeys (ps1 @ (s1, al, K1) # (s2, ar, K2) # ps2))" using mb(4) by auto
  ultimately have lu: "levels_ok (?u # us)" by (rule levels_ok_replace [OF levels_ok_tl [OF lv, unfolded u] rs])
  have cu': "entries_of ?u = (entries_of xu @ ps1) @ (?m, al, ?KX) # (s2, ar, ?KY) # (ps2 @ entries_of yu)" by simp
  have "child_linked ?l (entries_of ?u)" unfolding cu' using lk2(1,4) mb(2,3) len by (subst linked_app) simp_all
  moreover have "entries_of ?l = entries_of xs @ (X @ Y) @ entries_of ys" by simp
  then have "entries_of ?l = entries_of l" unfolding XY(1) by (simp add: l)
  then have "separated (entries_of ?l)" using sl by (simp only:)
  ultimately have lv': "levels_ok (?l # ?u # us)" using lu by (simp del: contents_simps separated_append)
  have d: "distinct (node_addrs (l # u # us))" and n: "\<forall>l \<in> set (l # u # us). nodes_at geo h l" using t by (simp_all add: tree_at_def)
  have "tree_at geo h' head level (?l # ?u # us)"
  proof (rule tree_at_nodes [OF t])
    have other: "nodes_at geo h' z" if "nodes_at geo h z" "{al, ar, P} \<inter> fst ` set z = {}" for z
      by (rule nodes_at_other [OF that(1)], rule h'(4)) (use that(2) in auto)
    have D: "{al, ar, P} \<inter> fst ` set xs = {}" "{al, ar, P} \<inter> fst ` set ys = {}" "{al, ar, P} \<inter> fst ` set xu = {}"
      "{al, ar, P} \<inter> fst ` set yu = {}" "{al, ar, P} \<inter> set (node_addrs us) = {}" using d unfolding l u by auto
    have "nodes_at geo h' xs" "nodes_at geo h' ys" "nodes_at geo h' xu" "nodes_at geo h' yu"
      using n unfolding l u by (simp_all add: other D)
    moreover have "\<forall>l \<in> set us. nodes_at geo h' l"
    proof
      fix z assume z: "z \<in> set us"
      then have "{al, ar, P} \<inter> fst ` set z = {}" using D(5) by (auto simp: node_addrs_def)
      then show "nodes_at geo h' z" using n z by (intro other) simp_all
    qed
    moreover have "al \<noteq> 0" "ar \<noteq> 0" "P \<noteq> 0" using n unfolding l u by simp_all
    moreover have "map strip ?ps = map strip (ps1 @ (?m, al, K1) # (s2, ar, K2) # ps2)" by (simp add: strip_def)
    ultimately show "\<forall>l \<in> set (?l # ?u # us). nodes_at geo h' l" using h'(1-3) by simp
  qed (simp add: l u)
  moreover have "reserved (?u # us) (length xs) k \<or> reserved (?u # us) (Suc (length xs)) k" if "k \<in> K1 \<union> K2"
    using that len by (auto simp: reserved_def nth_append)
  moreover have "map (length \<circ> snd) ?u = map (length \<circ> snd) u" "map fst ?u = map fst u" by (simp_all add: u)
  ultimately show ?thesis using lv' by blast
qed

section \<open>A new root\<close>

text \<open>The allocator: \<^verbatim>\<open>calloc\<close> answers with free memory or with the null pointer.\<close>

definition fresh_alloc :: "(bheap \<Rightarrow> u64) \<Rightarrow> bool" where
  "fresh_alloc alloc \<longleftrightarrow> (\<forall>h. alloc h \<noteq> 0 \<longrightarrow> h (alloc h) = None)"

lemma concat_zero: "concat (replicate n (replicate m x)) = replicate (n * m) x"
  by (induction n) (simp_all add: replicate_add)

context geometry
begin

lemma empty_node: "replicate node_longs 0 = node_block geo []"
proof -
  have "no_pairs geo * keylen geo + (no_pairs geo + (node_longs - no_pairs geo * (keylen geo + 1))) = node_longs"
    using node_fits by (simp add: algebra_simps)
  moreover have "no_pairs geo * keylen geo \<le> node_longs" using node_fits by (simp add: algebra_simps)
  ultimately show ?thesis
    by (simp add: node_block_def enc_def pad_slots_def zero_pair_def concat_zero flip: replicate_add)
qed

lemma alloc_eq:
  "btree_node_alloc alloc h = (alloc h, if alloc h = 0 then h else h(alloc h \<mapsto> node_block geo []))"
  by (simp add: btree_node_alloc_def Let_def empty_node)

lemma btree_grow_eq:
  assumes "bt_node head = node" "node_at geo h node (map strip es)" "es \<noteq> []" "node \<noteq> 0" "alloc h \<noteq> 0" "h (alloc h) = None"
  shows "btree_grow alloc head geo h = Some (0, head\<lparr>bt_node := alloc h, bt_height := bt_height head + 1\<rparr>,
    h(alloc h \<mapsto> node_block geo [(fst (last es), node)]))"
proof -
  let ?r = "alloc h" let ?h = "h(?r \<mapsto> node_block geo [])" let ?m = "fst (last es)"
  let ?S = "pad_slots geo []" let ?S1 = "?S[0 := (?m, snd (?S ! 0))]" let ?S2 = "?S1[0 := (fst (?S1 ! 0), node)]"
  have ne: "node \<noteq> ?r" using assms(2,6) by (auto simp: node_at_def)
  have n: "node_at geo ?h node (map strip es)" using assms(2) ne by simp
  have N: "0 < no_pairs geo" using no_pairs_4 by simp
  have ok: "slots_ok geo ?S" by (rule slots_ok_pad) simp
  have hr: "?h ?r = Some (enc geo ?S)" by (simp add: node_block_def)
  have k: "key_at geo ?h (bkey geo node (length es - 1)) ?m"
    using node_at_key [OF n, of "length es - 1"] assms(3) by (simp add: last_conv_nth)
  have "getfill geo node 0 ?h = Some (Suc (length es - 1))" using getfill_node [OF n, of 0] assms(3) by simp
  moreover have "setkeyb geo ?r (bkey geo node (length es - 1)) 0 ?h = Some (?h(?r \<mapsto> enc geo ?S1))"
    by (rule setkeyb_slot [OF hr ok N k]) (simp add: bkey_def ne)
  moreover have "slots_ok geo ?S1" using ok key_at_length [OF k] by (simp add: slots_ok_upd)
  then have "setval geo ?r node 0 (?h(?r \<mapsto> enc geo ?S1)) = Some (?h(?r \<mapsto> enc geo ?S1, ?r \<mapsto> enc geo ?S2))"
    using N by (intro setval_slot) simp_all
  moreover have "?S2 = pad_slots geo [(?m, node)]" using N by (cases "no_pairs geo") (simp_all add: pad_slots_def)
  ultimately show ?thesis using assms(1,4,5) by (simp add: btree_grow_def alloc_eq node_block_def)
qed

lemma grow_insert:
  assumes "bt_height head = level" "bt_node head = node" "node \<noteq> 0" "node_at geo h node (map strip es)" "es \<noteq> []"
    and "key_at geo h p k" "fst (last es) < k" "v \<noteq> 0" "fresh_alloc alloc"
  shows "btree_insert_level False alloc geo head p v (level + 1) h =
    (if alloc h = 0 then Some (- ENOMEM, head, h)
     else Some (0, head\<lparr>bt_node := alloc h, bt_height := level + 1\<rparr>,
       h(alloc h \<mapsto> node_block geo [(k, v), (fst (last es), node)])))"
proof (cases "alloc h = 0")
  case True
  then have "btree_grow alloc head geo h = Some (- ENOMEM, head, h)" by (simp add: btree_grow_def alloc_eq)
  then show ?thesis using True assms(1,8) by (subst btree_insert_level.simps) (simp add: ENOMEM_def)
next
  case False
  let ?r = "alloc h" let ?m = "fst (last es)" let ?head = "head\<lparr>bt_node := ?r, bt_height := level + 1\<rparr>"
  let ?h = "h(?r \<mapsto> node_block geo [(?m, node)])"
  have fr: "h ?r = None" using assms(9) False by (simp add: fresh_alloc_def)
  have g: "btree_grow alloc head geo h = Some (0, ?head, ?h)"
    using btree_grow_eq [of head node h es alloc, OF assms(2,4,5,3) False fr] assms(1) by simp
  have "length ?m = keylen geo" using entries_okD(2) [OF node_atD(3) [OF assms(4)], of "strip (last es)"] assms(5) by simp
  then have ok: "entries_ok geo (map strip [(?m, node, {})])" using assms(3) no_pairs_4 by (simp add: strip_def)
  have n: "node_at geo ?h ?r (map strip [(?m, node, {})])" using ok by (simp add: strip_def)
  have "fst p \<noteq> ?r" using assms(6) fr by (auto simp: key_at_def)
  then have k: "key_at geo ?h p k" using assms(6) by (auto intro: key_at_other)
  have f: "find_level ?head geo p (level + 1) ?h = Some (?r, ?h)" using False by (simp add: find_level_def)
  have "btree_insert_level False alloc geo head p v (level + 1) h = btree_insert_level True alloc geo ?head p v (level + 1) ?h"
    using g assms(1,8) by (subst (1 2) btree_insert_level.simps) simp
  also have "\<dots> = Option.bind (insert_pair geo ?r p v 0 1 ?h) (\<lambda>h. Some (0, ?head, h))"
    using insert_found [of True v "level + 1" ?head p ?h ?r ?h "[(?m, node, {})]" k alloc, OF _ f n k] assms(7) less_not_sym [OF assms(7)] no_pairs_4
    by simp
  also have "insert_pair geo ?r p v 0 (length (map strip [(?m, node, {})])) ?h =
      Some (?h(?r \<mapsto> node_block geo (take 0 (map strip [(?m, node, {})]) @ (k, v) # drop 0 (map strip [(?m, node, {})]))))"
    by (rule insert_pair_node [OF n]) (use no_pairs_4 k \<open>fst p \<noteq> ?r\<close> in simp_all)
  then have "insert_pair geo ?r p v 0 1 ?h = Some (h(?r \<mapsto> node_block geo [(k, v), (?m, node)]))" by (simp add: strip_def)
  finally show ?thesis using False by simp
qed

end

section \<open>Splitting\<close>

lemma tree_at_alloc: "tree_at geo h head level ls \<Longrightarrow> a \<in> set (node_addrs ls) \<Longrightarrow> h a \<noteq> None \<and> a \<noteq> 0"
  by (auto simp: tree_at_def node_addrs_def nodes_at_def node_at_def)

lemma tree_at_other:
  "tree_at geo h head level ls \<Longrightarrow> (\<And>a. a \<in> set (node_addrs ls) \<Longrightarrow> h' a = h a) \<Longrightarrow> tree_at geo h' head level ls"
  unfolding tree_at_def using all_nodes_other [of ls geo h h'] by blast

lemma tree_at_head:
  assumes "tree_at geo h head level (l # us)" "tree_at geo h' head' (Suc level) (u' # us')" "nodes_at geo h' l'"
    and "distinct (map fst l')" "fst ` set l' \<inter> set (node_addrs (u' # us')) = {}"
  shows "tree_at geo h' head' level (l' # u' # us')"
  using assms by (auto simp: tree_at_def)

context geometry
begin

lemma split_finish:
  assumes t: "tree_at geo h head level (l # us)" and lv: "levels_ok (l # us)" and l: "l = xs @ (a, es) # ys"
    and full: "length es = no_pairs geo" and new: "alloc h = new" "new \<noteq> 0" "h new = None"
    and r: "R head (bkey geo a (no_pairs geo div 2 - 1)) new (level + 1) (h(new \<mapsto> node_block geo [])) = Some (0, head', h4)"
    and up: "tree_at geo h4 head' (Suc level) (u' # us')" "levels_ok (u' # us')" "big (u' # us')"
    and fr: "heap_frame (h(new \<mapsto> node_block geo [])) (set (node_addrs us)) h4 (set (node_addrs (u' # us')))"
    and C: "entries_of u' = A @ (ks, new, {x \<in> K. ks \<le> x}) # (s, a, {x \<in> K. x < ks}) # B" "child_linked xs A" "child_linked ys B"
    and K: "gkeys es \<subseteq> K" "ks = fst (es ! (no_pairs geo div 2 - 1))"
    and b: "\<forall>n \<in> set xs \<union> set ys. 2 \<le> length (snd n)"
  defines "l2 \<equiv> xs @ (new, take (no_pairs geo div 2) es) # (a, drop (no_pairs geo div 2) es) # ys"
  shows "\<exists>h'. split alloc R head geo a level h = Some (0, head', h') \<and> tree_at geo h' head' level (l2 # u' # us') \<and>
    levels_ok (l2 # u' # us') \<and> big (l2 # u' # us') \<and>
    heap_frame h (set (node_addrs (l # us))) h' (set (node_addrs (l2 # u' # us')))"
proof -
  let ?m = "no_pairs geo div 2" let ?X = "take ?m es" let ?Y = "drop ?m es" let ?h3 = "h(new \<mapsto> node_block geo [])"
  let ?h = "h4(new \<mapsto> node_block geo (map strip ?X), a \<mapsto> node_block geo (map strip ?Y))"
  note na = tree_at_node [OF t [unfolded l]]
  have N: "2 \<le> ?m" "?m + 2 \<le> no_pairs geo" using no_pairs_4 by simp_all
  have nl: "new \<notin> set (node_addrs (l # us))" using tree_at_alloc [OF t, of new] new(3) by auto
  have D: "distinct (map fst l)" "fst ` set l \<inter> set (node_addrs us) = {}" using t by (auto simp: tree_at_def)
  have keep: "h4 x = h x \<and> x \<notin> set (node_addrs (u' # us'))" if "x \<in> fst ` set l" for x
  proof -
    have "?h3 x \<noteq> None" "x \<noteq> new" using tree_at_alloc [OF t, of x] that nl by auto
    moreover have "x \<notin> set (node_addrs us)" using that D by auto
    ultimately show ?thesis using heap_frame_same [OF fr, of x] by simp
  qed
  have h4n: "h4 new = Some (node_block geo [])" "new \<notin> set (node_addrs (u' # us'))"
    using heap_frame_same [OF fr, of new] nl by auto
  have an: "a \<noteq> new" using nl l by auto
  have n4: "node_at geo h4 a (map strip es)" using na(2) by (rule node_at_other) (use keep l in auto)
  moreover have "node_at geo h4 new []" using h4n(1) by (simp add: node_at_def node_block_def)
  ultimately have mv: "split_move geo a new (no_pairs geo) h4 = Some ?h"
    using split_move_node [of h4 a "map strip es" new] full an by (simp add: take_map drop_map)
  have s: "split alloc R head geo a level h = Some (0, head', ?h)"
    using r mv new by (simp add: split_def alloc_eq Let_def)
  have ok: "entries_ok geo (map strip ?X)" "entries_ok geo (map strip ?Y)"
    using entries_ok_take [OF node_atD(3) [OF n4]] entries_ok_drop [OF node_atD(3) [OF n4]] by (simp_all add: take_map drop_map)
  have nodes: "nodes_at geo ?h l2"
  proof -
    have "nodes_at geo ?h xs" "nodes_at geo ?h ys"
      by (rule nodes_at_other [of geo h]; use na nl keep l in \<open>auto simp: tree_at_def\<close>)+
    moreover have "node_at geo ?h new (map strip ?X)" "node_at geo ?h a (map strip ?Y)"
      using ok an by simp_all
    ultimately show ?thesis using new(2) na(1) an by (simp add: l2_def del: node_at_upd)
  qed
  have al2: "fst ` set l2 = insert new (fst ` set l)" "distinct (map fst l2)"
    using D nl unfolding l2_def l by auto
  have t2: "tree_at geo ?h head' (Suc level) (u' # us')"
  proof (rule tree_at_other [OF up(1)])
    have "new \<notin> set (node_addrs (u' # us'))" "a \<notin> set (node_addrs (u' # us'))" using h4n(2) keep [of a] l by auto
    then show "?h x = h4 x" if "x \<in> set (node_addrs (u' # us'))" for x using that by (metis fun_upd_other)
  qed
  have t': "tree_at geo ?h head' level (l2 # u' # us')"
    by (rule tree_at_head [OF t t2 nodes al2(2)]) (use al2(1) keep h4n(2) in auto)
  have sep: "separated (entries_of l)" using lv by (rule levels_ok_sep)
  have c2: "entries_of l2 = entries_of l" by (simp add: l2_def l flip: append_assoc)
  have sXY: "separated (?X @ ?Y)" using sep l by simp
  have X0: "?X \<noteq> []" using full N by (auto simp: take_eq_Nil)
  have lX: "fst (last ?X) = ks" unfolding last_conv_nth [OF X0] using full N K(2) by simp
  have "separated ?X" using sXY by (simp only: separated_append)
  then have "\<forall>x \<in> gkeys ?X. ks \<le> x" using last_least [OF _ X0] lX by simp
  moreover have "\<forall>x \<in> gkeys ?Y. x < ks" using sXY last_in_set [OF X0] lX unfolding separated_append by blast
  moreover have "gkeys ?X \<subseteq> K" "gkeys ?Y \<subseteq> K" using K(1) gkeys_simps(3) [of ?X ?Y] by auto
  ultimately have gXY: "gkeys ?X \<subseteq> {x \<in> K. ks \<le> x}" "gkeys ?Y \<subseteq> {x \<in> K. x < ks}" by blast+
  have "child_linked l2 (entries_of u')" unfolding l2_def C(1)
    by (subst linked_app) (use C(2,3) linked_length [OF C(2)] gXY in simp_all)
  then have "levels_ok (l2 # u' # us')" using up(2) sep unfolding levels_ok.simps c2 by blast
  moreover have "big (l2 # u' # us')" using up(3) b N full by (auto simp: l2_def)
  moreover have "heap_frame h (set (node_addrs (l # us))) ?h (set (node_addrs (l2 # u' # us')))"
  proof -
    have "heap_frame h (set (node_addrs (l # us))) ?h3 (insert new (set (node_addrs (l # us))))"
      using new(3) nl by (auto simp: heap_frame_def)
    moreover have "heap_frame ?h3 (insert new (set (map fst l)) \<union> set (node_addrs us)) h4 (insert new (set (map fst l)) \<union> set (node_addrs (u' # us')))"
      by (rule heap_frame_more [OF fr])
    then have "heap_frame ?h3 (insert new (set (node_addrs (l # us)))) h4 (set (node_addrs (l2 # u' # us')))" using al2(1) by simp
    moreover have "heap_frame h4 (set (node_addrs (l2 # u' # us'))) ?h (set (node_addrs (l2 # u' # us')))"
      using al2(1) l by (intro heap_frame_refl) auto
    ultimately show ?thesis by (meson heap_frame_trans)
  qed
  ultimately show ?thesis using s t' by blast
qed

end

section \<open>A full node makes room\<close>

text \<open>The key belongs to one of two nodes that are not full.\<close>

definition roomy :: "btree_geo \<Rightarrow> u64 list \<Rightarrow> level \<Rightarrow> level list \<Rightarrow> bool" where
  "roomy geo k l us \<longleftrightarrow> (\<exists>xs n1 n2 ys. l = xs @ n1 # n2 # ys \<and>
     length (snd n1) < no_pairs geo \<and> length (snd n2) < no_pairs geo \<and>
     (reserved us (length xs) k \<or> reserved us (Suc (length xs)) k \<or> xs = [] \<and> ys = []))"

definition rebalance_ok :: "btree_geo \<Rightarrow> bheap \<Rightarrow> nat \<Rightarrow> level list \<Rightarrow> u64 list \<Rightarrow> (int \<times> btree_head \<times> bheap) option \<Rightarrow> bool" where
  "rebalance_ok geo h level ls k r \<longleftrightarrow> (\<exists>err head' h' l' us'. r = Some (err, head', h') \<and>
     tree_at geo h' head' level (l' # us') \<and> levels_ok (l' # us') \<and> (us' \<noteq> [] \<longrightarrow> big (l' # us')) \<and>
     heap_frame h (set (node_addrs ls)) h' (set (node_addrs (l' # us'))) \<and> entries_of l' = entries_of (hd ls) \<and>
     (err = - ENOMEM \<or> err = 0 \<and> roomy geo k l' us'))"

lemma heap_frame_free:
  assumes "heap_frame (h(new \<mapsto> w)) A h' A'" "new \<notin> A" "new \<notin> A'" "h new = None"
  shows "heap_frame h A (h'(new := None)) A'"
proof -
  have "\<And>b. b \<in> A' - A \<Longrightarrow> h b = None" "\<And>b. b \<in> A - A' \<Longrightarrow> h' b = None"
    "\<And>b. b \<notin> A \<union> A' \<Longrightarrow> b \<noteq> new \<Longrightarrow> h' b = h b"
    using assms by (auto simp: heap_frame_def split: if_splits)
  then show ?thesis using assms(2-4) unfolding heap_frame_def by auto
qed

lemma roomyI:
  "length (snd n1) < no_pairs geo \<Longrightarrow> length (snd n2) < no_pairs geo \<Longrightarrow>
   reserved us (length xs) k \<or> reserved us (Suc (length xs)) k \<or> xs = [] \<and> ys = [] \<Longrightarrow> roomy geo k (xs @ n1 # n2 # ys) us"
  unfolding roomy_def by blast

lemma length_add_entry [simp]: "length (add_entry k v es) = Suc (length es)"
proof -
  have "length (put_entry k v qs) = Suc (length qs)" for qs by (cases "(k, v, qs)" rule: put_entry.cases) simp_all
  moreover have "length es = length (takeWhile (\<lambda>e. k < fst e) es) + length (dropWhile (\<lambda>e. k < fst e) es)"
    by (metis length_append takeWhile_dropWhile_id)
  ultimately show ?thesis by (simp add: add_entry_def)
qed

lemma bfree_new: "h new = None \<Longrightarrow> new \<noteq> 0 \<Longrightarrow> bfree new (h(new \<mapsto> ws)) = Some h"
  by (simp add: bfree_def fun_upd_idem)

context geometry
begin

lemma split_root:
  assumes t: "tree_at geo h head level [[(a, es)]]" and lv: "levels_ok [[(a, es)]]" and full: "length es = no_pairs geo"
    and al: "fresh_alloc alloc"
  shows "rebalance_ok geo h level [[(a, es)]] k (split alloc (btree_insert_level False alloc geo) head geo a level h)"
proof (cases "alloc h = 0")
  case True
  then have "split alloc (btree_insert_level False alloc geo) head geo a level h = Some (- ENOMEM, head, h)"
    by (simp add: split_def alloc_eq Let_def)
  then show ?thesis unfolding rebalance_ok_def using t lv
    by (intro exI [of _ "- ENOMEM"] exI [of _ head] exI [of _ h] exI [of _ "[(a, es)]"] exI [of _ "[]"]) (simp add: heap_frame_refl)
next
  case False
  let ?R = "btree_insert_level False alloc geo" let ?m = "no_pairs geo div 2" let ?p = "bkey geo a (?m - 1)"
  let ?new = "alloc h" let ?h3 = "h(?new \<mapsto> node_block geo [])" let ?ks = "fst (es ! (?m - 1))" let ?s = "fst (last es)"
  let ?K = "gkeys es" let ?root = "alloc ?h3" let ?head = "head\<lparr>bt_node := ?root, bt_height := level + 1\<rparr>"
  let ?u = "[(?root, [(?ks, ?new, {x \<in> ?K. ?ks \<le> x}), (?s, a, {x \<in> ?K. x < ?ks})])]"
  let ?h4 = "?h3(?root \<mapsto> node_block geo [(?ks, ?new), (?s, a)])"
  have fr: "h ?new = None" using al False by (simp add: fresh_alloc_def)
  have ta: "a \<noteq> 0" "node_at geo h a (map strip es)" using t by (simp_all add: tree_at_def)
  have N: "2 \<le> ?m" "?m + 2 \<le> no_pairs geo" using no_pairs_4 by simp_all
  have ne: "es \<noteq> []" "a \<noteq> ?new" using full N ta(2) fr by (auto simp: node_at_def)
  have n3: "node_at geo ?h3 a (map strip es)" using ta(2) ne(2) by (auto intro: node_at_other)
  have hd: "bt_height head = level" "bt_node head = a" using t by (simp_all add: tree_at_def)
  have key: "key_at geo ?h3 ?p ?ks" using node_at_key [OF n3, of "?m - 1"] full N by simp
  have sep: "separated es" using lv by simp
  have "es = take ?m es @ drop ?m es" by simp
  then have sl: "?s < ?ks"
  proof -
    have e: "es = take (?m - 1) es @ es ! (?m - 1) # drop ?m es"
      using id_take_nth_drop [of "?m - 1" es] full N by simp
    have d: "drop ?m es \<noteq> []" using full N by simp
    have "last es \<in> set (drop ?m es)" using d by (metis last_drop last_in_set length_drop length_0_conv not_le drop_all)
    then show ?thesis using sep gkeysI(1) by (subst (asm) e) auto
  qed
  have gi: "?R head ?p ?new (level + 1) ?h3 = (if ?root = 0 then Some (- ENOMEM, head, ?h3) else Some (0, ?head, ?h4))"
    using grow_insert [OF hd ta(1) n3 ne(1) key sl False al] by simp
  show ?thesis
  proof (cases "?root = 0")
    case True
    then have "split alloc ?R head geo a level h = Some (- ENOMEM, head, h)"
      using gi False by (simp add: split_def alloc_eq Let_def bfree_new [of h, OF fr False] ENOMEM_def del: fun_upd_apply)
    then show ?thesis unfolding rebalance_ok_def using t lv
      by (intro exI [of _ "- ENOMEM"] exI [of _ head] exI [of _ h] exI [of _ "[(a, es)]"] exI [of _ "[]"]) (simp add: heap_frame_refl)
  next
    case root: False
    have fr3: "?h3 ?root = None" using al root unfolding fresh_alloc_def by blast
    have len: "length ?ks = keylen geo" "length ?s = keylen geo"
      using entries_okD(2) [OF node_atD(3) [OF ta(2)], of "strip (es ! (?m - 1))"] entries_okD(2) [OF node_atD(3) [OF ta(2)], of "strip (last es)"]
        ne(1) full N by simp_all
    have "entries_ok geo [(?ks, ?new), (?s, a)]" using len False ta(1) N by simp
    then have up: "tree_at geo ?h4 ?head (Suc level) [?u]" using root by (simp add: tree_at_def strip_def)
    have "\<forall>x \<in> ?K. ?s \<le> x" using last_least [OF sep ne(1)] .
    then have lu: "levels_ok [?u]" using sl by auto
    have "heap_frame ?h3 (set (node_addrs [])) ?h4 (set (node_addrs [?u]))" using fr3 by (simp add: heap_frame_def)
    then obtain h' where h': "split alloc ?R head geo a level h = Some (0, ?head, h')"
      "tree_at geo h' ?head level (([] @ (?new, take ?m es) # (a, drop ?m es) # []) # [?u])"
      "levels_ok (([] @ (?new, take ?m es) # (a, drop ?m es) # []) # [?u])"
      "big (([] @ (?new, take ?m es) # (a, drop ?m es) # []) # [?u])"
      "heap_frame h (set (node_addrs ([(a, es)] # []))) h' (set (node_addrs (([] @ (?new, take ?m es) # (a, drop ?m es) # []) # [?u])))"
      using split_finish [of h head level "[(a, es)]" "[]" "[]" a es "[]" alloc ?new ?R ?head ?h4 ?u "[]" "[]" ?ks ?K ?s "[]"]
        t lv full False fr gi root up lu by auto
    have "roomy geo k ([] @ (?new, take ?m es) # (a, drop ?m es) # []) [?u]"
      by (rule roomyI) (use full N in simp_all)
    then show ?thesis unfolding rebalance_ok_def using h'
      by (intro exI [of _ 0] exI [of _ ?head] exI [of _ h'] exI [of _ "[] @ (?new, take ?m es) # (a, drop ?m es) # []"] exI [of _ "[?u]"])
        (simp del: levels_ok.simps)
  qed
qed

lemma split_upper:
  assumes t: "tree_at geo h head level (l # u # us)" and lv: "levels_ok (l # u # us)" and b: "big (l # u # us)"
    and l: "l = xs @ (a, es) # ys" and full: "length es = no_pairs geo" and al: "fresh_alloc alloc"
    and C: "entries_of u = A @ (s, a, K) # B" "child_linked xs A" "child_linked ys B" "gkeys es \<subseteq> K" and k: "k \<in> K"
    and ih: "\<And>h p k v. tree_at geo h head (Suc level) (u # us) \<Longrightarrow> key_at geo h p k \<Longrightarrow> fst p \<notin> set (node_addrs (u # us)) \<Longrightarrow>
      v \<noteq> 0 \<Longrightarrow> k \<notin> fst ` set (entries_of u) \<Longrightarrow>
      insert_ok geo h (Suc level) (u # us) k v (btree_insert_level False alloc geo head p v (Suc level) h)"
  shows "rebalance_ok geo h level (l # u # us) k (split alloc (btree_insert_level False alloc geo) head geo a level h)"
proof (cases "alloc h = 0")
  case True
  then have "split alloc (btree_insert_level False alloc geo) head geo a level h = Some (- ENOMEM, head, h)"
    by (simp add: split_def alloc_eq Let_def)
  then show ?thesis unfolding rebalance_ok_def using t lv b
    by (intro exI [of _ "- ENOMEM"] exI [of _ head] exI [of _ h] exI [of _ l] exI [of _ "u # us"]) (simp add: heap_frame_refl)
next
  case False
  let ?R = "btree_insert_level False alloc geo" let ?m = "no_pairs geo div 2" let ?p = "bkey geo a (?m - 1)"
  let ?new = "alloc h" let ?h3 = "h(?new \<mapsto> node_block geo [])" let ?ks = "fst (es ! (?m - 1))"
  have fr: "h ?new = None" using al False by (simp add: fresh_alloc_def)
  have N: "2 \<le> ?m" "?m + 2 \<le> no_pairs geo" using no_pairs_4 by simp_all
  note ta = tree_at_node [OF t [unfolded l]]
  have nl: "?new \<notin> set (node_addrs (l # u # us))" using tree_at_alloc [OF t, of ?new] fr by auto
  have "tree_at geo h head (Suc level) (u # us)" using t by (simp add: tree_at_def)
  then have t3: "tree_at geo ?h3 head (Suc level) (u # us)" by (rule tree_at_other) (use nl in auto)
  have "node_at geo ?h3 a (map strip es)" using ta(2) nl l by (auto intro: node_at_other)
  then have key: "key_at geo ?h3 ?p ?ks" using node_at_key [of ?h3 a "map strip es" "?m - 1"] full N by simp
  have su: "separated (A @ (s, a, K) # B)" using levels_ok_sep [OF levels_ok_tl [OF lv]] C(1) by simp
  have e: "es = take (?m - 1) es @ es ! (?m - 1) # drop ?m es"
    using id_take_nth_drop [of "?m - 1" es] full N by simp
  have ksK: "?ks \<in> K" using C(4) gkeysI(1) [of "es ! (?m - 1)" es] full N by auto
  have "separated es" using levels_ok_sep [OF lv] l by simp
  moreover have dn: "drop ?m es \<noteq> []" using full N by simp
  then have "last es \<in> set (drop ?m es)" by (metis last_drop last_in_set drop_all not_le)
  ultimately have "fst (last es) < ?ks" using gkeysI(1) by (subst (asm) e) auto
  moreover have "es \<noteq> []" using full N by auto
  then have "fst (last es) \<in> K" using C(4) gkeysI(1) [of "last es" es] by auto
  then have "s \<le> fst (last es)" using su by auto
  ultimately have sk: "s < ?ks" by (rule order.strict_trans1 [rotated])
  have Ak: "\<forall>e \<in> set A. ?ks < fst e" using su ksK by auto
  have "\<forall>e \<in> set B. fst e < s" using su gkeysI(1) [of _ B] by simp
  then have "\<forall>e \<in> set B. fst e < ?ks" using sk by (meson order.strict_trans)
  then have "?ks \<notin> fst ` set (entries_of u)" using sk Ak unfolding C(1) by auto
  moreover have "fst ?p \<notin> set (node_addrs (u # us))" using t l by (auto simp: tree_at_def bkey_def)
  ultimately have "insert_ok geo ?h3 (Suc level) (u # us) ?ks ?new (?R head ?p ?new (Suc level) ?h3)"
    by (intro ih [OF t3 key] False)
  then obtain err head' h4 u' us' where r: "?R head ?p ?new (Suc level) ?h3 = Some (err, head', h4)"
    and up: "tree_at geo h4 head' (Suc level) (u' # us')" "levels_ok (u' # us')" "us' \<noteq> [] \<longrightarrow> big (u' # us')"
    and f4: "heap_frame ?h3 (set (node_addrs (u # us))) h4 (set (node_addrs (u' # us')))"
    and cu': "err = 0 \<and> entries_of u' = add_entry ?ks ?new (entries_of u) \<or> err = - ENOMEM \<and> entries_of u' = entries_of u"
    unfolding insert_ok_def list.sel by blast
  have bu: "big (u' # us')"
  proof (cases "us' = []")
    case True
    then obtain n where n: "u' = [n]" using up(2) by (auto simp: length_Suc_conv)
    have "2 \<le> length (entries_of u)"
    proof -
      obtain n0 where "n0 \<in> set u" using C(1) by (cases u) auto
      then have "2 \<le> length (snd n0)" "length (snd n0) \<le> length (entries_of u)" using b by (auto simp: entries_of_def length_concat intro: member_le_sum_list)
      then show ?thesis by simp
    qed
    moreover have "length (entries_of u) \<le> length (entries_of u')"
      using cu' by auto
    ultimately show ?thesis using n True by simp
  qed (use up(3) in simp)
  show ?thesis
  proof (cases "err = 0")
    case True
    then have "entries_of u' = add_entry ?ks ?new (A @ (s, a, K) # B)" using cu' C(1) by (auto simp: ENOMEM_def)
    also have "\<dots> = A @ put_entry ?ks ?new ((s, a, K) # B)" by (rule add_entry_append [OF Ak]) (use sk in simp)
    finally have cu2: "entries_of u' = A @ (?ks, ?new, {x \<in> K. ?ks \<le> x}) # (s, a, {x \<in> K. x < ?ks}) # B" by simp
    let ?l = "xs @ (?new, take ?m es) # (a, drop ?m es) # ys"
    obtain h' where h': "split alloc ?R head geo a level h = Some (0, head', h')"
      "tree_at geo h' head' level (?l # u' # us')" "levels_ok (?l # u' # us')" "big (?l # u' # us')"
      "heap_frame h (set (node_addrs (l # u # us))) h' (set (node_addrs (?l # u' # us')))"
      using split_finish [of h head level l "u # us" xs a es ys alloc ?new ?R head' h4 u' us' A ?ks K s B, OF t lv l full refl False fr] r True up(1,2) bu f4 cu2 C(2-4) b l
      by auto
    have "roomy geo k ?l (u' # us')"
    proof -
      have "length xs = length A" using C(2) by (rule linked_length)
      then have "reserved (u' # us') (length xs) k \<or> reserved (u' # us') (Suc (length xs)) k"
        using k by (auto simp: reserved_def cu2 nth_append not_less)
      then have "reserved (u' # us') (length xs) k \<or> reserved (u' # us') (Suc (length xs)) k \<or> xs = [] \<and> ys = []" by blast
      from roomyI [OF _ _ this] show ?thesis using full N by simp
    qed
    moreover have "entries_of ?l = entries_of l" by (simp add: l flip: append_assoc)
    ultimately show ?thesis unfolding rebalance_ok_def using h'
      by (intro exI [of _ 0] exI [of _ head'] exI [of _ h'] exI [of _ ?l] exI [of _ "u' # us'"]) (simp del: levels_ok.simps)
  next
    case False': False
    let ?h5 = "h4(?new := None)"
    have keep: "h4 x = ?h3 x \<and> x \<notin> set (node_addrs (u' # us'))" if "x \<in> insert ?new (fst ` set l)" for x
    proof -
      have "?h3 x \<noteq> None" using tree_at_alloc [OF t, of x] that by auto
      moreover have "x \<notin> set (node_addrs (u # us))" using that t nl by (auto simp: tree_at_def)
      ultimately show ?thesis using heap_frame_same [OF f4, of x] by simp
    qed
    have "h4 ?new = Some (node_block geo [])" using keep [of ?new] by simp
    then have "split alloc ?R head geo a level h = Some (err, head', ?h5)"
      using r False False' by (simp add: split_def alloc_eq Let_def bfree_def)
    moreover have "tree_at geo ?h5 head' level (l # u' # us')"
    proof (rule tree_at_head [OF t])
      show "tree_at geo ?h5 head' (Suc level) (u' # us')"
        by (rule tree_at_other [OF up(1)]) (use keep [of ?new] in auto)
      have "nodes_at geo h l" using t by (simp add: tree_at_def)
      then show "nodes_at geo ?h5 l"
      proof (rule nodes_at_other)
        fix x assume x: "x \<in> fst ` set l"
        moreover have "?new \<notin> fst ` set l" using nl by simp
        ultimately have "x \<noteq> ?new" by metis
        then show "?h5 x = h x" using keep [of x] x by simp
      qed
    qed (use t keep in \<open>auto simp: tree_at_def\<close>)
    moreover have "levels_ok (l # u' # us')" using lv up(2) cu' False' by simp
    moreover have "heap_frame h (set (node_addrs (l # u # us))) ?h5 (set (node_addrs (l # u' # us')))"
    proof -
      have "heap_frame h (set (node_addrs (u # us))) ?h5 (set (node_addrs (u' # us')))"
        by (rule heap_frame_free [OF f4]) (use keep [of ?new] nl fr in auto)
      then show ?thesis using heap_frame_more [of h _ ?h5 _ "set (map fst l)"] by simp
    qed
    ultimately show ?thesis unfolding rebalance_ok_def using b bu cu' False'
      by (intro exI [of _ err] exI [of _ head'] exI [of _ ?h5] exI [of _ l] exI [of _ "u' # us'"]) (simp del: levels_ok.simps)
  qed
qed

end

end
