(* ===== verification/Btree_Insert.thy ===== *)
theory Btree_Insert
  imports Btree_Split
begin

text \<open>
  \<open>rebalance_insert\<close> makes room for a key, and \<open>btree_insert_level\<close> adds an entry to its level.
\<close>

definition insert_hyp :: "btree_geo \<Rightarrow> (bheap \<Rightarrow> u64) \<Rightarrow> nat \<Rightarrow> bool" where
  "insert_hyp geo alloc n \<longleftrightarrow> (\<forall>h head level l us p k v. length us = n \<longrightarrow>
     tree_at geo h head level (l # us) \<longrightarrow> levels_ok (l # us) \<longrightarrow> (us \<noteq> [] \<longrightarrow> big (l # us)) \<longrightarrow>
     key_at geo h p k \<longrightarrow> fst p \<notin> set (node_addrs (l # us)) \<longrightarrow> v \<noteq> 0 \<longrightarrow> k \<notin> fst ` set (entries_of l) \<longrightarrow>
     insert_ok geo h level (l # us) k v (btree_insert_level False alloc geo head p v level h))"

lemma insert_hypD:
  "insert_hyp geo alloc n \<Longrightarrow> length us = n \<Longrightarrow> tree_at geo h head level (l # us) \<Longrightarrow> levels_ok (l # us) \<Longrightarrow>
   us \<noteq> [] \<longrightarrow> big (l # us) \<Longrightarrow> key_at geo h p k \<Longrightarrow> fst p \<notin> set (node_addrs (l # us)) \<Longrightarrow> v \<noteq> 0 \<Longrightarrow>
   k \<notin> fst ` set (entries_of l) \<Longrightarrow> insert_ok geo h level (l # us) k v (btree_insert_level False alloc geo head p v level h)"
  unfolding insert_hyp_def by blast

lemma take_drop_append: "take n es @ drop n es @ zs = es @ zs"
  by (simp flip: append_assoc)

lemma half_room:
  fixes N m :: nat
  assumes "2 \<le> N - m" "4 \<le> N"
  shows "1 \<le> (N - m) div 2" "(N - m) div 2 < N" "m + (N - m) div 2 < N" "N - (N - m) div 2 < N" "2 \<le> N - (N - m) div 2"
  using assms by presburger+

text \<open>The state in which the parent of a node has been found\<close>

context geometry
begin

lemma find_parent:
  assumes t: "tree_at geo h head level (l # u # us)" and lv: "levels_ok (l # u # us)" and b: "big (u # us)"
    and l: "l = xs @ (a, es) # ys" and rs: "reserved (u # us) (length xs) k"
    and k: "key_at geo h p k" "fst p \<notin> set (node_addrs us)"
  obtains h' us' xu P ps1 s K ps2 yu where
    "find_level head geo p (Suc level) h = Some (P, h')" "tree_at geo h' head level (l # u # us')"
    "levels_ok (l # u # us')" "big (u # us')" "map (map fst) us' = map (map fst) us"
    "\<And>b. b \<notin> set (node_addrs us) \<Longrightarrow> h' b = h b" "u = xu @ (P, ps1 @ (s, a, K) # ps2) # yu"
    "reserved us' (length xu) k" "child_linked xs (entries_of xu @ ps1)" "child_linked ys (ps2 @ entries_of yu)" "gkeys es \<subseteq> K" "k \<in> K"
    "getpos geo P p h' = Some (length ps1)" "node_at geo h' P (map strip (ps1 @ (s, a, K) # ps2))"
proof -
  have tu: "tree_at geo h head (Suc level) (u # us)" using t by (simp add: tree_at_def)
  have "big us" using b by simp
  from find_level_ok [OF tu levels_ok_tl [OF lv] this k] obtain h' us' xu P ps yu where
    f: "find_level head geo p (Suc level) h = Some (P, h')" and u: "u = xu @ (P, ps) # yu"
    and t': "tree_at geo h' head (Suc level) (u # us')" and lv': "levels_ok (u # us')" and b': "big us'"
    and ad: "map (map fst) us' = map (map fst) us" and fr: "\<And>b. b \<notin> set (node_addrs us) \<Longrightarrow> h' b = h b"
    and rs': "reserved us' (length xu) k" by blast
  have lk: "child_linked l (entries_of u)" and sl: "separated (entries_of l)" using lv by simp_all
  have ad': "node_addrs us' = node_addrs us" using ad by (simp add: node_addrs_def)
  have su: "separated (entries_of xu @ ps @ entries_of yu)" using levels_ok_sep [OF lv'] u by simp
  have i: "length xs < length (entries_of xu @ ps @ entries_of yu)" "k \<in> ghost ((entries_of xu @ ps @ entries_of yu) ! length xs)"
    using rs u by (simp_all add: reserved_def)
  obtain ps1 e ps2 where e: "ps = ps1 @ e # ps2" "length xs = length (entries_of xu) + length ps1" "k \<in> ghost e"
    "takeWhile (\<lambda>e. k < fst e) ps = ps1" "e = (entries_of xu @ ps @ entries_of yu) ! length xs"
    by (rule reserved_entry [OF su reserved_range [OF lv' [unfolded u] rs'] i])
  obtain s a' K where e3: "e = (s, a', K)" by (cases e)
  have "entries_of u = (entries_of xu @ ps1) @ e # (ps2 @ entries_of yu)" by (simp add: u e(1))
  then have "child_linked (xs @ (a, es) # ys) ((entries_of xu @ ps1) @ e # (ps2 @ entries_of yu))" using lk l by simp
  then have lk2: "child_linked xs (entries_of xu @ ps1)" "a' = a" "gkeys es \<subseteq> K" "child_linked ys (ps2 @ entries_of yu)"
    using e(2) unfolding e3 by (subst (asm) linked_app; simp)+
  have n: "node_at geo h' P (map strip ps)" using tree_at_node [OF t' [unfolded u]] by simp
  have "key_at geo h' p k" using k(1) by (rule key_at_other) (rule fr [OF k(2)])
  then have gp: "getpos geo P p h' = Some (length ps1)" using getpos_node [OF n] e(4) by simp
  have tt: "tree_at geo h' head level (l # u # us')"
  proof (rule tree_at_head [OF t t'])
    have D: "nodes_at geo h l" "fst ` set l \<inter> set (node_addrs us) = {}" using t by (auto simp: tree_at_def)
    show "nodes_at geo h' l"
      by (rule nodes_at_other [OF D(1)], rule fr) (use D(2) in auto)
  qed (use t ad' in \<open>auto simp: tree_at_def\<close>)
  have lt: "levels_ok (l # u # us')" using lv lv' by simp
  have bt: "big (u # us')" using b b' by simp
  have u': "u = xu @ (P, ps1 @ (s, a, K) # ps2) # yu" using u e(1) e3 lk2(2) by simp
  have n': "node_at geo h' P (map strip (ps1 @ (s, a, K) # ps2))" using n e(1) e3 lk2(2) by simp
  have kK: "k \<in> K" using e(3) e3 by simp
  show ?thesis by (rule that [OF f tt lt bt ad fr u' rs' lk2(1,4,3) kK gp n'])
qed

lemma parent_upd:
  assumes "node_at geo h P (map strip (ps1 @ (s, v, K) # ps2))" "length k = keylen geo"
  shows "(map strip (ps1 @ (s, v, K) # ps2))[length ps1 := (k, snd (map strip (ps1 @ (s, v, K) # ps2) ! length ps1))] =
      map strip (ps1 @ (k, v, K) # ps2)"
    and "entries_ok geo (map strip (ps1 @ (k, v, K) # ps2))"
proof -
  show e: "(map strip (ps1 @ (s, v, K) # ps2))[length ps1 := (k, snd (map strip (ps1 @ (s, v, K) # ps2) ! length ps1))] =
      map strip (ps1 @ (k, v, K) # ps2)"
    by (simp add: list_update_append nth_append strip_def)
  have "v \<noteq> 0" using entries_okD(3) [OF node_atD(3) [OF assms(1)], of "strip (s, v, K)"] by simp
  then show "entries_ok geo (map strip (ps1 @ (k, v, K) # ps2))"
    unfolding e [symmetric] by (intro entries_ok_upd node_atD(3) [OF assms(1)]) (use assms(2) in \<open>simp_all add: nth_append\<close>)
qed

lemma two_nodes:
  assumes t: "tree_at geo h head level ((xs @ (al, X) # (ar, Y) # ys) # (xu @ (P, ps) # yu) # us)"
  shows "node_at geo h al (map strip X)" "node_at geo h ar (map strip Y)" "node_at geo h P (map strip ps)"
    "al \<noteq> ar" "P \<noteq> al" "P \<noteq> ar"
  using t by (auto simp: tree_at_def)

lemma steal_r_state:
  assumes t: "tree_at geo h head level (l # u # us)" and lv: "levels_ok (l # u # us)"
    and l: "l = xs @ (al, X0) # (ar, Y0) # ys" and u: "u = xu @ (P, ps1 @ (s1, al, K1) # (s2, ar, K2) # ps2) # yu"
    and len: "length xs = length (entries_of xu) + length ps1" and rs: "reserved us (length xu) k0"
    and n: "1 \<le> n" "n < length Y0" "length X0 + n \<le> no_pairs geo"
  shows "\<exists>h' l' u'. steal_r geo al (length X0) ar (length Y0) P (length ps1) n h = Some h' \<and>
    tree_at geo h' head level (l' # u' # us) \<and> levels_ok (l' # u' # us) \<and>
    l' = xs @ (al, X0 @ take n Y0) # (ar, drop n Y0) # ys \<and> map fst u' = map fst u \<and> map (length \<circ> snd) u' = map (length \<circ> snd) u \<and>
    (k \<in> K1 \<union> K2 \<longrightarrow> reserved (u' # us) (length xs) k \<or> reserved (u' # us) (Suc (length xs)) k) \<and>
    (\<forall>b. b \<notin> set (node_addrs (l # u # us)) \<longrightarrow> h' b = h b)"
proof -
  note nd = two_nodes [OF t [unfolded l u]]
  let ?ps = "map strip (ps1 @ (s1, al, K1) # (s2, ar, K2) # ps2)" let ?m = "fst (Y0 ! (n - 1))"
  let ?X = "X0 @ take n Y0" let ?Y = "drop n Y0" let ?q = "map strip (ps1 @ (?m, al, K1) # (s2, ar, K2) # ps2)"
  let ?h = "h(al \<mapsto> node_block geo (map strip ?X), P \<mapsto> node_block geo ?q, ar \<mapsto> node_block geo (map strip ?Y))"
  have "length ?m = keylen geo" using entries_okD(4) [OF node_atD(3) [OF nd(2)], of "n - 1"] n by simp
  note pu = parent_upd [OF nd(3) this]
  have "steal_r geo al (length (map strip X0)) ar (length (map strip Y0)) P (length ps1) n h = Some (h
      (al \<mapsto> node_block geo (map strip X0 @ take n (map strip Y0)),
       P \<mapsto> node_block geo (?ps[length ps1 := (fst (map strip Y0 ! (n - 1)), snd (?ps ! length ps1))]),
       ar \<mapsto> node_block geo (drop n (map strip Y0))))"
    by (rule steal_r_node [OF nd]) (use n in simp_all)
  then have st: "steal_r geo al (length X0) ar (length Y0) P (length ps1) n h = Some ?h"
    using pu(1) n by (simp add: take_map drop_map map_append [of strip X0] del: map_append list.map)
  have ok: "entries_ok geo (map strip ?X)" "entries_ok geo (map strip ?Y)"
    using node_atD(3) [OF nd(1)] entries_ok_take [OF node_atD(3) [OF nd(2)], of n] entries_ok_drop [OF node_atD(3) [OF nd(2)], of n] n
    by (simp_all add: take_map drop_map)
  have lX: "fst (last ?X) = ?m"
  proof -
    have "take n Y0 \<noteq> []" using n by auto
    then show ?thesis using n by (simp add: last_append last_conv_nth)
  qed
  have "\<exists>l' u'. tree_at geo ?h head level (l' # u' # us) \<and> levels_ok (l' # u' # us) \<and>
    l' = xs @ (al, ?X) # (ar, ?Y) # ys \<and> map fst u' = map fst u \<and> map (length \<circ> snd) u' = map (length \<circ> snd) u \<and>
    (k \<in> K1 \<union> K2 \<longrightarrow> reserved (u' # us) (length xs) k \<or> reserved (u' # us) (Suc (length xs)) k)"
  proof (rule steal_state [OF t lv l u len rs])
    show "node_at geo ?h P (map strip (ps1 @ (fst (last ?X), al, K1) # (s2, ar, K2) # ps2))"
      unfolding lX using pu(2) nd(4-6) by simp
  qed (use ok n nd(4-6) in auto)
  moreover have "\<forall>b. b \<notin> set (node_addrs (l # u # us)) \<longrightarrow> ?h b = h b" by (auto simp: l u)
  ultimately show ?thesis using st by blast
qed

lemma steal_l_state:
  assumes t: "tree_at geo h head level (l # u # us)" and lv: "levels_ok (l # u # us)"
    and l: "l = xs @ (al, X0) # (ar, Y0) # ys" and u: "u = xu @ (P, ps1 @ (s1, al, K1) # (s2, ar, K2) # ps2) # yu"
    and len: "length xs = length (entries_of xu) + length ps1" and rs: "reserved us (length xu) k0"
    and n: "1 \<le> n" "n < length X0" "n + length Y0 \<le> no_pairs geo"
  shows "\<exists>h' l' u'. steal_l geo al (length X0) ar (length Y0) P (length ps1) n h = Some h' \<and>
    tree_at geo h' head level (l' # u' # us) \<and> levels_ok (l' # u' # us) \<and>
    l' = xs @ (al, take (length X0 - n) X0) # (ar, drop (length X0 - n) X0 @ Y0) # ys \<and>
    map fst u' = map fst u \<and> map (length \<circ> snd) u' = map (length \<circ> snd) u \<and>
    (k \<in> K1 \<union> K2 \<longrightarrow> reserved (u' # us) (length xs) k \<or> reserved (u' # us) (Suc (length xs)) k) \<and>
    (\<forall>b. b \<notin> set (node_addrs (l # u # us)) \<longrightarrow> h' b = h b)"
proof -
  note nd = two_nodes [OF t [unfolded l u]]
  let ?j = "length X0 - n"
  let ?ps = "map strip (ps1 @ (s1, al, K1) # (s2, ar, K2) # ps2)" let ?m = "fst (X0 ! (?j - 1))"
  let ?X = "take ?j X0" let ?Y = "drop ?j X0 @ Y0" let ?q = "map strip (ps1 @ (?m, al, K1) # (s2, ar, K2) # ps2)"
  let ?h = "h(ar \<mapsto> node_block geo (map strip ?Y), P \<mapsto> node_block geo ?q, al \<mapsto> node_block geo (map strip ?X))"
  have "length ?m = keylen geo" using entries_okD(4) [OF node_atD(3) [OF nd(1)], of "?j - 1"] n by simp
  note pu = parent_upd [OF nd(3) this]
  have "steal_l geo al (length (map strip X0)) ar (length (map strip Y0)) P (length ps1) n h = Some (h
      (ar \<mapsto> node_block geo (drop (length (map strip X0) - n) (map strip X0) @ map strip Y0),
       P \<mapsto> node_block geo (?ps[length ps1 := (fst (map strip X0 ! (length (map strip X0) - n - 1)), snd (?ps ! length ps1))]),
       al \<mapsto> node_block geo (take (length (map strip X0) - n) (map strip X0))))"
    by (rule steal_l_node [OF nd]) (use n in simp_all)
  then have st: "steal_l geo al (length X0) ar (length Y0) P (length ps1) n h = Some ?h"
    using pu(1) n by (simp add: take_map drop_map del: map_append list.map) (simp add: drop_map)
  have ok: "entries_ok geo (map strip ?X)" "entries_ok geo (map strip ?Y)"
    using node_atD(3) [OF nd(2)] entries_ok_take [OF node_atD(3) [OF nd(1)], of ?j] entries_ok_drop [OF node_atD(3) [OF nd(1)], of ?j] n
    by (simp_all add: take_map drop_map)
  have lX: "fst (last ?X) = ?m"
  proof -
    have "?X \<noteq> []" using n by auto
    then show ?thesis using n by (simp add: last_conv_nth)
  qed
  have "\<exists>l' u'. tree_at geo ?h head level (l' # u' # us) \<and> levels_ok (l' # u' # us) \<and>
    l' = xs @ (al, ?X) # (ar, ?Y) # ys \<and> map fst u' = map fst u \<and> map (length \<circ> snd) u' = map (length \<circ> snd) u \<and>
    (k \<in> K1 \<union> K2 \<longrightarrow> reserved (u' # us) (length xs) k \<or> reserved (u' # us) (Suc (length xs)) k)"
  proof (rule steal_state [OF t lv l u len rs])
    show "node_at geo ?h P (map strip (ps1 @ (fst (last ?X), al, K1) # (s2, ar, K2) # ps2))"
      unfolding lX using pu(2) nd(4-6) by simp
  qed (use ok n nd(4-6) in auto)
  moreover have "\<forall>b. b \<notin> set (node_addrs (l # u # us)) \<longrightarrow> ?h b = h b" by (auto simp: l u)
  ultimately show ?thesis using st by blast
qed

lemma rebalance_insert_eq:
  assumes "level \<noteq> bt_height head" "find_level head geo p (Suc level) h = Some (P, h1)"
    and "getpos geo P p h1 = Some c" "bval geo P c h1 = Some a"
    and "c > 0 \<Longrightarrow> bval geo P (c - 1) h1 = Some left \<and> getfill geo left 0 h1 = Some nl"
    and "getfill geo P c h1 = Some f"
    and "c + 1 < f \<Longrightarrow> bval geo P (c + 1) h1 = Some right \<and> getfill geo right 0 h1 = Some nr"
  shows "rebalance_insert alloc rec head geo p a level h =
    (if c > 0 \<and> 2 \<le> no_pairs geo - nl
     then Option.bind (steal_r geo left nl a (no_pairs geo) P (c - 1) ((no_pairs geo - nl) div 2) h1) (\<lambda>h. Some (0, head, h))
     else if c + 1 < f \<and> 2 \<le> no_pairs geo - nr
     then Option.bind (steal_l geo a (no_pairs geo) right nr P c ((no_pairs geo - nr) div 2) h1) (\<lambda>h. Some (0, head, h))
     else split alloc rec head geo a level h1)"
  using assms by (cases c; cases "c + 1 < f") (simp_all add: rebalance_insert_def)

lemma steal_rebalance_ok:
  assumes t: "tree_at geo h' head level (l' # u' # us)" and lv: "levels_ok (l' # u' # us)"
    and l': "l' = xs @ n1 # n2 # ys" "entries_of l' = entries_of l" "map fst l' = map fst l" "map fst u' = map fst u"
    and sz: "\<forall>n \<in> set xs \<union> set ys. 2 \<le> length (snd n)" "2 \<le> length (snd n1)" "2 \<le> length (snd n2)"
      "length (snd n1) < no_pairs geo" "length (snd n2) < no_pairs geo"
    and u': "map (length \<circ> snd) u' = map (length \<circ> snd) u" "big (u # us)"
    and rs: "reserved (u' # us) (length xs) k \<or> reserved (u' # us) (Suc (length xs)) k"
    and fr: "\<forall>b. b \<notin> set (node_addrs (l # u # us)) \<longrightarrow> h' b = h b"
  shows "rebalance_ok geo h level (l # u # us) k (Some (0, head, h'))"
proof -
  have "(length \<circ> snd) ` set u' = (length \<circ> snd) ` set u" using arg_cong [OF u'(1), of set] by simp
  then have "\<forall>n \<in> set u'. 2 \<le> length (snd n)" using u'(2) by (metis (no_types, lifting) big_simps(2) comp_apply image_iff)
  then have "big (l' # u' # us)" using sz u'(2) by (auto simp: l'(1))
  moreover have "node_addrs (l' # u' # us) = node_addrs (l # u # us)" by (simp only: node_addrs_simps l'(3,4))
  then have "heap_frame h (set (node_addrs (l # u # us))) h' (set (node_addrs (l' # u' # us)))"
    using fr heap_frame_refl [of "set (node_addrs (l # u # us))" h' h] by (simp only:) blast
  moreover have "roomy geo k l' (u' # us)"
    unfolding l'(1) by (rule roomyI) (use sz rs in blast)+
  ultimately show ?thesis unfolding rebalance_ok_def using t lv l'(2)
    by (intro exI [of _ 0] exI [of _ head] exI [of _ h'] exI [of _ l'] exI [of _ "u' # us"]) (simp del: levels_ok.simps)
qed

lemma rebalance_ok_later:
  assumes "rebalance_ok geo h1 level ls1 k r" "\<And>b. b \<notin> set (node_addrs ls) \<Longrightarrow> h1 b = h b" "node_addrs ls1 = node_addrs ls"
    and "entries_of (hd ls1) = entries_of (hd ls)"
  shows "rebalance_ok geo h level ls k r"
proof -
  have "heap_frame h (set (node_addrs ls)) h1 (set (node_addrs ls1))" using assms(2,3) by (simp add: heap_frame_refl)
  then have "heap_frame h (set (node_addrs ls)) h' A'" if "heap_frame h1 (set (node_addrs ls1)) h' A'" for h' A'
    using that by (rule heap_frame_trans)
  then show ?thesis using assms(1) unfolding rebalance_ok_def assms(4) by blast
qed

text \<open>The values that the code reads at the neighbours of a child\<close>

lemma neighbour:
  assumes t: "tree_at geo h head level ((xs @ (v, es) # ys) # (xu @ (P, ps1 @ (s, v, K) # ps2) # yu) # us)"
  shows "bval geo P (length ps1) h = Some v" "getfill geo v 0 h = Some (length es)"
proof -
  have n: "node_at geo h P (map strip (ps1 @ (s, v, K) # ps2))" "node_at geo h v (map strip es)"
    using t by (auto simp: tree_at_def)
  show "bval geo P (length ps1) h = Some v" using node_at_val [OF n(1), of "length ps1"] by (simp add: nth_append)
  show "getfill geo v 0 h = Some (length es)" using getfill_node [OF n(2), of 0] by simp
qed

lemma linked_snoc:
  assumes "child_linked xs (A @ [(s, v, K)])"
  obtains xs' X where "xs = xs' @ [(v, X)]" "child_linked xs' A" "gkeys X \<subseteq> K"
proof (rule linked_split [OF assms])
  fix xs' n ys assume n: "xs = xs' @ n # ys" "child_linked xs' A" "child_linked ys []" "fst n = fst (snd (s, v, K))" "gkeys (snd n) \<subseteq> ghost (s, v, K)"
  then have "n = (v, snd n)" "ys = []" by (auto intro: prod_eqI)
  then show thesis using that [of xs' "snd n"] n by simp
qed

lemma linked_head:
  assumes "child_linked ys ((s, v, K) # B)"
  obtains Y ys' where "ys = (v, Y) # ys'" "child_linked ys' B" "gkeys Y \<subseteq> K"
  using assms by (cases ys) auto

lemma rebalance_insert_ok:
  assumes t: "tree_at geo h head level (l # us)" and lv: "levels_ok (l # us)" and b: "us \<noteq> [] \<longrightarrow> big (l # us)"
    and l: "l = xs @ (a, es) # ys" and rs: "reserved us (length xs) k"
    and k: "key_at geo h p k" "fst p \<notin> set (node_addrs (l # us))" and full: "length es = no_pairs geo" and al: "fresh_alloc alloc"
    and hyp: "us \<noteq> [] \<Longrightarrow> insert_hyp geo alloc (length us - 1)"
  shows "rebalance_ok geo h level (l # us) k (rebalance_insert alloc (btree_insert_level False alloc geo) head geo p a level h)"
proof (cases us)
  case Nil
  then have "bt_height head = level" "l = [(a, es)]" using t lv l by (auto simp: tree_at_def)
  moreover from this have "rebalance_ok geo h level [[(a, es)]] k (split alloc (btree_insert_level False alloc geo) head geo a level h)"
    using split_root [OF _ _ full al] t lv Nil by simp
  ultimately show ?thesis using Nil by (simp add: rebalance_insert_def)
next
  case (Cons u us0)
  let ?R = "btree_insert_level False alloc geo" let ?N = "no_pairs geo"
  have ht: "level \<noteq> bt_height head" using t Cons by (simp add: tree_at_def)
  have b1: "big (l # u # us0)" using b Cons by simp
  have p0: "fst p \<notin> set (node_addrs us0)" using k(2) Cons by simp
  have "big (u # us0)" using b1 by simp
  from find_parent [OF t [unfolded Cons] lv [unfolded Cons] this l rs [unfolded Cons] k(1) p0]
  obtain h1 us1 xu P ps1 s K ps2 yu where f: "find_level head geo p (Suc level) h = Some (P, h1)"
    and t1: "tree_at geo h1 head level (l # u # us1)" and lv1: "levels_ok (l # u # us1)" and b2: "big (u # us1)"
    and ad: "map (map fst) us1 = map (map fst) us0" and fr: "\<And>b. b \<notin> set (node_addrs us0) \<Longrightarrow> h1 b = h b"
    and u: "u = xu @ (P, ps1 @ (s, a, K) # ps2) # yu" and rs1: "reserved us1 (length xu) k"
    and lk: "child_linked xs (entries_of xu @ ps1)" "child_linked ys (ps2 @ entries_of yu)" "gkeys es \<subseteq> K" and kK: "k \<in> K"
    and gp: "getpos geo P p h1 = Some (length ps1)" and nP: "node_at geo h1 P (map strip (ps1 @ (s, a, K) # ps2))"
    by metis
  have lx: "length xs = length (entries_of xu) + length ps1" using linked_length [OF lk(1)] by simp
  have nb: "bval geo P (length ps1) h1 = Some a" using neighbour(1) [of h1 head level xs a es ys xu P ps1 s K ps2 yu us1] t1 l u by simp
  have gf: "getfill geo P (length ps1) h1 = Some (length (ps1 @ (s, a, K) # ps2))"
    using getfill_node [OF nP, of "length ps1"] by simp
  define left nl where "left = (case rev ps1 of [] \<Rightarrow> 0 | e # _ \<Rightarrow> fst (snd e))" and "nl = (case rev xs of [] \<Rightarrow> 0 | n # _ \<Rightarrow> length (snd n))"
  define right nr where "right = (case ps2 of [] \<Rightarrow> 0 | e # _ \<Rightarrow> fst (snd e))" and "nr = (case ys of [] \<Rightarrow> 0 | n # _ \<Rightarrow> length (snd n))"
  have N: "4 \<le> ?N" by (rule no_pairs_4)
  have L: "\<exists>ps1' sl Kl xs' X0. ps1 = ps1' @ [(sl, left, Kl)] \<and> xs = xs' @ [(left, X0)] \<and> gkeys X0 \<subseteq> Kl \<and> length X0 = nl \<and>
      child_linked xs' (entries_of xu @ ps1')" if ne: "ps1 \<noteq> []"
  proof -
    obtain ps1' e where ps1: "ps1 = ps1' @ [e]" using ne by (metis rev_exhaust)
    obtain sl al Kl where e: "e = (sl, al, Kl)" by (cases e)
    have "child_linked xs ((entries_of xu @ ps1') @ [(sl, al, Kl)])" using lk(1) by (simp add: ps1 e)
    then obtain xs' X0 where "xs = xs' @ [(al, X0)]" "child_linked xs' (entries_of xu @ ps1')" "gkeys X0 \<subseteq> Kl" by (rule linked_snoc)
    then show ?thesis using ps1 e by (simp add: left_def nl_def)
  qed
  have Rt: "\<exists>sr Kr ps2' Y0 ys'. ps2 = (sr, right, Kr) # ps2' \<and> ys = (right, Y0) # ys' \<and> gkeys Y0 \<subseteq> Kr \<and> length Y0 = nr" if ne: "ps2 \<noteq> []"
  proof -
    obtain sr ar Kr ps2' where ps2: "ps2 = (sr, ar, Kr) # ps2'" using ne by (metis list.exhaust prod_cases3)
    have "child_linked ys ((sr, ar, Kr) # ps2' @ entries_of yu)" using lk(2) by (simp add: ps2)
    then obtain Y0 ys' where "ys = (ar, Y0) # ys'" "child_linked ys' (ps2' @ entries_of yu)" "gkeys Y0 \<subseteq> Kr" by (rule linked_head)
    then show ?thesis using ps2 by (simp add: right_def nr_def)
  qed
  have eq: "rebalance_insert alloc ?R head geo p a level h =
    (if length ps1 > 0 \<and> 2 \<le> ?N - nl
     then Option.bind (steal_r geo left nl a ?N P (length ps1 - 1) ((?N - nl) div 2) h1) (\<lambda>h. Some (0, head, h))
     else if length ps1 + 1 < length (ps1 @ (s, a, K) # ps2) \<and> 2 \<le> ?N - nr
     then Option.bind (steal_l geo a ?N right nr P (length ps1) ((?N - nr) div 2) h1) (\<lambda>h. Some (0, head, h))
     else split alloc ?R head geo a level h1)"
  proof (rule rebalance_insert_eq [OF ht f gp nb _ gf])
    assume "length ps1 > 0"
    then have "ps1 \<noteq> []" by auto
    from L [OF this] obtain ps1' sl Kl xs' X0 where "ps1 = ps1' @ [(sl, left, Kl)]" "xs = xs' @ [(left, X0)]" "length X0 = nl" by blast
    then show "bval geo P (length ps1 - 1) h1 = Some left \<and> getfill geo left 0 h1 = Some nl"
      using neighbour [of h1 head level xs' left X0 "(a, es) # ys" xu P ps1' sl Kl "(s, a, K) # ps2" yu us1] t1 l u by simp
  next
    assume "length ps1 + 1 < length (ps1 @ (s, a, K) # ps2)"
    then have "ps2 \<noteq> []" by auto
    from Rt [OF this] obtain sr Kr ps2' Y0 ys' where "ps2 = (sr, right, Kr) # ps2'" "ys = (right, Y0) # ys'" "length Y0 = nr" by blast
    then show "bval geo P (length ps1 + 1) h1 = Some right \<and> getfill geo right 0 h1 = Some nr"
      using neighbour [of h1 head level "xs @ [(a, es)]" right Y0 ys' xu P "ps1 @ [(s, a, K)]" sr Kr ps2' yu us1] t1 l u by simp
  qed
  have sz: "\<forall>n \<in> set xs \<union> set ys. 2 \<le> length (snd n)" using b1 l by auto
  have "rebalance_ok geo h1 level (l # u # us1) k (rebalance_insert alloc ?R head geo p a level h)"
  proof (cases "length ps1 > 0 \<and> 2 \<le> ?N - nl")
    case True
    then have "ps1 \<noteq> []" by auto
    from L [OF this] obtain ps1' sl Kl xs' X0 where ps1: "ps1 = ps1' @ [(sl, left, Kl)]" "xs = xs' @ [(left, X0)]" "gkeys X0 \<subseteq> Kl" "length X0 = nl"
      "child_linked xs' (entries_of xu @ ps1')" by blast
    define d where "d = (?N - nl) div 2"
    have "2 \<le> ?N - nl" using True by simp
    from half_room [OF this N] have n: "1 \<le> d" "d < ?N" "nl + d < ?N" "?N - d < ?N" "2 \<le> ?N - d" by (simp_all only: d_def)
    have "l = xs' @ (left, X0) # (a, es) # ys" "u = xu @ (P, ps1' @ (sl, left, Kl) # (s, a, K) # ps2) # yu"
      "length xs' = length (entries_of xu) + length ps1'" using l u ps1 linked_length [OF ps1(5)] by simp_all
    from steal_r_state [OF t1 lv1 this rs1, of d k] obtain h' l' u' where
      st: "steal_r geo left nl a ?N P (length ps1 - 1) d h1 = Some h'"
      and s: "tree_at geo h' head level (l' # u' # us1)" "levels_ok (l' # u' # us1)"
        "l' = xs' @ (left, X0 @ take d es) # (a, drop d es) # ys" "map fst u' = map fst u"
        "map (length \<circ> snd) u' = map (length \<circ> snd) u"
        "reserved (u' # us1) (length xs') k \<or> reserved (u' # us1) (Suc (length xs')) k"
        "\<forall>b. b \<notin> set (node_addrs (l # u # us1)) \<longrightarrow> h' b = h1 b"
      using n full ps1 kK by auto
    have c: "entries_of l' = entries_of l" "map fst l' = map fst l" unfolding s(3) l ps1(2) by (simp_all add: take_drop_append)
    have "\<forall>n \<in> set xs' \<union> set ys. 2 \<le> length (snd n)" "2 \<le> nl" using sz unfolding ps1(2) ps1(4) [symmetric] by simp_all
    then have z: "\<forall>n \<in> set xs' \<union> set ys. 2 \<le> length (snd n)" "2 \<le> length (snd (left, X0 @ take d es))" "2 \<le> length (snd (a, drop d es))"
      "length (snd (left, X0 @ take d es)) < ?N" "length (snd (a, drop d es)) < ?N" using n full ps1(4) by simp_all
    have "rebalance_ok geo h1 level (l # u # us1) k (Some (0, head, h'))"
      by (rule steal_rebalance_ok [OF s(1,2,3) c s(4) z s(5) b2 s(6,7)])
    then show ?thesis unfolding eq using True st by (simp add: d_def)
  next
    case noleft: False
    show ?thesis
    proof (cases "ps2 \<noteq> [] \<and> 2 \<le> ?N - nr")
      case True
      then have "ps2 \<noteq> []" by auto
      from Rt [OF this] obtain sr Kr ps2' Y0 ys' where ps2: "ps2 = (sr, right, Kr) # ps2'" "ys = (right, Y0) # ys'" "gkeys Y0 \<subseteq> Kr" "length Y0 = nr"
        by blast
      define d where "d = (?N - nr) div 2"
      have "2 \<le> ?N - nr" using True by simp
      from half_room [OF this N] have n: "1 \<le> d" "d < ?N" "nr + d < ?N" "?N - d < ?N" "2 \<le> ?N - d" by (simp_all only: d_def)
      have "l = xs @ (a, es) # (right, Y0) # ys'" "u = xu @ (P, ps1 @ (s, a, K) # (sr, right, Kr) # ps2') # yu"
        using l u ps2 by simp_all
      from steal_l_state [OF t1 lv1 this lx rs1, of d k] obtain h' l' u' where
        st: "steal_l geo a ?N right nr P (length ps1) d h1 = Some h'"
        and s: "tree_at geo h' head level (l' # u' # us1)" "levels_ok (l' # u' # us1)"
          "l' = xs @ (a, take (?N - d) es) # (right, drop (?N - d) es @ Y0) # ys'" "map fst u' = map fst u"
          "map (length \<circ> snd) u' = map (length \<circ> snd) u"
          "reserved (u' # us1) (length xs) k \<or> reserved (u' # us1) (Suc (length xs)) k"
          "\<forall>b. b \<notin> set (node_addrs (l # u # us1)) \<longrightarrow> h' b = h1 b"
        using n full ps2 kK by auto
      have c: "entries_of l' = entries_of l" "map fst l' = map fst l" unfolding s(3) l ps2(2) by (simp_all add: take_drop_append)
      have "\<forall>n \<in> set xs \<union> set ys'. 2 \<le> length (snd n)" "2 \<le> nr" using sz unfolding ps2(2) ps2(4) [symmetric] by simp_all
      then have z: "\<forall>n \<in> set xs \<union> set ys'. 2 \<le> length (snd n)" "2 \<le> length (snd (a, take (?N - d) es))"
        "2 \<le> length (snd (right, drop (?N - d) es @ Y0))" "length (snd (a, take (?N - d) es)) < ?N"
        "length (snd (right, drop (?N - d) es @ Y0)) < ?N" using n full ps2(4) by simp_all
      have "rebalance_ok geo h1 level (l # u # us1) k (Some (0, head, h'))"
        by (rule steal_rebalance_ok [OF s(1,2,3) c s(4) z s(5) b2 s(6,7)])
      then show ?thesis unfolding eq using True noleft st by (auto simp: d_def)
    next
      case False
      have "insert_ok geo h' (Suc level) (u # us1) k' v (?R head p' v (Suc level) h')"
        if "tree_at geo h' head (Suc level) (u # us1)" "key_at geo h' p' k'" "fst p' \<notin> set (node_addrs (u # us1))" "v \<noteq> 0"
          "k' \<notin> fst ` set (entries_of u)" for h' p' k' v
      proof (rule insert_hypD [OF _ _ that(1) levels_ok_tl [OF lv1] _ that(2-5)])
        show "insert_hyp geo alloc (length us - 1)" by (rule hyp) (simp add: Cons)
        show "length us1 = length us - 1" using map_eq_imp_length_eq [OF ad] Cons by simp
        show "us1 \<noteq> [] \<longrightarrow> big (u # us1)" using b2 by blast
      qed
      moreover have "entries_of u = (entries_of xu @ ps1) @ (s, a, K) # (ps2 @ entries_of yu)" by (simp add: u)
      moreover have "big (l # u # us1)" using b1 b2 by simp
      ultimately have "rebalance_ok geo h1 level (l # u # us1) k (split alloc ?R head geo a level h1)"
        using split_upper [OF t1 lv1 _ l full al _ lk kK] by simp
      then show ?thesis unfolding eq using noleft False by auto
    qed
  qed
  then have "rebalance_ok geo h level (l # u # us0) k (rebalance_insert alloc ?R head geo p a level h)"
    by (rule rebalance_ok_later) (use fr ad in \<open>simp_all add: node_addrs_def\<close>)
  then show ?thesis by (simp add: Cons)
qed

lemma insert_ok_later:
  assumes "insert_ok geo h1 level ls1 k v r" "heap_frame h (set (node_addrs ls)) h1 (set (node_addrs ls1))"
    and "entries_of (hd ls1) = entries_of (hd ls)"
  shows "insert_ok geo h level ls k v r"
proof -
  have "heap_frame h (set (node_addrs ls)) h' A'" if "heap_frame h1 (set (node_addrs ls1)) h' A'" for h' A'
    using assms(2) that by (rule heap_frame_trans)
  then show ?thesis using assms(1) unfolding insert_ok_def assms(3) by blast
qed

text \<open>The node that takes the key is one of the two that made room.\<close>

lemma roomy_node:
  assumes "roomy geo k l us" "levels_ok (l # us)" "l = xs @ (a, es) # ys"
    and "us \<noteq> [] \<longrightarrow> (\<forall>j. reserved us j k \<longrightarrow> j = length xs)"
  shows "length es < no_pairs geo"
proof -
  obtain xs' n1 n2 ys' where r: "l = xs' @ n1 # n2 # ys'" "length (snd n1) < no_pairs geo" "length (snd n2) < no_pairs geo"
    "reserved us (length xs') k \<or> reserved us (Suc (length xs')) k \<or> xs' = [] \<and> ys' = []"
    using assms(1) unfolding roomy_def by blast
  have ne: "us \<noteq> []" using assms(2) r(1) by (cases us) auto
  have nth: "l ! length xs = (a, es)" using assms(3) by simp
  have "length xs = length xs' \<or> length xs = Suc (length xs')"
    using r(4)
  proof (elim disjE)
    assume "xs' = [] \<and> ys' = []"
    then have "length l = 2" using r(1) by simp
    moreover have "length xs < length l" using assms(3) by simp
    ultimately have "length xs = 0 \<or> length xs = 1" by linarith
    then show ?thesis using \<open>xs' = [] \<and> ys' = []\<close> by auto
  qed (use assms(4) ne in auto)
  then have "(a, es) = n1 \<or> (a, es) = n2" using nth r(1) by (auto simp: nth_append)
  then show ?thesis using r(2,3) by auto
qed

lemma insert_retry:
  assumes t: "tree_at geo h head level (l # us)" and lv: "levels_ok (l # us)" and b: "us \<noteq> [] \<longrightarrow> big (l # us)"
    and ro: "roomy geo k l us" and k: "key_at geo h p k" "fst p \<notin> set (node_addrs (l # us))" "v \<noteq> 0" "k \<notin> fst ` set (entries_of l)"
  shows "insert_ok geo h level (l # us) k v (btree_insert_level True alloc geo head p v level h)"
proof -
  have "big us" "fst p \<notin> set (node_addrs us)" using b k(2) by (cases us; simp)+
  from find_level_ok [OF t lv this(1) k(1) this(2)] obtain h1 us1 xs a es ys where
    f: "find_level head geo p level h = Some (a, h1)" "l = xs @ (a, es) # ys" "tree_at geo h1 head level (l # us1)"
    "levels_ok (l # us1)" "big us1" "map (map fst) us1 = map (map fst) us" "\<forall>b. b \<notin> set (node_addrs us) \<longrightarrow> h1 b = h b"
    "reserved us1 (length xs) k" "us \<noteq> [] \<longrightarrow> (\<forall>j. reserved us j k \<longrightarrow> j = length xs)"
    by metis
  have ad: "node_addrs us1 = node_addrs us" using f(6) by (simp add: node_addrs_def)
  have room: "length es < no_pairs geo" by (rule roomy_node [OF ro lv f(2,9)])
  have b1: "us1 \<noteq> [] \<Longrightarrow> big (l # us1)" using b f(5,6) by (cases us) auto
  have k1: "key_at geo h1 p k" using k(1) by (rule key_at_other) (use f(7) k(2) in simp)
  have p1: "fst p \<notin> set (node_addrs (l # us1))" using k(2) ad by simp
  have "insert_ok geo h1 level (l # us1) k v (btree_insert_level True alloc geo head p v level h)"
    using insert_fit [OF f(3,4) b1 f(2,8) k1 p1 f(1) k(3,4) room] by blast
  moreover have "heap_frame h (set (node_addrs (l # us))) h1 (set (node_addrs (l # us1)))" using f(7) ad by (auto intro: heap_frame_refl)
  ultimately show ?thesis by (rule insert_ok_later) simp
qed

theorem insert_level_ok:
  assumes al: "fresh_alloc alloc"
  shows "insert_hyp geo alloc n"
proof (induction n)
  have step: "insert_hyp geo alloc n" if hyp: "n > 0 \<Longrightarrow> insert_hyp geo alloc (n - 1)" for n
    unfolding insert_hyp_def
  proof (intro allI impI)
    fix h head level l us p k and v :: u64
    assume n: "length us = n" and t: "tree_at geo h head level (l # us)" and lv: "levels_ok (l # us)" and b: "us \<noteq> [] \<longrightarrow> big (l # us)"
      and k: "key_at geo h p k" "fst p \<notin> set (node_addrs (l # us))" "v \<noteq> 0" "k \<notin> fst ` set (entries_of l)"
    let ?r = "btree_insert_level False alloc geo head p v level h"
    have "big us" "fst p \<notin> set (node_addrs us)" using b k(2) by (cases us; simp)+
    from find_level_ok [OF t lv this(1) k(1) this(2)] obtain h1 us1 xs a es ys where
      f: "find_level head geo p level h = Some (a, h1)" "l = xs @ (a, es) # ys" "tree_at geo h1 head level (l # us1)"
      "levels_ok (l # us1)" "big us1" "map (map fst) us1 = map (map fst) us" "\<forall>b. b \<notin> set (node_addrs us) \<longrightarrow> h1 b = h b"
      "reserved us1 (length xs) k" by metis
    have ad: "node_addrs us1 = node_addrs us" using f(6) by (simp add: node_addrs_def)
    have b1: "us1 \<noteq> [] \<longrightarrow> big (l # us1)" using b f(5,6) by (cases us) auto
    have k1: "key_at geo h1 p k" using k(1) by (rule key_at_other) (use f(7) k(2) in simp)
    have p1: "fst p \<notin> set (node_addrs (l # us1))" using k(2) ad by simp
    have fr: "heap_frame h (set (node_addrs (l # us))) h1 (set (node_addrs (l # us1)))" using f(7) ad by (auto intro: heap_frame_refl)
    have "insert_ok geo h1 level (l # us1) k v ?r"
    proof (cases "length es = no_pairs geo")
      case False
      note na = tree_at_node [OF f(3) [unfolded f(2)]]
      have "length es < no_pairs geo" using False node_atD(4) [OF na(2)] by simp
      from insert_fit [OF f(3,4) _ f(2,8) k1 p1 f(1) k(3,4) this] show ?thesis using b1 by blast
    next
      case True
      have "rebalance_ok geo h1 level (l # us1) k (rebalance_insert alloc (btree_insert_level False alloc geo) head geo p a level h1)"
      proof (rule rebalance_insert_ok [OF f(3,4) b1 f(2,8) k1 p1 True al])
        assume "us1 \<noteq> []"
        then show "insert_hyp geo alloc (length us1 - 1)" using hyp n map_eq_imp_length_eq [OF f(6)] by (cases us1) auto
      qed
      then obtain err head2 h2 l2 us2 where
        r: "rebalance_insert alloc (btree_insert_level False alloc geo) head geo p a level h1 = Some (err, head2, h2)"
        and s: "tree_at geo h2 head2 level (l2 # us2)" "levels_ok (l2 # us2)" "us2 \<noteq> [] \<longrightarrow> big (l2 # us2)"
          "heap_frame h1 (set (node_addrs (l # us1))) h2 (set (node_addrs (l2 # us2)))" "entries_of l2 = entries_of l"
          "err = - ENOMEM \<or> err = 0 \<and> roomy geo k l2 us2"
        unfolding rebalance_ok_def list.sel by blast
      have hl: "level \<le> bt_height head" using tree_at_height [OF t] by simp
      have "k \<notin> fst ` set es" using k(4) f(2) by auto
      then have eq: "?r = (if err \<noteq> 0 then Some (err, head2, h2) else btree_insert_level True alloc geo head2 p v level h2)"
        using insert_found [OF _ f(1) _ k1, of False v es alloc] tree_at_node(2) [OF f(3) [unfolded f(2)]] k(3) hl r True by simp
      show ?thesis
      proof (cases "err = 0")
        case False
        then have "insert_ok geo h1 level (l # us1) k v (Some (err, head2, h2))"
          unfolding insert_ok_def list.sel using s by blast
        then show ?thesis using eq False by simp
      next
        case True
        then have ro: "roomy geo k l2 us2" using s(6) by (auto simp: ENOMEM_def)
        have "h1 (fst p) \<noteq> None" using k1 by (auto simp: key_at_def)
        then have "h2 (fst p) = h1 (fst p) \<and> fst p \<notin> set (node_addrs (l2 # us2))" by (rule heap_frame_same [OF s(4) _ p1])
        then have "insert_ok geo h2 level (l2 # us2) k v (btree_insert_level True alloc geo head2 p v level h2)"
          using k(3,4) s(5) by (intro insert_retry [OF s(1-3) ro]) (auto intro: key_at_other [OF k1])
        then have "insert_ok geo h1 level (l # us1) k v (btree_insert_level True alloc geo head2 p v level h2)"
          by (rule insert_ok_later) (use s(4,5) in simp_all)
        then show ?thesis using eq True by simp
      qed
    qed
    then show "insert_ok geo h level (l # us) k v ?r" by (rule insert_ok_later) (use fr in simp_all)
  qed
  show "insert_hyp geo alloc 0" by (rule step) simp
  show "insert_hyp geo alloc (Suc n)" if "insert_hyp geo alloc n" for n by (rule step) (use that in simp)
qed

end

end
