(* ===== verification/Btree_Remove.thy ===== *)
theory Btree_Remove
  imports Btree_Insert
begin

text \<open>
  Removal. The entry of a level goes and leaves its ghost set to the next entry of its node; the
  theorem about \<open>btree_remove_level\<close> is again one for the tree that begins at any level, so that
  merging two nodes is one use of it for the level above.
\<close>

section \<open>An entry goes\<close>

fun absorb :: "u64 list set \<Rightarrow> gpair list \<Rightarrow> gpair list" where
  "absorb K [] = []"
| "absorb K ((s, w, K') # qs) = (s, w, K \<union> K') # qs"

definition min_root :: "nat \<Rightarrow> nat" where
  "min_root level = (if level = 1 then 1 else 2)"

text \<open>Afterwards there is a tree with the entries \<open>C\<close>, or none from this level on.\<close>

definition remove_ok :: "btree_geo \<Rightarrow> bheap \<Rightarrow> nat \<Rightarrow> level list \<Rightarrow> gpair list \<Rightarrow> btree_head \<times> bheap \<Rightarrow> bool" where
  "remove_ok geo h level ls C r \<longleftrightarrow>
     (\<exists>l' us'. tree_at geo (snd r) (fst r) level (l' # us') \<and> levels_ok (l' # us') \<and> (us' \<noteq> [] \<longrightarrow> big (l' # us')) \<and>
        (us' = [] \<longrightarrow> min_root level \<le> length (entries_of l')) \<and>
        heap_frame h (set (node_addrs ls)) (snd r) (set (node_addrs (l' # us'))) \<and> entries_of l' = C) \<or>
     heap_frame h (set (node_addrs ls)) (snd r) {} \<and> bt_height (fst r) + 1 = level \<and>
       (if level = 1 then C = [] \<and> bt_node (fst r) = 0 else \<exists>e. C = [e] \<and> bt_node (fst r) = fst (snd e))"

definition remove_hyp :: "btree_geo \<Rightarrow> nat \<Rightarrow> bool" where
  "remove_hyp geo n \<longleftrightarrow> (\<forall>h head level l us p k v K xs a ps qs ys. length us = n \<longrightarrow>
     tree_at geo h head level (l # us) \<longrightarrow> levels_ok (l # us) \<longrightarrow> (us \<noteq> [] \<longrightarrow> big (l # us)) \<longrightarrow>
     (us = [] \<longrightarrow> min_root level \<le> length (entries_of l)) \<longrightarrow> 1 \<le> level \<longrightarrow>
     key_at geo h p k \<longrightarrow> fst p \<notin> set (node_addrs us) \<longrightarrow>
     (fst p \<notin> fst ` set l \<or> p = bkey geo a (length ps) \<and> qs \<noteq> []) \<longrightarrow>
     l = xs @ (a, ps @ (k, v, K) # qs) # ys \<longrightarrow>
     (\<exists>r. btree_remove_level geo head p level h = Some (v, r) \<and>
       remove_ok geo h level (l # us) (entries_of xs @ ps @ absorb K qs @ entries_of ys) r))"

lemma remove_hypD:
  "remove_hyp geo n \<Longrightarrow> length us = n \<Longrightarrow> tree_at geo h head level (l # us) \<Longrightarrow> levels_ok (l # us) \<Longrightarrow>
   us \<noteq> [] \<longrightarrow> big (l # us) \<Longrightarrow> us = [] \<longrightarrow> min_root level \<le> length (entries_of l) \<Longrightarrow> 1 \<le> level \<Longrightarrow>
   key_at geo h p k \<Longrightarrow> fst p \<notin> set (node_addrs us) \<Longrightarrow> fst p \<notin> fst ` set l \<or> p = bkey geo a (length ps) \<and> qs \<noteq> [] \<Longrightarrow>
   l = xs @ (a, ps @ (k, v, K) # qs) # ys \<Longrightarrow>
   \<exists>r. btree_remove_level geo head p level h = Some (v, r) \<and>
     remove_ok geo h level (l # us) (entries_of xs @ ps @ absorb K qs @ entries_of ys) r"
  unfolding remove_hyp_def by blast

lemma absorb_facts [simp]:
  "map strip (absorb K qs) = map strip qs" "length (absorb K qs) = length qs" "absorb K qs = [] \<longleftrightarrow> qs = []"
  by (cases "(K, qs)" rule: absorb.cases; simp add: strip_def)+

lemma gkeys_absorb: "gkeys (absorb K qs) \<subseteq> K \<union> gkeys qs"
  by (cases "(K, qs)" rule: absorb.cases) auto

lemma separated_absorb:
  assumes "separated (A @ (k, v, K) # qs @ B)"
  shows "separated (A @ absorb K qs @ B)"
proof (cases qs)
  case Nil
  then show ?thesis using assms by simp
next
  case (Cons q qs')
  obtain s w K' where q: "q = (s, w, K')" by (cases q)
  have 1: "\<forall>z \<in> K. k \<le> z" "s < k" using assms by (simp_all add: Cons q)
  then have "\<forall>z \<in> K. s \<le> z" by (metis less_imp_le order.trans)
  then have "separated (absorb K qs @ B)" using assms by (auto simp: Cons q)
  moreover have "\<forall>e \<in> set A. \<forall>z \<in> K \<union> gkeys (qs @ B). z < fst e" using assms by auto
  then have "\<forall>e \<in> set A. \<forall>z \<in> gkeys (absorb K qs @ B). z < fst e" using gkeys_absorb [of K qs] by auto
  moreover have "separated A" using assms by simp
  ultimately show ?thesis unfolding separated_append [of A "absorb K qs @ B"] by blast
qed

text \<open>The node of a key is the one to which the key belongs.\<close>

lemma node_unique:
  assumes "levels_ok (l # us)" "l = xs @ n # ys" "reserved us (length xs) k" "l = xs' @ n' # ys'" "k \<in> gkeys (snd n')"
  shows "xs = xs' \<and> n = n' \<and> ys = ys'"
proof -
  note rg = reserved_range [OF assms(1) [unfolded assms(2)] assms(3)]
  have "\<not> length xs' < length xs"
  proof
    assume a: "length xs' < length xs"
    have "xs ! length xs' = l ! length xs'" using a assms(2) by (simp add: nth_append)
    then have "n' = xs ! length xs'" using assms(4) by simp
    then have "n' \<in> set xs" using a by simp
    then show False using gkeys_contents [of n' xs] assms(5) rg(1) by blast
  qed
  moreover have "\<not> length xs < length xs'"
  proof
    assume a: "length xs < length xs'"
    have len: "length xs' < length l" using assms(4) by simp
    have "ys ! (length xs' - Suc (length xs)) = l ! length xs'" using a assms(2) by (simp add: nth_append)
    then have "n' = ys ! (length xs' - Suc (length xs))" using assms(4) by simp
    moreover have "length xs' - Suc (length xs) < length ys" using a len assms(2) by simp
    ultimately have "n' \<in> set ys" by simp
    then show False using gkeys_contents [of n' ys] assms(5) rg(2) by blast
  qed
  ultimately have "length xs = length xs'" by simp
  then show ?thesis using assms(2,4) by simp
qed

lemma reserved_gkeys:
  assumes "levels_ok ((xs @ (a, es) # ys) # us)" "x \<in> gkeys es"
  shows "reserved us (length xs) x"
proof (cases us)
  case (Cons u us')
  then have "child_linked (xs @ (a, es) # ys) (entries_of u)" using assms(1) by simp
  then obtain A e B where "entries_of u = A @ e # B" "child_linked xs A" "gkeys (snd (a, es)) \<subseteq> ghost e" by (rule linked_split_left)
  then show ?thesis using assms(2) by (auto simp: reserved_def Cons linked_length)
qed (simp add: reserved_def)

section \<open>Merging two neighbours\<close>

definition rebalanced :: "btree_geo \<Rightarrow> bheap \<Rightarrow> nat \<Rightarrow> level list \<Rightarrow> (btree_head \<times> bheap) option \<Rightarrow> bool" where
  "rebalanced geo h level ls r \<longleftrightarrow> (\<exists>head' h' l' us'. r = Some (head', h') \<and>
     tree_at geo h' head' level (l' # us') \<and> levels_ok (l' # us') \<and> (us' \<noteq> [] \<longrightarrow> big (l' # us')) \<and>
     (us' = [] \<longrightarrow> 2 \<le> length (entries_of l')) \<and>
     heap_frame h (set (node_addrs ls)) h' (set (node_addrs (l' # us'))) \<and> entries_of l' = entries_of (hd ls))"

context geometry
begin

text \<open>The entries of the right node go to the left one, and in the parent the two exchange their places.\<close>

lemma merge_moves:
  assumes t: "tree_at geo h head level (l # u # us)"
    and l: "l = xs @ (al, X0) # (ar, Y0) # ys" and u: "u = xu @ (P, ps1 @ (s1, al, K1) # (s2, ar, K2) # ps2) # yu"
    and n: "length X0 + length Y0 \<le> no_pairs geo"
  defines "ps \<equiv> ps1 @ (s1, ar, K1) # (s2, al, K2) # ps2"
  defines "h3 \<equiv> h(al \<mapsto> node_block geo (map strip (X0 @ Y0)), P \<mapsto> node_block geo (map strip ps))"
  shows "merge rec head geo level al (length X0) ar (length Y0) P (length ps1) h =
      Option.bind (rec head (bkey geo P (length ps1)) (level + 1) h3) (\<lambda>(_, head, h). Option.bind (bfree ar h) (\<lambda>h. Some (head, h)))"
    and "entries_ok geo (map strip (X0 @ Y0))" "entries_ok geo (map strip ps)" "al \<noteq> ar" "P \<noteq> al" "P \<noteq> ar"
proof -
  note nd = two_nodes [OF t [unfolded l u]]
  let ?q = "ps1 @ (s1, al, K1) # (s2, ar, K2) # ps2" let ?q1 = "ps1 @ (s1, ar, K1) # (s2, ar, K2) # ps2"
  let ?h1 = "h(al \<mapsto> node_block geo (map strip (X0 @ Y0)))" let ?h2 = "?h1(P \<mapsto> node_block geo (map strip ?q1))"
  have v: "al \<noteq> 0" "ar \<noteq> 0" using t l by (auto simp: tree_at_def)
  show "al \<noteq> ar" "P \<noteq> al" "P \<noteq> ar" by (rule nd)+
  have "entries_ok geo (map strip X0)" "entries_ok geo (map strip Y0)" using nd(1,2) by (simp_all add: node_at_def)
  then show "entries_ok geo (map strip (X0 @ Y0))" using n by simp
  have oq: "entries_ok geo (map strip ?q)" using nd(3) by (simp add: node_at_def)
  then have oq1: "entries_ok geo (map strip ?q1)" and "entries_ok geo (map strip ps)"
    using v by (simp_all add: ps_def)
  then show "entries_ok geo (map strip ps)" by simp
  have "for_up 0 (length Y0) (\<lambda>i. move_pair geo al (length (map strip X0) + i) ar i) h =
      Some (h(al \<mapsto> node_block geo (map strip X0 @ take (length Y0) (map strip Y0))))"
    by (rule append_node [OF nd(1,2,4)]) (use n in simp_all)
  then have 1: "for_up 0 (length Y0) (\<lambda>i. move_pair geo al (length X0 + i) ar i) h = Some ?h1" by simp
  have n1: "node_at geo ?h1 P (map strip ?q)" using nd(3,5) by simp
  have "setval geo P ar (length ps1) ?h1 =
      Some (?h1(P \<mapsto> node_block geo ((map strip ?q)[length ps1 := (fst (map strip ?q ! length ps1), ar)])))"
    by (rule setval_node [OF n1]) simp
  moreover have "(map strip ?q)[length ps1 := (fst (map strip ?q ! length ps1), ar)] = map strip ?q1"
    by (simp add: list_update_append nth_append strip_def)
  ultimately have 2: "setval geo P ar (length ps1) ?h1 = Some ?h2" by simp
  have n2: "node_at geo ?h2 P (map strip ?q1)" using oq1 by simp
  have "setval geo P al (length ps1 + 1) ?h2 =
      Some (?h2(P \<mapsto> node_block geo ((map strip ?q1)[length ps1 + 1 := (fst (map strip ?q1 ! (length ps1 + 1)), al)])))"
    by (rule setval_node [OF n2]) simp
  moreover have "(map strip ?q1)[length ps1 + 1 := (fst (map strip ?q1 ! (length ps1 + 1)), al)] = map strip ps"
    by (simp add: ps_def list_update_append nth_append strip_def)
  ultimately have "setval geo P al (length ps1 + 1) ?h2 = Some h3" by (simp add: h3_def)
  then show "merge rec head geo level al (length X0) ar (length Y0) P (length ps1) h =
      Option.bind (rec head (bkey geo P (length ps1)) (level + 1) h3) (\<lambda>(_, head, h). Option.bind (bfree ar h) (\<lambda>h. Some (head, h)))"
    using 1 2 by (simp add: merge_def)
qed

lemma merge_ok:
  assumes t: "tree_at geo h head level (l # u # us)" and lv: "levels_ok (l # u # us)" and b: "big (u # us)"
    and l: "l = xs @ (al, X0) # (ar, Y0) # ys" and u: "u = xu @ (P, ps1 @ (s1, al, K1) # (s2, ar, K2) # ps2) # yu"
    and len: "length xs = length (entries_of xu) + length ps1"
    and n: "length X0 + length Y0 \<le> no_pairs geo" "2 \<le> length X0 + length Y0"
    and sz: "\<forall>n \<in> set xs \<union> set ys. 2 \<le> length (snd n)" and lev: "1 \<le> level"
    and hyp: "remove_hyp geo (length us)"
  shows "rebalanced geo h level (l # u # us) (merge (btree_remove_level geo) head geo level al (length X0) ar (length Y0) P (length ps1) h)"
proof -
  let ?ps = "ps1 @ (s1, ar, K1) # (s2, al, K2) # ps2" let ?u = "xu @ (P, ?ps) # yu"
  let ?h3 = "h(al \<mapsto> node_block geo (map strip (X0 @ Y0)), P \<mapsto> node_block geo (map strip ?ps))"
  let ?C = "entries_of xu @ ps1 @ absorb K1 ((s2, al, K2) # ps2) @ entries_of yu"
  note mm = merge_moves [OF t l u n(1)]
  have lk: "child_linked l (entries_of u)" and sl: "separated (entries_of l)" using lv by simp_all
  have cu: "entries_of u = (entries_of xu @ ps1) @ (s1, al, K1) # (s2, ar, K2) # (ps2 @ entries_of yu)" by (simp add: u)
  have lk2: "child_linked xs (entries_of xu @ ps1)" "gkeys X0 \<subseteq> K1" "gkeys Y0 \<subseteq> K2" "child_linked ys (ps2 @ entries_of yu)"
    using lk len unfolding l cu by (subst (asm) linked_app; simp)+
  have d: "distinct (node_addrs (l # u # us))" and nn: "\<forall>l \<in> set (l # u # us). nodes_at geo h l" using t by (simp_all add: tree_at_def)
  have tu: "tree_at geo h head (Suc level) (u # us)" using t by (simp add: tree_at_def)
  have al_out: "al \<notin> set (node_addrs (u # us))" using d l by auto
  let ?h1 = "h(al \<mapsto> node_block geo (map strip (X0 @ Y0)))" let ?L = "fst ` set l" let ?l = "xs @ (al, X0 @ Y0) # ys"
  have "tree_at geo ?h1 head (Suc level) (u # us)"
    using tu by (rule tree_at_other) (use al_out in auto)
  then have t3: "tree_at geo ?h3 head (Suc level) (?u # us)"
  proof (rule tree_at_change)
    have "P \<notin> fst ` set xu" "P \<notin> fst ` set yu" "al \<notin> fst ` set xu" "al \<notin> fst ` set yu" using d l u by auto
    moreover have "nodes_at geo h xu" "nodes_at geo h yu" using nn u by simp_all
    ultimately have "nodes_at geo ?h3 xu" "nodes_at geo ?h3 yu"
      using nodes_at_upd [of geo h xu al ?h1] nodes_at_upd [of geo h yu al ?h1] nodes_at_upd [of geo ?h1 xu P ?h3] nodes_at_upd [of geo ?h1 yu P ?h3]
      by simp_all
    moreover have "P \<noteq> 0" using nn u by simp
    ultimately show "nodes_at geo ?h3 ?u" using mm(3) by simp
  qed (auto simp: u)
  have su: "separated (entries_of u)" using levels_ok_sep levels_ok_tl [OF lv] by simp
  have lvu: "levels_ok ((xu @ (P, ps1 @ (s1, al, K1) # (s2, ar, K2) # ps2) # yu) # us)" using levels_ok_tl [OF lv] u by simp
  have lv3: "levels_ok (?u # us)"
  proof (rule levels_ok_replace [OF lvu])
    show "reserved us (length xu) s1" by (rule reserved_gkeys [OF lvu]) simp
    show "separated (entries_of xu @ ?ps @ entries_of yu)" using su by (simp add: u)
  qed auto
  have b3: "big (?u # us)" using b by (auto simp: u)
  have cu2: "2 \<le> length (entries_of ?u)" by simp
  have "node_at geo ?h3 P (map strip ?ps)" using mm(3) by simp
  then have key: "key_at geo ?h3 (bkey geo P (length ps1)) s1"
    using node_at_key [of ?h3 P "map strip ?ps" "length ps1"] by (simp add: nth_append)
  have "P \<notin> set (node_addrs us)" using d u by auto
  then have "\<exists>r. btree_remove_level geo head (bkey geo P (length ps1)) (Suc level) ?h3 = Some (ar, r) \<and> remove_ok geo ?h3 (Suc level) (?u # us) ?C r"
    by (intro remove_hypD [OF hyp refl t3 lv3 _ _ _ key _ _ refl]) (use b3 cu2 lev in \<open>simp_all add: bkey_def min_root_def\<close>)
  then obtain head4 h4 where r: "btree_remove_level geo head (bkey geo P (length ps1)) (Suc level) ?h3 = Some (ar, head4, h4)"
    and ok: "remove_ok geo ?h3 (Suc level) (?u # us) ?C (head4, h4)" by (metis surj_pair)
  have Au: "set (node_addrs (?u # us)) = set (node_addrs (u # us))" by (auto simp: u)
  let ?h5 = "h4(ar := None)"
  have fin: "merge (btree_remove_level geo) head geo level al (length X0) ar (length Y0) P (length ps1) h = Some (head4, ?h5) \<and>
      nodes_at geo ?h5 ?l \<and> fst ` set ?l \<inter> A' = {} \<and> ar \<notin> A' \<and> heap_frame h (set (node_addrs (l # u # us))) ?h5 (fst ` set ?l \<union> A')"
    if f4: "heap_frame ?h3 (set (node_addrs (u # us))) h4 A'" for A'
  proof -
    have keep: "h4 x = ?h3 x \<and> x \<notin> A'" if "x \<in> ?L" for x
    proof (rule heap_frame_same [OF f4])
      have "h x \<noteq> None" using tree_at_alloc [OF t, of x] that by auto
      then show "?h3 x \<noteq> None" by simp
      show "x \<notin> set (node_addrs (u # us))" using d that by auto
    qed
    have arL: "ar \<in> ?L" "al \<in> ?L" using l by auto
    have ar0: "ar \<noteq> 0" "h ar \<noteq> None" "ar \<notin> set (node_addrs (u # us))" "P \<notin> ?L" using tree_at_alloc [OF t, of ar] arL d u by auto
    have "h4 ar \<noteq> None" using keep [OF arL(1)] ar0(2) by simp
    then have m: "merge (btree_remove_level geo) head geo level al (length X0) ar (length Y0) P (length ps1) h = Some (head4, ?h5)"
      using mm(1) r ar0(1) by (auto simp: bfree_def simp del: fun_upd_apply)
    have other: "nodes_at geo ?h5 z" if z: "nodes_at geo h z" "fst ` set z \<subseteq> ?L - {al, ar}" for z
    proof (rule nodes_at_other [OF z(1)])
      fix x assume "x \<in> fst ` set z"
      then have x: "x \<in> ?L" "x \<noteq> al" "x \<noteq> ar" using z(2) by auto
      then show "?h5 x = h x" using keep [OF x(1)] ar0(4) by auto
    qed
    have D: "fst ` set xs \<subseteq> ?L - {al, ar}" "fst ` set ys \<subseteq> ?L - {al, ar}" using d l by auto
    have "nodes_at geo h xs" "nodes_at geo h ys" "al \<noteq> 0" using nn l by simp_all
    moreover have "node_at geo ?h5 al (map strip (X0 @ Y0))"
      using keep [OF arL(2)] mm(2,4,5) by (simp add: node_at_def node_block_def)
    ultimately have "nodes_at geo ?h5 ?l" using other D by simp
    moreover have L': "fst ` set ?l = ?L - {ar}" using d l by auto
    moreover have "heap_frame h (set (node_addrs (l # u # us))) ?h5 (fst ` set ?l \<union> A')"
    proof -
      have a: "heap_frame h (?L \<union> set (node_addrs (u # us))) ?h3 (?L \<union> set (node_addrs (u # us)))"
        by (rule heap_frame_refl) (use arL u in auto)
      have b: "heap_frame ?h3 (?L \<union> set (node_addrs (u # us))) h4 (?L \<union> A')" by (rule heap_frame_more [OF f4])
      have c: "heap_frame h4 (?L \<union> A') ?h5 ((?L - {ar}) \<union> A')"
        using keep [OF arL(1)] arL(1) by (auto simp: heap_frame_def)
      have "set (node_addrs (l # u # us)) = ?L \<union> set (node_addrs (u # us))" by simp
      then show ?thesis using heap_frame_trans [OF heap_frame_trans [OF a b] c] L' by (simp only:)
    qed
    ultimately show ?thesis using m keep arL by auto
  qed
  have cl: "entries_of ?l = entries_of l" by (simp add: l)
  have adl: "set (node_addrs (?l # ls)) = fst ` set ?l \<union> set (node_addrs ls)" for ls by (simp only: node_addrs_simps(2) set_append set_map)
  have cll: "2 \<le> length (entries_of ?l)" using n(2) by simp
  have "Suc level \<noteq> 1" using lev by simp
  note ok' = ok [unfolded remove_ok_def Au fst_conv snd_conv if_not_P [OF this]]
  then consider
    (tree) l4 us4 where "tree_at geo h4 head4 (Suc level) (l4 # us4)" "levels_ok (l4 # us4)" "us4 \<noteq> [] \<longrightarrow> big (l4 # us4)"
      "us4 = [] \<longrightarrow> min_root (Suc level) \<le> length (entries_of l4)" "heap_frame ?h3 (set (node_addrs (u # us))) h4 (set (node_addrs (l4 # us4)))"
      "entries_of l4 = ?C"
  | (none) e where "heap_frame ?h3 (set (node_addrs (u # us))) h4 {}" "bt_height head4 + 1 = Suc level" "?C = [e]" "bt_node head4 = fst (snd e)"
    by blast
  then show ?thesis
  proof cases
    case tree
    note f = fin [OF tree(5)]
    have t4: "tree_at geo ?h5 head4 (Suc level) (l4 # us4)"
      using tree(1) by (rule tree_at_other) (use f in auto)
    have "tree_at geo ?h5 head4 level (?l # l4 # us4)"
      by (rule tree_at_head [OF t t4]) (use f d l in auto)
    moreover have "child_linked ?l (entries_of l4)"
    proof -
      have c4: "entries_of l4 = (entries_of xu @ ps1) @ (s2, al, K1 \<union> K2) # (ps2 @ entries_of yu)" using tree(6) by simp
      show ?thesis unfolding c4 by (subst linked_app) (use lk2 linked_length [OF lk2(1)] in auto)
    qed
    then have "levels_ok (?l # l4 # us4)" using sl cl tree(2) by (simp only: levels_ok.simps)
    moreover have "big (l4 # us4)"
    proof (cases "us4 = []")
      case True
      then obtain n4 where "l4 = [n4]" using tree(2) by (auto simp: length_Suc_conv)
      then show ?thesis using tree(4) True lev by (simp add: min_root_def split: if_splits)
    qed (use tree(3) in simp)
    then have "big (?l # l4 # us4)" using sz n(2) by auto
    moreover have "heap_frame h (set (node_addrs (l # u # us))) ?h5 (set (node_addrs (?l # l4 # us4)))" unfolding adl using f by blast
    ultimately show ?thesis unfolding rebalanced_def list.sel using f cl by blast
  next
    case none
    note f = fin [OF none(1)]
    have c: "entries_of xu @ ps1 = []" "ps2 @ entries_of yu = []" "fst (snd e) = al" using none(3) by (auto simp: append_eq_Cons_conv)
    then have xy: "xs = []" "ys = []" using lk2(1,4) by simp_all
    have "tree_at geo ?h5 head4 level [?l]" using f none c xy by (simp add: tree_at_def)
    moreover have "levels_ok [?l]" using sl cl xy by (simp add: l)
    moreover have "heap_frame h (set (node_addrs (l # u # us))) ?h5 (set (node_addrs [?l]))" unfolding adl using f by simp
    ultimately show ?thesis unfolding rebalanced_def list.sel using f cl cll by blast
  qed
qed

section \<open>A node with too few entries\<close>

lemma rebalance_eq:
  assumes "find_level head geo p (Suc level) h = Some (P, h1)"
    and "getpos geo P p h1 = Some c" "bval geo P c h1 = Some a"
    and "c > 0 \<Longrightarrow> bval geo P (c - 1) h1 = Some left \<and> getfill geo left 0 h1 = Some nl \<and> left \<noteq> 0"
    and "c = 0 \<Longrightarrow> left = 0"
    and "getfill geo P c h1 = Some f"
    and "c + 1 < f \<Longrightarrow> bval geo P (c + 1) h1 = Some right \<and> getfill geo right 0 h1 = Some nr \<and> right \<noteq> 0"
    and "c > 0 \<or> c + 1 < f"
  shows "rebalance rec head geo p level a fill h =
    (if c > 0 \<and> fill + nl \<le> no_pairs geo then merge rec head geo level left nl a fill P (c - 1) h1
     else if c + 1 < f \<and> fill + nr \<le> no_pairs geo then merge rec head geo level a fill right nr P c h1
     else if fill > 1 then Some (head, h1)
     else if c > 0 then (if (nl - fill) div 2 < 1 then None
       else Option.bind (steal_l geo left nl a fill P (c - 1) ((nl - fill) div 2) h1) (\<lambda>h. Some (head, h)))
     else (if (nr - fill) div 2 < 1 then None
       else Option.bind (steal_r geo a fill right nr P c ((nr - fill) div 2) h1) (\<lambda>h. Some (head, h))))"
  using assms by (cases c; cases "c + 1 < f") (simp_all add: rebalance_def Let_def)

lemma steal_rebalanced:
  assumes t: "tree_at geo h' head level (l' # u' # us)" and lv: "levels_ok (l' # u' # us)"
    and l': "entries_of l' = entries_of l" "map fst l' = map fst l" "map fst u' = map fst u"
    and sz: "\<forall>n \<in> set l'. 2 \<le> length (snd n)" and u': "map (length \<circ> snd) u' = map (length \<circ> snd) u" "big (u # us)"
    and fr: "\<forall>b. b \<notin> set (node_addrs (l # u # us)) \<longrightarrow> h' b = h b"
  shows "rebalanced geo h level (l # u # us) (Some (head, h'))"
proof -
  have "(length \<circ> snd) ` set u' = (length \<circ> snd) ` set u" using arg_cong [OF u'(1), of set] by simp
  then have "\<forall>n \<in> set u'. 2 \<le> length (snd n)" using u'(2) by (metis (no_types, lifting) big_simps(2) comp_apply image_iff)
  then have "big (l' # u' # us)" using sz u'(2) by simp
  moreover have "node_addrs (l' # u' # us) = node_addrs (l # u # us)" by (simp only: node_addrs_simps l'(2,3))
  then have "heap_frame h (set (node_addrs (l # u # us))) h' (set (node_addrs (l' # u' # us)))"
    using fr heap_frame_refl [of "set (node_addrs (l # u # us))" h' h] by (simp only:) blast
  ultimately show ?thesis unfolding rebalanced_def list.sel using t lv l'(1) by blast
qed

text \<open>A node with a single entry takes half of the others of a full neighbour.\<close>

lemma starved_l:
  assumes t: "tree_at geo h head level (l # u # us)" and lv: "levels_ok (l # u # us)" and b: "big (u # us)"
    and l: "l = xs @ (al, X0) # (ar, Y0) # ys" and u: "u = xu @ (P, ps1 @ (s1, al, K1) # (s2, ar, K2) # ps2) # yu"
    and len: "length xs = length (entries_of xu) + length ps1" and rs: "reserved us (length xu) k0"
    and sz: "\<forall>n \<in> set xs \<union> set ys. 2 \<le> length (snd n)" "length X0 = no_pairs geo" "length Y0 = 1"
    and d: "d = (length X0 - length Y0) div 2"
  shows "rebalanced geo h level (l # u # us)
    (Option.bind (steal_l geo al (length X0) ar (length Y0) P (length ps1) d h) (\<lambda>h. Some (head, h)))"
proof -
  have N: "4 \<le> length X0" using no_pairs_4 sz(2) by simp
  have d2: "1 \<le> d" "d + 2 \<le> length X0" "d < length X0" "d + length Y0 \<le> no_pairs geo" using N sz(2,3) unfolding d by simp_all
  from steal_l_state [OF t lv l u len rs d2(1,3,4), of k0] obtain h' l' u' where
    s: "steal_l geo al (length X0) ar (length Y0) P (length ps1) d h = Some h'" "tree_at geo h' head level (l' # u' # us)"
      "levels_ok (l' # u' # us)" "l' = xs @ (al, take (length X0 - d) X0) # (ar, drop (length X0 - d) X0 @ Y0) # ys"
      "map fst u' = map fst u" "map (length \<circ> snd) u' = map (length \<circ> snd) u" "\<forall>b. b \<notin> set (node_addrs (l # u # us)) \<longrightarrow> h' b = h b"
    by blast
  have c: "entries_of l' = entries_of l" "map fst l' = map fst l" unfolding s(4) l by (simp_all add: take_drop_append)
  have "2 \<le> length (take (length X0 - d) X0)" "2 \<le> length (drop (length X0 - d) X0 @ Y0)" using d2 sz(3) by simp_all
  then have "\<forall>n \<in> set l'. 2 \<le> length (snd n)" using sz(1) unfolding s(4) by auto
  from steal_rebalanced [OF s(2,3) c s(5) this s(6) b s(7)] show ?thesis using s(1) by simp
qed

lemma starved_r:
  assumes t: "tree_at geo h head level (l # u # us)" and lv: "levels_ok (l # u # us)" and b: "big (u # us)"
    and l: "l = xs @ (al, X0) # (ar, Y0) # ys" and u: "u = xu @ (P, ps1 @ (s1, al, K1) # (s2, ar, K2) # ps2) # yu"
    and len: "length xs = length (entries_of xu) + length ps1" and rs: "reserved us (length xu) k0"
    and sz: "\<forall>n \<in> set xs \<union> set ys. 2 \<le> length (snd n)" "length Y0 = no_pairs geo" "length X0 = 1"
    and d: "d = (length Y0 - length X0) div 2"
  shows "rebalanced geo h level (l # u # us)
    (Option.bind (steal_r geo al (length X0) ar (length Y0) P (length ps1) d h) (\<lambda>h. Some (head, h)))"
proof -
  have N: "4 \<le> length Y0" using no_pairs_4 sz(2) by simp
  have d2: "1 \<le> d" "d + 2 \<le> length Y0" "d < length Y0" "length X0 + d \<le> no_pairs geo" using N sz(2,3) unfolding d by simp_all
  from steal_r_state [OF t lv l u len rs d2(1,3,4), of k0] obtain h' l' u' where
    s: "steal_r geo al (length X0) ar (length Y0) P (length ps1) d h = Some h'" "tree_at geo h' head level (l' # u' # us)"
      "levels_ok (l' # u' # us)" "l' = xs @ (al, X0 @ take d Y0) # (ar, drop d Y0) # ys"
      "map fst u' = map fst u" "map (length \<circ> snd) u' = map (length \<circ> snd) u" "\<forall>b. b \<notin> set (node_addrs (l # u # us)) \<longrightarrow> h' b = h b"
    by blast
  have c: "entries_of l' = entries_of l" "map fst l' = map fst l" unfolding s(4) l by (simp_all add: take_drop_append)
  have "2 \<le> length (X0 @ take d Y0)" "2 \<le> length (drop d Y0)" using d2 sz(3) by simp_all
  then have "\<forall>n \<in> set l'. 2 \<le> length (snd n)" using sz(1) unfolding s(4) by auto
  from steal_rebalanced [OF s(2,3) c s(5) this s(6) b s(7)] show ?thesis using s(1) by simp
qed

lemma rebalanced_later:
  assumes "rebalanced geo h1 level ls1 r" "\<And>b. b \<notin> set (node_addrs ls) \<Longrightarrow> h1 b = h b" "node_addrs ls1 = node_addrs ls"
    and "entries_of (hd ls1) = entries_of (hd ls)"
  shows "rebalanced geo h level ls r"
proof -
  have "heap_frame h (set (node_addrs ls)) h1 (set (node_addrs ls1))" using assms(2,3) by (simp add: heap_frame_refl)
  then have "heap_frame h (set (node_addrs ls)) h' A'" if "heap_frame h1 (set (node_addrs ls1)) h' A'" for h' A'
    using that by (rule heap_frame_trans)
  then show ?thesis using assms(1) unfolding rebalanced_def assms(4) by blast
qed

lemma rebalance_state:
  assumes t: "tree_at geo h head level (l # u # us0)" and lv: "levels_ok (l # u # us0)" and b: "big (u # us0)"
    and l: "l = xs @ (a, es) # ys" and sz: "\<forall>n \<in> set xs \<union> set ys. 2 \<le> length (snd n)" "1 \<le> length es"
    and rs: "reserved (u # us0) (length xs) k" and k: "key_at geo h p k" "fst p \<notin> set (node_addrs us0)" and lev: "1 \<le> level"
    and hyp: "remove_hyp geo (length us0)"
  shows "rebalanced geo h level (l # u # us0) (rebalance (btree_remove_level geo) head geo p level a (length es) h)"
proof -
  let ?R = "btree_remove_level geo" let ?N = "no_pairs geo"
  from find_parent [OF t lv b l rs k]
  obtain h1 us1 xu P ps1 s K ps2 yu where f: "find_level head geo p (Suc level) h = Some (P, h1)"
    and t1: "tree_at geo h1 head level (l # u # us1)" and lv1: "levels_ok (l # u # us1)" and b2: "big (u # us1)"
    and ad: "map (map fst) us1 = map (map fst) us0" and fr: "\<And>b. b \<notin> set (node_addrs us0) \<Longrightarrow> h1 b = h b"
    and u: "u = xu @ (P, ps1 @ (s, a, K) # ps2) # yu" and rs1: "reserved us1 (length xu) k"
    and lk: "child_linked xs (entries_of xu @ ps1)" "child_linked ys (ps2 @ entries_of yu)" "gkeys es \<subseteq> K" and kK: "k \<in> K"
    and gp: "getpos geo P p h1 = Some (length ps1)" and nP: "node_at geo h1 P (map strip (ps1 @ (s, a, K) # ps2))"
    by metis
  have lx: "length xs = length (entries_of xu) + length ps1" using linked_length [OF lk(1)] by simp
  have nb: "bval geo P (length ps1) h1 = Some a" using neighbour(1) [of h1 head level xs a es ys xu P ps1 s K ps2 yu us1] t1 l u by simp
  have gf: "getfill geo P (length ps1) h1 = Some (length (ps1 @ (s, a, K) # ps2))"
    using getfill_node [OF nP, of "length ps1"] by simp
  have nz: "n \<in> set l \<Longrightarrow> fst n \<noteq> 0" for n using t by (auto simp: tree_at_def nodes_at_def)
  define left nl where "left = (case rev ps1 of [] \<Rightarrow> 0 | e # _ \<Rightarrow> fst (snd e))" and "nl = (case rev xs of [] \<Rightarrow> 0 | n # _ \<Rightarrow> length (snd n))"
  define right nr where "right = (case ps2 of [] \<Rightarrow> 0 | e # _ \<Rightarrow> fst (snd e))" and "nr = (case ys of [] \<Rightarrow> 0 | n # _ \<Rightarrow> length (snd n))"
  have N: "4 \<le> ?N" by (rule no_pairs_4)
  have L: "\<exists>ps1' sl Kl xs' X0. ps1 = ps1' @ [(sl, left, Kl)] \<and> xs = xs' @ [(left, X0)] \<and> length X0 = nl \<and>
      child_linked xs' (entries_of xu @ ps1')" if ne: "ps1 \<noteq> []"
  proof -
    obtain ps1' e where ps1: "ps1 = ps1' @ [e]" using ne by (metis rev_exhaust)
    obtain sl al Kl where e: "e = (sl, al, Kl)" by (cases e)
    have "child_linked xs ((entries_of xu @ ps1') @ [(sl, al, Kl)])" using lk(1) by (simp add: ps1 e)
    then obtain xs' X0 where "xs = xs' @ [(al, X0)]" "child_linked xs' (entries_of xu @ ps1')" "gkeys X0 \<subseteq> Kl" by (rule linked_snoc)
    then show ?thesis using ps1 e by (simp add: left_def nl_def)
  qed
  have Rt: "\<exists>sr Kr ps2' Y0 ys'. ps2 = (sr, right, Kr) # ps2' \<and> ys = (right, Y0) # ys' \<and> length Y0 = nr" if ne: "ps2 \<noteq> []"
  proof -
    obtain sr ar Kr ps2' where ps2: "ps2 = (sr, ar, Kr) # ps2'" using ne by (metis list.exhaust prod_cases3)
    have "child_linked ys ((sr, ar, Kr) # ps2' @ entries_of yu)" using lk(2) by (simp add: ps2)
    then obtain Y0 ys' where "ys = (ar, Y0) # ys'" "child_linked ys' (ps2' @ entries_of yu)" "gkeys Y0 \<subseteq> Kr" by (rule linked_head)
    then show ?thesis using ps2 by (simp add: right_def nr_def)
  qed
  have two: "ps1 \<noteq> [] \<or> ps2 \<noteq> []" using b u by auto
  have eq: "rebalance ?R head geo p level a (length es) h =
    (if length ps1 > 0 \<and> length es + nl \<le> ?N then merge ?R head geo level left nl a (length es) P (length ps1 - 1) h1
     else if length ps1 + 1 < length (ps1 @ (s, a, K) # ps2) \<and> length es + nr \<le> ?N
     then merge ?R head geo level a (length es) right nr P (length ps1) h1
     else if length es > 1 then Some (head, h1)
     else if length ps1 > 0 then (if (nl - length es) div 2 < 1 then None
       else Option.bind (steal_l geo left nl a (length es) P (length ps1 - 1) ((nl - length es) div 2) h1) (\<lambda>h. Some (head, h)))
     else (if (nr - length es) div 2 < 1 then None
       else Option.bind (steal_r geo a (length es) right nr P (length ps1) ((nr - length es) div 2) h1) (\<lambda>h. Some (head, h))))"
  proof (rule rebalance_eq [OF f gp nb _ _ gf])
    assume "length ps1 > 0"
    then have "ps1 \<noteq> []" by auto
    from L [OF this] obtain ps1' sl Kl xs' X0 where "ps1 = ps1' @ [(sl, left, Kl)]" "xs = xs' @ [(left, X0)]" "length X0 = nl" by blast
    then show "bval geo P (length ps1 - 1) h1 = Some left \<and> getfill geo left 0 h1 = Some nl \<and> left \<noteq> 0"
      using neighbour [of h1 head level xs' left X0 "(a, es) # ys" xu P ps1' sl Kl "(s, a, K) # ps2" yu us1] t1 l u nz [of "(left, X0)"] by simp
  next
    assume "length ps1 + 1 < length (ps1 @ (s, a, K) # ps2)"
    then have "ps2 \<noteq> []" by auto
    from Rt [OF this] obtain sr Kr ps2' Y0 ys' where "ps2 = (sr, right, Kr) # ps2'" "ys = (right, Y0) # ys'" "length Y0 = nr" by blast
    then show "bval geo P (length ps1 + 1) h1 = Some right \<and> getfill geo right 0 h1 = Some nr \<and> right \<noteq> 0"
      using neighbour [of h1 head level "xs @ [(a, es)]" right Y0 ys' xu P "ps1 @ [(s, a, K)]" sr Kr ps2' yu us1] t1 l u nz [of "(right, Y0)"] by simp
  qed (use two in \<open>auto simp: left_def\<close>)
  have hyp1: "remove_hyp geo (length us1)" using hyp map_eq_imp_length_eq [OF ad] by simp
  have merge_right: "rebalanced geo h1 level (l # u # us1) (merge ?R head geo level a (length es) right nr P (length ps1) h1)"
    if ne: "ps2 \<noteq> []" and fit: "length es + nr \<le> ?N"
  proof -
    from Rt [OF ne] obtain sr Kr ps2' Y0 ys' where
      ps2: "ps2 = (sr, right, Kr) # ps2'" "ys = (right, Y0) # ys'" "length Y0 = nr" by blast
    have lr: "l = xs @ (a, es) # (right, Y0) # ys'" "u = xu @ (P, ps1 @ (s, a, K) # (sr, right, Kr) # ps2') # yu" using l u ps2 by simp_all
    have z: "2 \<le> nr" "\<forall>n \<in> set xs \<union> set ys'. 2 \<le> length (snd n)" using sz(1) unfolding ps2(2) ps2(3) [symmetric] by simp_all
    have "rebalanced geo h1 level (l # u # us1) (merge ?R head geo level a (length es) right (length Y0) P (length ps1) h1)"
      by (rule merge_ok [OF t1 lv1 b2 lr lx _ _ z(2) lev hyp1]) (use fit z(1) ps2(3) in simp_all)
    then show ?thesis using ps2(3) by simp
  qed
  have no_steal: "rebalanced geo h1 level (l # u # us1) (Some (head, h1))" if "2 \<le> length es"
    by (rule steal_rebalanced [OF t1 lv1 refl refl refl _ refl b2]) (use that sz(1) l in auto)
  have "rebalanced geo h1 level (l # u # us1) (rebalance ?R head geo p level a (length es) h)"
  proof (cases "ps1 \<noteq> []")
    case True
    from L [OF this] obtain ps1' sl Kl xs' X0 where ps1: "ps1 = ps1' @ [(sl, left, Kl)]" "xs = xs' @ [(left, X0)]" "length X0 = nl"
      "child_linked xs' (entries_of xu @ ps1')" by blast
    have lu: "l = xs' @ (left, X0) # (a, es) # ys" "u = xu @ (P, ps1' @ (sl, left, Kl) # (s, a, K) # ps2) # yu"
      "length xs' = length (entries_of xu) + length ps1'" using l u ps1 linked_length [OF ps1(4)] by simp_all
    have nl: "2 \<le> nl" "\<forall>n \<in> set xs' \<union> set ys. 2 \<le> length (snd n)" using sz(1) unfolding ps1(2) ps1(3) [symmetric] by simp_all
    have nlN: "nl \<le> ?N" using node_atD(4) [OF tree_at_node(2) [OF t1 [unfolded lu(1)]]] ps1(3) by simp
    have e1: "length ps1 > 0" "length ps1 - 1 = length ps1'" using ps1(1) by simp_all
    show ?thesis
    proof (cases "length es + nl \<le> ?N")
      case True
      have "rebalanced geo h1 level (l # u # us1) (merge ?R head geo level left (length X0) a (length es) P (length ps1') h1)"
        by (rule merge_ok [OF t1 lv1 b2 lu _ _ nl(2) lev hyp1]) (use True nl(1) sz(2) ps1(3) in simp_all)
      then show ?thesis unfolding eq using True e1 ps1(3) by simp
    next
      case nol: False
      show ?thesis
      proof (cases "length es = 1")
        case True
        then have full: "length X0 = ?N" using nol nlN ps1(3) by simp
        define d where "d = (length X0 - length es) div 2"
        have "rebalanced geo h1 level (l # u # us1)
            (Option.bind (steal_l geo left (length X0) a (length es) P (length ps1') d h1) (\<lambda>h. Some (head, h)))"
          by (rule starved_l [OF t1 lv1 b2 lu rs1 nl(2) full True d_def])
        moreover have "\<not> (nl - length es) div 2 < 1" using full True N ps1(3) by simp
        ultimately show ?thesis using merge_right unfolding eq e1(2) using nol e1 True ps1(3) by (auto simp: d_def)
      next
        case False
        then have "2 \<le> length es" using sz(2) by simp
        with no_steal show ?thesis using merge_right unfolding eq using nol by auto
      qed
    qed
  next
    case False
    with two have e0: "ps1 = []" "ps2 \<noteq> []" by simp_all
    show ?thesis
    proof (cases "length es + nr \<le> ?N")
      case True
      then have "rebalanced geo h1 level (l # u # us1) (merge ?R head geo level a (length es) right nr P (length ps1) h1)"
        by (rule merge_right [OF e0(2)])
      then show ?thesis unfolding eq using True e0 by simp
    next
      case nor: False
      show ?thesis
      proof (cases "length es = 1")
        case True
        from Rt [OF e0(2)] obtain sr Kr ps2' Y0 ys' where
          ps2: "ps2 = (sr, right, Kr) # ps2'" "ys = (right, Y0) # ys'" "length Y0 = nr" by blast
        have lr: "l = xs @ (a, es) # (right, Y0) # ys'" "u = xu @ (P, ps1 @ (s, a, K) # (sr, right, Kr) # ps2') # yu" using l u ps2 by simp_all
        have "nr \<le> ?N" using node_atD(4) [OF tree_at_node(2) [of geo h1 head level "xs @ [(a, es)]" right Y0 ys' "u # us1"]] t1 lr ps2(3) by simp
        then have full: "length Y0 = ?N" using nor True ps2(3) by simp
        have z: "\<forall>n \<in> set xs \<union> set ys'. 2 \<le> length (snd n)" using sz(1) ps2(2) by simp
        define d where "d = (length Y0 - length es) div 2"
        have "rebalanced geo h1 level (l # u # us1)
            (Option.bind (steal_r geo a (length es) right (length Y0) P (length ps1) d h1) (\<lambda>h. Some (head, h)))"
          by (rule starved_r [OF t1 lv1 b2 lr lx rs1 z full True d_def])
        moreover have "\<not> (nr - length es) div 2 < 1" using full True N ps2(3) by simp
        ultimately show ?thesis unfolding eq using nor e0 True ps2(3) by (auto simp: d_def)
      next
        case False
        then have "2 \<le> length es" using sz(2) by simp
        with no_steal show ?thesis unfolding eq using nor e0 by auto
      qed
    qed
  qed
  then show ?thesis
    by (rule rebalanced_later) (use fr ad in \<open>simp_all add: node_addrs_def\<close>)
qed

section \<open>The root loses an entry\<close>

lemma remove_okI:
  assumes "tree_at geo h' head' level (l' # us')" "levels_ok (l' # us')" "us' \<noteq> [] \<longrightarrow> big (l' # us')"
    and "us' = [] \<longrightarrow> min_root level \<le> length (entries_of l')" "heap_frame h (set (node_addrs ls)) h' (set (node_addrs (l' # us')))"
  shows "remove_ok geo h level ls (entries_of l') (head', h')"
  unfolding remove_ok_def fst_conv snd_conv using assms by (intro disjI1 exI [of _ l'] exI [of _ us'] conjI refl) assumption+

lemma shrink_ok:
  assumes t: "tree_at geo h head level [[(a, es)]]" and lv: "levels_ok [[(a, es)]]" and lev: "1 \<le> level"
    and ne: "level \<noteq> 1 \<longrightarrow> 1 \<le> length es"
  shows "\<exists>r. btree_shrink head geo (length es) h = Some r \<and> remove_ok geo h level [[(a, es)]] es r"
proof -
  have hd: "bt_node head = a" "bt_height head = level" using t by (simp_all add: tree_at_def)
  have "tree_at geo h head level (([] @ (a, es) # []) # [])" using t by simp
  note n = tree_at_node [OF this]
  have fr: "heap_frame h {a} (h(a := None)) {}" by (simp add: heap_frame_def)
  have free: "bfree a h = Some (h(a := None))" using n by (auto simp: bfree_def)
  show ?thesis
  proof (cases "length es = 0 \<or> length es = 1 \<and> level > 1")
    case False
    then have "btree_shrink head geo (length es) h = Some (head, h)" by (auto simp: btree_shrink_def hd)
    moreover have "min_root level \<le> length es" using False lev ne unfolding min_root_def by (cases "level = 1"; simp only: if_True if_False refl; linarith)
    then have "remove_ok geo h level [[(a, es)]] (entries_of [(a, es)]) (head, h)"
      by (intro remove_okI [OF t lv]) (auto intro: heap_frame_refl)
    then have "remove_ok geo h level [[(a, es)]] es (head, h)" by simp
    ultimately show ?thesis by blast
  next
    case True
    define w where "w = (if es = [] then 0 else fst (snd (hd es)))"
    have "bval geo a 0 h = Some w"
    proof (cases es)
      case Nil
      then show ?thesis using node_at_zero [OF n(2), of 0] no_pairs_4 by (simp add: w_def)
    next
      case (Cons e es')
      then show ?thesis using node_at_val [OF n(2), of 0] by (simp add: w_def)
    qed
    then have "btree_shrink head geo (length es) h = Some (head\<lparr>bt_node := w, bt_height := level - 1\<rparr>, h(a := None))"
      using True free by (auto simp: btree_shrink_def hd)
    moreover have "if level = 1 then es = [] \<and> w = 0 else \<exists>e. es = [e] \<and> w = fst (snd e)"
      using True ne by (auto simp: length_Suc_conv w_def)
    then have "remove_ok geo h level [[(a, es)]] es (head\<lparr>bt_node := w, bt_height := level - 1\<rparr>, h(a := None))"
      unfolding remove_ok_def using fr lev by (intro disjI2 conjI) (auto split: if_splits)
    ultimately show ?thesis by blast
  qed
qed

section \<open>The removal\<close>

lemma remove_unfold:
  assumes "level \<le> bt_height head" "find_level head geo p level h = Some (a, h1)"
    and "node_at geo h1 a (map strip (ps @ (k, v, K) # qs))" "key_at geo h1 p k" "separated (ps @ (k, v, K) # qs)"
  shows "btree_remove_level geo head p level h =
    (let h2 = h1(a \<mapsto> node_block geo (map strip (ps @ absorb K qs))); n = length (ps @ absorb K qs) in
     if n < no_pairs geo div 2 then
       Option.bind (if level < bt_height head then rebalance (btree_remove_level geo) head geo p level a n h2
          else btree_shrink head geo n h2) (\<lambda>(head, h). Some (v, head, h))
     else Some (v, head, h2))"
proof -
  let ?es = "ps @ (k, v, K) # qs"
  have "takeWhile (\<lambda>e. k < fst e) ?es = ps" by (rule takeWhile_ghost [OF assms(5)]) simp
  then have "getpos geo a p h1 = Some (length ps)" using getpos_node [OF assms(3,4)] by (simp only: takeWhile_strip)
  moreover have "getfill geo a (length ps) h1 = Some (length ?es)" using getfill_node [OF assms(3), of "length ps"] by simp
  moreover have "keycmp geo a (length ps) p h1 = Some (order_of k k)"
    using node_at_keycmp [OF assms(3,4), of "length ps"] by (simp add: nth_append)
  moreover have "bval geo a (length ps) h1 = Some v" using node_at_val [OF assms(3), of "length ps"] by (simp add: nth_append)
  moreover have "remove_pair geo a (length ps) (length ?es) h1 = Some (h1(a \<mapsto> node_block geo (map strip (ps @ absorb K qs))))"
    using remove_pair_node [OF assms(3), of "length ps"] by simp
  ultimately show ?thesis using assms(1,2) by (subst btree_remove_level.simps) (auto simp: Let_def)
qed

lemma remove_ok_frame:
  assumes "remove_ok geo h1 level ls1 C r" "heap_frame h (set (node_addrs ls)) h1 (set (node_addrs ls1))"
  shows "remove_ok geo h level ls C r"
  using assms(1) heap_frame_trans [OF assms(2)] unfolding remove_ok_def by blast

lemma remove_ok_later:
  assumes "rebalanced geo h1 level ls1 r" "heap_frame h (set (node_addrs ls)) h1 (set (node_addrs ls1))"
  shows "\<exists>r'. r = Some r' \<and> remove_ok geo h level ls (entries_of (hd ls1)) r'"
proof -
  obtain head' h' l' us' where r: "r = Some (head', h')" "tree_at geo h' head' level (l' # us')" "levels_ok (l' # us')"
    "us' \<noteq> [] \<longrightarrow> big (l' # us')" "us' = [] \<longrightarrow> 2 \<le> length (entries_of l')"
    "heap_frame h1 (set (node_addrs ls1)) h' (set (node_addrs (l' # us')))" "entries_of l' = entries_of (hd ls1)"
    using assms(1) unfolding rebalanced_def by blast
  have "us' = [] \<longrightarrow> min_root level \<le> length (entries_of l')" using r(5) by (auto simp: min_root_def)
  from remove_okI [OF r(2,3,4) this heap_frame_trans [OF assms(2) r(6)]] show ?thesis using r(1,7) by simp
qed

lemma remove_step:
  assumes t: "tree_at geo h1 head level (l # us)" and lv: "levels_ok (l # us)" and b: "us \<noteq> [] \<longrightarrow> big (l # us)"
    and root: "us = [] \<longrightarrow> min_root level \<le> length (entries_of l)" and lev: "1 \<le> level"
    and k: "key_at geo h1 p k" "fst p \<notin> set (node_addrs us)" "fst p \<notin> fst ` set l \<or> p = bkey geo a (length ps) \<and> qs \<noteq> []"
    and l: "l = xs @ (a, ps @ (k, v, K) # qs) # ys" and rs: "reserved us (length xs) k"
    and f: "find_level head geo p level h = Some (a, h1)"
    and hyp: "us \<noteq> [] \<Longrightarrow> remove_hyp geo (length us - 1)"
  shows "\<exists>r. btree_remove_level geo head p level h = Some (v, r) \<and>
    remove_ok geo h1 level (l # us) (entries_of xs @ ps @ absorb K qs @ entries_of ys) r"
proof -
  let ?es = "ps @ (k, v, K) # qs" let ?fs = "ps @ absorb K qs" let ?l = "xs @ (a, ?fs) # ys"
  let ?h = "h1(a \<mapsto> node_block geo (map strip ?fs))"
  note n = tree_at_node [OF t [unfolded l]]
  have sep: "separated (entries_of xs @ ps @ (k, v, K) # qs @ entries_of ys)" using levels_ok_sep [OF lv] l by simp
  then have sn: "separated ?es" by auto
  have hl: "level \<le> bt_height head" "level < bt_height head \<longleftrightarrow> us \<noteq> []" using tree_at_height [OF t] by auto
  note eq = remove_unfold [OF hl(1) f n(2) k(1) sn]
  have ok: "entries_ok geo (map strip ?fs)" using entries_okD [OF node_atD(3) [OF n(2)]] by (auto simp: entries_ok_def)
  have t2: "tree_at geo ?h head level (?l # us)"
    by (rule tree_at_change [OF t]) (use ok n l in \<open>auto intro: nodes_at_upd\<close>)
  have "separated ((entries_of xs @ ps) @ absorb K qs @ entries_of ys)" by (rule separated_absorb [of _ k v]) (use sep in simp)
  then have "separated (entries_of xs @ ?fs @ entries_of ys)" by (simp only: append_assoc)
  moreover have "gkeys ?fs \<subseteq> insert k (gkeys ?es)" using gkeys_absorb [of K qs] by auto
  ultimately have lv2: "levels_ok (?l # us)" by (rule levels_ok_replace [OF lv [unfolded l] rs])
  have fr: "heap_frame h1 (set (node_addrs (l # us))) ?h (set (node_addrs (?l # us)))" unfolding l by (simp add: heap_frame_def)
  have c: "entries_of ?l = entries_of xs @ ps @ absorb K qs @ entries_of ys" by simp
  have N: "4 \<le> no_pairs geo" by (rule no_pairs_4)
  show ?thesis
  proof (cases "length ?fs < no_pairs geo div 2")
    case False
    then have two: "2 \<le> length ?fs" using N by simp
    then have "us \<noteq> [] \<longrightarrow> big (?l # us)" using b l by auto
    moreover have "us = [] \<longrightarrow> min_root level \<le> length (entries_of ?l)" using two by (auto simp: min_root_def)
    ultimately have "remove_ok geo h1 level (l # us) (entries_of ?l) (head, ?h)" using fr by (rule remove_okI [OF t2 lv2])
    then show ?thesis unfolding eq c using False by (simp add: Let_def)
  next
    case True
    show ?thesis
    proof (cases us)
      case Nil
      then have x: "xs = []" "ys = []" using lv l by (auto simp: append_eq_Cons_conv)
      have "level \<noteq> 1 \<longrightarrow> 1 \<le> length ?fs" using root Nil l x by (auto simp: min_root_def)
      from shrink_ok [OF t2 [unfolded Nil x append_Nil] lv2 [unfolded Nil x append_Nil] lev this] obtain r where
        r: "btree_shrink head geo (length ?fs) ?h = Some r" "remove_ok geo ?h level [[(a, ?fs)]] ?fs r" by blast
      have "heap_frame h1 (set (node_addrs [l])) ?h (set (node_addrs [[(a, ?fs)]]))" using fr Nil x by simp
      then have "remove_ok geo h1 level (l # us) ?fs r" using remove_ok_frame [OF r(2)] Nil by simp
      then show ?thesis unfolding eq using True r(1) hl Nil x by (auto simp: Let_def)
    next
      case (Cons u us0)
      obtain k2 where k2: "key_at geo ?h p k2" "reserved us (length xs) k2" using k(3)
      proof
        assume "fst p \<notin> fst ` set l"
        then have "key_at geo ?h p k" by (intro key_at_other [OF k(1)]) (use l in auto)
        then show ?thesis using rs that by blast
      next
        assume p: "p = bkey geo a (length ps) \<and> qs \<noteq> []"
        have "node_at geo ?h a (map strip ?fs)" using ok by simp
        from node_at_key [OF this, of "length ps"] have "key_at geo ?h p (fst (absorb K qs ! 0))"
          using p by (cases "(K, qs)" rule: absorb.cases) (simp_all add: nth_append strip_def)
        moreover have "fst (absorb K qs ! 0) \<in> gkeys ?fs" using p by (intro gkeysI(1)) simp
        then have "reserved us (length xs) (fst (absorb K qs ! 0))" by (rule reserved_gkeys [OF lv2])
        ultimately show ?thesis using that by blast
      qed
      have bb: "big (u # us0)" and sz: "\<forall>n \<in> set xs \<union> set ys. 2 \<le> length (snd n)" "1 \<le> length ?fs" using b Cons l by auto
      have "rebalanced geo ?h level (?l # u # us0) (rebalance (btree_remove_level geo) head geo p level a (length ?fs) ?h)"
        by (rule rebalance_state [OF t2 [unfolded Cons] lv2 [unfolded Cons] bb refl sz k2(2) [unfolded Cons] k2(1) _ lev])
          (use k(2) hyp Cons in simp_all)
      from remove_ok_later [OF this fr [unfolded Cons]] show ?thesis unfolding eq using True hl Cons by (auto simp: Let_def)
    qed
  qed
qed

theorem remove_level_ok: "remove_hyp geo n"
proof (induction n)
  have step: "remove_hyp geo n" if hyp: "n > 0 \<Longrightarrow> remove_hyp geo (n - 1)" for n
    unfolding remove_hyp_def
  proof (intro allI impI)
    fix h head level l us p k v K xs a ps qs ys
    assume n: "length us = n" and t: "tree_at geo h head level (l # us)" and lv: "levels_ok (l # us)" and b: "us \<noteq> [] \<longrightarrow> big (l # us)"
      and root: "us = [] \<longrightarrow> min_root level \<le> length (entries_of l)" and lev: "1 \<le> level"
      and k: "key_at geo h p k" "fst p \<notin> set (node_addrs us)" "fst p \<notin> fst ` set l \<or> p = bkey geo a (length ps) \<and> qs \<noteq> []"
      and l: "l = xs @ (a, ps @ (k, v, K) # qs) # ys"
    have "big us" using b by (cases us) simp_all
    from find_level_ok [OF t lv this(1) k(1,2)] obtain h1 us1 xs' a' es' ys' where
      f: "find_level head geo p level h = Some (a', h1)" "l = xs' @ (a', es') # ys'" "tree_at geo h1 head level (l # us1)"
      "levels_ok (l # us1)" "big us1" "map (map fst) us1 = map (map fst) us" "\<forall>b. b \<notin> set (node_addrs us) \<longrightarrow> h1 b = h b"
      "reserved us1 (length xs') k" by metis
    have ad: "node_addrs us1 = node_addrs us" using f(6) by (simp add: node_addrs_def)
    have "k \<in> gkeys (snd (a, ps @ (k, v, K) # qs))" by simp
    from node_unique [OF f(4,2,8) l this] have u: "xs' = xs" "a' = a" by simp_all
    have b1: "us1 \<noteq> [] \<longrightarrow> big (l # us1)" using b f(5,6) by (cases us) auto
    have root1: "us1 = [] \<longrightarrow> min_root level \<le> length (entries_of l)" using root f(6) by auto
    have k1: "key_at geo h1 p k" using k(1) by (rule key_at_other) (use f(7) k(2) in simp)
    have p1: "fst p \<notin> set (node_addrs us1)" using k(2) ad by simp
    have fr: "heap_frame h (set (node_addrs (l # us))) h1 (set (node_addrs (l # us1)))" using f(7) ad by (auto intro: heap_frame_refl)
    have "remove_hyp geo (length us1 - 1)" if "us1 \<noteq> []" using that hyp n map_eq_imp_length_eq [OF f(6)] by (cases us1) auto
    from remove_step [OF f(3,4) b1 root1 lev k1 p1 k(3) l f(8) [unfolded u] f(1) [unfolded u] this]
    obtain r where r: "btree_remove_level geo head p level h = Some (v, r)"
      "remove_ok geo h1 level (l # us1) (entries_of xs @ ps @ absorb K qs @ entries_of ys) r" by blast
    from remove_ok_frame [OF r(2) fr] r(1)
    show "\<exists>r. btree_remove_level geo head p level h = Some (v, r) \<and>
       remove_ok geo h level (l # us) (entries_of xs @ ps @ absorb K qs @ entries_of ys) r" by blast
  qed
  show "remove_hyp geo 0" by (rule step) simp
  show "remove_hyp geo (Suc n)" if "remove_hyp geo n" for n by (rule step) (use that in simp)
qed

end

end
