(* ===== verification/Btree_Search.thy ===== *)
theory Btree_Search
  imports Btree_Remove
begin

text \<open>
  The functions that only read: the lookup, the largest key, and the two visitors, of which the grim
  one frees every node behind it. A visitor goes down from a node at any level, so its theorem is
  about forests, parts of a tree with some nodes of one level and all that is below them.
\<close>

section \<open>Looking up\<close>

fun descend :: "btree_geo \<Rightarrow> kptr \<Rightarrow> nat \<Rightarrow> u64 \<Rightarrow> bheap \<Rightarrow> u64 option" where
  "descend geo key 0 node h = Some node"
| "descend geo key (Suc n) node h = Option.bind (getpos geo node key h) (\<lambda>i.
     if i = no_pairs geo then Some 0
     else Option.bind (bval geo node i h) (\<lambda>node. if node = 0 then Some 0 else descend geo key n node h))"

lemma lookup_descend:
  "lookup_down geo key n node h = Option.bind (descend geo key n node h) (\<lambda>a. if a = 0 then Some 0 else lookup_leaf geo a key 0 h)"
proof (induction n arbitrary: node)
  case (Suc n)
  show ?case
  proof (cases "getpos geo node key h")
    case (Some i)
    then show ?thesis by (cases "bval geo node i h") (auto simp: Suc.IH)
  qed simp
qed simp

lemma descend_snoc:
  "node \<noteq> 0 \<Longrightarrow> descend geo key (Suc n) node h =
     Option.bind (descend geo key n node h) (\<lambda>a. if a = 0 then Some 0 else descend geo key 1 a h)"
proof (induction n arbitrary: node)
  case (Suc n)
  show ?case
  proof (cases "getpos geo node key h")
    case (Some i)
    show ?thesis
    proof (cases "i = no_pairs geo")
      case False
      show ?thesis
      proof (cases "bval geo node i h")
        case (Some node')
        then show ?thesis using Suc \<open>getpos geo node key h = Some i\<close> False
          by (cases "node' = 0") (simp_all del: descend.simps add: descend.simps(2) [of geo key _ node h])
      qed (use Some in \<open>simp add: False\<close>)
    qed (use Some in simp)
  qed simp
qed simp

text \<open>Where the search for a key ends: in the only node that may hold it, or nowhere.\<close>

definition placed :: "level \<Rightarrow> u64 list \<Rightarrow> u64 \<Rightarrow> bool" where
  "placed l k a \<longleftrightarrow> (if a = 0 then k \<notin> gkeys (entries_of l)
     else \<exists>xs es ys. l = xs @ (a, es) # ys \<and> (\<forall>z \<in> gkeys (entries_of xs). k < z) \<and> (\<forall>z \<in> gkeys (entries_of ys). z < k))"

lemma linked_gt:
  assumes "child_linked l C" "separated C" "\<forall>e \<in> set C. k < fst e"
  shows "\<forall>z \<in> gkeys (entries_of l). k < z"
proof
  fix z assume "z \<in> gkeys (entries_of l)"
  then obtain e where e: "e \<in> set C" "z \<in> ghost e" using linked_gkeys_ghost [OF assms(1)] by blast
  then have "fst e \<le> z" using assms(2) by (auto simp: separated_def)
  then show "k < z" using assms(3) e(1) by (meson less_le_trans)
qed

lemma levels_ok_last: "levels_ok (l # us) \<Longrightarrow> last (l # us) \<noteq> []"
  by (induction us arbitrary: l) auto

lemma levels_ok_nonempty: "levels_ok (l # us) \<Longrightarrow> big us \<Longrightarrow> l \<noteq> []"
proof (induction us arbitrary: l)
  case (Cons u us)
  then have "u \<noteq> []" by auto
  then obtain n u' where "u = n # u'" by (cases u) auto
  then have "entries_of u \<noteq> []" using Cons.prems(2) by auto
  then show ?case using Cons.prems(1) by auto
qed auto

context geometry
begin

lemma descend_step:
  assumes n: "node_at geo h P (map strip ps)" and k: "key_at geo h p k"
  shows "descend geo p 1 P h = Some (case dropWhile (\<lambda>e. k < fst e) ps of [] \<Rightarrow> 0 | e # _ \<Rightarrow> fst (snd e))"
proof -
  let ?i = "length (takeWhile (\<lambda>e. k < fst e) ps)"
  have gp: "getpos geo P p h = Some ?i" using getpos_node [OF n k] by simp
  have le: "length ps \<le> no_pairs geo" using node_atD(4) [OF n] by simp
  show ?thesis
  proof (cases "dropWhile (\<lambda>e. k < fst e) ps")
    case Nil
    then have "?i = length ps" using takeWhile_dropWhile_id [of "\<lambda>e. k < fst e" ps] by (metis append_Nil2)
    with gp have "getpos geo P p h = Some (length ps)" by (simp only:)
    then have "descend geo p 1 P h = Some 0" using node_at_zero [OF n, of "length ps"] le by auto
    then show ?thesis by (simp only: Nil list.case)
  next
    case (Cons e ps2)
    define ps1 where "ps1 = takeWhile (\<lambda>e. k < fst e) ps"
    have ps: "ps = ps1 @ e # ps2" using takeWhile_dropWhile_id [of "\<lambda>e. k < fst e" ps] by (simp only: Cons ps1_def)
    have v: "bval geo P (length ps1) h = Some (fst (snd e))" using node_at_val [OF n, of "length ps1"] ps by (simp add: nth_append)
    have "fst (snd e) \<noteq> 0" using entries_okD(5) [OF node_atD(3) [OF n], of "length ps1"] ps by (simp add: nth_append)
    moreover have "getpos geo P p h = Some (length ps1)" using gp by (simp only: ps1_def)
    moreover have "length ps1 \<noteq> no_pairs geo" using le ps by simp
    ultimately have "descend geo p 1 P h = Some (fst (snd e))" using v by simp
    then show ?thesis by (simp only: Cons list.case)
  qed
qed

lemma descend_ok:
  assumes "tree_at geo h head level (l # us)" "levels_ok (l # us)" "key_at geo h p k"
  shows "\<exists>a. descend geo p (bt_height head - level) (bt_node head) h = Some a \<and> placed l k a"
  using assms(1,2)
proof (induction us arbitrary: l level)
  case Nil
  then obtain n where "l = [n]" by (auto simp: length_Suc_conv)
  moreover from this Nil have "bt_height head = level" "bt_node head = fst n" "fst n \<noteq> 0" by (auto simp: tree_at_def)
  ultimately show ?case by (cases n) (auto simp: placed_def Cons_eq_append_conv)
next
  case (Cons u us)
  have ht: "bt_height head - level = Suc (bt_height head - Suc level)" using Cons.prems(1) by (simp add: tree_at_def)
  have tu: "tree_at geo h head (Suc level) (u # us)" using Cons.prems(1) by (simp add: tree_at_def)
  have lvu: "levels_ok (u # us)" using Cons.prems(2) by (rule levels_ok_tl)
  have lk: "child_linked l (entries_of u)" and su: "separated (entries_of u)" using Cons.prems(2) levels_ok_sep [OF lvu] by simp_all
  from Cons.IH [OF tu lvu] obtain P where
    P: "descend geo p (bt_height head - Suc level) (bt_node head) h = Some P" "placed u k P" by blast
  have "bt_node head \<noteq> 0"
  proof -
    have "last (u # us) \<in> set (u # us)" by (rule last_in_set) simp
    moreover have "last (u # us) \<noteq> []" using levels_ok_last [OF lvu] by simp
    ultimately show ?thesis using tu by (auto simp: tree_at_def nodes_at_def)
  qed
  note d = descend_snoc [OF this, of geo p "bt_height head - Suc level" h, folded ht]
  show ?case
  proof (cases "P = 0")
    case True
    then have "k \<notin> gkeys (entries_of l)" using P(2) linked_gkeys [OF lk] by (auto simp: placed_def)
    then show ?thesis using d P(1) True by (simp add: placed_def)
  next
    case False
    then obtain xs ps ys where u: "u = xs @ (P, ps) # ys" "\<forall>z \<in> gkeys (entries_of xs). k < z" "\<forall>z \<in> gkeys (entries_of ys). z < k"
      using P(2) by (auto simp: placed_def)
    have xk: "\<forall>e \<in> set (entries_of xs). k < fst e" using u(2) gkeysI(1) by blast
    let ?ps1 = "takeWhile (\<lambda>e. k < fst e) ps" let ?ps2 = "dropWhile (\<lambda>e. k < fst e) ps"
    have gt: "\<forall>e \<in> set (entries_of xs @ ?ps1). k < fst e" using xk by (auto dest: set_takeWhileD)
    have cu: "entries_of u = (entries_of xs @ ?ps1) @ ?ps2 @ entries_of ys"
      unfolding u(1) by (simp only: contents_simps snd_conv append_assoc takeWhile_dropWhile_id) simp
    have n: "node_at geo h P (map strip ps)" using tree_at_node(2) [of geo h head "Suc level" xs P ps ys us] tu u(1) by simp
    have eq: "descend geo p (bt_height head - level) (bt_node head) h = Some (case ?ps2 of [] \<Rightarrow> 0 | e # _ \<Rightarrow> fst (snd e))"
      using d P(1) False descend_step [OF n assms(3)] by simp
    show ?thesis
    proof (cases ?ps2)
      case Nil
      have "k \<notin> gkeys (entries_of l)"
      proof
        assume "k \<in> gkeys (entries_of l)"
        then obtain e where e: "e \<in> set (entries_of u)" "k \<in> ghost e" using linked_gkeys_ghost [OF lk] by blast
        then have "fst e \<le> k" using su by (auto simp: separated_def)
        then have "e \<notin> set (entries_of xs @ ?ps1)" using gt by (meson leD)
        then have "e \<in> set (entries_of ys)" using e(1) unfolding cu Nil by auto
        then show False using u(3) gkeysI(2) [OF _ e(2)] by blast
      qed
      then show ?thesis using eq Nil by (simp add: placed_def)
    next
      case (Cons e ps2)
      have ek: "fst e \<le> k" using hd_dropWhile [of "\<lambda>e. k < fst e" ps] Cons by simp
      have cu2: "entries_of u = (entries_of xs @ ?ps1) @ e # (ps2 @ entries_of ys)" using cu Cons by simp
      obtain xl n yl where
        l: "l = xl @ n # yl" "child_linked xl (entries_of xs @ ?ps1)" "child_linked yl (ps2 @ entries_of ys)" "fst n = fst (snd e)" "gkeys (snd n) \<subseteq> ghost e"
        by (rule linked_split [OF lk [unfolded cu2]])
      have "separated (entries_of xs @ ?ps1)" using su unfolding cu2 separated_append [of "entries_of xs @ ?ps1"] by blast
      then have 1: "\<forall>z \<in> gkeys (entries_of xl). k < z" using linked_gt [OF l(2)] gt by blast
      have "separated (e # (ps2 @ entries_of ys))" using su unfolding cu2 separated_append [of "entries_of xs @ ?ps1"] by blast
      then have "\<forall>z \<in> gkeys (ps2 @ entries_of ys). z < fst e" unfolding separated_Cons by blast
      then have 2: "\<forall>z \<in> gkeys (entries_of yl). z < k" using linked_gkeys [OF l(3)] ek by (meson less_le_trans subsetD)
      have nz: "fst n \<noteq> 0" using Cons.prems(1) l(1) by (auto simp: tree_at_def)
      have "l = xl @ (fst n, snd n) # yl" using l(1) by simp
      then have "placed l k (fst n)" using 1 2 nz unfolding placed_def if_not_P [OF nz] by blast
      then show ?thesis using eq Cons l(4) by simp
    qed
  qed
qed

lemma lookup_tree:
  assumes t: "tree_at geo h head 1 (l # us)" and lv: "levels_ok (l # us)" and k: "key_at geo h p k"
  shows "btree_lookup head geo p h = Some (case map_of (map strip (entries_of l)) k of Some v \<Rightarrow> v | None \<Rightarrow> 0)"
proof -
  obtain a where a: "descend geo p (bt_height head - 1) (bt_node head) h = Some a" "placed l k a"
    using descend_ok [OF t lv k] by blast
  have ht: "bt_height head \<noteq> 0" using tree_at_height [OF t] by simp
  have out: "map_of (map strip es) k = None" if "k \<notin> gkeys es" for es
    using that gkeysI(1) by (fastforce simp: map_of_eq_None_iff)
  show ?thesis
  proof (cases "a = 0")
    case True
    then show ?thesis using a ht out [of "entries_of l"] by (simp add: btree_lookup_def lookup_descend placed_def)
  next
    case False
    then obtain xs es ys where l: "l = xs @ (a, es) # ys" "\<forall>z \<in> gkeys (entries_of xs). k < z" "\<forall>z \<in> gkeys (entries_of ys). z < k"
      using a(2) by (auto simp: placed_def)
    have "k \<notin> gkeys (entries_of xs)" "k \<notin> gkeys (entries_of ys)" using l(2,3) by auto
    then have "map_of (map strip (entries_of l)) k = map_of (map strip es) k"
      unfolding l(1) by (simp add: out map_add_def split: option.split)
    moreover have "node_at geo h a (map strip es)" using tree_at_node(2) [OF t [unfolded l(1)]] .
    ultimately show ?thesis using a(1) ht False lookup_leaf_node [of h a "map strip es" p k 0] k
      by (simp add: btree_lookup_def lookup_descend)
  qed
qed

end

section \<open>The largest key\<close>

lemma first_down_snoc: "first_down geo (Suc n) node h = Option.bind (first_down geo n node h) (\<lambda>a. bval geo a 0 h)"
proof (induction n arbitrary: node)
  case 0
  show ?case by (cases "bval geo node 0 h") simp_all
next
  case (Suc n)
  show ?case by (cases "bval geo node 0 h") (simp_all add: Suc.IH [simplified])
qed

context geometry
begin

lemma first_down_ok:
  assumes "tree_at geo h head level (l # us)" "levels_ok (l # us)" "us \<noteq> [] \<longrightarrow> big (l # us)"
  shows "first_down geo (bt_height head - level) (bt_node head) h = Some (fst (hd l))"
  using assms
proof (induction us arbitrary: l level)
  case Nil
  then show ?case by (simp add: tree_at_def)
next
  case (Cons u us)
  have ht: "bt_height head - level = Suc (bt_height head - Suc level)" using Cons.prems(1) by (simp add: tree_at_def)
  have tu: "tree_at geo h head (Suc level) (u # us)" using Cons.prems(1) by (simp add: tree_at_def)
  have lvu: "levels_ok (u # us)" using Cons.prems(2) by (rule levels_ok_tl)
  have "first_down geo (bt_height head - Suc level) (bt_node head) h = Some (fst (hd u))"
    by (rule Cons.IH [OF tu lvu]) (use Cons.prems(3) in simp)
  moreover have "u \<noteq> []" using levels_ok_nonempty [OF lvu] Cons.prems(3) by simp
  then obtain P ps u' where u: "u = (P, ps) # u'" by (cases u) auto
  then have "2 \<le> length ps" using Cons.prems(3) by simp
  then obtain e ps' where ps: "ps = e # ps'" by (cases ps) auto
  have "bval geo P 0 h = Some (fst (snd e))"
    using node_at_val [of h P "map strip ps" 0] tu u ps by (simp add: tree_at_def)
  moreover have "child_linked l (e # ps' @ entries_of u')" using Cons.prems(2) u ps by simp
  then have "fst (snd e) = fst (hd l)" by (cases l) simp_all
  ultimately show ?case unfolding ht first_down_snoc by (simp add: u)
qed

end

section \<open>Visiting\<close>

text \<open>A forest is a part of a tree: some nodes of one level with all that is below them.\<close>

fun forest :: "level list \<Rightarrow> bool" where
  "forest [] = True"
| "forest [l] = True"
| "forest (l # u # us) = (child_linked l (entries_of u) \<and> forest (u # us))"

definition side_by_side :: "level list \<Rightarrow> level list \<Rightarrow> level list \<Rightarrow> bool" where
  "side_by_side as bs ls \<longleftrightarrow> length as = length bs \<and> ls = map2 (@) as bs"

lemma side_by_side_simps [simp]:
  "side_by_side (a # as) (b # bs) ls \<longleftrightarrow> (\<exists>ls'. ls = (a @ b) # ls' \<and> side_by_side as bs ls')"
  "side_by_side [] bs ls \<longleftrightarrow> bs = [] \<and> ls = []"
  by (auto simp: side_by_side_def)

lemma forest_split:
  "forest ls \<Longrightarrow> ls \<noteq> [] \<Longrightarrow> last ls = X @ Y \<Longrightarrow>
    \<exists>as bs. side_by_side as bs ls \<and> forest as \<and> forest bs \<and> as \<noteq> [] \<and> bs \<noteq> [] \<and> last as = X \<and> last bs = Y"
proof (induction ls rule: forest.induct)
  case (3 l u us)
  then obtain as bs where ab: "side_by_side as bs (u # us)" "forest as" "forest bs" "as \<noteq> []" "bs \<noteq> []" "last as = X" "last bs = Y"
    by auto
  then obtain a as' b bs' where c: "as = a # as'" "bs = b # bs'" "u = a @ b" by (cases as; cases bs; auto)
  have "child_linked l (entries_of a @ entries_of b)" using 3(2) c(3) by simp
  then obtain la lb where "l = la @ lb" "child_linked la (entries_of a)" "child_linked lb (entries_of b)"
    by (auto simp: child_linked_def list_all2_append2)
  then have "side_by_side (la # as) (lb # bs) (l # u # us)" "forest (la # as)" "forest (lb # bs)" using ab(1-3) c by simp_all
  moreover have "last (la # as) = X" "last (lb # bs) = Y" using ab(4-7) by simp_all
  ultimately show ?case by blast
next
  case (2 l)
  then show ?case by (intro exI [of _ "[X]"] exI [of _ "[Y]"]) simp
qed simp

lemma forest_snoc: "fs \<noteq> [] \<Longrightarrow> forest (fs @ [l]) \<longleftrightarrow> forest fs \<and> child_linked (last fs) (entries_of l)"
  by (induction fs rule: forest.induct) auto

lemma forest_empty: "forest ls \<Longrightarrow> ls \<noteq> [] \<Longrightarrow> last ls = [] \<Longrightarrow> node_addrs ls = [] \<and> entries_of (hd ls) = []"
proof (induction ls rule: forest.induct)
  case (3 l u us)
  then have "node_addrs (u # us) = []" by auto
  then have "u = []" by simp
  then show ?case using 3 by simp
qed simp_all

lemma side_by_side_set:
  "length as = length bs \<Longrightarrow> side_by_side as bs ls \<Longrightarrow> set (node_addrs ls) = set (node_addrs as) \<union> set (node_addrs bs)"
proof (induction as bs arbitrary: ls rule: list_induct2)
  case (Cons a as b bs)
  then obtain ls' where "ls = (a @ b) # ls'" "set (node_addrs ls') = set (node_addrs as) \<union> set (node_addrs bs)" by auto
  then show ?case by auto
qed simp

lemma side_by_side_nodes:
  assumes "length as = length bs" "side_by_side as bs ls" "\<forall>l \<in> set ls. nodes_at geo h l"
  shows "(\<forall>l \<in> set as. nodes_at geo h l) \<and> (\<forall>l \<in> set bs. nodes_at geo h l)"
  using assms
proof (induction as bs arbitrary: ls rule: list_induct2)
  case (Cons a as b bs)
  from Cons.prems(1) obtain ls' where ls: "ls = (a @ b) # ls'" "side_by_side as bs ls'" by auto
  from Cons.prems(2) have "\<forall>l \<in> set ls'. nodes_at geo h l" "nodes_at geo h (a @ b)" unfolding ls(1) by simp_all
  with Cons.IH [OF ls(2)] show ?case by simp
qed simp

lemma side_by_side_hd: "side_by_side as bs ls \<Longrightarrow> ls \<noteq> [] \<Longrightarrow> entries_of (hd ls) = entries_of (hd as) @ entries_of (hd bs)"
  by (cases as; cases bs) (auto simp: side_by_side_def)

lemma side_by_side_addrs:
  assumes "side_by_side as bs ls"
  shows "set (node_addrs ls) = set (node_addrs as) \<union> set (node_addrs bs)" "length as = length ls" "length bs = length ls"
    and "distinct (node_addrs ls) \<Longrightarrow> distinct (node_addrs as) \<and> distinct (node_addrs bs) \<and> set (node_addrs as) \<inter> set (node_addrs bs) = {}"
    and "ls \<noteq> [] \<Longrightarrow> entries_of (hd ls) = entries_of (hd as) @ entries_of (hd bs)"
    and "\<forall>l \<in> set ls. nodes_at geo h l \<Longrightarrow> (\<forall>l \<in> set as. nodes_at geo h l) \<and> (\<forall>l \<in> set bs. nodes_at geo h l)"
proof -
  have len: "length as = length bs" using assms by (simp add: side_by_side_def)
  show "length as = length ls" "length bs = length ls" using assms by (simp_all add: side_by_side_def)
  show sets: "set (node_addrs ls) = set (node_addrs as) \<union> set (node_addrs bs)" using len assms by (rule side_by_side_set)
  show "ls \<noteq> [] \<Longrightarrow> entries_of (hd ls) = entries_of (hd as) @ entries_of (hd bs)"
    using side_by_side_hd [OF assms] by blast
  show "\<forall>l \<in> set ls. nodes_at geo h l \<Longrightarrow> (\<forall>l \<in> set as. nodes_at geo h l) \<and> (\<forall>l \<in> set bs. nodes_at geo h l)"
    using len assms by (rule side_by_side_nodes)
  show "distinct (node_addrs ls) \<Longrightarrow> distinct (node_addrs as) \<and> distinct (node_addrs bs) \<and> set (node_addrs as) \<inter> set (node_addrs bs) = {}"
    using len assms
  proof (induction as bs arbitrary: ls rule: list_induct2)
    case (Cons a as b bs)
    then obtain ls' where ls: "ls = (a @ b) # ls'" "side_by_side as bs ls'" by auto
    have "set (node_addrs ls') = set (node_addrs as) \<union> set (node_addrs bs)" using Cons.hyps ls(2) by (rule side_by_side_set)
    moreover have "distinct (node_addrs as) \<and> distinct (node_addrs bs) \<and> set (node_addrs as) \<inter> set (node_addrs bs) = {}"
      using Cons.IH [OF _ ls(2)] Cons.prems(1) ls(1) by simp
    moreover have "distinct (map fst a)" "distinct (map fst b)" "set (map fst a) \<inter> set (map fst b) = {}"
      "(set (map fst a) \<union> set (map fst b)) \<inter> set (node_addrs ls') = {}"
      using Cons.prems(1) unfolding ls(1) node_addrs_simps map_append distinct_append set_append by blast+
    ultimately show ?case unfolding node_addrs_simps distinct_append set_append by blast
  qed simp
qed

text \<open>The calls are those for the pairs \<open>C\<close>, counted from \<open>n\<close> on.\<close>

definition calls_for :: "btree_geo \<Rightarrow> bheap \<Rightarrow> nat \<Rightarrow> visit list \<Rightarrow> pair list \<Rightarrow> bool" where
  "calls_for geo h n calls C \<longleftrightarrow> list_all2 (\<lambda>(v, p, i) e. v = snd e \<and> key_at geo h p (fst e)) calls C \<and>
     map (snd \<circ> snd) calls = [n..<n + length C]"

definition reaped :: "bool \<Rightarrow> bheap \<Rightarrow> u64 set \<Rightarrow> bheap" where
  "reaped reap h A = (if reap then (\<lambda>b. if b \<in> A then None else h b) else h)"

lemma reaped_simps [simp]:
  "b \<notin> A \<Longrightarrow> reaped reap h A b = h b" "reaped reap (reaped reap h A) B = reaped reap h (A \<union> B)" "reaped reap h {} = h"
  by (auto simp: reaped_def)

lemma calls_for_append:
  "calls_for geo h n c C \<Longrightarrow> calls_for geo h (n + length C) d D \<Longrightarrow> calls_for geo h n (c @ d) (C @ D)"
  using upt_add_eq_append [of n "n + length C" "length D"] by (simp add: calls_for_def list_all2_appendI add.assoc)

lemma calls_for_reaped: "calls_for geo (reaped reap h A) n c C \<Longrightarrow> calls_for geo h n c C"
proof -
  have "key_at geo (reaped reap h A) p k \<Longrightarrow> key_at geo h p k" for p k
    by (auto simp: key_at_def reaped_def split: if_splits)
  then show "calls_for geo (reaped reap h A) n c C \<Longrightarrow> calls_for geo h n c C"
    unfolding calls_for_def by (auto elim!: list_all2_mono)
qed

lemma calls_for_simps [simp]:
  "calls_for geo h n [] [] " "calls_for geo h n ((v, p, i) # c) (e # C) \<longleftrightarrow>
     v = snd e \<and> key_at geo h p (fst e) \<and> i = n \<and> calls_for geo h (Suc n) c C"
  by (auto simp: calls_for_def upt_conv_Cons simp del: upt_Suc)

definition visits :: "btree_geo \<Rightarrow> bool \<Rightarrow> nat \<Rightarrow> bool" where
  "visits geo reap n \<longleftrightarrow> (\<forall>fs a es count h. length fs = n \<longrightarrow> forest fs \<longrightarrow> fs \<noteq> [] \<longrightarrow> last fs = [(a, es)] \<longrightarrow>
     (\<forall>l \<in> set fs. nodes_at geo h l) \<longrightarrow> distinct (node_addrs fs) \<longrightarrow>
     (\<exists>calls. for_each_from geo reap n a 0 count h = Some (calls, count + length (entries_of (hd fs)), reaped reap h (set (node_addrs fs))) \<and>
       calls_for geo h count calls (map strip (entries_of (hd fs)))))"

context geometry
begin

lemma visit_end:
  assumes "node_at geo h a (map strip es)" "i = length es" "a \<noteq> 0"
  shows "for_each_from geo reap height a i count h = Some ([], count, reaped reap h {a})"
proof -
  have f: "(if reap then bfree a h else Some h) = Some (reaped reap h {a})"
    using assms(1,3) by (auto simp: bfree_def reaped_def node_at_def)
  show ?thesis
  proof (cases "i < no_pairs geo")
    case True
    then have "bval geo a i h = Some 0" using node_at_zero [OF assms(1), of i] assms(2) by simp
    then show ?thesis using True f by (subst for_each_from.simps) simp
  next
    case False
    then show ?thesis using f by (subst for_each_from.simps) simp
  qed
qed

lemma visit_leaf:
  assumes "node_at geo h a (map strip (fs @ es))" "a \<noteq> 0"
  shows "\<exists>calls. for_each_from geo reap 1 a (length fs) count h = Some (calls, count + length es, reaped reap h {a}) \<and>
    calls_for geo h count calls (map strip es)"
  using assms(1)
proof (induction es arbitrary: fs count)
  case Nil
  then show ?case using visit_end [OF Nil _ assms(2)] by simp
next
  case (Cons e es)
  have n: "node_at geo h a (map strip ((fs @ [e]) @ es))" using Cons.prems by simp
  from Cons.IH [OF n, of "count + 1"] obtain calls where
    c: "for_each_from geo reap 1 a (length fs + 1) (count + 1) h = Some (calls, count + length (e # es), reaped reap h {a})"
      "calls_for geo h (Suc count) calls (map strip es)" by auto
  have l: "length fs < no_pairs geo" using node_atD(4) [OF Cons.prems] by simp
  have v: "bval geo a (length fs) h = Some (fst (snd e))" using node_at_val [OF Cons.prems, of "length fs"] by (simp add: nth_append)
  have "key_at geo h (bkey geo a (length fs)) (fst e)" using node_at_key [OF Cons.prems, of "length fs"] by (simp add: nth_append)
  moreover have "fst (snd e) \<noteq> 0" using entries_okD(5) [OF node_atD(3) [OF Cons.prems], of "length fs"] by (simp add: nth_append)
  then have "for_each_from geo reap 1 a (length fs) count h =
      Some ((fst (snd e), bkey geo a (length fs), count) # calls, count + length (e # es), reaped reap h {a})"
    using l v c(1) by (subst for_each_from.simps) simp
  ultimately show ?case using c(2) by simp
qed

lemma visit_inner:
  assumes v: "visits geo reap n" and n: "1 \<le> n" and a: "a \<noteq> 0"
    and "node_at geo h a (map strip (ps @ es))" "length fs = n" "forest fs" "child_linked (last fs) es"
    and "\<forall>l \<in> set fs. nodes_at geo h l" "distinct (node_addrs fs)" "a \<notin> set (node_addrs fs)"
  shows "\<exists>calls. for_each_from geo reap (Suc n) a (length ps) count h =
      Some (calls, count + length (entries_of (hd fs)), reaped reap h (insert a (set (node_addrs fs)))) \<and>
    calls_for geo h count calls (map strip (entries_of (hd fs)))"
  using assms(4-)
proof (induction es arbitrary: ps fs count h)
  case Nil
  have "fs \<noteq> []" using Nil.prems(2) n by auto
  then have "node_addrs fs = []" "entries_of (hd fs) = []" using forest_empty [OF Nil.prems(3)] Nil.prems(4) by simp_all
  then show ?case using visit_end [OF Nil.prems(1) _ a, of "length ps" reap "Suc n" count] by simp
next
  case (Cons e es)
  have ne: "fs \<noteq> []" using Cons.prems(2) n by auto
  obtain m ns where "last fs = m # ns" using Cons.prems(4) by (cases "last fs") auto
  then have lf: "last fs = [m] @ ns" and m: "fst (snd e) = fst m" "child_linked ns es" using Cons.prems(4) by simp_all
  obtain f1 f2 where f: "side_by_side f1 f2 fs" "forest f1" "forest f2" "f1 \<noteq> []" "f2 \<noteq> []" "last f1 = [m]" "last f2 = ns"
    using forest_split [OF Cons.prems(3) ne lf] by blast
  note s = side_by_side_addrs [OF f(1)]
  have s4: "distinct (node_addrs f1)" "distinct (node_addrs f2)" "set (node_addrs f1) \<inter> set (node_addrs f2) = {}" using s(4) [OF Cons.prems(6)] by simp_all
  have s6: "\<forall>l \<in> set f1. nodes_at geo h l" "\<forall>l \<in> set f2. nodes_at geo h l" using s(6) [OF Cons.prems(5)] by simp_all
  have lm: "last f1 = [(fst m, snd m)]" using f(6) by simp
  obtain c1 where c1: "for_each_from geo reap n (fst m) 0 count h =
      Some (c1, count + length (entries_of (hd f1)), reaped reap h (set (node_addrs f1)))"
      "calls_for geo h count c1 (map strip (entries_of (hd f1)))"
    using v s(2) Cons.prems(2) f(2,4) lm s6(1) s4(1) unfolding visits_def by metis
  let ?h = "reaped reap h (set (node_addrs f1))"
  have "a \<notin> set (node_addrs f1)" "a \<notin> set (node_addrs f2)" using Cons.prems(7) s(1) by simp_all
  then have n2: "node_at geo ?h a (map strip ((ps @ [e]) @ es))" using Cons.prems(1) by (simp add: node_at_def)
  have n3: "\<forall>l \<in> set f2. nodes_at geo ?h l" using s6(2) by (rule all_nodes_other) (rule reaped_simps(1), use s4(3) in blast)
  have len: "length f2 = n" using s(3) Cons.prems(2) by simp
  have lk: "child_linked (last f2) es" using f(7) m(2) by simp
  from Cons.IH [OF n2 len f(3) lk n3 s4(2) \<open>a \<notin> set (node_addrs f2)\<close>, of "count + length (entries_of (hd f1))"]
  obtain c2 where c2: "for_each_from geo reap (Suc n) a (length ps + 1) (count + length (entries_of (hd f1))) ?h =
      Some (c2, count + length (entries_of (hd f1)) + length (entries_of (hd f2)), reaped reap ?h (insert a (set (node_addrs f2))))"
      "calls_for geo ?h (count + length (entries_of (hd f1))) c2 (map strip (entries_of (hd f2)))" by auto
  have l: "length ps < no_pairs geo" using node_atD(4) [OF Cons.prems(1)] by simp
  have b: "bval geo a (length ps) h = Some (fst m)" using node_at_val [OF Cons.prems(1), of "length ps"] m(1) by (simp add: nth_append)
  have "fst m \<noteq> 0" using entries_okD(5) [OF node_atD(3) [OF Cons.prems(1)], of "length ps"] m(1) by (simp add: nth_append)
  then have "for_each_from geo reap (Suc n) a (length ps) count h = Some (c1 @ c2,
      count + length (entries_of (hd f1)) + length (entries_of (hd f2)), reaped reap ?h (insert a (set (node_addrs f2))))"
    using l b n c1(1) c2(1) by (subst for_each_from.simps) (simp del: reaped_simps)
  moreover have "reaped reap ?h (insert a (set (node_addrs f2))) = reaped reap h (insert a (set (node_addrs fs)))"
    using s(1) by simp
  moreover have "calls_for geo h count (c1 @ c2) (map strip (entries_of (hd fs)))"
    unfolding s(5) [OF ne] map_append using c1(2) calls_for_reaped [OF c2(2)] by (intro calls_for_append) simp_all
  ultimately show ?case using s(5) [OF ne] by (intro exI [of _ "c1 @ c2"]) (simp add: add.assoc)
qed

lemma visits_all: "1 \<le> n \<Longrightarrow> visits geo reap n"
proof (induction n rule: dec_induct)
  case base
  show ?case unfolding visits_def
  proof (intro allI impI)
    fix fs :: "level list" and a es count h
    assume "length fs = 1" "last fs = [(a, es)]" "\<forall>l \<in> set fs. nodes_at geo h l"
    then have "fs = [[(a, es)]]" "node_at geo h a (map strip ([] @ es))" "a \<noteq> 0" by (auto simp: length_Suc_conv)
    with visit_leaf [of h a "[]" es reap count]
    show "\<exists>calls. for_each_from geo reap 1 a 0 count h = Some (calls, count + length (entries_of (hd fs)), reaped reap h (set (node_addrs fs))) \<and>
       calls_for geo h count calls (map strip (entries_of (hd fs)))" by simp
  qed
next
  case (step n)
  show ?case unfolding visits_def
  proof (intro allI impI)
    fix gs :: "level list" and a es count h
    assume g: "length gs = Suc n" "forest gs" "gs \<noteq> []" "last gs = [(a, es)]" "\<forall>l \<in> set gs. nodes_at geo h l" "distinct (node_addrs gs)"
    then obtain fs where gs: "gs = fs @ [[(a, es)]]" by (metis append_butlast_last_id)
    have len: "length fs = n" "fs \<noteq> []" using g(1) gs step.hyps(1) by auto
    have fo: "forest fs" "child_linked (last fs) es" using forest_snoc [of fs "[(a, es)]"] g(2) gs len(2) by simp_all
    have "a \<noteq> 0" "node_at geo h a (map strip ([] @ es))" "\<forall>l \<in> set fs. nodes_at geo h l" "distinct (node_addrs fs)" "a \<notin> set (node_addrs fs)"
      using g(5,6) gs by auto
    from visit_inner [OF step.IH step.hyps(1) this(1,2) len(1) fo this(3-5), of count]
    show "\<exists>calls. for_each_from geo reap (Suc n) a 0 count h = Some (calls, count + length (entries_of (hd gs)), reaped reap h (set (node_addrs gs))) \<and>
       calls_for geo h count calls (map strip (entries_of (hd gs)))" using gs len(2) by simp
  qed
qed

end

end
