(* ===== verification/Btree_Map.thy ===== *)
theory Btree_Map
  imports Btree_Search
begin

text \<open>
  The tree as a finite map. \<open>btree_repr\<close> says at which addresses a tree has its nodes and which pairs
  it holds, in descending order of the keys; the operations of \<^verbatim>\<open>lib_btree/btree.c\<close> are those of
  the map, and they touch no memory but the nodes.
\<close>

definition btree_repr :: "btree_geo \<Rightarrow> bheap \<Rightarrow> btree_head \<Rightarrow> u64 set \<Rightarrow> pair list \<Rightarrow> bool" where
  "btree_repr geo h head A C \<longleftrightarrow>
     bt_height head = 0 \<and> bt_node head = 0 \<and> A = {} \<and> C = [] \<or>
     (\<exists>l us. tree_at geo h head 1 (l # us) \<and> levels_ok (l # us) \<and> (us \<noteq> [] \<longrightarrow> big (l # us)) \<and>
        (us = [] \<longrightarrow> 1 \<le> length (entries_of l)) \<and> A = set (node_addrs (l # us)) \<and> C = map strip (entries_of l))"

lemma repr_cases:
  assumes "btree_repr geo h head A C"
  obtains (empty) "bt_height head = 0" "bt_node head = 0" "A = {}" "C = []"
  | (tree) l us where "tree_at geo h head 1 (l # us)" "levels_ok (l # us)" "us \<noteq> [] \<longrightarrow> big (l # us)"
      "us = [] \<longrightarrow> 1 \<le> length (entries_of l)" "A = set (node_addrs (l # us))" "C = map strip (entries_of l)"
proof -
  from assms show thesis unfolding btree_repr_def
    by (elim disjE exE conjE) (rule empty, assumption+, rule tree, assumption+)
qed

lemma repr_init: "btree_repr geo h btree_init {} []"
  by (simp add: btree_repr_def btree_init_def)

lemma repr_tree:
  "tree_at geo h head 1 (l # us) \<Longrightarrow> levels_ok (l # us) \<Longrightarrow> us \<noteq> [] \<longrightarrow> big (l # us) \<Longrightarrow>
   us = [] \<longrightarrow> 1 \<le> length (entries_of l) \<Longrightarrow> btree_repr geo h head (set (node_addrs (l # us))) (map strip (entries_of l))"
  unfolding btree_repr_def by blast

lemma repr_alloc: "btree_repr geo h head A C \<Longrightarrow> a \<in> A \<Longrightarrow> h a \<noteq> None \<and> a \<noteq> 0"
  by (erule repr_cases) (simp, blast dest: tree_at_alloc)

lemma repr_other:
  assumes "btree_repr geo h head A C" "\<And>a. a \<in> A \<Longrightarrow> h' a = h a"
  shows "btree_repr geo h' head A C"
  using assms(1)
proof (cases rule: repr_cases)
  case (tree l us)
  have "tree_at geo h' head 1 (l # us)" using tree(1) by (rule tree_at_other) (use assms(2) tree(5) in blast)
  from repr_tree [OF this tree(2-4)] show ?thesis using tree(5,6) by (simp only:)
qed (simp add: btree_repr_def)

lemma contents_nonempty: "levels_ok (l # us) \<Longrightarrow> us \<noteq> [] \<longrightarrow> big (l # us) \<Longrightarrow> us = [] \<longrightarrow> 1 \<le> length (entries_of l) \<Longrightarrow> entries_of l \<noteq> []"
proof (cases us)
  case (Cons u us')
  assume a: "levels_ok (l # us)" "us \<noteq> [] \<longrightarrow> big (l # us)"
  then have b: "big us" "big (l # us)" using Cons by simp_all
  obtain n l' where "l = n # l'" using levels_ok_nonempty [OF a(1) b(1)] by (cases l) auto
  then show ?thesis using b(2) by auto
qed auto

lemma repr_nil: "btree_repr geo h head A C \<Longrightarrow> C = [] \<Longrightarrow> A = {} \<and> bt_height head = 0 \<and> bt_node head = 0"
  by (erule repr_cases) (simp, frule (2) contents_nonempty, simp)

lemma separated_desc: "separated es \<Longrightarrow> sorted_wrt (\<lambda>x y. fst y < fst x) (map strip es)"
  unfolding separated_def by (simp add: sorted_wrt_map) (erule conjE, erule sorted_wrt_mono_rel [rotated], simp)

lemma repr_desc: "btree_repr geo h head A C \<Longrightarrow> sorted_wrt (\<lambda>x y. fst y < fst x) C"
  by (erule repr_cases) (simp, simp only: levels_ok_sep separated_desc)

lemma desc_distinct: "sorted_wrt (\<lambda>x y. fst y < (fst x :: u64 list)) C \<Longrightarrow> distinct (map fst C)"
  by (induction C) auto

text \<open>Every node but the root has two entries at least, which bounds the height.\<close>

lemma big_length: "levels_ok (l # us) \<Longrightarrow> big (l # us) \<Longrightarrow> 2 * length l \<le> length (entries_of l)"
proof -
  have "\<forall>n \<in> set l. 2 \<le> length (snd n) \<Longrightarrow> 2 * length l \<le> length (entries_of l)" by (induction l) auto
  then show "big (l # us) \<Longrightarrow> ?thesis" by simp
qed

lemma big_height: "levels_ok (l # us) \<Longrightarrow> big (l # us) \<Longrightarrow> 2 ^ Suc (length us) \<le> length (entries_of l)"
proof (induction us arbitrary: l)
  case Nil
  then show ?case using big_length [of l "[]"] by simp
next
  case (Cons u us)
  have "levels_ok (u # us)" "big (u # us)" using Cons.prems by simp_all
  then have "2 ^ Suc (length us) \<le> length (entries_of u)" by (rule Cons.IH)
  moreover have "length l = length (entries_of u)" using Cons.prems(1) linked_length by simp
  ultimately show ?case using big_length [OF Cons.prems] by simp
qed

lemma repr_height: "btree_repr geo h head A C \<Longrightarrow> C \<noteq> [] \<Longrightarrow> 2 ^ bt_height head \<le> 2 * length C"
proof (erule repr_cases)
  fix l us assume a: "C \<noteq> []" "tree_at geo h head 1 (l # us)" "levels_ok (l # us)" "us \<noteq> [] \<longrightarrow> big (l # us)" "C = map strip (entries_of l)"
  have ht: "bt_height head = Suc (length us)" using tree_at_height [OF a(2)] by simp
  show ?thesis
  proof (cases "us = []")
    case True
    then show ?thesis using ht a(1) by (cases C) simp_all
  next
    case False
    then have "2 ^ bt_height head \<le> length C" using big_height [OF a(3)] a(4,5) ht by simp
    then show ?thesis by simp
  qed
qed simp

lemma big_nodes: "levels_ok (l # us) \<Longrightarrow> us \<noteq> [] \<longrightarrow> big (l # us) \<Longrightarrow> us = [] \<longrightarrow> 1 \<le> length (entries_of l) \<Longrightarrow>
  length (node_addrs (l # us)) \<le> length (entries_of l)"
proof (induction us arbitrary: l)
  case (Cons u us)
  have ok: "levels_ok (u # us)" "us \<noteq> [] \<longrightarrow> big (u # us)" using Cons.prems by simp_all
  have l: "length l = length (entries_of u)" using Cons.prems(1) linked_length by simp
  have "big (l # u # us)" using Cons.prems(2) by simp
  from big_length [OF Cons.prems(1) this] have two: "2 * length l \<le> length (entries_of l)" .
  have "big (u # us)" using \<open>big (l # u # us)\<close> by simp
  with Cons.prems(1) have "l \<noteq> []" by (rule levels_ok_nonempty)
  then have "us = [] \<longrightarrow> 1 \<le> length (entries_of u)" using l by (cases l) auto
  from Cons.IH [OF ok this] have "length (node_addrs (u # us)) \<le> length l" using l by simp
  then show ?case using two by (simp add: node_addrs_def)
qed (auto simp: node_addrs_def)

lemma repr_finite: "btree_repr geo h head A C \<Longrightarrow> finite A"
  by (erule repr_cases) simp_all

lemma repr_nodes: "btree_repr geo h head A C \<Longrightarrow> card A \<le> length C"
proof (erule repr_cases)
  fix l us assume a: "levels_ok (l # us)" "us \<noteq> [] \<longrightarrow> big (l # us)" "us = [] \<longrightarrow> 1 \<le> length (entries_of l)"
    "A = set (node_addrs (l # us))" "C = map strip (entries_of l)"
  have "card A \<le> length (node_addrs (l # us))" unfolding a(4) by (rule card_length)
  also have "\<dots> \<le> length C" using big_nodes [OF a(1-3)] a(5) by simp
  finally show ?thesis .
qed simp

lemma repr_node:
  assumes r: "btree_repr geo h head A C" and "bt_node head = 0"
  shows "A = {} \<and> C = []"
  using r
proof (cases rule: repr_cases)
  case (tree l us)
  have "last (l # us) \<in> set (l # us)" by (rule last_in_set) simp
  then have "fst (hd (last (l # us))) \<noteq> 0"
    using tree(1) levels_ok_last [OF tree(2)] unfolding tree_at_def nodes_at_def by (meson hd_in_set)
  then show ?thesis using assms(2) tree(1) by (simp add: tree_at_def)
qed simp

section \<open>The operations\<close>

lemma map_of_strip: "map_of (map strip es) k = None \<longleftrightarrow> k \<notin> fst ` set es"
  by (auto simp: map_of_eq_None_iff image_iff)

lemma map_of_insert: "map_of X k = None \<Longrightarrow> map_of (X @ (k, v) # Y) = (map_of (X @ Y))(k \<mapsto> v)"
  by (auto simp: map_add_def fun_eq_iff split: option.splits)

lemma map_of_delete: "map_of X k = None \<Longrightarrow> map_of Y k = None \<Longrightarrow> map_of (X @ Y) = (map_of (X @ (k, v) # Y))(k := None)"
  by (auto simp: map_add_def fun_eq_iff split: option.splits)

lemma map_of_add_entry:
  assumes "k \<notin> fst ` set es"
  shows "map_of (map strip (add_entry k v es)) = (map_of (map strip es))(k \<mapsto> v)"
proof -
  let ?n = "length (takeWhile (\<lambda>e. k < fst e) es)"
  have "map_of (map strip (add_entry k v es)) = map_of (take ?n (map strip es) @ (k, v) # drop ?n (map strip es))"
    by (simp only: map_strip_add_entry)
  also have "\<dots> = (map_of (take ?n (map strip es) @ drop ?n (map strip es)))(k \<mapsto> v)"
    by (rule map_of_insert) (use assms in \<open>auto simp: map_of_eq_None_iff image_iff strip_def dest!: in_set_takeD\<close>)
  finally show ?thesis by (simp only: append_take_drop_id)
qed

lemma map_of_absorb:
  assumes "separated (A @ ps @ (k, v, K) # qs @ B)"
  shows "map_of (map strip (A @ ps @ absorb K qs @ B)) = (map_of (map strip (A @ ps @ (k, v, K) # qs @ B)))(k := None)"
proof -
  let ?X = "map strip (A @ ps)" let ?Y = "map strip (qs @ B)"
  have "distinct (map fst (map strip (A @ ps @ (k, v, K) # qs @ B)))"
    using desc_distinct [OF separated_desc [OF assms]] .
  then have d: "k \<notin> fst ` set ?X" "k \<notin> fst ` set ?Y" by (auto simp: image_iff)
  then have n: "map_of ?X k = None" "map_of ?Y k = None" by (simp_all only: map_of_eq_None_iff not_False_eq_True)
  have "map_of (?X @ ?Y) = (map_of (?X @ (k, v) # ?Y))(k := None)"
    using n by (rule map_of_delete)
  moreover have "map strip (A @ ps @ absorb K qs @ B) = ?X @ ?Y" by simp
  moreover have "map strip (A @ ps @ (k, v, K) # qs @ B) = ?X @ (k, v) # ?Y" by (simp add: strip_def)
  ultimately show ?thesis by (simp only:)
qed

context geometry
begin

lemma repr_entries:
  assumes "btree_repr geo h head A C" "e \<in> set C"
  shows "length (fst e) = keylen geo" "snd e \<noteq> 0"
  using assms(1)
proof (atomize (full), cases rule: repr_cases)
  case (tree l us)
  then obtain n where n: "n \<in> set l" "e \<in> set (map strip (snd n))" using assms(2) by (auto simp: entries_of_def)
  then have "node_at geo h (fst n) (map strip (snd n))" using tree(1) by (auto simp: tree_at_def nodes_at_def)
  then show "length (fst e) = keylen geo \<and> snd e \<noteq> 0" using entries_okD(2,3) [OF node_atD(3) n(2)] by blast
qed (use assms(2) in simp)

lemma repr_lookup:
  assumes "btree_repr geo h head A C" "key_at geo h p k"
  shows "btree_lookup head geo p h = Some (case map_of C k of Some v \<Rightarrow> v | None \<Rightarrow> 0)"
  using assms(1)
proof (cases rule: repr_cases)
  case empty
  then show ?thesis by (simp add: btree_lookup_def)
next
  case (tree l us)
  then show ?thesis using lookup_tree [OF tree(1,2) assms(2)] by simp
qed

lemma repr_last:
  assumes "btree_repr geo h head A C"
  shows "case C of [] \<Rightarrow> btree_last head geo h = Some None
    | e # _ \<Rightarrow> \<exists>p. btree_last head geo h = Some (Some p) \<and> key_at geo h p (fst e) \<and> fst p \<in> A"
  using assms
proof (cases rule: repr_cases)
  case empty
  then show ?thesis by (simp add: btree_last_def)
next
  case (tree l us)
  have "big us" using tree(3) by (cases us) simp_all
  then obtain a es l' where l: "l = (a, es) # l'" using levels_ok_nonempty [OF tree(2)] by (cases l) auto
  obtain e es' where es: "es = e # es'"
  proof (cases es)
    case Nil
    have "entries_of l \<noteq> [] \<and> (us \<noteq> [] \<longrightarrow> 2 \<le> length es)" using contents_nonempty [OF tree(2-4)] tree(3) l by simp
    moreover have "us = [] \<Longrightarrow> l' = []" using tree(2) l by simp
    ultimately show ?thesis using Nil l by auto
  qed
  have "btree_last head geo h = Some (Some (bkey geo a 0))"
    using first_down_ok [OF tree(1,2,3)] l tree_at_height [OF tree(1)] by (simp add: btree_last_def)
  moreover have "node_at geo h a (map strip (e # es'))" using tree_at_node(2) [of geo h head 1 "[]" a es l' us] tree(1) l es by simp
  then have "key_at geo h (bkey geo a 0) (fst e)" using node_at_key [of h a "map strip (e # es')" 0] by simp
  ultimately show ?thesis using l es tree(5,6) by (simp add: bkey_def)
qed

lemma first_insert:
  assumes "bt_height head = 0" "bt_node head = 0" "key_at geo h p k" "v \<noteq> 0" "fresh_alloc alloc"
  shows "btree_insert_level False alloc geo head p v 1 h =
    (if alloc h = 0 then Some (- ENOMEM, head, h)
     else Some (0, head\<lparr>bt_node := alloc h, bt_height := 1\<rparr>, h(alloc h \<mapsto> node_block geo [(k, v)])))"
proof (cases "alloc h = 0")
  case True
  then have "btree_grow alloc head geo h = Some (- ENOMEM, head, h)" by (simp add: btree_grow_def alloc_eq)
  then show ?thesis using True assms(1,4) by (subst btree_insert_level.simps) (simp add: ENOMEM_def)
next
  case False
  let ?r = "alloc h" let ?head = "head\<lparr>bt_node := ?r, bt_height := 1\<rparr>" let ?h = "h(?r \<mapsto> node_block geo [])"
  have fr: "h ?r = None" using assms(5) False by (simp add: fresh_alloc_def)
  have g: "btree_grow alloc head geo h = Some (0, ?head, ?h)"
    using False assms(1,2) by (simp add: btree_grow_def alloc_eq)
  have n: "node_at geo ?h ?r (map strip [])" by simp
  have "fst p \<noteq> ?r" using assms(3) fr by (auto simp: key_at_def)
  then have k: "key_at geo ?h p k" using assms(3) by (auto intro: key_at_other)
  have f: "find_level ?head geo p 1 ?h = Some (?r, ?h)" using False by (simp add: find_level_def)
  have "btree_insert_level False alloc geo head p v 1 h = btree_insert_level True alloc geo ?head p v 1 ?h"
    using g assms(1,4) by (subst (1 2) btree_insert_level.simps) simp
  also have "\<dots> = Option.bind (insert_pair geo ?r p v 0 0 ?h) (\<lambda>h. Some (0, ?head, h))"
    using insert_found [of True v 1 ?head p ?h ?r ?h "[]" k alloc, OF _ f n k] no_pairs_4 by simp
  also have "insert_pair geo ?r p v 0 (length (map strip [])) ?h =
      Some (?h(?r \<mapsto> node_block geo (take 0 (map strip []) @ (k, v) # drop 0 (map strip []))))"
    by (rule insert_pair_node [OF n]) (use no_pairs_4 k \<open>fst p \<noteq> ?r\<close> in simp_all)
  then have "insert_pair geo ?r p v 0 0 ?h = Some (h(?r \<mapsto> node_block geo [(k, v)]))" by simp
  finally show ?thesis using False by simp
qed

lemma repr_insert:
  assumes r: "btree_repr geo h head A C" and k: "key_at geo h p k" "fst p \<notin> A" and v: "v \<noteq> 0" and new: "map_of C k = None"
    and al: "fresh_alloc alloc"
  shows "\<exists>err head' h' A' C'. btree_insert alloc head geo p v h = Some (err, head', h') \<and> btree_repr geo h' head' A' C' \<and>
    heap_frame h A h' A' \<and> (err = 0 \<and> map_of C' = (map_of C)(k \<mapsto> v) \<or> err = - ENOMEM \<and> C' = C)"
  using r
proof (cases rule: repr_cases)
  case empty
  note e = first_insert [OF empty(1,2) k(1) v al]
  show ?thesis
  proof (cases "alloc h = 0")
    case True
    then have "btree_insert alloc head geo p v h = Some (- ENOMEM, head, h)" using e by (simp add: btree_insert_def)
    moreover have "heap_frame h A h A" by (rule heap_frame_refl) simp
    ultimately show ?thesis using r by blast
  next
    case False
    let ?h = "h(alloc h \<mapsto> node_block geo [(k, v)])" let ?head = "head\<lparr>bt_node := alloc h, bt_height := 1\<rparr>"
    let ?l = "[(alloc h, [(k, v, {})])] :: level"
    have fr: "h (alloc h) = None" using al False by (simp add: fresh_alloc_def)
    have "entries_ok geo [(k, v)]" using key_at_length [OF k(1)] v no_pairs_4 by simp
    then have t: "tree_at geo ?h ?head 1 [?l]" using False by (simp add: tree_at_def strip_def)
    have "btree_repr geo ?h ?head (set (node_addrs [?l])) (map strip (entries_of ?l))"
      by (rule repr_tree [OF t]) simp_all
    moreover have "heap_frame h A ?h (set (node_addrs [?l]))" using fr empty(3) by (simp add: heap_frame_def)
    moreover have "map_of (map strip (entries_of ?l)) = (map_of C)(k \<mapsto> v)" using empty(4) by (simp add: strip_def)
    moreover have "btree_insert alloc head geo p v h = Some (0, ?head, ?h)" using e False by (simp add: btree_insert_def)
    ultimately show ?thesis by blast
  qed
next
  case (tree l us)
  have p: "fst p \<notin> set (node_addrs (l # us))" and nk: "k \<notin> fst ` set (entries_of l)"
    using k(2) new tree(5,6) map_of_strip by auto
  have "insert_ok geo h 1 (l # us) k v (btree_insert_level False alloc geo head p v 1 h)"
    by (rule insert_hypD [OF insert_level_ok [OF al] refl tree(1,2,3) k(1) p v nk])
  then obtain err head' h' l' us' where
    o: "btree_insert_level False alloc geo head p v 1 h = Some (err, head', h')"
      "tree_at geo h' head' 1 (l' # us')" "levels_ok (l' # us')" "us' \<noteq> [] \<longrightarrow> big (l' # us')"
      "heap_frame h (set (node_addrs (l # us))) h' (set (node_addrs (l' # us')))"
      "err = 0 \<and> entries_of l' = add_entry k v (entries_of l) \<or> err = - ENOMEM \<and> entries_of l' = entries_of l"
    unfolding insert_ok_def list.sel by blast
  have "entries_of l \<noteq> []" by (rule contents_nonempty [OF tree(2-4)])
  moreover have "length (map strip (add_entry k v (entries_of l))) = Suc (length (map strip (entries_of l)))"
    unfolding map_strip_add_entry using length_takeWhile_le [of "\<lambda>e. k < fst e" "entries_of l"] by simp
  ultimately have "1 \<le> length (entries_of l')" using o(6) by (cases "entries_of l") auto
  then have r': "btree_repr geo h' head' (set (node_addrs (l' # us'))) (map strip (entries_of l'))" using repr_tree [OF o(2-4)] by blast
  have f: "heap_frame h A h' (set (node_addrs (l' # us')))" using o(5) tree(5) by (simp only:)
  have m: "err = 0 \<and> map_of (map strip (entries_of l')) = (map_of C)(k \<mapsto> v) \<or> err = - ENOMEM \<and> map strip (entries_of l') = C"
    using o(6) map_of_add_entry [OF nk, of v] tree(6) by auto
  show ?thesis unfolding btree_insert_def using o(1) r' f m by blast
qed

lemma repr_remove:
  assumes r: "btree_repr geo h head A C" and k: "key_at geo h p k" "fst p \<notin> A" and m: "map_of C k = Some v"
  shows "\<exists>head' h' A' C'. btree_remove head geo p h = Some (v, head', h') \<and> btree_repr geo h' head' A' C' \<and>
    heap_frame h A h' A' \<and> map_of C' = (map_of C)(k := None) \<and> length C = Suc (length C')"
  using r
proof (cases rule: repr_cases)
  case empty
  then show ?thesis using m by simp
next
  case (tree l us)
  have sep: "separated (entries_of l)" by (rule levels_ok_sep [OF tree(2)])
  have "(k, v) \<in> set (map strip (entries_of l))" using map_of_SomeD [OF m] tree(6) by simp
  then obtain e where "e \<in> set (entries_of l)" "strip e = (k, v)" by auto
  moreover from this have "e = (k, v, ghost e)" by (simp add: strip_def ghost_def prod_eq_iff)
  ultimately obtain K where "(k, v, K) \<in> set (entries_of l)" by metis
  then obtain n where n: "n \<in> set l" "(k, v, K) \<in> set (snd n)" by (auto simp: entries_of_def)
  obtain xs ys where "l = xs @ n # ys" using n(1) by (meson split_list)
  moreover obtain ps qs where "snd n = ps @ (k, v, K) # qs" using n(2) by (meson split_list)
  ultimately have l: "l = xs @ (fst n, ps @ (k, v, K) # qs) # ys" by (metis prod.collapse)
  have p: "fst p \<notin> set (node_addrs us)" "fst p \<notin> fst ` set l" using k(2) tree(5) by auto
  have ht: "1 \<le> bt_height head" using tree_at_height [OF tree(1)] by simp
  have root: "us = [] \<longrightarrow> min_root 1 \<le> length (entries_of l)" using tree(4) by (simp add: min_root_def)
  let ?C = "entries_of xs @ ps @ absorb K qs @ entries_of ys"
  obtain r where rm: "btree_remove_level geo head p 1 h = Some (v, r)" "remove_ok geo h 1 (l # us) ?C r"
    using remove_hypD [OF remove_level_ok refl tree(1,2,3) root _ k(1) p(1) disjI1 [OF p(2)] l] by auto
  have cl: "entries_of l = entries_of xs @ ps @ (k, v, K) # qs @ entries_of ys" by (simp add: l)
  have mc: "map_of (map strip ?C) = (map_of C)(k := None)" unfolding tree(6) cl
    by (rule map_of_absorb) (use sep cl in \<open>simp only:\<close>)
  have len: "length C = Suc (length ?C)" unfolding tree(6) cl by simp
  obtain head' h' where rr: "r = (head', h')" by (cases r)
  have rem: "btree_remove head geo p h = Some (v, head', h')" using rm(1) ht rr by (simp add: btree_remove_def)
  from rm(2) [unfolded remove_ok_def rr fst_conv snd_conv]
  consider (more) l' us' where "tree_at geo h' head' 1 (l' # us')" "levels_ok (l' # us')" "us' \<noteq> [] \<longrightarrow> big (l' # us')"
      "us' = [] \<longrightarrow> min_root 1 \<le> length (entries_of l')" "heap_frame h (set (node_addrs (l # us))) h' (set (node_addrs (l' # us')))" "entries_of l' = ?C"
    | (none) "heap_frame h (set (node_addrs (l # us))) h' {}" "bt_height head' + 1 = 1" "?C = []" "bt_node head' = 0"
    unfolding if_P [OF refl] by blast
  then show ?thesis
  proof cases
    case more
    have "us' = [] \<longrightarrow> 1 \<le> length (entries_of l')" using more(4) by (simp add: min_root_def)
    from repr_tree [OF more(1-3) this] have "btree_repr geo h' head' (set (node_addrs (l' # us'))) (map strip ?C)" by (simp only: more(6))
    moreover have "heap_frame h A h' (set (node_addrs (l' # us')))" using more(5) tree(5) by (simp only:)
    moreover have "length C = Suc (length (map strip ?C))" using len by simp
    ultimately show ?thesis using rem mc by blast
  next
    case none
    have "btree_repr geo h' head' {} (map strip ?C)" using none by (simp add: btree_repr_def)
    moreover have "heap_frame h A h' {}" using none(1) tree(5) by (simp only:)
    moreover have "length C = Suc (length (map strip ?C))" using len by simp
    ultimately show ?thesis using rem mc by blast
  qed
qed

lemma forest_levels: "levels_ok ls \<Longrightarrow> forest ls"
  by (induction ls rule: levels_ok.induct) simp_all

lemma repr_visit:
  assumes r: "btree_repr geo h head A C" and ne: "bt_node head \<noteq> 0"
  shows "\<exists>calls. for_each_from geo reap (bt_height head) (bt_node head) 0 0 h = Some (calls, length C, reaped reap h A) \<and>
    calls_for geo h 0 calls C"
  using r
proof (cases rule: repr_cases)
  case (tree l us)
  have ht: "length (l # us) = bt_height head" using tree_at_height [OF tree(1)] by simp
  have "length (last (l # us)) = 1" using tree(2) by (induction us arbitrary: l) auto
  then obtain n where n: "last (l # us) = [n]" by (auto simp: length_Suc_conv)
  have "visits geo reap (bt_height head)" by (rule visits_all) (use ht in simp)
  moreover have "last (l # us) = [(bt_node head, snd n)]" using tree(1) n by (simp add: tree_at_def)
  moreover have "forest (l # us)" using tree(2) by (rule forest_levels)
  moreover have "\<forall>l \<in> set (l # us). nodes_at geo h l" "distinct (node_addrs (l # us))" using tree(1) unfolding tree_at_def by blast+
  ultimately have "\<exists>calls. for_each_from geo reap (bt_height head) (bt_node head) 0 0 h =
      Some (calls, 0 + length (entries_of (hd (l # us))), reaped reap h (set (node_addrs (l # us)))) \<and>
      calls_for geo h 0 calls (map strip (entries_of (hd (l # us))))"
    unfolding visits_def using ht by blast
  then show ?thesis using tree(5,6) by simp
qed (use ne in simp)

lemma repr_visitor:
  assumes r: "btree_repr geo h head A C"
  shows "\<exists>calls. btree_visitor head geo h = Some (calls, length C) \<and> calls_for geo h 0 calls C"
    and "\<exists>calls. btree_grim_visitor head geo h = Some (calls, length C, btree_init, reaped True h A) \<and> calls_for geo h 0 calls C"
proof -
  have e: "A = {} \<and> C = []" if "bt_node head = 0" using repr_node [OF r that] .
  show "\<exists>calls. btree_visitor head geo h = Some (calls, length C) \<and> calls_for geo h 0 calls C"
    using e repr_visit [OF r, of False] by (cases "bt_node head = 0") (auto simp: btree_visitor_def)
  show "\<exists>calls. btree_grim_visitor head geo h = Some (calls, length C, btree_init, reaped True h A) \<and> calls_for geo h 0 calls C"
    using e repr_visit [OF r, of True] by (cases "bt_node head = 0") (auto simp: btree_grim_visitor_def)
qed

end

end
