(* ===== verification/Btree_Merge.thy ===== *)
theory Btree_Merge
  imports Btree_Map
begin

text \<open>
  Merging two trees: the largest key of the victim is looked up, inserted in the target and removed
  from the victim until the victim is empty or there is no memory. The key that is inserted lies in
  a node of the victim, the key that is removed in the caller's block.
\<close>

text \<open>Two trees apart from each other and from the block \<open>d\<close>, and the pairs of both.\<close>

definition two_trees :: "btree_geo \<Rightarrow> bheap \<Rightarrow> u64 \<Rightarrow> btree_head \<Rightarrow> u64 set \<Rightarrow> pair list \<Rightarrow> btree_head \<Rightarrow> u64 set \<Rightarrow> pair list \<Rightarrow> bool" where
  "two_trees geo h d t A C t' A' C' \<longleftrightarrow> btree_repr geo h t A C \<and> btree_repr geo h t' A' C' \<and> A \<inter> A' = {} \<and>
     d \<notin> A \<union> A' \<and> dom (map_of C) \<inter> dom (map_of C') = {}"

text \<open>What a merge leaves: the same pairs in both trees together, and other memory as it was.\<close>

definition merged :: "btree_geo \<Rightarrow> bheap \<Rightarrow> u64 \<Rightarrow> u64 set \<Rightarrow> (u64 list \<Rightarrow> u64 option) \<Rightarrow> (int \<times> btree_head \<times> btree_head \<times> bheap) option \<Rightarrow> bool" where
  "merged geo h d B m r \<longleftrightarrow> (\<exists>err t t' h' A C A' C'. r = Some (err, t, t', h') \<and> two_trees geo h' d t A C t' A' C' \<and>
     heap_frame h (insert d B) h' (insert d (A \<union> A')) \<and> map_of C ++ map_of C' = m \<and>
     (err = 0 \<and> C' = [] \<or> err = - ENOMEM))"

lemma mergedI:
  "two_trees geo h' d t A C t' A' C' \<Longrightarrow> heap_frame h (insert d B) h' (insert d (A \<union> A')) \<Longrightarrow> map_of C ++ map_of C' = m \<Longrightarrow>
   err = 0 \<and> C' = [] \<or> err = - ENOMEM \<Longrightarrow> merged geo h d B m (Some (err, t, t', h'))"
  unfolding merged_def by blast

lemma merged_later:
  assumes "merged geo h1 d B1 m r" "heap_frame h (insert d B) h1 (insert d B1)"
  shows "merged geo h d B m r"
  using assms(1) heap_frame_trans [OF assms(2)] unfolding merged_def by blast

lemma frame_apart:
  assumes "heap_frame h A h' A'" "A \<inter> B = {}" "\<forall>b \<in> B. h b \<noteq> None"
  shows "b \<in> B \<Longrightarrow> h' b = h b" "A' \<inter> B = {}"
  using heap_frame_same [OF assms(1)] assms(2,3) by blast+

lemma frame_union:
  assumes "heap_frame h A h' A'"
  shows "heap_frame h (insert d (A \<union> B)) h' (insert d (A' \<union> B))" "heap_frame h (insert d (B \<union> A)) h' (insert d (B \<union> A'))"
  using heap_frame_more [OF assms, of "insert d B"] by (simp_all add: Un_commute)

context geometry
begin

lemma copy_key:
  assumes "key_at geo h q k" "key_at geo h (d, i) k0" "fst q \<noteq> d"
  shows "\<exists>ws. longcpy (d, i) q (keylen geo) h = Some (h(d \<mapsto> ws)) \<and> key_at geo (h(d \<mapsto> ws)) (d, i) k"
proof -
  obtain wd where w: "h d = Some wd" "i + keylen geo \<le> length wd" using assms(2) by (auto simp: key_at_def)
  let ?ws = "take i wd @ k @ drop (i + keylen geo) wd"
  have "longcpy (d, i) q (keylen geo) h = Some (h(d \<mapsto> ?ws))" using w assms(1,3) longcpy_eq [of h "(d, i)" wd geo q k] by simp
  moreover have "key_at geo (h(d \<mapsto> ?ws)) (d, i) k" using w key_at_length [OF assms(1)] keylen_pos by (simp add: key_at_def min_def)
  ultimately show ?thesis by blast
qed

text \<open>One pair moves from the victim to the target.\<close>

lemma merge_step:
  assumes two: "two_trees geo h d t A C t' A' (e # C')" and al: "fresh_alloc alloc" and k0: "key_at geo h (d, i) k0"
  obtains q where "btree_last t' geo h = Some (Some q)" "btree_lookup t' geo q h = Some (snd e)"
    "(\<exists>t1 h1 A1. btree_insert alloc t geo q (snd e) h = Some (- ENOMEM, t1, h1) \<and> two_trees geo h1 d t1 A1 C t' A' (e # C') \<and>
       heap_frame h A h1 A1) \<or>
     (\<exists>t1 h1 A1 C1 h2 t2 h3 A2 C2 v. btree_insert alloc t geo q (snd e) h = Some (0, t1, h1) \<and>
       longcpy (d, i) q (keylen geo) h1 = Some h2 \<and> btree_remove t' geo (d, i) h2 = Some (v, t2, h3) \<and>
       two_trees geo h3 d t1 A1 C1 t2 A2 C2 \<and> heap_frame h (insert d (A \<union> A')) h3 (insert d (A1 \<union> A2)) \<and>
       key_at geo h3 (d, i) (fst e) \<and> length C2 = length C' \<and> map_of C1 ++ map_of C2 = map_of C ++ map_of (e # C'))"
proof -
  have r: "btree_repr geo h t A C" "btree_repr geo h t' A' (e # C')" and dj: "A \<inter> A' = {}" "d \<notin> A \<union> A'"
    and dm: "dom (map_of C) \<inter> dom (map_of (e # C')) = {}" using two unfolding two_trees_def by blast+
  let ?k = "fst e"
  obtain q where q: "btree_last t' geo h = Some (Some q)" "key_at geo h q ?k" "fst q \<in> A'" using repr_last [OF r(2)] by auto
  have m: "map_of (e # C') ?k = Some (snd e)" by (cases e) simp
  then have nk: "map_of C ?k = None" using dm by blast
  have lk: "btree_lookup t' geo q h = Some (snd e)" using repr_lookup [OF r(2) q(2)] m by simp
  have v: "snd e \<noteq> 0" using repr_entries [OF r(2), of e] by simp
  have qA: "fst q \<notin> A" using dj q(3) by blast
  obtain err t1 h1 A1 C1 where i: "btree_insert alloc t geo q (snd e) h = Some (err, t1, h1)" "btree_repr geo h1 t1 A1 C1"
    "heap_frame h A h1 A1" "err = 0 \<and> map_of C1 = (map_of C)(?k \<mapsto> snd e) \<or> err = - ENOMEM \<and> C1 = C"
    using repr_insert [OF r(1) q(2) qA v nk al] by blast
  have al2: "\<forall>b \<in> insert d A'. h b \<noteq> None" using repr_alloc [OF r(2)] k0 by (auto simp: key_at_def)
  have dj2: "A \<inter> insert d A' = {}" using dj by blast
  note ap = frame_apart [OF i(3) dj2 al2]
  have r1: "btree_repr geo h1 t' A' (e # C')" using r(2) by (rule repr_other) (rule ap(1), blast)
  have a1: "A1 \<inter> A' = {}" "d \<notin> A1" using ap(2) by blast+
  show thesis
  proof (cases "err = 0")
    case False
    then have "two_trees geo h1 d t1 A1 C t' A' (e # C')" using i(2,4) r1 a1 dj(2) dm unfolding two_trees_def by blast
    then show ?thesis using that [OF q(1) lk] i False by blast
  next
    case True
    then have m1: "map_of C1 = (map_of C)(?k \<mapsto> snd e)" using i(4) by (auto simp: ENOMEM_def)
    have q1: "key_at geo h1 q ?k" using q(2) by (rule key_at_other) (use ap(1) q(3) in simp)
    have k1: "key_at geo h1 (d, i) k0" using k0 by (rule key_at_other) (use ap(1) in simp)
    have qd: "fst q \<noteq> d" using q(3) dj(2) by auto
    obtain ws where c: "longcpy (d, i) q (keylen geo) h1 = Some (h1(d \<mapsto> ws))" "key_at geo (h1(d \<mapsto> ws)) (d, i) ?k"
      using copy_key [OF q1 k1 qd] by blast
    let ?h2 = "h1(d \<mapsto> ws)"
    have r2: "btree_repr geo ?h2 t1 A1 C1" "btree_repr geo ?h2 t' A' (e # C')"
      by (rule repr_other [OF i(2)], use a1 in auto) (rule repr_other [OF r1], use dj(2) in auto)
    have "fst (d, i) \<notin> A'" using dj(2) by simp
    from repr_remove [OF r2(2) c(2) this m] obtain t2 h3 A2 C2 where rm: "btree_remove t' geo (d, i) ?h2 = Some (snd e, t2, h3)"
      "btree_repr geo h3 t2 A2 C2" "heap_frame ?h2 A' h3 A2" "map_of C2 = (map_of (e # C'))(?k := None)" "length (e # C') = Suc (length C2)"
      by blast
    have al3: "\<forall>b \<in> insert d A1. ?h2 b \<noteq> None" using repr_alloc [OF i(2)] by auto
    have dj3: "A' \<inter> insert d A1 = {}" using a1 dj(2) by blast
    note ap3 = frame_apart [OF rm(3) dj3 al3]
    have r3: "btree_repr geo h3 t1 A1 C1" using r2(1) by (rule repr_other) (rule ap3(1), blast)
    have k3: "key_at geo h3 (d, i) ?k" using c(2) by (rule key_at_other) (use ap3(1) in simp)
    have two3: "two_trees geo h3 d t1 A1 C1 t2 A2 C2"
      unfolding two_trees_def using r3 rm(2) ap3(2) a1(2) dm m1 rm(4) by auto
    have "heap_frame h1 (insert d (A1 \<union> A')) ?h2 (insert d (A1 \<union> A'))" by (rule heap_frame_refl) simp
    from heap_frame_trans [OF heap_frame_trans [OF frame_union(1) [OF i(3)] this] frame_union(2) [OF rm(3)]]
    have fr: "heap_frame h (insert d (A \<union> A')) h3 (insert d (A1 \<union> A2))" .
    have mp: "map_of C1 ++ map_of C2 = map_of C ++ map_of (e # C')"
      unfolding m1 rm(4) using m nk by (auto simp: map_add_def fun_eq_iff split: option.splits)
    have "length C2 = length C'" using rm(5) by simp
    moreover have "btree_insert alloc t geo q (snd e) h = Some (0, t1, h1)" using i(1) True by simp
    ultimately show ?thesis using that [OF q(1) lk] c(1) rm(1) two3 fr k3 mp by blast
  qed
qed

lemma merge_loop_ok:
  assumes "two_trees geo h d t A C t' A' C'" "fresh_alloc alloc" "key_at geo h (d, i) k0"
  shows "merged geo h d (A \<union> A') (map_of C ++ map_of C') (btree_merge_loop alloc geo (d, i) t t' h)"
  using assms(1,3)
proof (induction "length C'" arbitrary: h t A C t' A' C' k0)
  case 0
  then have "C' = []" by simp
  moreover have "btree_repr geo h t' A' C'" using "0.prems"(1) by (simp add: two_trees_def)
  ultimately have "btree_last t' geo h = Some None" using repr_last [of h t' A' C'] by simp
  then have "btree_merge_loop alloc geo (d, i) t t' h = Some (0, t, t', h)" by (subst btree_merge_loop.simps) simp
  moreover have "heap_frame h (insert d (A \<union> A')) h (insert d (A \<union> A'))" by (rule heap_frame_refl) simp
  ultimately show ?case using mergedI [OF "0.prems"(1)] \<open>C' = []\<close> by simp
next
  case (Suc n)
  then obtain e D where C': "C' = e # D" by (cases C') auto
  note two = Suc.prems(1) [unfolded C']
  obtain q where q: "btree_last t' geo h = Some (Some q)" "btree_lookup t' geo q h = Some (snd e)"
    "(\<exists>t1 h1 A1. btree_insert alloc t geo q (snd e) h = Some (- ENOMEM, t1, h1) \<and> two_trees geo h1 d t1 A1 C t' A' (e # D) \<and>
       heap_frame h A h1 A1) \<or>
     (\<exists>t1 h1 A1 C1 h2 t2 h3 A2 C2 v. btree_insert alloc t geo q (snd e) h = Some (0, t1, h1) \<and>
       longcpy (d, i) q (keylen geo) h1 = Some h2 \<and> btree_remove t' geo (d, i) h2 = Some (v, t2, h3) \<and>
       two_trees geo h3 d t1 A1 C1 t2 A2 C2 \<and> heap_frame h (insert d (A \<union> A')) h3 (insert d (A1 \<union> A2)) \<and>
       key_at geo h3 (d, i) (fst e) \<and> length C2 = length D \<and> map_of C1 ++ map_of C2 = map_of C ++ map_of (e # D))"
    by (rule merge_step [OF two assms(2) Suc.prems(2)])
  from q(3) show ?case
  proof (elim disjE exE conjE)
    fix t1 h1 A1
    assume a: "btree_insert alloc t geo q (snd e) h = Some (- ENOMEM, t1, h1)" "two_trees geo h1 d t1 A1 C t' A' (e # D)" "heap_frame h A h1 A1"
    have "btree_merge_loop alloc geo (d, i) t t' h = Some (- ENOMEM, t1, t', h1)"
      using q(1,2) a(1) by (subst btree_merge_loop.simps) (simp add: ENOMEM_def)
    then show ?thesis using mergedI [OF a(2) frame_union(1) [OF a(3)]] C' by simp
  next
    fix t1 h1 A1 C1 h2 t2 h3 A2 C2 v
    assume a: "btree_insert alloc t geo q (snd e) h = Some (0, t1, h1)" "longcpy (d, i) q (keylen geo) h1 = Some h2"
      "btree_remove t' geo (d, i) h2 = Some (v, t2, h3)" "two_trees geo h3 d t1 A1 C1 t2 A2 C2"
      "heap_frame h (insert d (A \<union> A')) h3 (insert d (A1 \<union> A2))" "key_at geo h3 (d, i) (fst e)" "length C2 = length D"
      "map_of C1 ++ map_of C2 = map_of C ++ map_of (e # D)"
    have "n = length C2" using Suc.hyps(2) C' a(7) by simp
    from Suc.hyps(1) [OF this a(4,6)] have "merged geo h d (A \<union> A') (map_of C ++ map_of C') (btree_merge_loop alloc geo (d, i) t1 t2 h3)"
      unfolding C' a(8) [symmetric] by (rule merged_later [OF _ a(5)])
    moreover have "btree_merge_loop alloc geo (d, i) t t' h = btree_merge_loop alloc geo (d, i) t1 t2 h3"
      using q(1,2) a(1-3) by (subst btree_merge_loop.simps) simp
    ultimately show ?thesis by (simp only:)
  qed
qed

lemma merge_repr:
  assumes two: "two_trees geo h d t A C t' A' C'" and al: "fresh_alloc alloc" and k0: "key_at geo h (d, i) k0"
  shows "merged geo h d (A \<union> A') (map_of C ++ map_of C') (btree_merge alloc t t' geo (d, i) h)"
proof (cases "bt_node t = 0")
  case True
  have r: "btree_repr geo h t A C" "btree_repr geo h t' A' C'" using two by (simp_all add: two_trees_def)
  have e: "A = {}" "C = []" using repr_node [OF r(1) True] by simp_all
  have "t\<lparr>bt_node := bt_node t', bt_height := bt_height t'\<rparr> = t'" by simp
  then have "btree_merge alloc t t' geo (d, i) h = Some (0, t', btree_init, h)" using True by (simp add: btree_merge_def)
  moreover have "two_trees geo h d t' A' C' btree_init {} []" using r(2) two repr_init by (simp add: two_trees_def)
  moreover have "heap_frame h (insert d (A \<union> A')) h (insert d (A' \<union> {}))" unfolding e by (simp add: heap_frame_refl)
  ultimately show ?thesis using mergedI [of geo h d t' A' C' btree_init "{}" "[]" h "A \<union> A'" "map_of C ++ map_of C'" 0] e(2) by simp
next
  case False
  then show ?thesis using merge_loop_ok [OF assms] by (simp add: btree_merge_def)
qed

end

end
