(* ===== verification/Btree_Dict.thy ===== *)
theory Btree_Dict
  imports Btree_Merge
begin

text \<open>
  The typed functions of \<^verbatim>\<open>lib_btree/btree.h\<close>, which pass a key in a local variable, and what their
  clients may rely on: the contract of a dictionary as a locale, proved for the trees with keys of
  one and of two longs, and its clients, among them the loop of \<^verbatim>\<open>btree_test/main.c\<close>.
\<close>

section \<open>The contract of a dictionary\<close>

text \<open>
  \<open>rep s m\<close>: the state \<open>s\<close> holds the map \<open>m\<close>. A lookup answers 0 for a missing key, an insertion
  returns 0 or \<open>- ENOMEM\<close>; inserting a key again, inserting 0 and removing a missing key are not allowed.
\<close>

locale dictionary =
  fixes rep :: "'s \<Rightarrow> ('k \<Rightarrow> u64 option) \<Rightarrow> bool"
    and lookup_of :: "'k \<Rightarrow> 's \<Rightarrow> u64 option"
    and insert_of :: "'k \<Rightarrow> u64 \<Rightarrow> 's \<Rightarrow> (int \<times> 's) option"
    and remove_of :: "'k \<Rightarrow> 's \<Rightarrow> (u64 \<times> 's) option"
  assumes lookup_law: "rep s m \<Longrightarrow> lookup_of k s = Some (case m k of None \<Rightarrow> 0 | Some v \<Rightarrow> v)"
    and insert_law: "rep s m \<Longrightarrow> m k = None \<Longrightarrow> v \<noteq> 0 \<Longrightarrow>
      \<exists>err s'. insert_of k v s = Some (err, s') \<and> (err = 0 \<and> rep s' (m(k \<mapsto> v)) \<or> err = - ENOMEM \<and> rep s' m)"
    and remove_law: "rep s m \<Longrightarrow> m k = Some v \<Longrightarrow> \<exists>s'. remove_of k s = Some (v, s') \<and> rep s' (m(k := None))"

text \<open>The states that a client reaches who keeps to the rules, and the map that it has built.\<close>

inductive reached :: "('k \<Rightarrow> u64 \<Rightarrow> 's \<Rightarrow> (int \<times> 's) option) \<Rightarrow> ('k \<Rightarrow> 's \<Rightarrow> (u64 \<times> 's) option) \<Rightarrow> 's \<Rightarrow> 's \<Rightarrow> ('k \<Rightarrow> u64 option) \<Rightarrow> bool"
  for ins rem s0 where
  start: "reached ins rem s0 s0 Map.empty"
| inserted: "reached ins rem s0 s m \<Longrightarrow> m k = None \<Longrightarrow> v \<noteq> 0 \<Longrightarrow> ins k v s = Some (err, s') \<Longrightarrow>
    reached ins rem s0 s' (if err = 0 then m(k \<mapsto> v) else m)"
| removed: "reached ins rem s0 s m \<Longrightarrow> m k = Some v \<Longrightarrow> rem k s = Some (r, s') \<Longrightarrow> reached ins rem s0 s' (m(k := None))"

text \<open>A client that inserts some pairs and does not look at the results.\<close>

fun insert_all :: "('k \<Rightarrow> u64 \<Rightarrow> 's \<Rightarrow> (int \<times> 's) option) \<Rightarrow> ('k \<times> u64) list \<Rightarrow> 's \<Rightarrow> 's option" where
  "insert_all ins [] s = Some s"
| "insert_all ins (kv # kvs) s = Option.bind (ins (fst kv) (snd kv) s) (\<lambda>(err, s). insert_all ins kvs s)"

context dictionary
begin

lemma reached_rep: "reached insert_of remove_of s0 s m \<Longrightarrow> rep s0 Map.empty \<Longrightarrow> rep s m"
proof (induction rule: reached.induct)
  case (inserted s m k v err s')
  with insert_law [of s m k v] show ?case by (auto simp: ENOMEM_def)
next
  case (removed s m k v r s')
  then have "rep s m" by blast
  from remove_law [OF this removed.hyps(2)] show ?case using removed.hyps(3) by (elim exE conjE) (simp only: option.inject prod.inject)
qed

lemma insert_all_rep:
  assumes "rep s m" "distinct (map fst kvs)" "\<forall>kv \<in> set kvs. m (fst kv) = None \<and> snd kv \<noteq> 0"
  shows "\<exists>s' m'. insert_all insert_of kvs s = Some s' \<and> rep s' m' \<and> m \<subseteq>\<^sub>m m' \<and> m' \<subseteq>\<^sub>m m ++ map_of kvs"
  using assms
proof (induction kvs arbitrary: s m)
  case Nil
  then show ?case by auto
next
  case (Cons kv kvs)
  obtain k v where kv: "kv = (k, v)" by (cases kv)
  have nk: "m k = None" "v \<noteq> 0" "k \<notin> fst ` set kvs" using Cons.prems(2,3) kv by auto
  obtain err s1 m1 where i: "insert_of k v s = Some (err, s1)" "rep s1 m1" "m1 = m \<or> m1 = m(k \<mapsto> v)"
    using insert_law [OF Cons.prems(1) nk(1,2)] by auto
  have "m1 (fst x) = None \<and> snd x \<noteq> 0" if "x \<in> set kvs" for x
  proof -
    have "fst x \<noteq> k" using nk(3) that by blast
    then show ?thesis using Cons.prems(3) i(3) that by auto
  qed
  then obtain s' m' where r: "insert_all insert_of kvs s1 = Some s'" "rep s' m'" "m1 \<subseteq>\<^sub>m m'" "m' \<subseteq>\<^sub>m m1 ++ map_of kvs"
    using Cons.IH [OF i(2)] Cons.prems(2) by auto
  have "m \<subseteq>\<^sub>m m1" using i(3) nk(1) by (auto simp: map_le_def)
  then have "m \<subseteq>\<^sub>m m'" using r(3) by (rule map_le_trans)
  moreover have "map_of kvs k = None" using nk(3) by (simp add: map_of_eq_None_iff)
  then have "m1 ++ map_of kvs \<subseteq>\<^sub>m m ++ map_of ((k, v) # kvs)"
    using i(3) nk(1) by (auto simp: map_le_def map_add_def split: option.splits if_splits)
  then have "m' \<subseteq>\<^sub>m m ++ map_of ((k, v) # kvs)" using r(4) by (blast intro: map_le_trans)
  moreover have "insert_all insert_of (kv # kvs) s = Some s'" using i(1) r(1) kv by simp
  ultimately show ?case using r(2) unfolding kv by blast
qed

end

text \<open>An ordered dictionary also answers with its largest key, and with 0 when it is empty.\<close>

locale ordered_dictionary = dictionary rep lookup_of insert_of remove_of
  for rep :: "'s \<Rightarrow> (u64 \<Rightarrow> u64 option) \<Rightarrow> bool" and lookup_of :: "u64 \<Rightarrow> 's \<Rightarrow> u64 option"
    and insert_of :: "u64 \<Rightarrow> u64 \<Rightarrow> 's \<Rightarrow> (int \<times> 's) option" and remove_of :: "u64 \<Rightarrow> 's \<Rightarrow> (u64 \<times> 's) option" +
  fixes last_of :: "'s \<Rightarrow> u64 option"
  assumes last_law: "rep s m \<Longrightarrow> if dom m = {} then last_of s = Some 0 else \<exists>k \<in> dom m. last_of s = Some k \<and> (\<forall>k' \<in> dom m. k' \<le> k)"

section \<open>The typed functions\<close>

text \<open>A local variable at the address \<open>tmp\<close> is a block of the heap for the time of the call.\<close>

definition with_local :: "u64 \<Rightarrow> u64 list \<Rightarrow> (kptr \<Rightarrow> bheap \<Rightarrow> ('a \<times> bheap) option) \<Rightarrow> bheap \<Rightarrow> ('a \<times> bheap) option" where
  "with_local tmp ks f h = Option.bind (f (tmp, 0) (h(tmp \<mapsto> ks))) (\<lambda>(r, h). Some (r, h(tmp := None)))"

definition lookup_key :: "u64 \<Rightarrow> btree_geo \<Rightarrow> u64 list \<Rightarrow> btree_head \<times> bheap \<Rightarrow> u64 option" where
  "lookup_key tmp geo ks s = map_option fst
     (with_local tmp ks (\<lambda>p h. map_option (\<lambda>v. (v, h)) (btree_lookup (fst s) geo p h)) (snd s))"

definition insert_key :: "u64 \<Rightarrow> (bheap \<Rightarrow> u64) \<Rightarrow> btree_geo \<Rightarrow> u64 list \<Rightarrow> u64 \<Rightarrow> btree_head \<times> bheap \<Rightarrow> (int \<times> btree_head \<times> bheap) option" where
  "insert_key tmp alloc geo ks v s = map_option (\<lambda>((err, head), h). (err, head, h))
     (with_local tmp ks (\<lambda>p h. map_option (\<lambda>(err, head, h). ((err, head), h)) (btree_insert alloc (fst s) geo p v h)) (snd s))"

definition remove_key :: "u64 \<Rightarrow> btree_geo \<Rightarrow> u64 list \<Rightarrow> btree_head \<times> bheap \<Rightarrow> (u64 \<times> btree_head \<times> bheap) option" where
  "remove_key tmp geo ks s = map_option (\<lambda>((v, head), h). (v, head, h))
     (with_local tmp ks (\<lambda>p h. map_option (\<lambda>(v, head, h). ((v, head), h)) (btree_remove (fst s) geo p h)) (snd s))"

definition btree_lookupl :: "u64 \<Rightarrow> u64 \<Rightarrow> btree_head \<times> bheap \<Rightarrow> u64 option" where
  "btree_lookupl tmp key s = lookup_key tmp btree_geo32 [key] s"

definition btree_insertl :: "u64 \<Rightarrow> (bheap \<Rightarrow> u64) \<Rightarrow> u64 \<Rightarrow> u64 \<Rightarrow> btree_head \<times> bheap \<Rightarrow> (int \<times> btree_head \<times> bheap) option" where
  "btree_insertl tmp alloc key v s = insert_key tmp alloc btree_geo32 [key] v s"

definition btree_removel :: "u64 \<Rightarrow> u64 \<Rightarrow> btree_head \<times> bheap \<Rightarrow> (u64 \<times> btree_head \<times> bheap) option" where
  "btree_removel tmp key s = remove_key tmp btree_geo32 [key] s"

definition btree_lookup64 :: "u64 \<Rightarrow> u64 \<Rightarrow> btree_head \<times> bheap \<Rightarrow> u64 option" where
  "btree_lookup64 tmp key s = lookup_key tmp btree_geo64 [key] s"

definition btree_insert64 :: "u64 \<Rightarrow> (bheap \<Rightarrow> u64) \<Rightarrow> u64 \<Rightarrow> u64 \<Rightarrow> btree_head \<times> bheap \<Rightarrow> (int \<times> btree_head \<times> bheap) option" where
  "btree_insert64 tmp alloc key v s = insert_key tmp alloc btree_geo64 [key] v s"

definition btree_remove64 :: "u64 \<Rightarrow> u64 \<Rightarrow> btree_head \<times> bheap \<Rightarrow> (u64 \<times> btree_head \<times> bheap) option" where
  "btree_remove64 tmp key s = remove_key tmp btree_geo64 [key] s"

definition btree_last64 :: "btree_head \<times> bheap \<Rightarrow> u64 option" where
  "btree_last64 s = Option.bind (btree_last (fst s) btree_geo64 (snd s)) (\<lambda>key.
     case key of None \<Rightarrow> Some 0 | Some p \<Rightarrow> ld p (snd s))"

definition btree_lookup128 :: "u64 \<Rightarrow> u64 \<Rightarrow> u64 \<Rightarrow> btree_head \<times> bheap \<Rightarrow> u64 option" where
  "btree_lookup128 tmp k1 k2 s = lookup_key tmp btree_geo128 [k1, k2] s"

definition btree_insert128 :: "u64 \<Rightarrow> (bheap \<Rightarrow> u64) \<Rightarrow> u64 \<Rightarrow> u64 \<Rightarrow> u64 \<Rightarrow> btree_head \<times> bheap \<Rightarrow> (int \<times> btree_head \<times> bheap) option" where
  "btree_insert128 tmp alloc k1 k2 v s = insert_key tmp alloc btree_geo128 [k1, k2] v s"

definition btree_remove128 :: "u64 \<Rightarrow> u64 \<Rightarrow> u64 \<Rightarrow> btree_head \<times> bheap \<Rightarrow> (u64 \<times> btree_head \<times> bheap) option" where
  "btree_remove128 tmp k1 k2 s = remove_key tmp btree_geo128 [k1, k2] s"

definition btree_last128 :: "btree_head \<times> bheap \<Rightarrow> (u64 \<times> u64) option" where
  "btree_last128 s = Option.bind (btree_last (fst s) btree_geo128 (snd s)) (\<lambda>key.
     case key of None \<Rightarrow> Some (0, 0)
     | Some p \<Rightarrow> Option.bind (ld p (snd s)) (\<lambda>k1. Option.bind (ld (kadd p 1) (snd s)) (\<lambda>k2. Some (k1, k2))))"

text \<open>The scratch variables of the merges are not initialised: \<open>g\<close> is what they happen to hold.\<close>

definition merge_local :: "u64 \<Rightarrow> u64 list \<Rightarrow> (bheap \<Rightarrow> u64) \<Rightarrow> btree_geo \<Rightarrow> btree_head \<Rightarrow> btree_head \<Rightarrow> bheap \<Rightarrow>
    ((int \<times> btree_head \<times> btree_head) \<times> bheap) option" where
  "merge_local tmp g alloc geo target victim h = with_local tmp g (\<lambda>p h.
     map_option (\<lambda>(err, t, v, h). ((err, t, v), h)) (btree_merge alloc target victim geo p h)) h"

definition btree_mergel where
  "btree_mergel tmp g alloc target victim h = merge_local tmp [g] alloc btree_geo32 target victim h"

definition btree_merge64 where
  "btree_merge64 tmp g alloc target victim h = merge_local tmp [g] alloc btree_geo64 target victim h"

definition btree_merge128 where
  "btree_merge128 tmp g1 g2 alloc target victim h = merge_local tmp [g1, g2] alloc btree_geo128 target victim h"

text \<open>
  The functions for keys of 32 bits pass the address of an argument of 4 bytes as one of longs: there
  is no whole long at that address.
\<close>

definition btree_lookup32 :: "u64 \<Rightarrow> u32 \<Rightarrow> btree_head \<times> bheap \<Rightarrow> u64 option" where
  "btree_lookup32 tmp key s = lookup_key tmp btree_geo32 [] s"

definition btree_insert32 :: "u64 \<Rightarrow> (bheap \<Rightarrow> u64) \<Rightarrow> u32 \<Rightarrow> u64 \<Rightarrow> btree_head \<times> bheap \<Rightarrow> (int \<times> btree_head \<times> bheap) option" where
  "btree_insert32 tmp alloc key v s = insert_key tmp alloc btree_geo32 [] v s"

definition btree_remove32 :: "u64 \<Rightarrow> u32 \<Rightarrow> btree_head \<times> bheap \<Rightarrow> (u64 \<times> btree_head \<times> bheap) option" where
  "btree_remove32 tmp key s = remove_key tmp btree_geo32 [] s"

definition btree_merge32 where
  "btree_merge32 tmp g alloc target victim h = merge_local tmp [g] alloc btree_geo32 target victim h"

text \<open>
  The adapters read the key and call the client's function with it. A node that is freed is freed
  after the calls for its pairs, so the keys are those of the memory before the visit.
\<close>

definition visitorl :: "bheap \<Rightarrow> visit \<Rightarrow> (u64 \<times> u64 \<times> nat) option" where
  "visitorl h c = (case c of (elem, key, index) \<Rightarrow> Option.bind (ld key h) (\<lambda>k. Some (elem, k, index)))"

text \<open>The first 4 bytes of a long are its low half on a little-endian host.\<close>

definition visitor32 :: "bheap \<Rightarrow> visit \<Rightarrow> (u64 \<times> u32 \<times> nat) option" where
  "visitor32 h c = (case c of (elem, key, index) \<Rightarrow> Option.bind (ld key h) (\<lambda>k. Some (elem, ucast k, index)))"

definition visitor64 :: "bheap \<Rightarrow> visit \<Rightarrow> (u64 \<times> u64 \<times> nat) option" where
  "visitor64 h c = (case c of (elem, key, index) \<Rightarrow> Option.bind (ld key h) (\<lambda>k. Some (elem, k, index)))"

definition visitor128 :: "bheap \<Rightarrow> visit \<Rightarrow> (u64 \<times> u64 \<times> u64 \<times> nat) option" where
  "visitor128 h c = (case c of (elem, key, index) \<Rightarrow>
     Option.bind (ld key h) (\<lambda>k1. Option.bind (ld (kadd key 1) h) (\<lambda>k2. Some (elem, k1, k2, index))))"

definition typed_visit :: "(bheap \<Rightarrow> visit \<Rightarrow> 'a option) \<Rightarrow> btree_geo \<Rightarrow> btree_head \<times> bheap \<Rightarrow> ('a list \<times> nat) option" where
  "typed_visit f geo s = Option.bind (btree_visitor (fst s) geo (snd s)) (\<lambda>(calls, count).
     Option.bind (those (map (f (snd s)) calls)) (\<lambda>cs. Some (cs, count)))"

definition typed_grim_visit :: "(bheap \<Rightarrow> visit \<Rightarrow> 'a option) \<Rightarrow> btree_geo \<Rightarrow> btree_head \<times> bheap \<Rightarrow> ('a list \<times> nat \<times> btree_head \<times> bheap) option" where
  "typed_grim_visit f geo s = Option.bind (btree_grim_visitor (fst s) geo (snd s)) (\<lambda>(calls, count, s').
     Option.bind (those (map (f (snd s)) calls)) (\<lambda>cs. Some (cs, count, s')))"

definition btree_visitorl where "btree_visitorl = typed_visit visitorl btree_geo32"

definition btree_grim_visitorl where "btree_grim_visitorl = typed_grim_visit visitorl btree_geo32"

definition btree_visitor32 where "btree_visitor32 = typed_visit visitor32 btree_geo32"

definition btree_grim_visitor32 where "btree_grim_visitor32 = typed_grim_visit visitor32 btree_geo32"

definition btree_visitor64 where "btree_visitor64 = typed_visit visitor64 btree_geo64"

definition btree_grim_visitor64 where "btree_grim_visitor64 = typed_grim_visit visitor64 btree_geo64"

definition btree_visitor128 where "btree_visitor128 = typed_visit visitor128 btree_geo128"

definition btree_grim_visitor128 where "btree_grim_visitor128 = typed_grim_visit visitor128 btree_geo128"

text \<open>The loop of \<^verbatim>\<open>main\<close>: \<open>ps\<close> are the answers of \<^verbatim>\<open>malloc\<close> in their order.\<close>

definition btree_test_fill :: "u64 \<Rightarrow> (bheap \<Rightarrow> u64) \<Rightarrow> u64 list \<Rightarrow> btree_head \<times> bheap \<Rightarrow> (btree_head \<times> bheap) option" where
  "btree_test_fill tmp alloc ps s = insert_all (btree_insert64 tmp alloc) (zip (map of_nat [0..<100]) ps) s"

section \<open>The trees keep the contract\<close>

text \<open>
  The tree holds the map under the encoding \<open>c\<close> of its keys; all memory but its nodes is as it was in
  \<open>h0\<close>, and there the nodes were free. The local variable is not in use.
\<close>

definition holds :: "btree_geo \<Rightarrow> ('k \<Rightarrow> u64 list) \<Rightarrow> u64 \<Rightarrow> bheap \<Rightarrow> btree_head \<times> bheap \<Rightarrow> ('k \<Rightarrow> u64 option) \<Rightarrow> bool" where
  "holds geo c tmp h0 s m \<longleftrightarrow> (\<exists>A C. btree_repr geo (snd s) (fst s) A C \<and> heap_frame h0 {} (snd s) A \<and>
     snd s tmp = None \<and> m = map_of C \<circ> c)"

lemma frame_local:
  assumes "heap_frame (h(tmp \<mapsto> ks)) A h1 A1" "h tmp = None" "tmp \<notin> A"
  shows "heap_frame h A (h1(tmp := None)) A1" "tmp \<notin> A1"
proof -
  show t: "tmp \<notin> A1" using heap_frame_same [OF assms(1), of tmp] assms(3) by simp
  then show "heap_frame h A (h1(tmp := None)) A1" using assms unfolding heap_frame_def by (auto split: if_splits)
qed

definition tree_rep :: "(bheap \<Rightarrow> u64) \<Rightarrow> btree_geo \<Rightarrow> ('k \<Rightarrow> u64 list) \<Rightarrow> u64 \<Rightarrow> bheap \<Rightarrow> btree_head \<times> bheap \<Rightarrow> ('k \<Rightarrow> u64 option) \<Rightarrow> bool" where
  "tree_rep alloc geo c tmp h0 s m \<longleftrightarrow> fresh_alloc alloc \<and> holds geo c tmp h0 s m"

context geometry
begin

lemma holds_lookup:
  assumes "holds geo c tmp h0 s m" "length (c k) = keylen geo"
  shows "lookup_key tmp geo (c k) s = Some (case m k of None \<Rightarrow> 0 | Some v \<Rightarrow> v)"
proof -
  obtain A C where r: "btree_repr geo (snd s) (fst s) A C" "snd s tmp = None" "m = map_of C \<circ> c"
    using assms(1) unfolding holds_def by blast
  let ?h = "(snd s)(tmp \<mapsto> c k)"
  have "tmp \<notin> A" using repr_alloc [OF r(1)] r(2) by blast
  then have "btree_repr geo ?h (fst s) A C" by (intro repr_other [OF r(1)]) auto
  moreover have "key_at geo ?h (tmp, 0) (c k)" using assms(2) by (simp add: key_at_def)
  ultimately have "btree_lookup (fst s) geo (tmp, 0) ?h = Some (case map_of C (c k) of Some v \<Rightarrow> v | None \<Rightarrow> 0)" by (rule repr_lookup)
  then show ?thesis using r(3) by (simp add: lookup_key_def with_local_def split: option.splits)
qed

lemma holds_insert:
  assumes s: "holds geo c tmp h0 s m" and c: "inj c" "length (c k) = keylen geo" and al: "fresh_alloc alloc"
    and k: "m k = None" "v \<noteq> 0"
  shows "\<exists>err s'. insert_key tmp alloc geo (c k) v s = Some (err, s') \<and>
    (err = 0 \<and> holds geo c tmp h0 s' (m(k \<mapsto> v)) \<or> err = - ENOMEM \<and> holds geo c tmp h0 s' m)"
proof -
  obtain A C where r: "btree_repr geo (snd s) (fst s) A C" "snd s tmp = None" "m = map_of C \<circ> c" "heap_frame h0 {} (snd s) A"
    using s unfolding holds_def by blast
  let ?h = "(snd s)(tmp \<mapsto> c k)"
  have t: "tmp \<notin> A" using repr_alloc [OF r(1)] r(2) by blast
  then have "btree_repr geo ?h (fst s) A C" by (intro repr_other [OF r(1)]) auto
  moreover have "key_at geo ?h (tmp, 0) (c k)" using c(2) by (simp add: key_at_def)
  moreover have "fst (tmp, 0 :: nat) \<notin> A" using t by simp
  moreover have "map_of C (c k) = None" using k(1) r(3) by simp
  ultimately obtain err head' h' A' C' where
    i: "btree_insert alloc (fst s) geo (tmp, 0) v ?h = Some (err, head', h')" "btree_repr geo h' head' A' C'"
      "heap_frame ?h A h' A'" "err = 0 \<and> map_of C' = (map_of C)(c k \<mapsto> v) \<or> err = - ENOMEM \<and> C' = C"
    using repr_insert [OF _ _ _ k(2) _ al] by blast
  note f = frame_local [OF i(3) r(2) t]
  have "btree_repr geo (h'(tmp := None)) head' A' C'" using f(2) by (intro repr_other [OF i(2)]) auto
  then have ho: "holds geo c tmp h0 (head', h'(tmp := None)) (map_of C' \<circ> c)"
    using heap_frame_trans [OF r(4) f(1)] unfolding holds_def by auto
  have "(map_of C)(c k \<mapsto> v) \<circ> c = m(k \<mapsto> v)" using c(1) r(3) by (auto simp: fun_eq_iff inj_eq)
  then have "err = 0 \<and> map_of C' \<circ> c = m(k \<mapsto> v) \<or> err = - ENOMEM \<and> map_of C' \<circ> c = m" using i(4) r(3) by auto
  moreover have "insert_key tmp alloc geo (c k) v s = Some (err, head', h'(tmp := None))"
    using i(1) by (simp add: insert_key_def with_local_def)
  ultimately show ?thesis using ho by auto
qed

lemma holds_remove:
  assumes s: "holds geo c tmp h0 s m" and c: "inj c" "length (c k) = keylen geo" and k: "m k = Some v"
  shows "\<exists>s'. remove_key tmp geo (c k) s = Some (v, s') \<and> holds geo c tmp h0 s' (m(k := None))"
proof -
  obtain A C where r: "btree_repr geo (snd s) (fst s) A C" "snd s tmp = None" "m = map_of C \<circ> c" "heap_frame h0 {} (snd s) A"
    using s unfolding holds_def by blast
  let ?h = "(snd s)(tmp \<mapsto> c k)"
  have t: "tmp \<notin> A" using repr_alloc [OF r(1)] r(2) by blast
  then have "btree_repr geo ?h (fst s) A C" by (intro repr_other [OF r(1)]) auto
  moreover have "key_at geo ?h (tmp, 0) (c k)" using c(2) by (simp add: key_at_def)
  moreover have "fst (tmp, 0 :: nat) \<notin> A" using t by simp
  moreover have "map_of C (c k) = Some v" using k r(3) by simp
  ultimately obtain head' h' A' C' where
    i: "btree_remove (fst s) geo (tmp, 0) ?h = Some (v, head', h')" "btree_repr geo h' head' A' C'"
      "heap_frame ?h A h' A'" "map_of C' = (map_of C)(c k := None)"
    using repr_remove by blast
  note f = frame_local [OF i(3) r(2) t]
  have "btree_repr geo (h'(tmp := None)) head' A' C'" using f(2) by (intro repr_other [OF i(2)]) auto
  then have ho: "holds geo c tmp h0 (head', h'(tmp := None)) (map_of C' \<circ> c)"
    using heap_frame_trans [OF r(4) f(1)] unfolding holds_def by auto
  have "map_of C' \<circ> c = m(k := None)" using i(4) c(1) r(3) by (auto simp: fun_eq_iff inj_eq)
  moreover have "remove_key tmp geo (c k) s = Some (v, head', h'(tmp := None))"
    using i(1) by (simp add: remove_key_def with_local_def)
  ultimately show ?thesis using ho by auto
qed

lemma holds_init: "h tmp = None \<Longrightarrow> holds geo c tmp h (btree_init, h) Map.empty"
  using repr_init unfolding holds_def by (intro exI [of _ "{}"] exI [of _ "[]"]) (auto simp: heap_frame_refl)

text \<open>An empty tree has given all memory back.\<close>

lemma holds_empty:
  assumes "holds geo c tmp h0 s m" "range c = {ks. length ks = keylen geo}" "m = Map.empty"
  shows "snd s = h0"
proof -
  obtain A C where r: "btree_repr geo (snd s) (fst s) A C" "m = map_of C \<circ> c" "heap_frame h0 {} (snd s) A"
    using assms(1) unfolding holds_def by blast
  have "C = []"
  proof (rule ccontr)
    assume "C \<noteq> []"
    then obtain e C' where C: "C = e # C'" by (cases C) auto
    then have "length (fst e) = keylen geo" using repr_entries(1) [OF r(1)] by simp
    then obtain k where "fst e = c k" using assms(2) by blast
    moreover have "map_of C (fst e) = Some (snd e)" using C by (cases e) simp
    ultimately show False using r(2) assms(3) by (metis comp_apply option.distinct(1))
  qed
  then have "A = {}" using repr_nil [OF r(1)] by blast
  then show ?thesis using r(3) by (auto simp: heap_frame_def)
qed

lemma tree_dictionary:
  assumes "inj c" "\<And>k. length (c k) = keylen geo"
  shows "dictionary (tree_rep alloc geo c tmp h0) (\<lambda>k. lookup_key tmp geo (c k)) (\<lambda>k v. insert_key tmp alloc geo (c k) v)
    (\<lambda>k. remove_key tmp geo (c k))"
proof (unfold_locales, unfold tree_rep_def)
  fix s m k assume "fresh_alloc alloc \<and> holds geo c tmp h0 s m"
  then show "lookup_key tmp geo (c k) s = Some (case m k of None \<Rightarrow> 0 | Some v \<Rightarrow> v)" using holds_lookup [of c] assms(2) by blast
next
  fix s m k and v :: u64 assume a: "fresh_alloc alloc \<and> holds geo c tmp h0 s m" "m k = None" "v \<noteq> 0"
  then obtain err s' where "insert_key tmp alloc geo (c k) v s = Some (err, s')"
      "err = 0 \<and> holds geo c tmp h0 s' (m(k \<mapsto> v)) \<or> err = - ENOMEM \<and> holds geo c tmp h0 s' m"
    using holds_insert [of c tmp h0 s m k alloc v] assms by blast
  then show "\<exists>err s'. insert_key tmp alloc geo (c k) v s = Some (err, s') \<and>
      (err = 0 \<and> fresh_alloc alloc \<and> holds geo c tmp h0 s' (m(k \<mapsto> v)) \<or> err = - ENOMEM \<and> fresh_alloc alloc \<and> holds geo c tmp h0 s' m)"
    using a(1) by blast
next
  fix s m k v assume a: "fresh_alloc alloc \<and> holds geo c tmp h0 s m" "m k = Some v"
  then obtain s' where "remove_key tmp geo (c k) s = Some (v, s')" "holds geo c tmp h0 s' (m(k := None))"
    using holds_remove [of c tmp h0 s m k v] assms by blast
  then show "\<exists>s'. remove_key tmp geo (c k) s = Some (v, s') \<and> fresh_alloc alloc \<and> holds geo c tmp h0 s' (m(k := None))"
    using a(1) by blast
qed

end

section \<open>Keys of one long and of two\<close>

definition one_long :: "u64 \<Rightarrow> u64 list" where
  "one_long k = [k]"

definition two_longs :: "u64 \<times> u64 \<Rightarrow> u64 list" where
  "two_longs k = [fst k, snd k]"

lemma key_codes:
  "inj one_long" "inj two_longs" "length (one_long k) = keylen btree_geo32" "length (one_long k) = keylen btree_geo64"
  "length (two_longs k') = keylen btree_geo128" "range one_long = {ks. length ks = keylen btree_geo32}"
  "range one_long = {ks. length ks = keylen btree_geo64}"
  by (auto simp: inj_def one_long_def two_longs_def btree_geo32_def btree_geo64_def btree_geo128_def length_Suc_conv image_iff)

text \<open>The size of a tree: its height is logarithmic in the number of keys, and it has no more nodes than keys.\<close>

lemma holds_size:
  assumes "geometry geo" "holds geo c tmp h0 s m" "inj c" "range c = {ks. length ks = keylen geo}"
  shows "if m = Map.empty then bt_height (fst s) = 0 else 2 ^ bt_height (fst s) \<le> 2 * card (dom m)"
    and "card (dom (snd s) - dom h0) \<le> card (dom m)"
proof -
  obtain A C where r: "btree_repr geo (snd s) (fst s) A C" "heap_frame h0 {} (snd s) A" "m = map_of C \<circ> c"
    using assms(2) unfolding holds_def by blast
  have keys: "c ` dom m = fst ` set C"
  proof
    show "c ` dom m \<subseteq> fst ` set C" using r(3) by (auto dest!: map_of_SomeD intro: rev_image_eqI)
    show "fst ` set C \<subseteq> c ` dom m"
    proof
      fix ks assume ks: "ks \<in> fst ` set C"
      then have "length ks = keylen geo" using geometry.repr_entries(1) [OF assms(1) r(1)] by blast
      then obtain k where k: "ks = c k" using assms(4) by blast
      have "map_of C ks \<noteq> None" using ks by (simp add: map_of_eq_None_iff)
      then show "ks \<in> c ` dom m" using k r(3) by auto
    qed
  qed
  have "card (dom m) = card (fst ` set C)" unfolding keys [symmetric] by (rule card_image [symmetric]) (rule inj_on_subset [OF assms(3)], simp)
  also have "\<dots> = length C" using desc_distinct [OF repr_desc [OF r(1)]] distinct_card [of "map fst C"] by simp
  finally have n: "card (dom m) = length C" .
  show "if m = Map.empty then bt_height (fst s) = 0 else 2 ^ bt_height (fst s) \<le> 2 * card (dom m)"
  proof (cases "C = []")
    case True
    then show ?thesis using r(3) repr_nil [OF r(1)] by (simp add: fun_eq_iff)
  next
    case False
    then have "m \<noteq> Map.empty" using keys by auto
    then show ?thesis using repr_height [OF r(1) False] n by simp
  qed
  have "dom (snd s) - dom h0 \<subseteq> A" using r(2) by (auto simp: heap_frame_def)
  moreover have "finite A" using repr_finite [OF r(1)] .
  ultimately have "card (dom (snd s) - dom h0) \<le> card A" by (intro card_mono)
  then show "card (dom (snd s) - dom h0) \<le> card (dom m)" using repr_nodes [OF r(1)] n by simp
qed

lemma typed_functions:
  "btree_lookupl tmp = (\<lambda>k. lookup_key tmp btree_geo32 (one_long k))"
  "btree_insertl tmp alloc = (\<lambda>k v. insert_key tmp alloc btree_geo32 (one_long k) v)"
  "btree_removel tmp = (\<lambda>k. remove_key tmp btree_geo32 (one_long k))"
  "btree_lookup64 tmp = (\<lambda>k. lookup_key tmp btree_geo64 (one_long k))"
  "btree_insert64 tmp alloc = (\<lambda>k v. insert_key tmp alloc btree_geo64 (one_long k) v)"
  "btree_remove64 tmp = (\<lambda>k. remove_key tmp btree_geo64 (one_long k))"
  "(\<lambda>k. btree_lookup128 tmp (fst k) (snd k)) = (\<lambda>k. lookup_key tmp btree_geo128 (two_longs k))"
  "(\<lambda>k. btree_insert128 tmp alloc (fst k) (snd k)) = (\<lambda>k v. insert_key tmp alloc btree_geo128 (two_longs k) v)"
  "(\<lambda>k. btree_remove128 tmp (fst k) (snd k)) = (\<lambda>k. remove_key tmp btree_geo128 (two_longs k))"
  by (simp_all add: fun_eq_iff one_long_def two_longs_def btree_lookupl_def btree_insertl_def btree_removel_def
    btree_lookup64_def btree_insert64_def btree_remove64_def btree_lookup128_def btree_insert128_def btree_remove128_def)

interpretation btl: dictionary "tree_rep alloc btree_geo32 one_long tmp h0" "btree_lookupl tmp" "btree_insertl tmp alloc" "btree_removel tmp"
  unfolding typed_functions by (rule geo32.tree_dictionary [OF key_codes(1)]) (rule key_codes)

interpretation bt64: dictionary "tree_rep alloc btree_geo64 one_long tmp h0" "btree_lookup64 tmp" "btree_insert64 tmp alloc" "btree_remove64 tmp"
  unfolding typed_functions by (rule geo64.tree_dictionary [OF key_codes(1)]) (rule key_codes)

interpretation bt128: dictionary "tree_rep alloc btree_geo128 two_longs tmp h0" "\<lambda>k. btree_lookup128 tmp (fst k) (snd k)"
    "\<lambda>k. btree_insert128 tmp alloc (fst k) (snd k)" "\<lambda>k. btree_remove128 tmp (fst k) (snd k)"
  unfolding typed_functions by (rule geo128.tree_dictionary [OF key_codes(2)]) (rule key_codes)

lemma holds_last64:
  assumes "holds btree_geo64 one_long tmp h0 s m"
  shows "if dom m = {} then btree_last64 s = Some 0 else \<exists>k \<in> dom m. btree_last64 s = Some k \<and> (\<forall>k' \<in> dom m. k' \<le> k)"
proof -
  obtain A C where r: "btree_repr btree_geo64 (snd s) (fst s) A C" "m = map_of C \<circ> one_long" using assms unfolding holds_def by blast
  note la = geo64.repr_last [OF r(1)]
  show ?thesis
  proof (cases C)
    case Nil
    then show ?thesis using la r(2) by (simp add: btree_last64_def dom_def comp_def)
  next
    case (Cons e C')
    have "length (fst e) = 1" using geo64.repr_entries(1) [OF r(1), of e] Cons by (simp add: btree_geo64_def)
    then obtain k where k: "fst e = one_long k" by (auto simp: length_Suc_conv one_long_def)
    obtain p where p: "btree_last (fst s) btree_geo64 (snd s) = Some (Some p)" "key_at btree_geo64 (snd s) p (fst e)" using la Cons by auto
    have "ld (kadd p 0) (snd s) = Some (fst e ! 0)" by (rule key_at_ld [OF p(2)]) (simp add: btree_geo64_def)
    then have "btree_last64 s = Some k" using p(1) k by (simp add: btree_last64_def kadd_def one_long_def)
    moreover have "m k = Some (snd e)" using r(2) Cons k by (cases e) simp
    then have "k \<in> dom m" by blast
    moreover have "k' \<le> k" if k': "k' \<in> dom m" for k'
    proof -
      obtain v where "map_of C (one_long k') = Some v" using k' r(2) by auto
      then have "(one_long k', v) \<in> set C" by (rule map_of_SomeD)
      then have "one_long k' \<le> one_long k" using repr_desc [OF r(1)] Cons k by auto
      then show ?thesis by (auto simp: one_long_def)
    qed
    ultimately show ?thesis by auto
  qed
qed

interpretation bt64: ordered_dictionary "tree_rep alloc btree_geo64 one_long tmp h0" "btree_lookup64 tmp" "btree_insert64 tmp alloc"
    "btree_remove64 tmp" btree_last64
  by unfold_locales (unfold tree_rep_def, elim conjE, rule holds_last64)

lemma geo_cases: "geo \<in> {btree_geo32, btree_geo64, btree_geo128} \<Longrightarrow> geometry geo"
  using geo32.geometry_axioms geo64.geometry_axioms geo128.geometry_axioms by auto

end
