(* ===== verification/Btree_Laws.thy ===== *)
theory Btree_Laws
  imports Btree_Dict
begin

text \<open>
  The properties of the B+ tree: histories of the typed functions, the functions of
  \<^verbatim>\<open>lib_btree/btree.c\<close> as operations on a finite map that touch nothing but the nodes, the size,
  and what removing a missing key of zeros does.
\<close>

section \<open>A tree of one leaf\<close>

lemma leaf_repr:
  assumes "geometry geo" "a \<noteq> 0" "entries_ok geo C" "C \<noteq> []" "sorted_wrt (\<lambda>x y. fst y < fst x) C"
  shows "btree_repr geo (h(a \<mapsto> node_block geo C)) \<lparr>bt_node = a, bt_height = 1\<rparr> {a} C"
proof -
  let ?es = "map (\<lambda>e. (fst e, snd e, {})) C :: gpair list"
  have st: "map strip ?es = C" by (simp add: strip_def comp_def)
  have "separated ?es" using assms(5) by (simp add: separated_def sorted_wrt_map)
  moreover have "tree_at geo (h(a \<mapsto> node_block geo C)) \<lparr>bt_node = a, bt_height = 1\<rparr> 1 [[(a, ?es)]]"
    using assms(2,3) st by (simp add: tree_at_def)
  ultimately have "btree_repr geo (h(a \<mapsto> node_block geo C)) \<lparr>bt_node = a, bt_height = 1\<rparr> (set (node_addrs [[(a, ?es)]]))
      (map strip (entries_of [(a, ?es)]))"
    by (intro repr_tree) (use assms(4) in \<open>simp_all add: Suc_le_eq\<close>)
  then show ?thesis using st by simp
qed

lemma zeros_least: "(ks :: u64 list) \<noteq> replicate (length ks) 0 \<Longrightarrow> replicate (length ks) 0 < ks"
proof (induction ks)
  case (Cons k ks)
  then show ?case by (cases "k = 0") (auto simp: word_gt_0)
qed simp

text \<open>
  In a leaf that is the root and has room the key of zeros is equal to the key of the first unused
  pair, so the search for a missing key of zeros ends there, and the pair before it is cleared.
\<close>

lemma remove_zeros_leaf:
  assumes "geometry geo" and n: "node_at geo h a es" and len: "2 \<le> length es" "length es < no_pairs geo"
    and z: "\<forall>e \<in> set es. replicate (keylen geo) 0 < fst e" and k: "key_at geo h p (replicate (keylen geo) 0)" and a: "a \<noteq> 0"
  shows "btree_remove \<lparr>bt_node = a, bt_height = 1\<rparr> geo p h =
    Some (0, \<lparr>bt_node = a, bt_height = 1\<rparr>, h(a \<mapsto> node_block geo (butlast es)))"
proof -
  let ?n = "length es" let ?head = "\<lparr>bt_node = a, bt_height = 1\<rparr>" let ?h = "h(a \<mapsto> node_block geo (butlast es))"
  have f: "find_level ?head geo p 1 h = Some (a, h)" using a by (simp add: find_level_def)
  have tw: "takeWhile (\<lambda>e. replicate (keylen geo) 0 < fst e) es = es" using z by (simp only: takeWhile_eq_all_conv)
  have gp: "getpos geo a p h = Some ?n" using geometry.getpos_node [OF assms(1) n k] unfolding tw .
  have gf: "getfill geo a ?n h = Some ?n" using geometry.getfill_node [OF assms(1) n] by simp
  have kc: "keycmp geo a ?n p h = Some 0" using geometry.node_at_keycmp_zero [OF assms(1) n k _ len(2)] by (simp add: order_of_def)
  have v: "bval geo a ?n h = Some 0" using geometry.node_at_zero [OF assms(1) n _ len(2)] by simp
  obtain j where j: "?n = Suc j" using len(1) by (cases ?n) auto
  have "for_up j (length es) (clearpair geo a) h = Some (h(a \<mapsto> node_block geo (take j es)))"
    by (rule geometry.clear_node [OF assms(1) n]) (use j in simp)
  then have "clearpair geo a j h = Some ?h" using j by (simp add: for_up_def butlast_conv_take)
  then have rp: "remove_pair geo a ?n ?n h = Some ?h" using j by (simp add: remove_pair_def)
  have "btree_shrink ?head geo (?n - 1) ?h = Some (?head, ?h)" using len(1) by (simp add: btree_shrink_def)
  then show ?thesis using f gp gf kc v rp by (simp add: btree_remove_def) (subst btree_remove_level.simps, simp)
qed

text \<open>A visit with keys of 64 bits calls back with the pairs themselves.\<close>

lemma those_map: "list_all2 (\<lambda>x y. f x = Some y) xs ys \<Longrightarrow> those (map f xs) = Some ys"
  by (induction rule: list_all2_induct) simp_all

lemma visitor64_calls:
  assumes "calls_for btree_geo64 h n calls C"
  shows "those (map (visitor64 h) calls) = Some (map2 (\<lambda>e i. (snd e, hd (fst e), i)) C [n..<n + length C])"
  using assms
proof (induction calls arbitrary: n C)
  case Nil
  then show ?case by (simp add: calls_for_def)
next
  case (Cons c calls)
  obtain v p i where c: "c = (v, p, i)" by (cases c)
  from Cons.prems obtain e C' where C: "C = e # C'" by (cases C) (auto simp: calls_for_def)
  from Cons.prems have "key_at btree_geo64 h p (fst e)" and k: "v = snd e" "i = n" "calls_for btree_geo64 h (Suc n) calls C'"
    unfolding c C by simp_all
  then obtain x where "fst e = [x]" "ld (kadd p 0) h = Some x"
    using key_at_length [of btree_geo64 h p "fst e"] key_at_ld [of btree_geo64 h p "fst e" 0]
    by (auto simp: btree_geo64_def length_Suc_conv)
  then show ?case using Cons.IH [OF k(3)] k(1,2) unfolding c C
    by (simp add: visitor64_def kadd_def upt_conv_Cons del: upt_Suc)
qed

lemma btree_visitor64_pairs:
  assumes "btree_repr btree_geo64 h head A C"
  shows "btree_visitor64 (head, h) = Some (map2 (\<lambda>e i. (snd e, hd (fst e), i)) C [0..<length C], length C)"
  using geo64.repr_visitor(1) [OF assms] visitor64_calls
  by (auto simp: btree_visitor64_def typed_visit_def)

text \<open>The functions for keys of 32 bits read behind their argument as soon as the tree has an entry.\<close>

lemma btree_lookup32_overreads:
  assumes "btree_repr btree_geo32 h head A C" "C \<noteq> []"
  shows "btree_lookup32 tmp key (head, h) = None"
proof -
  have "bt_node head \<noteq> 0" using repr_node [OF assms(1)] assms(2) by blast
  have ht: "bt_height head \<noteq> 0" using assms by (cases rule: repr_cases) (auto dest: tree_at_height)
  have N: "keylen btree_geo32 = Suc 0" "0 < no_pairs btree_geo32" by (simp_all add: btree_geo32_def node_longs_def)
  have k: "keycmp btree_geo32 a i (tmp, 0) (h(tmp \<mapsto> [])) = None" for a i
    by (cases "ld (kadd (bkey btree_geo32 a i) 0) (h(tmp \<mapsto> []))")
      (simp_all add: keycmp_def longcmp_def N kadd_def ld_def load_def)
  have "getpos btree_geo32 a (tmp, 0) (h(tmp \<mapsto> [])) = None" for a
    unfolding getpos_def by (subst getpos_from.simps) (simp add: N k)
  moreover have "lookup_leaf btree_geo32 a (tmp, 0) 0 (h(tmp \<mapsto> [])) = None" for a
    by (subst lookup_leaf.simps) (simp add: N k)
  ultimately have "lookup_down btree_geo32 (tmp, 0) n (bt_node head) (h(tmp \<mapsto> [])) = None" for n
    using \<open>bt_node head \<noteq> 0\<close> by (cases n) simp_all
  then show ?thesis using ht by (simp add: btree_lookup32_def lookup_key_def with_local_def btree_lookup_def)
qed

text \<open>
  The loop of \<^verbatim>\<open>btree_test/main.c\<close> does not look at the results of the insertions: the tree holds
  those of the 100 pairs whose insertion has found memory, and the last line prints the largest index.
\<close>

lemma btree_test_stores:
  assumes "fresh_alloc alloc" "h tmp = None" "length ps = 100" "0 \<notin> set ps"
  shows "\<exists>s m. btree_test_fill tmp alloc ps (btree_init, h) = Some s \<and> m \<subseteq>\<^sub>m map_of (zip (map of_nat [0..<100]) ps) \<and>
    (\<forall>k. btree_lookup64 tmp k s = Some (case m k of None \<Rightarrow> 0 | Some v \<Rightarrow> v)) \<and>
    (if dom m = {} then btree_last64 s = Some 0 else \<exists>k \<in> dom m. btree_last64 s = Some k \<and> (\<forall>k' \<in> dom m. k' \<le> k))"
proof -
  let ?kvs = "zip (map of_nat [0..<100]) ps :: (u64 \<times> u64) list"
  have r: "tree_rep alloc btree_geo64 one_long tmp h (btree_init, h) Map.empty"
    using assms(1,2) geo64.holds_init unfolding tree_rep_def by blast
  have "map fst ?kvs = map of_nat [0..<100]" using assms(3) by (simp only: map_fst_zip length_map length_upt diff_zero)
  moreover have "distinct (map of_nat [0..<100] :: u64 list)" unfolding distinct_map
    by (auto simp: inj_on_def word_of_nat_eq_iff take_bit_nat_eq_self)
  ultimately have "distinct (map fst ?kvs)" by simp
  moreover have "\<forall>kv \<in> set ?kvs. Map.empty (fst kv) = (None :: u64 option) \<and> snd kv \<noteq> 0"
    using assms(4) by (auto dest: set_zip_rightD)
  ultimately obtain s m where s: "insert_all (btree_insert64 tmp alloc) ?kvs (btree_init, h) = Some s"
    "tree_rep alloc btree_geo64 one_long tmp h s m" "m \<subseteq>\<^sub>m Map.empty ++ map_of ?kvs"
    using bt64.insert_all_rep [OF r] by blast
  have "m \<subseteq>\<^sub>m map_of ?kvs" using s(3) by simp
  then show ?thesis unfolding btree_test_fill_def using s(1) bt64.lookup_law [OF s(2)] bt64.last_law [OF s(2)] by blast
qed

text \<open>A first insertion, with an allocator of one block\<close>

lemma first_call:
  "\<exists>s. btree_insert64 100 (\<lambda>h. if h 1 = None then 1 else 0) 5 7 (btree_init, Map.empty) = Some (0, s) \<and>
    reached (btree_insert64 100 (\<lambda>h. if h 1 = None then 1 else 0)) (btree_remove64 100) (btree_init, Map.empty) s [5 \<mapsto> 7]"
proof -
  let ?al = "\<lambda>h :: bheap. if h 1 = None then (1 :: u64) else 0"
  have al: "fresh_alloc ?al" by (simp add: fresh_alloc_def)
  have k: "key_at btree_geo64 [100 \<mapsto> [5]] (100, 0) [5]" by (simp add: key_at_def btree_geo64_def)
  have "btree_insert ?al btree_init btree_geo64 (100, 0) 7 [100 \<mapsto> [5]] =
      Some (0, btree_init\<lparr>bt_node := 1, bt_height := 1\<rparr>, [100 \<mapsto> [5], 1 \<mapsto> node_block btree_geo64 [([5], 7)]])"
    using geo64.first_insert [of btree_init "[100 \<mapsto> [5]]" "(100, 0)" "[5]" 7 ?al, OF _ _ k _ al] by (simp add: btree_insert_def btree_init_def)
  then obtain s where s: "btree_insert64 100 ?al 5 7 (btree_init, Map.empty) = Some (0, s)"
    by (auto simp: btree_insert64_def insert_key_def with_local_def)
  have "reached (btree_insert64 100 ?al) (btree_remove64 100) (btree_init, Map.empty) s (if (0 :: int) = 0 then [5 \<mapsto> 7] else Map.empty)"
    by (rule reached.inserted [where s = "(btree_init, Map.empty)" and k = 5 and v = 7]) (rule reached.start, simp_all add: s)
  then have "reached (btree_insert64 100 ?al) (btree_remove64 100) (btree_init, Map.empty) s [5 \<mapsto> 7]" by simp
  then show ?thesis using s by blast
qed

section \<open>Properties\<close>

text \<open>
  C15. Whatever a client of the functions for keys of 64 bits does that keeps to the rules: every
  lookup answers with the value of the key, or 0 when there is none, \<^verbatim>\<open>btree_last64\<close> with the
  largest key, an insertion succeeds or returns \<open>-ENOMEM\<close>, a removal returns the value, and when
  the tree is empty the memory is what it was before the first call.
\<close>

theorem btree64_history:
  assumes "fresh_alloc alloc" "h tmp = None" "reached (btree_insert64 tmp alloc) (btree_remove64 tmp) (btree_init, h) s m"
  shows "(\<forall>k. btree_lookup64 tmp k s = Some (case m k of None \<Rightarrow> 0 | Some v \<Rightarrow> v)) \<and>
    btree_last64 s = Some (if m = Map.empty then 0 else Max (dom m)) \<and>
    (\<forall>k v. m k = None \<longrightarrow> v \<noteq> 0 \<longrightarrow> (\<exists>err s'. btree_insert64 tmp alloc k v s = Some (err, s') \<and> err \<in> {0, - ENOMEM})) \<and>
    (\<forall>k v. m k = Some v \<longrightarrow> (\<exists>s'. btree_remove64 tmp k s = Some (v, s'))) \<and>
    (m = Map.empty \<longrightarrow> snd s = h)"
proof (intro conjI allI impI)
  have r: "tree_rep alloc btree_geo64 one_long tmp h s m"
    using bt64.reached_rep [OF assms(3)] assms(1,2) geo64.holds_init unfolding tree_rep_def by blast
  show "btree_lookup64 tmp k s = Some (case m k of None \<Rightarrow> 0 | Some v \<Rightarrow> v)" for k by (rule bt64.lookup_law [OF r])
  show "\<exists>err s'. btree_insert64 tmp alloc k v s = Some (err, s') \<and> err \<in> {0, - ENOMEM}" if "m k = None" "v \<noteq> 0" for k v
    using bt64.insert_law [OF r that] by auto
  show "\<exists>s'. btree_remove64 tmp k s = Some (v, s')" if "m k = Some v" for k v using bt64.remove_law [OF r that] by blast
  show "snd s = h" if "m = Map.empty" using r that geo64.holds_empty key_codes(7) unfolding tree_rep_def by blast
  show "btree_last64 s = Some (if m = Map.empty then 0 else Max (dom m))"
  proof (cases "m = Map.empty")
    case False
    then have "dom m \<noteq> {}" by auto
    then obtain k where k: "k \<in> dom m" "btree_last64 s = Some k" "\<forall>k' \<in> dom m. k' \<le> k" using bt64.last_law [OF r] by auto
    have "Max (dom m) = k" by (rule Max_eqI) (use k in auto)
    then show ?thesis using False k(2) by simp
  qed (use bt64.last_law [OF r] in simp)
qed


text \<open>Inserting 5 and asking for it\<close>

theorem btree64_history_witness:
  "\<exists>s. btree_insert64 100 (\<lambda>h. if h 1 = None then 1 else 0) 5 7 (btree_init, Map.empty) = Some (0, s) \<and>
    btree_lookup64 100 5 s = Some 7 \<and> btree_last64 s = Some 5"
proof -
  let ?al = "\<lambda>h :: bheap. if h 1 = None then (1 :: u64) else 0"
  have al: "fresh_alloc ?al" by (simp add: fresh_alloc_def)
  obtain s where s: "btree_insert64 100 ?al 5 7 (btree_init, Map.empty) = Some (0, s)"
    "reached (btree_insert64 100 ?al) (btree_remove64 100) (btree_init, Map.empty) s [5 \<mapsto> 7]" using first_call by blast
  from btree64_history [OF al _ s(2)] s(1) show ?thesis by auto
qed

text \<open>
  C16. \<^verbatim>\<open>btree_insert\<close> of a new key and a non-null value, with keys of one or two longs, returns. Either
  it returns 0 and the tree holds the map with the new entry, or \<open>-ENOMEM\<close> and it holds the old one;
  new nodes were free memory, and nothing else in memory is changed, so no node is lost.
\<close>

theorem btree_insert_refines:
  assumes "geo \<in> {btree_geo32, btree_geo64, btree_geo128}" "btree_repr geo h head A C" "key_at geo h p k" "fst p \<notin> A"
    and "map_of C k = None" "v \<noteq> 0" "fresh_alloc alloc"
  shows "\<exists>err head' h' A' C'. btree_insert alloc head geo p v h = Some (err, head', h') \<and> btree_repr geo h' head' A' C' \<and>
    heap_frame h A h' A' \<and> (err = 0 \<and> map_of C' = (map_of C)(k \<mapsto> v) \<or> err = - ENOMEM \<and> C' = C)"
  by (rule geometry.repr_insert [OF geo_cases [OF assms(1)] assms(2-4,6,5,7)])

text \<open>A tree with one pair, and a key beside it\<close>

definition demo_heap :: bheap where
  "demo_heap = [2 \<mapsto> [3], 1 \<mapsto> node_block btree_geo64 [([5], 7)]]"

lemma demo_repr: "btree_repr btree_geo64 demo_heap \<lparr>bt_node = 1, bt_height = 1\<rparr> {1} [([5], 7)]"
  unfolding demo_heap_def by (rule leaf_repr [OF geo_cases]) (simp_all add: btree_geo64_def node_longs_def flip: numeral_2_eq_2)

lemma demo_key: "key_at btree_geo64 demo_heap (2, 0) [3]"
  by (simp add: key_at_def demo_heap_def btree_geo64_def)

theorem btree_insert_refines_witness:
  "\<exists>err head' h' A' C'. btree_insert (\<lambda>h. 0) \<lparr>bt_node = 1, bt_height = 1\<rparr> btree_geo64 (2, 0) 9 demo_heap = Some (err, head', h') \<and>
    btree_repr btree_geo64 h' head' A' C' \<and> heap_frame demo_heap {1} h' A' \<and>
    (err = 0 \<and> map_of C' = [[5] \<mapsto> 7, [3] \<mapsto> 9] \<or> err = - ENOMEM \<and> C' = [([5], 7)])"
  using btree_insert_refines [OF _ demo_repr demo_key, of 9 "\<lambda>h. 0"] by (simp add: fresh_alloc_def)

text \<open>
  C17. \<^verbatim>\<open>btree_remove\<close> of a key of the tree returns its value, and the tree holds the map without it;
  every node that the tree gives up is free memory, and nothing else in memory is changed.
\<close>

theorem btree_remove_refines:
  assumes "geo \<in> {btree_geo32, btree_geo64, btree_geo128}" "btree_repr geo h head A C" "key_at geo h p k" "fst p \<notin> A"
    and "map_of C k = Some v"
  shows "\<exists>head' h' A' C'. btree_remove head geo p h = Some (v, head', h') \<and> btree_repr geo h' head' A' C' \<and>
    heap_frame h A h' A' \<and> map_of C' = (map_of C)(k := None) \<and> length C = Suc (length C')"
  by (rule geometry.repr_remove [OF geo_cases [OF assms(1)] assms(2-5)])

theorem btree_remove_refines_witness:
  "\<exists>head' h' A' C'. btree_remove \<lparr>bt_node = 1, bt_height = 1\<rparr> btree_geo64 (2, 0) (demo_heap(2 \<mapsto> [5])) = Some (7, head', h') \<and>
    btree_repr btree_geo64 h' head' A' C' \<and> C' = []"
proof -
  have "btree_repr btree_geo64 (demo_heap(2 \<mapsto> [5])) \<lparr>bt_node = 1, bt_height = 1\<rparr> {1} [([5], 7)]"
    by (rule repr_other [OF demo_repr]) simp
  moreover have "key_at btree_geo64 (demo_heap(2 \<mapsto> [5])) (2, 0) [5]" by (simp add: key_at_def btree_geo64_def)
  ultimately show ?thesis using btree_remove_refines [of btree_geo64 _ _ "{1}" "[([5], 7)]" "(2, 0)" "[5]" 7] by fastforce
qed

text \<open>
  C18. \<^verbatim>\<open>btree_merge\<close> of two trees with different keys returns. Both trees together hold the same pairs
  as before, all of them in the target and none in the victim unless an insertion has found no
  memory; besides the nodes only the block for the duplicate of the key changes.
\<close>

theorem btree_merge_moves:
  assumes "geo \<in> {btree_geo32, btree_geo64, btree_geo128}" "two_trees geo h d t A C t' A' C'" "fresh_alloc alloc"
    and "key_at geo h (d, i) k0"
  shows "\<exists>err t1 t2 h' A1 C1 A2 C2. btree_merge alloc t t' geo (d, i) h = Some (err, t1, t2, h') \<and>
    two_trees geo h' d t1 A1 C1 t2 A2 C2 \<and> heap_frame h (insert d (A \<union> A')) h' (insert d (A1 \<union> A2)) \<and>
    map_of C1 ++ map_of C2 = map_of C ++ map_of C' \<and> (err = 0 \<and> C2 = [] \<or> err = - ENOMEM)"
  using geometry.merge_repr [OF geo_cases [OF assms(1)] assms(2-4)] unfolding merged_def by blast

theorem btree_merge_moves_witness:
  "\<exists>err t1 t2 h' A1 C1 A2 C2. btree_merge (\<lambda>h. 0) \<lparr>bt_node = 1, bt_height = 1\<rparr> \<lparr>bt_node = 3, bt_height = 1\<rparr> btree_geo64 (2, 0)
      (demo_heap(3 \<mapsto> node_block btree_geo64 [([6], 8)])) = Some (err, t1, t2, h') \<and>
    two_trees btree_geo64 h' 2 t1 A1 C1 t2 A2 C2 \<and> map_of C1 ++ map_of C2 = [[5] \<mapsto> 7, [6] \<mapsto> 8]"
proof -
  let ?h = "demo_heap(3 \<mapsto> node_block btree_geo64 [([6], 8)])"
  have "btree_repr btree_geo64 ?h \<lparr>bt_node = 1, bt_height = 1\<rparr> {1} [([5], 7)]" by (rule repr_other [OF demo_repr]) simp
  moreover have "btree_repr btree_geo64 ?h \<lparr>bt_node = 3, bt_height = 1\<rparr> {3} [([6], 8)]"
    by (rule leaf_repr [OF geo_cases]) (simp_all add: btree_geo64_def node_longs_def flip: numeral_2_eq_2)
  ultimately have "two_trees btree_geo64 ?h 2 \<lparr>bt_node = 1, bt_height = 1\<rparr> {1} [([5], 7)] \<lparr>bt_node = 3, bt_height = 1\<rparr> {3} [([6], 8)]"
    by (simp add: two_trees_def)
  moreover have "key_at btree_geo64 ?h (2, 0) [3]" using demo_key by (rule key_at_other) simp
  moreover have "fresh_alloc (\<lambda>h. 0)" by (simp add: fresh_alloc_def)
  moreover have "map_of [([5], 7)] ++ map_of [([6], 8)] = [[5 :: u64] \<mapsto> 7 :: u64, [6] \<mapsto> 8]" by simp
  ultimately show ?thesis
    using btree_merge_moves [of btree_geo64 ?h 2 _ "{1}" "[([5], 7)]" _ "{3}" "[([6], 8)]" "\<lambda>h. 0" 0 "[3]"] by (metis insertCI)
qed

text \<open>
  C19. The visitors call back once for every pair, in descending order of the keys, with the value, a
  pointer to the key and the running index, and return the number of pairs; the grim visitor also
  frees every node of the tree, frees none twice, and leaves the tree empty.
\<close>

theorem btree_visitors_visit:
  assumes "geo \<in> {btree_geo32, btree_geo64, btree_geo128}" "btree_repr geo h head A C"
  shows "(\<exists>calls. btree_visitor head geo h = Some (calls, length C) \<and> calls_for geo h 0 calls C) \<and>
    (\<exists>calls. btree_grim_visitor head geo h = Some (calls, length C, btree_init, (\<lambda>b. if b \<in> A then None else h b)) \<and>
       calls_for geo h 0 calls C) \<and> sorted_wrt (\<lambda>x y. fst y < fst x) C"
  using geometry.repr_visitor [OF geo_cases [OF assms(1)] assms(2)] repr_desc [OF assms(2)] by (simp add: reaped_def)

theorem btree_visitors_visit_witness:
  "\<exists>p. btree_visitor \<lparr>bt_node = 1, bt_height = 1\<rparr> btree_geo64 demo_heap = Some ([(7, p, 0)], 1) \<and> key_at btree_geo64 demo_heap p [5]"
  using btree_visitors_visit [OF _ demo_repr] by (auto simp: calls_for_def list_all2_Cons2)

text \<open>
  C20. However the tree has come about by insertions and removals of \<^verbatim>\<open>btree_insert64\<close> and
  \<^verbatim>\<open>btree_remove64\<close>, its height, and with it the number of nodes that a lookup reads, is at most
  logarithmic in the number of keys, and it never occupies more blocks of memory than it has keys.
\<close>

theorem btree64_size:
  assumes "fresh_alloc alloc" "h tmp = None" "reached (btree_insert64 tmp alloc) (btree_remove64 tmp) (btree_init, h) s m"
  shows "(if m = Map.empty then bt_height (fst s) = 0 else 2 ^ bt_height (fst s) \<le> 2 * card (dom m)) \<and>
    card (dom (snd s) - dom h) \<le> card (dom m)"
proof -
  have "tree_rep alloc btree_geo64 one_long tmp h s m"
    using bt64.reached_rep [OF assms(3)] assms(1,2) geo64.holds_init unfolding tree_rep_def by blast
  then have "holds btree_geo64 one_long tmp h s m" by (simp add: tree_rep_def)
  note size = holds_size [OF geo64.geometry_axioms this key_codes(1,7)]
  show ?thesis using size(1) size(2) by (rule conjI)
qed

text \<open>Inserting 5\<close>

theorem btree64_size_witness:
  "\<exists>s. btree_insert64 100 (\<lambda>h. if h 1 = None then 1 else 0) 5 7 (btree_init, Map.empty) = Some (0, s) \<and>
    2 ^ bt_height (fst s) \<le> (2 :: nat) \<and> card (dom (snd s)) \<le> 1"
proof -
  let ?al = "\<lambda>h :: bheap. if h 1 = None then (1 :: u64) else 0"
  obtain s where s: "btree_insert64 100 ?al 5 7 (btree_init, Map.empty) = Some (0, s)"
    "reached (btree_insert64 100 ?al) (btree_remove64 100) (btree_init, Map.empty) s [5 \<mapsto> 7]" using first_call by blast
  from btree64_size [OF _ _ s(2)] s(1) show ?thesis by (auto simp: fresh_alloc_def)
qed

text \<open>
  C21. \<^verbatim>\<open>btree_remove\<close> of a missing key of zeros: in a tree of one leaf with two pairs at least and room
  for another, the comparison meets the first unused pair and finds it equal. The call returns the
  null pointer, as for any missing key, but the pair with the smallest key is gone.
\<close>

theorem btree_remove_zero_key:
  assumes "geo \<in> {btree_geo32, btree_geo64, btree_geo128}" "btree_repr geo h head A C" "bt_height head = 1"
    and "2 \<le> length C" "length C < no_pairs geo" "key_at geo h p (replicate (keylen geo) 0)" "map_of C (replicate (keylen geo) 0) = None"
  shows "\<exists>h'. btree_remove head geo p h = Some (0, head, h') \<and> btree_repr geo h' head A (butlast C)"
  using assms(2)
proof (cases rule: repr_cases)
  case (tree l us)
  note g = geo_cases [OF assms(1)]
  have us: "us = []" using tree_at_height [OF tree(1)] assms(3) by simp
  then obtain a es where l: "l = [(a, es)]" using tree(2) by (auto simp: length_Suc_conv)
  have hd: "head = \<lparr>bt_node = a, bt_height = 1\<rparr>" and a: "a \<noteq> 0" and n: "node_at geo h a C"
    using tree(1,6) us l assms(3) by (auto simp: tree_at_def)
  have "replicate (keylen geo) 0 < fst e" if e: "e \<in> set C" for e
  proof -
    have "fst e \<noteq> replicate (keylen geo) 0" using assms(7) e by (metis map_of_eq_None_iff image_eqI)
    then show ?thesis using zeros_least [of "fst e"] geometry.repr_entries(1) [OF g assms(2) e] by simp
  qed
  then have r: "btree_remove head geo p h = Some (0, head, h(a \<mapsto> node_block geo (butlast C)))"
    unfolding hd using remove_zeros_leaf [OF g n assms(4,5) _ assms(6) a] by blast
  have "sorted_wrt (\<lambda>x y. fst y < fst x) (butlast C)" using repr_desc [OF assms(2)] by (simp add: butlast_conv_take sorted_wrt_take)
  moreover have "entries_ok geo (butlast C)" using geometry.node_atD(3) [OF g n] by (auto simp: entries_ok_def dest: in_set_butlastD)
  moreover have "butlast C \<noteq> []" using assms(4) by (cases C rule: rev_cases) auto
  ultimately have "btree_repr geo (h(a \<mapsto> node_block geo (butlast C))) head {a} (butlast C)"
    unfolding hd using leaf_repr [OF g a] by blast
  moreover have "A = {a}" using tree(5) us l by simp
  ultimately show ?thesis using r by blast
qed (use assms in simp)

theorem btree_remove_zero_key_witness:
  "\<exists>h'. btree_remove \<lparr>bt_node = 1, bt_height = 1\<rparr> btree_geo64 (2, 0) [2 \<mapsto> [0], 1 \<mapsto> node_block btree_geo64 [([9], 8), ([5], 7)]] =
      Some (0, \<lparr>bt_node = 1, bt_height = 1\<rparr>, h') \<and> btree_repr btree_geo64 h' \<lparr>bt_node = 1, bt_height = 1\<rparr> {1} [([9], 8)]"
proof -
  let ?h = "[2 \<mapsto> [0], 1 \<mapsto> node_block btree_geo64 [([9], 8), ([5], 7)]] :: bheap"
  have "btree_repr btree_geo64 ?h \<lparr>bt_node = 1, bt_height = 1\<rparr> {1} [([9], 8), ([5], 7)]"
    by (rule leaf_repr [OF geo_cases]) (simp_all add: btree_geo64_def node_longs_def flip: numeral_2_eq_2)
  moreover have "key_at btree_geo64 ?h (2, 0) (replicate (keylen btree_geo64) 0)" by (simp add: key_at_def btree_geo64_def)
  ultimately show ?thesis
    using btree_remove_zero_key [of btree_geo64 ?h "\<lparr>bt_node = 1, bt_height = 1\<rparr>" "{1}" "[([9], 8), ([5], 7)]" "(2, 0)"]
    by (simp add: btree_geo64_def node_longs_def flip: numeral_2_eq_2)
qed

end
