(* ===== verification/Spec2Isabelle.thy ===== *)
theory Spec2Isabelle
  imports Crc_Tables TF_Instances TF_Events Payload Base64 Adts Ping Mbuf Radix_Tree Ngx_Queue Ngx_Array Bitrate Alist Rbtree Btree_Laws
begin

text \<open>
  A verification development for the C library collection CommonLib_Linux: the parts of it that
  carry its own data structures, codecs and protocols, translated from the sources and proved
  against abstract specifications. File names are relative to \<^verbatim>\<open>src/\<close>.

  \<^bold>\<open>The program.\<close> The repository is a set of small C libraries and programs that share no state
  with one another. A serial protocol (\<^verbatim>\<open>tinyframe\<close>, with payload helpers in
  \<^verbatim>\<open>tf_demo/utilities\<close>), containers taken over from nginx (\<^verbatim>\<open>struct_data\<close>, \<^verbatim>\<open>data_struct\<close>,
  \<^verbatim>\<open>nginx_module/ngxlib\<close>), a B+ tree (\<^verbatim>\<open>lib_btree\<close>), buffers and lists (\<^verbatim>\<open>common_utils\<close>, \<^verbatim>\<open>test_alist\<close>), meters and
  header codecs (\<^verbatim>\<open>test_bitrate\<close>, \<^verbatim>\<open>aac_parse\<close>) and network programs (\<^verbatim>\<open>linux_net\<close>). The parts
  that work together are the components of TinyFrame, and the array, which allocates from the pool.

  \<^bold>\<open>Conventions.\<close> A C struct is a \<open>record\<close>, a fixed-width integer a word of that width, an enum a
  \<open>datatype\<close>. A function of the source is a function of the model from the state before to the
  state after, paired with the returned value. \<open>None\<close> is the outcome C gives no meaning to: an
  access outside an array, through a pointer to no object, a double free. A theorem that says
  \<open>Some\<close> therefore shows that the call returns and stays inside its objects. Memory that is linked
  through pointers is a map from addresses (\<open>nat\<close>, 0 the null pointer) to nodes, memory that is
  read as bytes is the \<open>pmem\<close> of theory \<^verbatim>\<open>Memory\<close>. What is not in the repository, the
  allocator, callbacks of the user, formatted output and floating point, is an argument of the
  definitions; what is relied on is a hypothesis such as \<open>alloc_ok\<close>. A loop that need not end is a
  \<open>partial_function\<close> into options; every other loop is a function with its measure. No fuel is used.

  \<^bold>\<open>Theories.\<close>
  \<^item> \<^verbatim>\<open>Prelude\<close>: integer types, checked array access, shared lemmas on words and lists.
  \<^item> \<^verbatim>\<open>Checksums\<close>, \<^verbatim>\<open>Crc_Tables\<close>: the checksum triples of \<^verbatim>\<open>tinyframe/TinyFrame.c\<close> behind the
    locale \<open>frame_cksum\<close>; the CRC tables are shown to be the bit-serial algorithm of their
    polynomials, and CRC-32 to see every single damaged byte.
  \<^item> \<^verbatim>\<open>TinyFrame\<close>: the struct \<open>TinyFrame_\<close>, \<open>TF_AcceptChar\<close> state by state, \<open>TF_InitStatic\<close>.
    \<^verbatim>\<open>TF_Listeners\<close>: the three listener tables and \<open>TF_Tick\<close>, refined to multisets of live
    listeners. \<^verbatim>\<open>TF_Transmit\<close>: composing and sending, the transmit lock, multipart frames.
    \<^verbatim>\<open>TF_Receive\<close>: the answers of the parser along whole frames. \<^verbatim>\<open>TF_Instances\<close>: the two static
    instances and the wrappers \<open>tinyFrameInit\<close>, \<open>tinyFramefTx\<close>, \<open>tinyFramefRx\<close>. \<^verbatim>\<open>TF_Events\<close>: all
    interleavings of the operations on one instance as the step relation \<open>tf_run\<close>. The properties
    that join sender and receiver stand in this root theory.
  \<^item> \<^verbatim>\<open>Payload\<close>: the payload builder and parser, with round trips and overrun behaviour.
  \<^item> \<^verbatim>\<open>Base64\<close>: \<^verbatim>\<open>nginx_module/ngxlib/ngx_string.c\<close>. \<^verbatim>\<open>Adts\<close>: \<^verbatim>\<open>aac_parse/adts.c\<close>.
    \<^verbatim>\<open>Ping\<close>: \<^verbatim>\<open>linux_net/ping/ping_api.c\<close> up to the socket calls.
  \<^item> \<^verbatim>\<open>Mbuf\<close>: the growing byte buffer of \<^verbatim>\<open>common_utils/mbuf.c\<close> as a byte sequence.
  \<^item> \<^verbatim>\<open>Radix\<close>, \<^verbatim>\<open>Radix_Correct\<close>, \<^verbatim>\<open>Radix_Tree\<close>: \<^verbatim>\<open>struct_data/ngx_radix_tree\<close> on a heap of nodes,
    refined to a finite map from bit strings, with the nodes that a deletion prunes (\<open>prunes\<close>); the
    interface is the locale \<open>prefix_table\<close>, interpreted for 32-bit and 128-bit keys.
  \<^item> \<^verbatim>\<open>Memory\<close>, \<^verbatim>\<open>Ngx_Pool\<close>, \<^verbatim>\<open>Ngx_Array\<close>: the pool of \<^verbatim>\<open>data_struct/ngx_pool\<close> over a byte memory,
    the locale \<open>block_source\<close> that the array needs of it, and \<^verbatim>\<open>struct_data/ngx_array\<close>.
  \<^item> \<^verbatim>\<open>Ngx_Queue\<close>: the intrusive queue macros and functions of \<^verbatim>\<open>struct_data/ngx_queue\<close>.
  \<^item> \<^verbatim>\<open>Ngx_Rbtree\<close>: the operations of \<^verbatim>\<open>struct_data/ngx_rbtree\<close> on a heap of nodes.
    \<^verbatim>\<open>Rbtree_Shape\<close>: the tree that the links form, as a zipper with the invariants on colours and
    heights, and the rotations as actions on it. \<^verbatim>\<open>Rbtree_Insert\<close>: the walk and the re-balancing
    loop, with the order of the keys as the locale \<open>key_order\<close>, interpreted for plain keys and for
    timers that wrap around. \<^verbatim>\<open>Rbtree_Next\<close>, \<^verbatim>\<open>Rbtree_Fixup\<close>, \<^verbatim>\<open>Rbtree_Delete\<close>: the successor, the
    fixup loop and deletion. \<^verbatim>\<open>Rbtree\<close>: the tree as a sorted list of nodes, and any series of calls.
  \<^item> \<^verbatim>\<open>Btree\<close>: all of \<^verbatim>\<open>lib_btree/btree.c\<close> (the visitors with a callback), on a heap of blocks of longs that holds the nodes and
    the keys of the client; insertion and removal, which call themselves through splitting and
    merging, are partial functions, shown to return for every tree. \<^verbatim>\<open>Btree_Node\<close>, \<^verbatim>\<open>Btree_Ops\<close>:
    a node as a list of pairs and each loop over its slots as an equation on the list, for the
    three key lengths in the locale \<open>geometry\<close>. \<^verbatim>\<open>Btree_Tree\<close>: the levels of a tree, their
    separators and the search. \<^verbatim>\<open>Btree_Add\<close>, \<^verbatim>\<open>Btree_Split\<close>, \<^verbatim>\<open>Btree_Insert\<close>: insertion level by
    level, with stealing, splitting and every failure of the allocator. \<^verbatim>\<open>Btree_Remove\<close>: removal
    with merging. \<^verbatim>\<open>Btree_Search\<close>: lookup, largest key and visitors. \<^verbatim>\<open>Btree_Map\<close>, \<^verbatim>\<open>Btree_Merge\<close>:
    the tree as a finite map and the merge of two. \<^verbatim>\<open>Btree_Dict\<close>: the typed functions of
    \<^verbatim>\<open>lib_btree/btree.h\<close> and the contract of their clients, the locale \<open>dictionary\<close>, interpreted for
    keys of one and of two longs. \<^verbatim>\<open>Btree_Laws\<close>: the properties.
  \<^item> \<^verbatim>\<open>Bitrate\<close>: \<^verbatim>\<open>test_bitrate/src/bitrate_calc.c\<close> as a sliding window. \<^verbatim>\<open>Alist\<close>: the allocation
    list of \<^verbatim>\<open>test_alist/alist.c\<close>, canaries and links kept in the bytes of the blocks.

  \<^bold>\<open>Bounds.\<close> Sizes and counts are kept at their C width; where a sum could wrap, the hypothesis
  that excludes it is part of the statement and is used in the proof. TinyFrame is taken with its
  own configuration (\<^verbatim>\<open>tinyframe/TF_Config.h\<close>): payloads of at most 128 bytes, a 2048-byte transmit
  buffer, ten listeners of each kind. Pointers and \<open>size_t\<close> have 64 bits.

  \<^bold>\<open>Not modelled.\<close> The vendored libraries (SQLite, Mongoose, curl, zlib headers), generated code,
  the upstream copy of TinyFrame in \<^verbatim>\<open>tf_demo\<close> with its demos, and programs that only call the
  operating system (sockets, threads, timers, \<^verbatim>\<open>/proc\<close>) have no logic of their own to state.
  The mutexes around the modelled operations are left out: the models are of one thread.
  Code of its own that is not modelled so far: the static hash (\<^verbatim>\<open>struct_data/ngx_hash\<close>); the log
  library (\<^verbatim>\<open>lib_log\<close>) and the record file (\<^verbatim>\<open>sdb_test/filedb.c\<close>) are formatted output and file
  access throughout; the part list of the module library rests on a pool that the repository does
  not contain.
\<close>

section \<open>Sending and receiving frames\<close>

text \<open>
  C1. A message of 1 to 128 bytes that \<open>TF_Send\<close> writes to the wire is received: the parser
  answers 5 on the header, 6 on every payload byte and 0 on the last byte, and holds the
  sender's ID, type and payload.
\<close>

theorem send_receive_roundtrip:
  assumes tx: "tx_idle tx" "id_table_inv tx" and rx: "rx_ready rx"
    and msg: "msg_data msg = Some data" "data \<noteq> []" "length data \<le> TF_MAX_PAYLOAD_RX"
      "msg_len msg = of_nat (length data)"
  shows "\<exists>tx' m rx'. TF_Send tx msg = Some (tx', m, True) \<and>
    accept_results rx (drop (length (wire tx)) (wire tx')) =
      Some (rx', [1, -2, 2, -3, 3, -4, 4, 5] @ replicate (length data) 6 @ [0]) \<and>
    rx_ready rx' \<and> rx_id rx' = frame_id m \<and> rx_type rx' = msg_type msg \<and>
    unat (rx_len rx') = length data \<and> take (length data) (rx_data rx') = data"
proof -
  have len: "unat (msg_len msg) = length data"
    using msg(3,4) by (simp add: TF_MAX_PAYLOAD_RX_def unat_of_nat take_bit_eq_mod)
  have fits: "listener_fits tx None" by (simp add: listener_fits_def)
  from TF_SendFrame_sends [OF tx fits, of msg 0] msg(1) len obtain tx' where
    send: "TF_Send tx msg = Some (tx', msg\<lparr>frame_id := frame_id_of tx msg\<rparr>, True)"
      "wire tx' = wire tx @ wire_of (frame_id_of tx msg, msg_type msg, data)"
    by (auto simp: TF_Send_def payload_def wire_of_def msg(4))
  have "frame_ok (frame_id_of tx msg, msg_type msg, data)"
    using msg by (simp add: frame_ok_def)
  from accept_wire_of [OF rx this] send show ?thesis
    by (auto simp: received_def answers_def)
qed

lemma unat_u16_less: "unat (w :: u16) < 65536"
  by (rule order_less_le_trans [OF unsigned_less]) simp

lemma unat_payload_length: "n \<le> TF_MAX_PAYLOAD_RX \<Longrightarrow> unat (of_nat n :: u16) = n"
  by (simp add: TF_MAX_PAYLOAD_RX_def unat_of_nat take_bit_eq_mod)

lemma zero_ready: "tx_idle (TF_zero out)" "id_table_inv (TF_zero out)" "rx_ready (TF_zero out)"
  by (simp_all add: tx_idle_def rx_ready_def id_table_inv_zero, simp_all add: TF_zero_def)

theorem send_receive_roundtrip_witness:
  "\<exists>tx' m rx'. TF_Send (TF_zero []) (TF_ClearMsg\<lparr>msg_type := 7, msg_data := Some [1, 2], msg_len := 2\<rparr>) = Some (tx', m, True) \<and>
    accept_results (TF_zero []) (drop 0 (wire tx')) =
      Some (rx', [1, -2, 2, -3, 3, -4, 4, 5, 6, 6, 0]) \<and> take 2 (rx_data rx') = [1, 2]"
  using send_receive_roundtrip [of "TF_zero []" "TF_zero []"
      "TF_ClearMsg\<lparr>msg_type := 7, msg_data := Some [1, 2], msg_len := 2\<rparr>" "[1, 2]"] zero_ready [of "[]"]
  by (auto simp: TF_MAX_PAYLOAD_RX_def numeral_2_eq_2 TF_zero_def)

text \<open>
  C2. \<open>TF_SendFrame\<close> writes exactly one frame, whatever its length against the transmit buffer:
  the wire grows by \<open>frame_bytes\<close>, the lock is free again, and the ID counter moves on unless the
  message is a response.
\<close>

theorem send_frame_wire:
  assumes "tx_idle tf" and "id_table_inv tf" and "listener_fits tf listener"
    and "msg_data msg = Some data" and "length data = unat (msg_len msg)"
  shows "\<exists>tf' m. TF_SendFrame tf msg listener timeout = Some (tf', m, True) \<and>
    wire tf' = wire tf @ frame_bytes (frame_id m) (msg_len msg) (msg_type msg) data \<and>
    tx_idle tf' \<and> id_table_inv tf' \<and>
    next_id tf' = (if is_response msg then next_id tf else next_id tf + 1)"
  using TF_SendFrame_sends [of tf listener msg timeout] assms by (auto simp: payload_def)

theorem send_frame_wire_witness:
  "\<exists>tf' m. TF_SendFrame (TF_zero []) (TF_ClearMsg\<lparr>msg_type := 7, msg_data := Some [1], msg_len := 1\<rparr>) (Some 4) 9
      = Some (tf', m, True) \<and> wire tf' = frame_bytes (frame_id m) 1 7 [1] \<and> next_id tf' = 1"
  using send_frame_wire [of "TF_zero []" "Some 4"
      "TF_ClearMsg\<lparr>msg_type := 7, msg_data := Some [1], msg_len := 1\<rparr>" "[1]" 9] zero_ready [of "[]"]
  by (auto simp: listener_fits_def TF_zero_def TF_MAX_ID_LST_def id_live_def TF_ClearMsg_def)

text \<open>
  C3. A multipart transmission, whose payload arrives in any number of parts, puts the same bytes
  on the wire as one \<open>TF_Send\<close> of the concatenated parts.
\<close>

theorem multipart_equals_send:
  assumes "tx_idle tf" and "id_table_inv tf" and "msg_len msg \<noteq> 0"
    and "length (concat parts) = unat (msg_len msg)"
  shows "map_option wire (multipart_frame tf msg parts) =
    map_option (\<lambda>(t, _, _). wire t) (TF_Send tf (msg\<lparr>msg_data := Some (concat parts)\<rparr>))"
proof -
  let ?m = "msg\<lparr>msg_data := Some (concat parts)\<rparr>"
  have small: "length c < 2 ^ 32" if "c \<in> set parts" for c
  proof -
    have "length c \<le> length (concat parts)"
      using that member_le_sum_list [of "length c" "map length parts"] by (simp add: length_concat)
    also have "\<dots> < 65536" using assms(4) unat_u16_less [of "msg_len msg"] by simp
    finally show ?thesis by simp
  qed
  then have parts: "\<forall>c \<in> set parts. length c < 2 ^ 32" by blast
  have fits: "listener_fits tf None" by (simp add: listener_fits_def)
  have fid: "frame_id_of tf ?m = frame_id_of tf msg" by (simp add: frame_id_of_def)
  from multipart_frame_sends [OF assms(1-3) parts]
    TF_SendFrame_sends [OF assms(1,2) fits, of ?m 0] assms(4)
  show ?thesis by (auto simp: TF_Send_def payload_def fid)
qed

theorem multipart_equals_send_witness:
  "map_option wire (multipart_frame (TF_zero []) (TF_ClearMsg\<lparr>msg_len := 3\<rparr>) [[1], [], [2, 3]]) =
    map_option (\<lambda>(t, _, _). wire t)
      (TF_Send (TF_zero []) (TF_ClearMsg\<lparr>msg_len := 3, msg_data := Some [1, 2, 3]\<rparr>))"
  using multipart_equals_send [of "TF_zero []" "TF_ClearMsg\<lparr>msg_len := 3\<rparr>" "[[1], [], [2, 3]]"]
    zero_ready [of "[]"]
  by simp

text \<open>
  C4. A frame with one damaged payload byte is rejected: the answer to its last byte is -10.
\<close>

theorem damaged_payload_rejected:
  assumes "rx_ready rx" and "b' \<noteq> b" and "length (xs @ b # ys) \<le> TF_MAX_PAYLOAD_RX"
    and "len = of_nat (length (xs @ b # ys))"
  shows "\<exists>rx'. accept_results rx
      (head_bytes fid len ty @ (xs @ b' # ys) @ tail_bytes len (xs @ b # ys)) =
    Some (rx', [1, -2, 2, -3, 3, -4, 4, 5] @ replicate (length (xs @ b # ys)) 6 @ [-10]) \<and> rx_ready rx'"
proof -
  have len: "unat len = length (xs @ b' # ys)"
    using unat_payload_length [OF assms(3)] assms(4) by simp
  then have nz: "len \<noteq> 0" by auto
  have "cksum_of (xs @ b # ys) \<noteq> cksum_of (xs @ b' # ys)"
    using ck_xor.single_byte_detected [of b b' TF_CksumStart xs ys] assms(2)
    by (simp add: cksum_of_def)
  with accept_frame [OF assms(1) len, of fid ty "cksum_of (head_fields fid len ty)" "cksum_of (xs @ b # ys)"]
    assms(3) nz
  show ?thesis by (auto simp: head_bytes_def tail_bytes_def)
qed

theorem damaged_payload_rejected_witness:
  "\<exists>rx'. accept_results (TF_zero []) (head_bytes 3 1 7 @ ([] @ 9 # []) @ tail_bytes 1 ([] @ 1 # [])) =
    Some (rx', [1, -2, 2, -3, 3, -4, 4, 5, 6, -10]) \<and> rx_ready rx'"
  using damaged_payload_rejected [of "TF_zero []" 9 1 "[]" "[]" 1 3 7] zero_ready [of "[]"]
  by (simp add: TF_MAX_PAYLOAD_RX_def)

text \<open>
  C5. A damaged header is not rejected: with a wrong header checksum byte the parser answers -8 to
  that byte, takes the payload as if nothing had happened, and ends with the answer 0 and the
  fields of the damaged header.
\<close>

theorem damaged_header_accepted:
  assumes "rx_ready rx" and "data \<noteq> []" and "length data \<le> TF_MAX_PAYLOAD_RX"
    and "len = of_nat (length data)" and "hc \<noteq> cksum_of (head_fields fid len ty)"
  shows "\<exists>rx'. accept_results rx (head_fields fid len ty @ [hc] @ data @ tail_bytes len data) =
      Some (rx', [1, -2, 2, -3, 3, -4, 4, -8] @ replicate (length data) 6 @ [0]) \<and>
    received rx' fid ty data"
proof -
  have len: "unat len = length data"
    using unat_payload_length [OF assms(3)] assms(4) by simp
  with assms(2) have "len \<noteq> 0" by auto
  with accept_frame [OF assms(1) len assms(2,3), of fid ty hc "cksum_of data"] assms(5)
  show ?thesis by (auto simp: tail_bytes_def)
qed

theorem damaged_header_accepted_witness:
  "\<exists>rx'. accept_results (TF_zero []) (head_fields 3 1 7 @ [0] @ [5] @ tail_bytes 1 [5]) =
      Some (rx', [1, -2, 2, -3, 3, -4, 4, -8] @ replicate 1 6 @ [0]) \<and> received rx' 3 7 [5]"
  using damaged_header_accepted [of "TF_zero []" "[5]" 1 0 3 7] zero_ready [of "[]"]
  by (simp add: TF_MAX_PAYLOAD_RX_def head_fields_def cksum_of_def be16_def TF_CksumAdd_def
      TF_CksumEnd_def TF_CksumStart_def TF_SOF_BYTE_def)

text \<open>
  C6. Whatever happens to an instance after \<open>TF_InitStatic\<close>, in any order, with any received bytes
  and with callbacks that respect the instance: the next operation stays inside every array.
\<close>

theorem instance_memory_safe:
  assumes "TF_InitStatic (Some tf0) peer = (Some tf, True)" and "callbacks_ok E"
    and "tf_run E tf t" and "event_ok ev"
  shows "tf_inv t \<and> (\<exists>u. tf_event_step E ev t = Some u)"
proof -
  have "tf = (TF_zero (wire tf0))\<lparr>usertag := usertag tf0, userdata := userdata tf0, peer_bit := peer\<rparr>"
    using assms(1) by (simp add: TF_InitStatic_def Let_def)
  then have "tf_inv tf"
    using tf_inv_zero [of "wire tf0"] inv_same [of "TF_zero (wire tf0)" tf]
    by (simp add: tf_inv_def same_defs)
  with tf_run_inv [OF assms(3,2)] tf_run_defined [OF assms(3,2) _ assms(4)] show ?thesis by simp
qed

lemma callbacks_ok_idle: "callbacks_ok \<lparr>env_call = \<lambda>f tf m. (TF_STAY, m, tf), env_msg = TF_ClearMsg\<rparr>"
  by (simp add: callbacks_ok_def keeps_id_listeners_def)

theorem instance_memory_safe_witness:
  "\<exists>t u. TF_AcceptChar (the (fst (TF_InitStatic (Some (TF_zero [])) TF_MASTER))) 1 = Some (t, 1) \<and>
    tf_inv t \<and>
    tf_event_step \<lparr>env_call = \<lambda>f tf m. (TF_STAY, m, tf), env_msg = TF_ClearMsg\<rparr> Ev_Tick t = Some u"
proof -
  let ?E = "\<lparr>env_call = \<lambda>f tf m. (TF_STAY, m, tf), env_msg = TF_ClearMsg\<rparr>"
  let ?tf = "the (fst (TF_InitStatic (Some (TF_zero [])) TF_MASTER))"
  have init: "TF_InitStatic (Some (TF_zero [])) TF_MASTER = (Some ?tf, True)"
    by (simp add: TF_InitStatic_def Let_def)
  obtain t where t: "TF_AcceptChar ?tf 1 = Some (t, 1)"
    by (simp add: TF_InitStatic_def Let_def TF_zero_def TF_AcceptChar_def timeout_sof accept_sof_def
        TF_SOF_BYTE_def)
  then have "tf_event_step ?E (Ev_Byte 1) ?tf = Some t" by simp
  then have "tf_run ?E ?tf t"
    using tf_run_step [OF tf_run_refl, of "Ev_Byte 1"] by simp
  from instance_memory_safe [OF init callbacks_ok_idle this, of Ev_Tick] t show ?thesis by auto
qed

section \<open>Checksums\<close>

text \<open>
  C7. The table-driven CRC-16 and CRC-32 steps are the bit-serial steps of the reflected polynomials
  0xA001 and 0xEDB88320, for every state and byte.
\<close>

theorem crc_tables_bit_serial:
  "TF_CksumAdd_crc16 c b = crc_byte 0xA001 c b \<and> TF_CksumAdd_crc32 d b = crc_byte 0xEDB88320 d b"
  by (simp add: crc16_add_eq crc32_add_eq)

text \<open>
  C8. With the CRC-32 configuration one damaged byte anywhere in a stream changes the checksum.
\<close>

theorem crc32_detects_byte:
  assumes "b \<noteq> b'"
  shows "TF_CksumEnd_crc32 (foldl TF_CksumAdd_crc32 TF_CksumStart_crc32 (xs @ b # ys)) \<noteq>
    TF_CksumEnd_crc32 (foldl TF_CksumAdd_crc32 TF_CksumStart_crc32 (xs @ b' # ys))"
  using assms by (rule ck_crc32.single_byte_detected)

theorem crc32_detects_byte_witness:
  "TF_CksumEnd_crc32 (foldl TF_CksumAdd_crc32 TF_CksumStart_crc32 ([3] @ 1 # [4])) \<noteq>
    TF_CksumEnd_crc32 (foldl TF_CksumAdd_crc32 TF_CksumStart_crc32 ([3] @ 2 # [4]))"
  by (rule crc32_detects_byte) simp

section \<open>Listeners\<close>

text \<open>
  C9. \<open>TF_AddIdListener\<close> adds exactly one listener to the live ones when one of the ten slots is
  free and refuses otherwise, changing nothing.
\<close>

theorem add_id_listener_refines:
  assumes "id_table_inv tf"
  shows "\<exists>tf'. TF_AddIdListener tf msg (Some f) timeout =
      Some (tf', size (live_id_listeners tf) < TF_MAX_ID_LST) \<and> id_table_inv tf' \<and>
    live_id_listeners tf' = (if size (live_id_listeners tf) < TF_MAX_ID_LST
      then add_mset \<lparr>il_id = frame_id msg, il_fn = Some f, il_timeout = timeout,
        il_timeout_max = timeout, il_userdata = msg_userdata msg, il_userdata2 = msg_userdata2 msg\<rparr>
        (live_id_listeners tf)
      else live_id_listeners tf)"
proof -
  have "length (filter P xs) < length xs \<longleftrightarrow> (\<exists>x \<in> set xs. \<not> P x)" for P and xs :: "TF_IdListener list"
    by (metis filter_True length_filter_le length_filter_less nat_neq_iff not_le)
  from this [of id_live "id_listeners tf"]
  have "size (live_id_listeners tf) < TF_MAX_ID_LST \<longleftrightarrow> (\<exists>l \<in> set (id_listeners tf). \<not> id_live l)"
    using assms by (simp add: live_id_listeners_def id_table_inv_def flip: mset_filter)
  with TF_AddIdListener_spec [OF assms, of msg f timeout] show ?thesis by simp
qed

theorem add_id_listener_refines_witness:
  "\<exists>tf'. TF_AddIdListener (TF_zero []) TF_ClearMsg (Some 4) 9 = Some (tf', True) \<and>
    live_id_listeners tf' = {#\<lparr>il_id = 0, il_fn = Some 4, il_timeout = 9, il_timeout_max = 9,
      il_userdata = None, il_userdata2 = None\<rparr>#}"
proof -
  have "live_id_listeners (TF_zero []) = {#}"
    by (simp add: live_id_listeners_def TF_zero_def id_live_def TF_MAX_ID_LST_def)
  with add_id_listener_refines [OF zero_ready(2) [of "[]"], of TF_ClearMsg 4 9] show ?thesis
    by (auto simp add: TF_ClearMsg_def TF_MAX_ID_LST_def)
qed

text \<open>
  C10. \<open>TF_RemoveIdListener\<close> takes one live listener with the ID out of the table when there is one,
  and changes nothing otherwise, although its search stops at \<open>count_id_lst\<close>.
\<close>

theorem remove_id_listener_refines:
  assumes "id_table_inv tf" and "keeps_id_listeners E"
  shows "\<exists>tf'. TF_RemoveIdListener E tf fid = Some (tf', \<exists>l \<in># live_id_listeners tf. il_id l = fid) \<and>
    id_table_inv tf' \<and>
    (if \<exists>l \<in># live_id_listeners tf. il_id l = fid
     then \<exists>l \<in># live_id_listeners tf. il_id l = fid \<and> live_id_listeners tf' = live_id_listeners tf - {#l#}
     else tf' = tf)"
  using assms by (rule TF_RemoveIdListener_spec)

theorem remove_id_listener_refines_witness:
  "\<exists>tf tf'. TF_AddIdListener (TF_zero []) TF_ClearMsg (Some 4) 9 = Some (tf, True) \<and>
    TF_RemoveIdListener \<lparr>env_call = \<lambda>f tf m. (TF_STAY, m, tf), env_msg = TF_ClearMsg\<rparr> tf 5 = Some (tf, False) \<and>
    TF_RemoveIdListener \<lparr>env_call = \<lambda>f tf m. (TF_STAY, m, tf), env_msg = TF_ClearMsg\<rparr> tf 0 = Some (tf', True) \<and>
    live_id_listeners tf' = {#}"
proof -
  let ?E = "\<lparr>env_call = \<lambda>f tf m. (TF_STAY, m, tf), env_msg = TF_ClearMsg\<rparr>"
  have "live_id_listeners (TF_zero []) = {#}" "\<exists>l \<in> set (id_listeners (TF_zero [])). \<not> id_live l"
    by (simp_all add: live_id_listeners_def TF_zero_def id_live_def TF_MAX_ID_LST_def)
  with TF_AddIdListener_spec [OF zero_ready(2) [of "[]"], of TF_ClearMsg 4 9] obtain tf where
    tf: "TF_AddIdListener (TF_zero []) TF_ClearMsg (Some 4) 9 = Some (tf, True)" "id_table_inv tf"
      "live_id_listeners tf = {#\<lparr>il_id = 0, il_fn = Some 4, il_timeout = 9, il_timeout_max = 9,
        il_userdata = None, il_userdata2 = None\<rparr>#}" by (auto simp: TF_ClearMsg_def)
  have E: "keeps_id_listeners ?E" using callbacks_ok_idle by (simp add: callbacks_ok_def)
  from remove_id_listener_refines [OF tf(2) E, of 0] obtain tf' where
    "TF_RemoveIdListener ?E tf 0 = Some (tf', True)" "live_id_listeners tf' = {#}" by (auto simp: tf(3))
  moreover have "TF_RemoveIdListener ?E tf 5 = Some (tf, False)"
    using remove_id_listener_refines [OF tf(2) E, of 5] by (simp add: tf(3))
  ultimately show ?thesis using tf(1) by blast
qed

text \<open>
  C11. An ID listener with a timeout of \<open>t > 0\<close> ticks is live until tick \<open>t\<close>, and gone from then on;
  one with timeout 0 stays.
\<close>

theorem id_listener_expires:
  assumes "id_table_inv tf" and "keeps_id_listeners E" and "i < TF_MAX_ID_LST"
    and "il_fn (id_listeners tf ! i) = Some f"
  shows "\<exists>tf'. TF_Ticks E n tf = Some tf' \<and>
    il_fn (id_listeners tf' ! i) =
      (if il_timeout (id_listeners tf ! i) = 0 \<or> n < unat (il_timeout (id_listeners tf ! i))
       then Some f else None)"
proof -
  have i: "i < length (id_listeners tf)" and live: "id_live (id_listeners tf ! i)"
    using assms by (simp_all add: id_table_inv_def id_live_def)
  from TF_Ticks_map [OF assms(1,2), of n] obtain tf' where "TF_Ticks E n tf = Some tf'"
    "id_listeners tf' = map (tick_slot ^^ n) (id_listeners tf)" by blast
  with i assms(4) show ?thesis by (simp add: tick_slot_pow [OF live])
qed

theorem id_listener_expires_witness:
  "\<exists>tf tf'. il_fn (id_listeners tf ! 0) = Some 4 \<and> il_timeout (id_listeners tf ! 0) = 2 \<and>
    TF_Ticks \<lparr>env_call = \<lambda>f tf m. (TF_STAY, m, tf), env_msg = TF_ClearMsg\<rparr> 2 tf = Some tf' \<and>
    il_fn (id_listeners tf' ! 0) = None"
proof -
  let ?l = "\<lparr>il_id = 1, il_fn = Some 4, il_timeout = 2, il_timeout_max = 2, il_userdata = None,
    il_userdata2 = None\<rparr>"
  define tf where "tf = (TF_zero [])\<lparr>id_listeners := (id_listeners (TF_zero []))[0 := ?l], count_id_lst := 1\<rparr>"
  have tf: "id_table_inv tf" "il_fn (id_listeners tf ! 0) = Some 4" "il_timeout (id_listeners tf ! 0) = 2"
    by (auto simp: tf_def id_table_inv_def TF_zero_def id_live_def TF_MAX_ID_LST_def nth_list_update)
  with id_listener_expires [of tf "\<lparr>env_call = \<lambda>f tf m. (TF_STAY, m, tf), env_msg = TF_ClearMsg\<rparr>" 0 4 2]
    callbacks_ok_idle
  have "\<exists>tf'. TF_Ticks \<lparr>env_call = \<lambda>f tf m. (TF_STAY, m, tf), env_msg = TF_ClearMsg\<rparr> 2 tf = Some tf' \<and>
      il_fn (id_listeners tf' ! 0) = None"
    by (simp add: callbacks_ok_def TF_MAX_ID_LST_def)
  with tf show ?thesis by blast
qed

text \<open>
  C12. A query that finds all ID slots taken fails and keeps the transmit lock: no later frame is
  sent.
\<close>

theorem failed_query_keeps_lock:
  assumes "tx_idle tf" and "id_table_inv tf" and "\<forall>l \<in> set (id_listeners tf). id_live l"
  shows "\<exists>tf' m. TF_SendFrame tf msg (Some f) timeout = Some (tf', m, False) \<and>
    wire tf' = wire tf \<and>
    (\<forall>msg2 listener t. TF_SendFrame tf' msg2 listener t = Some (tf', msg2, False))"
proof -
  let ?m = "msg\<lparr>frame_id := frame_id_of tf msg\<rparr>"
  have full: "TF_AddIdListener t m (Some f) timeout = Some (t, False)"
    if "id_listeners t = id_listeners tf" "count_id_lst t = count_id_lst tf" for t m
  proof -
    have "scan (\<lambda>l. \<not> id_live l) (id_listeners t) TF_MAX_ID_LST = Some None"
      using that assms(2,3) by (simp add: scan_NotFound id_table_inv_def)
    then show ?thesis by (rule id_tab.insert_full [of t "(m, f, timeout)", simplified])
  qed
  have "11 \<le> length (sendbuf tf)" "\<not> soft_lock tf"
    using assms(1) by (simp_all add: tx_idle_def TF_SENDBUF_LEN_def)
  then have "\<exists>tf'. TF_SendFrame tf msg (Some f) timeout = Some (tf', ?m, False)
      \<and> wire tf' = wire tf \<and> soft_lock tf'"
    by (simp add: TF_SendFrame_def TF_SendFrame_Begin_def TF_ClaimTx_def TF_ComposeHead_eq full)
  then show ?thesis using TF_SendFrame_locked by blast
qed

definition full_instance :: TinyFrame where
  "full_instance = (TF_zero [])\<lparr>id_listeners := replicate 10 \<lparr>il_id = 1, il_fn = Some 4, il_timeout = 0,
     il_timeout_max = 0, il_userdata = None, il_userdata2 = None\<rparr>, count_id_lst := 10\<rparr>"

theorem failed_query_keeps_lock_witness:
  "\<exists>tf' m. TF_SendFrame full_instance TF_ClearMsg (Some 4) 9 = Some (tf', m, False) \<and>
    TF_SendFrame tf' TF_ClearMsg None 0 = Some (tf', TF_ClearMsg, False)"
proof -
  have "tx_idle full_instance" "id_table_inv full_instance"
    "\<forall>l \<in> set (id_listeners full_instance). id_live l"
    using zero_ready [of "[]"]
    by (simp_all add: full_instance_def tx_idle_def id_table_inv_def id_live_def TF_MAX_ID_LST_def)
  from failed_query_keeps_lock [OF this, of TF_ClearMsg 4 9] show ?thesis by blast
qed

section \<open>Edges of the receiver\<close>

text \<open>
  C13. A frame that announces more than 128 bytes is skipped to its end: no byte of it is stored
  and the parser is ready again; but its last byte is answered with 0 like that of a good frame,
  whatever its checksum.
\<close>

theorem oversized_frame_skipped:
  assumes "rx_ready rx" and "unat len = length data" and "TF_MAX_PAYLOAD_RX < length data"
  shows "\<exists>rx'. accept_results rx (head_fields fid len ty @ [hc] @ data @ [dc]) =
      Some (rx', [1, -2, 2, -3, 3, -4, 4, -9] @ replicate (length data) (-6) @ [0]) \<and>
    rx_ready rx' \<and> rx_data rx' = rx_data rx"
  using assms by (rule accept_oversized)

theorem oversized_frame_skipped_witness:
  "\<exists>rx'. accept_results (TF_zero []) (head_fields 3 200 7 @ [0] @ replicate 200 5 @ [9]) =
      Some (rx', [1, -2, 2, -3, 3, -4, 4, -9] @ replicate 200 (-6) @ [0])"
  using oversized_frame_skipped [of "TF_zero []" 200 "replicate 200 5" 3 7 0 9] zero_ready [of "[]"]
  by (auto simp: TF_MAX_PAYLOAD_RX_def)

text \<open>
  An empty frame ends at its type field: the parser answers 0 before it has seen the header
  checksum that the sender puts behind it, and takes that byte as the first of a new frame when
  it has the value of the start byte.
\<close>

theorem empty_frame_ends_early:
  assumes "rx_ready rx"
  shows "\<exists>rx'. accept_results rx (frame_bytes fid 0 ty []) =
      Some (rx', [1, -2, 2, -3, 3, -4, 0, if cksum_of (head_fields fid 0 ty) = TF_SOF_BYTE then 1 else -1]) \<and>
    rx_id rx' = fid \<and> rx_type rx' = ty \<and>
    state rx' = (if cksum_of (head_fields fid 0 ty) = TF_SOF_BYTE then TFState_ID else TFState_SOF)"
proof -
  let ?t = "after_head_fields rx fid 0 ty" and ?c = "cksum_of (head_fields fid 0 ty)"
  have sof: "state ?t = TFState_SOF" by (simp add: after_head_fields_def)
  then have step: "TF_AcceptChar ?t ?c = Some (accept_sof (?t\<lparr>parser_timeout_ticks := 0\<rparr>) ?c)"
    by (simp add: TF_AcceptChar_def timeout_sof)
  have "accept_results rx (head_fields fid 0 ty) = Some (?t, [1, -2, 2, -3, 3, -4, 0])"
    using assms by (simp add: accept_head_fields rx_ready_def)
  with accept_results_append [of rx "head_fields fid 0 ty" "[?c]"] step show ?thesis
    by (simp add: frame_bytes_def head_bytes_def tail_bytes_def accept_sof_def pars_begin_frame_def
        after_head_fields_def)
qed

theorem empty_frame_ends_early_witness:
  "\<exists>rx'. accept_results (TF_zero []) (frame_bytes 3 0 0xFC []) =
      Some (rx', [1, -2, 2, -3, 3, -4, 0, 1]) \<and> state rx' = TFState_ID"
  using empty_frame_ends_early [OF zero_ready(3) [of "[]"], of 3 "0xFC"]
  by (auto simp add: head_fields_def cksum_of_def be16_def TF_CksumAdd_def TF_CksumEnd_def
      TF_CksumStart_def TF_SOF_BYTE_def)

text \<open>
  C14. Any number of frames of 1 to 128 bytes, one after the other and each after noise without a
  start byte, are all received: a client that reads the ID, the type and the payload whenever the
  parser answers 0 has collected exactly the frames that were sent, in their order, and the parser is
  ready for the next.
\<close>

theorem frames_in_noise_received:
  assumes "rx_ready rx" and "\<forall>(noise, f) \<in> set nfs. TF_SOF_BYTE \<notin> set noise \<and> frame_ok f"
  shows "\<exists>rx'. accept_results rx (concat (map (\<lambda>(noise, f). noise @ wire_of f) nfs)) =
      Some (rx', concat (map (\<lambda>(noise, f). replicate (length noise) (-1) @ answers f) nfs)) \<and> rx_ready rx' \<and>
    frames_received rx (concat (map (\<lambda>(noise, f). noise @ wire_of f) nfs)) = Some (rx', map snd nfs)"
  using assms
proof (induction nfs arbitrary: rx)
  case Nil
  then show ?case by simp
next
  case (Cons nf nfs)
  obtain noise f where nf: "nf = (noise, f)" by (cases nf)
  from accept_noisy_frame [OF Cons.prems(1), of noise f] Cons.prems(2) obtain u
    where u: "accept_results rx (noise @ wire_of f) = Some (u, replicate (length noise) (-1) @ answers f)" "rx_ready u"
      "frames_received rx (noise @ wire_of f) = Some (u, [f])" by (auto simp: nf)
  from Cons.IH [OF u(2)] Cons.prems(2) obtain v
    where "accept_results u (concat (map (\<lambda>(noise, f). noise @ wire_of f) nfs)) =
        Some (v, concat (map (\<lambda>(noise, f). replicate (length noise) (-1) @ answers f) nfs))" "rx_ready v"
      "frames_received u (concat (map (\<lambda>(noise, f). noise @ wire_of f) nfs)) = Some (v, map snd nfs)"
    by auto
  with accept_results_appendI [OF u(1)] frames_received_appendI [OF u(3)] show ?case
    by (simp add: nf)
qed

theorem frames_in_noise_received_witness:
  "\<exists>rx'. accept_results (TF_zero []) ([7, 8] @ wire_of (3, 4, [5]) @ wire_of (6, 9, [2])) =
      Some (rx', [-1, -1, 1, -2, 2, -3, 3, -4, 4, 5, 6, 0, 1, -2, 2, -3, 3, -4, 4, 5, 6, 0]) \<and>
    frames_received (TF_zero []) ([7, 8] @ wire_of (3, 4, [5]) @ wire_of (6, 9, [2])) = Some (rx', [(3, 4, [5]), (6, 9, [2])])"
  using frames_in_noise_received [of "TF_zero []" "[([7, 8], (3, 4, [5])), ([], (6, 9, [2]))]"] zero_ready [of "[]"]
  by (auto simp: frame_ok_def answers_def TF_MAX_PAYLOAD_RX_def TF_SOF_BYTE_def)

text \<open>
  \<open>tinyFramefRx\<close> finds a frame at the start of its buffer, returns its type, and leaves the
  instance holding the frame.
\<close>

theorem tinyFramefRx_receives:
  assumes "rx_ready (ft_rx g)" and "frame_ok (fid, ty, data)"
    and "take (length (wire_of (fid, ty, data))) (g_TfRxBuff g) = wire_of (fid, ty, data)"
    and "length (wire_of (fid, ty, data)) \<le> unat (g_TfWriteCount g)"
  shows "\<exists>g' rv'. tinyFramefRx g rv = Some (g', rv') \<and> receiveType rv' = ty \<and>
    rx_ready (ft_rx g') \<and> received (ft_rx g') fid ty data"
  using assms by (rule tinyFramefRx_frame)

theorem tinyFramefRx_receives_witness:
  "\<exists>g' rv'. tinyFramefRx initial_globals \<lparr>receiveType = 0, revuint32Data = 0, revfloatData = 0\<rparr>
      = Some (g', rv') \<and> receiveType rv' = 0xFFFF \<and> received (ft_rx g') 0 0xFFFF [1, 1, 0, 0]"
proof -
  have w: "wire_of (0, 0xFFFF, [1, 1, 0, 0]) = [0x01, 0x0, 0x0, 0x0, 0x04, 0xFF, 0xFF, 0xFA, 0x01, 0x01, 0x0, 0x0, 0xFF]"
    by (simp add: wire_of_def frame_bytes_def head_bytes_def head_fields_def tail_bytes_def cksum_of_def
        be16_def TF_CksumAdd_def TF_CksumEnd_def TF_CksumStart_def TF_SOF_BYTE_def)
  show ?thesis
    using tinyFramefRx_receives [of initial_globals 0 "0xFFFF" "[1, 1, 0, 0]"
        "\<lparr>receiveType = 0, revuint32Data = 0, revfloatData = 0\<rparr>"] zero_ready(3) [of "[]"]
    by (auto simp: w initial_globals_def frame_ok_def TF_MAX_PAYLOAD_RX_def)
qed

end
